(* ===== verification/Prelude.thy ===== *)
theory Prelude
  imports Main "HOL-Library.Char_ord" "HOL-Library.List_Lexorder" "HOL-Library.Product_Lexorder"
    "HOL-Library.Multiset"
begin

text \<open>
  The shared vocabulary of the development.

  A fallible operation of the Go sources, \<open>func f(...) (T, error)\<close>, is a function into the sum
  \<open>'e + 'a\<close>: \<open>Inl e\<close> is the non-nil error and \<open>Inr x\<close> the result. A table of the SQLite
  database is a list of rows in insertion order; the few SQL forms the store uses are the list
  functions below, so that every statement of the store is one call:

  \<^item> \<open>SELECT ... WHERE P LIMIT 1\<close> on a key is \<open>select_row\<close>, \<open>EXISTS\<close> is \<open>exists_row\<close>;
  \<^item> \<open>UPDATE ... SET f WHERE P\<close> is \<open>update_rows\<close>, \<open>DELETE ... WHERE P\<close> is \<open>delete_rows\<close>;
  \<^item> \<open>COALESCE(MAX(f),0)\<close> is \<open>max_column\<close>; \<open>ORDER BY\<close> is \<open>sort_key\<close> and \<open>LIMIT\<close> is \<open>take\<close>.

  The collection \<open>row_simps\<close> gathers the facts that carry the proofs about the store.
\<close>

named_theorems row_simps "how the table operations act on keys, membership and lookups"

section \<open>Results\<close>

type_synonym ('e, 'a) result = "'e + 'a"

definition is_ok :: "('e, 'a) result \<Rightarrow> bool" where
  "is_ok r \<longleftrightarrow> (case r of Inl _ \<Rightarrow> False | Inr _ \<Rightarrow> True)"

lemma is_ok_simps [simp]: "is_ok (Inr x)" "\<not> is_ok (Inl e)"
  by (simp_all add: is_ok_def)

text \<open>
  \<open>if err != nil { return err }\<close> is \<open>bind_res\<close>, an early return under a condition is \<open>fail_if\<close>,
  and the error for a missing row is \<open>or_fail\<close>. Their \<open>Inr\<close> rules turn "the operation
  committed" into the list of steps that succeeded.
\<close>

definition bind_res :: "('e, 'a) result \<Rightarrow> ('a \<Rightarrow> ('e, 'b) result) \<Rightarrow> ('e, 'b) result" where
  "bind_res r f = (case r of Inl e \<Rightarrow> Inl e | Inr x \<Rightarrow> f x)"

definition fail_if :: "bool \<Rightarrow> 'e \<Rightarrow> ('e, unit) result" where
  "fail_if c e = (if c then Inl e else Inr ())"

definition or_fail :: "'e \<Rightarrow> 'a option \<Rightarrow> ('e, 'a) result" where
  "or_fail e v = (case v of None \<Rightarrow> Inl e | Some x \<Rightarrow> Inr x)"

definition map_err :: "('e \<Rightarrow> 'f) \<Rightarrow> ('e, 'a) result \<Rightarrow> ('f, 'a) result" where
  "map_err g r = (case r of Inl e \<Rightarrow> Inl (g e) | Inr x \<Rightarrow> Inr x)"

lemma bind_res_simps [simp]: "bind_res (Inr x) f = f x" "bind_res (Inl e) f = Inl e"
  by (simp_all add: bind_res_def)

lemma bind_res_Inr_iff [simp]: "bind_res r f = Inr y \<longleftrightarrow> (\<exists>x. r = Inr x \<and> f x = Inr y)"
  by (cases r) auto

lemma bind_res_cong [fundef_cong]:
  "r = r' \<Longrightarrow> (\<And>x. r' = Inr x \<Longrightarrow> f x = f' x) \<Longrightarrow> bind_res r f = bind_res r' f'"
  by (cases r') auto

lemma fail_if_Inr_iff [simp]: "fail_if c e = Inr u \<longleftrightarrow> \<not> c"
  by (simp add: fail_if_def)

lemma fail_if_simps [simp]: "fail_if False e = Inr ()" "fail_if True e = Inl e"
  by (simp_all add: fail_if_def)

lemma or_fail_Inr_iff [simp]: "or_fail e v = Inr x \<longleftrightarrow> v = Some x"
  by (auto simp: or_fail_def split: option.splits)

lemma or_fail_simps [simp]: "or_fail e None = Inl e" "or_fail e (Some x) = Inr x"
  by (simp_all add: or_fail_def)

lemma map_err_Inr_iff [simp]: "map_err g r = Inr x \<longleftrightarrow> r = Inr x"
  by (cases r) (auto simp: map_err_def)

lemma map_err_simps [simp]: "map_err g (Inr x) = Inr x" "map_err g (Inl e) = Inl (g e)"
  by (simp_all add: map_err_def)

section \<open>Transactions\<close>

text \<open>
  A request that fails leaves the state as it was, a request that commits replaces it; a sequence
  of requests is the serial order in which they committed. The locale \<open>transactions\<close> is the
  contract between a group of operations and an invariant, \<open>monotone_transactions\<close> adds a relation
  no request can undo.
\<close>

definition commit :: "'s \<Rightarrow> ('e, 'a \<times> 's) result \<Rightarrow> 's" where
  "commit s r = (case r of Inl _ \<Rightarrow> s | Inr (_, s') \<Rightarrow> s')"

primrec run_requests :: "('q \<Rightarrow> 's \<Rightarrow> ('e, 'a \<times> 's) result) \<Rightarrow> 'q list \<Rightarrow> 's \<Rightarrow> 's" where
  "run_requests exec [] s = s"
| "run_requests exec (q # qs) s = run_requests exec qs (commit s (exec q s))"

lemma commit_simps [simp]: "commit s (Inl e) = s" "commit s (Inr (x, s')) = s'"
  by (simp_all add: commit_def)

lemma run_requests_append: "run_requests exec (xs @ ys) s = run_requests exec ys (run_requests exec xs s)"
  by (induction xs arbitrary: s) simp_all

locale transactions =
  fixes inv :: "'s \<Rightarrow> bool" and req_ok :: "'q \<Rightarrow> bool"
    and exec :: "'q \<Rightarrow> 's \<Rightarrow> ('e, 'a \<times> 's) result"
  assumes inv_exec: "inv s \<Longrightarrow> req_ok q \<Longrightarrow> exec q s = Inr (x, s') \<Longrightarrow> inv s'"
begin

lemma inv_commit: "inv s \<Longrightarrow> req_ok q \<Longrightarrow> inv (commit s (exec q s))"
  by (cases "exec q s") (auto intro: inv_exec)

lemma inv_run: "inv s \<Longrightarrow> list_all req_ok qs \<Longrightarrow> inv (run_requests exec qs s)"
  by (induction qs arbitrary: s) (auto intro: inv_commit)

end

locale monotone_transactions = transactions inv req_ok exec
  for inv :: "'s \<Rightarrow> bool" and req_ok :: "'q \<Rightarrow> bool"
    and exec :: "'q \<Rightarrow> 's \<Rightarrow> ('e, 'a \<times> 's) result" +
  fixes before :: "'s \<Rightarrow> 's \<Rightarrow> bool"
  assumes before_refl: "before s s"
    and before_trans: "before s t \<Longrightarrow> before t u \<Longrightarrow> before s u"
    and before_exec: "inv s \<Longrightarrow> req_ok q \<Longrightarrow> exec q s = Inr (x, s') \<Longrightarrow> before s s'"
begin

lemma before_commit: "inv s \<Longrightarrow> req_ok q \<Longrightarrow> before s (commit s (exec q s))"
  by (cases "exec q s") (auto intro: before_exec before_refl)

lemma before_run: "inv s \<Longrightarrow> list_all req_ok qs \<Longrightarrow> before s (run_requests exec qs s)"
proof (induction qs arbitrary: s)
  case Nil
  show ?case by (simp add: before_refl)
next
  case (Cons q qs)
  then have "before s (commit s (exec q s))" "inv (commit s (exec q s))"
    by (auto intro: before_commit inv_commit)
  with Cons show ?case by (auto intro: before_trans)
qed

end

section \<open>Tables as lists of rows\<close>

definition select_row :: "('r \<Rightarrow> bool) \<Rightarrow> 'r list \<Rightarrow> 'r option" where
  "select_row P rows = List.find P rows"

definition exists_row :: "('r \<Rightarrow> bool) \<Rightarrow> 'r list \<Rightarrow> bool" where
  "exists_row P rows \<longleftrightarrow> list_ex P rows"

definition update_rows :: "('r \<Rightarrow> bool) \<Rightarrow> ('r \<Rightarrow> 'r) \<Rightarrow> 'r list \<Rightarrow> 'r list" where
  "update_rows P f rows = map (\<lambda>r. if P r then f r else r) rows"

definition delete_rows :: "('r \<Rightarrow> bool) \<Rightarrow> 'r list \<Rightarrow> 'r list" where
  "delete_rows P rows = filter (\<lambda>r. \<not> P r) rows"

definition rows_affected :: "('r \<Rightarrow> bool) \<Rightarrow> 'r list \<Rightarrow> nat" where
  "rows_affected P rows = length (filter P rows)"

definition max_column :: "('r \<Rightarrow> nat) \<Rightarrow> 'r list \<Rightarrow> nat" where
  "max_column f rows = fold (\<lambda>r m. max (f r) m) rows 0"

lemma exists_row_iff [row_simps]: "exists_row P rows \<longleftrightarrow> (\<exists>r \<in> set rows. P r)"
  by (simp add: exists_row_def list_ex_iff)

lemma select_row_None [row_simps]: "select_row P rows = None \<longleftrightarrow> (\<forall>r \<in> set rows. \<not> P r)"
  by (auto simp: select_row_def find_None_iff)

lemma select_row_SomeD: "select_row P rows = Some r \<Longrightarrow> r \<in> set rows \<and> P r"
  by (auto simp: select_row_def find_Some_iff)

lemma select_row_Nil [simp]: "select_row P [] = None"
  by (simp add: select_row_def)

lemma select_row_Cons [simp]:
  "select_row P (r # rows) = (if P r then Some r else select_row P rows)"
  by (simp add: select_row_def)

lemma select_row_append [row_simps]:
  "select_row P (xs @ ys) = (case select_row P xs of None \<Rightarrow> select_row P ys | Some r \<Rightarrow> Some r)"
  by (induction xs) auto

lemma select_row_append_Some [simp]:
  "select_row P xs = Some r \<Longrightarrow> select_row P (xs @ ys) = Some r"
  by (simp add: select_row_append)

lemma select_row_update_other:
  assumes "\<And>r. Q r \<Longrightarrow> \<not> P r" and "\<And>r. Q r \<Longrightarrow> \<not> P (f r)"
  shows "select_row P (update_rows Q f rows) = select_row P rows"
  using assms by (induction rows) (auto simp: update_rows_def)

lemma select_row_update_key:
  assumes "\<And>r. P (f r) = P r"
  shows "select_row P (update_rows Q f rows) =
    map_option (\<lambda>r. if Q r then f r else r) (select_row P rows)"
  using assms by (induction rows) (auto simp: update_rows_def)

lemma select_row_delete_other:
  assumes "\<And>r. P r \<Longrightarrow> \<not> Q r"
  shows "select_row P (delete_rows Q rows) = select_row P rows"
  using assms by (induction rows) (auto simp: delete_rows_def)

lemma select_row_delete_same [simp]: "select_row P (delete_rows P rows) = None"
  by (auto simp: select_row_None delete_rows_def)

lemma set_update_rows [row_simps]:
  "set (update_rows P f rows) = (\<lambda>r. if P r then f r else r) ` set rows"
  by (simp add: update_rows_def)

lemma update_rowsE:
  assumes "x \<in> set (update_rows P f rows)"
  obtains y where "y \<in> set rows" "x = (if P y then f y else y)"
  using assms unfolding update_rows_def set_map by (elim imageE)

lemma exists_row_update: "exists_row Q (update_rows P f rows) \<longleftrightarrow> exists_row (\<lambda>r. Q (if P r then f r else r)) rows"
  by (simp add: exists_row_def update_rows_def list_ex_iff del: if_image_distrib)

lemma update_rows_in: "y \<in> set rows \<Longrightarrow> (if P y then f y else y) \<in> set (update_rows P f rows)"
  unfolding update_rows_def set_map by (rule imageI)

lemma set_delete_rows [row_simps]: "set (delete_rows P rows) = {r \<in> set rows. \<not> P r}"
  by (auto simp: delete_rows_def)

lemma map_update_rows [row_simps]:
  assumes "\<And>r. P r \<Longrightarrow> k (f r) = k r"
  shows "map k (update_rows P f rows) = map k rows"
  using assms by (simp add: update_rows_def)

lemma length_update_rows [simp]: "length (update_rows P f rows) = length rows"
  by (simp add: update_rows_def)

lemma distinct_map_delete_rows [intro]:
  "distinct (map k rows) \<Longrightarrow> distinct (map k (delete_rows P rows))"
  by (simp add: delete_rows_def distinct_map_filter)

lemma update_rows_noop:
  "\<not> exists_row P rows \<Longrightarrow> update_rows P f rows = rows"
  by (auto simp: update_rows_def exists_row_iff intro: map_idI)

lemma delete_rows_noop: "\<not> exists_row P rows \<Longrightarrow> delete_rows P rows = rows"
  by (auto simp: delete_rows_def exists_row_iff filter_id_conv)

lemma rows_affected_0 [row_simps]: "rows_affected P rows = 0 \<longleftrightarrow> \<not> exists_row P rows"
  by (auto simp: rows_affected_def exists_row_iff filter_empty_conv)

lemma select_row_key_unique:
  assumes "distinct (map k rows)" and "r \<in> set rows"
  shows "select_row (\<lambda>x. k x = k r) rows = Some r"
  using assms by (induction rows) auto

lemma select_row_update_at_key:
  assumes "\<And>r. P r \<Longrightarrow> key (f r) = k" and "\<And>r. P r \<longleftrightarrow> key r = k"
  shows "select_row (\<lambda>r. key r = x) (update_rows P f rows) =
    (if x = k then map_option f (select_row (\<lambda>r. key r = k) rows) else select_row (\<lambda>r. key r = x) rows)"
  using assms by (induction rows) (auto simp: update_rows_def)

lemma select_row_delete_at_key:
  "select_row (\<lambda>r. key r = x) (delete_rows (\<lambda>r. key r = k) rows) =
    (if x = k then None else select_row (\<lambda>r. key r = x) rows)"
  by (induction rows) (auto simp: delete_rows_def)

lemma select_row_upsert:
  assumes "rows' = (case select_row (\<lambda>r. key r = k) rows of None \<Rightarrow> rows @ [new]
        | Some c \<Rightarrow> update_rows (\<lambda>r. key r = k) f rows)"
    and "key new = k" "g new = v" and "\<And>r. key (f r) = k" "\<And>r. g (f r) = v"
  shows "map_option g (select_row (\<lambda>r. key r = x) rows') =
    (if x = k then Some v else map_option g (select_row (\<lambda>r. key r = x) rows))"
proof (cases "select_row (\<lambda>r. key r = k) rows")
  case None
  with assms show ?thesis by (auto simp: select_row_append split: option.splits)
next
  case (Some c)
  then have "rows' = update_rows (\<lambda>r. key r = k) f rows" using assms by simp
  then have "select_row (\<lambda>r. key r = x) rows' = (if x = k then map_option f (Some c) else select_row (\<lambda>r. key r = x) rows)"
    using select_row_update_at_key[where key = key and k = k and P = "\<lambda>r. key r = k" and f = f] assms(4) Some by simp
  then show ?thesis using assms(5) by simp
qed

lemma fold_max_start: "fold (\<lambda>r m. max (f r) m) rows a = max a (fold (\<lambda>r m. max (f r) m) rows (0::nat))"
proof (induction rows arbitrary: a)
  case Nil
  then show ?case by simp
next
  case (Cons r rows)
  show ?case using Cons[of "max (f r) a"] Cons[of "f r"] by (simp add: max.assoc max.commute)
qed

lemma max_column_Nil [simp]: "max_column f [] = 0"
  by (simp add: max_column_def)

lemma max_column_Cons [simp]: "max_column f (r # rows) = max (f r) (max_column f rows)"
  using fold_max_start[of f rows "f r"] by (simp add: max_column_def)

lemma max_column_append [simp]: "max_column f (xs @ ys) = max (max_column f xs) (max_column f ys)"
  by (induction xs) (auto simp: max.assoc)

lemma max_column_ge: "r \<in> set rows \<Longrightarrow> f r \<le> max_column f rows"
  by (induction rows) auto

lemma max_column_fresh: "r \<in> set rows \<Longrightarrow> f r \<noteq> Suc (max_column f rows)"
  using max_column_ge[of r rows f] by simp

lemma max_column_le: "(\<And>r. r \<in> set rows \<Longrightarrow> f r \<le> n) \<Longrightarrow> max_column f rows \<le> n"
  by (induction rows) auto

lemma max_column_map: "max_column f rows = max_column id (map f rows)"
  by (induction rows) auto

section \<open>Go maps as association lists\<close>

text \<open>
  A Go map is an association list whose keys are distinct; \<open>m[k] = v\<close> is \<open>map_put\<close>,
  \<open>delete(m, k)\<close> is \<open>map_del\<close> and \<open>v, ok := m[k]\<close> is \<^const>\<open>map_of\<close>. The order of the list
  is not observable in Go; a function that ranges over a map and whose result depends on the
  order sorts the keys first, as the code does.
\<close>

definition map_put :: "'k \<Rightarrow> 'v \<Rightarrow> ('k \<times> 'v) list \<Rightarrow> ('k \<times> 'v) list" where
  "map_put k v m =
     (if k \<in> fst ` set m then map (\<lambda>p. if fst p = k then (k, v) else p) m else m @ [(k, v)])"

definition map_del :: "'k \<Rightarrow> ('k \<times> 'v) list \<Rightarrow> ('k \<times> 'v) list" where
  "map_del k m = filter (\<lambda>p. fst p \<noteq> k) m"

lemma map_of_replace: "map_of (map (\<lambda>p. if fst p = k then (k, v) else p) m) =
  (if k \<in> fst ` set m then (map_of m)(k \<mapsto> v) else map_of m)"
  by (induction m) auto

lemma map_of_put [simp]: "map_of (map_put k v m) = (map_of m)(k \<mapsto> v)"
proof (cases "k \<in> fst ` set m")
  case True
  then show ?thesis by (simp add: map_put_def map_of_replace)
next
  case False
  then have "map_of m k = None" by (simp add: map_of_eq_None_iff)
  then have "map_of (m @ [(k, v)]) = (map_of m)(k \<mapsto> v)"
    by (auto simp: map_add_def split: option.splits)
  with False show ?thesis by (simp add: map_put_def)
qed

lemma keys_map_put: "fst ` set (map_put k v m) = insert k (fst ` set m)"
proof -
  have "dom (map_of (map_put k v m)) = insert k (dom (map_of m))" by simp
  then show ?thesis by (simp only: dom_map_of_conv_image_fst)
qed

lemma map_fst_replace: "map fst (map (\<lambda>p. if fst p = k then (k, v) else p) m) = map fst m"
  by (induction m) auto

lemma distinct_map_put: "distinct (map fst m) \<Longrightarrow> distinct (map fst (map_put k v m))"
  unfolding map_put_def by (auto simp del: map_map simp add: map_fst_replace)

lemma map_of_del [simp]: "map_of (map_del k m) = (map_of m)(k := None)"
  by (induction m) (auto simp: map_del_def)

lemma distinct_map_del: "distinct (map fst m) \<Longrightarrow> distinct (map fst (map_del k m))"
  by (simp add: map_del_def distinct_map_filter)

section \<open>Sorting\<close>

lemma sort_key_cong_mset:
  assumes "mset xs = mset ys" and "inj_on f (set xs)"
  shows "sort_key f xs = sort_key f ys"
  by (rule sort_key_inj_key_eq) (simp_all add: assms)

end
