(* ===== verification/Go_Std.thy ===== *)
theory Go_Std
  imports Prelude
begin

text \<open>
  The parts of Go's standard library the modelled sources call: \<open>strings\<close>, \<open>strconv\<close>,
  the two regular expressions, \<open>time.Duration\<close> and the text form of \<open>time.Time\<close>.

  A Go string is its list of bytes. White space is the ASCII white space. A duration is its number
  of nanoseconds; the fraction of a duration literal is truncated to whole nanoseconds (Go computes
  it in \<open>float64\<close>, which agrees wherever the fraction is a whole number of nanoseconds).
  A \<open>time.Time\<close> is its number of nanoseconds since the year 0 in UTC. The store writes times as
  \<open>RFC3339Nano\<close> text and compares that text: the prefix down to the seconds has a fixed width and
  is ordered as the seconds are, the fraction is printed without its trailing zeros and ends with
  \<open>Z\<close>, which \<open>ts_less\<close> reproduces.
\<close>

section \<open>Strings\<close>

definition has_prefix :: "string \<Rightarrow> string \<Rightarrow> bool" where
  "has_prefix s p \<longleftrightarrow> take (length p) s = p"

definition trim_prefix :: "string \<Rightarrow> string \<Rightarrow> string" where
  "trim_prefix s p = (if has_prefix s p then drop (length p) s else s)"

fun split_on :: "char \<Rightarrow> string \<Rightarrow> string list" where
  "split_on c [] = [[]]"
| "split_on c (x # xs) =
     (if x = c then [] # split_on c xs
      else (case split_on c xs of [] \<Rightarrow> [[x]] | p # ps \<Rightarrow> (x # p) # ps))"

fun join_with :: "string \<Rightarrow> string list \<Rightarrow> string" where
  "join_with sep [] = []"
| "join_with sep [x] = x"
| "join_with sep (x # y # xs) = x @ sep @ join_with sep (y # xs)"

definition is_space :: "char \<Rightarrow> bool" where
  "is_space c \<longleftrightarrow> c \<in> set [CHR 0x09, CHR 0x0A, CHR 0x0B, CHR 0x0C, CHR 0x0D, CHR '' '']"

definition trim_space :: "string \<Rightarrow> string" where
  "trim_space s = rev (dropWhile is_space (rev (dropWhile is_space s)))"

fun str_fields_acc :: "string \<Rightarrow> string \<Rightarrow> string list" where
  "str_fields_acc cur [] = (if cur = [] then [] else [rev cur])"
| "str_fields_acc cur (c # cs) =
     (if is_space c then (if cur = [] then str_fields_acc [] cs else rev cur # str_fields_acc [] cs)
      else str_fields_acc (c # cur) cs)"

definition str_fields :: "string \<Rightarrow> string list" where
  "str_fields s = str_fields_acc [] s"

text \<open>\<open>strings.ReplaceAll\<close> for a pattern of two characters.\<close>

fun replace_pair :: "char \<Rightarrow> char \<Rightarrow> string \<Rightarrow> string \<Rightarrow> string" where
  "replace_pair a b r (x # y # xs) =
     (if x = a \<and> y = b then r @ replace_pair a b r xs else x # replace_pair a b r (y # xs))"
| "replace_pair a b r xs = xs"

text \<open>\<open>filepath.Clean\<close> with \<open>/\<close> as the separator.\<close>

fun clean_segments :: "bool \<Rightarrow> string list \<Rightarrow> string list \<Rightarrow> string list" where
  "clean_segments rooted acc [] = rev acc"
| "clean_segments rooted acc (p # ps) =
     (if p = [] \<or> p = ''.'' then clean_segments rooted acc ps
      else if p = ''..'' then
        (case acc of q # qs \<Rightarrow> if q = ''..'' then clean_segments rooted (p # acc) ps else clean_segments rooted qs ps
         | [] \<Rightarrow> if rooted then clean_segments rooted [] ps else clean_segments rooted [p] ps)
      else clean_segments rooted (p # acc) ps)"

definition is_abs :: "string \<Rightarrow> bool" where
  "is_abs p \<longleftrightarrow> has_prefix p ''/''"

definition filepath_clean :: "string \<Rightarrow> string" where
  "filepath_clean p =
     (let body = join_with ''/'' (clean_segments (is_abs p) [] (split_on (CHR ''/'') p))
      in if is_abs p then CHR ''/'' # body else if body = [] then ''.'' else body)"

definition is_hex :: "char \<Rightarrow> bool" where
  "is_hex c \<longleftrightarrow> (48 \<le> (of_char c :: nat) \<and> (of_char c :: nat) \<le> 57) \<or> (97 \<le> (of_char c :: nat) \<and> (of_char c :: nat) \<le> 102) \<or>
     (65 \<le> (of_char c :: nat) \<and> (of_char c :: nat) \<le> 70)"

section \<open>Numbers\<close>

definition is_digit :: "char \<Rightarrow> bool" where
  "is_digit c \<longleftrightarrow> 48 \<le> (of_char c :: nat) \<and> (of_char c :: nat) \<le> 57"

definition digit_val :: "char \<Rightarrow> nat" where
  "digit_val c = of_char c - 48"

definition digit_char :: "nat \<Rightarrow> char" where
  "digit_char n = char_of (48 + n mod 10)"

definition dec_val :: "string \<Rightarrow> nat" where
  "dec_val ds = foldl (\<lambda>a c. a * 10 + digit_val c) 0 ds"

fun itoa :: "nat \<Rightarrow> string" where
  "itoa n = (if n < 10 then [digit_char n] else itoa (n div 10) @ [digit_char n])"

declare itoa.simps [simp del]

text \<open>\<open>n\<close> in exactly \<open>k\<close> digits.\<close>

fun pad_digits :: "nat \<Rightarrow> nat \<Rightarrow> string" where
  "pad_digits 0 n = []"
| "pad_digits (Suc k) n = pad_digits k (n div 10) @ [digit_char n]"

text \<open>\<open>strconv.Atoi\<close>: an optional sign and at least one digit, in the range of \<open>int64\<close>.\<close>

definition atoi :: "string \<Rightarrow> int option" where
  "atoi s =
     (let (neg, ds) = (case s of [] \<Rightarrow> (False, [])
        | c # cs \<Rightarrow> if c = CHR ''-'' then (True, cs) else if c = CHR ''+'' then (False, cs) else (False, s))
      in if ds = [] \<or> \<not> list_all is_digit ds then None
         else (let v = int (dec_val ds); r = (if neg then - v else v)
               in if - (2 ^ 63) \<le> r \<and> r < 2 ^ 63 then Some r else None))"

lemma of_char_digit: "of_char (digit_char n) = (48 + n mod 10 :: nat)"
proof -
  have "48 + n mod 10 < (256::nat)" by (rule order.strict_trans1[of _ "48 + 9"]) auto
  then show ?thesis by (simp add: digit_char_def take_bit_eq_mod of_char_of[where ?'a = nat])
qed

lemma is_digit_digit_char [simp]: "is_digit (digit_char n)"
proof -
  have "n mod 10 < 10" by simp
  then show ?thesis by (simp only: is_digit_def of_char_digit) linarith
qed

lemma digit_val_digit_char [simp]: "digit_val (digit_char n) = n mod 10"
  by (simp add: digit_val_def of_char_digit)

lemma dec_val_append: "dec_val (xs @ [c]) = dec_val xs * 10 + digit_val c"
  by (simp add: dec_val_def)

lemma dec_val_itoa [simp]: "dec_val (itoa n) = n"
proof (induction n rule: itoa.induct)
  case (1 n)
  show ?case
  proof (cases "n < 10")
    case True
    then show ?thesis by (subst itoa.simps) (simp add: dec_val_def)
  next
    case False
    then have "dec_val (itoa n) = dec_val (itoa (n div 10)) * 10 + n mod 10"
      by (subst itoa.simps) (simp add: dec_val_append)
    with 1 False show ?thesis by simp
  qed
qed

lemma itoa_digits: "list_all is_digit (itoa n)"
proof (induction n rule: itoa.induct)
  case (1 n)
  then show ?case by (subst itoa.simps) simp
qed

lemma itoa_not_Nil [simp]: "itoa n \<noteq> []"
  by (subst itoa.simps) simp

lemma itoa_inject [simp]: "itoa m = itoa n \<longleftrightarrow> m = n"
  by (metis dec_val_itoa)

lemma length_pad_digits [simp]: "length (pad_digits k n) = k"
  by (induction k arbitrary: n) auto

lemma dec_val_pad_digits: "dec_val (pad_digits k n) = n mod 10 ^ k"
proof (induction k arbitrary: n)
  case 0
  then show ?case by (simp add: dec_val_def)
next
  case (Suc k)
  have "n mod 10 ^ Suc k = 10 * (n div 10 mod 10 ^ k) + n mod 10"
    using mod_mult2_eq[of n 10 "10 ^ k"] by simp
  then show ?case by (simp add: dec_val_append Suc)
qed

section \<open>Regular expressions\<close>

definition is_lower :: "char \<Rightarrow> bool" where
  "is_lower c \<longleftrightarrow> 97 \<le> (of_char c :: nat) \<and> (of_char c :: nat) \<le> 122"

definition dns_char :: "char \<Rightarrow> bool" where
  "dns_char c \<longleftrightarrow> is_lower c \<or> is_digit c"

text \<open>\<open>^[a-z0-9]([-a-z0-9]*[a-z0-9])?$\<close>\<close>

definition dnsName :: "string \<Rightarrow> bool" where
  "dnsName s \<longleftrightarrow> s \<noteq> [] \<and> dns_char (hd s) \<and> dns_char (last s) \<and>
     list_all (\<lambda>c. dns_char c \<or> c = CHR ''-'') s"

text \<open>\<open>^[a-z][a-z0-9_-]{0,62}$\<close>\<close>

definition nodeID :: "string \<Rightarrow> bool" where
  "nodeID s \<longleftrightarrow> s \<noteq> [] \<and> is_lower (hd s) \<and> length s \<le> 63 \<and>
     list_all (\<lambda>c. dns_char c \<or> c = CHR ''_'' \<or> c = CHR ''-'') (tl s)"

section \<open>Durations\<close>

type_synonym duration = int

definition unit_ns :: "string \<Rightarrow> nat option" where
  "unit_ns u =
     (if u = ''ns'' then Some 1
      else if u = ''us'' \<or> u = [CHR 0xC2, CHR 0xB5, CHR ''s''] \<or> u = [CHR 0xCE, CHR 0xBC, CHR ''s'']
        then Some 1000
      else if u = ''ms'' then Some 1000000
      else if u = ''s'' then Some 1000000000
      else if u = ''m'' then Some 60000000000
      else if u = ''h'' then Some 3600000000000
      else None)"

text \<open>\<open>leadingFraction\<close>: the digits after the period, up to the first that would overflow.\<close>

fun leading_fraction :: "bool \<Rightarrow> nat \<Rightarrow> nat \<Rightarrow> string \<Rightarrow> nat \<times> nat" where
  "leading_fraction ovf x scale [] = (x, scale)"
| "leading_fraction ovf x scale (c # cs) =
     (if ovf then leading_fraction True x scale cs
      else if x > (2 ^ 63 - 1) div 10 then leading_fraction True x scale cs
      else (let y = x * 10 + digit_val c
            in if y > 2 ^ 63 then leading_fraction True x scale cs
               else leading_fraction False y (scale * 10) cs))"

definition num_char :: "char \<Rightarrow> bool" where
  "num_char c \<longleftrightarrow> c = CHR ''.'' \<or> is_digit c"

text \<open>One round of the loop of \<open>time.ParseDuration\<close>: a number, its unit and what follows.\<close>

definition parse_unit :: "string \<Rightarrow> (nat \<times> string) option" where
  "parse_unit s =
     (let ds = takeWhile is_digit s; s1 = dropWhile is_digit s;
          (fs, s2) = (case s1 of [] \<Rightarrow> ([], s1)
             | c # cs \<Rightarrow> if c = CHR ''.'' then (takeWhile is_digit cs, dropWhile is_digit cs) else ([], s1));
          u = takeWhile (\<lambda>c. \<not> num_char c) s2; rest = dropWhile (\<lambda>c. \<not> num_char c) s2
      in if dec_val ds > 2 ^ 63 \<or> (ds = [] \<and> fs = []) \<or> u = [] then None
         else (case unit_ns u of None \<Rightarrow> None
           | Some unt \<Rightarrow>
               if dec_val ds > 2 ^ 63 div unt then None
               else (let (f, scale) = leading_fraction False 0 1 fs;
                         v = dec_val ds * unt + (if f > 0 then f * unt div scale else 0)
                     in if v > 2 ^ 63 then None else Some (v, rest))))"

lemma length_dropWhile_le': "length (dropWhile P xs) \<le> length xs"
  by (rule length_dropWhile_le)

lemma parse_unit_shorter: "parse_unit s = Some (v, rest) \<Longrightarrow> length rest < length s"
proof -
  assume a: "parse_unit s = Some (v, rest)"
  define s1 where "s1 = dropWhile is_digit s"
  define p where "p = (case s1 of [] \<Rightarrow> ([], s1)
    | c # cs \<Rightarrow> if c = CHR ''.'' then (takeWhile is_digit cs, dropWhile is_digit cs) else ([], s1))"
  have len: "length (snd p) \<le> length s"
    using length_dropWhile_le'[of is_digit s]
    by (auto simp: p_def s1_def[symmetric] intro: order_trans[OF length_dropWhile_le']
      split: list.splits)
  have ne: "takeWhile (\<lambda>c. \<not> num_char c) (snd p) \<noteq> []"
    and rest: "rest = dropWhile (\<lambda>c. \<not> num_char c) (snd p)"
    using a by (auto simp: parse_unit_def Let_def s1_def[symmetric] p_def[symmetric]
      split: prod.splits if_splits option.splits)
  obtain c cs where cs: "snd p = c # cs" "\<not> num_char c"
    using ne by (cases "snd p") (auto split: if_splits)
  then have "length rest \<le> length cs" using rest by (simp add: length_dropWhile_le')
  with cs len show ?thesis by simp
qed

function parse_units :: "nat \<Rightarrow> string \<Rightarrow> nat option" where
  "parse_units d s =
     (if s = [] then Some d
      else (case parse_unit s of None \<Rightarrow> None
        | Some (v, rest) \<Rightarrow> if d + v > 2 ^ 63 then None else parse_units (d + v) rest))"
  by pat_completeness auto
termination
  by (relation "measure (\<lambda>(d, s). length s)") (auto dest: parse_unit_shorter)

declare parse_units.simps [simp del]

text \<open>\<open>time.ParseDuration\<close>\<close>

definition time_ParseDuration :: "string \<Rightarrow> duration option" where
  "time_ParseDuration s0 =
     (let (neg, s) = (case s0 of [] \<Rightarrow> (False, [])
        | c # cs \<Rightarrow> if c = CHR ''-'' then (True, cs) else if c = CHR ''+'' then (False, cs) else (False, s0))
      in if s = ''0'' then Some 0
         else if s = [] then None
         else (case parse_units 0 s of None \<Rightarrow> None
           | Some d \<Rightarrow> if neg then Some (- int d) else if d > 2 ^ 63 - 1 then None else Some (int d)))"

text \<open>The fraction of \<open>v / 10 ^ prec\<close> without trailing zeros, with its period.\<close>

definition strip_zeros :: "string \<Rightarrow> string" where
  "strip_zeros ds = rev (dropWhile (\<lambda>c. c = CHR ''0'') (rev ds))"

definition fmt_frac :: "nat \<Rightarrow> nat \<Rightarrow> string" where
  "fmt_frac prec v =
     (let ds = strip_zeros (pad_digits prec (v mod 10 ^ prec))
      in if ds = [] then [] else CHR ''.'' # ds)"

text \<open>\<open>Duration.String\<close> for a duration that is not negative.\<close>

definition duration_string :: "nat \<Rightarrow> string" where
  "duration_string u =
     (if u = 0 then ''0s''
      else if u < 1000 then itoa u @ ''ns''
      else if u < 1000000 then itoa (u div 1000) @ fmt_frac 3 u @ [CHR 0xC2, CHR 0xB5, CHR ''s'']
      else if u < 1000000000 then itoa (u div 1000000) @ fmt_frac 6 u @ ''ms''
      else (let secs = u div 1000000000; mins = secs div 60; hours = mins div 60
            in (if hours > 0 then itoa hours @ ''h'' else [])
               @ (if mins > 0 then itoa (mins mod 60) @ ''m'' else [])
               @ itoa (secs mod 60) @ fmt_frac 9 u @ ''s''))"

section \<open>Timestamps\<close>

type_synonym time = nat

definition second :: nat where
  "second = 1000000000"

definition frac_text :: "time \<Rightarrow> string" where
  "frac_text t = fmt_frac 9 (t mod second) @ ''Z''"

text \<open>\<open>Format(time.RFC3339Nano)\<close> in UTC: the Gregorian date of the day number, counted from a
  first of March so that the leap day is the last of its year.\<close>

definition civil :: "nat \<Rightarrow> nat \<times> nat \<times> nat" where
  "civil days =
     (let z = days + 306; era = z div 146097; doe = z mod 146097;
          yoe = (doe - doe div 1460 + doe div 36524 - doe div 146096) div 365;
          doy = doe - (365 * yoe + yoe div 4 - yoe div 100);
          mp = (5 * doy + 2) div 153; d = doy - (153 * mp + 2) div 5 + 1;
          m = (if mp < 10 then mp + 3 else mp - 9)
      in ((yoe + era * 400 + (if m \<le> 2 then 1 else 0)) - 1, m, d))"

definition rfc3339_text :: "time \<Rightarrow> string" where
  "rfc3339_text t =
     (let secs = t div second; (y, m, d) = civil (secs div 86400); r = secs mod 86400
      in pad_digits 4 y @ ''-'' @ pad_digits 2 m @ ''-'' @ pad_digits 2 d @ ''T''
         @ pad_digits 2 (r div 3600) @ '':'' @ pad_digits 2 (r div 60 mod 60) @ '':''
         @ pad_digits 2 (r mod 60) @ frac_text t)"

text \<open>\<open>a < b\<close> on the stored texts.\<close>

definition ts_less :: "time \<Rightarrow> time \<Rightarrow> bool" where
  "ts_less a b \<longleftrightarrow> a div second < b div second \<or>
     (a div second = b div second \<and> frac_text a < frac_text b)"

definition ts_le :: "time \<Rightarrow> time \<Rightarrow> bool" where
  "ts_le a b \<longleftrightarrow> \<not> ts_less b a"

text \<open>The sort key that \<open>ORDER BY\<close> uses on a time column.\<close>

definition ts_key :: "time \<Rightarrow> nat \<times> string" where
  "ts_key t = (t div second, frac_text t)"

lemma ts_less_key: "ts_less a b \<longleftrightarrow> ts_key a < ts_key b"
  by (auto simp: ts_less_def ts_key_def less_prod_def)

lemma ts_less_seconds: "a div second < b div second \<Longrightarrow> ts_less a b"
  by (simp add: ts_less_def)

lemma ts_le_refl [simp]: "ts_le a a"
  by (simp add: ts_le_def ts_less_def)

end
