(* ===== verification/Json.thy ===== *)
theory Json
  imports Go_Std
begin

text \<open>
  JSON values, Go's \<open>any\<close> after \<open>json.Unmarshal\<close> or a YAML decode. An object is an association
  list with distinct keys. An integral number literal is \<open>JInt\<close>; \<open>JFloat\<close> is any other number,
  given by the text \<open>json.Marshal\<close> prints for its \<open>float64\<close>. \<open>jsonEqual\<close> of the store decodes
  numbers into \<open>float64\<close> before it compares, which rounds large integers: \<open>f64_round\<close> is that
  rounding (to nearest, ties to even, 53 bits).
\<close>

datatype json =
  JNull
| JBool bool
| JInt int
| JFloat string
| JStr string
| JArr "json list"
| JObj "(string \<times> json) list"

definition floor_log2 :: "nat \<Rightarrow> nat" where
  "floor_log2 n = length (takeWhile (\<lambda>k. 2 ^ Suc k \<le> n) [0..<1024])"

definition f64_round :: "int \<Rightarrow> int" where
  "f64_round n =
     (let a = nat \<bar>n\<bar> in
      if a < 2 ^ 53 then n
      else (let k = floor_log2 a - 52; q = a div 2 ^ k; r = a mod 2 ^ k; half = 2 ^ (k - 1);
                q' = (if r > half \<or> (r = half \<and> odd q) then Suc q else q)
            in sgn n * int (q' * 2 ^ k)))"

text \<open>Numbers whose decimal form has no \<open>float64\<close> make \<open>json.Unmarshal\<close> fail.\<close>

fun json_finite :: "json \<Rightarrow> bool" where
  "json_finite (JInt n) = (\<bar>f64_round n\<bar> < 2 ^ 1024)"
| "json_finite (JArr xs) = (\<forall>x \<in> set xs. json_finite x)"
| "json_finite (JObj kvs) = (\<forall>p \<in> set kvs. json_finite (snd p))"
| "json_finite _ = True"

text \<open>\<open>json.Marshal\<close> prints the keys of a map in order.\<close>

fun json_canon :: "json \<Rightarrow> json" where
  "json_canon (JInt n) = JInt (f64_round n)"
| "json_canon (JArr xs) = JArr (map json_canon xs)"
| "json_canon (JObj kvs) = JObj (sort_key fst (map (\<lambda>p. (fst p, json_canon (snd p))) kvs))"
| "json_canon v = v"

definition jsonEqual :: "json \<Rightarrow> json \<Rightarrow> bool" where
  "jsonEqual a b \<longleftrightarrow> json_finite a \<and> json_finite b \<and> json_canon a = json_canon b"

definition is_object :: "json \<Rightarrow> bool" where
  "is_object v \<longleftrightarrow> (case v of JObj _ \<Rightarrow> True | _ \<Rightarrow> False)"

definition json_get :: "string \<Rightarrow> json \<Rightarrow> json option" where
  "json_get k v = (case v of JObj kvs \<Rightarrow> map_of kvs k | _ \<Rightarrow> None)"

lemma f64_round_small: "\<bar>n\<bar> < 2 ^ 53 \<Longrightarrow> f64_round n = n"
  by (simp add: f64_round_def nat_less_iff)

lemma jsonEqual_refl: "json_finite a \<Longrightarrow> jsonEqual a a"
  by (simp add: jsonEqual_def)

lemma jsonEqual_sym: "jsonEqual a b \<Longrightarrow> jsonEqual b a"
  by (simp add: jsonEqual_def)

lemma jsonEqual_trans: "jsonEqual a b \<Longrightarrow> jsonEqual b c \<Longrightarrow> jsonEqual a c"
  by (simp add: jsonEqual_def)

end
