(* ===== verification/Resource.thy ===== *)
theory Resource
  imports Json
begin

text \<open>
  \<open>internal/resource/resource.go\<close>: the public resource kinds, their canonical JSON, strict decoding
  and validation.

  The structs are records and the six kinds one datatype \<open>spec\<close>. The bytes of a canonical resource,
  \<open>Document.JSON\<close> and the column \<open>spec_json\<close> of the store, are represented by the value they
  encode, a \<open>resource_value\<close>; \<open>marshal_spec\<close> is the JSON form of a spec with the field names and
  \<open>omitempty\<close> rules of the struct tags. What is not under the repository's control is the record
  \<open>resource_lib\<close>: the YAML decoder, the cron parser and the time zone database. An error is its
  message; the wrapped text of a library error is left out.
\<close>

type_synonym go_error = string

definition APIVersion :: string where
  "APIVersion = ''orchigram.dev/v1alpha1''"

definition DefaultNamespace :: string where
  "DefaultNamespace = ''default''"

section \<open>Resource structs\<close>

record object_meta =
  meta_name :: string
  meta_namespace :: string
  meta_uid :: string
  meta_resourceVersion :: nat
  meta_generation :: nat
  meta_labels :: "(string \<times> string) list"

record policies =
  pol_timeout :: string
  pol_maxParallel :: int

record retry_policy =
  retry_limit :: int
  retry_backoff :: string

record loop_policy =
  loop_maxIterations :: int

record flow_node =
  node_id :: string
  node_name :: string
  node_uses :: string
  node_with :: "(string \<times> json) list"
  node_retry :: "retry_policy option"
  node_timeout :: string
  node_loop :: "loop_policy option"

record flow_edge =
  edge_from :: string
  edge_to :: string
  edge_when :: string

record flow_spec =
  fs_inputs :: "(string \<times> json) list"
  fs_inputSchema :: "(string \<times> json) list"
  fs_policies :: policies
  fs_nodes :: "flow_node list"
  fs_edges :: "flow_edge list"

record schedule_trigger =
  sched_cron :: string
  sched_timezone :: string
  sched_misfirePolicy :: string
  sched_startingDeadline :: string
  sched_concurrencyPolicy :: string

record webhook_trigger =
  hook_bearerSecretRef :: string

record provider_trigger =
  prov_plugin :: string
  prov_source :: string
  prov_config :: "(string \<times> json) list"

record trigger_delivery =
  dlv_mode :: string
  dlv_node :: string

record trigger_spec =
  trg_flow :: string
  trg_enabled :: "bool option"
  trg_schedule :: "schedule_trigger option"
  trg_webhook :: "webhook_trigger option"
  trg_provider :: "provider_trigger option"
  trg_delivery :: "trigger_delivery option"

record repository_spec =
  repo_cloneURL :: string
  repo_defaultBranch :: string
  repo_workspacePolicy :: string
  repo_authSecretRef :: string

record agent_spec =
  agent_type :: string
  agent_executable :: string
  agent_args :: "string list"
  agent_model :: string
  agent_profile :: string
  agent_effort :: string
  agent_sandbox :: string
  agent_environment :: "(string \<times> string) list"
  agent_secretRefs :: "string list"

record plugin_spec =
  plg_plugin :: string
  plg_version :: string
  plg_digest :: string
  plg_enabled :: "bool option"

record secret_spec =
  sec_backend :: string
  sec_key :: string

datatype spec =
  SFlow flow_spec
| STrigger trigger_spec
| SRepository repository_spec
| SAgentProfile agent_spec
| SPluginInstallation plugin_spec
| SSecretRef secret_spec

fun spec_kind :: "spec \<Rightarrow> string" where
  "spec_kind (SFlow _) = ''Flow''"
| "spec_kind (STrigger _) = ''Trigger''"
| "spec_kind (SRepository _) = ''Repository''"
| "spec_kind (SAgentProfile _) = ''AgentProfile''"
| "spec_kind (SPluginInstallation _) = ''PluginInstallation''"
| "spec_kind (SSecretRef _) = ''SecretRef''"

record resource_value =
  rv_meta :: object_meta
  rv_spec :: spec
  rv_status :: "(string \<times> json) list"

record document =
  doc_apiVersion :: string
  doc_kind :: string
  doc_metadata :: object_meta
  doc_spec :: spec
  doc_status :: json
  doc_JSON :: resource_value

record resource_lib =
  yaml_probe :: "string \<Rightarrow> (string \<times> string) option"
  yaml_strict :: "string \<Rightarrow> string \<Rightarrow> resource_value option"
  cron_ok :: "string \<Rightarrow> bool"
  timezone_ok :: "string \<Rightarrow> bool"

section \<open>Canonical JSON of the specs\<close>

definition opt_str :: "string \<Rightarrow> string \<Rightarrow> (string \<times> json) list" where
  "opt_str k v = (if v = [] then [] else [(k, JStr v)])"

definition opt_int :: "string \<Rightarrow> int \<Rightarrow> (string \<times> json) list" where
  "opt_int k v = (if v = 0 then [] else [(k, JInt v)])"

definition opt_map :: "string \<Rightarrow> (string \<times> json) list \<Rightarrow> (string \<times> json) list" where
  "opt_map k m = (if m = [] then [] else [(k, JObj m)])"

definition opt_list :: "string \<Rightarrow> json list \<Rightarrow> (string \<times> json) list" where
  "opt_list k xs = (if xs = [] then [] else [(k, JArr xs)])"

definition opt_ptr :: "string \<Rightarrow> ('a \<Rightarrow> json) \<Rightarrow> 'a option \<Rightarrow> (string \<times> json) list" where
  "opt_ptr k f v = (case v of None \<Rightarrow> [] | Some x \<Rightarrow> [(k, f x)])"

definition str_map :: "(string \<times> string) list \<Rightarrow> (string \<times> json) list" where
  "str_map m = map (\<lambda>p. (fst p, JStr (snd p))) m"

definition marshal_node :: "flow_node \<Rightarrow> json" where
  "marshal_node n = JObj
     ([(''id'', JStr (node_id n))] @ opt_str ''name'' (node_name n)
      @ [(''uses'', JStr (node_uses n))] @ opt_map ''with'' (node_with n)
      @ opt_ptr ''retry'' (\<lambda>r. JObj (opt_int ''limit'' (retry_limit r)
           @ opt_str ''backoff'' (retry_backoff r))) (node_retry n)
      @ opt_str ''timeout'' (node_timeout n)
      @ opt_ptr ''loop'' (\<lambda>l. JObj [(''maxIterations'', JInt (loop_maxIterations l))]) (node_loop n))"

definition marshal_edge :: "flow_edge \<Rightarrow> json" where
  "marshal_edge e = JObj ([(''from'', JStr (edge_from e)), (''to'', JStr (edge_to e))]
     @ opt_str ''when'' (edge_when e))"

definition marshal_flow_spec :: "flow_spec \<Rightarrow> json" where
  "marshal_flow_spec f = JObj
     (opt_map ''inputs'' (fs_inputs f) @ opt_map ''inputSchema'' (fs_inputSchema f)
      @ [(''policies'', JObj (opt_str ''timeout'' (pol_timeout (fs_policies f))
            @ opt_int ''maxParallel'' (pol_maxParallel (fs_policies f)))),
         (''nodes'', JArr (map marshal_node (fs_nodes f)))]
      @ opt_list ''edges'' (map marshal_edge (fs_edges f)))"

definition marshal_schedule :: "schedule_trigger \<Rightarrow> json" where
  "marshal_schedule s = JObj ([(''cron'', JStr (sched_cron s))]
     @ opt_str ''timezone'' (sched_timezone s) @ opt_str ''misfirePolicy'' (sched_misfirePolicy s)
     @ opt_str ''startingDeadline'' (sched_startingDeadline s)
     @ opt_str ''concurrencyPolicy'' (sched_concurrencyPolicy s))"

definition marshal_trigger_spec :: "trigger_spec \<Rightarrow> json" where
  "marshal_trigger_spec t = JObj
     ([(''flow'', JStr (trg_flow t))] @ opt_ptr ''enabled'' JBool (trg_enabled t)
      @ opt_ptr ''schedule'' marshal_schedule (trg_schedule t)
      @ opt_ptr ''webhook'' (\<lambda>w. JObj [(''bearerSecretRef'', JStr (hook_bearerSecretRef w))]) (trg_webhook t)
      @ opt_ptr ''provider'' (\<lambda>p. JObj ([(''plugin'', JStr (prov_plugin p))]
           @ opt_str ''source'' (prov_source p) @ opt_map ''config'' (prov_config p))) (trg_provider t)
      @ opt_ptr ''delivery'' (\<lambda>d. JObj (opt_str ''mode'' (dlv_mode d) @ opt_str ''node'' (dlv_node d)))
          (trg_delivery t))"

definition marshal_repository_spec :: "repository_spec \<Rightarrow> json" where
  "marshal_repository_spec r = JObj ([(''cloneURL'', JStr (repo_cloneURL r))]
     @ opt_str ''defaultBranch'' (repo_defaultBranch r)
     @ opt_str ''workspacePolicy'' (repo_workspacePolicy r)
     @ opt_str ''authSecretRef'' (repo_authSecretRef r))"

definition marshal_agent_spec :: "agent_spec \<Rightarrow> json" where
  "marshal_agent_spec a = JObj ([(''type'', JStr (agent_type a))]
     @ opt_str ''executable'' (agent_executable a) @ opt_list ''args'' (map JStr (agent_args a))
     @ opt_str ''model'' (agent_model a) @ opt_str ''profile'' (agent_profile a)
     @ opt_str ''effort'' (agent_effort a) @ opt_str ''sandbox'' (agent_sandbox a)
     @ opt_map ''environment'' (str_map (agent_environment a))
     @ opt_list ''secretRefs'' (map JStr (agent_secretRefs a)))"

definition marshal_plugin_spec :: "plugin_spec \<Rightarrow> json" where
  "marshal_plugin_spec p = JObj ([(''plugin'', JStr (plg_plugin p)),
     (''version'', JStr (plg_version p)), (''digest'', JStr (plg_digest p))]
     @ opt_ptr ''enabled'' JBool (plg_enabled p))"

definition marshal_secret_spec :: "secret_spec \<Rightarrow> json" where
  "marshal_secret_spec s = JObj [(''backend'', JStr (sec_backend s)), (''key'', JStr (sec_key s))]"

fun marshal_spec :: "spec \<Rightarrow> json" where
  "marshal_spec (SFlow f) = marshal_flow_spec f"
| "marshal_spec (STrigger t) = marshal_trigger_spec t"
| "marshal_spec (SRepository r) = marshal_repository_spec r"
| "marshal_spec (SAgentProfile a) = marshal_agent_spec a"
| "marshal_spec (SPluginInstallation p) = marshal_plugin_spec p"
| "marshal_spec (SSecretRef s) = marshal_secret_spec s"

section \<open>Validation\<close>

definition ParseDuration :: "string \<Rightarrow> duration \<Rightarrow> (go_error, duration) result" where
  "ParseDuration value fallback =
     (if value = [] then Inr fallback
      else (case time_ParseDuration value of
        None \<Rightarrow> Inl ''invalid positive duration''
      | Some d \<Rightarrow> if d \<le> 0 then Inl ''invalid positive duration'' else Inr d))"

definition ValidateMetadata :: "object_meta \<Rightarrow> (go_error, unit) result" where
  "ValidateMetadata m =
     (if \<not> dnsName (meta_name m) \<or> length (meta_name m) > 63
        then Inl ''metadata.name must be a DNS label''
      else if \<not> dnsName (meta_namespace m) \<or> length (meta_namespace m) > 63
        then Inl ''metadata.namespace must be a DNS label''
      else Inr ())"

definition validate_schedule :: "resource_lib \<Rightarrow> schedule_trigger \<Rightarrow> (go_error, unit) result" where
  "validate_schedule lib s =
     (if length (str_fields (sched_cron s)) \<noteq> 5
        then Inl ''trigger schedule cron must contain exactly five fields''
      else if \<not> cron_ok lib (sched_cron s) then Inl ''trigger schedule cron is invalid''
      else if \<not> timezone_ok lib (if sched_timezone s = [] then ''UTC'' else sched_timezone s)
        then Inl ''trigger schedule timezone is invalid''
      else if sched_misfirePolicy s \<noteq> [] \<and> sched_misfirePolicy s \<noteq> ''fireOnce''
        then Inl ''trigger schedule misfirePolicy is unsupported''
      else if sched_concurrencyPolicy s \<noteq> [] \<and> sched_concurrencyPolicy s \<noteq> ''forbid''
        then Inl ''trigger schedule concurrencyPolicy is unsupported''
      else (case ParseDuration (sched_startingDeadline s) 3600000000000 of
              Inl e \<Rightarrow> Inl ''trigger schedule startingDeadline'' | Inr _ \<Rightarrow> Inr ()))"

definition validate_delivery :: "trigger_spec \<Rightarrow> trigger_delivery \<Rightarrow> (go_error, unit) result" where
  "validate_delivery t d =
     (if dlv_mode d = [] \<or> dlv_mode d = ''start'' then
        (if dlv_node d \<noteq> [] then Inl ''trigger start delivery must not configure a node'' else Inr ())
      else if dlv_mode d = ''signal'' then
        (if trg_provider t = None then Inl ''trigger signal delivery requires a provider source''
         else if \<not> nodeID (dlv_node d) then Inl ''trigger signal delivery node must be a node id''
         else Inr ())
      else Inl ''trigger delivery mode is unsupported'')"

definition validate_trigger :: "resource_lib \<Rightarrow> trigger_spec \<Rightarrow> (go_error, unit) result" where
  "validate_trigger lib t =
     (let count = (if trg_schedule t \<noteq> None then 1 else 0) + (if trg_webhook t \<noteq> None then 1 else 0)
                + (if trg_provider t \<noteq> None then 1 else (0::nat))
      in if count \<noteq> 1
           then Inl ''trigger spec must configure exactly one of schedule, webhook, or provider''
         else if trim_space (trg_flow t) = [] then Inl ''trigger spec flow is required''
         else (case (case trg_schedule t of None \<Rightarrow> Inr () | Some s \<Rightarrow> validate_schedule lib s) of
             Inl e \<Rightarrow> Inl e
           | Inr _ \<Rightarrow>
               if (case trg_webhook t of None \<Rightarrow> False
                   | Some w \<Rightarrow> trim_space (hook_bearerSecretRef w) = [])
                 then Inl ''trigger webhook bearerSecretRef is required''
               else if (case trg_provider t of None \<Rightarrow> False
                   | Some p \<Rightarrow> trim_space (prov_plugin p) = [])
                 then Inl ''trigger provider plugin is required''
               else if (case trg_provider t of None \<Rightarrow> False
                   | Some p \<Rightarrow> prov_source p \<noteq> trim_space (prov_source p))
                 then Inl ''trigger provider source must not have surrounding whitespace''
               else (case trg_delivery t of None \<Rightarrow> Inr () | Some d \<Rightarrow> validate_delivery t d)))"

fun validateKind :: "resource_lib \<Rightarrow> spec \<Rightarrow> (go_error, unit) result" where
  "validateKind lib (SFlow f) =
     (if fs_nodes f = [] then Inl ''flow spec nodes must not be empty'' else Inr ())"
| "validateKind lib (STrigger t) = validate_trigger lib t"
| "validateKind lib (SRepository r) =
     (if trim_space (repo_cloneURL r) = [] then Inl ''Repository.spec.cloneURL is required''
      else if repo_workspacePolicy r \<noteq> [] \<and> repo_workspacePolicy r \<noteq> ''isolated-run''
        then Inl ''Repository.spec.workspacePolicy is unsupported''
      else Inr ())"
| "validateKind lib (SAgentProfile a) =
     (if agent_type a \<noteq> ''codex'' \<and> agent_type a \<noteq> ''claude'' \<and> agent_type a \<noteq> ''command''
        then Inl ''AgentProfile.spec.type is unsupported''
      else if agent_type a = ''command'' \<and> trim_space (agent_executable a) = []
        then Inl ''AgentProfile command type requires an executable''
      else Inr ())"
| "validateKind lib (SPluginInstallation p) =
     (if plg_plugin p = [] \<or> plg_version p = [] \<or> plg_digest p = []
        then Inl ''PluginInstallation plugin, version, and digest are required'' else Inr ())"
| "validateKind lib (SSecretRef s) =
     (if sec_backend s = [] \<or> sec_key s = [] then Inl ''SecretRef backend and key are required''
      else if sec_backend s \<noteq> ''env'' \<and> sec_backend s \<noteq> ''environment'' \<and> sec_backend s \<noteq> ''file''
        then Inl ''SecretRef backend is unsupported''
      else Inr ())"

section \<open>Decoding\<close>

text \<open>
  From the canonical value on: the default namespace, the two validations and the empty status. On
  bytes the store wrote itself the probe and the strict decode succeed, and decoding is this part.
\<close>

definition decode_value :: "resource_lib \<Rightarrow> resource_value \<Rightarrow> (go_error, document) result" where
  "decode_value lib v =
     (let meta = (if meta_namespace (rv_meta v) = []
                  then rv_meta v\<lparr>meta_namespace := DefaultNamespace\<rparr> else rv_meta v);
          canonical = v\<lparr>rv_meta := meta\<rparr>
      in case ValidateMetadata meta of Inl e \<Rightarrow> Inl e
         | Inr _ \<Rightarrow> (case validateKind lib (rv_spec v) of Inl e \<Rightarrow> Inl e
             | Inr _ \<Rightarrow> Inr \<lparr>doc_apiVersion = APIVersion, doc_kind = spec_kind (rv_spec v),
                 doc_metadata = meta, doc_spec = rv_spec v, doc_status = JObj (rv_status v),
                 doc_JSON = canonical\<rparr>))"

definition known_kind :: "string \<Rightarrow> bool" where
  "known_kind k \<longleftrightarrow> k \<in> set [''Flow'', ''Trigger'', ''Repository'', ''AgentProfile'',
     ''PluginInstallation'', ''SecretRef'']"

definition DecodeStrict :: "resource_lib \<Rightarrow> string \<Rightarrow> (go_error, document) result" where
  "DecodeStrict lib data =
     (case yaml_probe lib data of None \<Rightarrow> Inl ''decode type metadata''
      | Some (api, kind) \<Rightarrow>
          if api \<noteq> APIVersion then Inl ''unsupported apiVersion''
          else if \<not> known_kind kind then Inl ''unsupported kind''
          else (case yaml_strict lib kind data of None \<Rightarrow> Inl ''strict decode''
            | Some v \<Rightarrow> if spec_kind (rv_spec v) \<noteq> kind then Inl ''strict decode''
                        else decode_value lib v))"

definition decode_as :: "resource_lib \<Rightarrow> string \<Rightarrow> resource_value \<Rightarrow> (go_error, document) result" where
  "decode_as lib kind v =
     (case decode_value lib v of Inl e \<Rightarrow> Inl e
      | Inr doc \<Rightarrow> if doc_kind doc \<noteq> kind then Inl ''unexpected kind'' else Inr doc)"

definition DecodeFlow :: "resource_lib \<Rightarrow> resource_value \<Rightarrow> (go_error, object_meta \<times> flow_spec) result" where
  "DecodeFlow lib v = (case decode_as lib ''Flow'' v of Inl e \<Rightarrow> Inl e
     | Inr doc \<Rightarrow> (case rv_spec (doc_JSON doc) of SFlow f \<Rightarrow> Inr (rv_meta (doc_JSON doc), f)
         | _ \<Rightarrow> Inl ''expected Flow''))"

definition DecodeTrigger :: "resource_lib \<Rightarrow> resource_value \<Rightarrow> (go_error, object_meta \<times> trigger_spec) result" where
  "DecodeTrigger lib v = (case decode_as lib ''Trigger'' v of Inl e \<Rightarrow> Inl e
     | Inr doc \<Rightarrow> (case rv_spec (doc_JSON doc) of STrigger t \<Rightarrow> Inr (rv_meta (doc_JSON doc), t)
         | _ \<Rightarrow> Inl ''expected Trigger''))"

definition DecodePluginInstallation ::
    "resource_lib \<Rightarrow> resource_value \<Rightarrow> (go_error, object_meta \<times> plugin_spec) result" where
  "DecodePluginInstallation lib v = (case decode_as lib ''PluginInstallation'' v of Inl e \<Rightarrow> Inl e
     | Inr doc \<Rightarrow> (case rv_spec (doc_JSON doc) of
           SPluginInstallation p \<Rightarrow> Inr (rv_meta (doc_JSON doc), p)
         | _ \<Rightarrow> Inl ''expected PluginInstallation''))"

definition DecodeAgentProfile ::
    "resource_lib \<Rightarrow> resource_value \<Rightarrow> (go_error, object_meta \<times> agent_spec) result" where
  "DecodeAgentProfile lib v = (case decode_as lib ''AgentProfile'' v of Inl e \<Rightarrow> Inl e
     | Inr doc \<Rightarrow> (case rv_spec (doc_JSON doc) of SAgentProfile a \<Rightarrow> Inr (rv_meta (doc_JSON doc), a)
         | _ \<Rightarrow> Inl ''expected AgentProfile''))"

definition DecodeRepository ::
    "resource_lib \<Rightarrow> resource_value \<Rightarrow> (go_error, object_meta \<times> repository_spec) result" where
  "DecodeRepository lib v = (case decode_as lib ''Repository'' v of Inl e \<Rightarrow> Inl e
     | Inr doc \<Rightarrow> (case rv_spec (doc_JSON doc) of SRepository r \<Rightarrow> Inr (rv_meta (doc_JSON doc), r)
         | _ \<Rightarrow> Inl ''expected Repository''))"

definition DecodeSecretRef ::
    "resource_lib \<Rightarrow> resource_value \<Rightarrow> (go_error, object_meta \<times> secret_spec) result" where
  "DecodeSecretRef lib v = (case decode_as lib ''SecretRef'' v of Inl e \<Rightarrow> Inl e
     | Inr doc \<Rightarrow> (case rv_spec (doc_JSON doc) of SSecretRef s \<Rightarrow> Inr (rv_meta (doc_JSON doc), s)
         | _ \<Rightarrow> Inl ''expected SecretRef''))"

section \<open>Server-owned projections\<close>

definition WithServerMetadata :: "document \<Rightarrow> object_meta \<Rightarrow> document" where
  "WithServerMetadata d m =
     d\<lparr>doc_metadata := m, doc_JSON := (doc_JSON d)\<lparr>rv_meta := m\<rparr>\<rparr>"

definition WithServerStatus :: "document \<Rightarrow> (string \<times> json) list \<Rightarrow> document" where
  "WithServerStatus d st =
     d\<lparr>doc_status := JObj st, doc_JSON := (doc_JSON d)\<lparr>rv_status := st\<rparr>\<rparr>"

section \<open>Facts about decoding\<close>

text \<open>A document agrees with the bytes it carries.\<close>

definition doc_coherent :: "document \<Rightarrow> bool" where
  "doc_coherent d \<longleftrightarrow> doc_apiVersion d = APIVersion \<and> doc_metadata d = rv_meta (doc_JSON d) \<and> doc_spec d = rv_spec (doc_JSON d) \<and>
     doc_kind d = spec_kind (doc_spec d)"

definition doc_valid :: "resource_lib \<Rightarrow> document \<Rightarrow> bool" where
  "doc_valid lib d \<longleftrightarrow> doc_coherent d \<and> meta_namespace (doc_metadata d) \<noteq> [] \<and>
     is_ok (ValidateMetadata (doc_metadata d)) \<and> is_ok (validateKind lib (doc_spec d))"

lemma ValidateMetadata_ok:
  "is_ok (ValidateMetadata m) \<longleftrightarrow> dnsName (meta_name m) \<and> length (meta_name m) \<le> 63 \<and>
     dnsName (meta_namespace m) \<and> length (meta_namespace m) \<le> 63"
  by (auto simp: ValidateMetadata_def is_ok_def)

lemma ValidateMetadata_cong:
  "meta_name m = meta_name m' \<Longrightarrow> meta_namespace m = meta_namespace m' \<Longrightarrow>
    ValidateMetadata m = ValidateMetadata m'"
  by (simp add: ValidateMetadata_def)

lemma decode_value_valid: "decode_value lib v = Inr d \<Longrightarrow> doc_valid lib d"
  by (auto simp: decode_value_def Let_def doc_valid_def doc_coherent_def DefaultNamespace_def
    split: sum.splits if_splits)

lemma decode_value_spec: "decode_value lib v = Inr d \<Longrightarrow> doc_spec d = rv_spec v"
  by (auto simp: decode_value_def Let_def split: sum.splits if_splits)

text \<open>Decoding what a valid document carries gives the document's own metadata and spec.\<close>

lemma decode_value_JSON:
  assumes "doc_valid lib d"
  shows "decode_value lib (doc_JSON d) = Inr \<lparr>doc_apiVersion = APIVersion, doc_kind = doc_kind d,
    doc_metadata = doc_metadata d, doc_spec = doc_spec d, doc_status = JObj (rv_status (doc_JSON d)),
    doc_JSON = doc_JSON d\<rparr>"
proof -
  have ns: "meta_namespace (rv_meta (doc_JSON d)) \<noteq> []"
    and m: "doc_metadata d = rv_meta (doc_JSON d)" and s: "doc_spec d = rv_spec (doc_JSON d)"
    and k: "doc_kind d = spec_kind (doc_spec d)"
    using assms by (auto simp: doc_valid_def doc_coherent_def)
  have "is_ok (ValidateMetadata (rv_meta (doc_JSON d)))" "is_ok (validateKind lib (rv_spec (doc_JSON d)))"
    using assms m s by (auto simp: doc_valid_def)
  then show ?thesis using ns m s k
    by (auto simp: decode_value_def Let_def is_ok_def split: sum.splits)
qed

lemma decode_value_own:
  "doc_valid lib d \<Longrightarrow> doc_status d = JObj (rv_status (doc_JSON d)) \<Longrightarrow> decode_value lib (doc_JSON d) = Inr d"
  by (subst decode_value_JSON) (auto simp: doc_valid_def doc_coherent_def intro: document.equality)

lemma doc_valid_WithServerStatus: "doc_valid lib d \<Longrightarrow> doc_valid lib (WithServerStatus d st)"
  by (auto simp: doc_valid_def doc_coherent_def WithServerStatus_def)

lemma doc_valid_WithServerMetadata:
  "doc_valid lib d \<Longrightarrow> meta_name m = meta_name (doc_metadata d) \<Longrightarrow>
    meta_namespace m = meta_namespace (doc_metadata d) \<Longrightarrow> doc_valid lib (WithServerMetadata d m)"
  by (auto simp: doc_valid_def doc_coherent_def WithServerMetadata_def ValidateMetadata_ok)

lemma WithServer_simps [simp]:
  "doc_metadata (WithServerStatus d st) = doc_metadata d" "doc_spec (WithServerStatus d st) = doc_spec d"
  "doc_kind (WithServerStatus d st) = doc_kind d" "doc_status (WithServerStatus d st) = JObj st"
  "doc_metadata (WithServerMetadata d m) = m" "doc_spec (WithServerMetadata d m) = doc_spec d"
  "doc_kind (WithServerMetadata d m) = doc_kind d" "doc_status (WithServerMetadata d m) = doc_status d"
  "rv_meta (doc_JSON (WithServerMetadata d m)) = m" "rv_status (doc_JSON (WithServerStatus d st)) = st"
  "rv_spec (doc_JSON (WithServerMetadata d m)) = rv_spec (doc_JSON d)"
  "rv_spec (doc_JSON (WithServerStatus d st)) = rv_spec (doc_JSON d)"
  "rv_meta (doc_JSON (WithServerStatus d st)) = rv_meta (doc_JSON d)"
  "rv_status (doc_JSON (WithServerMetadata d m)) = rv_status (doc_JSON d)"
  "doc_apiVersion (WithServerStatus d st) = doc_apiVersion d"
  "doc_apiVersion (WithServerMetadata d m) = doc_apiVersion d"
  by (simp_all add: WithServerStatus_def WithServerMetadata_def)

lemma DecodeTrigger_JSON:
  assumes "doc_valid lib d" and "doc_kind d = ''Trigger''"
  obtains t where "doc_spec d = STrigger t"
    and "DecodeTrigger lib (doc_JSON d) = Inr (doc_metadata d, t)"
proof -
  have s: "doc_spec d = rv_spec (doc_JSON d)" and m: "doc_metadata d = rv_meta (doc_JSON d)"
    and k: "spec_kind (doc_spec d) = ''Trigger''"
    using assms by (auto simp: doc_valid_def doc_coherent_def)
  from k obtain t where t: "doc_spec d = STrigger t" by (cases "doc_spec d") auto
  have "DecodeTrigger lib (doc_JSON d) = Inr (doc_metadata d, t)"
    using assms(2) t s m by (simp add: DecodeTrigger_def decode_as_def decode_value_JSON[OF assms(1)])
  with t show ?thesis by (rule that)
qed

end
