(* ===== verification/Flow_Plan.thy ===== *)
theory Flow_Plan
  imports Resource
begin

text \<open>
  The data of \<open>internal/flow/compiler.go\<close>: diagnostics and the immutable execution plan. The store
  persists plans, the engine interprets them, so the types stand apart from the compiler. A raw
  schema that may be absent is a \<open>json option\<close>.
\<close>

definition InterpreterVersion :: string where
  "InterpreterVersion = ''generic-v1''"

definition defaultTimeout :: duration where
  "defaultTimeout = 3600000000000"

record diagnostic =
  diag_severity :: string
  diag_path :: string
  diag_code :: string
  diag_message :: string

definition SeverityError :: string where
  "SeverityError = ''error''"

definition SeverityWarning :: string where
  "SeverityWarning = ''warning''"

definition IsError :: "diagnostic \<Rightarrow> bool" where
  "IsError d \<longleftrightarrow> diag_severity d = [] \<or> diag_severity d = SeverityError"

definition hasErrorDiagnostics :: "diagnostic list \<Rightarrow> bool" where
  "hasErrorDiagnostics ds \<longleftrightarrow> list_ex IsError ds"

definition HasErrors :: "diagnostic list \<Rightarrow> bool" where
  "HasErrors ds = hasErrorDiagnostics ds"

definition hasErrorAt :: "diagnostic list \<Rightarrow> string \<Rightarrow> bool" where
  "hasErrorAt ds path \<longleftrightarrow> list_ex (\<lambda>d. IsError d \<and> has_prefix (diag_path d) path) ds"

text \<open>A diagnostic literal without a severity is an error, as \<open>IsError\<close> reads it.\<close>

definition diag :: "string \<Rightarrow> string \<Rightarrow> string \<Rightarrow> diagnostic" where
  "diag path code msg =
     \<lparr>diag_severity = [], diag_path = path, diag_code = code, diag_message = msg\<rparr>"

definition warning :: "string \<Rightarrow> string \<Rightarrow> string \<Rightarrow> diagnostic" where
  "warning path code msg =
     \<lparr>diag_severity = SeverityWarning, diag_path = path, diag_code = code, diag_message = msg\<rparr>"

record plugin_binding =
  pb_name :: string
  pb_version :: string
  pb_digest :: string
  pb_protocolVersion :: nat

record resource_binding =
  rb_kind :: string
  rb_namespace :: string
  rb_name :: string
  rb_uid :: string
  rb_resourceVersion :: nat
  rb_generation :: nat
  rb_spec :: json

record action_contract =
  ac_digest :: string
  ac_configSchema :: "json option"
  ac_inputSchema :: "json option"
  ac_outputSchema :: "json option"

record action_binding =
  ab_plugin :: plugin_binding
  ab_contract :: action_contract
  ab_config :: "(string \<times> json) list"
  ab_resources :: "resource_binding list"

record plan_node =
  pn_id :: string
  pn_name :: string
  pn_namespace :: string
  pn_uses :: string
  pn_with :: "(string \<times> json) list"
  pn_retryLimit :: int
  pn_retryBackoff :: string
  pn_timeout :: string
  pn_loopMaxIterations :: int
  pn_plugin :: "plugin_binding option"
  pn_contract :: "action_contract option"
  pn_resources :: "resource_binding list"

record plan_edge =
  pe_from :: string
  pe_to :: string
  pe_condition :: string

record execution_plan =
  plan_apiVersion :: string
  plan_flowUID :: string
  plan_flowGeneration :: nat
  plan_interpreterVersion :: string
  plan_timeout :: string
  plan_maxParallel :: int
  plan_inputSchema :: "json option"
  plan_nodes :: "plan_node list"
  plan_edges :: "plan_edge list"
  plan_components :: "string list list"
  plan_planHash :: string

lemma diag_is_error [simp]: "IsError (diag p c m)"
  by (simp add: IsError_def diag_def)

lemma warning_not_error [simp]: "\<not> IsError (warning p c m)"
  by (simp add: IsError_def warning_def SeverityWarning_def SeverityError_def)

lemma hasErrorDiagnostics_append [simp]:
  "hasErrorDiagnostics (xs @ ys) \<longleftrightarrow> hasErrorDiagnostics xs \<or> hasErrorDiagnostics ys"
  by (simp add: hasErrorDiagnostics_def)

lemma hasErrorDiagnostics_simps [simp]:
  "\<not> hasErrorDiagnostics []"
  "hasErrorDiagnostics (d # ds) \<longleftrightarrow> IsError d \<or> hasErrorDiagnostics ds"
  by (simp_all add: hasErrorDiagnostics_def)

lemma hasErrorDiagnostics_concat:
  "hasErrorDiagnostics (concat xss) \<longleftrightarrow> (\<exists>xs \<in> set xss. hasErrorDiagnostics xs)"
  by (induction xss) auto

end
