(* ===== verification/Store_Base.thy ===== *)
theory Store_Base
  imports Flow_Plan
begin

text \<open>
  The state of \<open>internal/store\<close>: the tables of \<open>internal/store/migrations\<close> as one record of row
  lists, the store's error values and the row operations several operations share.

  An operation of \<open>store.go\<close> that opens a transaction is a function
  \<open>db \<Rightarrow> (store_error, 'a \<times> db) result\<close>: the deferred rollback of an error return is the \<open>Inl\<close>
  that carries no database, so atomicity holds by construction and the properties are about what a
  committed transaction does. The clock, the uuid generator and the digest function are arguments.
  One operation reads the clock once. UNIQUE, PRIMARY KEY and FOREIGN KEY violations of the schema
  are \<open>ErrConstraint\<close>. Numeric columns are \<open>nat\<close>; the \<open>uint32\<close> attempt counter keeps its bound.
\<close>

section \<open>Errors\<close>

datatype store_error =
  ErrNotFound
| ErrTriggerDisabled
| StaleTriggerGenerationError nat nat
| StaleFlowPlanError string nat string nat
| TriggerReferenceChangedError
| ConflictError nat nat
| StaleObservedGenerationError nat nat
| SnapshotRevisionError nat nat
| ErrConstraint
| ErrText string

section \<open>Rows\<close>

record resource_row =
  res_kind :: string
  res_namespace :: string
  res_name :: string
  res_uid :: string
  res_version :: nat
  res_generation :: nat
  res_labels :: "(string \<times> string) list"
  res_json :: resource_value
  res_status :: json
  res_created :: time
  res_updated :: time

record resource_event =
  ev_revision :: nat
  ev_type :: string
  ev_kind :: string
  ev_namespace :: string
  ev_name :: string
  ev_uid :: string
  ev_document :: "resource_value option"
  ev_observed :: time

record audit_record =
  aud_revision :: nat
  aud_request_id :: string
  aud_actor :: string
  aud_context :: string
  aud_operation :: string
  aud_resource_uid :: string
  aud_old_hash :: string
  aud_new_hash :: string
  aud_occurred :: time

record plan_row =
  cp_hash :: string
  cp_flow_uid :: string
  cp_flow_generation :: nat
  cp_interpreter :: string
  cp_plan :: execution_plan
  cp_created :: time

record receipt_row =
  rcpt_uid :: string
  rcpt_trigger_uid :: string
  rcpt_occurrence_id :: string
  rcpt_provider_cursor :: string
  rcpt_payload :: json
  rcpt_deduplicated :: bool
  rcpt_run_uid :: string
  rcpt_accepted :: time

record start_payload =
  sp_runUID :: string
  sp_receiptUID :: string
  sp_flowName :: string
  sp_namespace :: string
  sp_planHash :: string
  sp_input :: json
  sp_idempotencyKey :: string

record signal_payload =
  sg_runUID :: string
  sg_receiptUID :: string
  sg_nodeID :: string
  sg_providerEventID :: string
  sg_payload :: json
  sg_idempotencyKey :: string

datatype command = StartCommand start_payload | SignalRunCommand signal_payload

record outbox_row =
  out_id :: nat
  out_command :: command
  out_aggregate_uid :: string
  out_idempotency_key :: string
  out_state :: string
  out_attempts :: nat
  out_available :: time
  out_claimed :: "time option"
  out_completed :: "time option"
  out_last_error :: string

record run_row =
  run_uid :: string
  run_flow_uid :: string
  run_receipt_uid :: string
  run_plan_hash :: string
  run_interpreter :: string
  run_phase :: string
  run_input :: json
  run_created :: time
  run_updated :: time
  run_completed :: "time option"

record attempt_row =
  att_run_uid :: string
  att_node_id :: string
  att_iteration :: nat
  att_attempt :: nat
  att_framework :: nat
  att_phase :: string
  att_key :: string
  att_input :: json
  att_output :: "json option"
  att_error :: string
  att_exit :: string
  att_started :: time
  att_completed :: "time option"

record run_event_row =
  re_run_uid :: string
  re_sequence :: nat
  re_node_id :: string
  re_attempt :: nat
  re_type :: string
  re_payload :: json
  re_occurred :: time

record approval_row =
  app_run_uid :: string
  app_node_id :: string
  app_state :: string
  app_actor :: string
  app_reason :: string
  app_expires :: "time option"
  app_decided :: "time option"
  app_signal_delivered :: bool

record cursor_row =
  cur_trigger_uid :: string
  cur_cursor :: string
  cur_event_id :: string
  cur_acknowledged :: time

record installation_row =
  ins_name :: string
  ins_version :: string
  ins_digest :: string
  ins_manifest :: json
  ins_contract :: "json option"
  ins_contract_digest :: string
  ins_state :: string
  ins_installed :: time

record activation_row =
  act_name :: string
  act_version :: string
  act_activated :: time

record trigger_state_row =
  tst_trigger_uid :: string
  tst_generation :: nat
  tst_enabled :: bool
  tst_cursor :: time
  tst_updated :: time

record trigger_skip_row =
  tsk_trigger_uid :: string
  tsk_occurrence_id :: string
  tsk_reason :: string
  tsk_scheduled :: time
  tsk_recorded :: time

record cancellation_row =
  can_run_uid :: string
  can_reason :: string
  can_delivered :: bool
  can_requested :: time
  can_delivered_at :: "time option"

record plugin_event_row =
  pev_run_uid :: string
  pev_node_id :: string
  pev_iteration :: nat
  pev_attempt :: nat
  pev_sequence :: nat
  pev_type :: string
  pev_payload :: json
  pev_occurred :: time

record artifact_row =
  art_uid :: string
  art_run_uid :: string
  art_node_id :: string
  art_iteration :: nat
  art_attempt :: nat
  art_name :: string
  art_media_type :: string
  art_relative_path :: string
  art_size :: int
  art_sha256 :: string
  art_created :: time
  art_updated :: time

record tombstone_row =
  tmb_trigger_uid :: string
  tmb_occurrence_id :: string
  tmb_receipt_uid :: string
  tmb_run_uid :: string
  tmb_deduplicated :: bool
  tmb_accepted :: time
  tmb_collected :: time

section \<open>The database\<close>

record db =
  db_revision :: nat
  db_resources :: "resource_row list"
  db_events :: "resource_event list"
  db_audit :: "audit_record list"
  db_plans :: "plan_row list"
  db_receipts :: "receipt_row list"
  db_outbox_seq :: nat
  db_outbox :: "outbox_row list"
  db_runs :: "run_row list"
  db_attempts :: "attempt_row list"
  db_run_events :: "run_event_row list"
  db_approvals :: "approval_row list"
  db_cursors :: "cursor_row list"
  db_installations :: "installation_row list"
  db_activations :: "activation_row list"
  db_trigger_states :: "trigger_state_row list"
  db_trigger_skips :: "trigger_skip_row list"
  db_cancellations :: "cancellation_row list"
  db_plugin_events :: "plugin_event_row list"
  db_artifacts :: "artifact_row list"
  db_tombstones :: "tombstone_row list"

definition empty_db :: db where
  "empty_db = \<lparr>db_revision = 0, db_resources = [], db_events = [], db_audit = [], db_plans = [],
     db_receipts = [], db_outbox_seq = 0, db_outbox = [], db_runs = [], db_attempts = [],
     db_run_events = [], db_approvals = [], db_cursors = [], db_installations = [],
     db_activations = [], db_trigger_states = [], db_trigger_skips = [], db_cancellations = [],
     db_plugin_events = [], db_artifacts = [], db_tombstones = []\<rparr>"

record store_env =
  env_lib :: resource_lib
  env_now :: time
  env_digest :: "resource_value \<Rightarrow> string"
  env_status_digest :: "json \<Rightarrow> string"

section \<open>Shared helpers\<close>

definition terminalRunPhase :: "string \<Rightarrow> bool" where
  "terminalRunPhase phase \<longleftrightarrow> phase = ''succeeded'' \<or> phase = ''failed'' \<or> phase = ''rejected'' \<or>
     phase = ''cancelled''"

definition valueOr :: "string \<Rightarrow> string \<Rightarrow> string" where
  "valueOr value fallback = (if value = [] then fallback else value)"

definition default_ns :: "string \<Rightarrow> string" where
  "default_ns ns = (if ns = [] then DefaultNamespace else ns)"

definition page_limit :: "int \<Rightarrow> nat" where
  "page_limit limit = (if limit \<le> 0 \<or> limit > 1000 then 100 else nat limit)"

definition nextRevision :: "db \<Rightarrow> nat \<times> db" where
  "nextRevision s = (Suc (db_revision s), s\<lparr>db_revision := Suc (db_revision s)\<rparr>)"

abbreviation res_at :: "string \<Rightarrow> string \<Rightarrow> string \<Rightarrow> resource_row \<Rightarrow> bool" where
  "res_at kind ns name r \<equiv> res_kind r = kind \<and> res_namespace r = ns \<and> res_name r = name"

definition find_resource :: "db \<Rightarrow> string \<Rightarrow> string \<Rightarrow> string \<Rightarrow> resource_row option" where
  "find_resource s kind ns name = select_row (res_at kind ns name) (db_resources s)"

definition find_run :: "db \<Rightarrow> string \<Rightarrow> run_row option" where
  "find_run s uid = select_row (\<lambda>r. run_uid r = uid) (db_runs s)"

lemma terminalRunPhase_simps [simp]:
  "terminalRunPhase ''succeeded''" "terminalRunPhase ''failed''" "terminalRunPhase ''rejected''"
  "terminalRunPhase ''cancelled''" "\<not> terminalRunPhase ''running''" "\<not> terminalRunPhase ''pending''"
  "\<not> terminalRunPhase ''waiting''"
  by (simp_all add: terminalRunPhase_def)

lemma page_limit_bounds: "0 < page_limit n" "page_limit n \<le> 1000"
  by (auto simp: page_limit_def)

lemma find_run_SomeD: "find_run s u = Some r \<Longrightarrow> r \<in> set (db_runs s) \<and> run_uid r = u"
  by (auto simp: find_run_def dest: select_row_SomeD)

lemma find_resource_SomeD:
  "find_resource s k ns n = Some r \<Longrightarrow> r \<in> set (db_resources s) \<and> res_at k ns n r"
  by (auto simp: find_resource_def dest: select_row_SomeD)

end
