(* ===== verification/Samples.thy ===== *)
theory Samples
  imports Store_Base
begin

text \<open>
  Small concrete inputs on which the hypotheses of the properties hold: a resource library that
  accepts every cron line and zone, a store environment, and one valid document of several kinds.
\<close>

definition sample_lib :: resource_lib where
  "sample_lib = \<lparr>yaml_probe = (\<lambda>_. None), yaml_strict = (\<lambda>_ _. None), cron_ok = (\<lambda>_. True),
     timezone_ok = (\<lambda>_. True)\<rparr>"

definition sample_env :: store_env where
  "sample_env = \<lparr>env_lib = sample_lib, env_now = 5, env_digest = (\<lambda>_. ''digest''),
     env_status_digest = (\<lambda>_. ''status'')\<rparr>"

definition sample_meta :: "string \<Rightarrow> object_meta" where
  "sample_meta name = \<lparr>meta_name = name, meta_namespace = ''default'', meta_uid = [],
     meta_resourceVersion = 0, meta_generation = 0, meta_labels = []\<rparr>"

definition sample_doc :: "string \<Rightarrow> spec \<Rightarrow> document" where
  "sample_doc name sp = \<lparr>doc_apiVersion = APIVersion, doc_kind = spec_kind sp,
     doc_metadata = sample_meta name, doc_spec = sp, doc_status = JObj [],
     doc_JSON = \<lparr>rv_meta = sample_meta name, rv_spec = sp, rv_status = []\<rparr>\<rparr>"

definition sample_secret :: document where
  "sample_secret = sample_doc ''token'' (SSecretRef \<lparr>sec_backend = ''env'', sec_key = ''TOKEN''\<rparr>)"

definition sample_flow_spec :: flow_spec where
  "sample_flow_spec = \<lparr>fs_inputs = [], fs_inputSchema = [],
     fs_policies = \<lparr>pol_timeout = [], pol_maxParallel = 0\<rparr>,
     fs_nodes = [\<lparr>node_id = ''a'', node_name = [], node_uses = ''core.approval'', node_with = [],
       node_retry = None, node_timeout = [], node_loop = None\<rparr>], fs_edges = []\<rparr>"

definition sample_flow :: document where
  "sample_flow = sample_doc ''build'' (SFlow sample_flow_spec)"

definition sample_trigger_spec :: trigger_spec where
  "sample_trigger_spec = \<lparr>trg_flow = ''build'', trg_enabled = None, trg_schedule = None,
     trg_webhook = Some \<lparr>hook_bearerSecretRef = ''token''\<rparr>, trg_provider = None, trg_delivery = None\<rparr>"

definition sample_trigger :: document where
  "sample_trigger = sample_doc ''hook'' (STrigger sample_trigger_spec)"

lemma sample_secret_valid: "doc_valid sample_lib sample_secret"
  by code_simp

lemma sample_flow_valid: "doc_valid sample_lib sample_flow"
  by code_simp

lemma sample_trigger_valid: "doc_valid sample_lib sample_trigger"
  by code_simp

lemma sample_env_lib [simp]: "env_lib sample_env = sample_lib"
  by (simp add: sample_env_def)

end
