(* ===== verification/Store_Resources.thy ===== *)
theory Store_Resources
  imports Samples
begin

text \<open>
  The desired-state half of \<open>internal/store/store.go\<close>: compare-and-swap writes of resources with
  their watch log and audit trail, status projections, reads, stable pages and the trigger state a
  Trigger resource owns.

  The invariant \<open>resources_inv\<close> ties the three records together: rows agree with the bytes they
  carry, revisions of the watch log grow strictly up to the global revision, and replaying the watch
  log from its start rebuilds exactly the resource collection (\<open>replay\<close>). Every operation
  keeps it.
\<close>

section \<open>Trigger state rows\<close>

definition ensureTriggerStateTx ::
    "db \<Rightarrow> string \<Rightarrow> nat \<Rightarrow> bool \<Rightarrow> time \<Rightarrow> time \<Rightarrow> (store_error, trigger_state_row \<times> db) result" where
  "ensureTriggerStateTx s uid generation enabled initialCursor updatedAt =
     (let fresh = \<lparr>tst_trigger_uid = uid, tst_generation = generation, tst_enabled = enabled,
                   tst_cursor = initialCursor, tst_updated = updatedAt\<rparr>
      in case select_row (\<lambda>t. tst_trigger_uid t = uid) (db_trigger_states s) of
           None \<Rightarrow> Inr (fresh, s\<lparr>db_trigger_states := db_trigger_states s @ [fresh]\<rparr>)
         | Some st \<Rightarrow>
             if tst_generation st \<noteq> generation then
               (if tst_generation st > generation
                then Inl (StaleTriggerGenerationError generation (tst_generation st))
                else Inr (fresh,
                  s\<lparr>db_trigger_states := update_rows (\<lambda>t. tst_trigger_uid t = uid) (\<lambda>_. fresh) (db_trigger_states s),
                    db_cursors := delete_rows (\<lambda>c. cur_trigger_uid c = uid) (db_cursors s)\<rparr>))
             else Inr (st, s))"

definition EnsureTriggerState ::
    "store_env \<Rightarrow> db \<Rightarrow> string \<Rightarrow> nat \<Rightarrow> bool \<Rightarrow> time \<Rightarrow> (store_error, trigger_state_row \<times> db) result" where
  "EnsureTriggerState env s uid generation enabled initialCursor =
     ensureTriggerStateTx s uid generation enabled initialCursor (env_now env)"

section \<open>Apply\<close>

record apply_options =
  opt_expectedResourceVersion :: nat
  opt_requestID :: string
  opt_actor :: string
  opt_context :: string

definition expected_version :: "document \<Rightarrow> apply_options \<Rightarrow> nat" where
  "expected_version doc opts = (if opt_expectedResourceVersion opts = 0
     then meta_resourceVersion (doc_metadata doc) else opt_expectedResourceVersion opts)"

definition apply_conflict :: "resource_row option \<Rightarrow> nat \<Rightarrow> store_error option" where
  "apply_conflict cur expected =
     (case cur of
        Some c \<Rightarrow> if expected \<noteq> res_version c then Some (ConflictError expected (res_version c)) else None
      | None \<Rightarrow> if expected \<noteq> 0 then Some (ConflictError expected 0) else None)"

text \<open>The server-owned metadata: the uid survives, the generation counts changes of the spec.\<close>

definition apply_meta ::
    "resource_lib \<Rightarrow> resource_row option \<Rightarrow> nat \<Rightarrow> string \<Rightarrow> document \<Rightarrow> (store_error, object_meta) result" where
  "apply_meta lib cur revision uuid doc =
     (let meta = (doc_metadata doc)\<lparr>meta_resourceVersion := revision\<rparr>
      in case cur of
           None \<Rightarrow> Inr (meta\<lparr>meta_uid := uuid, meta_generation := 1\<rparr>)
         | Some c \<Rightarrow>
             (case decode_value lib (res_json c) of
                Inl e \<Rightarrow> Inl (ErrText ''decode stored resource'')
              | Inr currentDoc \<Rightarrow>
                  Inr (meta\<lparr>meta_uid := res_uid c,
                    meta_generation := (if jsonEqual (marshal_spec (doc_spec currentDoc)) (marshal_spec (doc_spec doc))
                                        then res_generation c else Suc (res_generation c))\<rparr>)))"

definition apply_status :: "resource_row option \<Rightarrow> document \<Rightarrow> (store_error, document) result" where
  "apply_status cur doc =
     (case cur of None \<Rightarrow> Inr doc
      | Some c \<Rightarrow> (case res_status c of JObj m \<Rightarrow> Inr (WithServerStatus doc m)
          | JNull \<Rightarrow> Inr (WithServerStatus doc [])
          | _ \<Rightarrow> Inl (ErrText ''decode stored resource status'')))"

definition row_of :: "document \<Rightarrow> time \<Rightarrow> time \<Rightarrow> resource_row" where
  "row_of doc created updated =
     (let m = doc_metadata doc in
      \<lparr>res_kind = doc_kind doc, res_namespace = meta_namespace m, res_name = meta_name m,
       res_uid = meta_uid m, res_version = meta_resourceVersion m, res_generation = meta_generation m,
       res_labels = meta_labels m, res_json = doc_JSON doc, res_status = doc_status doc,
       res_created = created, res_updated = updated\<rparr>)"

definition write_resource :: "db \<Rightarrow> resource_row option \<Rightarrow> document \<Rightarrow> time \<Rightarrow> (store_error, db) result" where
  "write_resource s cur doc now =
     (let m = doc_metadata doc in
      case cur of
        Some c \<Rightarrow> Inr (s\<lparr>db_resources := update_rows (res_at (doc_kind doc) (meta_namespace m) (meta_name m))
                    (\<lambda>r. row_of doc (res_created r) now) (db_resources s)\<rparr>)
      | None \<Rightarrow> if exists_row (\<lambda>r. res_uid r = meta_uid m) (db_resources s) then Inl ErrConstraint
                else Inr (s\<lparr>db_resources := db_resources s @ [row_of doc now now]\<rparr>))"

definition apply_trigger_state :: "resource_lib \<Rightarrow> db \<Rightarrow> document \<Rightarrow> time \<Rightarrow> (store_error, db) result" where
  "apply_trigger_state lib s doc now =
     (if doc_kind doc \<noteq> ''Trigger'' then Inr s
      else (case DecodeTrigger lib (doc_JSON doc) of
          Inl e \<Rightarrow> Inl (ErrText ''decode applied Trigger'')
        | Inr (m, t) \<Rightarrow>
            (case ensureTriggerStateTx s (meta_uid m) (meta_generation m)
                    (trg_enabled t = None \<or> trg_enabled t = Some True) now now of
               Inl e \<Rightarrow> Inl e | Inr (_, s') \<Rightarrow> Inr s')))"

text \<open>One revision of the watch log and its audit record.\<close>

definition append_event :: "db \<Rightarrow> resource_event \<Rightarrow> audit_record \<Rightarrow> (store_error, db) result" where
  "append_event s e a =
     (if exists_row (\<lambda>x. ev_revision x = ev_revision e) (db_events s) then Inl ErrConstraint
      else Inr (s\<lparr>db_events := db_events s @ [e], db_audit := db_audit s @ [a]\<rparr>))"

definition doc_event :: "document \<Rightarrow> string \<Rightarrow> time \<Rightarrow> resource_event" where
  "doc_event doc etype now =
     (let m = doc_metadata doc in
      \<lparr>ev_revision = meta_resourceVersion m, ev_type = etype, ev_kind = doc_kind doc,
       ev_namespace = meta_namespace m, ev_name = meta_name m, ev_uid = meta_uid m,
       ev_document = Some (doc_JSON doc), ev_observed = now\<rparr>)"

definition apply_audit ::
    "store_env \<Rightarrow> string \<Rightarrow> apply_options \<Rightarrow> resource_row option \<Rightarrow> nat \<Rightarrow> document \<Rightarrow> audit_record" where
  "apply_audit env reqid opts cur revision doc =
     \<lparr>aud_revision = revision, aud_request_id = valueOr (opt_requestID opts) reqid,
      aud_actor = valueOr (opt_actor opts) ''unix-peer'', aud_context = opt_context opts,
      aud_operation = (if cur = None then ''added'' else ''modified''),
      aud_resource_uid = meta_uid (doc_metadata doc),
      aud_old_hash = (case cur of None \<Rightarrow> [] | Some c \<Rightarrow> env_digest env (res_json c)),
      aud_new_hash = env_digest env (doc_JSON doc), aud_occurred = env_now env\<rparr>"

definition Apply ::
    "store_env \<Rightarrow> string \<Rightarrow> string \<Rightarrow> db \<Rightarrow> document \<Rightarrow> apply_options \<Rightarrow> (store_error, document \<times> db) result" where
  "Apply env uuid reqid s doc0 opts =
     (let doc = WithServerStatus doc0 []; m0 = doc_metadata doc; now = env_now env;
          cur = find_resource s (doc_kind doc) (meta_namespace m0) (meta_name m0);
          (revision, s1) = nextRevision s
      in case apply_conflict cur (expected_version doc opts) of Some e \<Rightarrow> Inl e
       | None \<Rightarrow>
      bind_res (apply_meta (env_lib env) cur revision uuid doc) (\<lambda>meta.
      bind_res (apply_status cur (WithServerMetadata doc meta)) (\<lambda>doc'.
      bind_res (write_resource s1 cur doc' now) (\<lambda>s2.
      bind_res (apply_trigger_state (env_lib env) s2 doc' now) (\<lambda>s3.
      bind_res (append_event s3 (doc_event doc' (if cur = None then ''ADDED'' else ''MODIFIED'') now)
                  (apply_audit env reqid opts cur revision doc')) (\<lambda>s4.
      Inr (doc', s4)))))))"

section \<open>UpdateResourceStatus\<close>

definition UpdateResourceStatus ::
    "store_env \<Rightarrow> db \<Rightarrow> string \<Rightarrow> string \<Rightarrow> string \<Rightarrow> nat \<Rightarrow> (string \<times> json) list \<Rightarrow>
      (store_error, document \<times> db) result" where
  "UpdateResourceStatus env s kind ns0 name expectedGeneration status =
     (let ns = default_ns ns0; now = env_now env in
      bind_res (or_fail ErrNotFound (find_resource s kind ns name)) (\<lambda>c.
      bind_res (fail_if (expectedGeneration \<noteq> 0 \<and> res_generation c \<noteq> expectedGeneration)
                  (StaleObservedGenerationError expectedGeneration (res_generation c))) (\<lambda>_.
      bind_res (map_err (\<lambda>e. ErrText ''decode stored resource'') (decode_value (env_lib env) (res_json c))) (\<lambda>doc.
      if jsonEqual (res_status c) (JObj status) then Inr (doc, s)
      else (let (revision, s1) = nextRevision s;
                meta = (doc_metadata doc)\<lparr>meta_resourceVersion := revision\<rparr>;
                doc' = WithServerStatus (WithServerMetadata doc meta) status;
                s2 = s1\<lparr>db_resources := update_rows (res_at kind ns name)
                       (\<lambda>r. r\<lparr>res_version := revision, res_json := doc_JSON doc',
                              res_status := JObj status, res_updated := now\<rparr>) (db_resources s1)\<rparr>
            in bind_res (append_event s2
                 \<lparr>ev_revision = revision, ev_type = ''MODIFIED'', ev_kind = kind, ev_namespace = ns,
                  ev_name = name, ev_uid = res_uid c, ev_document = Some (doc_JSON doc'), ev_observed = now\<rparr>
                 \<lparr>aud_revision = revision,
                  aud_request_id = ''status:'' @ res_uid c @ '':'' @ itoa (res_generation c) @ '':''
                    @ env_status_digest env (JObj status),
                  aud_actor = ''controller'', aud_context = [], aud_operation = ''status'',
                  aud_resource_uid = res_uid c, aud_old_hash = env_digest env (res_json c),
                  aud_new_hash = env_digest env (doc_JSON doc'), aud_occurred = now\<rparr>) (\<lambda>s3.
               Inr (doc', s3)))))))"

section \<open>Reads\<close>

definition decode_row :: "resource_lib \<Rightarrow> resource_row \<Rightarrow> (store_error, document) result" where
  "decode_row lib r = (case decode_value lib (res_json r) of
     Inl e \<Rightarrow> Inl (ErrText ''decode stored resource'') | Inr d \<Rightarrow> Inr d)"

fun decode_rows :: "resource_lib \<Rightarrow> resource_row list \<Rightarrow> (store_error, document list) result" where
  "decode_rows lib [] = Inr []"
| "decode_rows lib (r # rs) = (case decode_row lib r of Inl e \<Rightarrow> Inl e
     | Inr d \<Rightarrow> (case decode_rows lib rs of Inl e \<Rightarrow> Inl e | Inr ds \<Rightarrow> Inr (d # ds)))"

definition Get :: "resource_lib \<Rightarrow> db \<Rightarrow> string \<Rightarrow> string \<Rightarrow> string \<Rightarrow> (store_error, document) result" where
  "Get lib s kind ns name =
     (case find_resource s kind (default_ns ns) name of
        None \<Rightarrow> Inl ErrNotFound | Some r \<Rightarrow> decode_row lib r)"

definition ResourceByUID :: "resource_lib \<Rightarrow> db \<Rightarrow> string \<Rightarrow> string \<Rightarrow> (store_error, document) result" where
  "ResourceByUID lib s kind uid =
     (case select_row (\<lambda>r. res_kind r = kind \<and> res_uid r = uid) (db_resources s) of
        None \<Rightarrow> Inl ErrNotFound | Some r \<Rightarrow> decode_row lib r)"

type_synonym res_key = "string \<times> string \<times> string"

definition row_key :: "resource_row \<Rightarrow> res_key" where
  "row_key r = (res_kind r, res_namespace r, res_name r)"

definition in_scope :: "string \<Rightarrow> string \<Rightarrow> resource_row \<Rightarrow> bool" where
  "in_scope kind ns r \<longleftrightarrow> (kind = [] \<or> res_kind r = kind) \<and> (ns = [] \<or> res_namespace r = ns)"

definition ListResources ::
    "resource_lib \<Rightarrow> db \<Rightarrow> string \<Rightarrow> string \<Rightarrow> int \<Rightarrow> (store_error, document list \<times> nat) result" where
  "ListResources lib s kind ns limit =
     (case decode_rows lib (take (page_limit limit)
             (sort_key row_key (filter (in_scope kind ns) (db_resources s)))) of
        Inl e \<Rightarrow> Inl e | Inr ds \<Rightarrow> Inr (ds, db_revision s))"

record page_options =
  pg_kind :: string
  pg_namespace :: string
  pg_labels :: "(string \<times> string) list"
  pg_afterKind :: string
  pg_afterNamespace :: string
  pg_afterName :: string
  pg_expectedRevision :: nat
  pg_limit :: int

definition labelsMatch :: "(string \<times> string) list \<Rightarrow> (string \<times> string) list \<Rightarrow> bool" where
  "labelsMatch actual required \<longleftrightarrow> list_all (\<lambda>(k, v). map_of actual k = Some v) required"

definition after_set :: "page_options \<Rightarrow> bool" where
  "after_set pg \<longleftrightarrow> pg_afterKind pg \<noteq> [] \<or> pg_afterNamespace pg \<noteq> [] \<or> pg_afterName pg \<noteq> []"

definition after_key :: "page_options \<Rightarrow> resource_row \<Rightarrow> bool" where
  "after_key pg r \<longleftrightarrow> \<not> after_set pg \<or> res_kind r > pg_afterKind pg \<or>
     (res_kind r = pg_afterKind pg \<and> res_namespace r > pg_afterNamespace pg) \<or>
     (res_kind r = pg_afterKind pg \<and> res_namespace r = pg_afterNamespace pg \<and> res_name r > pg_afterName pg)"

text \<open>The loop over the ordered rows: skip what the labels exclude, stop one row after the limit.\<close>

fun page_scan :: "resource_lib \<Rightarrow> (string \<times> string) list \<Rightarrow> nat \<Rightarrow> document list \<Rightarrow> resource_row list \<Rightarrow>
    (store_error, document list \<times> bool) result" where
  "page_scan lib labels limit acc [] = Inr (acc, False)"
| "page_scan lib labels limit acc (r # rs) =
     (if labels \<noteq> [] \<and> \<not> labelsMatch (res_labels r) labels then page_scan lib labels limit acc rs
      else if length acc = limit then Inr (acc, True)
      else (case decode_row lib r of Inl e \<Rightarrow> Inl e
        | Inr d \<Rightarrow> page_scan lib labels limit (acc @ [d]) rs))"

definition page_rows :: "db \<Rightarrow> page_options \<Rightarrow> resource_row list" where
  "page_rows s pg = sort_key row_key
     (filter (\<lambda>r. in_scope (pg_kind pg) (pg_namespace pg) r \<and> after_key pg r) (db_resources s))"

definition ListResourcePage ::
    "resource_lib \<Rightarrow> db \<Rightarrow> page_options \<Rightarrow> (store_error, document list \<times> nat \<times> bool) result" where
  "ListResourcePage lib s pg =
     (if pg_expectedRevision pg \<noteq> 0 \<and> pg_expectedRevision pg \<noteq> db_revision s
      then Inl (SnapshotRevisionError (pg_expectedRevision pg) (db_revision s))
      else (case page_scan lib (pg_labels pg) (page_limit (pg_limit pg)) [] (page_rows s pg) of
          Inl e \<Rightarrow> Inl e | Inr (ds, hasMore) \<Rightarrow> Inr (ds, db_revision s, hasMore)))"

definition EventsAfter :: "db \<Rightarrow> string \<Rightarrow> string \<Rightarrow> nat \<Rightarrow> int \<Rightarrow> resource_event list" where
  "EventsAfter s kind ns revision limit =
     take (page_limit limit) (sort_key ev_revision
       (filter (\<lambda>e. ev_revision e > revision \<and> (kind = [] \<or> ev_kind e = kind) \<and>
                    (ns = [] \<or> ev_namespace e = ns)) (db_events s)))"

section \<open>Delete\<close>

definition Delete ::
    "store_env \<Rightarrow> string \<Rightarrow> db \<Rightarrow> string \<Rightarrow> string \<Rightarrow> string \<Rightarrow> nat \<Rightarrow> string \<Rightarrow> (store_error, db) result" where
  "Delete env reqid s kind ns0 name expected requestID =
     (let ns = default_ns ns0; now = env_now env in
      bind_res (or_fail ErrNotFound (find_resource s kind ns name)) (\<lambda>c.
      bind_res (fail_if (res_version c \<noteq> expected) (ConflictError expected (res_version c))) (\<lambda>_.
      (let (revision, s1) = nextRevision s;
           s2 = s1\<lparr>db_resources := delete_rows (res_at kind ns name) (db_resources s1)\<rparr>;
           s3 = (if kind = ''Trigger''
                 then s2\<lparr>db_cursors := delete_rows (\<lambda>r. cur_trigger_uid r = res_uid c) (db_cursors s2),
                         db_trigger_states := delete_rows (\<lambda>t. tst_trigger_uid t = res_uid c) (db_trigger_states s2)\<rparr>
                 else s2)
       in append_event s3
            \<lparr>ev_revision = revision, ev_type = ''DELETED'', ev_kind = kind, ev_namespace = ns,
             ev_name = name, ev_uid = res_uid c, ev_document = None, ev_observed = now\<rparr>
            \<lparr>aud_revision = revision, aud_request_id = valueOr requestID reqid,
             aud_actor = ''unix-peer'', aud_context = [], aud_operation = ''deleted'',
             aud_resource_uid = res_uid c, aud_old_hash = env_digest env (res_json c),
             aud_new_hash = [], aud_occurred = now\<rparr>))))"

section \<open>The invariant\<close>

text \<open>A row agrees with the document its bytes decode to.\<close>

definition row_ok :: "resource_lib \<Rightarrow> resource_row \<Rightarrow> bool" where
  "row_ok lib r \<longleftrightarrow> (case decode_value lib (res_json r) of Inl _ \<Rightarrow> False
     | Inr d \<Rightarrow> r = row_of d (res_created r) (res_updated r))"

definition ev_key :: "resource_event \<Rightarrow> res_key" where
  "ev_key e = (ev_kind e, ev_namespace e, ev_name e)"

text \<open>A watcher's view: what a client that folds the events it is sent knows.\<close>

definition replay_event :: "(res_key \<rightharpoonup> resource_value) \<Rightarrow> resource_event \<Rightarrow> (res_key \<rightharpoonup> resource_value)" where
  "replay_event m e = m(ev_key e := (if ev_type e = ''DELETED'' then None else ev_document e))"

definition replay :: "(res_key \<rightharpoonup> resource_value) \<Rightarrow> resource_event list \<Rightarrow> (res_key \<rightharpoonup> resource_value)" where
  "replay m es = foldl replay_event m es"

definition stored :: "db \<Rightarrow> (res_key \<rightharpoonup> resource_value)" where
  "stored s k = map_option res_json (select_row (\<lambda>r. row_key r = k) (db_resources s))"

definition resources_inv :: "resource_lib \<Rightarrow> db \<Rightarrow> bool" where
  "resources_inv lib s \<longleftrightarrow>
     distinct (map row_key (db_resources s)) \<and> distinct (map res_uid (db_resources s)) \<and>
     (\<forall>r \<in> set (db_resources s). row_ok lib r \<and> 0 < res_version r \<and> res_version r \<le> db_revision s \<and>
        0 < res_generation r) \<and>
     sorted_wrt (<) (map ev_revision (db_events s)) \<and>
     (\<forall>e \<in> set (db_events s). 0 < ev_revision e \<and> ev_revision e \<le> db_revision s) \<and>
     map aud_revision (db_audit s) = map ev_revision (db_events s) \<and>
     replay Map.empty (db_events s) = stored s"

lemma find_resource_key: "find_resource s k ns n = select_row (\<lambda>r. row_key r = (k, ns, n)) (db_resources s)"
  by (simp add: find_resource_def row_key_def)

lemma row_of_simps [simp]:
  "res_kind (row_of d c u) = doc_kind d" "res_namespace (row_of d c u) = meta_namespace (doc_metadata d)"
  "res_name (row_of d c u) = meta_name (doc_metadata d)" "res_uid (row_of d c u) = meta_uid (doc_metadata d)"
  "res_version (row_of d c u) = meta_resourceVersion (doc_metadata d)"
  "res_generation (row_of d c u) = meta_generation (doc_metadata d)"
  "res_json (row_of d c u) = doc_JSON d" "res_status (row_of d c u) = doc_status d"
  "res_created (row_of d c u) = c" "res_updated (row_of d c u) = u"
  "res_labels (row_of d c u) = meta_labels (doc_metadata d)"
  by (simp_all add: row_of_def Let_def)

definition doc_key :: "document \<Rightarrow> res_key" where
  "doc_key d = (doc_kind d, meta_namespace (doc_metadata d), meta_name (doc_metadata d))"

lemma row_key_row_of [simp]: "row_key (row_of d c u) = doc_key d"
  by (simp add: row_key_def doc_key_def)

lemma doc_event_simps [simp]:
  "ev_revision (doc_event d t n) = meta_resourceVersion (doc_metadata d)" "ev_type (doc_event d t n) = t"
  "ev_document (doc_event d t n) = Some (doc_JSON d)" "ev_key (doc_event d t n) = doc_key d"
  by (simp_all add: doc_event_def Let_def ev_key_def doc_key_def)

lemma row_ok_row_of:
  assumes "doc_valid lib d" and "doc_status d = JObj (rv_status (doc_JSON d))"
  shows "row_ok lib (row_of d c u)"
  using assms by (simp add: row_ok_def decode_value_JSON)

text \<open>The uid and the generation a write gives the resource at its key.\<close>

definition next_generation :: "resource_lib \<Rightarrow> resource_row option \<Rightarrow> document \<Rightarrow> nat" where
  "next_generation lib cur doc = (case cur of None \<Rightarrow> 1
     | Some c \<Rightarrow> if jsonEqual (marshal_spec (rv_spec (res_json c))) (marshal_spec (doc_spec doc))
                 then res_generation c else Suc (res_generation c))"

lemma expected_version_WithServerStatus [simp]:
  "expected_version (WithServerStatus d st) opts = expected_version d opts"
  by (simp add: expected_version_def)

definition current_version :: "resource_row option \<Rightarrow> nat" where
  "current_version cur = (case cur of None \<Rightarrow> 0 | Some c \<Rightarrow> res_version c)"

lemma apply_conflict_None:
  "apply_conflict cur n = None \<longleftrightarrow> n = current_version cur"
  by (auto simp: apply_conflict_def current_version_def split: option.splits)

lemma apply_conflict_Some:
  "apply_conflict cur n = (if n = current_version cur then None else Some (ConflictError n (current_version cur)))"
  by (auto simp: apply_conflict_def current_version_def split: option.splits)

lemma append_event_Inr:
  "append_event s e a = Inr s' \<longleftrightarrow> \<not> exists_row (\<lambda>x. ev_revision x = ev_revision e) (db_events s) \<and>
     s' = s\<lparr>db_events := db_events s @ [e], db_audit := db_audit s @ [a]\<rparr>"
  by (auto simp: append_event_def)

lemma ensureTriggerStateTx_frame:
  "ensureTriggerStateTx s u g en c t = Inr (st, s') \<Longrightarrow>
    \<exists>ts cs. s' = s\<lparr>db_trigger_states := ts, db_cursors := cs\<rparr>"
  by (rule exI[of _ "db_trigger_states s'"], rule exI[of _ "db_cursors s'"])
    (auto simp: ensureTriggerStateTx_def Let_def split: option.splits if_splits)

lemma apply_trigger_state_frame:
  "apply_trigger_state lib s d t = Inr s' \<Longrightarrow>
    \<exists>ts cs. s' = s\<lparr>db_trigger_states := ts, db_cursors := cs\<rparr>"
  by (fastforce simp: apply_trigger_state_def dest: ensureTriggerStateTx_frame split: if_splits sum.splits
    intro: exI[of _ "db_trigger_states s"] exI[of _ "db_cursors s"])


lemma apply_meta_Inr:
  assumes "apply_meta lib cur revision uuid doc = Inr m"
  shows "meta_name m = meta_name (doc_metadata doc)" "meta_namespace m = meta_namespace (doc_metadata doc)"
    "meta_labels m = meta_labels (doc_metadata doc)" "meta_resourceVersion m = revision"
    "meta_uid m = (case cur of None \<Rightarrow> uuid | Some c \<Rightarrow> res_uid c)"
    "meta_generation m = next_generation lib cur doc"
  using assms by (auto simp: apply_meta_def Let_def next_generation_def dest: decode_value_spec
    split: option.splits sum.splits)

lemma apply_status_Inr:
  assumes "apply_status cur doc = Inr d" and "doc_status doc = JObj (rv_status (doc_JSON doc))"
  shows "doc_metadata d = doc_metadata doc" "doc_spec d = doc_spec doc" "doc_kind d = doc_kind doc"
    "doc_valid lib doc \<Longrightarrow> doc_valid lib d" "doc_status d = JObj (rv_status (doc_JSON d))"
    "cur = Some c \<Longrightarrow> res_status c = JObj st \<Longrightarrow> doc_status d = JObj st"
  using assms by (auto simp: apply_status_def split: option.splits json.splits
    intro: doc_valid_WithServerStatus)

text \<open>What a committed \<open>Apply\<close> has done, in one statement the properties read off.\<close>

definition applied :: "store_env \<Rightarrow> string \<Rightarrow> db \<Rightarrow> document \<Rightarrow> apply_options \<Rightarrow> document \<Rightarrow> db \<Rightarrow> bool" where
  "applied env uuid s doc opts d s' \<longleftrightarrow>
     (let cur = select_row (\<lambda>r. row_key r = doc_key doc) (db_resources s); now = env_now env in
      expected_version doc opts = current_version cur \<and>
      doc_kind d = doc_kind doc \<and> doc_spec d = doc_spec doc \<and>
      doc_metadata d = (doc_metadata doc)\<lparr>meta_resourceVersion := Suc (db_revision s),
        meta_uid := (case cur of None \<Rightarrow> uuid | Some c \<Rightarrow> res_uid c),
        meta_generation := next_generation (env_lib env) cur doc\<rparr> \<and>
      doc_status d = (case cur of None \<Rightarrow> JObj []
        | Some c \<Rightarrow> (case res_status c of JObj m \<Rightarrow> JObj m | _ \<Rightarrow> JObj [])) \<and>
      db_resources s' = (case cur of None \<Rightarrow> db_resources s @ [row_of d now now]
        | Some c \<Rightarrow> update_rows (\<lambda>r. row_key r = doc_key doc) (\<lambda>r. row_of d (res_created r) now) (db_resources s)) \<and>
      (cur = None \<longrightarrow> uuid \<notin> res_uid ` set (db_resources s)) \<and>
      db_revision s' = Suc (db_revision s) \<and>
      db_events s' = db_events s @ [doc_event d (if cur = None then ''ADDED'' else ''MODIFIED'') now] \<and>
      map aud_revision (db_audit s') = map aud_revision (db_audit s) @ [Suc (db_revision s)])"

lemma Apply_applied:
  assumes ok: "Apply env uuid reqid s doc opts = Inr (d, s')" and valid: "doc_valid (env_lib env) doc"
  shows "applied env uuid s doc opts d s'" and "doc_valid (env_lib env) d"
    and "doc_status d = JObj (rv_status (doc_JSON d))"
proof -
  let ?doc1 = "WithServerStatus doc []"
  define cur where "cur = select_row (\<lambda>r. row_key r = doc_key doc) (db_resources s)"
  have find: "find_resource s (doc_kind doc) (meta_namespace (doc_metadata doc)) (meta_name (doc_metadata doc)) = cur"
    by (simp add: find_resource_key cur_def doc_key_def)
  obtain m s2 s3 where c: "apply_conflict cur (expected_version doc opts) = None"
    and m: "apply_meta (env_lib env) cur (Suc (db_revision s)) uuid ?doc1 = Inr m"
    and st: "apply_status cur (WithServerMetadata ?doc1 m) = Inr d"
    and w: "write_resource (s\<lparr>db_revision := Suc (db_revision s)\<rparr>) cur d (env_now env) = Inr s2"
    and t: "apply_trigger_state (env_lib env) s2 d (env_now env) = Inr s3"
    and ev: "append_event s3 (doc_event d (if cur = None then ''ADDED'' else ''MODIFIED'') (env_now env))
       (apply_audit env reqid opts cur (Suc (db_revision s)) d) = Inr s'"
    using ok by (auto simp: Apply_def Let_def nextRevision_def find split: option.splits)
  note mm = apply_meta_Inr[OF m]
  have pre: "doc_status (WithServerMetadata ?doc1 m) = JObj (rv_status (doc_JSON (WithServerMetadata ?doc1 m)))"
    by simp
  note ss = apply_status_Inr[OF st pre]
  have v1: "doc_valid (env_lib env) (WithServerMetadata ?doc1 m)"
    using valid mm by (auto intro: doc_valid_WithServerMetadata doc_valid_WithServerStatus)
  then show "doc_valid (env_lib env) d" "doc_status d = JObj (rv_status (doc_JSON d))" using ss by auto
  have md: "doc_metadata d = m" "doc_kind d = doc_kind doc" "doc_spec d = doc_spec doc" using ss by auto
  have dk: "doc_key d = doc_key doc" using md mm by (simp add: doc_key_def)
  obtain ts cs where fr: "s3 = s2\<lparr>db_trigger_states := ts, db_cursors := cs\<rparr>"
    using apply_trigger_state_frame[OF t] by blast
  have s': "db_resources s' = db_resources s2" "db_revision s' = db_revision s2"
    "db_events s' = db_events s2 @ [doc_event d (if cur = None then ''ADDED'' else ''MODIFIED'') (env_now env)]"
    "map aud_revision (db_audit s') = map aud_revision (db_audit s2) @ [Suc (db_revision s)]"
    using ev by (auto simp: fr append_event_Inr apply_audit_def)
  have res: "db_resources s2 = (case cur of None \<Rightarrow> db_resources s @ [row_of d (env_now env) (env_now env)]
        | Some c \<Rightarrow> update_rows (\<lambda>r. row_key r = doc_key doc) (\<lambda>r. row_of d (res_created r) (env_now env)) (db_resources s))"
    "db_revision s2 = Suc (db_revision s)" "db_events s2 = db_events s" "db_audit s2 = db_audit s"
    "cur = None \<longrightarrow> uuid \<notin> res_uid ` set (db_resources s)"
    using w md mm by (auto simp: write_resource_def Let_def row_key_def doc_key_def row_simps split: option.splits if_splits)
  have "m = (doc_metadata doc)\<lparr>meta_resourceVersion := Suc (db_revision s),
        meta_uid := (case cur of None \<Rightarrow> uuid | Some c \<Rightarrow> res_uid c),
        meta_generation := next_generation (env_lib env) cur doc\<rparr>"
    using mm by (intro object_meta.equality) (auto simp: next_generation_def split: option.split)
  moreover have "doc_status d = (case cur of None \<Rightarrow> JObj []
      | Some c \<Rightarrow> (case res_status c of JObj m \<Rightarrow> JObj m | _ \<Rightarrow> JObj []))"
    using st by (cases cur) (auto simp: apply_status_def split: json.splits)
  moreover have "expected_version doc opts = current_version cur" using c by (simp add: apply_conflict_None)
  ultimately show "applied env uuid s doc opts d s'"
    using res s' md by (simp add: applied_def Let_def cur_def[symmetric])
qed

lemma replay_append: "replay m (xs @ ys) = replay (replay m xs) ys"
  by (simp add: replay_def)

lemma replay_simps [simp]: "replay m [] = m" "replay m (e # es) = replay (replay_event m e) es"
  by (simp_all add: replay_def)

text \<open>One more revision: the log keeps its order and the audit trail follows it.\<close>

lemma log_step:
  assumes "resources_inv lib s" and "db_revision s' = Suc (db_revision s)"
    and "db_events s' = db_events s @ [e]" and "ev_revision e = Suc (db_revision s)"
    and "map aud_revision (db_audit s') = map aud_revision (db_audit s) @ [Suc (db_revision s)]"
    and "replay_event (stored s) e = stored s'"
    and "distinct (map row_key (db_resources s'))" and "distinct (map res_uid (db_resources s'))"
    and "\<And>r. r \<in> set (db_resources s') \<Longrightarrow> r \<in> set (db_resources s) \<or>
       (row_ok lib r \<and> res_version r = Suc (db_revision s) \<and> 0 < res_generation r)"
  shows "resources_inv lib s'"
  using assms unfolding resources_inv_def
  by (fastforce simp: sorted_wrt_append replay_append)

lemma applied_keeps_inv:
  assumes inv: "resources_inv (env_lib env) s" and ap: "applied env uuid s doc opts d s'"
    and v: "doc_valid (env_lib env) d" and st: "doc_status d = JObj (rv_status (doc_JSON d))"
  shows "resources_inv (env_lib env) s'"
proof -
  define cur where "cur = select_row (\<lambda>r. row_key r = doc_key doc) (db_resources s)"
  note a = ap[unfolded applied_def Let_def cur_def[symmetric]]
  have dk: "doc_key d = doc_key doc" using a by (simp add: doc_key_def)
  have ok: "row_ok (env_lib env) (row_of d c n)" for c n by (rule row_ok_row_of[OF v st])
  have rows: "distinct (map row_key (db_resources s))" "distinct (map res_uid (db_resources s))"
    "\<And>r. r \<in> set (db_resources s) \<Longrightarrow> 0 < res_generation r"
    using inv by (auto simp: resources_inv_def)
  have cur_in: "cur = Some c \<Longrightarrow> c \<in> set (db_resources s) \<and> row_key c = doc_key doc" for c
    by (auto simp: cur_def dest: select_row_SomeD)
  have curN: "cur = None \<Longrightarrow> doc_key doc \<notin> row_key ` set (db_resources s)"
    by (auto simp: cur_def select_row_None)
  have uniq: "cur = Some c \<Longrightarrow> r \<in> set (db_resources s) \<Longrightarrow> row_key r = doc_key doc \<Longrightarrow> r = c" for c r
    using rows(1) cur_in by (auto simp: distinct_map inj_on_def)
  have gen: "0 < meta_generation (doc_metadata d)"
    using a rows(3) cur_in by (auto simp: next_generation_def split: option.splits)
  have keys: "distinct (map row_key (db_resources s'))"
    using a rows curN by (cases cur) (auto simp: dk map_update_rows)
  have uids: "distinct (map res_uid (db_resources s'))"
  proof (cases cur)
    case None
    then show ?thesis using a rows by auto
  next
    case (Some c)
    have "map res_uid (db_resources s') = map res_uid (db_resources s)"
      using a Some uniq by (auto simp: update_rows_def)
    then show ?thesis using rows by simp
  qed
  have sto: "replay_event (stored s) (doc_event d (if cur = None then ''ADDED'' else ''MODIFIED'') (env_now env)) = stored s'"
    (is "replay_event _ ?e = _")
  proof
    fix k
    have "stored s' k = (if k = doc_key doc then Some (doc_JSON d) else stored s k)"
      using a unfolding cur_def stored_def
      by (intro select_row_upsert[where key = row_key]) (auto simp: dk)
    then show "replay_event (stored s) ?e k = stored s' k"
      by (simp add: replay_event_def dk)
  qed
  show ?thesis
    by (rule log_step[OF inv _ _ _ _ sto keys uids])
      (use a ok gen in \<open>auto simp: row_simps split: option.splits\<close>)
qed

text \<open>A stored row carries its own document.\<close>

lemma row_ok_decode:
  assumes "row_ok lib r"
  obtains d where "decode_value lib (res_json r) = Inr d" "doc_valid lib d" "doc_JSON d = res_json r"
    "r = row_of d (res_created r) (res_updated r)"
proof (cases "decode_value lib (res_json r)")
  case (Inl e)
  with assms show ?thesis by (simp add: row_ok_def)
next
  case (Inr d)
  have r: "r = row_of d (res_created r) (res_updated r)" using assms Inr by (simp add: row_ok_def)
  have "res_json r = doc_JSON d" by (subst r) simp
  then show ?thesis using Inr r by (intro that) (auto dest: decode_value_valid)
qed

definition status_written :: "store_env \<Rightarrow> db \<Rightarrow> res_key \<Rightarrow> resource_row \<Rightarrow> (string \<times> json) list \<Rightarrow> document \<Rightarrow> db \<Rightarrow> bool" where
  "status_written env s k c status d s' \<longleftrightarrow>
     doc_valid (env_lib env) d \<and> doc_key d = k \<and> doc_spec d = rv_spec (res_json c) \<and>
     doc_metadata d = (rv_meta (res_json c))\<lparr>meta_resourceVersion := Suc (db_revision s)\<rparr> \<and>
     doc_status d = JObj status \<and> rv_status (doc_JSON d) = status \<and>
     db_resources s' = update_rows (\<lambda>r. row_key r = k) (\<lambda>r. row_of d (res_created c) (env_now env)) (db_resources s) \<and>
     db_revision s' = Suc (db_revision s) \<and>
     (\<exists>e a. db_events s' = db_events s @ [e] \<and> ev_revision e = Suc (db_revision s) \<and> ev_type e = ''MODIFIED'' \<and>
        ev_key e = k \<and> ev_document e = Some (doc_JSON d) \<and>
        db_audit s' = db_audit s @ [a] \<and> aud_revision a = Suc (db_revision s))"

lemma UpdateResourceStatus_written:
  assumes inv: "resources_inv (env_lib env) s"
    and ok: "UpdateResourceStatus env s kind ns name gen status = Inr (d, s')"
    and k: "k = (kind, default_ns ns, name)"
  obtains c where "select_row (\<lambda>r. row_key r = k) (db_resources s) = Some c" "gen = 0 \<or> res_generation c = gen"
    "jsonEqual (res_status c) (JObj status) \<and> s' = s \<and> decode_value (env_lib env) (res_json c) = Inr d \<or>
     \<not> jsonEqual (res_status c) (JObj status) \<and> status_written env s k c status d s'"
proof -
  obtain c doc where c: "select_row (\<lambda>r. row_key r = k) (db_resources s) = Some c"
    and g: "gen = 0 \<or> res_generation c = gen" and doc: "decode_value (env_lib env) (res_json c) = Inr doc"
    using ok by (auto simp: UpdateResourceStatus_def Let_def find_resource_key k)
  have ck: "c \<in> set (db_resources s)" "row_key c = k" using select_row_SomeD[OF c] by auto
  have cok: "row_ok (env_lib env) c" using inv ck by (simp add: resources_inv_def)
  from cok doc have dv: "doc_valid (env_lib env) doc" "doc_JSON doc = res_json c"
    "c = row_of doc (res_created c) (res_updated c)"
    by (auto elim: row_ok_decode)
  have uniq: "r \<in> set (db_resources s) \<Longrightarrow> row_key r = k \<Longrightarrow> r = c" for r
    using inv ck by (auto simp: resources_inv_def distinct_map inj_on_def)
  show ?thesis
  proof (cases "jsonEqual (res_status c) (JObj status)")
    case True
    then show ?thesis using ok c g doc that by (auto simp: UpdateResourceStatus_def Let_def find_resource_key k)
  next
    case False
    define d1 where "d1 = WithServerStatus (WithServerMetadata doc
      ((doc_metadata doc)\<lparr>meta_resourceVersion := Suc (db_revision s)\<rparr>)) status"
    have d: "d = d1" and
      s': "db_revision s' = Suc (db_revision s)"
        "db_resources s' = update_rows (\<lambda>r. row_key r = k) (\<lambda>r. r\<lparr>res_version := Suc (db_revision s),
           res_json := doc_JSON d1, res_status := JObj status, res_updated := env_now env\<rparr>) (db_resources s)"
      and e: "\<exists>e a. db_events s' = db_events s @ [e] \<and> ev_revision e = Suc (db_revision s) \<and> ev_type e = ''MODIFIED'' \<and>
        ev_key e = k \<and> ev_document e = Some (doc_JSON d1) \<and>
        db_audit s' = db_audit s @ [a] \<and> aud_revision a = Suc (db_revision s)"
      using ok c doc False k
      by (auto simp: UpdateResourceStatus_def Let_def find_resource_key nextRevision_def append_event_Inr d1_def ev_key_def row_key_def)
    have d1: "doc_valid (env_lib env) d1" "doc_metadata d1 = (rv_meta (res_json c))\<lparr>meta_resourceVersion := Suc (db_revision s)\<rparr>"
      "doc_spec d1 = rv_spec (res_json c)" "doc_status d1 = JObj status" "rv_status (doc_JSON d1) = status"
      using dv by (auto simp: d1_def doc_valid_def doc_coherent_def ValidateMetadata_ok)
    have dk: "doc_key d1 = k" using dv(3) ck(2) by (metis d1_def WithServer_simps doc_key_def row_key_row_of object_meta.select_convs object_meta.surjective object_meta.update_convs(4))
    have row: "c\<lparr>res_version := Suc (db_revision s), res_json := doc_JSON d1, res_status := JObj status,
        res_updated := env_now env\<rparr> = row_of d1 (res_created c) (env_now env)"
      by (subst dv(3)) (simp add: row_of_def Let_def d1_def)
    have "db_resources s' = update_rows (\<lambda>r. row_key r = k) (\<lambda>r. row_of d1 (res_created c) (env_now env)) (db_resources s)"
      using s'(2) uniq row by (auto simp: update_rows_def)
    then have "status_written env s k c status d s'"
      using d1 dk s' e d by (simp add: status_written_def)
    then show ?thesis using c g False that by blast
  qed
qed

lemma status_written_keeps_inv:
  assumes inv: "resources_inv (env_lib env) s" and c: "select_row (\<lambda>r. row_key r = k) (db_resources s) = Some c"
    and w: "status_written env s k c status d s'"
  shows "resources_inv (env_lib env) s'"
proof -
  note w = w[unfolded status_written_def]
  then obtain e where e: "db_events s' = db_events s @ [e]" "ev_revision e = Suc (db_revision s)" "ev_type e = ''MODIFIED''"
    "ev_key e = k" "ev_document e = Some (doc_JSON d)" by blast
  have ck: "c \<in> set (db_resources s)" "row_key c = k" using select_row_SomeD[OF c] by auto
  have uniq: "r \<in> set (db_resources s) \<Longrightarrow> row_key r = k \<Longrightarrow> r = c" for r
    using inv ck by (auto simp: resources_inv_def distinct_map inj_on_def)
  obtain d0 where d0: "doc_metadata d0 = rv_meta (res_json c)" "c = row_of d0 (res_created c) (res_updated c)"
    using inv ck by (metis (no_types, lifting) resources_inv_def row_ok_decode doc_valid_def doc_coherent_def)
  have u: "meta_uid (doc_metadata d) = res_uid c" "meta_generation (doc_metadata d) = res_generation c"
    using w by (subst d0(2), simp add: d0(1))+
  have keys: "map row_key (db_resources s') = map row_key (db_resources s)"
    "map res_uid (db_resources s') = map res_uid (db_resources s)"
    using w u uniq by (auto simp: update_rows_def)
  have "stored s' x = (if x = k then Some (doc_JSON d) else stored s x)" for x
    unfolding stored_def
    by (rule select_row_upsert[where key = row_key and new = "row_of d 0 0"]) (use w c in auto)
  then have sto: "replay_event (stored s) e = stored s'" using e by (auto simp: replay_event_def)
  have gen: "0 < res_generation c" using inv ck by (auto simp: resources_inv_def)
  show ?thesis
    by (rule log_step[OF inv _ e(1,2) _ sto])
      (use w keys inv u gen in \<open>auto simp: resources_inv_def row_simps intro!: row_ok_row_of\<close>)
qed

lemma Delete_keeps_inv:
  assumes inv: "resources_inv lib s" and ok: "Delete env reqid s kind ns name expected requestID = Inr s'"
  shows "resources_inv lib s'"
proof -
  let ?k = "(kind, default_ns ns, name)"
  obtain e a where s': "db_revision s' = Suc (db_revision s)" "db_events s' = db_events s @ [e]"
    "ev_revision e = Suc (db_revision s)" "ev_type e = ''DELETED''" "ev_key e = ?k" "db_audit s' = db_audit s @ [a]"
    "aud_revision a = Suc (db_revision s)" "db_resources s' = delete_rows (\<lambda>r. row_key r = ?k) (db_resources s)"
    using ok by (cases "kind = ''Trigger''")
      (auto simp: Delete_def Let_def nextRevision_def append_event_Inr ev_key_def row_key_def)
  have "replay_event (stored s) e = stored s'"
    using s' by (auto simp: replay_event_def stored_def select_row_delete_at_key)
  then show ?thesis
    by (rule log_step[OF inv s'(1-3), rotated]) (use s' inv in \<open>auto simp: resources_inv_def row_simps\<close>)
qed

lemma empty_db_inv: "resources_inv lib empty_db"
  by (auto simp: resources_inv_def empty_db_def stored_def)

datatype resource_request =
  ReqApply string string document apply_options
| ReqStatus string string string nat "(string \<times> json) list"
| ReqDelete string string string string nat string

fun exec_resource :: "store_env \<times> resource_request \<Rightarrow> db \<Rightarrow> (store_error, document option \<times> db) result" where
  "exec_resource (env, ReqApply uuid reqid doc opts) s =
     bind_res (Apply env uuid reqid s doc opts) (\<lambda>(d, s'). Inr (Some d, s'))"
| "exec_resource (env, ReqStatus kind ns name gen status) s =
     bind_res (UpdateResourceStatus env s kind ns name gen status) (\<lambda>(d, s'). Inr (Some d, s'))"
| "exec_resource (env, ReqDelete reqid kind ns name expected requestID) s =
     bind_res (Delete env reqid s kind ns name expected requestID) (\<lambda>s'. Inr (None, s'))"

fun resource_request_ok :: "resource_lib \<Rightarrow> store_env \<times> resource_request \<Rightarrow> bool" where
  "resource_request_ok lib (env, ReqApply _ _ doc _) \<longleftrightarrow> env_lib env = lib \<and> doc_valid lib doc"
| "resource_request_ok lib (env, _) \<longleftrightarrow> env_lib env = lib"

definition watch_extends :: "db \<Rightarrow> db \<Rightarrow> bool" where
  "watch_extends s s' \<longleftrightarrow> db_revision s \<le> db_revision s' \<and>
     (\<exists>es. db_events s' = db_events s @ es \<and> (\<forall>e \<in> set es. db_revision s < ev_revision e))"

lemma exec_resource_step:
  assumes "resources_inv lib s" and "resource_request_ok lib q" and "exec_resource q s = Inr (x, s')"
  shows "resources_inv lib s' \<and> watch_extends s s'"
proof (cases "(q, s)" rule: exec_resource.cases)
  case (1 env uuid reqid doc opts s0)
  then obtain d where a: "Apply env uuid reqid s doc opts = Inr (d, s')" and v: "doc_valid lib doc" "env_lib env = lib"
    using assms by auto
  note ap = Apply_applied[OF a]
  have "resources_inv lib s'" using applied_keeps_inv[of env s] ap v assms(1) by blast
  moreover have "watch_extends s s'"
    using ap(1) v by (auto simp: watch_extends_def applied_def Let_def)
  ultimately show ?thesis by simp
next
  case (2 env kind ns name gen status s0)
  then obtain d where a: "UpdateResourceStatus env s kind ns name gen status = Inr (d, s')" and v: "env_lib env = lib"
    using assms by auto
  have inv: "resources_inv (env_lib env) s" using assms(1) v by simp
  obtain c where c: "select_row (\<lambda>r. row_key r = (kind, default_ns ns, name)) (db_resources s) = Some c"
    and w: "s' = s \<or> status_written env s (kind, default_ns ns, name) c status d s'"
    by (rule UpdateResourceStatus_written[OF inv a refl]) blast
  from w show ?thesis
  proof
    assume "s' = s"
    then show ?thesis using assms(1) by (simp add: watch_extends_def)
  next
    assume w: "status_written env s (kind, default_ns ns, name) c status d s'"
    then have "watch_extends s s'" by (auto simp: watch_extends_def status_written_def)
    with status_written_keeps_inv[OF inv c w] v show ?thesis by simp
  qed
next
  case (3 env reqid kind ns name expected requestID s0)
  then have a: "Delete env reqid s kind ns name expected requestID = Inr s'" using assms by auto
  then have "watch_extends s s'"
    by (auto simp: watch_extends_def Delete_def Let_def nextRevision_def append_event_Inr split: if_splits)
  with Delete_keeps_inv[OF assms(1) a] show ?thesis by simp
qed

interpretation resource_log: monotone_transactions "resources_inv lib" "resource_request_ok lib" exec_resource watch_extends
  for lib
proof
  show "watch_extends s s" for s by (simp add: watch_extends_def)
  show "watch_extends s u" if "watch_extends s t" "watch_extends t u" for s t u
    using that by (fastforce simp: watch_extends_def)
qed (auto dest: exec_resource_step)

section \<open>Properties\<close>

lemma decode_of_inv:
  assumes "resources_inv lib s" and "r \<in> set (db_resources s)"
  shows "\<exists>d. decode_value lib (res_json r) = Inr d" and "\<exists>st. res_status r = JObj st"
proof -
  have ok: "row_ok lib r" using assms by (simp add: resources_inv_def)
  then show "\<exists>d. decode_value lib (res_json r) = Inr d" by (auto elim: row_ok_decode)
  from ok obtain d where d: "decode_value lib (res_json r) = Inr d" "r = row_of d (res_created r) (res_updated r)"
    by (rule row_ok_decode)
  have "doc_status d = JObj (rv_status (res_json r))" using d(1)
    by (auto simp: decode_value_def Let_def split: sum.splits if_splits)
  then show "\<exists>st. res_status r = JObj st" by (subst d(2)) simp
qed

lemma append_event_fresh:
  assumes "resources_inv lib s" and "ev_revision e = Suc (db_revision s)" and "db_events t = db_events s"
  shows "append_event t e a = Inr (t\<lparr>db_events := db_events t @ [e], db_audit := db_audit t @ [a]\<rparr>)"
proof -
  have "\<not> exists_row (\<lambda>x. ev_revision x = ev_revision e) (db_events t)"
    using assms by (fastforce simp: resources_inv_def exists_row_iff)
  then show ?thesis by (simp add: append_event_def)
qed

lemma Apply_succeeds:
  assumes inv: "resources_inv (env_lib env) s" and kind: "doc_kind doc \<noteq> ''Trigger''"
    and cur: "cur = select_row (\<lambda>r. row_key r = doc_key doc) (db_resources s)"
    and fresh: "cur = None \<Longrightarrow> uuid \<notin> res_uid ` set (db_resources s)"
    and match: "expected_version doc opts = current_version cur"
  shows "is_ok (Apply env uuid reqid s doc opts)"
proof -
  let ?doc1 = "WithServerStatus doc []"
  have find: "find_resource s (doc_kind doc) (meta_namespace (doc_metadata doc)) (meta_name (doc_metadata doc)) = cur"
    by (simp add: find_resource_key cur doc_key_def)
  have curin: "cur = Some c \<Longrightarrow> c \<in> set (db_resources s)" for c
    using cur by (auto dest: select_row_SomeD)
  obtain m where m: "apply_meta (env_lib env) cur (Suc (db_revision s)) uuid ?doc1 = Inr m"
    using decode_of_inv(1)[OF inv] curin by (cases cur) (force simp: apply_meta_def Let_def)+
  obtain d where d: "apply_status cur (WithServerMetadata ?doc1 m) = Inr d"
    using decode_of_inv(2)[OF inv] curin by (cases cur) (force simp: apply_status_def)+
  note mm = apply_meta_Inr[OF m]
  have dd: "doc_metadata d = m" "doc_kind d = doc_kind doc"
    using apply_status_Inr[OF d] by auto
  obtain t where t: "write_resource (s\<lparr>db_revision := Suc (db_revision s)\<rparr>) cur d (env_now env) = Inr t"
    "db_events t = db_events s"
  proof (cases cur)
    case None
    then have "\<not> exists_row (\<lambda>r. res_uid r = meta_uid (doc_metadata d)) (db_resources s)"
      using fresh mm dd by (force simp: exists_row_iff)
    with None that show ?thesis by (auto simp: write_resource_def Let_def)
  qed (auto simp: write_resource_def Let_def intro: that)
  have e: "append_event t (doc_event d x (env_now env)) a \<noteq> Inl e" for x a e
    using append_event_fresh[OF inv, of "doc_event d x (env_now env)" t a] t mm dd by simp
  show ?thesis
    using m d t e dd kind match
    by (simp add: Apply_def Let_def nextRevision_def find apply_conflict_Some apply_trigger_state_def
      is_ok_def split: sum.split) (auto simp: bind_res_def split: sum.splits)
qed

lemma applied_lookup:
  assumes "applied env uuid s doc opts d s'"
  shows "\<exists>cr. select_row (\<lambda>r. row_key r = doc_key doc) (db_resources s') = Some (row_of d cr (env_now env))"
    and "k \<noteq> doc_key doc \<Longrightarrow> select_row (\<lambda>r. row_key r = k) (db_resources s') =
      select_row (\<lambda>r. row_key r = k) (db_resources s)"
proof -
  define cur where "cur = select_row (\<lambda>r. row_key r = doc_key doc) (db_resources s)"
  note ap = assms[unfolded applied_def Let_def cur_def[symmetric]]
  have dk: "doc_key d = doc_key doc" using ap by (simp add: doc_key_def)
  show "\<exists>cr. select_row (\<lambda>r. row_key r = doc_key doc) (db_resources s') = Some (row_of d cr (env_now env))"
  proof (cases cur)
    case None
    then show ?thesis using ap cur_def dk by (auto simp: select_row_append)
  next
    case (Some c)
    then show ?thesis using ap cur_def dk
      by (auto simp: select_row_update_at_key[where key = row_key and k = "doc_key doc"])
  qed
  show "k \<noteq> doc_key doc \<Longrightarrow> select_row (\<lambda>r. row_key r = k) (db_resources s') =
      select_row (\<lambda>r. row_key r = k) (db_resources s)"
    using ap dk by (cases cur)
      (auto simp: select_row_append select_row_update_at_key[where key = row_key and k = "doc_key doc"] split: option.splits)
qed



lemma sort_key_events: "sorted_wrt (<) (map ev_revision es) \<Longrightarrow> sort_key ev_revision es = es"
  by (auto intro!: sort_key_id_if_sorted simp: strict_sorted_iff)

lemma EventsAfter_suffix:
  assumes inv: "resources_inv lib s'" and ext: "db_events s' = db_events s @ es"
    and old: "\<forall>e \<in> set (db_events s). ev_revision e \<le> n" and new: "\<forall>e \<in> set es. n < ev_revision e"
    and "length es \<le> page_limit limit"
  shows "EventsAfter s' [] [] n limit = es"
proof -
  have "filter (\<lambda>e. ev_revision e > n) (db_events s') = es"
    using ext old new by (auto simp: filter_empty_conv filter_id_conv intro!: filter_False)
  moreover have "sorted_wrt (<) (map ev_revision es)"
    using inv ext by (auto simp: resources_inv_def sorted_wrt_append)
  ultimately show ?thesis using assms(5) by (simp add: EventsAfter_def sort_key_events)
qed

text \<open>C31: the watch log is complete. After any sequence of writes of valid documents, status updates and
  deletions from the empty store, folding the whole event log rebuilds exactly the stored
  collection, revisions in the log are positive, strictly increasing and at most the global
  revision, and the audit trail has one record for each event.\<close>

theorem watch_log_rebuilds_store:
  assumes "list_all (resource_request_ok lib) qs" and "s = run_requests exec_resource qs empty_db"
  shows "replay Map.empty (db_events s) = stored s \<and> sorted_wrt (<) (map ev_revision (db_events s)) \<and>
    (\<forall>e \<in> set (db_events s). 0 < ev_revision e \<and> ev_revision e \<le> db_revision s) \<and>
    map aud_revision (db_audit s) = map ev_revision (db_events s) \<and>
    distinct (map row_key (db_resources s)) \<and> distinct (map res_uid (db_resources s))"
  using resource_log.inv_run[OF empty_db_inv assms(1)] assms(2) by (simp add: resources_inv_def)

text \<open>A client that lists the resources at some revision and then reads the events after it ends
  with the store as it is now, whatever requests ran in between, when the new events fit the page.\<close>

theorem list_then_watch:
  assumes "list_all (resource_request_ok lib) qs" and "s = run_requests exec_resource qs empty_db"
    and "list_all (resource_request_ok lib) qs'" and "s' = run_requests exec_resource qs' s"
    and "length (db_events s') \<le> length (db_events s) + page_limit limit"
  shows "replay (stored s) (EventsAfter s' [] [] (db_revision s) limit) = stored s'"
proof -
  have inv: "resources_inv lib s" using resource_log.inv_run[OF empty_db_inv assms(1)] assms(2) by simp
  have inv': "resources_inv lib s'" using resource_log.inv_run[OF inv assms(3)] assms(4) by simp
  have "watch_extends s s'" using resource_log.before_run[OF inv assms(3)] assms(4) by simp
  then obtain es where es: "db_events s' = db_events s @ es" "\<forall>e \<in> set es. db_revision s < ev_revision e"
    by (auto simp: watch_extends_def)
  have "EventsAfter s' [] [] (db_revision s) limit = es"
    by (rule EventsAfter_suffix[OF inv' es(1) _ es(2)]) (use inv es assms(5) in \<open>auto simp: resources_inv_def\<close>)
  moreover have "replay (stored s) es = stored s'"
    using inv inv' es(1) by (simp add: resources_inv_def replay_append)
  ultimately show ?thesis by simp
qed

definition sample_opts :: "nat \<Rightarrow> apply_options" where
  "sample_opts n = \<lparr>opt_expectedResourceVersion = n, opt_requestID = [], opt_actor = [], opt_context = []\<rparr>"

definition sample_requests :: "(store_env \<times> resource_request) list" where
  "sample_requests = [(sample_env, ReqApply ''u1'' ''r1'' sample_secret (sample_opts 0)),
     (sample_env, ReqApply ''u2'' ''r2'' sample_trigger (sample_opts 0)),
     (sample_env, ReqStatus ''SecretRef'' [] ''token'' 1 [(''state'', JStr ''Ready'')]),
     (sample_env, ReqDelete ''r3'' ''Trigger'' [] ''hook'' 2 [])]"

lemma sample_requests_ok: "list_all (resource_request_ok sample_lib) sample_requests"
  by (simp add: sample_requests_def sample_secret_valid sample_trigger_valid)

theorem watch_log_rebuilds_store_witness:
  "let s = run_requests exec_resource sample_requests empty_db in
   replay Map.empty (db_events s) = stored s \<and> map ev_revision (db_events s) = [1, 2, 3, 4]"
proof -
  have "map ev_revision (db_events (run_requests exec_resource sample_requests empty_db)) = [1, 2, 3, 4]"
    by code_simp
  then show ?thesis using watch_log_rebuilds_store[OF sample_requests_ok refl] by (simp add: Let_def)
qed

theorem list_then_watch_witness:
  "let s = run_requests exec_resource (take 2 sample_requests) empty_db;
       s' = run_requests exec_resource (drop 2 sample_requests) s in
   replay (stored s) (EventsAfter s' [] [] (db_revision s) 0) = stored s' \<and> db_revision s = 2 \<and> db_revision s' = 4"
proof -
  let ?s = "run_requests exec_resource (take 2 sample_requests) empty_db"
  let ?s' = "run_requests exec_resource (drop 2 sample_requests) ?s"
  have ok: "list_all (resource_request_ok sample_lib) (take 2 sample_requests)"
    "list_all (resource_request_ok sample_lib) (drop 2 sample_requests)"
    using sample_requests_ok by (auto simp: list_all_iff dest: in_set_takeD in_set_dropD)
  have r: "db_revision ?s = 2" "db_revision ?s' = 4" "length (db_events ?s') = 4"
    by code_simp+
  show ?thesis
    using list_then_watch[OF ok(1) refl ok(2) refl, of 0] r by (simp add: Let_def page_limit_def)
qed

lemma UpdateResourceStatus_succeeds:
  assumes inv: "resources_inv (env_lib env) s" and f: "find_resource s kind (default_ns ns) name = Some c"
    and g: "\<not> (gen \<noteq> 0 \<and> gen \<noteq> res_generation c)"
  shows "\<exists>d s'. UpdateResourceStatus env s kind ns name gen status = Inr (d, s')"
proof -
  obtain doc where doc: "decode_value (env_lib env) (res_json c) = Inr doc"
    using decode_of_inv(1)[OF inv] find_resource_SomeD[OF f] by blast
  show ?thesis
    using f g doc by (auto simp: UpdateResourceStatus_def Let_def nextRevision_def append_event_fresh[OF inv])
qed

text \<open>A status update never changes desired state. When \<open>UpdateResourceStatus\<close> commits, the
  resource keeps its uid, generation, labels and spec, its status is the one written (or JSON-equal to
  it, when nothing is written), and the revision grows by at most one; a stale observed generation
  is refused.\<close>

theorem status_update_keeps_spec:
  assumes "resources_inv (env_lib env) s" and "find_resource s kind (default_ns ns) name = Some c"
  shows "if gen \<noteq> 0 \<and> gen \<noteq> res_generation c
    then UpdateResourceStatus env s kind ns name gen status = Inl (StaleObservedGenerationError gen (res_generation c))
    else \<exists>d s' c'. UpdateResourceStatus env s kind ns name gen status = Inr (d, s') \<and>
      find_resource s' kind (default_ns ns) name = Some c' \<and> res_uid c' = res_uid c \<and>
      res_generation c' = res_generation c \<and> res_labels c' = res_labels c \<and>
      rv_spec (res_json c') = rv_spec (res_json c) \<and>
      (if jsonEqual (res_status c) (JObj status) then s' = s
       else res_status c' = JObj status \<and> res_version c' = db_revision s + 1 \<and> db_revision s' = db_revision s + 1)"
proof (cases "gen \<noteq> 0 \<and> gen \<noteq> res_generation c")
  case True
  then show ?thesis using assms(2) by (simp add: UpdateResourceStatus_def Let_def)
next
  case False
  let ?k = "(kind, default_ns ns, name)"
  have c: "select_row (\<lambda>r. row_key r = ?k) (db_resources s) = Some c" using assms(2) by (simp add: find_resource_key)
  have cin: "c \<in> set (db_resources s)" "row_key c = ?k" using select_row_SomeD[OF c] by auto
  obtain d s' where ok: "UpdateResourceStatus env s kind ns name gen status = Inr (d, s')"
    using UpdateResourceStatus_succeeds[OF assms False] by blast
  obtain d0 where d0: "doc_metadata d0 = rv_meta (res_json c)" "c = row_of d0 (res_created c) (res_updated c)"
    using assms(1) cin by (metis (no_types, lifting) resources_inv_def row_ok_decode doc_valid_def doc_coherent_def)
  have cm: "res_uid c = meta_uid (rv_meta (res_json c))" "res_generation c = meta_generation (rv_meta (res_json c))"
    "res_labels c = meta_labels (rv_meta (res_json c))"
    by (subst d0(2), simp add: d0(1))+
  from UpdateResourceStatus_written[OF assms(1) ok refl] c
  consider "jsonEqual (res_status c) (JObj status)" "s' = s"
    | "\<not> jsonEqual (res_status c) (JObj status)" "status_written env s ?k c status d s'"
    by (metis option.inject)
  then show ?thesis
  proof cases
    case 1
    then show ?thesis using ok False assms(2) by auto
  next
    case 2
    note w = 2(2)[unfolded status_written_def]
    have "select_row (\<lambda>r. row_key r = ?k) (db_resources s') = Some (row_of d (res_created c) (env_now env))"
      using w c by (auto simp: select_row_update_at_key[where key = row_key and k = ?k])
    moreover have "rv_spec (doc_JSON d) = rv_spec (res_json c)"
      using w by (metis doc_valid_def doc_coherent_def)
    ultimately show ?thesis using ok False 2 w cm by (auto simp: find_resource_key)
  qed
qed

theorem status_update_keeps_spec_witness:
  "let s = run_requests exec_resource (take 1 sample_requests) empty_db in
   \<exists>d s' c'. UpdateResourceStatus sample_env s ''SecretRef'' [] ''token'' 1 [(''state'', JStr ''Ready'')] = Inr (d, s') \<and>
     find_resource s' ''SecretRef'' ''default'' ''token'' = Some c' \<and> res_generation c' = 1 \<and> res_version c' = 2"
proof -
  let ?s = "run_requests exec_resource (take 1 sample_requests) empty_db"
  have "list_all (resource_request_ok sample_lib) (take 1 sample_requests)"
    using sample_requests_ok by (auto simp: list_all_iff dest: in_set_takeD)
  then have inv: "resources_inv (env_lib sample_env) ?s"
    using resource_log.inv_run[OF empty_db_inv] by simp
  have "(case find_resource ?s ''SecretRef'' (default_ns []) ''token'' of None \<Rightarrow> False
    | Some c \<Rightarrow> res_generation c = 1 \<and> \<not> jsonEqual (res_status c) (JObj [(''state'', JStr ''Ready'')]))" "db_revision ?s = 1"
    by code_simp+
  then obtain c where c: "find_resource ?s ''SecretRef'' (default_ns []) ''token'' = Some c" "res_generation c = 1"
    "\<not> jsonEqual (res_status c) (JObj [(''state'', JStr ''Ready'')])" "db_revision ?s = 1"
    by (auto split: option.splits)
  show ?thesis
    using status_update_keeps_spec[OF inv c(1), of 1 "[(''state'', JStr ''Ready'')]"] c(2-4)
    by (auto simp: Let_def default_ns_def DefaultNamespace_def)
qed

end
