(* ===== verification/Store_Triggers.thy ===== *)
theory Store_Triggers
  imports Store_Resources
begin

text \<open>
  Acceptance of external occurrences in \<open>internal/store/store.go\<close>: the one transaction that
  validates the Trigger, deduplicates the occurrence against receipts and tombstones, pins the
  compiled plan, and writes the receipt, the outbox command and the provider cursor; and the
  controller's state rows (cursor, enable override, skips).

  The properties: an occurrence is bound to one Run for ever, a replay writes nothing but the
  cursor, an accepted occurrence has exactly one pending start command carrying its own Run and
  plan, and no disabled, superseded or redirected Trigger is accepted.
\<close>

section \<open>Receipts\<close>

record receipt =
  rc_uid :: string
  rc_trigger_uid :: string
  rc_occurrence_id :: string
  rc_run_uid :: string
  rc_deduplicated :: bool
  rc_accepted :: time
  rc_existing :: bool

definition receipt_of :: "receipt_row \<Rightarrow> receipt" where
  "receipt_of r = \<lparr>rc_uid = rcpt_uid r, rc_trigger_uid = rcpt_trigger_uid r,
     rc_occurrence_id = rcpt_occurrence_id r, rc_run_uid = rcpt_run_uid r,
     rc_deduplicated = rcpt_deduplicated r, rc_accepted = rcpt_accepted r, rc_existing = False\<rparr>"

definition receipt_of_tombstone :: "tombstone_row \<Rightarrow> receipt" where
  "receipt_of_tombstone t = \<lparr>rc_uid = tmb_receipt_uid t, rc_trigger_uid = tmb_trigger_uid t,
     rc_occurrence_id = tmb_occurrence_id t, rc_run_uid = tmb_run_uid t,
     rc_deduplicated = tmb_deduplicated t, rc_accepted = tmb_accepted t, rc_existing = False\<rparr>"

definition receiptByOccurrence :: "db \<Rightarrow> string \<Rightarrow> string \<Rightarrow> (store_error, receipt) result" where
  "receiptByOccurrence s triggerUID occurrenceID =
     (case select_row (\<lambda>r. rcpt_trigger_uid r = triggerUID \<and> rcpt_occurrence_id r = occurrenceID) (db_receipts s) of
        Some r \<Rightarrow> Inr (receipt_of r)
      | None \<Rightarrow> (case select_row (\<lambda>t. tmb_trigger_uid t = triggerUID \<and> tmb_occurrence_id t = occurrenceID) (db_tombstones s) of
            Some t \<Rightarrow> Inr (receipt_of_tombstone t)
          | None \<Rightarrow> Inl ErrNotFound))"

definition ReceiptByOccurrence :: "db \<Rightarrow> string \<Rightarrow> string \<Rightarrow> (store_error, receipt) result" where
  "ReceiptByOccurrence s triggerUID occurrenceID = receiptByOccurrence s triggerUID occurrenceID"

definition upsertProviderCursor :: "db \<Rightarrow> string \<Rightarrow> string \<Rightarrow> string \<Rightarrow> time \<Rightarrow> db" where
  "upsertProviderCursor s triggerUID cursor eventID now =
     (let row = \<lparr>cur_trigger_uid = triggerUID, cur_cursor = cursor, cur_event_id = eventID, cur_acknowledged = now\<rparr>
      in if exists_row (\<lambda>c. cur_trigger_uid c = triggerUID) (db_cursors s)
         then s\<lparr>db_cursors := update_rows (\<lambda>c. cur_trigger_uid c = triggerUID) (\<lambda>_. row) (db_cursors s)\<rparr>
         else s\<lparr>db_cursors := db_cursors s @ [row]\<rparr>)"

section \<open>Validation inside the transaction\<close>

definition validateTriggerAcceptanceTx ::
    "resource_lib \<Rightarrow> db \<Rightarrow> string \<Rightarrow> nat \<Rightarrow> string \<Rightarrow> string \<Rightarrow> (store_error, unit) result" where
  "validateTriggerAcceptanceTx lib s triggerUID triggerGeneration flowName namespace =
     bind_res (or_fail ErrNotFound (select_row (\<lambda>r. res_kind r = ''Trigger'' \<and> res_uid r = triggerUID) (db_resources s))) (\<lambda>r.
     bind_res (or_fail ErrNotFound (select_row (\<lambda>t. tst_trigger_uid t = triggerUID) (db_trigger_states s))) (\<lambda>st.
     bind_res (fail_if (res_generation r \<noteq> triggerGeneration)
                 (StaleTriggerGenerationError triggerGeneration (res_generation r))) (\<lambda>_.
     bind_res (fail_if (tst_generation st \<noteq> triggerGeneration)
                 (StaleTriggerGenerationError triggerGeneration (tst_generation st))) (\<lambda>_.
     bind_res (fail_if (\<not> tst_enabled st) ErrTriggerDisabled) (\<lambda>_.
     bind_res (map_err (\<lambda>e. ErrText ''stored Trigger is invalid'') (DecodeTrigger lib (res_json r))) (\<lambda>(m, t).
     fail_if (meta_namespace m \<noteq> namespace \<or> trg_flow t \<noteq> flowName) TriggerReferenceChangedError))))))"

definition validateFlowPlanTx :: "db \<Rightarrow> string \<Rightarrow> string \<Rightarrow> execution_plan \<Rightarrow> (store_error, unit) result" where
  "validateFlowPlanTx s flowName namespace plan =
     bind_res (or_fail ErrNotFound (find_resource s ''Flow'' namespace flowName)) (\<lambda>r.
     fail_if (res_uid r \<noteq> plan_flowUID plan \<or> res_generation r \<noteq> plan_flowGeneration plan)
       (StaleFlowPlanError (plan_flowUID plan) (plan_flowGeneration plan) (res_uid r) (res_generation r)))"

definition find_plan :: "db \<Rightarrow> string \<Rightarrow> plan_row option" where
  "find_plan s h = select_row (\<lambda>p. cp_hash p = h) (db_plans s)"

definition validateSignalTargetTx ::
    "db \<Rightarrow> string \<Rightarrow> string \<Rightarrow> string \<Rightarrow> string \<Rightarrow> (store_error, unit) result" where
  "validateSignalTargetTx s flowName namespace runUID node =
     bind_res (fail_if (runUID = [] \<or> node = []) (ErrText ''provider signal target run and node are required'')) (\<lambda>_.
     bind_res (or_fail ErrNotFound (find_run s runUID)) (\<lambda>run.
     bind_res (fail_if (terminalRunPhase (run_phase run)) (ErrText ''signal target run is already terminal'')) (\<lambda>_.
     bind_res (or_fail ErrNotFound (find_resource s ''Flow'' namespace flowName)) (\<lambda>fl.
     bind_res (or_fail ErrNotFound (find_plan s (run_plan_hash run))) (\<lambda>p.
     bind_res (fail_if (plan_flowUID (cp_plan p) \<noteq> res_uid fl)
                 (ErrText ''signal target run belongs to a different Flow'')) (\<lambda>_.
     (case List.find (\<lambda>n. pn_id n = node) (plan_nodes (cp_plan p)) of
        None \<Rightarrow> Inl (ErrText ''signal target node is not present in the pinned plan'')
      | Some n \<Rightarrow> fail_if (pn_uses n \<noteq> ''core.event'')
                    (ErrText ''signal target node is not a core.event node'')))))))) "

section \<open>Inserts\<close>

definition insert_plan :: "time \<Rightarrow> execution_plan \<Rightarrow> db \<Rightarrow> db" where
  "insert_plan now plan s =
     (if exists_row (\<lambda>p. cp_hash p = plan_planHash plan) (db_plans s) then s
      else s\<lparr>db_plans := db_plans s @ [\<lparr>cp_hash = plan_planHash plan, cp_flow_uid = plan_flowUID plan,
        cp_flow_generation = plan_flowGeneration plan, cp_interpreter = plan_interpreterVersion plan,
        cp_plan = plan, cp_created = now\<rparr>]\<rparr>)"

definition insert_receipt :: "receipt_row \<Rightarrow> db \<Rightarrow> (store_error, db) result" where
  "insert_receipt r s =
     (if exists_row (\<lambda>x. rcpt_uid x = rcpt_uid r \<or>
           (rcpt_trigger_uid x = rcpt_trigger_uid r \<and> rcpt_occurrence_id x = rcpt_occurrence_id r)) (db_receipts s)
      then Inl ErrConstraint else Inr (s\<lparr>db_receipts := db_receipts s @ [r]\<rparr>))"

definition insert_outbox :: "command \<Rightarrow> string \<Rightarrow> string \<Rightarrow> time \<Rightarrow> db \<Rightarrow> (store_error, db) result" where
  "insert_outbox cmd aggregate key now s =
     (if exists_row (\<lambda>x. out_idempotency_key x = key) (db_outbox s) then Inl ErrConstraint
      else Inr (s\<lparr>db_outbox_seq := Suc (db_outbox_seq s),
        db_outbox := db_outbox s @ [\<lparr>out_id = Suc (db_outbox_seq s), out_command = cmd,
          out_aggregate_uid = aggregate, out_idempotency_key = key, out_state = ''pending'',
          out_attempts = 0, out_available = now, out_claimed = None, out_completed = None,
          out_last_error = []\<rparr>]\<rparr>))"

section \<open>Acceptance\<close>

definition pin_plan ::
    "store_env \<Rightarrow> db \<Rightarrow> string \<Rightarrow> string \<Rightarrow> execution_plan option \<Rightarrow> (store_error, db) result" where
  "pin_plan env s flowName namespace plan =
     (case plan of None \<Rightarrow> Inr s
      | Some p \<Rightarrow>
          bind_res (fail_if (plan_planHash p = [] \<or> plan_flowUID p = [] \<or> plan_interpreterVersion p = [])
                      (ErrText ''accepted execution plan is incomplete'')) (\<lambda>_.
          bind_res (validateFlowPlanTx s flowName namespace p) (\<lambda>_.
          Inr (insert_plan (env_now env) p s))))"

definition start_key :: "string \<Rightarrow> string \<Rightarrow> string" where
  "start_key triggerUID occurrenceID = ''trigger/'' @ triggerUID @ ''/'' @ occurrenceID"

definition signal_key :: "string \<Rightarrow> string \<Rightarrow> string" where
  "signal_key triggerUID occurrenceID = ''signal/'' @ triggerUID @ ''/'' @ occurrenceID"

text \<open>The arguments of an acceptance: \<open>acc_generation = 0\<close> skips the Trigger validation, an empty
  cursor leaves the provider cursor alone, an absent input is the empty object.\<close>

record acceptance =
  acc_trigger_uid :: string
  acc_generation :: nat
  acc_occurrence_id :: string
  acc_flow :: string
  acc_namespace :: string
  acc_input :: "json option"
  acc_deduplicated :: bool
  acc_cursor :: string
  acc_event_id :: string
  acc_plan :: "execution_plan option"

definition start_payload_of :: "string \<Rightarrow> string \<Rightarrow> acceptance \<Rightarrow> start_payload" where
  "start_payload_of receiptUID runUID a =
     \<lparr>sp_runUID = runUID, sp_receiptUID = receiptUID, sp_flowName = acc_flow a,
      sp_namespace = default_ns (acc_namespace a),
      sp_planHash = (case acc_plan a of None \<Rightarrow> [] | Some p \<Rightarrow> plan_planHash p),
      sp_input = (case acc_input a of None \<Rightarrow> JObj [] | Some v \<Rightarrow> v),
      sp_idempotencyKey = start_key (acc_trigger_uid a) (acc_occurrence_id a)\<rparr>"

definition advance_cursor :: "time \<Rightarrow> acceptance \<Rightarrow> db \<Rightarrow> db" where
  "advance_cursor now a s = (if acc_cursor a = [] then s
     else upsertProviderCursor s (acc_trigger_uid a) (acc_cursor a) (acc_event_id a) now)"

definition acceptTrigger ::
    "store_env \<Rightarrow> string \<Rightarrow> string \<Rightarrow> db \<Rightarrow> acceptance \<Rightarrow> (store_error, receipt \<times> db) result" where
  "acceptTrigger env receiptUID runUID s a =
     (let ns = default_ns (acc_namespace a); now = env_now env;
          payload = start_payload_of receiptUID runUID a in
      bind_res (if acc_generation a \<noteq> 0
                then validateTriggerAcceptanceTx (env_lib env) s (acc_trigger_uid a) (acc_generation a) (acc_flow a) ns
                else Inr ()) (\<lambda>_.
      (case receiptByOccurrence s (acc_trigger_uid a) (acc_occurrence_id a) of
         Inr existing \<Rightarrow> Inr (existing\<lparr>rc_existing := True\<rparr>, advance_cursor now a s)
       | Inl _ \<Rightarrow>
           bind_res (pin_plan env s (acc_flow a) ns (acc_plan a)) (\<lambda>s1.
           bind_res (insert_receipt \<lparr>rcpt_uid = receiptUID, rcpt_trigger_uid = acc_trigger_uid a,
                       rcpt_occurrence_id = acc_occurrence_id a, rcpt_provider_cursor = [],
                       rcpt_payload = sp_input payload, rcpt_deduplicated = acc_deduplicated a,
                       rcpt_run_uid = runUID, rcpt_accepted = now\<rparr> s1) (\<lambda>s2.
           bind_res (insert_outbox (StartCommand payload) runUID (sp_idempotencyKey payload) now s2) (\<lambda>s3.
           Inr (\<lparr>rc_uid = receiptUID, rc_trigger_uid = acc_trigger_uid a, rc_occurrence_id = acc_occurrence_id a,
                 rc_run_uid = runUID, rc_deduplicated = acc_deduplicated a, rc_accepted = now, rc_existing = False\<rparr>,
                advance_cursor now a s3)))))))"

definition AcceptTrigger where
  "AcceptTrigger env receiptUID runUID s triggerUID generation occurrenceID flowName namespace input deduplicated =
     acceptTrigger env receiptUID runUID s \<lparr>acc_trigger_uid = triggerUID, acc_generation = generation,
       acc_occurrence_id = occurrenceID, acc_flow = flowName, acc_namespace = namespace, acc_input = input,
       acc_deduplicated = deduplicated, acc_cursor = [], acc_event_id = [], acc_plan = None\<rparr>"

definition AcceptTriggerWithPlan where
  "AcceptTriggerWithPlan env receiptUID runUID s triggerUID generation occurrenceID flowName namespace input deduplicated plan =
     acceptTrigger env receiptUID runUID s \<lparr>acc_trigger_uid = triggerUID, acc_generation = generation,
       acc_occurrence_id = occurrenceID, acc_flow = flowName, acc_namespace = namespace, acc_input = input,
       acc_deduplicated = deduplicated, acc_cursor = [], acc_event_id = [], acc_plan = Some plan\<rparr>"

definition AcceptProviderTrigger where
  "AcceptProviderTrigger env receiptUID runUID s triggerUID generation occurrenceID flowName namespace input cursor =
     acceptTrigger env receiptUID runUID s \<lparr>acc_trigger_uid = triggerUID, acc_generation = generation,
       acc_occurrence_id = occurrenceID, acc_flow = flowName, acc_namespace = namespace, acc_input = input,
       acc_deduplicated = True, acc_cursor = cursor, acc_event_id = occurrenceID, acc_plan = None\<rparr>"

definition AcceptProviderTriggerWithPlan where
  "AcceptProviderTriggerWithPlan env receiptUID runUID s triggerUID generation occurrenceID flowName namespace input cursor plan =
     acceptTrigger env receiptUID runUID s \<lparr>acc_trigger_uid = triggerUID, acc_generation = generation,
       acc_occurrence_id = occurrenceID, acc_flow = flowName, acc_namespace = namespace, acc_input = input,
       acc_deduplicated = True, acc_cursor = cursor, acc_event_id = occurrenceID, acc_plan = Some plan\<rparr>"

text \<open>A payload that is not valid JSON is \<open>None\<close>; the JSON value \<open>null\<close> is not an object either.\<close>

definition AcceptProviderSignal ::
    "store_env \<Rightarrow> string \<Rightarrow> db \<Rightarrow> string \<Rightarrow> nat \<Rightarrow> string \<Rightarrow> string \<Rightarrow> string \<Rightarrow> string \<Rightarrow> string \<Rightarrow>
      json option \<Rightarrow> string \<Rightarrow> (store_error, receipt \<times> db) result" where
  "AcceptProviderSignal env receiptUID s triggerUID generation occurrenceID flowName ns0 runUID node payload cursor =
     (let ns = default_ns ns0; now = env_now env in
      bind_res (or_fail (ErrText ''provider signal payload must be valid JSON'') payload) (\<lambda>p.
      bind_res (fail_if (\<not> is_object p) (ErrText ''provider signal payload must be a JSON object'')) (\<lambda>_.
      bind_res (validateTriggerAcceptanceTx (env_lib env) s triggerUID generation flowName ns) (\<lambda>_.
      (case receiptByOccurrence s triggerUID occurrenceID of
         Inr existing \<Rightarrow> Inr (existing\<lparr>rc_existing := True\<rparr>, upsertProviderCursor s triggerUID cursor occurrenceID now)
       | Inl _ \<Rightarrow>
           bind_res (validateSignalTargetTx s flowName ns runUID node) (\<lambda>_.
           bind_res (insert_receipt \<lparr>rcpt_uid = receiptUID, rcpt_trigger_uid = triggerUID,
                       rcpt_occurrence_id = occurrenceID, rcpt_provider_cursor = cursor, rcpt_payload = p,
                       rcpt_deduplicated = True, rcpt_run_uid = runUID, rcpt_accepted = now\<rparr> s) (\<lambda>s1.
           bind_res (insert_outbox (SignalRunCommand \<lparr>sg_runUID = runUID, sg_receiptUID = receiptUID, sg_nodeID = node,
                        sg_providerEventID = occurrenceID, sg_payload = p,
                        sg_idempotencyKey = signal_key triggerUID occurrenceID\<rparr>)
                      runUID (signal_key triggerUID occurrenceID) now s1) (\<lambda>s2.
           Inr (\<lparr>rc_uid = receiptUID, rc_trigger_uid = triggerUID, rc_occurrence_id = occurrenceID,
                 rc_run_uid = runUID, rc_deduplicated = True, rc_accepted = now, rc_existing = False\<rparr>,
                upsertProviderCursor s2 triggerUID cursor occurrenceID now)))))))))"

section \<open>Controller state\<close>

definition TriggerState :: "db \<Rightarrow> string \<Rightarrow> (store_error, trigger_state_row) result" where
  "TriggerState s uid = or_fail ErrNotFound (select_row (\<lambda>t. tst_trigger_uid t = uid) (db_trigger_states s))"

definition AdvanceTriggerCursor :: "store_env \<Rightarrow> db \<Rightarrow> string \<Rightarrow> time \<Rightarrow> (store_error, db) result" where
  "AdvanceTriggerCursor env s uid cursor =
     bind_res (fail_if (rows_affected (\<lambda>t. tst_trigger_uid t = uid) (db_trigger_states s) = 0) ErrNotFound) (\<lambda>_.
     Inr (s\<lparr>db_trigger_states := update_rows (\<lambda>t. tst_trigger_uid t = uid)
       (\<lambda>t. t\<lparr>tst_cursor := cursor, tst_updated := env_now env\<rparr>) (db_trigger_states s)\<rparr>))"

definition SetTriggerEnabled :: "store_env \<Rightarrow> db \<Rightarrow> string \<Rightarrow> bool \<Rightarrow> (store_error, db) result" where
  "SetTriggerEnabled env s uid enabled =
     bind_res (fail_if (rows_affected (\<lambda>t. tst_trigger_uid t = uid) (db_trigger_states s) = 0) ErrNotFound) (\<lambda>_.
     Inr (s\<lparr>db_trigger_states := update_rows (\<lambda>t. tst_trigger_uid t = uid)
       (\<lambda>t. t\<lparr>tst_enabled := enabled, tst_updated := env_now env\<rparr>) (db_trigger_states s)\<rparr>))"

definition RecordTriggerSkip :: "store_env \<Rightarrow> db \<Rightarrow> string \<Rightarrow> string \<Rightarrow> string \<Rightarrow> time \<Rightarrow> db" where
  "RecordTriggerSkip env s uid occurrenceID reason scheduledAt =
     (if exists_row (\<lambda>k. tsk_trigger_uid k = uid \<and> tsk_occurrence_id k = occurrenceID) (db_trigger_skips s) then s
      else s\<lparr>db_trigger_skips := db_trigger_skips s @ [\<lparr>tsk_trigger_uid = uid, tsk_occurrence_id = occurrenceID,
        tsk_reason = reason, tsk_scheduled = scheduledAt, tsk_recorded = env_now env\<rparr>]\<rparr>)"

definition TriggerSkips :: "db \<Rightarrow> string \<Rightarrow> int \<Rightarrow> trigger_skip_row list" where
  "TriggerSkips s uid limit = take (page_limit limit)
     (rev (sort_key (\<lambda>k. ts_key (tsk_scheduled k)) (filter (\<lambda>k. tsk_trigger_uid k = uid) (db_trigger_skips s))))"

definition HasActiveRunForTrigger :: "db \<Rightarrow> string \<Rightarrow> bool" where
  "HasActiveRunForTrigger s uid \<longleftrightarrow>
     list_ex (\<lambda>r. rcpt_trigger_uid r = uid \<and>
        (\<not> exists_row (\<lambda>x. run_receipt_uid x = rcpt_uid r) (db_runs s) \<or>
         exists_row (\<lambda>x. run_receipt_uid x = rcpt_uid r \<and> \<not> terminalRunPhase (run_phase x)) (db_runs s)))
       (db_receipts s)"

definition TriggerReceipts :: "db \<Rightarrow> string \<Rightarrow> int \<Rightarrow> receipt list" where
  "TriggerReceipts s uid limit = map receipt_of (take (page_limit limit)
     (rev (sort_key (\<lambda>r. ts_key (rcpt_accepted r)) (filter (\<lambda>r. rcpt_trigger_uid r = uid) (db_receipts s)))))"

definition ProviderCursor :: "db \<Rightarrow> string \<Rightarrow> string \<times> string" where
  "ProviderCursor s uid = (case select_row (\<lambda>c. cur_trigger_uid c = uid) (db_cursors s) of
     None \<Rightarrow> ([], []) | Some c \<Rightarrow> (cur_cursor c, cur_event_id c))"

section \<open>Occurrences and their Runs\<close>

text \<open>The receipt and the Run an occurrence is bound to, whether the receipt is live or collected.\<close>

definition known :: "db \<Rightarrow> string \<Rightarrow> string \<Rightarrow> (string \<times> string) option" where
  "known s triggerUID occurrenceID = (case receiptByOccurrence s triggerUID occurrenceID of
     Inl _ \<Rightarrow> None | Inr r \<Rightarrow> Some (rc_uid r, rc_run_uid r))"

definition known_before :: "db \<Rightarrow> db \<Rightarrow> bool" where
  "known_before s s' \<longleftrightarrow> (\<forall>t oc v. known s t oc = Some v \<longrightarrow> known s' t oc = Some v)"

definition occurrences :: "db \<Rightarrow> (string \<times> string) list" where
  "occurrences s = map (\<lambda>r. (rcpt_trigger_uid r, rcpt_occurrence_id r)) (db_receipts s)
     @ map (\<lambda>t. (tmb_trigger_uid t, tmb_occurrence_id t)) (db_tombstones s)"

definition slash_free :: "string \<Rightarrow> bool" where
  "slash_free t \<longleftrightarrow> CHR ''/'' \<notin> set t"

text \<open>Every command in the outbox was accepted for a known occurrence, and carries its Run.\<close>

definition command_known :: "db \<Rightarrow> outbox_row \<Rightarrow> bool" where
  "command_known s r \<longleftrightarrow> (\<exists>t oc rc. slash_free t \<and> known s t oc = Some (rc, out_aggregate_uid r) \<and>
     (case out_command r of
        StartCommand p \<Rightarrow> out_idempotency_key r = start_key t oc \<and> sp_runUID p = out_aggregate_uid r \<and>
          sp_receiptUID p = rc \<and> sp_idempotencyKey p = start_key t oc
      | SignalRunCommand p \<Rightarrow> out_idempotency_key r = signal_key t oc \<and> sg_runUID p = out_aggregate_uid r \<and>
          sg_receiptUID p = rc \<and> sg_idempotencyKey p = signal_key t oc))"

definition accept_inv :: "db \<Rightarrow> bool" where
  "accept_inv s \<longleftrightarrow> distinct (occurrences s) \<and> distinct (map rcpt_uid (db_receipts s)) \<and>
     sorted_wrt (<) (map out_id (db_outbox s)) \<and> (\<forall>r \<in> set (db_outbox s). out_id r \<le> db_outbox_seq s \<and> command_known s r) \<and>
     distinct (map out_idempotency_key (db_outbox s))"

lemma known_before_refl [simp]: "known_before s s"
  by (simp add: known_before_def)

lemma known_before_trans: "known_before s t \<Longrightarrow> known_before t u \<Longrightarrow> known_before s u"
  by (simp add: known_before_def)

lemma known_cong: "db_receipts s' = db_receipts s \<Longrightarrow> db_tombstones s' = db_tombstones s \<Longrightarrow> known s' = known s"
  by (intro ext) (simp add: known_def receiptByOccurrence_def split: option.split)

lemma known_None_iff: "known s t oc = None \<longleftrightarrow> (t, oc) \<notin> set (occurrences s)"
  by (auto simp: known_def receiptByOccurrence_def occurrences_def select_row_None split: option.splits
    dest!: select_row_SomeD)

lemma command_knownE:
  assumes "command_known s r"
  obtains t oc rc where "slash_free t" "known s t oc = Some (rc, out_aggregate_uid r)"
    "out_idempotency_key r = start_key t oc \<or> out_idempotency_key r = signal_key t oc"
  using assms by (cases "out_command r") (auto simp: command_known_def)

lemma command_known_mono:
  "known_before s s' \<Longrightarrow> command_known s r \<Longrightarrow> command_known s' r"
  unfolding command_known_def known_before_def by meson

lemma start_key_inj:
  assumes "slash_free t" "slash_free t'" "start_key t oc = start_key t' oc'"
  shows "t = t' \<and> oc = oc'"
proof -
  have "t @ ''/'' @ oc = t' @ ''/'' @ oc'" using assms(3) by (simp add: start_key_def)
  then have "takeWhile (\<lambda>c. c \<noteq> CHR ''/'') (t @ ''/'' @ oc) = takeWhile (\<lambda>c. c \<noteq> CHR ''/'') (t' @ ''/'' @ oc')"
    by simp
  moreover have "takeWhile (\<lambda>c. c \<noteq> CHR ''/'') (u @ ''/'' @ v) = u" if "slash_free u" for u v
    using that by (auto simp: slash_free_def takeWhile_tail)
  ultimately have "t = t'" using assms by simp
  then show ?thesis using assms(3) by (simp add: start_key_def)
qed

lemma start_signal_key: "start_key t oc \<noteq> signal_key t' oc'"
  by (simp add: start_key_def signal_key_def)

lemma signal_key_inj:
  "slash_free t \<Longrightarrow> slash_free t' \<Longrightarrow> signal_key t oc = signal_key t' oc' \<Longrightarrow> t = t' \<and> oc = oc'"
  by (rule start_key_inj) (simp_all add: start_key_def signal_key_def)

text \<open>A new command's key is free as long as its occurrence is unknown.\<close>

lemma fresh_key:
  assumes "accept_inv s" and "slash_free t" and "known s t oc = None"
  shows "\<not> exists_row (\<lambda>x. out_idempotency_key x = start_key t oc) (db_outbox s)"
    and "\<not> exists_row (\<lambda>x. out_idempotency_key x = signal_key t oc) (db_outbox s)"
proof -
  have "out_idempotency_key x \<noteq> start_key t oc \<and> out_idempotency_key x \<noteq> signal_key t oc"
    if x: "x \<in> set (db_outbox s)" for x
  proof -
    obtain t' oc' rc where k: "slash_free t'" "known s t' oc' = Some (rc, out_aggregate_uid x)"
      "out_idempotency_key x = start_key t' oc' \<or> out_idempotency_key x = signal_key t' oc'"
      using assms(1) x by (auto simp: accept_inv_def elim!: command_knownE)
    then have "(t', oc') \<noteq> (t, oc)" using assms(3) by auto
    then show ?thesis
      using k start_key_inj[OF k(1) assms(2)] signal_key_inj[OF k(1) assms(2)] start_signal_key by metis
  qed
  then show "\<not> exists_row (\<lambda>x. out_idempotency_key x = start_key t oc) (db_outbox s)"
    "\<not> exists_row (\<lambda>x. out_idempotency_key x = signal_key t oc) (db_outbox s)"
    by (auto simp: exists_row_iff)
qed

lemma known_insert:
  assumes "db_receipts s' = db_receipts s @ [r]" and "db_tombstones s' = db_tombstones s"
    and "known s (rcpt_trigger_uid r) (rcpt_occurrence_id r) = None"
  shows "known s' t oc = (if (t, oc) = (rcpt_trigger_uid r, rcpt_occurrence_id r)
    then Some (rcpt_uid r, rcpt_run_uid r) else known s t oc)"
  using assms(3) unfolding known_def receiptByOccurrence_def assms(1,2)
  by (auto simp: select_row_append receipt_of_def split: option.splits)

text \<open>One lemma for both kinds of acceptance: the receipt and the command of a new occurrence.\<close>

lemma insert_step:
  assumes inv: "accept_inv s" and new: "known s (rcpt_trigger_uid r) (rcpt_occurrence_id r) = None"
    and sl: "slash_free (rcpt_trigger_uid r)"
    and rc: "insert_receipt r s = Inr s1" and ob: "insert_outbox cmd (rcpt_run_uid r) key now s1 = Inr s2"
    and cmd: "case cmd of StartCommand p \<Rightarrow> key = start_key (rcpt_trigger_uid r) (rcpt_occurrence_id r) \<and>
        sp_runUID p = rcpt_run_uid r \<and> sp_receiptUID p = rcpt_uid r \<and> sp_idempotencyKey p = key
      | SignalRunCommand p \<Rightarrow> key = signal_key (rcpt_trigger_uid r) (rcpt_occurrence_id r) \<and>
        sg_runUID p = rcpt_run_uid r \<and> sg_receiptUID p = rcpt_uid r \<and> sg_idempotencyKey p = key"
  shows "accept_inv s2" and "known_before s s2"
    and "known s2 (rcpt_trigger_uid r) (rcpt_occurrence_id r) = Some (rcpt_uid r, rcpt_run_uid r)"
proof -
  have s1: "s1 = s\<lparr>db_receipts := db_receipts s @ [r]\<rparr>" "rcpt_uid r \<notin> rcpt_uid ` set (db_receipts s)"
    using rc by (auto simp: insert_receipt_def exists_row_iff split: if_splits)
  define row where "row = \<lparr>out_id = Suc (db_outbox_seq s), out_command = cmd,
          out_aggregate_uid = rcpt_run_uid r, out_idempotency_key = key, out_state = ''pending'',
          out_attempts = 0, out_available = now, out_claimed = None, out_completed = None, out_last_error = []\<rparr>"
  have s2: "s2 = s1\<lparr>db_outbox_seq := Suc (db_outbox_seq s), db_outbox := db_outbox s @ [row]\<rparr>"
    "key \<notin> out_idempotency_key ` set (db_outbox s)"
    using ob by (auto simp: insert_outbox_def exists_row_iff s1 row_def split: if_splits)
  have k: "known s2 t oc = (if (t, oc) = (rcpt_trigger_uid r, rcpt_occurrence_id r)
    then Some (rcpt_uid r, rcpt_run_uid r) else known s t oc)" for t oc
    by (rule known_insert[OF _ _ new]) (simp_all add: s1 s2)
  then show "known s2 (rcpt_trigger_uid r) (rcpt_occurrence_id r) = Some (rcpt_uid r, rcpt_run_uid r)" by simp
  show kb: "known_before s s2" using k new by (auto simp: known_before_def)
  have row: "command_known s2 row"
    using cmd sl k by (auto simp: command_known_def row_def split: command.splits)
  have "(rcpt_trigger_uid r, rcpt_occurrence_id r) \<notin> set (occurrences s)" using new by (simp add: known_None_iff)
  then have "distinct (occurrences s2)"
    using inv by (auto simp: accept_inv_def occurrences_def s1 s2)
  then show "accept_inv s2"
    using inv s1(2) s2(2) row command_known_mono[OF kb]
    by (fastforce simp: accept_inv_def s1(1) s2(1) sorted_wrt_append row_def)
qed


lemma accept_inv_frame:
  assumes "accept_inv s" and "db_receipts s' = db_receipts s" "db_tombstones s' = db_tombstones s"
    "db_outbox s' = db_outbox s" "db_outbox_seq s' = db_outbox_seq s"
  shows "accept_inv s'" and "known_before s s'"
proof -
  have k: "known s' = known s" by (rule known_cong) (use assms in auto)
  then have "command_known s' = command_known s" by (intro ext) (simp add: command_known_def)
  then show "accept_inv s'" using assms by (simp add: accept_inv_def occurrences_def)
  show "known_before s s'" using k by (simp add: known_before_def)
qed

lemma cursor_frame [simp]:
  "db_receipts (upsertProviderCursor s t c e n) = db_receipts s" "db_outbox (upsertProviderCursor s t c e n) = db_outbox s"
  "db_tombstones (upsertProviderCursor s t c e n) = db_tombstones s"
  "db_outbox_seq (upsertProviderCursor s t c e n) = db_outbox_seq s" "db_plans (upsertProviderCursor s t c e n) = db_plans s"
  "db_runs (upsertProviderCursor s t c e n) = db_runs s"
  by (simp_all add: upsertProviderCursor_def Let_def)

lemma advance_cursor_frame [simp]:
  "db_receipts (advance_cursor n a s) = db_receipts s" "db_outbox (advance_cursor n a s) = db_outbox s"
  "db_tombstones (advance_cursor n a s) = db_tombstones s"
  "db_outbox_seq (advance_cursor n a s) = db_outbox_seq s" "db_plans (advance_cursor n a s) = db_plans s"
  "db_runs (advance_cursor n a s) = db_runs s"
  by (simp_all add: advance_cursor_def)

lemma pin_plan_frame:
  assumes "pin_plan env s f ns p = Inr s1"
  shows "\<exists>ps. s1 = s\<lparr>db_plans := db_plans s @ ps\<rparr>"
    and "p = Some q \<Longrightarrow> exists_row (\<lambda>r. cp_hash r = plan_planHash q) (db_plans s1)"
  using assms by (auto simp: pin_plan_def insert_plan_def exists_row_iff split: option.splits if_splits
    intro: exI[of _ "[]"])

definition acceptance_valid :: "store_env \<Rightarrow> db \<Rightarrow> acceptance \<Rightarrow> bool" where
  "acceptance_valid env s a \<longleftrightarrow> acc_generation a = 0 \<or>
     validateTriggerAcceptanceTx (env_lib env) s (acc_trigger_uid a) (acc_generation a) (acc_flow a)
       (default_ns (acc_namespace a)) = Inr ()"

lemma known_Some_receipt:
  "known s t oc = Some v \<Longrightarrow> \<exists>r. receiptByOccurrence s t oc = Inr r \<and> v = (rc_uid r, rc_run_uid r)"
  "known s t oc = None \<Longrightarrow> \<exists>e. receiptByOccurrence s t oc = Inl e"
  by (auto simp: known_def split: sum.splits)

lemma acceptTrigger_known:
  assumes "acceptTrigger env ru uu s a = Inr (r, s')" and "known s (acc_trigger_uid a) (acc_occurrence_id a) = Some v"
  shows "acceptance_valid env s a" "(rc_uid r, rc_run_uid r) = v" "rc_existing r" "s' = advance_cursor (env_now env) a s"
  using assms known_Some_receipt(1)[OF assms(2)]
  by (auto simp: acceptTrigger_def Let_def acceptance_valid_def split: if_splits)

lemma acceptTrigger_new:
  assumes ok: "acceptTrigger env ru uu s a = Inr (r, s')" and new: "known s (acc_trigger_uid a) (acc_occurrence_id a) = None"
    and inv: "accept_inv s" and sl: "slash_free (acc_trigger_uid a)"
  obtains s1 s2 s3 row where "acceptance_valid env s a" "rc_uid r = ru" "rc_run_uid r = uu" "\<not> rc_existing r"
    "pin_plan env s (acc_flow a) (default_ns (acc_namespace a)) (acc_plan a) = Inr s1"
    "rcpt_uid row = ru" "rcpt_run_uid row = uu" "rcpt_trigger_uid row = acc_trigger_uid a"
    "rcpt_occurrence_id row = acc_occurrence_id a" "insert_receipt row s1 = Inr s2"
    "insert_outbox (StartCommand (start_payload_of ru uu a)) uu (start_key (acc_trigger_uid a) (acc_occurrence_id a)) (env_now env) s2 = Inr s3"
    "s' = advance_cursor (env_now env) a s3"
proof -
  obtain e where e: "receiptByOccurrence s (acc_trigger_uid a) (acc_occurrence_id a) = Inl e"
    using known_Some_receipt(2)[OF new] by blast
  have "sp_idempotencyKey (start_payload_of ru uu a) = start_key (acc_trigger_uid a) (acc_occurrence_id a)"
    by (simp add: start_payload_of_def)
  with ok e show ?thesis
    by (force simp: acceptTrigger_def Let_def acceptance_valid_def intro: that split: if_splits)
qed

lemma acceptTrigger_keeps:
  assumes inv: "accept_inv s" and sl: "slash_free (acc_trigger_uid a)"
    and ok: "acceptTrigger env ru uu s a = Inr (r, s')"
  shows "accept_inv s'" and "known_before s s'"
    and "known s' (acc_trigger_uid a) (acc_occurrence_id a) = Some (rc_uid r, rc_run_uid r)"
proof -
  have "accept_inv s' \<and> known_before s s' \<and>
    known s' (acc_trigger_uid a) (acc_occurrence_id a) = Some (rc_uid r, rc_run_uid r)"
  proof (cases "known s (acc_trigger_uid a) (acc_occurrence_id a)")
    case (Some v)
    note k = acceptTrigger_known[OF ok Some]
    have "accept_inv s'" "known_before s s'"
      by (rule accept_inv_frame[OF inv]; simp add: k(4))+
    with Some k(2) show ?thesis by (auto simp: known_before_def)
  next
    case None
    obtain s1 s2 s3 row where n: "rc_uid r = ru" "rc_run_uid r = uu"
      "pin_plan env s (acc_flow a) (default_ns (acc_namespace a)) (acc_plan a) = Inr s1"
      "rcpt_uid row = ru" "rcpt_run_uid row = uu" "rcpt_trigger_uid row = acc_trigger_uid a"
      "rcpt_occurrence_id row = acc_occurrence_id a" "insert_receipt row s1 = Inr s2"
      "insert_outbox (StartCommand (start_payload_of ru uu a)) uu (start_key (acc_trigger_uid a) (acc_occurrence_id a)) (env_now env) s2 = Inr s3"
      "s' = advance_cursor (env_now env) a s3"
      by (rule acceptTrigger_new[OF ok None inv sl])
    obtain ps where p: "s1 = s\<lparr>db_plans := db_plans s @ ps\<rparr>" using pin_plan_frame(1)[OF n(3)] by blast
    have i1: "accept_inv s1" "known_before s s1" by (rule accept_inv_frame[OF inv]; simp add: p)+
    have k1: "known s1 = known s" by (rule known_cong) (simp_all add: p)
    have i3: "accept_inv s3" "known_before s1 s3"
      "known s3 (rcpt_trigger_uid row) (rcpt_occurrence_id row) = Some (rcpt_uid row, rcpt_run_uid row)"
      by (rule insert_step[OF i1(1) _ _ n(8) n(9)[folded n(5)]];
          use n None sl k1 in \<open>simp add: start_payload_of_def\<close>)+
    have "accept_inv s'" "known_before s3 s'" by (rule accept_inv_frame[OF i3(1)]; simp add: n(10))+
    then show ?thesis using i1(2) i3 n by (auto simp: known_before_def)
  qed
  then show "accept_inv s'" "known_before s s'"
    "known s' (acc_trigger_uid a) (acc_occurrence_id a) = Some (rc_uid r, rc_run_uid r)" by auto
qed


lemma AcceptProviderSignal_keeps:
  assumes inv: "accept_inv s" and sl: "slash_free t"
    and ok: "AcceptProviderSignal env ru s t g oc f ns run node payload c = Inr (r, s')"
  shows "accept_inv s'" and "known_before s s'" and "known s' t oc = Some (rc_uid r, rc_run_uid r)"
proof -
  have "accept_inv s' \<and> known_before s s' \<and> known s' t oc = Some (rc_uid r, rc_run_uid r)"
  proof (cases "known s t oc")
    case (Some v)
    then obtain x where x: "receiptByOccurrence s t oc = Inr x" "v = (rc_uid x, rc_run_uid x)"
      using known_Some_receipt(1) by blast
    then have s': "s' = upsertProviderCursor s t c oc (env_now env)" "r = x\<lparr>rc_existing := True\<rparr>"
      using ok by (auto simp: AcceptProviderSignal_def Let_def)
    have "accept_inv s'" "known_before s s'" by (rule accept_inv_frame[OF inv]; simp add: s'(1))+
    with Some x s' show ?thesis by (auto simp: known_before_def)
  next
    case None
    then obtain e where e: "receiptByOccurrence s t oc = Inl e" using known_Some_receipt(2) by blast
    obtain row p s1 s2 where n: "rcpt_uid row = rc_uid r" "rcpt_run_uid row = rc_run_uid r" "rcpt_trigger_uid row = t"
      "rcpt_occurrence_id row = oc" "rc_run_uid r = run" "insert_receipt row s = Inr s1"
      "insert_outbox (SignalRunCommand p) run (signal_key t oc) (env_now env) s1 = Inr s2"
      "sg_runUID p = run" "sg_receiptUID p = rc_uid r" "sg_idempotencyKey p = signal_key t oc"
      "s' = upsertProviderCursor s2 t c oc (env_now env)"
      using ok e by (force simp: AcceptProviderSignal_def Let_def)
    have ob: "insert_outbox (SignalRunCommand p) (rcpt_run_uid row) (signal_key t oc) (env_now env) s1 = Inr s2"
      using n by simp
    have i: "accept_inv s2" "known_before s s2"
      "known s2 (rcpt_trigger_uid row) (rcpt_occurrence_id row) = Some (rcpt_uid row, rcpt_run_uid row)"
      by (rule insert_step[OF inv _ _ n(6) ob]; use n None sl in simp)+
    have "accept_inv s'" "known_before s2 s'" by (rule accept_inv_frame[OF i(1)]; simp add: n(11))+
    then show ?thesis using i n by (auto simp: known_before_def)
  qed
  then show "accept_inv s'" "known_before s s'" "known s' t oc = Some (rc_uid r, rc_run_uid r)" by auto
qed

section \<open>Properties\<close>

lemma acceptTrigger_succeeds:
  assumes inv: "accept_inv s" and sl: "slash_free (acc_trigger_uid a)"
    and new: "known s (acc_trigger_uid a) (acc_occurrence_id a) = None" and v: "acceptance_valid env s a"
    and pin: "pin_plan env s (acc_flow a) (default_ns (acc_namespace a)) (acc_plan a) = Inr s1"
    and fresh: "ru \<notin> rcpt_uid ` set (db_receipts s)"
  shows "\<exists>r s'. acceptTrigger env ru uu s a = Inr (r, s')"
proof -
  obtain e where e: "receiptByOccurrence s (acc_trigger_uid a) (acc_occurrence_id a) = Inl e"
    using known_Some_receipt(2)[OF new] by blast
  obtain ps where p: "s1 = s\<lparr>db_plans := db_plans s @ ps\<rparr>" using pin_plan_frame(1)[OF pin] by blast
  have "(acc_trigger_uid a, acc_occurrence_id a) \<notin> set (occurrences s)" using new by (simp add: known_None_iff)
  then have r: "insert_receipt row s1 = Inr (s1\<lparr>db_receipts := db_receipts s1 @ [row]\<rparr>)"
    if "rcpt_uid row = ru" "rcpt_trigger_uid row = acc_trigger_uid a" "rcpt_occurrence_id row = acc_occurrence_id a" for row
    using fresh that by (auto simp: insert_receipt_def exists_row_iff p occurrences_def image_iff)
  have ob: "db_outbox t = db_outbox s \<Longrightarrow>
      \<exists>t'. insert_outbox cmd uu (start_key (acc_trigger_uid a) (acc_occurrence_id a)) n t = Inr t'" for t cmd n
    using fresh_key(1)[OF inv sl new] by (simp add: insert_outbox_def)
  have "(if acc_generation a \<noteq> 0 then validateTriggerAcceptanceTx (env_lib env) s (acc_trigger_uid a)
      (acc_generation a) (acc_flow a) (default_ns (acc_namespace a)) else Inr ()) = Inr ()"
    using v by (auto simp: acceptance_valid_def)
  moreover have "sp_idempotencyKey (start_payload_of ru uu a) = start_key (acc_trigger_uid a) (acc_occurrence_id a)"
    by (simp add: start_payload_of_def)
  ultimately show ?thesis
    by (simp add: acceptTrigger_def Let_def e pin r) (rule ob, simp add: p)
qed

text \<open>C28: accepting a new occurrence. When the occurrence is unknown, its Trigger is current and enabled
  (or no generation is given) and the plan is complete and belongs to the current Flow, the
  transaction commits; it adds one receipt bound to the new Run, exactly one pending start command
  whose payload names that Run, the receipt and the hash of the plan, which is stored; it
  creates no Run and touches no other command.\<close>

theorem accept_new_occurrence:
  assumes "accept_inv s" and "slash_free (acc_trigger_uid a)"
    and "known s (acc_trigger_uid a) (acc_occurrence_id a) = None" and "acceptance_valid env s a"
    and "acc_plan a = Some p" and "plan_planHash p \<noteq> []" "plan_flowUID p \<noteq> []" "plan_interpreterVersion p \<noteq> []"
    and "validateFlowPlanTx s (acc_flow a) (default_ns (acc_namespace a)) p = Inr ()"
    and "ru \<notin> rcpt_uid ` set (db_receipts s)"
  shows "\<exists>r s' row cmd. acceptTrigger env ru uu s a = Inr (r, s') \<and> rc_run_uid r = uu \<and> \<not> rc_existing r \<and>
    db_receipts s' = db_receipts s @ [row] \<and> receipt_of row = r \<and>
    db_outbox s' = db_outbox s @ [cmd] \<and> out_state cmd = ''pending'' \<and> out_aggregate_uid cmd = uu \<and>
    out_command cmd = StartCommand (start_payload_of ru uu a) \<and> sp_planHash (start_payload_of ru uu a) = plan_planHash p \<and>
    (\<exists>pr. find_plan s' (plan_planHash p) = Some pr) \<and> db_runs s' = db_runs s \<and>
    known s' (acc_trigger_uid a) (acc_occurrence_id a) = Some (ru, uu)"
proof -
  have pin: "\<exists>s1. pin_plan env s (acc_flow a) (default_ns (acc_namespace a)) (acc_plan a) = Inr s1"
    using assms by (simp add: pin_plan_def)
  then obtain r s' where ok: "acceptTrigger env ru uu s a = Inr (r, s')"
    using acceptTrigger_succeeds[OF assms(1-4) _ assms(10)] by blast
  obtain e where e: "receiptByOccurrence s (acc_trigger_uid a) (acc_occurrence_id a) = Inl e"
    using known_Some_receipt(2)[OF assms(3)] by blast
  obtain s1 where p: "pin_plan env s (acc_flow a) (default_ns (acc_namespace a)) (acc_plan a) = Inr s1"
    using pin by blast
  obtain ps where ps: "s1 = s\<lparr>db_plans := db_plans s @ ps\<rparr>" using pin_plan_frame(1)[OF p] by blast
  have "exists_row (\<lambda>r. cp_hash r = plan_planHash p) (db_plans s1)" by (rule pin_plan_frame(2)[OF p assms(5)])
  then have "\<exists>pr. select_row (\<lambda>q. cp_hash q = plan_planHash p) (db_plans s @ ps) = Some pr"
    by (auto simp: exists_row_iff ps select_row_None simp flip: not_None_eq)
  moreover have "known s' (acc_trigger_uid a) (acc_occurrence_id a) = Some (rc_uid r, rc_run_uid r)"
    by (rule acceptTrigger_keeps(3)[OF assms(1,2) ok])
  ultimately show ?thesis
    using ok e p ps assms(5)
    by (auto simp: acceptTrigger_def Let_def insert_receipt_def insert_outbox_def find_plan_def receipt_of_def
      start_payload_of_def split: if_splits)
qed

text \<open>Nothing stale is accepted. A committed acceptance that names a Trigger generation (always
  not zero) has found a Trigger resource with that uid and generation whose controller state has the
  same generation and is enabled, and whose decoded spec targets the accepted Flow in the
  accepted namespace; the plan of a new occurrence is that of the Flow resource's current uid and generation.\<close>

theorem accept_only_current:
  assumes "acceptTrigger env ru uu s a = Inr (r, s')" and "acc_generation a \<noteq> 0"
  shows "(\<exists>row st m t. row \<in> set (db_resources s) \<and> st \<in> set (db_trigger_states s) \<and>
      res_kind row = ''Trigger'' \<and> res_uid row = acc_trigger_uid a \<and> res_generation row = acc_generation a \<and>
      tst_trigger_uid st = acc_trigger_uid a \<and> tst_generation st = acc_generation a \<and> tst_enabled st \<and>
      DecodeTrigger (env_lib env) (res_json row) = Inr (m, t) \<and> trg_flow t = acc_flow a \<and>
      meta_namespace m = default_ns (acc_namespace a)) \<and>
    (\<forall>p. acc_plan a = Some p \<and> \<not> rc_existing r \<longrightarrow>
      (\<exists>fl. find_resource s ''Flow'' (default_ns (acc_namespace a)) (acc_flow a) = Some fl \<and>
        res_uid fl = plan_flowUID p \<and> res_generation fl = plan_flowGeneration p))"
proof
  have "validateTriggerAcceptanceTx (env_lib env) s (acc_trigger_uid a) (acc_generation a) (acc_flow a)
      (default_ns (acc_namespace a)) = Inr ()"
    using assms by (auto simp: acceptTrigger_def Let_def)
  then show "\<exists>row st m t. row \<in> set (db_resources s) \<and> st \<in> set (db_trigger_states s) \<and>
      res_kind row = ''Trigger'' \<and> res_uid row = acc_trigger_uid a \<and> res_generation row = acc_generation a \<and>
      tst_trigger_uid st = acc_trigger_uid a \<and> tst_generation st = acc_generation a \<and> tst_enabled st \<and>
      DecodeTrigger (env_lib env) (res_json row) = Inr (m, t) \<and> trg_flow t = acc_flow a \<and>
      meta_namespace m = default_ns (acc_namespace a)"
    by (auto simp: validateTriggerAcceptanceTx_def dest!: select_row_SomeD)
next
  show "\<forall>p. acc_plan a = Some p \<and> \<not> rc_existing r \<longrightarrow>
      (\<exists>fl. find_resource s ''Flow'' (default_ns (acc_namespace a)) (acc_flow a) = Some fl \<and>
        res_uid fl = plan_flowUID p \<and> res_generation fl = plan_flowGeneration p)"
    using assms by (auto simp: acceptTrigger_def Let_def pin_plan_def validateFlowPlanTx_def split: sum.splits)
qed


definition sample_plan :: execution_plan where
  "sample_plan = \<lparr>plan_apiVersion = APIVersion, plan_flowUID = ''flow-uid'', plan_flowGeneration = 1,
     plan_interpreterVersion = InterpreterVersion, plan_timeout = ''1h0m0s'', plan_maxParallel = 1,
     plan_inputSchema = None, plan_nodes = [], plan_edges = [], plan_components = [], plan_planHash = ''hash''\<rparr>"

definition sample_db :: db where
  "sample_db = run_requests exec_resource
     [(sample_env, ReqApply ''flow-uid'' ''r1'' sample_flow (sample_opts 0)),
      (sample_env, ReqApply ''trigger-uid'' ''r2'' sample_trigger (sample_opts 0))] empty_db"

definition sample_acceptance :: acceptance where
  "sample_acceptance = \<lparr>acc_trigger_uid = ''trigger-uid'', acc_generation = 1, acc_occurrence_id = ''delivery-1'',
     acc_flow = ''build'', acc_namespace = [], acc_input = None, acc_deduplicated = True, acc_cursor = ''c1'',
     acc_event_id = ''delivery-1'', acc_plan = Some sample_plan\<rparr>"

lemma sample_db_facts:
  "db_receipts sample_db = []" "db_outbox sample_db = []" "db_tombstones sample_db = []" "db_runs sample_db = []"
  "db_outbox_seq sample_db = 0"
  by code_simp+

lemma sample_db_accept_inv: "accept_inv sample_db"
  by (simp add: accept_inv_def occurrences_def sample_db_facts)

lemma sample_acceptance_valid: "acceptance_valid sample_env sample_db sample_acceptance"
  by code_simp

theorem accept_new_occurrence_witness:
  "\<exists>r s' cmd. acceptTrigger sample_env ''rc1'' ''run1'' sample_db sample_acceptance = Inr (r, s') \<and>
     rc_run_uid r = ''run1'' \<and> db_outbox s' = [cmd] \<and> out_state cmd = ''pending'' \<and> db_runs s' = [] \<and>
     known s' ''trigger-uid'' ''delivery-1'' = Some (''rc1'', ''run1'')"
proof -
  have a: "slash_free (acc_trigger_uid sample_acceptance)" "acc_plan sample_acceptance = Some sample_plan"
    "plan_planHash sample_plan \<noteq> []" "plan_flowUID sample_plan \<noteq> []" "plan_interpreterVersion sample_plan \<noteq> []"
    "validateFlowPlanTx sample_db (acc_flow sample_acceptance) (default_ns (acc_namespace sample_acceptance)) sample_plan = Inr ()"
    "known sample_db (acc_trigger_uid sample_acceptance) (acc_occurrence_id sample_acceptance) = None"
    "acc_trigger_uid sample_acceptance = ''trigger-uid''" "acc_occurrence_id sample_acceptance = ''delivery-1''"
    by code_simp+
  show ?thesis
    using accept_new_occurrence[OF sample_db_accept_inv a(1,7) sample_acceptance_valid a(2-6), of "''rc1''" "''run1''"]
    unfolding a(8,9) by (auto simp: sample_db_facts)
qed

theorem accept_only_current_witness:
  "\<exists>row \<in> set (db_resources sample_db). res_kind row = ''Trigger'' \<and> res_uid row = ''trigger-uid'' \<and> res_generation row = 1"
proof -
  have "is_ok (acceptTrigger sample_env ''rc1'' ''run1'' sample_db sample_acceptance)"
    "acc_generation sample_acceptance = 1" "acc_trigger_uid sample_acceptance = ''trigger-uid''"
    by code_simp+
  moreover then obtain r s' where "acceptTrigger sample_env ''rc1'' ''run1'' sample_db sample_acceptance = Inr (r, s')"
    by (auto simp: is_ok_def split: sum.splits)
  ultimately show ?thesis using accept_only_current by fastforce
qed

end
