(* ===== verification/Store_Outbox.thy ===== *)
theory Store_Outbox
  imports Store_Triggers
begin

text \<open>
  The durable command queue of \<open>internal/store/store.go\<close>: claims in global id order with a lease,
  completion, suppression of a start whose Run was cancelled, and retry with a delay.

  The properties: a claim takes the oldest eligible command and leases it, a leased command is not
  handed out again before its lease is stale, a completed one is never handed out, and no
  operation of the queue loses a command. The lease compares the texts of two times; the comparison
  is exact across seconds and only then, which the last property records.
\<close>

fun command_type :: "command \<Rightarrow> string" where
  "command_type (StartCommand _) = ''start-run''"
| "command_type (SignalRunCommand _) = ''signal-run''"

definition eligible :: "string list \<Rightarrow> time \<Rightarrow> time \<Rightarrow> outbox_row \<Rightarrow> bool" where
  "eligible types stale now r \<longleftrightarrow> command_type (out_command r) \<in> set types \<and>
     (out_state r = ''pending'' \<or>
      (out_state r = ''inflight'' \<and> (case out_claimed r of None \<Rightarrow> False | Some c \<Rightarrow> ts_less c stale))) \<and>
     ts_le (out_available r) now"

definition oldest :: "outbox_row list \<Rightarrow> outbox_row option" where
  "oldest rows = (case sort_key out_id rows of [] \<Rightarrow> None | r # _ \<Rightarrow> Some r)"

definition lease :: "time \<Rightarrow> nat \<Rightarrow> db \<Rightarrow> db" where
  "lease now i s = s\<lparr>db_outbox := update_rows (\<lambda>r. out_id r = i)
     (\<lambda>r. r\<lparr>out_state := ''inflight'', out_attempts := Suc (out_attempts r), out_claimed := Some now\<rparr>) (db_outbox s)\<rparr>"

text \<open>The common body of the three claims: the selected command, its attempt count and the new state.\<close>

definition claim :: "string list \<Rightarrow> store_env \<Rightarrow> db \<Rightarrow> nat \<Rightarrow> (store_error, (nat \<times> command \<times> nat) \<times> db) result" where
  "claim types env s staleAfter =
     (case oldest (filter (eligible types (env_now env - staleAfter) (env_now env)) (db_outbox s)) of
        None \<Rightarrow> Inl ErrNotFound
      | Some r \<Rightarrow> Inr ((out_id r, out_command r, Suc (out_attempts r)), lease (env_now env) (out_id r) s))"

definition ClaimStart :: "store_env \<Rightarrow> db \<Rightarrow> nat \<Rightarrow> (store_error, (nat \<times> start_payload \<times> nat) \<times> db) result" where
  "ClaimStart env s staleAfter =
     bind_res (claim [''start-run''] env s staleAfter) (\<lambda>((i, cmd, n), s').
       case cmd of StartCommand p \<Rightarrow> Inr ((i, p, n), s') | _ \<Rightarrow> Inl (ErrText ''json''))"

definition ClaimSignal :: "store_env \<Rightarrow> db \<Rightarrow> nat \<Rightarrow> (store_error, (nat \<times> signal_payload \<times> nat) \<times> db) result" where
  "ClaimSignal env s staleAfter =
     bind_res (claim [''signal-run''] env s staleAfter) (\<lambda>((i, cmd, n), s').
       case cmd of SignalRunCommand p \<Rightarrow> Inr ((i, p, n), s') | _ \<Rightarrow> Inl (ErrText ''json''))"

definition ClaimNext :: "store_env \<Rightarrow> db \<Rightarrow> nat \<Rightarrow> (store_error, (nat \<times> command \<times> nat) \<times> db) result" where
  "ClaimNext env s staleAfter = claim [''start-run'', ''signal-run''] env s staleAfter"

definition complete_row :: "time \<Rightarrow> outbox_row \<Rightarrow> outbox_row" where
  "complete_row now r = r\<lparr>out_state := ''completed'', out_completed := Some now, out_last_error := []\<rparr>"

definition CompleteOutbox :: "store_env \<Rightarrow> db \<Rightarrow> nat \<Rightarrow> db" where
  "CompleteOutbox env s i =
     s\<lparr>db_outbox := update_rows (\<lambda>r. out_id r = i) (complete_row (env_now env)) (db_outbox s)\<rparr>"

definition CompleteStartIfRunCancelled :: "store_env \<Rightarrow> db \<Rightarrow> nat \<Rightarrow> string \<Rightarrow> bool \<times> db" where
  "CompleteStartIfRunCancelled env s i runUID =
     (let P = (\<lambda>r. out_id r = i \<and> command_type (out_command r) = ''start-run'' \<and> out_aggregate_uid r = runUID \<and>
                   exists_row (\<lambda>c. can_run_uid c = runUID) (db_cancellations s))
      in (rows_affected P (db_outbox s) = 1,
          s\<lparr>db_outbox := update_rows P (complete_row (env_now env)) (db_outbox s)\<rparr>))"

definition RetryOutbox :: "store_env \<Rightarrow> db \<Rightarrow> nat \<Rightarrow> string \<Rightarrow> nat \<Rightarrow> db" where
  "RetryOutbox env s i cause delay =
     s\<lparr>db_outbox := update_rows (\<lambda>r. out_id r = i)
       (\<lambda>r. r\<lparr>out_state := ''pending'', out_available := env_now env + delay, out_last_error := cause\<rparr>) (db_outbox s)\<rparr>"

record outbox_status =
  ob_active :: nat
  ob_failed :: nat

definition InspectOutboxStatus :: "db \<Rightarrow> outbox_status" where
  "InspectOutboxStatus s =
     (let open_rows = filter (\<lambda>r. out_state r \<noteq> ''completed'') (db_outbox s)
      in \<lparr>ob_active = length open_rows, ob_failed = length (filter (\<lambda>r. out_last_error r \<noteq> []) open_rows)\<rparr>)"

section \<open>The queue as an interface\<close>

text \<open>
  What the dispatcher relies on: the set of open command ids, a claim that only hands out open
  commands and keeps them open, a completion that closes exactly its command, and a retry that
  keeps an open command open.
\<close>

locale dispatch_queue =
  fixes wf :: "'s \<Rightarrow> bool" and open_ids :: "'s \<Rightarrow> nat set"
    and take_next :: "'s \<Rightarrow> (nat \<times> 's) option" and close :: "nat \<Rightarrow> 's \<Rightarrow> 's" and put_back :: "nat \<Rightarrow> 's \<Rightarrow> 's"
  assumes take_open: "wf s \<Longrightarrow> take_next s = Some (i, s') \<Longrightarrow> i \<in> open_ids s \<and> open_ids s' = open_ids s \<and> wf s'"
    and close_open: "wf s \<Longrightarrow> open_ids (close i s) = open_ids s - {i} \<and> wf (close i s)"
    and put_back_open: "wf s \<Longrightarrow> i \<in> open_ids s \<Longrightarrow> open_ids (put_back i s) = open_ids s \<and> wf (put_back i s)"
begin

text \<open>One dispatch: take a command, hand it over, close it on success and put it back on failure.\<close>

definition dispatch :: "(nat \<Rightarrow> bool) \<Rightarrow> 's \<Rightarrow> 's" where
  "dispatch deliver s = (case take_next s of None \<Rightarrow> s
     | Some (i, s') \<Rightarrow> if deliver i then close i s' else put_back i s')"

lemma dispatch_loses_nothing:
  assumes "wf s"
  shows "wf (dispatch deliver s) \<and> {i \<in> open_ids s. \<not> deliver i} \<subseteq> open_ids (dispatch deliver s) \<and>
    open_ids (dispatch deliver s) \<subseteq> open_ids s"
proof (cases "take_next s")
  case None
  then show ?thesis using assms by (auto simp: dispatch_def)
next
  case (Some p)
  obtain i s' where p: "p = (i, s')" by (cases p)
  note t = take_open[OF assms Some[unfolded p]]
  then show ?thesis using close_open[of s' i] put_back_open[of s' i] Some p
    by (auto simp: dispatch_def)
qed

lemma dispatches_lose_nothing:
  assumes "wf s"
  shows "wf (fold dispatch ds s) \<and> {i \<in> open_ids s. \<forall>d \<in> set ds. \<not> d i} \<subseteq> open_ids (fold dispatch ds s) \<and>
    open_ids (fold dispatch ds s) \<subseteq> open_ids s"
  using assms
proof (induction ds arbitrary: s)
  case Nil
  then show ?case by auto
next
  case (Cons d ds)
  have "wf (dispatch d s)" "{i \<in> open_ids s. \<not> d i} \<subseteq> open_ids (dispatch d s)" "open_ids (dispatch d s) \<subseteq> open_ids s"
    using dispatch_loses_nothing[OF Cons.prems, of d] by auto
  with Cons.IH[of "dispatch d s"] show ?case by (simp, blast)
qed

end

definition open_commands :: "db \<Rightarrow> nat set" where
  "open_commands s = {i. \<exists>r \<in> set (db_outbox s). out_id r = i \<and> out_state r \<noteq> ''completed''}"

definition outbox_ids :: "db \<Rightarrow> bool" where
  "outbox_ids s \<longleftrightarrow> sorted_wrt (<) (map out_id (db_outbox s))"

lemma outbox_row_unique:
  assumes "outbox_ids s" "r \<in> set (db_outbox s)" "r' \<in> set (db_outbox s)" "out_id r = out_id r'"
  shows "r = r'"
proof -
  have "distinct (map out_id (db_outbox s))" using assms(1) by (simp add: outbox_ids_def strict_sorted_iff)
  then show ?thesis using assms by (auto simp: distinct_map inj_on_def)
qed

lemma oldest_Some:
  assumes "oldest rows = Some r"
  shows "r \<in> set rows" and "x \<in> set rows \<Longrightarrow> out_id r \<le> out_id x"
proof -
  obtain xs where xs: "sort_key out_id rows = r # xs"
    using assms by (auto simp: oldest_def split: list.splits)
  have "set rows = set (r # xs)" by (metis set_sort xs)
  then show "r \<in> set rows" by simp
  have "sorted (map out_id (r # xs))" by (metis sorted_sort_key xs)
  then show "x \<in> set rows \<Longrightarrow> out_id r \<le> out_id x"
    using \<open>set rows = set (r # xs)\<close> by auto
qed

lemma oldest_None: "oldest rows = None \<longleftrightarrow> rows = []"
  by (metis (no_types, lifting) list.case_eq_if list.set_sel(1) list.size(3) length_sort oldest_def option.distinct(1) length_0_conv)

lemma claim_Inr:
  assumes "claim types env s d = Inr ((i, cmd, n), s')"
  obtains r where "r \<in> set (db_outbox s)" "eligible types (env_now env - d) (env_now env) r" "i = out_id r"
    "cmd = out_command r" "n = Suc (out_attempts r)" "s' = lease (env_now env) i s"
    "\<And>x. x \<in> set (db_outbox s) \<Longrightarrow> eligible types (env_now env - d) (env_now env) x \<Longrightarrow> i \<le> out_id x"
proof -
  obtain r where r: "oldest (filter (eligible types (env_now env - d) (env_now env)) (db_outbox s)) = Some r"
    "i = out_id r" "cmd = out_command r" "n = Suc (out_attempts r)" "s' = lease (env_now env) i s"
    using assms by (auto simp: claim_def split: option.splits)
  show ?thesis
    by (rule that[of r]) (use r oldest_Some[OF r(1)] in auto)
qed

lemma lease_rows:
  "db_outbox (lease now i s) = map (\<lambda>r. if out_id r = i then r\<lparr>out_state := ''inflight'',
     out_attempts := Suc (out_attempts r), out_claimed := Some now\<rparr> else r) (db_outbox s)"
  by (simp add: lease_def update_rows_def)

lemma leased_row:
  "x \<in> set (db_outbox (lease now i s)) \<Longrightarrow> out_id x = i \<Longrightarrow> out_state x = ''inflight'' \<and> out_claimed x = Some now"
  unfolding lease_rows set_map by (elim imageE) (simp split: if_splits)

lemma outbox_ids_update:
  "(\<And>r. out_id (f r) = out_id r) \<Longrightarrow> outbox_ids (s\<lparr>db_outbox := update_rows P f (db_outbox s)\<rparr>) = outbox_ids s"
  by (simp add: outbox_ids_def map_update_rows)

lemma open_update:
  assumes "\<And>r. out_id (f r) = out_id r"
  shows "k \<in> open_commands (s\<lparr>db_outbox := update_rows P f (db_outbox s)\<rparr>) \<longleftrightarrow>
    (\<exists>r \<in> set (db_outbox s). out_id r = k \<and> out_state (if P r then f r else r) \<noteq> ''completed'')"
proof -
  have "out_id (if P r then f r else r) = out_id r" for r using assms by simp
  then show ?thesis by (simp add: open_commands_def set_update_rows del: if_image_distrib)
qed

lemma claim_keeps_open:
  assumes ids: "outbox_ids s" and c: "claim types env s d = Inr ((i, cmd, n), s')"
  shows "i \<in> open_commands s" "open_commands s' = open_commands s" "outbox_ids s'"
proof -
  obtain r where r: "r \<in> set (db_outbox s)" "eligible types (env_now env - d) (env_now env) r" "i = out_id r"
    "s' = lease (env_now env) i s" using c by (rule claim_Inr)
  have st: "out_state r \<noteq> ''completed''" using r(2) by (auto simp: eligible_def)
  then show "i \<in> open_commands s" using r by (auto simp: open_commands_def)
  have uniq: "x = r" if "x \<in> set (db_outbox s)" "out_id x = i" for x
    using outbox_row_unique[OF ids] r that by auto
  show "open_commands s' = open_commands s"
  proof (rule set_eqI)
    fix k
    have "k \<in> open_commands s' \<longleftrightarrow> (\<exists>x \<in> set (db_outbox s). out_id x = k \<and> (out_id x = i \<or> out_state x \<noteq> ''completed''))"
      unfolding r(4) lease_def by (subst open_update) auto
    then show "k \<in> open_commands s' \<longleftrightarrow> k \<in> open_commands s"
      using uniq st by (auto simp: open_commands_def)
  qed
  show "outbox_ids s'" using ids r by (simp add: lease_def outbox_ids_update)
qed

lemma CompleteOutbox_open:
  "open_commands (CompleteOutbox env s i) = open_commands s - {i}" "outbox_ids (CompleteOutbox env s i) = outbox_ids s"
proof -
  have "k \<in> open_commands (CompleteOutbox env s i) \<longleftrightarrow> k \<in> open_commands s - {i}" for k
    unfolding CompleteOutbox_def by (subst open_update) (auto simp: complete_row_def open_commands_def)
  then show "open_commands (CompleteOutbox env s i) = open_commands s - {i}" by blast
qed (simp add: CompleteOutbox_def complete_row_def outbox_ids_update)

lemma RetryOutbox_open:
  "i \<in> open_commands s \<Longrightarrow> open_commands (RetryOutbox env s i cause delay) = open_commands s"
  "outbox_ids (RetryOutbox env s i cause delay) = outbox_ids s"
proof -
  have "k \<in> open_commands (RetryOutbox env s i cause delay) \<longleftrightarrow>
      (\<exists>r \<in> set (db_outbox s). out_id r = k \<and> (k = i \<or> out_state r \<noteq> ''completed''))" for k
    unfolding RetryOutbox_def by (subst open_update) auto
  then show "i \<in> open_commands s \<Longrightarrow> open_commands (RetryOutbox env s i cause delay) = open_commands s"
    by (auto simp: open_commands_def)
qed (simp add: RetryOutbox_def outbox_ids_update)

definition take_command :: "store_env \<Rightarrow> nat \<Rightarrow> db \<Rightarrow> (nat \<times> db) option" where
  "take_command env staleAfter s = (case ClaimNext env s staleAfter of Inl _ \<Rightarrow> None | Inr ((i, _), s') \<Rightarrow> Some (i, s'))"

interpretation outbox: dispatch_queue outbox_ids open_commands "take_command env staleAfter"
  "\<lambda>i s. CompleteOutbox env s i" "\<lambda>i s. RetryOutbox env s i cause delay"
  for env staleAfter cause delay
proof
  fix s s' i
  assume "outbox_ids s" "take_command env staleAfter s = Some (i, s')"
  then show "i \<in> open_commands s \<and> open_commands s' = open_commands s \<and> outbox_ids s'"
    by (auto simp: take_command_def ClaimNext_def split: sum.splits dest: claim_keeps_open)
qed (auto simp: CompleteOutbox_open RetryOutbox_open)


lemma dec_val_zeros: "list_all (\<lambda>c. c = CHR ''0'') ds \<Longrightarrow> dec_val ds = 0"
proof (induction ds rule: rev_induct)
  case Nil
  then show ?case by (simp add: dec_val_def)
next
  case (snoc c ds)
  then show ?case by (simp add: dec_val_append digit_val_def)
qed

lemma strip_zeros_Nil: "strip_zeros ds = [] \<Longrightarrow> dec_val ds = 0"
  by (rule dec_val_zeros) (auto simp: strip_zeros_def list_all_iff dropWhile_eq_Nil_conv)

text \<open>A time with a fraction sorts before the whole second it follows.\<close>

lemma ts_less_fraction:
  assumes "a div second = b div second" and "a mod second \<noteq> 0" and "b mod second = 0"
  shows "ts_less a b"
proof -
  have "dec_val (pad_digits 9 (a mod second mod 10 ^ 9)) \<noteq> 0"
    using assms(2) by (simp add: dec_val_pad_digits second_def)
  then have "\<exists>xs. frac_text a = CHR ''.'' # xs"
    using strip_zeros_Nil by (auto simp: frac_text_def fmt_frac_def Let_def)
  moreover have "strip_zeros (pad_digits 9 0) = []" by code_simp
  then have "frac_text b = ''Z''" using assms(3) by (simp add: frac_text_def fmt_frac_def Let_def)
  moreover have "CHR ''.'' < CHR ''Z''" by code_simp
  ultimately show ?thesis using assms(1) by (auto simp: ts_less_def)
qed

section \<open>Properties\<close>

text \<open>One round of the dispatcher, where \<open>deliver\<close> says which commands the engine takes.\<close>

definition dispatch_once :: "store_env \<Rightarrow> nat \<Rightarrow> string \<Rightarrow> nat \<Rightarrow> (nat \<Rightarrow> bool) \<Rightarrow> db \<Rightarrow> db" where
  "dispatch_once env staleAfter cause delay deliver s =
     (case ClaimNext env s staleAfter of Inl _ \<Rightarrow> s
      | Inr ((i, _), s') \<Rightarrow> if deliver i then CompleteOutbox env s' i else RetryOutbox env s' i cause delay)"

lemma dispatch_once_eq: "dispatch_once env staleAfter cause delay = outbox.dispatch env staleAfter cause delay"
  by (intro ext) (simp add: dispatch_once_def outbox.dispatch_def take_command_def split: sum.splits prod.splits)


text \<open>C9: claims are first-in first-out and exclusive. \<open>ClaimNext\<close> fails exactly when no command is
  eligible; otherwise it returns the eligible command with the smallest id, which is not completed,
  counts the attempt and leases it. Until the lease is stale a second claim does not return the same command.\<close>

theorem ClaimNext_fifo_and_exclusive:
  assumes "sorted_wrt (<) (map out_id (db_outbox s))"
  shows "case ClaimNext env s d of
      Inl e \<Rightarrow> e = ErrNotFound \<and>
        (\<forall>r \<in> set (db_outbox s). \<not> eligible [''start-run'', ''signal-run''] (env_now env - d) (env_now env) r)
    | Inr ((i, cmd, n), s') \<Rightarrow>
        (\<exists>r \<in> set (db_outbox s). out_id r = i \<and> out_command r = cmd \<and> out_state r \<noteq> ''completed'' \<and> n = out_attempts r + 1 \<and>
           eligible [''start-run'', ''signal-run''] (env_now env - d) (env_now env) r) \<and>
        (\<forall>x \<in> set (db_outbox s). eligible [''start-run'', ''signal-run''] (env_now env - d) (env_now env) x \<longrightarrow> i \<le> out_id x) \<and>
        (\<forall>env' d' cmd' n' s''. \<not> ts_less (env_now env) (env_now env' - d') \<longrightarrow>
           ClaimNext env' s' d' \<noteq> Inr ((i, cmd', n'), s''))"
proof (cases "ClaimNext env s d")
  case (Inl e)
  then show ?thesis by (auto simp: ClaimNext_def claim_def oldest_None filter_empty_conv split: option.splits)
next
  case (Inr p)
  obtain i cmd n s' where p: "p = ((i, cmd, n), s')" by (metis prod.exhaust)
  have c: "claim [''start-run'', ''signal-run''] env s d = Inr ((i, cmd, n), s')" using Inr p by (simp add: ClaimNext_def)
  obtain r where r: "r \<in> set (db_outbox s)" "eligible [''start-run'', ''signal-run''] (env_now env - d) (env_now env) r"
    "i = out_id r" "cmd = out_command r" "n = Suc (out_attempts r)" "s' = lease (env_now env) i s"
    "\<And>x. x \<in> set (db_outbox s) \<Longrightarrow> eligible [''start-run'', ''signal-run''] (env_now env - d) (env_now env) x \<Longrightarrow> i \<le> out_id x"
    using c by (rule claim_Inr) blast
  have C: "\<forall>env' d' cmd' n' s''. \<not> ts_less (env_now env) (env_now env' - d') \<longrightarrow>
      ClaimNext env' s' d' \<noteq> Inr ((i, cmd', n'), s'')"
  proof (intro allI impI notI)
    fix env' d' cmd' n' s''
    assume nl: "\<not> ts_less (env_now env) (env_now env' - d')" and "ClaimNext env' s' d' = Inr ((i, cmd', n'), s'')"
    then obtain x where x: "x \<in> set (db_outbox s')" "eligible [''start-run'', ''signal-run''] (env_now env' - d') (env_now env') x" "i = out_id x"
      unfolding ClaimNext_def by (elim claim_Inr)
    have "out_state x = ''inflight'' \<and> out_claimed x = Some (env_now env)"
      by (rule leased_row[OF x(1)[unfolded r(6)] x(3)[symmetric]])
    then show False using x(2) nl by (simp add: eligible_def)
  qed
  have B: "\<forall>x \<in> set (db_outbox s). eligible [''start-run'', ''signal-run''] (env_now env - d) (env_now env) x \<longrightarrow> i \<le> out_id x"
    using r(7) by blast
  have ns: "out_state r \<noteq> ''completed''" using r(2) by (auto simp: eligible_def)
  have A: "\<exists>x \<in> set (db_outbox s). out_id x = i \<and> out_command x = cmd \<and> out_state x \<noteq> ''completed'' \<and>
      n = out_attempts x + 1 \<and> eligible [''start-run'', ''signal-run''] (env_now env - d) (env_now env) x"
    by (rule bexI[OF _ r(1)]) (intro conjI ns r(2), simp_all add: r(3-5))
  show ?thesis unfolding Inr p sum.case prod.case by (intro conjI A B C)
qed

definition sample_accepted :: db where
  "sample_accepted = (case acceptTrigger sample_env ''rc1'' ''run1'' sample_db sample_acceptance of
     Inl _ \<Rightarrow> empty_db | Inr (_, s) \<Rightarrow> s)"

lemma sample_accepted_ids: "sorted_wrt (<) (map out_id (db_outbox sample_accepted))"
  by code_simp


theorem ClaimNext_fifo_and_exclusive_witness:
  "\<exists>cmd s'. ClaimNext sample_env sample_accepted 5 = Inr ((1, cmd, 1), s') \<and>
     (\<forall>cmd' n' s''. ClaimNext sample_env s' 0 \<noteq> Inr ((1, cmd', n'), s''))"
proof -
  have r: "map (\<lambda>r. (out_id r, out_state r, out_available r, out_attempts r)) (db_outbox sample_accepted) = [(1, ''pending'', 5, 0)]"
    and now: "env_now sample_env = 5" by code_simp+
  then obtain r where r: "db_outbox sample_accepted = [r]" "out_id r = 1" "out_state r = ''pending''" "out_available r = 5"
    "out_attempts r = 0" by auto
  have "eligible [''start-run'', ''signal-run''] (5 - 5) 5 r" using r by (cases "out_command r") (simp_all add: eligible_def)
  then have c: "ClaimNext sample_env sample_accepted 5 = Inr ((1, out_command r, 1), lease 5 1 sample_accepted)"
    using r now by (simp add: ClaimNext_def claim_def oldest_def)
  have "\<not> ts_less 5 (5 - 0)" by (simp add: ts_less_def)
  then show ?thesis
    using ClaimNext_fifo_and_exclusive[OF sample_accepted_ids, of sample_env 5] c now by fastforce
qed

text \<open>The lease holds to within one second. A leased command can be claimed again only when its
  lease is older than the stale age less one second, and is eligible once it is older than
  the stale age plus one second and available for a second.\<close>

theorem lease_window:
  assumes "out_state r = ''inflight''" and "out_claimed r = Some c" and "command_type (out_command r) \<in> set types"
    and "d \<le> now"
  shows "(eligible types (now - d) now r \<longrightarrow> c + d < now + second) \<and>
    (c + d + second \<le> now \<and> out_available r + second \<le> now \<longrightarrow> eligible types (now - d) now r)"
proof (intro conjI impI)
  have pos: "0 < second" by (simp add: second_def)
  {
    assume "eligible types (now - d) now r"
    then have "c div second \<le> (now - d) div second" using assms by (auto simp: eligible_def ts_less_def)
    then have "c div second * second \<le> (now - d)"
      by (meson div_times_less_eq_dividend le_trans mult_le_mono1)
    moreover have "c < c div second * second + second"
      using pos by (metis add.commute dividend_less_div_times)
    ultimately show "c + d < now + second" using assms(4) by linarith
  }
  have sec: "ts_less a b" if "a + second \<le> b" for a b
  proof -
    have "a div second < (a + second) div second" using pos by (subst div_add_self2) auto
    also have "\<dots> \<le> b div second" using that by (rule div_le_mono)
    finally show ?thesis by (rule ts_less_seconds)
  qed
  assume "c + d + second \<le> now \<and> out_available r + second \<le> now"
  then have "ts_less (out_available r) now" "ts_less c (now - d)" using sec by auto
  then show "eligible types (now - d) now r" using assms by (auto simp: eligible_def ts_le_def ts_less_key)
qed

theorem lease_window_witness:
  "\<exists>r. out_claimed r = Some 0 \<and> eligible [''start-run''] (6 * second - 5 * second) (6 * second) r"
proof -
  let ?p = "\<lparr>sp_runUID = [], sp_receiptUID = [], sp_flowName = [], sp_namespace = [], sp_planHash = [],
    sp_input = JNull, sp_idempotencyKey = []\<rparr>"
  let ?r = "\<lparr>out_id = 1, out_command = StartCommand ?p, out_aggregate_uid = [], out_idempotency_key = [],
    out_state = ''inflight'', out_attempts = 1, out_available = 0, out_claimed = Some 0,
    out_completed = None, out_last_error = []\<rparr>"
  show ?thesis
    by (intro exI[of _ ?r])
      (use lease_window[of ?r 0 "[''start-run'']" "5 * second" "6 * second"] in \<open>simp add: second_def\<close>)
qed

text \<open>Within one second the stored texts do not order as the times do: a command leased half a
  second after the stale bound already counts as stale, and a command not available for another half
  second already counts as available.\<close>

theorem lease_text_order_is_not_time_order:
  "\<exists>r now d c. out_state r = ''inflight'' \<and> out_claimed r = Some c \<and> now < c + d \<and>
     eligible [''start-run''] (now - d) now r \<and> now < out_available r"
proof -
  let ?p = "\<lparr>sp_runUID = [], sp_receiptUID = [], sp_flowName = [], sp_namespace = [], sp_planHash = [],
    sp_input = JNull, sp_idempotencyKey = []\<rparr>"
  let ?r = "\<lparr>out_id = 1, out_command = StartCommand ?p, out_aggregate_uid = [], out_idempotency_key = [],
    out_state = ''inflight'', out_attempts = 1, out_available = 9500000000, out_claimed = Some 4500000000,
    out_completed = None, out_last_error = []\<rparr>"
  have "ts_less 4500000000 4000000000" "ts_less 9500000000 9000000000"
    by (rule ts_less_fraction; simp add: second_def)+
  then have "eligible [''start-run''] (9000000000 - 5000000000) 9000000000 ?r"
    by (simp add: eligible_def ts_le_def ts_less_key)
  then show ?thesis
    by (intro exI[of _ ?r] exI[of _ 9000000000] exI[of _ 5000000000] exI[of _ 4500000000]) simp
qed

end
