(* ===== verification/Store_Runs.thy ===== *)
theory Store_Runs
  imports Store_Outbox
begin

text \<open>
  The runtime half of \<open>internal/store/store.go\<close>: pinned plans and Runs, node attempts with
  at-least-once delivery, plugin events and artifacts as evidence, the run event log, cancellation
  intents and approvals.

  The invariant \<open>runs_inv\<close>: Run uids are unique, the events of each Run are numbered 1, 2, 3, ...
  without a gap, every attempt belongs to a Run, physical attempts of one node iteration
  are numbered without a gap and only the latest of a framework attempt can be incomplete, and a Run
  has a completion time exactly when its phase is terminal. The relation \<open>terminal_kept\<close>: no
  operation changes the phase or the completion time of a Run that ended.
\<close>

section \<open>Plans and Runs\<close>

definition PutPlan :: "store_env \<Rightarrow> db \<Rightarrow> execution_plan \<Rightarrow> db" where
  "PutPlan env s plan = insert_plan (env_now env) plan s"

definition GetPlan :: "db \<Rightarrow> string \<Rightarrow> (store_error, execution_plan) result" where
  "GetPlan s planHash = bind_res (or_fail ErrNotFound (find_plan s planHash)) (\<lambda>r. Inr (cp_plan r))"

definition insert_run :: "run_row \<Rightarrow> db \<Rightarrow> (store_error, db) result" where
  "insert_run r s =
     (if exists_row (\<lambda>x. run_uid x = run_uid r) (db_runs s) \<or>
         \<not> exists_row (\<lambda>p. cp_hash p = run_plan_hash r) (db_plans s)
      then Inl ErrConstraint else Inr (s\<lparr>db_runs := db_runs s @ [r]\<rparr>))"

definition insert_run_event :: "run_event_row \<Rightarrow> db \<Rightarrow> (store_error, db) result" where
  "insert_run_event e s =
     (if exists_row (\<lambda>x. re_run_uid x = re_run_uid e \<and> re_sequence x = re_sequence e) (db_run_events s) \<or>
         \<not> exists_row (\<lambda>x. run_uid x = re_run_uid e) (db_runs s)
      then Inl ErrConstraint else Inr (s\<lparr>db_run_events := db_run_events s @ [e]\<rparr>))"

definition EnsureRun :: "store_env \<Rightarrow> db \<Rightarrow> start_payload \<Rightarrow> execution_plan \<Rightarrow> (store_error, bool \<times> db) result" where
  "EnsureRun env s payload plan =
     (if exists_row (\<lambda>r. run_uid r = sp_runUID payload) (db_runs s) then Inr (False, s)
      else (let now = env_now env; s1 = insert_plan now plan s in
        bind_res (insert_run \<lparr>run_uid = sp_runUID payload, run_flow_uid = plan_flowUID plan,
                    run_receipt_uid = sp_receiptUID payload, run_plan_hash = plan_planHash plan,
                    run_interpreter = plan_interpreterVersion plan, run_phase = ''pending'',
                    run_input = sp_input payload, run_created = now, run_updated = now, run_completed = None\<rparr> s1) (\<lambda>s2.
        bind_res (insert_run_event \<lparr>re_run_uid = sp_runUID payload, re_sequence = 1, re_node_id = [], re_attempt = 0,
                    re_type = ''run.accepted'', re_payload = JObj [], re_occurred = now\<rparr> s2) (\<lambda>s3.
        Inr (True, s3)))))"

definition GetRun :: "db \<Rightarrow> string \<Rightarrow> (store_error, run_row) result" where
  "GetRun s uid = or_fail ErrNotFound (find_run s uid)"

definition CountActiveRunsExcluding :: "db \<Rightarrow> string \<Rightarrow> nat" where
  "CountActiveRunsExcluding s uid =
     length (filter (\<lambda>r. run_uid r \<noteq> uid \<and> \<not> terminalRunPhase (run_phase r)) (db_runs s))"

definition ListRunsFiltered :: "db \<Rightarrow> string \<Rightarrow> string \<Rightarrow> int \<Rightarrow> run_row list" where
  "ListRunsFiltered s flowUID phase limit = take (page_limit limit)
     (rev (sort_key (\<lambda>r. (ts_key (run_created r), run_uid r))
       (filter (\<lambda>r. (flowUID = [] \<or> run_flow_uid r = flowUID) \<and> (phase = [] \<or> run_phase r = phase)) (db_runs s))))"

definition ListRuns :: "db \<Rightarrow> int \<Rightarrow> run_row list" where
  "ListRuns s limit = ListRunsFiltered s [] [] limit"

section \<open>Run events\<close>

definition next_sequence :: "db \<Rightarrow> string \<Rightarrow> nat" where
  "next_sequence s runUID = Suc (max_column re_sequence (filter (\<lambda>e. re_run_uid e = runUID) (db_run_events s)))"

definition set_run_phase :: "string \<Rightarrow> string \<Rightarrow> time \<Rightarrow> db \<Rightarrow> db" where
  "set_run_phase runUID phase at s = s\<lparr>db_runs := update_rows (\<lambda>r. run_uid r = runUID)
     (\<lambda>r. r\<lparr>run_phase := phase, run_updated := at,
            run_completed := (if terminalRunPhase phase then Some at else run_completed r)\<rparr>) (db_runs s)\<rparr>"

definition appendRunEventTx ::
    "db \<Rightarrow> string \<Rightarrow> string \<Rightarrow> string \<Rightarrow> string \<Rightarrow> nat \<Rightarrow> json \<Rightarrow> time \<Rightarrow> (store_error, bool \<times> db) result" where
  "appendRunEventTx s runUID node eventType phase attempt payload occurredAt =
     bind_res (or_fail ErrNotFound (find_run s runUID)) (\<lambda>run.
     if terminalRunPhase (run_phase run) then Inr (False, s)
     else bind_res (insert_run_event \<lparr>re_run_uid = runUID, re_sequence = next_sequence s runUID, re_node_id = node,
                      re_attempt = attempt, re_type = eventType, re_payload = payload, re_occurred = occurredAt\<rparr> s) (\<lambda>s1.
          Inr (True, set_run_phase runUID phase occurredAt s1)))"

definition AppendRunEvent ::
    "store_env \<Rightarrow> db \<Rightarrow> string \<Rightarrow> string \<Rightarrow> string \<Rightarrow> string \<Rightarrow> nat \<Rightarrow> json option \<Rightarrow> (store_error, db) result" where
  "AppendRunEvent env s runUID node eventType phase attempt payload =
     bind_res (appendRunEventTx s runUID node eventType phase attempt
                 (case payload of None \<Rightarrow> JObj [] | Some p \<Rightarrow> p) (env_now env)) (\<lambda>(_, s'). Inr s')"

definition appendRunEvidenceTx ::
    "db \<Rightarrow> string \<Rightarrow> string \<Rightarrow> string \<Rightarrow> nat \<Rightarrow> json \<Rightarrow> time \<Rightarrow> (store_error, db) result" where
  "appendRunEvidenceTx s runUID node eventType attempt payload occurredAt =
     bind_res (or_fail ErrNotFound (find_run s runUID)) (\<lambda>run.
     bind_res (insert_run_event \<lparr>re_run_uid = runUID, re_sequence = next_sequence s runUID, re_node_id = node,
                 re_attempt = attempt, re_type = eventType, re_payload = payload, re_occurred = occurredAt\<rparr> s) (\<lambda>s1.
     Inr (if terminalRunPhase (run_phase run) then s1
          else s1\<lparr>db_runs := update_rows (\<lambda>r. run_uid r = runUID) (\<lambda>r. r\<lparr>run_updated := occurredAt\<rparr>) (db_runs s1)\<rparr>)))"

definition RunEventsAfter :: "db \<Rightarrow> string \<Rightarrow> nat \<Rightarrow> int \<Rightarrow> run_event_row list" where
  "RunEventsAfter s runUID after limit = take (page_limit limit)
     (sort_key re_sequence (filter (\<lambda>e. re_run_uid e = runUID \<and> re_sequence e > after) (db_run_events s)))"

section \<open>Node attempts\<close>

abbreviation att_at :: "string \<Rightarrow> string \<Rightarrow> nat \<Rightarrow> nat \<Rightarrow> attempt_row \<Rightarrow> bool" where
  "att_at run node it att a \<equiv> att_run_uid a = run \<and> att_node_id a = node \<and> att_iteration a = it \<and> att_attempt a = att"

definition NodeAttempt :: "db \<Rightarrow> string \<Rightarrow> string \<Rightarrow> nat \<Rightarrow> nat \<Rightarrow> (store_error, attempt_row) result" where
  "NodeAttempt s run node it att = or_fail ErrNotFound (select_row (att_at run node it att) (db_attempts s))"

definition nodeAttemptForFrameworkTx :: "db \<Rightarrow> string \<Rightarrow> string \<Rightarrow> nat \<Rightarrow> nat \<Rightarrow> attempt_row option" where
  "nodeAttemptForFrameworkTx s run node it fw =
     (case rev (sort_key att_attempt (filter (\<lambda>a. att_run_uid a = run \<and> att_node_id a = node \<and>
                  att_iteration a = it \<and> att_framework a = fw) (db_attempts s))) of
        [] \<Rightarrow> None | a # _ \<Rightarrow> Some a)"

definition lostMessage :: string where
  "lostMessage = ''activity delivery ended without a durable completion''"

definition mark_lost :: "db \<Rightarrow> string \<Rightarrow> string \<Rightarrow> nat \<Rightarrow> nat \<Rightarrow> time \<Rightarrow> (store_error, db) result" where
  "mark_lost s run node it att now =
     bind_res (appendRunEventTx
        (s\<lparr>db_attempts := update_rows (\<lambda>a. att_at run node it att a \<and> att_completed a = None)
           (\<lambda>a. a\<lparr>att_phase := ''failed'', att_error := lostMessage, att_exit := ''delivery-lost'',
                  att_completed := Some now\<rparr>) (db_attempts s)\<rparr>)
        run node ''node.failed'' ''running'' att
        (JObj [(''error'', JStr lostMessage), (''outcome'', JStr ''delivery-lost'')]) now) (\<lambda>(_, s'). Inr s')"

definition insert_attempt :: "attempt_row \<Rightarrow> db \<Rightarrow> (store_error, db) result" where
  "insert_attempt a s =
     (if exists_row (att_at (att_run_uid a) (att_node_id a) (att_iteration a) (att_attempt a)) (db_attempts s) \<or>
         \<not> exists_row (\<lambda>r. run_uid r = att_run_uid a) (db_runs s)
      then Inl ErrConstraint else Inr (s\<lparr>db_attempts := db_attempts s @ [a]\<rparr>))"

definition next_attempt :: "db \<Rightarrow> string \<Rightarrow> string \<Rightarrow> nat \<Rightarrow> nat" where
  "next_attempt s run node it = Suc (max_column att_attempt
     (filter (\<lambda>a. att_run_uid a = run \<and> att_node_id a = node \<and> att_iteration a = it) (db_attempts s)))"

definition max_uint32 :: nat where
  "max_uint32 = 4294967295"

text \<open>The part of \<open>BeginNodeAttempt\<close> behind the replay: \<open>lost\<close> is the attempt whose delivery ended.\<close>

definition begin_new ::
    "store_env \<Rightarrow> db \<Rightarrow> string \<Rightarrow> string \<Rightarrow> nat \<Rightarrow> nat \<Rightarrow> string \<Rightarrow> json option \<Rightarrow> nat option \<Rightarrow>
      (store_error, (attempt_row \<times> bool) \<times> db) result" where
  "begin_new env s run node it fw key input lost =
     (let now = env_now env in
      bind_res (or_fail ErrNotFound (find_run s run)) (\<lambda>r.
      bind_res (fail_if (terminalRunPhase (run_phase r)) (ErrText ''run is already terminal'')) (\<lambda>_.
      bind_res (case lost of None \<Rightarrow> Inr s | Some att \<Rightarrow> mark_lost s run node it att now) (\<lambda>s1.
      (let n = next_attempt s1 run node it;
           a = \<lparr>att_run_uid = run, att_node_id = node, att_iteration = it, att_attempt = n, att_framework = fw,
                att_phase = ''running'', att_key = key, att_input = (case input of None \<Rightarrow> JObj [] | Some v \<Rightarrow> v),
                att_output = None, att_error = [], att_exit = [], att_started = now, att_completed = None\<rparr> in
       bind_res (fail_if (n > max_uint32) (ErrText ''node attempt sequence is exhausted'')) (\<lambda>_.
       bind_res (insert_attempt a s1) (\<lambda>s2.
       bind_res (appendRunEventTx s2 run node ''node.started'' ''running'' n (JObj []) now) (\<lambda>(_, s3).
       Inr ((a, True), s3)))))))))"

definition BeginNodeAttempt ::
    "store_env \<Rightarrow> db \<Rightarrow> string \<Rightarrow> string \<Rightarrow> int \<Rightarrow> nat \<Rightarrow> string \<Rightarrow> json option \<Rightarrow>
      (store_error, (attempt_row \<times> bool) \<times> db) result" where
  "BeginNodeAttempt env s run node iter fw key input =
     bind_res (fail_if (iter < 0 \<or> fw = 0 \<or> key = []) (ErrText ''node attempt identity is incomplete'')) (\<lambda>_.
     (case nodeAttemptForFrameworkTx s run node (nat iter) fw of
        None \<Rightarrow> begin_new env s run node (nat iter) fw key input None
      | Some a \<Rightarrow> if att_completed a \<noteq> None then Inr ((a, False), s)
                  else begin_new env s run node (nat iter) fw key input (Some (att_attempt a))))"

definition CompleteNodeAttempt ::
    "store_env \<Rightarrow> db \<Rightarrow> string \<Rightarrow> string \<Rightarrow> nat \<Rightarrow> nat \<Rightarrow> string \<Rightarrow> json option \<Rightarrow> string \<Rightarrow> string \<Rightarrow>
      (store_error, attempt_row \<times> db) result" where
  "CompleteNodeAttempt env s run node it att phase output errorText exitOutcome =
     (let now = env_now env; out = (case output of None \<Rightarrow> JObj [] | Some v \<Rightarrow> v) in
      bind_res (fail_if (phase \<noteq> ''succeeded'' \<and> phase \<noteq> ''failed'' \<and> phase \<noteq> ''cancelled'')
                  (ErrText ''invalid node attempt phase'')) (\<lambda>_.
      bind_res (NodeAttempt s run node it att) (\<lambda>existing.
      if att_completed existing \<noteq> None then Inr (existing, s)
      else (let outcome = (if att_exit existing \<noteq> [] then att_exit existing else exitOutcome);
                s1 = s\<lparr>db_attempts := update_rows (\<lambda>a. att_at run node it att a \<and> att_completed a = None)
                   (\<lambda>a. a\<lparr>att_phase := phase, att_output := Some out, att_error := errorText,
                          att_exit := (if att_exit a = [] then exitOutcome else att_exit a), att_completed := Some now\<rparr>)
                   (db_attempts s)\<rparr> in
        bind_res (appendRunEventTx s1 run node (if phase = ''succeeded'' then ''node.completed'' else ''node.failed'')
                    ''running'' att
                    (if phase = ''succeeded'' then out
                     else JObj [(''error'', JStr errorText), (''outcome'', JStr outcome)]) now) (\<lambda>(_, s2).
        bind_res (NodeAttempt s2 run node it att) (\<lambda>a. Inr (a, s2)))))))"

definition SetNodeAttemptOutcome :: "db \<Rightarrow> string \<Rightarrow> string \<Rightarrow> nat \<Rightarrow> nat \<Rightarrow> string \<Rightarrow> db" where
  "SetNodeAttemptOutcome s run node it att outcome =
     (if outcome = [] then s
      else s\<lparr>db_attempts := update_rows (\<lambda>a. att_at run node it att a \<and> att_exit a = [])
        (\<lambda>a. a\<lparr>att_exit := outcome\<rparr>) (db_attempts s)\<rparr>)"

definition ListNodeAttempts :: "db \<Rightarrow> string \<Rightarrow> string \<Rightarrow> int \<Rightarrow> attempt_row list" where
  "ListNodeAttempts s run node limit = take (page_limit limit)
     (sort_key (\<lambda>a. (att_iteration a, att_attempt a, att_node_id a))
       (filter (\<lambda>a. att_run_uid a = run \<and> (node = [] \<or> att_node_id a = node)) (db_attempts s)))"

section \<open>Evidence\<close>

abbreviation pev_at :: "string \<Rightarrow> string \<Rightarrow> nat \<Rightarrow> nat \<Rightarrow> nat \<Rightarrow> plugin_event_row \<Rightarrow> bool" where
  "pev_at run node it att n e \<equiv> pev_run_uid e = run \<and> pev_node_id e = node \<and> pev_iteration e = it \<and>
     pev_attempt e = att \<and> pev_sequence e = n"

definition AppendPluginEvent ::
    "store_env \<Rightarrow> db \<Rightarrow> string \<Rightarrow> string \<Rightarrow> nat \<Rightarrow> nat \<Rightarrow> nat \<Rightarrow> string \<Rightarrow> json option \<Rightarrow> time \<Rightarrow> (store_error, db) result" where
  "AppendPluginEvent env s run node it att n eventType payload occurredAt =
     bind_res (fail_if (n = 0 \<or> eventType = []) (ErrText ''plugin event is incomplete'')) (\<lambda>_.
     bind_res (or_fail (ErrText ''plugin event is incomplete'') payload) (\<lambda>p.
     (case select_row (pev_at run node it att n) (db_plugin_events s) of
        Some e \<Rightarrow> bind_res (fail_if (pev_type e \<noteq> eventType \<or> pev_occurred e \<noteq> occurredAt \<or> pev_payload e \<noteq> p)
                   (ErrText ''plugin event sequence conflicts with durable evidence'')) (\<lambda>_. Inr s)
      | None \<Rightarrow>
          bind_res (fail_if (\<not> exists_row (att_at run node it att) (db_attempts s)) ErrConstraint) (\<lambda>_.
          appendRunEvidenceTx
            (s\<lparr>db_plugin_events := db_plugin_events s @ [\<lparr>pev_run_uid = run, pev_node_id = node, pev_iteration = it,
                pev_attempt = att, pev_sequence = n, pev_type = eventType, pev_payload = p, pev_occurred = occurredAt\<rparr>]\<rparr>)
            run node (''plugin.'' @ eventType) att
            (JObj [(''occurredAt'', JStr (rfc3339_text occurredAt)), (''payload'', p), (''sequence'', JInt (int n))])
            (env_now env)))))"

abbreviation art_at :: "string \<Rightarrow> string \<Rightarrow> nat \<Rightarrow> nat \<Rightarrow> string \<Rightarrow> artifact_row \<Rightarrow> bool" where
  "art_at run node it att name a \<equiv> art_run_uid a = run \<and> art_node_id a = node \<and> art_iteration a = it \<and>
     art_attempt a = att \<and> art_name a = name"

definition Artifact :: "db \<Rightarrow> string \<Rightarrow> string \<Rightarrow> nat \<Rightarrow> nat \<Rightarrow> string \<Rightarrow> (store_error, artifact_row) result" where
  "Artifact s run node it att name = or_fail ErrNotFound (select_row (art_at run node it att name) (db_artifacts s))"

definition ArtifactByUID :: "db \<Rightarrow> string \<Rightarrow> (store_error, artifact_row) result" where
  "ArtifactByUID s uid = or_fail ErrNotFound (select_row (\<lambda>a. art_uid a = uid) (db_artifacts s))"

definition ListArtifacts :: "db \<Rightarrow> string \<Rightarrow> int \<Rightarrow> artifact_row list" where
  "ListArtifacts s run limit = take (page_limit limit)
     (sort_key (\<lambda>a. (art_iteration a, art_attempt a, art_node_id a, art_name a))
       (filter (\<lambda>a. art_run_uid a = run) (db_artifacts s)))"

definition artifact_path_ok :: "string \<Rightarrow> bool" where
  "artifact_path_ok p \<longleftrightarrow> \<not> is_abs p \<and> p \<noteq> ''.'' \<and> p \<noteq> ''..'' \<and> \<not> has_prefix p ''../''"

definition write_artifact :: "artifact_row \<Rightarrow> db \<Rightarrow> (store_error, db) result" where
  "write_artifact a s =
     (if exists_row (art_at (art_run_uid a) (art_node_id a) (art_iteration a) (art_attempt a) (art_name a)) (db_artifacts s)
      then Inr (s\<lparr>db_artifacts := update_rows
             (art_at (art_run_uid a) (art_node_id a) (art_iteration a) (art_attempt a) (art_name a))
             (\<lambda>x. x\<lparr>art_media_type := art_media_type a, art_relative_path := art_relative_path a,
                    art_size := art_size a, art_sha256 := art_sha256 a, art_updated := art_updated a\<rparr>) (db_artifacts s)\<rparr>)
      else if exists_row (\<lambda>x. art_uid x = art_uid a) (db_artifacts s) then Inl ErrConstraint
      else Inr (s\<lparr>db_artifacts := db_artifacts s @ [a]\<rparr>))"

definition PutArtifact ::
    "store_env \<Rightarrow> string \<Rightarrow> db \<Rightarrow> artifact_row \<Rightarrow> (store_error, artifact_row \<times> db) result" where
  "PutArtifact env uuid s a0 =
     bind_res (fail_if (art_run_uid a0 = [] \<or> art_node_id a0 = [] \<or> art_attempt a0 = 0 \<or> art_name a0 = [] \<or>
                 art_relative_path a0 = [] \<or> art_size a0 < 0) (ErrText ''artifact metadata is incomplete'')) (\<lambda>_.
     bind_res (fail_if (\<not> list_all is_hex (art_sha256 a0) \<or> length (art_sha256 a0) \<noteq> 64)
                 (ErrText ''artifact sha256 is invalid'')) (\<lambda>_.
     (let path = filepath_clean (art_relative_path a0) in
      bind_res (fail_if (\<not> artifact_path_ok path) (ErrText ''artifact path escapes the state directory'')) (\<lambda>_.
      (let a1 = a0\<lparr>art_relative_path := path, art_uid := valueOr (art_uid a0) uuid,
                   art_media_type := valueOr (art_media_type a0) ''application/octet-stream'',
                   art_created := env_now env, art_updated := env_now env\<rparr> in
       bind_res (NodeAttempt s (art_run_uid a0) (art_node_id a0) (art_iteration a0) (art_attempt a0)) (\<lambda>att.
       (case Artifact s (art_run_uid a0) (art_node_id a0) (art_iteration a0) (art_attempt a0) (art_name a0) of
          Inr e \<Rightarrow>
            if att_completed att \<noteq> None
            then bind_res (fail_if (art_media_type e \<noteq> art_media_type a1 \<or> art_relative_path e \<noteq> path \<or>
                             art_size e \<noteq> art_size a1 \<or> art_sha256 e \<noteq> art_sha256 a1)
                   (ErrText ''completed attempt artifact differs from durable metadata'')) (\<lambda>_. Inr (e, s))
            else bind_res (write_artifact (a1\<lparr>art_uid := art_uid e\<rparr>) s) (\<lambda>s1.
              bind_res (Artifact s1 (art_run_uid a0) (art_node_id a0) (art_iteration a0) (art_attempt a0) (art_name a0)) (\<lambda>r. Inr (r, s1)))
        | Inl _ \<Rightarrow> bind_res (write_artifact a1 s) (\<lambda>s1.
              bind_res (Artifact s1 (art_run_uid a0) (art_node_id a0) (art_iteration a0) (art_attempt a0) (art_name a0)) (\<lambda>r. Inr (r, s1))))))))))"

section \<open>Cancellation\<close>

definition RequestRunCancellation :: "store_env \<Rightarrow> db \<Rightarrow> string \<Rightarrow> string \<Rightarrow> (store_error, db) result" where
  "RequestRunCancellation env s runUID reason =
     (let now = env_now env in
      bind_res (or_fail ErrNotFound (find_run s runUID)) (\<lambda>run.
      if run_phase run \<noteq> ''cancelled'' \<and> terminalRunPhase (run_phase run) then Inr s
      else if exists_row (\<lambda>c. can_run_uid c = runUID) (db_cancellations s) then Inr s
      else bind_res (insert_run_event \<lparr>re_run_uid = runUID, re_sequence = next_sequence s runUID, re_node_id = [],
                       re_attempt = 0, re_type = ''run.cancelled'', re_payload = JObj [(''reason'', JStr reason)],
                       re_occurred = now\<rparr>
                (s\<lparr>db_cancellations := db_cancellations s @ [\<lparr>can_run_uid = runUID, can_reason = reason,
                    can_delivered = False, can_requested = now, can_delivered_at = None\<rparr>]\<rparr>)) (\<lambda>s1.
           Inr (s1\<lparr>db_runs := update_rows (\<lambda>r. run_uid r = runUID)
             (\<lambda>r. r\<lparr>run_phase := ''cancelled'', run_updated := now,
                    run_completed := (case run_completed r of None \<Rightarrow> Some now | Some t \<Rightarrow> Some t)\<rparr>) (db_runs s1)\<rparr>))))"

definition UndeliveredRunCancellations :: "db \<Rightarrow> int \<Rightarrow> (string \<times> string) list" where
  "UndeliveredRunCancellations s limit = map (\<lambda>c. (can_run_uid c, can_reason c)) (take (page_limit limit)
     (sort_key (\<lambda>c. (ts_key (can_requested c), can_run_uid c)) (filter (\<lambda>c. \<not> can_delivered c) (db_cancellations s))))"

definition mark_delivered :: "time \<Rightarrow> cancellation_row \<Rightarrow> cancellation_row" where
  "mark_delivered now c = c\<lparr>can_delivered := True, can_delivered_at := Some now\<rparr>"

definition MarkRunCancellationDelivered :: "store_env \<Rightarrow> db \<Rightarrow> string \<Rightarrow> db" where
  "MarkRunCancellationDelivered env s runUID = s\<lparr>db_cancellations :=
     update_rows (\<lambda>c. can_run_uid c = runUID) (mark_delivered (env_now env)) (db_cancellations s)\<rparr>"

definition start_open :: "db \<Rightarrow> string \<Rightarrow> bool" where
  "start_open s runUID \<longleftrightarrow> exists_row (\<lambda>r. command_type (out_command r) = ''start-run'' \<and>
     out_aggregate_uid r = runUID \<and> out_state r \<noteq> ''completed'') (db_outbox s)"

definition MarkRunCancellationDeliveredIfStartImpossible :: "store_env \<Rightarrow> db \<Rightarrow> string \<Rightarrow> bool \<times> db" where
  "MarkRunCancellationDeliveredIfStartImpossible env s runUID =
     (let P = (\<lambda>c. can_run_uid c = runUID \<and> \<not> can_delivered c \<and> \<not> start_open s runUID)
      in (rows_affected P (db_cancellations s) = 1,
          s\<lparr>db_cancellations := update_rows P (mark_delivered (env_now env)) (db_cancellations s)\<rparr>))"

section \<open>Approvals\<close>

definition EnsureApproval :: "db \<Rightarrow> string \<Rightarrow> string \<Rightarrow> time option \<Rightarrow> (store_error, db) result" where
  "EnsureApproval s runUID node expiresAt =
     (if exists_row (\<lambda>a. app_run_uid a = runUID \<and> app_node_id a = node) (db_approvals s) then Inr s
      else if \<not> exists_row (\<lambda>r. run_uid r = runUID) (db_runs s) then Inl ErrConstraint
      else Inr (s\<lparr>db_approvals := db_approvals s @ [\<lparr>app_run_uid = runUID, app_node_id = node, app_state = ''pending'',
        app_actor = [], app_reason = [], app_expires = expiresAt, app_decided = None, app_signal_delivered = False\<rparr>]\<rparr>))"

definition DecideApproval ::
    "store_env \<Rightarrow> db \<Rightarrow> string \<Rightarrow> string \<Rightarrow> string \<Rightarrow> string \<Rightarrow> string \<Rightarrow> (store_error, db) result" where
  "DecideApproval env s runUID node state actor reason =
     (let P = (\<lambda>a. app_run_uid a = runUID \<and> app_node_id a = node \<and> app_state a = ''pending'') in
      bind_res (fail_if (state \<noteq> ''approved'' \<and> state \<noteq> ''rejected'') (ErrText ''invalid approval state'')) (\<lambda>_.
      bind_res (fail_if (rows_affected P (db_approvals s) = 0) (ErrText ''approval is missing or already decided'')) (\<lambda>_.
      Inr (s\<lparr>db_approvals := update_rows P (\<lambda>a. a\<lparr>app_state := state, app_actor := actor, app_reason := reason,
        app_decided := Some (env_now env), app_signal_delivered := False\<rparr>) (db_approvals s)\<rparr>))))"

definition UndeliveredApprovalSignals :: "db \<Rightarrow> int \<Rightarrow> (string \<times> string \<times> string \<times> string) list" where
  "UndeliveredApprovalSignals s limit =
     map (\<lambda>a. (app_run_uid a, app_node_id a, app_state a, app_reason a)) (take (page_limit limit)
       (sort_key (\<lambda>a. (case app_decided a of None \<Rightarrow> (0, []) | Some t \<Rightarrow> ts_key t))
         (filter (\<lambda>a. app_state a \<noteq> ''pending'' \<and> \<not> app_signal_delivered a) (db_approvals s))))"

definition MarkApprovalSignaled :: "db \<Rightarrow> string \<Rightarrow> string \<Rightarrow> db" where
  "MarkApprovalSignaled s runUID node = s\<lparr>db_approvals :=
     update_rows (\<lambda>a. app_run_uid a = runUID \<and> app_node_id a = node \<and> app_state a \<noteq> ''pending'')
       (\<lambda>a. a\<lparr>app_signal_delivered := True\<rparr>) (db_approvals s)\<rparr>"

definition ApprovalState :: "db \<Rightarrow> string \<Rightarrow> string \<Rightarrow> (store_error, string) result" where
  "ApprovalState s runUID node = bind_res (or_fail ErrNotFound
     (select_row (\<lambda>a. app_run_uid a = runUID \<and> app_node_id a = node) (db_approvals s))) (\<lambda>a. Inr (app_state a))"

section \<open>The invariant\<close>

definition events_of :: "db \<Rightarrow> string \<Rightarrow> run_event_row list" where
  "events_of s run = filter (\<lambda>e. re_run_uid e = run) (db_run_events s)"

definition attempts_of :: "db \<Rightarrow> string \<Rightarrow> string \<Rightarrow> nat \<Rightarrow> attempt_row list" where
  "attempts_of s run node it = filter (\<lambda>a. att_run_uid a = run \<and> att_node_id a = node \<and> att_iteration a = it) (db_attempts s)"

definition has_run :: "db \<Rightarrow> string \<Rightarrow> bool" where
  "has_run s uid \<longleftrightarrow> uid \<in> run_uid ` set (db_runs s)"

definition gapless :: "nat list \<Rightarrow> bool" where
  "gapless ns \<longleftrightarrow> ns = [1..<Suc (length ns)]"

definition same_delivery :: "attempt_row \<Rightarrow> attempt_row \<Rightarrow> bool" where
  "same_delivery a b \<longleftrightarrow> att_run_uid a = att_run_uid b \<and> att_node_id a = att_node_id b \<and>
     att_iteration a = att_iteration b \<and> att_framework a = att_framework b"

definition runs_ok :: "db \<Rightarrow> bool" where
  "runs_ok s \<longleftrightarrow> distinct (map run_uid (db_runs s)) \<and>
     (\<forall>r \<in> set (db_runs s). run_completed r \<noteq> None \<longleftrightarrow> terminalRunPhase (run_phase r))"

definition events_ok :: "db \<Rightarrow> bool" where
  "events_ok s \<longleftrightarrow> (\<forall>run. gapless (map re_sequence (events_of s run))) \<and>
     (\<forall>e \<in> set (db_run_events s). has_run s (re_run_uid e))"

definition attempts_ok :: "db \<Rightarrow> bool" where
  "attempts_ok s \<longleftrightarrow> (\<forall>run node it. gapless (map att_attempt (attempts_of s run node it))) \<and>
     (\<forall>a \<in> set (db_attempts s). has_run s (att_run_uid a) \<and> (att_completed a = None \<longleftrightarrow> att_phase a = ''running'')) \<and>
     (\<forall>a \<in> set (db_attempts s). \<forall>b \<in> set (db_attempts s).
        same_delivery a b \<and> att_attempt a < att_attempt b \<longrightarrow> att_completed a \<noteq> None)"

definition runs_inv :: "db \<Rightarrow> bool" where
  "runs_inv s \<longleftrightarrow> runs_ok s \<and> events_ok s \<and> attempts_ok s"

lemma max_column_upt: "max_column id [1..<Suc n] = n"
  by (induction n) auto

lemma max_column_gapless: "gapless (map f xs) \<Longrightarrow> max_column f xs = length xs"
  by (metis gapless_def length_map max_column_map max_column_upt)

lemma gapless_Nil [simp]: "gapless []"
  by (simp add: gapless_def)

lemma gapless_one [simp]: "gapless [Suc 0]"
  by (simp add: gapless_def)

lemma gapless_snoc: "gapless ns \<Longrightarrow> gapless (ns @ [Suc (length ns)])"
  by (simp add: gapless_def)

lemma gapless_distinct: "gapless ns \<Longrightarrow> distinct ns"
  by (metis distinct_upt gapless_def)

lemma find_run_has_run: "find_run s run = Some r \<Longrightarrow> has_run s run"
  by (auto simp: has_run_def dest: find_run_SomeD)

lemma has_run_exists: "has_run s run \<longleftrightarrow> exists_row (\<lambda>r. run_uid r = run) (db_runs s)"
  by (auto simp: has_run_def exists_row_iff)

lemma has_run_find: "has_run s run \<Longrightarrow> \<exists>r. find_run s run = Some r"
  by (cases "find_run s run") (auto simp: has_run_def find_run_def select_row_None)

text \<open>A numbered append always finds its number free.\<close>

lemma insert_next_event:
  assumes "events_ok s" and "has_run s run" and "re_run_uid e = run" and "re_sequence e = next_sequence s run"
  shows "insert_run_event e s = Inr (s\<lparr>db_run_events := db_run_events s @ [e]\<rparr>)"
    and "events_ok (s\<lparr>db_run_events := db_run_events s @ [e]\<rparr>)"
proof -
  have g: "gapless (map re_sequence (events_of s run))" using assms by (simp add: events_ok_def)
  then have n: "next_sequence s run = Suc (length (events_of s run))"
    using max_column_gapless[of re_sequence "events_of s run"] by (simp add: next_sequence_def events_of_def)
  have "x \<in> set (db_run_events s) \<Longrightarrow> re_run_uid x = run \<Longrightarrow> re_sequence x \<noteq> next_sequence s run" for x
    using max_column_fresh[of x "filter (\<lambda>e. re_run_uid e = run) (db_run_events s)" re_sequence] by (simp add: next_sequence_def)
  then show "insert_run_event e s = Inr (s\<lparr>db_run_events := db_run_events s @ [e]\<rparr>)"
    using assms by (auto simp: insert_run_event_def exists_row_iff has_run_def)
  show "events_ok (s\<lparr>db_run_events := db_run_events s @ [e]\<rparr>)"
    using assms g n gapless_snoc[OF g] by (auto simp: events_ok_def events_of_def has_run_def)
qed

lemma set_update_uid:
  assumes "\<And>r. run_uid (f r) = run_uid r" and "db_runs s' = update_rows P f (db_runs s)"
  shows "map run_uid (db_runs s') = map run_uid (db_runs s)" and "has_run s' = has_run s"
proof -
  show m: "map run_uid (db_runs s') = map run_uid (db_runs s)" using assms by (simp add: map_update_rows)
  have "run_uid ` set (db_runs s') = run_uid ` set (db_runs s)" by (metis m set_map)
  then show "has_run s' = has_run s" by (intro ext) (simp add: has_run_def)
qed

text \<open>What no operation on Runs undoes.\<close>

definition history_kept :: "db \<Rightarrow> db \<Rightarrow> bool" where
  "history_kept s s' \<longleftrightarrow>
     (\<forall>r \<in> set (db_runs s). \<exists>r' \<in> set (db_runs s'). run_uid r' = run_uid r \<and> run_plan_hash r' = run_plan_hash r \<and>
        (terminalRunPhase (run_phase r) \<longrightarrow> run_phase r' = run_phase r \<and> run_completed r' = run_completed r)) \<and>
     (\<exists>es. db_run_events s' = db_run_events s @ es) \<and>
     (\<forall>a \<in> set (db_attempts s). att_completed a \<noteq> None \<longrightarrow> (\<exists>a' \<in> set (db_attempts s').
        a'\<lparr>att_exit := att_exit a\<rparr> = a \<and> (att_exit a \<noteq> [] \<longrightarrow> att_exit a' = att_exit a)))"

lemma history_refl [simp]: "history_kept s s"
  unfolding history_kept_def by (intro conjI ballI impI exI[of _ "[]"] bexI) auto

lemma history_trans:
  assumes "history_kept s t" and "history_kept t u"
  shows "history_kept s u"
  unfolding history_kept_def
proof (intro conjI ballI impI)
  fix r assume "r \<in> set (db_runs s)"
  then obtain r' where r': "r' \<in> set (db_runs t)" "run_uid r' = run_uid r" "run_plan_hash r' = run_plan_hash r"
    "terminalRunPhase (run_phase r) \<longrightarrow> run_phase r' = run_phase r \<and> run_completed r' = run_completed r"
    using assms(1) unfolding history_kept_def by blast
  then obtain r'' where "r'' \<in> set (db_runs u)" "run_uid r'' = run_uid r'" "run_plan_hash r'' = run_plan_hash r'"
    "terminalRunPhase (run_phase r') \<longrightarrow> run_phase r'' = run_phase r' \<and> run_completed r'' = run_completed r'"
    using assms(2) unfolding history_kept_def by blast
  with r' show "\<exists>r' \<in> set (db_runs u). run_uid r' = run_uid r \<and> run_plan_hash r' = run_plan_hash r \<and>
        (terminalRunPhase (run_phase r) \<longrightarrow> run_phase r' = run_phase r \<and> run_completed r' = run_completed r)"
    by (intro bexI[of _ r'']) auto
next
  show "\<exists>es. db_run_events u = db_run_events s @ es" using assms by (auto simp: history_kept_def)
next
  fix a assume a: "a \<in> set (db_attempts s)" "att_completed a \<noteq> None"
  then obtain a' where a': "a' \<in> set (db_attempts t)" "a'\<lparr>att_exit := att_exit a\<rparr> = a"
    "att_exit a \<noteq> [] \<longrightarrow> att_exit a' = att_exit a"
    using assms(1) unfolding history_kept_def by blast
  have "att_completed a' = att_completed a" by (subst a'(2)[symmetric]) simp
  then obtain a'' where a'': "a'' \<in> set (db_attempts u)" "a''\<lparr>att_exit := att_exit a'\<rparr> = a'"
    "att_exit a' \<noteq> [] \<longrightarrow> att_exit a'' = att_exit a'"
    using assms(2) a'(1) a(2) unfolding history_kept_def by metis
  have "a''\<lparr>att_exit := att_exit a\<rparr> = a" using a'(2) a''(2) by (metis attempt_row.update_convs(11) attempt_row.surjective)
  with a' a'' show "\<exists>a' \<in> set (db_attempts u). a'\<lparr>att_exit := att_exit a\<rparr> = a \<and> (att_exit a \<noteq> [] \<longrightarrow> att_exit a' = att_exit a)"
    by (intro bexI[of _ a'']) auto
qed


lemma attempt_self:
  "a \<in> A \<Longrightarrow> \<exists>a' \<in> A. a'\<lparr>att_exit := att_exit a\<rparr> = a \<and> (att_exit a \<noteq> [] \<longrightarrow> att_exit a' = att_exit a)"
  by (rule bexI[of _ a]) auto

lemma attempts_ok_cong:
  "db_attempts s' = db_attempts s \<Longrightarrow> has_run s' = has_run s \<Longrightarrow> attempts_ok s' = attempts_ok s"
  unfolding attempts_ok_def attempts_of_def by (simp only:)

lemma attempts_ok_mono:
  assumes "attempts_ok s" and "db_attempts s' = db_attempts s" and "\<And>u. has_run s u \<Longrightarrow> has_run s' u"
  shows "attempts_ok s'"
  using assms(1,3) unfolding attempts_ok_def attempts_of_def assms(2) by blast

lemma event_run_step:
  assumes inv: "runs_inv s" and run: "has_run s run" and e: "re_run_uid e = run" "re_sequence e = next_sequence s run"
    and s': "db_run_events s' = db_run_events s @ [e]" "db_runs s' = update_rows (\<lambda>r. run_uid r = run) f (db_runs s)"
      "db_attempts s' = db_attempts s"
    and f: "\<And>r. run_uid (f r) = run_uid r" "\<And>r. run_plan_hash (f r) = run_plan_hash r"
      "\<And>r. r \<in> set (db_runs s) \<Longrightarrow> run_uid r = run \<Longrightarrow> run_completed (f r) \<noteq> None \<longleftrightarrow> terminalRunPhase (run_phase (f r))"
      "\<And>r. r \<in> set (db_runs s) \<Longrightarrow> run_uid r = run \<Longrightarrow> terminalRunPhase (run_phase r) \<Longrightarrow>
         run_phase (f r) = run_phase r \<and> run_completed (f r) = run_completed r"
  shows "runs_inv s'" and "history_kept s s'"
proof -
  note u = set_update_uid[OF f(1) s'(2)]
  have ev: "events_ok (s\<lparr>db_run_events := db_run_events s @ [e]\<rparr>)"
    by (rule insert_next_event(2)[OF _ run e]) (use inv in \<open>simp add: runs_inv_def\<close>)
  then have "events_ok s'" using u s' by (simp add: events_ok_def events_of_def has_run_def)
  moreover have "runs_ok s'"
    using inv f(3) u(1) unfolding runs_inv_def runs_ok_def s'(2) set_update_rows by auto
  moreover have "attempts_ok s'"
    using inv attempts_ok_cong[OF s'(3) u(2)] by (simp add: runs_inv_def)
  ultimately show "runs_inv s'" by (simp add: runs_inv_def)
  show "history_kept s s'"
    unfolding history_kept_def
  proof (intro conjI ballI impI)
    fix r assume r: "r \<in> set (db_runs s)"
    let ?r' = "if run_uid r = run then f r else r"
    have "?r' \<in> set (db_runs s')" using r by (auto simp: s'(2) set_update_rows)
    then show "\<exists>r' \<in> set (db_runs s'). run_uid r' = run_uid r \<and> run_plan_hash r' = run_plan_hash r \<and>
        (terminalRunPhase (run_phase r) \<longrightarrow> run_phase r' = run_phase r \<and> run_completed r' = run_completed r)"
      by (rule bexI[rotated]) (use f r in auto)
  qed (use attempt_self in \<open>auto simp: s'\<close>)
qed

lemma attempts_step:
  assumes inv: "runs_inv s" and fr: "db_runs s' = db_runs s" "db_run_events s' = db_run_events s"
    and at: "attempts_ok s'"
    and keep: "\<And>a. a \<in> set (db_attempts s) \<Longrightarrow> att_completed a \<noteq> None \<Longrightarrow> \<exists>a' \<in> set (db_attempts s').
        a'\<lparr>att_exit := att_exit a\<rparr> = a \<and> (att_exit a \<noteq> [] \<longrightarrow> att_exit a' = att_exit a)"
  shows "runs_inv s'" and "history_kept s s'"
proof -
  have "has_run s' = has_run s" by (intro ext) (simp add: has_run_def fr)
  then show "runs_inv s'"
    using inv at fr by (simp add: runs_inv_def runs_ok_def events_ok_def events_of_def)
  show "history_kept s s'"
    unfolding history_kept_def using keep by (auto simp: fr)
qed

lemma runs_frame:
  assumes "runs_inv s" and "db_runs s' = db_runs s" "db_run_events s' = db_run_events s" "db_attempts s' = db_attempts s"
  shows "runs_inv s'" and "history_kept s s'"
proof -
  have "has_run s' = has_run s" by (intro ext) (simp add: has_run_def assms)
  then have "attempts_ok s'" using assms attempts_ok_cong[of s' s] by (simp add: runs_inv_def)
  then show "runs_inv s'" "history_kept s s'"
    by (rule attempts_step[OF assms(1-3)]; use assms(4) attempt_self in auto)+
qed

lemma appendRunEventTx_Inr:
  assumes inv: "runs_inv s" and ok: "appendRunEventTx s run node et ph att pl t = Inr (b, s')"
  shows "runs_inv s'" "history_kept s s'" "db_attempts s' = db_attempts s" "has_run s' = has_run s"
    "b = (case find_run s run of None \<Rightarrow> False | Some r \<Rightarrow> \<not> terminalRunPhase (run_phase r))" "\<not> b \<Longrightarrow> s' = s"
proof -
  obtain r where r: "find_run s run = Some r" using ok by (auto simp: appendRunEventTx_def)
  have "runs_inv s' \<and> history_kept s s' \<and> db_attempts s' = db_attempts s \<and> has_run s' = has_run s \<and>
    b = (\<not> terminalRunPhase (run_phase r)) \<and> (\<not> b \<longrightarrow> s' = s)"
  proof (cases "terminalRunPhase (run_phase r)")
    case True
    then show ?thesis using ok r inv by (simp add: appendRunEventTx_def)
  next
    case False
    define e where "e = \<lparr>re_run_uid = run, re_sequence = next_sequence s run, re_node_id = node,
                      re_attempt = att, re_type = et, re_payload = pl, re_occurred = t\<rparr>"
    have hr: "has_run s run" by (rule find_run_has_run[OF r])
    have ev: "insert_run_event e s = Inr (s\<lparr>db_run_events := db_run_events s @ [e]\<rparr>)"
      by (rule insert_next_event(1)[OF _ hr]) (use inv in \<open>simp_all add: runs_inv_def e_def\<close>)
    have s': "s' = set_run_phase run ph t (s\<lparr>db_run_events := db_run_events s @ [e]\<rparr>)" "b"
      using ok r False ev by (auto simp: appendRunEventTx_def e_def)
    have uniq: "x = r" if "x \<in> set (db_runs s)" "run_uid x = run" for x
      using that inv find_run_SomeD[OF r] by (auto simp: runs_inv_def runs_ok_def distinct_map inj_on_def)
    have rc: "run_completed r = None" using inv False find_run_SomeD[OF r] by (auto simp: runs_inv_def runs_ok_def)
    have "runs_inv s'" "history_kept s s'"
      by (rule event_run_step[OF inv hr, of e s' "\<lambda>r. r\<lparr>run_phase := ph, run_updated := t,
            run_completed := (if terminalRunPhase ph then Some t else run_completed r)\<rparr>"];
          use uniq rc False in \<open>auto simp: e_def s' set_run_phase_def\<close>)+
    moreover have "has_run s' = has_run s"
      by (rule set_update_uid(2)[where P = "\<lambda>r. run_uid r = run"]) (simp_all add: s' set_run_phase_def)
    ultimately show ?thesis using s' False by (simp add: set_run_phase_def)
  qed
  then show "runs_inv s'" "history_kept s s'" "db_attempts s' = db_attempts s" "has_run s' = has_run s"
    "b = (case find_run s run of None \<Rightarrow> False | Some r \<Rightarrow> \<not> terminalRunPhase (run_phase r))" "\<not> b \<Longrightarrow> s' = s"
    using r by auto
qed

lemma appendRunEventTx_succeeds:
  assumes "events_ok s" and "has_run s run"
  shows "\<exists>b s'. appendRunEventTx s run node et ph att pl t = Inr (b, s')"
proof -
  obtain r where r: "find_run s run = Some r"
    using has_run_find[OF assms(2)] by blast
  show ?thesis
    using r insert_next_event(1)[OF assms] by (simp add: appendRunEventTx_def) blast
qed


lemma attempts_of_update:
  assumes "\<And>a. att_run_uid (f a) = att_run_uid a" "\<And>a. att_node_id (f a) = att_node_id a"
    "\<And>a. att_iteration (f a) = att_iteration a" "\<And>a. att_attempt (f a) = att_attempt a"
    and "db_attempts s' = update_rows P f (db_attempts s)"
  shows "map att_attempt (attempts_of s' run node it) = map att_attempt (attempts_of s run node it)"
  unfolding attempts_of_def assms(5) using assms(1-4)
  by (induction "db_attempts s") (auto simp: update_rows_def filter_map comp_def)

text \<open>Closing incomplete attempts, or filling in an outcome, keeps the attempt table in order.\<close>

lemma attempts_ok_update:
  assumes ok: "attempts_ok s"
    and f: "\<And>a. att_run_uid (f a) = att_run_uid a" "\<And>a. att_node_id (f a) = att_node_id a"
      "\<And>a. att_iteration (f a) = att_iteration a" "\<And>a. att_attempt (f a) = att_attempt a"
      "\<And>a. att_framework (f a) = att_framework a"
      "\<And>a. P a \<Longrightarrow> att_completed a = None \<longleftrightarrow> att_phase a = ''running'' \<Longrightarrow> att_completed (f a) = None \<longleftrightarrow> att_phase (f a) = ''running''"
      "\<And>a. P a \<Longrightarrow> att_completed a \<noteq> None \<Longrightarrow> att_completed (f a) \<noteq> None"
    and s': "db_attempts s' = update_rows P f (db_attempts s)" and hr: "has_run s' = has_run s"
  shows "attempts_ok s'"
proof -
  have g: "gapless (map att_attempt (attempts_of s' run node it))" for run node it
    using ok attempts_of_update[OF f(1-4) s'] by (simp add: attempts_ok_def)
  have b: "has_run s' (att_run_uid a) \<and> (att_completed a = None \<longleftrightarrow> att_phase a = ''running'')" if a': "a \<in> set (db_attempts s')" for a
  proof -
    obtain x where x: "x \<in> set (db_attempts s)" "a = (if P x then f x else x)" using a' unfolding s' by (rule update_rowsE)
    then show ?thesis using ok f(1,6) hr by (auto simp: attempts_ok_def)
  qed
  have c: "att_completed a \<noteq> None" if ab: "a \<in> set (db_attempts s')" "c \<in> set (db_attempts s')" "same_delivery a c" "att_attempt a < att_attempt c" for a c
  proof -
    obtain x y where x: "x \<in> set (db_attempts s)" "a = (if P x then f x else x)" "y \<in> set (db_attempts s)" "c = (if P y then f y else y)"
      using ab(1,2) unfolding s' by (elim update_rowsE)
    then have "same_delivery x y" "att_attempt x < att_attempt y" using ab(3,4) f by (auto simp: same_delivery_def split: if_splits)
    then have "att_completed x \<noteq> None" using ok x unfolding attempts_ok_def by blast
    then show ?thesis using x f(7) by auto
  qed
  show ?thesis unfolding attempts_ok_def using g b c by blast
qed

lemma close_attempt_step:
  assumes inv: "runs_inv s"
    and s': "s' = s\<lparr>db_attempts := update_rows (\<lambda>a. Q a \<and> att_completed a = None) f (db_attempts s)\<rparr>"
    and f: "\<And>a. att_run_uid (f a) = att_run_uid a" "\<And>a. att_node_id (f a) = att_node_id a"
      "\<And>a. att_iteration (f a) = att_iteration a" "\<And>a. att_attempt (f a) = att_attempt a"
      "\<And>a. att_framework (f a) = att_framework a" "\<And>a. att_completed (f a) \<noteq> None \<and> att_phase (f a) \<noteq> ''running''"
  shows "runs_inv s'" "history_kept s s'"
proof -
  have "attempts_ok s'"
    by (rule attempts_ok_update[where f = f and P = "\<lambda>a. Q a \<and> att_completed a = None" and s = s])
      (use inv f in \<open>auto simp: runs_inv_def s' has_run_def\<close>)
  moreover have "\<exists>a' \<in> set (db_attempts s'). a'\<lparr>att_exit := att_exit a\<rparr> = a \<and> (att_exit a \<noteq> [] \<longrightarrow> att_exit a' = att_exit a)"
    if "a \<in> set (db_attempts s)" "att_completed a \<noteq> None" for a
    by (rule bexI[of _ a]) (use that in \<open>auto simp: s' update_rows_def image_iff intro!: bexI[of _ a]\<close>)
  ultimately show "runs_inv s'" "history_kept s s'"
    by (auto intro: attempts_step[OF inv] simp: s')
qed


lemma mark_lost_step:
  assumes inv: "runs_inv s" and ok: "mark_lost s run node it att now = Inr s'"
  shows "runs_inv s'" "history_kept s s'" "has_run s' = has_run s"
    "db_attempts s' = update_rows (\<lambda>a. att_at run node it att a \<and> att_completed a = None)
           (\<lambda>a. a\<lparr>att_phase := ''failed'', att_error := lostMessage, att_exit := ''delivery-lost'',
                  att_completed := Some now\<rparr>) (db_attempts s)"
proof -
  define s1 where "s1 = s\<lparr>db_attempts := update_rows (\<lambda>a. att_at run node it att a \<and> att_completed a = None)
           (\<lambda>a. a\<lparr>att_phase := ''failed'', att_error := lostMessage, att_exit := ''delivery-lost'',
                  att_completed := Some now\<rparr>) (db_attempts s)\<rparr>"
  obtain b where ap: "appendRunEventTx s1 run node ''node.failed'' ''running'' att
        (JObj [(''error'', JStr lostMessage), (''outcome'', JStr ''delivery-lost'')]) now = Inr (b, s')"
    using ok by (auto simp: mark_lost_def s1_def)
  have s1: "runs_inv s1" "history_kept s s1"
    by (rule close_attempt_step[OF inv s1_def]; simp)+
  note a = appendRunEventTx_Inr[OF s1(1) ap]
  show "runs_inv s'" by (rule a(1))
  show "history_kept s s'" by (rule history_trans[OF s1(2) a(2)])
  have "has_run s1 = has_run s" by (intro ext) (simp add: has_run_def s1_def)
  then show "has_run s' = has_run s" using a(4) by simp
  show "db_attempts s' = update_rows (\<lambda>a. att_at run node it att a \<and> att_completed a = None)
           (\<lambda>a. a\<lparr>att_phase := ''failed'', att_error := lostMessage, att_exit := ''delivery-lost'',
                  att_completed := Some now\<rparr>) (db_attempts s)" using a(3) by (simp add: s1_def)
qed

lemma next_attempt_eq:
  assumes "attempts_ok s"
  shows "next_attempt s run node it = Suc (length (attempts_of s run node it))"
  using max_column_gapless[of att_attempt "attempts_of s run node it"] assms
  by (simp add: next_attempt_def attempts_of_def attempts_ok_def)

lemma attempt_number_le:
  "attempts_ok s \<Longrightarrow> a \<in> set (db_attempts s) \<Longrightarrow>
    att_attempt a < next_attempt s (att_run_uid a) (att_node_id a) (att_iteration a)"
  using max_column_ge[of a "filter (\<lambda>x. att_run_uid x = att_run_uid a \<and> att_node_id x = att_node_id a \<and>
    att_iteration x = att_iteration a) (db_attempts s)" att_attempt] by (simp add: next_attempt_def)

lemma insert_attempt_step:
  assumes inv: "runs_inv s" and hr: "has_run s (att_run_uid a)"
    and num: "att_attempt a = next_attempt s (att_run_uid a) (att_node_id a) (att_iteration a)"
    and new: "att_completed a = None" "att_phase a = ''running''"
    and prev: "\<And>b. b \<in> set (db_attempts s) \<Longrightarrow> same_delivery b a \<Longrightarrow> att_completed b \<noteq> None"
    and s': "s' = s\<lparr>db_attempts := db_attempts s @ [a]\<rparr>"
  shows "runs_inv s'" "history_kept s s'"
proof -
  have ok: "attempts_ok s" using inv by (simp add: runs_inv_def)
  have hs: "has_run s' = has_run s" by (intro ext) (simp add: has_run_def s')
  have g: "gapless (map att_attempt (attempts_of s' run node it))" for run node it
    using ok num next_attempt_eq[OF ok] gapless_snoc[of "map att_attempt (attempts_of s run node it)"]
    by (auto simp: attempts_ok_def attempts_of_def s')
  have low: "att_attempt b < att_attempt a" if "b \<in> set (db_attempts s)" "same_delivery a b" for b
    using attempt_number_le[OF ok that(1)] that(2) num by (simp add: same_delivery_def)
  have "attempts_ok s'"
    unfolding attempts_ok_def
  proof (intro conjI allI ballI impI g)
    fix x assume "x \<in> set (db_attempts s')"
    then show "has_run s' (att_run_uid x)" "att_completed x = None \<longleftrightarrow> att_phase x = ''running''"
      using ok hr new hs by (auto simp: s' attempts_ok_def)
  next
    fix x y assume x: "x \<in> set (db_attempts s')" "y \<in> set (db_attempts s')" "same_delivery x y \<and> att_attempt x < att_attempt y"
    show "att_completed x \<noteq> None"
    proof (cases "x \<in> set (db_attempts s)")
      case True
      show ?thesis
      proof (cases "y \<in> set (db_attempts s)")
        case True
        then show ?thesis using ok x(3) \<open>x \<in> set (db_attempts s)\<close> unfolding attempts_ok_def by blast
      next
        case False
        then show ?thesis using x prev True by (auto simp: s')
      qed
    next
      case False
      then have "x = a" using x(1) by (simp add: s')
      then show ?thesis using low[of y] x by (auto simp: s')
    qed
  qed
  then show "runs_inv s'" "history_kept s s'"
    by (auto intro!: attempts_step[OF inv] attempt_self simp: s')
qed


lemma latest_for_framework:
  assumes "nodeAttemptForFrameworkTx s run node it fw = l"
  shows "l = None \<Longrightarrow> a \<in> set (db_attempts s) \<Longrightarrow> \<not> (att_run_uid a = run \<and> att_node_id a = node \<and> att_iteration a = it \<and> att_framework a = fw)"
    and "l = Some x \<Longrightarrow> x \<in> set (db_attempts s) \<and> att_run_uid x = run \<and> att_node_id x = node \<and> att_iteration x = it \<and> att_framework x = fw"
    and "l = Some x \<Longrightarrow> a \<in> set (db_attempts s) \<Longrightarrow> att_run_uid a = run \<and> att_node_id a = node \<and> att_iteration a = it \<and> att_framework a = fw \<Longrightarrow>
      att_attempt a \<le> att_attempt x"
proof -
  let ?xs = "filter (\<lambda>a. att_run_uid a = run \<and> att_node_id a = node \<and> att_iteration a = it \<and> att_framework a = fw) (db_attempts s)"
  have st: "set (sort_key att_attempt ?xs) = set ?xs" by simp
  have l: "l = (case rev (sort_key att_attempt ?xs) of [] \<Rightarrow> None | a # _ \<Rightarrow> Some a)"
    using assms by (simp add: nodeAttemptForFrameworkTx_def)
  {
    assume "l = None" "a \<in> set (db_attempts s)"
    then have "sort_key att_attempt ?xs = []" using l by (auto split: list.splits)
    then have "set ?xs = {}" using st by simp
    then show "\<not> (att_run_uid a = run \<and> att_node_id a = node \<and> att_iteration a = it \<and> att_framework a = fw)"
      using \<open>a \<in> set (db_attempts s)\<close> by auto
  }
  {
    assume "l = Some x"
    then obtain ys where "rev (sort_key att_attempt ?xs) = x # ys" using l by (auto split: list.splits)
    then have "rev (rev (sort_key att_attempt ?xs)) = rev (x # ys)" by (rule arg_cong)
    then have eq: "sort_key att_attempt ?xs = rev ys @ [x]" by (simp only: rev_rev_ident rev.simps)
    have "x \<in> set (sort_key att_attempt ?xs)" unfolding eq by simp
    then have "x \<in> set ?xs" unfolding st .
    then show "x \<in> set (db_attempts s) \<and> att_run_uid x = run \<and> att_node_id x = node \<and> att_iteration x = it \<and> att_framework x = fw" by auto
    assume "a \<in> set (db_attempts s)" "att_run_uid a = run \<and> att_node_id a = node \<and> att_iteration a = it \<and> att_framework a = fw"
    then have "a \<in> set (sort_key att_attempt ?xs)" by simp
    then have "a \<in> set (rev ys @ [x])" unfolding eq .
    moreover have "sorted (map att_attempt (rev ys @ [x]))" using sorted_sort_key[of att_attempt ?xs] unfolding eq .
    ultimately show "att_attempt a \<le> att_attempt x" by (auto simp: sorted_append)
  }
qed

lemma begin_new_step:
  assumes inv: "runs_inv s" and ok: "begin_new env s run node it fw key input lost = Inr ((a, b), s')"
    and lost: "lost = map_option att_attempt (nodeAttemptForFrameworkTx s run node it fw)"
  obtains s1 where "runs_inv s'" "history_kept s s'" "b" "att_attempt a = next_attempt s run node it" "a \<in> set (db_attempts s')"
    "att_run_uid a = run" "att_node_id a = node" "att_iteration a = it" "att_framework a = fw" "att_completed a = None"
proof -
  let ?now = "env_now env"
  obtain s1 s2 c where s1: "(case lost of None \<Rightarrow> Inr s | Some att \<Rightarrow> mark_lost s run node it att ?now) = Inr s1"
    and a: "a = \<lparr>att_run_uid = run, att_node_id = node, att_iteration = it, att_attempt = next_attempt s1 run node it, att_framework = fw,
                att_phase = ''running'', att_key = key, att_input = (case input of None \<Rightarrow> JObj [] | Some v \<Rightarrow> v),
                att_output = None, att_error = [], att_exit = [], att_started = ?now, att_completed = None\<rparr>" "b"
    and s2: "insert_attempt a s1 = Inr s2"
    and s3: "appendRunEventTx s2 run node ''node.started'' ''running'' (next_attempt s1 run node it) (JObj []) ?now = Inr (c, s')"
    and hr: "has_run s run"
    using ok find_run_has_run by (auto simp: begin_new_def Let_def)
  have i1: "runs_inv s1 \<and> history_kept s s1 \<and> has_run s1 = has_run s \<and> next_attempt s1 run node it = next_attempt s run node it \<and>
    (\<forall>x \<in> set (db_attempts s1). same_delivery x a \<longrightarrow> att_completed x \<noteq> None)"
  proof (cases lost)
    case None
    then have "nodeAttemptForFrameworkTx s run node it fw = None" using lost by simp
    then show ?thesis using s1 None inv latest_for_framework(1)[of s run node it fw] a by (auto simp: same_delivery_def)
  next
    case (Some n)
    then obtain x where x: "nodeAttemptForFrameworkTx s run node it fw = Some x" "n = att_attempt x" using lost by auto
    note l = latest_for_framework(2,3)[OF x(1)]
    have m: "mark_lost s run node it n ?now = Inr s1" using s1 Some by simp
    note ml = mark_lost_step[OF inv m]
    have aok: "attempts_ok s" using inv by (simp add: runs_inv_def)
    have len: "map att_attempt (attempts_of s1 run node it) = map att_attempt (attempts_of s run node it)"
      by (rule attempts_of_update[OF _ _ _ _ ml(4)]) simp_all
    have "next_attempt s1 run node it = next_attempt s run node it"
      using next_attempt_eq ml(1) aok len by (metis length_map runs_inv_def)
    moreover have "att_completed y \<noteq> None" if y: "y \<in> set (db_attempts s1)" "same_delivery y a" for y
    proof -
      let ?P = "\<lambda>z. att_at run node it n z \<and> att_completed z = None"
      obtain z where z: "z \<in> set (db_attempts s)" "?P z \<and> att_completed y = Some ?now \<or> \<not> ?P z \<and> y = z"
        "same_delivery z y"
        using y(1) unfolding ml(4) by (elim update_rowsE) (auto simp: same_delivery_def split: if_splits)
      have zd: "att_run_uid z = run \<and> att_node_id z = node \<and> att_iteration z = it \<and> att_framework z = fw"
        using z(3) y(2) a by (auto simp: same_delivery_def)
      have "att_attempt z \<le> att_attempt x" using l(2)[OF refl z(1) zd] .
      moreover have "same_delivery z x" using l(1)[OF refl] zd by (simp add: same_delivery_def)
      then have "att_attempt z < att_attempt x \<Longrightarrow> att_completed z \<noteq> None"
        using aok z(1) l(1)[OF refl] unfolding attempts_ok_def by blast
      ultimately show ?thesis using z(2) zd x(2) by (cases "att_attempt z = att_attempt x") auto
    qed
    ultimately show ?thesis using ml by auto
  qed
  have eq2: "s2 = s1\<lparr>db_attempts := db_attempts s1 @ [a]\<rparr>" using s2 by (auto simp: insert_attempt_def split: if_splits)
  have i2: "runs_inv s2" "history_kept s1 s2"
    by (rule insert_attempt_step[OF _ _ _ _ _ _ eq2]; use i1 hr a in auto)+
  note i3 = appendRunEventTx_Inr[OF i2(1) s3]
  have "history_kept s s'" using i1 i2(2) i3(2) history_trans by blast
  moreover have "a \<in> set (db_attempts s')" using i3(3) eq2 by simp
  ultimately show ?thesis using that i3(1) a i1 by simp
qed


lemma CompleteNodeAttempt_step:
  assumes inv: "runs_inv s" and ok: "CompleteNodeAttempt env s run node it att phase output err ex = Inr (a, s')"
  shows "runs_inv s'" "history_kept s s'"
proof -
  obtain e where e: "NodeAttempt s run node it att = Inr e" and ph: "phase \<noteq> ''running''"
    using ok by (auto simp: CompleteNodeAttempt_def Let_def)
  have "runs_inv s' \<and> history_kept s s'"
  proof (cases "att_completed e")
    case (Some t)
    then show ?thesis using ok e inv by (simp add: CompleteNodeAttempt_def Let_def)
  next
    case None
    define s1 where "s1 = s\<lparr>db_attempts := update_rows (\<lambda>a. att_at run node it att a \<and> att_completed a = None)
       (\<lambda>a. a\<lparr>att_phase := phase, att_output := Some (case output of None \<Rightarrow> JObj [] | Some v \<Rightarrow> v), att_error := err,
              att_exit := (if att_exit a = [] then ex else att_exit a), att_completed := Some (env_now env)\<rparr>) (db_attempts s)\<rparr>"
    obtain et pl b where ap: "appendRunEventTx s1 run node et ''running'' att pl (env_now env) = Inr (b, s')"
      using ok e None by (auto simp: CompleteNodeAttempt_def Let_def s1_def)
    have s1: "runs_inv s1" "history_kept s s1"
      by (rule close_attempt_step[OF inv s1_def]; use ph in simp)+
    show ?thesis using appendRunEventTx_Inr(1,2)[OF s1(1) ap] history_trans[OF s1(2)] by blast
  qed
  then show "runs_inv s'" "history_kept s s'" by auto
qed

lemma SetNodeAttemptOutcome_step:
  assumes inv: "runs_inv s"
  shows "runs_inv (SetNodeAttemptOutcome s run node it att outcome)"
    "history_kept s (SetNodeAttemptOutcome s run node it att outcome)"
proof -
  let ?P = "\<lambda>a. att_at run node it att a \<and> att_exit a = []"
  let ?f = "\<lambda>a. a\<lparr>att_exit := outcome\<rparr>"
  define s' where "s' = s\<lparr>db_attempts := update_rows ?P ?f (db_attempts s)\<rparr>"
  have "attempts_ok s'"
    by (rule attempts_ok_update[where f = ?f and P = ?P and s = s])
      (use inv in \<open>auto simp: runs_inv_def s'_def has_run_def\<close>)
  moreover have "\<exists>a' \<in> set (db_attempts s'). a'\<lparr>att_exit := att_exit a\<rparr> = a \<and> (att_exit a \<noteq> [] \<longrightarrow> att_exit a' = att_exit a)"
    if a: "a \<in> set (db_attempts s)" for a
  proof (rule bexI[of _ "if ?P a then ?f a else a"])
    show "(if ?P a then ?f a else a) \<in> set (db_attempts s')" using a by (auto simp: s'_def update_rows_def)
  qed auto
  ultimately have "runs_inv s'" "history_kept s s'"
    by (auto intro: attempts_step[OF inv] simp: s'_def)
  then show "runs_inv (SetNodeAttemptOutcome s run node it att outcome)"
    "history_kept s (SetNodeAttemptOutcome s run node it att outcome)"
    using inv by (simp_all add: SetNodeAttemptOutcome_def s'_def)
qed

lemma appendRunEvidenceTx_step:
  assumes inv: "runs_inv s" and ok: "appendRunEvidenceTx s run node et att pl t = Inr s'"
  shows "runs_inv s'" "history_kept s s'"
proof -
  define e where "e = \<lparr>re_run_uid = run, re_sequence = next_sequence s run, re_node_id = node,
                 re_attempt = att, re_type = et, re_payload = pl, re_occurred = t\<rparr>"
  obtain r where r: "find_run s run = Some r" using ok by (auto simp: appendRunEvidenceTx_def)
  have hr: "has_run s run" by (rule find_run_has_run[OF r])
  have ev: "insert_run_event e s = Inr (s\<lparr>db_run_events := db_run_events s @ [e]\<rparr>)"
    by (rule insert_next_event(1)[OF _ hr]) (use inv in \<open>simp_all add: runs_inv_def e_def\<close>)
  define f where "f = (\<lambda>x :: run_row. if terminalRunPhase (run_phase r) then x else x\<lparr>run_updated := t\<rparr>)"
  have "update_rows (\<lambda>r. run_uid r = run) (\<lambda>x. x) (db_runs s) = db_runs s" by (simp add: update_rows_def)
  then have s': "db_run_events s' = db_run_events s @ [e]" "db_runs s' = update_rows (\<lambda>r. run_uid r = run) f (db_runs s)"
    "db_attempts s' = db_attempts s"
    using ok r ev by (auto simp: appendRunEvidenceTx_def e_def[symmetric] f_def)
  have fp: "run_uid (f x) = run_uid x" "run_plan_hash (f x) = run_plan_hash x" "run_phase (f x) = run_phase x"
    "run_completed (f x) = run_completed x" for x by (auto simp: f_def)
  show "runs_inv s'" "history_kept s s'"
    by (rule event_run_step[OF inv hr _ _ s']; use inv in \<open>simp add: e_def fp runs_inv_def runs_ok_def\<close>)+
qed

lemma AppendPluginEvent_step:
  assumes inv: "runs_inv s" and ok: "AppendPluginEvent env s run node it att n et pl t = Inr s'"
  shows "runs_inv s'" "history_kept s s'"
proof -
  have "runs_inv s' \<and> history_kept s s'"
  proof (cases "select_row (pev_at run node it att n) (db_plugin_events s)")
    case (Some e)
    then show ?thesis using ok inv by (auto simp: AppendPluginEvent_def)
  next
    case None
    then obtain s1 ev p where s1: "s1 = s\<lparr>db_plugin_events := db_plugin_events s @ [ev]\<rparr>"
      and ap: "appendRunEvidenceTx s1 run node (''plugin.'' @ et) att p (env_now env) = Inr s'"
      using ok by (auto simp: AppendPluginEvent_def)
    have i1: "runs_inv s1" "history_kept s s1" by (rule runs_frame[OF inv]; simp add: s1)+
    show ?thesis using appendRunEvidenceTx_step[OF i1(1) ap] history_trans[OF i1(2)] by blast
  qed
  then show "runs_inv s'" "history_kept s s'" by auto
qed

lemma RequestRunCancellation_step:
  assumes inv: "runs_inv s" and ok: "RequestRunCancellation env s run reason = Inr s'"
  shows "runs_inv s'" "history_kept s s'"
proof -
  obtain r where r: "find_run s run = Some r" using ok by (auto simp: RequestRunCancellation_def Let_def)
  have hr: "has_run s run" by (rule find_run_has_run[OF r])
  have "runs_inv s' \<and> history_kept s s'"
  proof (cases "run_phase r \<noteq> ''cancelled'' \<and> terminalRunPhase (run_phase r) \<or> exists_row (\<lambda>c. can_run_uid c = run) (db_cancellations s)")
    case True
    then have "s' = s" using ok r by (auto simp: RequestRunCancellation_def Let_def split: if_splits)
    then show ?thesis using inv by simp
  next
    case False
    define s1 where "s1 = s\<lparr>db_cancellations := db_cancellations s @ [\<lparr>can_run_uid = run, can_reason = reason,
                    can_delivered = False, can_requested = env_now env, can_delivered_at = None\<rparr>]\<rparr>"
    define e where "e = \<lparr>re_run_uid = run, re_sequence = next_sequence s run, re_node_id = [],
                       re_attempt = 0, re_type = ''run.cancelled'', re_payload = JObj [(''reason'', JStr reason)],
                       re_occurred = env_now env\<rparr>"
    define f where "f = (\<lambda>r :: run_row. r\<lparr>run_phase := ''cancelled'', run_updated := env_now env,
                    run_completed := (case run_completed r of None \<Rightarrow> Some (env_now env) | Some t \<Rightarrow> Some t)\<rparr>)"
    have i1: "runs_inv s1" "history_kept s s1" by (rule runs_frame[OF inv]; simp add: s1_def)+
    have hr1: "has_run s1 run" using hr by (simp add: has_run_def s1_def)
    have eq: "re_run_uid e = run" "re_sequence e = next_sequence s1 run" by (simp_all add: e_def s1_def next_sequence_def)
    have ev: "insert_run_event e s1 = Inr (s1\<lparr>db_run_events := db_run_events s1 @ [e]\<rparr>)"
      by (rule insert_next_event(1)[OF _ hr1 eq]) (use i1 in \<open>simp add: runs_inv_def\<close>)
    have s': "s' = s1\<lparr>db_run_events := db_run_events s1 @ [e], db_runs := update_rows (\<lambda>r. run_uid r = run) f (db_runs s1)\<rparr>"
      using ok r False ev by (auto simp: RequestRunCancellation_def Let_def s1_def e_def f_def split: if_splits)
    have uniq: "x = r" if "x \<in> set (db_runs s1)" "run_uid x = run" for x
      using that inv find_run_SomeD[OF r] by (auto simp: runs_inv_def runs_ok_def distinct_map inj_on_def s1_def)
    have tm: "terminalRunPhase (run_phase r) \<Longrightarrow> run_phase r = ''cancelled'' \<and> run_completed r \<noteq> None"
      using False inv find_run_SomeD[OF r] by (auto simp: runs_inv_def runs_ok_def)
    have "runs_inv s'" "history_kept s1 s'"
      by (rule event_run_step[OF i1(1) hr1 eq, of s' f];
          use uniq tm in \<open>auto simp: s' f_def split: option.splits\<close>)+
    then show ?thesis using history_trans[OF i1(2)] by blast
  qed
  then show "runs_inv s'" "history_kept s s'" by auto
qed

lemma EnsureRun_step:
  assumes inv: "runs_inv s" and ok: "EnsureRun env s p plan = Inr (b, s')"
  shows "runs_inv s'" "history_kept s s'"
proof -
  have "runs_inv s' \<and> history_kept s s'"
  proof (cases "has_run s (sp_runUID p)")
    case True
    then show ?thesis using ok inv by (simp add: EnsureRun_def has_run_exists)
  next
    case False
    define s1 where "s1 = insert_plan (env_now env) plan s"
    define r where "r = \<lparr>run_uid = sp_runUID p, run_flow_uid = plan_flowUID plan,
                    run_receipt_uid = sp_receiptUID p, run_plan_hash = plan_planHash plan,
                    run_interpreter = plan_interpreterVersion plan, run_phase = ''pending'',
                    run_input = sp_input p, run_created = env_now env, run_updated = env_now env, run_completed = None\<rparr>"
    define e where "e = \<lparr>re_run_uid = sp_runUID p, re_sequence = 1, re_node_id = [], re_attempt = 0,
                    re_type = ''run.accepted'', re_payload = JObj [], re_occurred = env_now env\<rparr>"
    have s': "s' = s1\<lparr>db_runs := db_runs s1 @ [r], db_run_events := db_run_events s1 @ [e]\<rparr>"
      using ok False by (auto simp: EnsureRun_def has_run_exists Let_def s1_def[symmetric] r_def e_def
        insert_run_def insert_run_event_def split: if_splits)
    have r: "run_uid r = sp_runUID p" "run_phase r = ''pending''" "run_completed r = None"
      and e: "re_run_uid e = sp_runUID p" "re_sequence e = 1" by (simp_all add: r_def e_def)
    have fr: "db_runs s1 = db_runs s" "db_run_events s1 = db_run_events s" "db_attempts s1 = db_attempts s"
      by (simp_all add: s1_def insert_plan_def)
    have none: "events_of s (sp_runUID p) = []"
      using inv False by (auto simp: runs_inv_def events_ok_def events_of_def filter_empty_conv)
    have hr: "has_run s' u \<longleftrightarrow> has_run s u \<or> u = sp_runUID p" for u using r by (auto simp: has_run_def s' fr)
    have "runs_ok s'" using inv False r by (auto simp: runs_inv_def runs_ok_def s' fr has_run_def)
    moreover have "events_ok s'"
      using inv e none hr by (auto simp: runs_inv_def events_ok_def events_of_def s' fr)
    moreover have "attempts_ok s'"
      by (rule attempts_ok_mono[of s]) (use inv hr in \<open>auto simp: runs_inv_def s' fr\<close>)
    moreover have "history_kept s s'"
      unfolding history_kept_def by (auto simp: s' fr intro: attempt_self)
    ultimately show ?thesis by (simp add: runs_inv_def)
  qed
  then show "runs_inv s'" "history_kept s s'" by auto
qed


section \<open>Requests on Runs\<close>

datatype run_request =
  ReqEnsureRun start_payload execution_plan
| ReqAppendRunEvent string string string string nat "json option"
| ReqBeginAttempt string string int nat string "json option"
| ReqCompleteAttempt string string nat nat string "json option" string string
| ReqAttemptOutcome string string nat nat string
| ReqPluginEvent string string nat nat nat string "json option" time
| ReqPutArtifact string artifact_row
| ReqCancelRun string string
| ReqMarkCancellation string
| ReqMarkCancellationIfStartImpossible string
| ReqEnsureApproval string string "time option"
| ReqDecideApproval string string string string string
| ReqMarkApproval string string
| ReqPutPlan execution_plan

fun exec_run :: "store_env \<times> run_request \<Rightarrow> db \<Rightarrow> (store_error, unit \<times> db) result" where
  "exec_run (env, ReqEnsureRun p plan) s = bind_res (EnsureRun env s p plan) (\<lambda>(_, s'). Inr ((), s'))"
| "exec_run (env, ReqAppendRunEvent run node et ph att pl) s =
     bind_res (AppendRunEvent env s run node et ph att pl) (\<lambda>s'. Inr ((), s'))"
| "exec_run (env, ReqBeginAttempt run node it fw key input) s =
     bind_res (BeginNodeAttempt env s run node it fw key input) (\<lambda>(_, s'). Inr ((), s'))"
| "exec_run (env, ReqCompleteAttempt run node it att ph out err ex) s =
     bind_res (CompleteNodeAttempt env s run node it att ph out err ex) (\<lambda>(_, s'). Inr ((), s'))"
| "exec_run (env, ReqAttemptOutcome run node it att outcome) s = Inr ((), SetNodeAttemptOutcome s run node it att outcome)"
| "exec_run (env, ReqPluginEvent run node it att n et pl t) s =
     bind_res (AppendPluginEvent env s run node it att n et pl t) (\<lambda>s'. Inr ((), s'))"
| "exec_run (env, ReqPutArtifact uuid a) s = bind_res (PutArtifact env uuid s a) (\<lambda>(_, s'). Inr ((), s'))"
| "exec_run (env, ReqCancelRun run reason) s = bind_res (RequestRunCancellation env s run reason) (\<lambda>s'. Inr ((), s'))"
| "exec_run (env, ReqMarkCancellation run) s = Inr ((), MarkRunCancellationDelivered env s run)"
| "exec_run (env, ReqMarkCancellationIfStartImpossible run) s =
     Inr ((), snd (MarkRunCancellationDeliveredIfStartImpossible env s run))"
| "exec_run (env, ReqEnsureApproval run node t) s = bind_res (EnsureApproval s run node t) (\<lambda>s'. Inr ((), s'))"
| "exec_run (env, ReqDecideApproval run node st actor reason) s =
     bind_res (DecideApproval env s run node st actor reason) (\<lambda>s'. Inr ((), s'))"
| "exec_run (env, ReqMarkApproval run node) s = Inr ((), MarkApprovalSignaled s run node)"
| "exec_run (env, ReqPutPlan plan) s = Inr ((), PutPlan env s plan)"

lemma BeginNodeAttempt_step:
  assumes inv: "runs_inv s" and ok: "BeginNodeAttempt env s run node iter fw key input = Inr ((a, b), s')"
  shows "runs_inv s' \<and> history_kept s s'"
proof (cases "nodeAttemptForFrameworkTx s run node (nat iter) fw")
  case None
  then have "begin_new env s run node (nat iter) fw key input None = Inr ((a, b), s')"
    using ok by (simp add: BeginNodeAttempt_def)
  then show ?thesis by (rule begin_new_step[OF inv]) (use None in auto)
next
  case (Some l)
  show ?thesis
  proof (cases "att_completed l")
    case None
    then have "begin_new env s run node (nat iter) fw key input (Some (att_attempt l)) = Inr ((a, b), s')"
      using ok Some by (simp add: BeginNodeAttempt_def)
    then show ?thesis by (rule begin_new_step[OF inv]) (use Some in auto)
  next
    case (Some t)
    then show ?thesis using ok inv \<open>nodeAttemptForFrameworkTx s run node (nat iter) fw = Some l\<close>
      by (simp add: BeginNodeAttempt_def)
  qed
qed

lemma write_artifact_frame:
  "write_artifact a s = Inr s' \<Longrightarrow> \<exists>x. s' = s\<lparr>db_artifacts := x\<rparr>"
  by (auto simp: write_artifact_def split: if_splits)

lemma PutArtifact_frame:
  "PutArtifact env uuid s a = Inr (r, s') \<Longrightarrow> \<exists>x. s' = s\<lparr>db_artifacts := x\<rparr>"
  by (cases "Artifact s (art_run_uid a) (art_node_id a) (art_iteration a) (art_attempt a) (art_name a)")
    (auto simp: PutArtifact_def Let_def split: if_splits dest: write_artifact_frame
      intro: exI[of _ "db_artifacts s"])

lemma exec_run_step:
  assumes inv: "runs_inv s" and ok: "exec_run q s = Inr (x, s')"
  shows "runs_inv s' \<and> history_kept s s'"
proof (cases "(q, s)" rule: exec_run.cases)
  case (1 env p plan s0)
  then show ?thesis using ok EnsureRun_step[OF inv] by auto
next
  case (2 env run node et ph att pl s0)
  then show ?thesis using ok appendRunEventTx_Inr(1,2)[OF inv] by (auto simp: AppendRunEvent_def)
next
  case (3 env run node it fw key input s0)
  then show ?thesis using ok BeginNodeAttempt_step[OF inv] by auto
next
  case (4 env run node it att ph out err ex s0)
  then show ?thesis using ok CompleteNodeAttempt_step[OF inv] by auto
next
  case (5 env run node it att outcome s0)
  then show ?thesis using ok SetNodeAttemptOutcome_step[OF inv] by auto
next
  case (6 env run node it att n et pl t s0)
  then show ?thesis using ok AppendPluginEvent_step[OF inv] by auto
next
  case (7 env uuid a s0)
  then obtain r where "PutArtifact env uuid s a = Inr (r, s')" using ok by auto
  then obtain y where "s' = s\<lparr>db_artifacts := y\<rparr>" using PutArtifact_frame by blast
  then show ?thesis using runs_frame[OF inv, of s'] by simp
next
  case (8 env run reason s0)
  then show ?thesis using ok RequestRunCancellation_step[OF inv] by auto
next
  case (9 env run s0)
  then show ?thesis using ok runs_frame[OF inv, of s'] by (auto simp: MarkRunCancellationDelivered_def)
next
  case (10 env run s0)
  then show ?thesis using ok runs_frame[OF inv, of s']
    by (auto simp: MarkRunCancellationDeliveredIfStartImpossible_def Let_def)
next
  case (11 env run node t s0)
  then show ?thesis using ok inv runs_frame[OF inv, of s'] by (auto simp: EnsureApproval_def split: if_splits)
next
  case (12 env run node st actor reason s0)
  then show ?thesis using ok runs_frame[OF inv, of s'] by (auto simp: DecideApproval_def Let_def)
next
  case (13 env run node s0)
  then show ?thesis using ok runs_frame[OF inv, of s'] by (auto simp: MarkApprovalSignaled_def)
next
  case (14 env plan s0)
  then show ?thesis using ok runs_frame[OF inv, of s'] by (auto simp: PutPlan_def insert_plan_def)
qed

interpretation run_log: monotone_transactions runs_inv "\<lambda>_. True" exec_run history_kept
  by unfold_locales (auto dest: exec_run_step intro: history_trans)

lemma empty_runs_inv: "runs_inv empty_db"
  by (simp add: runs_inv_def runs_ok_def events_ok_def attempts_ok_def events_of_def attempts_of_def empty_db_def)

section \<open>Properties\<close>

lemma gapless_drop:
  assumes "gapless (map f xs)"
  shows "filter (\<lambda>x. f x > k) xs = drop k xs"
proof -
  have "f (xs ! i) = Suc i" if "i < length xs" for i
    using assms that unfolding gapless_def by (metis (no_types, lifting) length_map nth_map nth_upt plus_1_eq_Suc add_less_cancel_left Suc_eq_plus1 add.commute)
  then have "filter (\<lambda>x. f x > k) xs = map (\<lambda>i. xs ! i) (filter (\<lambda>i. Suc i > k) [0..<length xs])"
    by (subst map_nth[symmetric, of xs]) (simp only: filter_map comp_def, metis (mono_tags, lifting) atLeastLessThan_iff filter_cong set_upt)
  also have "filter (\<lambda>i. Suc i > k) [0..<n] = [k..<n]" for n by (induction n) auto
  finally show ?thesis by (metis map_nth drop_map drop_upt add_0)
qed

lemma RunEventsAfter_eq:
  assumes "runs_inv s"
  shows "RunEventsAfter s run k limit = take (page_limit limit) (drop k (events_of s run))"
proof -
  have g: "gapless (map re_sequence (events_of s run))" using assms by (simp add: runs_inv_def events_ok_def)
  have "filter (\<lambda>e. re_run_uid e = run \<and> re_sequence e > k) (db_run_events s) = drop k (events_of s run)"
    using gapless_drop[OF g, of k] by (simp add: events_of_def conj_commute filter_filter)
  moreover have "sorted (map re_sequence (events_of s run))" using g by (metis gapless_def sorted_upt)
  then have "sorted (map re_sequence (drop k (events_of s run)))" by (metis drop_map sorted_wrt_drop)
  ultimately show ?thesis by (simp add: RunEventsAfter_def sort_key_id_if_sorted)
qed

text \<open>The event log of a Run has no gap and no loss. After any requests from the empty store the
  events of each Run are numbered 1, 2, 3, ... in commit order, and a watcher that has
  seen \<open>k\<close> events is given the next ones, in order, up to the page limit.\<close>

theorem run_event_log_is_gapless:
  "let s = run_requests exec_run qs empty_db in
   map re_sequence (events_of s run) = [1..<Suc (length (events_of s run))] \<and>
   RunEventsAfter s run k limit = take (page_limit limit) (drop k (events_of s run))"
proof -
  have "runs_inv (run_requests exec_run qs empty_db)" by (rule run_log.inv_run[OF empty_runs_inv]) (simp add: list_all_iff)
  moreover then have "gapless (map re_sequence (events_of (run_requests exec_run qs empty_db) run))"
    by (simp add: runs_inv_def events_ok_def)
  ultimately show ?thesis using RunEventsAfter_eq by (simp add: Let_def gapless_def)
qed


lemma attempt_unique:
  assumes ok: "attempts_ok s" and "a \<in> set (db_attempts s)" "b \<in> set (db_attempts s)"
    and "att_run_uid a = att_run_uid b" "att_node_id a = att_node_id b" "att_iteration a = att_iteration b" "att_attempt a = att_attempt b"
  shows "a = b"
proof -
  have "distinct (map att_attempt (attempts_of s (att_run_uid a) (att_node_id a) (att_iteration a)))"
    using ok gapless_distinct unfolding attempts_ok_def by blast
  moreover have "a \<in> set (attempts_of s (att_run_uid a) (att_node_id a) (att_iteration a))"
    "b \<in> set (attempts_of s (att_run_uid a) (att_node_id a) (att_iteration a))"
    using assms by (auto simp: attempts_of_def)
  ultimately show ?thesis using assms(7) by (auto simp: distinct_map inj_on_def)
qed

lemma incomplete_unique:
  assumes ok: "attempts_ok s" and ab: "a \<in> set (db_attempts s)" "b \<in> set (db_attempts s)" "same_delivery a b"
    and "att_completed a = None" "att_completed b = None"
  shows "a = b"
proof -
  have c: "\<And>x y. x \<in> set (db_attempts s) \<Longrightarrow> y \<in> set (db_attempts s) \<Longrightarrow> same_delivery x y \<Longrightarrow>
      att_attempt x < att_attempt y \<Longrightarrow> att_completed x \<noteq> None"
    using ok unfolding attempts_ok_def by blast
  have "same_delivery b a" using ab(3) by (simp add: same_delivery_def)
  then have "att_attempt a = att_attempt b" using c assms by (metis linorder_neqE_nat)
  then show ?thesis using attempt_unique[OF ok ab(1,2)] ab(3) by (simp add: same_delivery_def)
qed

lemma begin_new_succeeds:
  assumes inv: "runs_inv s" and r: "find_run s run = Some r" "\<not> terminalRunPhase (run_phase r)"
    and n: "length (attempts_of s run node it) < max_uint32"
  shows "\<exists>a s'. begin_new env s run node it fw key input lost = Inr ((a, True), s')"
proof -
  let ?now = "env_now env"
  have hr: "has_run s run" by (rule find_run_has_run[OF r(1)])
  have "\<exists>s1. (case lost of None \<Rightarrow> Inr s | Some att \<Rightarrow> mark_lost s run node it att ?now) = Inr s1 \<and> runs_inv s1 \<and>
      has_run s1 run \<and> length (attempts_of s1 run node it) = length (attempts_of s run node it)"
  proof (cases lost)
    case None
    then show ?thesis using inv hr by simp
  next
    case (Some att)
    define s1 where "s1 = s\<lparr>db_attempts := update_rows (\<lambda>a. att_at run node it att a \<and> att_completed a = None)
           (\<lambda>a. a\<lparr>att_phase := ''failed'', att_error := lostMessage, att_exit := ''delivery-lost'',
                  att_completed := Some ?now\<rparr>) (db_attempts s)\<rparr>"
    have "events_ok s1" using close_attempt_step(1)[OF inv s1_def] by (simp add: runs_inv_def)
    moreover have "has_run s1 run" using hr by (simp add: has_run_def s1_def)
    ultimately obtain b s' where ap: "appendRunEventTx s1 run node ''node.failed'' ''running'' att
        (JObj [(''error'', JStr lostMessage), (''outcome'', JStr ''delivery-lost'')]) ?now = Inr (b, s')"
      using appendRunEventTx_succeeds by blast
    then have m: "mark_lost s run node it att ?now = Inr s'" by (simp add: mark_lost_def s1_def)
    note ml = mark_lost_step[OF inv m]
    have "map att_attempt (attempts_of s' run node it) = map att_attempt (attempts_of s run node it)"
      by (rule attempts_of_update[OF _ _ _ _ ml(4)]) simp_all
    then have "length (attempts_of s' run node it) = length (attempts_of s run node it)" by (metis length_map)
    then show ?thesis using Some m ml hr by simp
  qed
  then obtain s1 where s1: "(case lost of None \<Rightarrow> Inr s | Some att \<Rightarrow> mark_lost s run node it att ?now) = Inr s1" "runs_inv s1"
    "has_run s1 run" "length (attempts_of s1 run node it) = length (attempts_of s run node it)" by blast
  have aok: "attempts_ok s1" using s1(2) by (simp add: runs_inv_def)
  have na: "next_attempt s1 run node it \<le> max_uint32" using n s1(4) next_attempt_eq[OF aok] by simp
  let ?a = "\<lparr>att_run_uid = run, att_node_id = node, att_iteration = it, att_attempt = next_attempt s1 run node it, att_framework = fw,
                att_phase = ''running'', att_key = key, att_input = (case input of None \<Rightarrow> JObj [] | Some v \<Rightarrow> v),
                att_output = None, att_error = [], att_exit = [], att_started = ?now, att_completed = None\<rparr>"
  have "insert_attempt ?a s1 = Inr (s1\<lparr>db_attempts := db_attempts s1 @ [?a]\<rparr>)"
    using attempt_number_le[OF aok] s1(3) by (fastforce simp: insert_attempt_def exists_row_iff has_run_def)
  moreover have "\<exists>b s'. appendRunEventTx (s1\<lparr>db_attempts := db_attempts s1 @ [?a]\<rparr>) run node ''node.started'' ''running''
      (next_attempt s1 run node it) (JObj []) ?now = Inr (b, s')"
    by (rule appendRunEventTx_succeeds) (use s1(2,3) in \<open>simp_all add: runs_inv_def events_ok_def events_of_def has_run_def\<close>)
  ultimately show ?thesis using r s1(1) na by (auto simp: begin_new_def Let_def)
qed



text \<open>The first outcome of an attempt is final. When \<open>CompleteNodeAttempt\<close> has committed, the
  attempt has a completion time and, unless it had one before, the phase, output and error of this call;
  every later completion of the same attempt, with any outcome, returns the stored row and changes nothing.\<close>

theorem attempt_outcome_is_final:
  assumes "attempts_ok s" and "CompleteNodeAttempt env s run node it att phase output err ex = Inr (a, s')"
  shows "NodeAttempt s' run node it att = Inr a \<and> att_completed a \<noteq> None \<and>
    (\<forall>a0. NodeAttempt s run node it att = Inr a0 \<and> att_completed a0 = None \<longrightarrow>
       att_phase a = phase \<and> att_error a = err \<and> att_output a = Some (case output of None \<Rightarrow> JObj [] | Some v \<Rightarrow> v)) \<and>
    (\<forall>env' phase' output' err' ex'. phase' \<in> {''succeeded'', ''failed'', ''cancelled''} \<longrightarrow>
       CompleteNodeAttempt env' s' run node it att phase' output' err' ex' = Inr (a, s'))"
proof -
  obtain e where e: "NodeAttempt s run node it att = Inr e" using assms(2) by (auto simp: CompleteNodeAttempt_def Let_def)
  let ?out = "case output of None \<Rightarrow> JObj [] | Some v \<Rightarrow> v"
  have main: "NodeAttempt s' run node it att = Inr a \<and> att_completed a \<noteq> None \<and>
    (att_completed e = None \<longrightarrow> att_phase a = phase \<and> att_error a = err \<and> att_output a = Some ?out)"
  proof (cases "att_completed e")
    case (Some t)
    then show ?thesis using assms(2) e by (simp add: CompleteNodeAttempt_def Let_def)
  next
    case None
    define g where "g = (\<lambda>a :: attempt_row. a\<lparr>att_phase := phase, att_output := Some ?out, att_error := err,
              att_exit := (if att_exit a = [] then ex else att_exit a), att_completed := Some (env_now env)\<rparr>)"
    define s1 where "s1 = s\<lparr>db_attempts := update_rows (\<lambda>a. att_at run node it att a \<and> att_completed a = None) g (db_attempts s)\<rparr>"
    obtain et pl b where ap: "appendRunEventTx s1 run node et ''running'' att pl (env_now env) = Inr (b, s')"
      and a: "NodeAttempt s' run node it att = Inr a"
      using assms(2) e None by (auto simp: CompleteNodeAttempt_def Let_def s1_def g_def)
    have at: "db_attempts s' = db_attempts s1"
      using ap by (auto simp: appendRunEventTx_def insert_run_event_def set_run_phase_def split: if_splits)
    have "select_row (att_at run node it att) (db_attempts s1) =
        map_option (\<lambda>a. if att_at run node it att a \<and> att_completed a = None then g a else a) (select_row (att_at run node it att) (db_attempts s))"
      by (simp add: s1_def) (rule select_row_update_key, simp add: g_def)
    moreover have se: "select_row (att_at run node it att) (db_attempts s) = Some e" using e by (simp add: NodeAttempt_def)
    ultimately have "a = g e" using a at None select_row_SomeD[OF se] by (auto simp: NodeAttempt_def)
    then show ?thesis using a by (simp add: g_def)
  qed
  then obtain t where t: "att_completed a = Some t" by auto
  show ?thesis using main e t by (auto simp: CompleteNodeAttempt_def Let_def)
qed

text \<open>C32: cancellation wins over a start that has not been dispatched. When a cancellation of a Run
  that has not ended commits, the Run is cancelled and its intent is recorded; from then on the
  conditional completion of any of its start commands closes that command instead of starting the
  workflow, and the intent is acknowledged for lack of a workflow only when no start command of the Run
  is open.\<close>

theorem cancellation_suppresses_start:
  assumes "runs_inv s" and "find_run s run = Some r" and "\<not> terminalRunPhase (run_phase r)"
    and "\<not> exists_row (\<lambda>c. can_run_uid c = run) (db_cancellations s)"
    and "distinct (map out_id (db_outbox s))" and "row \<in> set (db_outbox s)" "command_type (out_command row) = ''start-run''"
      "out_aggregate_uid row = run"
  shows "\<exists>s'. RequestRunCancellation env s run reason = Inr s' \<and>
    (\<exists>r'. find_run s' run = Some r' \<and> run_phase r' = ''cancelled'' \<and> run_completed r' \<noteq> None) \<and>
    fst (CompleteStartIfRunCancelled env' s' (out_id row) run) \<and>
    out_id row \<notin> open_commands (snd (CompleteStartIfRunCancelled env' s' (out_id row) run)) \<and>
    (fst (MarkRunCancellationDeliveredIfStartImpossible env' s' run) \<longleftrightarrow> \<not> start_open s' run)"
proof -
  have hr: "has_run s run" by (rule find_run_has_run[OF assms(2)])
  define s1 where "s1 = s\<lparr>db_cancellations := db_cancellations s @ [\<lparr>can_run_uid = run, can_reason = reason,
                    can_delivered = False, can_requested = env_now env, can_delivered_at = None\<rparr>]\<rparr>"
  define e where "e = \<lparr>re_run_uid = run, re_sequence = next_sequence s run, re_node_id = [],
                       re_attempt = 0, re_type = ''run.cancelled'', re_payload = JObj [(''reason'', JStr reason)],
                       re_occurred = env_now env\<rparr>"
  define f where "f = (\<lambda>r :: run_row. r\<lparr>run_phase := ''cancelled'', run_updated := env_now env,
                    run_completed := (case run_completed r of None \<Rightarrow> Some (env_now env) | Some t \<Rightarrow> Some t)\<rparr>)"
  define s' where "s' = s1\<lparr>db_run_events := db_run_events s1 @ [e], db_runs := update_rows (\<lambda>r. run_uid r = run) f (db_runs s1)\<rparr>"
  have ev: "insert_run_event e s1 = Inr (s1\<lparr>db_run_events := db_run_events s1 @ [e]\<rparr>)"
    by (rule insert_next_event(1)) (use assms(1) hr in \<open>auto simp: runs_inv_def events_ok_def events_of_def has_run_def s1_def e_def next_sequence_def\<close>)
  have ok: "RequestRunCancellation env s run reason = Inr s'"
    using ev assms(2-4) by (auto simp: RequestRunCancellation_def Let_def s1_def e_def f_def s'_def)
  have "select_row (\<lambda>r. run_uid r = run) (update_rows (\<lambda>r. run_uid r = run) f (db_runs s)) = Some (f r)"
    using assms(2) find_run_SomeD[OF assms(2)] by (subst select_row_update_key) (auto simp: f_def find_run_def)
  then have fr: "find_run s' run = Some (f r)" by (simp add: find_run_def s'_def s1_def)
  have out: "db_outbox s' = db_outbox s" "db_cancellations s' = db_cancellations s1" by (simp_all add: s'_def s1_def)
  have can: "exists_row (\<lambda>c. can_run_uid c = run) (db_cancellations s')" by (simp add: out exists_row_iff s1_def)
  define P where "P = (\<lambda>r :: outbox_row. out_id r = out_id row \<and> command_type (out_command r) = ''start-run'' \<and> out_aggregate_uid r = run \<and>
                   exists_row (\<lambda>c. can_run_uid c = run) (db_cancellations s'))"
  have uniq: "x \<in> set (db_outbox s) \<Longrightarrow> out_id x = out_id row \<Longrightarrow> x = row" for x
    using assms(5,6) by (auto simp: distinct_map inj_on_def)
  then have "filter P (db_outbox s) = filter (\<lambda>x. out_id x = out_id row) (db_outbox s)"
    using assms(7,8) can by (intro filter_cong) (auto simp: P_def)
  moreover have "length (filter (\<lambda>x. out_id x = out_id row) (db_outbox s)) = 1"
    using distinct_length_filter[of "map out_id (db_outbox s)" "\<lambda>x. x = out_id row"] assms(5,6)
    by (simp add: filter_map comp_def)
  ultimately have one: "rows_affected P (db_outbox s') = 1" by (simp add: rows_affected_def out)
  have closed: "out_id row \<notin> open_commands (snd (CompleteStartIfRunCancelled env' s' (out_id row) run))"
    using uniq assms(7,8) can
    by (auto simp: open_commands_def CompleteStartIfRunCancelled_def Let_def out update_rows_def complete_row_def split: if_splits)
  have "filter (\<lambda>c. can_run_uid c = run \<and> \<not> can_delivered c \<and> \<not> start_open s' run) (db_cancellations s) = []"
    using assms(4) by (auto simp: filter_empty_conv exists_row_iff)
  then have "fst (MarkRunCancellationDeliveredIfStartImpossible env' s' run) \<longleftrightarrow> \<not> start_open s' run"
    by (simp add: MarkRunCancellationDeliveredIfStartImpossible_def Let_def rows_affected_def out s1_def)
  moreover have "fst (CompleteStartIfRunCancelled env' s' (out_id row) run)"
    using one by (simp add: CompleteStartIfRunCancelled_def Let_def P_def)
  ultimately show ?thesis using ok fr closed by (auto simp: f_def split: option.split)
qed

text \<open>An approval is decided once. A decision commits exactly when it is \<open>approved\<close> or \<open>rejected\<close>
  and the approval is pending; after it the stored state is that decision, every further decision
  fails, and creating the approval again changes nothing.\<close>

theorem approval_is_decided_once:
  assumes "ApprovalState s run node = Inr ''pending''" and "st = ''approved'' \<or> st = ''rejected''"
    and "length (filter (\<lambda>a. app_run_uid a = run \<and> app_node_id a = node) (db_approvals s)) = 1"
  shows "\<exists>s'. DecideApproval env s run node st actor reason = Inr s' \<and> ApprovalState s' run node = Inr st \<and>
    (\<forall>env' st' actor' reason'. \<not> is_ok (DecideApproval env' s' run node st' actor' reason')) \<and>
    (\<forall>t. EnsureApproval s' run node t = Inr s')"
proof -
  obtain a where a: "filter (\<lambda>a. app_run_uid a = run \<and> app_node_id a = node) (db_approvals s) = [a]"
    using assms(3) by (auto simp: length_Suc_conv)
  then have mem: "x \<in> set (db_approvals s) \<and> app_run_uid x = run \<and> app_node_id x = node \<longleftrightarrow> x = a" for x
    by (metis (mono_tags, lifting) filter_set list.set(1) list.simps(15) mem_Collect_eq set_filter singletonD singletonI)
  obtain b where b: "select_row (\<lambda>a. app_run_uid a = run \<and> app_node_id a = node) (db_approvals s) = Some b" "app_state b = ''pending''"
    using assms(1) by (auto simp: ApprovalState_def)
  have ab: "b = a" using select_row_SomeD[OF b(1)] mem by blast
  let ?P = "\<lambda>a. app_run_uid a = run \<and> app_node_id a = node \<and> app_state a = ''pending''"
  let ?f = "\<lambda>a. a\<lparr>app_state := st, app_actor := actor, app_reason := reason, app_decided := Some (env_now env), app_signal_delivered := False\<rparr>"
  define s' where "s' = s\<lparr>db_approvals := update_rows ?P ?f (db_approvals s)\<rparr>"
  have "rows_affected ?P (db_approvals s) \<noteq> 0" using b ab mem by (auto simp: rows_affected_0 exists_row_iff)
  then have ok: "DecideApproval env s run node st actor reason = Inr s'"
    using assms(2) by (auto simp: DecideApproval_def Let_def s'_def)
  have "select_row (\<lambda>a. app_run_uid a = run \<and> app_node_id a = node) (db_approvals s') = Some (?f a)"
    by (simp add: s'_def, subst select_row_update_key) (use b ab select_row_SomeD[OF b(1)] in auto)
  then have st': "ApprovalState s' run node = Inr st" "exists_row (\<lambda>a. app_run_uid a = run \<and> app_node_id a = node) (db_approvals s')"
    by (auto simp: ApprovalState_def exists_row_iff dest: select_row_SomeD)
  have "\<not> exists_row ?P (db_approvals s')"
  proof
    assume "exists_row ?P (db_approvals s')"
    then obtain x where x: "x \<in> set (update_rows ?P ?f (db_approvals s))" "?P x" by (auto simp: exists_row_iff s'_def)
    from x(1) obtain y where "x = (if ?P y then ?f y else y)" by (rule update_rowsE)
    then show False using x(2) assms(2) by (cases "?P y") auto
  qed
  then have "rows_affected ?P (db_approvals s') = 0" by (simp add: rows_affected_0)
  then have "\<not> is_ok (DecideApproval env' s' run node st' actor' reason')" for env' st' actor' reason'
    by (auto simp: DecideApproval_def Let_def is_ok_def fail_if_def split: if_splits)
  then show ?thesis using ok st' by (auto simp: EnsureApproval_def)
qed


definition sample_started :: db where
  "sample_started = run_requests exec_run
     [(sample_env, ReqEnsureRun (start_payload_of ''rc1'' ''run1'' sample_acceptance) sample_plan),
      (sample_env, ReqEnsureApproval ''run1'' ''a'' None)] sample_accepted"

lemma sample_started_inv: "runs_inv sample_started"
proof -
  have e: "db_runs sample_accepted = []" "db_run_events sample_accepted = []" "db_attempts sample_accepted = []"
    by code_simp+
  have "runs_inv sample_accepted"
    by (rule runs_frame(1)[OF empty_runs_inv]) (simp_all add: e empty_db_def)
  then show ?thesis unfolding sample_started_def by (rule run_log.inv_run) (simp add: list_all_iff)
qed

lemma sample_started_run:
  obtains r where "find_run sample_started ''run1'' = Some r" "run_phase r = ''pending''" "r \<in> set (db_runs sample_started)"
proof -
  have "(case find_run sample_started ''run1'' of None \<Rightarrow> False | Some r \<Rightarrow> run_phase r = ''pending'')" by code_simp
  then obtain r where r: "find_run sample_started ''run1'' = Some r" "run_phase r = ''pending''" by (auto split: option.splits)
  then show ?thesis using that find_run_SomeD[OF r(1)] by blast
qed

definition sample_cancelled :: db where
  "sample_cancelled = run_requests exec_run [(sample_env, ReqCancelRun ''run1'' ''operator'')] sample_started"



definition sample_attempt :: attempt_row where
  "sample_attempt = \<lparr>att_run_uid = ''run1'', att_node_id = ''a'', att_iteration = 0, att_attempt = 1, att_framework = 1,
     att_phase = ''running'', att_key = ''key'', att_input = JObj [], att_output = None, att_error = [], att_exit = [],
     att_started = 5, att_completed = None\<rparr>"

definition sample_begun :: db where
  "sample_begun = sample_started\<lparr>db_attempts := [sample_attempt]\<rparr>"

theorem attempt_outcome_is_final_witness:
  "\<exists>a s'. CompleteNodeAttempt sample_env sample_begun ''run1'' ''a'' 0 1 ''succeeded'' None [] [] = Inr (a, s') \<and>
     CompleteNodeAttempt sample_env s' ''run1'' ''a'' 0 1 ''failed'' None ''late'' [] = Inr (a, s')"
proof -
  obtain r where "find_run sample_started ''run1'' = Some r" by (rule sample_started_run)
  then have "has_run sample_started ''run1''" by (rule find_run_has_run)
  then have ok0: "attempts_ok sample_begun"
    by (auto simp: attempts_ok_def attempts_of_def sample_begun_def sample_attempt_def has_run_def)
  have "is_ok (CompleteNodeAttempt sample_env sample_begun ''run1'' ''a'' 0 1 ''succeeded'' None [] [])" by code_simp
  then obtain a s' where ok: "CompleteNodeAttempt sample_env sample_begun ''run1'' ''a'' 0 1 ''succeeded'' None [] [] = Inr (a, s')"
    by (auto simp: is_ok_def split: sum.splits)
  show ?thesis
    using attempt_outcome_is_final[OF ok0 ok] ok by auto
qed

theorem cancellation_suppresses_start_witness:
  "\<exists>s'. RequestRunCancellation sample_env sample_started ''run1'' ''operator'' = Inr s' \<and>
     fst (CompleteStartIfRunCancelled sample_env s' 1 ''run1'')"
proof -
  obtain r where r: "find_run sample_started ''run1'' = Some r" "run_phase r = ''pending''" by (rule sample_started_run)
  have "\<not> exists_row (\<lambda>c. can_run_uid c = ''run1'') (db_cancellations sample_started)"
    and "map (\<lambda>x. (out_id x, command_type (out_command x), out_aggregate_uid x)) (db_outbox sample_started) =
      [(1, ''start-run'', ''run1'')]" by code_simp+
  moreover then obtain row where "db_outbox sample_started = [row]" "out_id row = 1"
    "command_type (out_command row) = ''start-run''" "out_aggregate_uid row = ''run1''" by auto
  ultimately show ?thesis
    using cancellation_suppresses_start[OF sample_started_inv r(1), of row sample_env "''operator''" sample_env] r(2) by auto
qed

theorem approval_is_decided_once_witness:
  "\<exists>s'. DecideApproval sample_env sample_started ''run1'' ''a'' ''approved'' ''op'' [] = Inr s' \<and>
     ApprovalState s' ''run1'' ''a'' = Inr ''approved'' \<and>
     \<not> is_ok (DecideApproval sample_env s' ''run1'' ''a'' ''rejected'' ''op'' [])"
proof -
  have "ApprovalState sample_started ''run1'' ''a'' = Inr ''pending''"
    "length (filter (\<lambda>a. app_run_uid a = ''run1'' \<and> app_node_id a = ''a'') (db_approvals sample_started)) = 1"
    by code_simp+
  then show ?thesis
    using approval_is_decided_once[of sample_started "''run1''" "''a''" "''approved''" sample_env "''op''" "[]"] by auto
qed

end
