(* ===== verification/Store_Plugins.thy ===== *)
theory Store_Plugins
  imports Store_Runs
begin

text \<open>
  Plugin installations and activations of \<open>internal/store/store.go\<close>: immutable versions bound to one
  digest and one action contract, and at most one active version for each name.

  The invariant \<open>plugins_inv\<close>: versions and digests are unique, an activation names an installed
  version, and exactly the activated versions are in state \<open>active\<close>.
\<close>

record plugin_record =
  pr_name :: string
  pr_version :: string
  pr_digest :: string
  pr_manifest :: json
  pr_contract :: "json option"
  pr_contract_digest :: string
  pr_state :: string
  pr_installed :: "time option"
  pr_active :: bool

abbreviation ins_at :: "string \<Rightarrow> string \<Rightarrow> installation_row \<Rightarrow> bool" where
  "ins_at name version i \<equiv> ins_name i = name \<and> ins_version i = version"

definition PutPlugin :: "store_env \<Rightarrow> db \<Rightarrow> plugin_record \<Rightarrow> (store_error, db) result" where
  "PutPlugin env s r =
     (case select_row (ins_at (pr_name r) (pr_version r)) (db_installations s) of
        Some e \<Rightarrow>
          bind_res (fail_if (ins_digest e \<noteq> pr_digest r) (ErrText ''plugin version already has another digest'')) (\<lambda>_.
          if ins_contract_digest e = [] \<and> ins_contract e = None \<and> pr_contract_digest r \<noteq> []
          then Inr (s\<lparr>db_installations := update_rows
                 (\<lambda>i. ins_at (pr_name r) (pr_version r) i \<and> ins_contract_digest i = [])
                 (\<lambda>i. i\<lparr>ins_contract := pr_contract r, ins_contract_digest := pr_contract_digest r\<rparr>) (db_installations s)\<rparr>)
          else bind_res (fail_if (ins_contract_digest e \<noteq> pr_contract_digest r)
                 (ErrText ''plugin action contract changed under the same immutable digest'')) (\<lambda>_. Inr s))
      | None \<Rightarrow>
          bind_res (fail_if (pr_contract_digest r = [] \<or> pr_contract r = None)
                      (ErrText ''plugin action contract is required'')) (\<lambda>_.
          bind_res (fail_if (exists_row (\<lambda>i. ins_digest i = pr_digest r) (db_installations s)) ErrConstraint) (\<lambda>_.
          Inr (s\<lparr>db_installations := db_installations s @ [\<lparr>ins_name = pr_name r, ins_version = pr_version r,
            ins_digest = pr_digest r, ins_manifest = pr_manifest r, ins_contract = pr_contract r,
            ins_contract_digest = pr_contract_digest r, ins_state = valueOr (pr_state r) ''installed'',
            ins_installed = (case pr_installed r of None \<Rightarrow> env_now env | Some t \<Rightarrow> t)\<rparr>]\<rparr>))))"

definition ActivatePlugin :: "store_env \<Rightarrow> db \<Rightarrow> string \<Rightarrow> string \<Rightarrow> (store_error, db) result" where
  "ActivatePlugin env s name version =
     bind_res (fail_if (\<not> exists_row (ins_at name version) (db_installations s)) ErrNotFound) (\<lambda>_.
     (let row = \<lparr>act_name = name, act_version = version, act_activated = env_now env\<rparr>;
          acts = (if exists_row (\<lambda>a. act_name a = name) (db_activations s)
                  then update_rows (\<lambda>a. act_name a = name) (\<lambda>_. row) (db_activations s)
                  else db_activations s @ [row])
      in Inr (s\<lparr>db_activations := acts,
                db_installations := map (\<lambda>i. i\<lparr>ins_state :=
                  (if ins_at name version i then ''active''
                   else if ins_name i = name \<and> ins_state i = ''active'' then ''installed''
                   else ins_state i)\<rparr>) (db_installations s)\<rparr>)))"

definition DisablePlugin :: "db \<Rightarrow> string \<Rightarrow> (store_error, db) result" where
  "DisablePlugin s name =
     bind_res (fail_if (rows_affected (\<lambda>a. act_name a = name) (db_activations s) = 0) ErrNotFound) (\<lambda>_.
     Inr (s\<lparr>db_activations := delete_rows (\<lambda>a. act_name a = name) (db_activations s),
            db_installations := update_rows (\<lambda>i. ins_name i = name \<and> ins_state i = ''active'')
              (\<lambda>i. i\<lparr>ins_state := ''installed''\<rparr>) (db_installations s)\<rparr>))"

definition is_active :: "db \<Rightarrow> string \<Rightarrow> string \<Rightarrow> bool" where
  "is_active s name version \<longleftrightarrow> exists_row (\<lambda>a. act_name a = name \<and> act_version a = version) (db_activations s)"

definition plugin_of :: "db \<Rightarrow> installation_row \<Rightarrow> plugin_record" where
  "plugin_of s i = \<lparr>pr_name = ins_name i, pr_version = ins_version i, pr_digest = ins_digest i,
     pr_manifest = ins_manifest i, pr_contract = ins_contract i, pr_contract_digest = ins_contract_digest i,
     pr_state = ins_state i, pr_installed = Some (ins_installed i),
     pr_active = is_active s (ins_name i) (ins_version i)\<rparr>"

definition Plugin :: "db \<Rightarrow> string \<Rightarrow> string \<Rightarrow> (store_error, plugin_record) result" where
  "Plugin s name version =
     (if version = [] then
        bind_res (or_fail ErrNotFound (select_row (\<lambda>i. ins_name i = name \<and> is_active s name (ins_version i)) (db_installations s)))
          (\<lambda>i. Inr (plugin_of s i))
      else bind_res (or_fail ErrNotFound (select_row (ins_at name version) (db_installations s))) (\<lambda>i. Inr (plugin_of s i)))"

definition ListPlugins :: "db \<Rightarrow> plugin_record list" where
  "ListPlugins s = map (plugin_of s) (sort_key (\<lambda>i. (ins_name i, ins_version i)) (db_installations s))"

section \<open>The invariant\<close>

definition plugins_inv :: "db \<Rightarrow> bool" where
  "plugins_inv s \<longleftrightarrow> distinct (map (\<lambda>i. (ins_name i, ins_version i)) (db_installations s)) \<and>
     distinct (map ins_digest (db_installations s)) \<and> distinct (map act_name (db_activations s)) \<and>
     (\<forall>a \<in> set (db_activations s). exists_row (ins_at (act_name a) (act_version a)) (db_installations s)) \<and>
     (\<forall>i \<in> set (db_installations s). ins_state i = ''active'' \<longleftrightarrow> is_active s (ins_name i) (ins_version i))"

lemma PutPlugin_cases:
  assumes "PutPlugin env s r = Inr s'"
  obtains "s' = s"
  | "s' = s\<lparr>db_installations := update_rows (\<lambda>i. ins_at (pr_name r) (pr_version r) i \<and> ins_contract_digest i = [])
       (\<lambda>i. i\<lparr>ins_contract := pr_contract r, ins_contract_digest := pr_contract_digest r\<rparr>) (db_installations s)\<rparr>"
  | i where "\<not> exists_row (ins_at (pr_name r) (pr_version r)) (db_installations s)"
      "\<not> exists_row (\<lambda>i. ins_digest i = pr_digest r) (db_installations s)"
      "s' = s\<lparr>db_installations := db_installations s @ [i]\<rparr>" "ins_name i = pr_name r" "ins_version i = pr_version r"
      "ins_digest i = pr_digest r" "ins_state i = valueOr (pr_state r) ''installed''"
proof (cases "select_row (ins_at (pr_name r) (pr_version r)) (db_installations s)")
  case None
  then have "\<not> exists_row (ins_at (pr_name r) (pr_version r)) (db_installations s)"
    by (auto simp: select_row_None exists_row_iff)
  then show ?thesis using that(3) assms None by (auto simp: PutPlugin_def)
next
  case (Some e)
  then show ?thesis using that(1,2) assms by (auto simp: PutPlugin_def split: if_splits)
qed

lemma PutPlugin_inv:
  assumes inv: "plugins_inv s" and ok: "PutPlugin env s r = Inr s'" and st: "pr_state r \<noteq> ''active''"
  shows "plugins_inv s'"
  using ok
proof (cases rule: PutPlugin_cases)
  case 1
  then show ?thesis using inv by simp
next
  case 2
  let ?P = "\<lambda>i. ins_at (pr_name r) (pr_version r) i \<and> ins_contract_digest i = []"
  let ?f = "\<lambda>i :: installation_row. i\<lparr>ins_contract := pr_contract r, ins_contract_digest := pr_contract_digest r\<rparr>"
  have k: "ins_name (if ?P i then ?f i else i) = ins_name i" "ins_version (if ?P i then ?f i else i) = ins_version i"
    "ins_digest (if ?P i then ?f i else i) = ins_digest i" "ins_state (if ?P i then ?f i else i) = ins_state i" for i by auto
  have ins: "db_installations s' = update_rows ?P ?f (db_installations s)" and act: "db_activations s' = db_activations s" using 2 by simp_all
  have "\<forall>i \<in> set (db_installations s'). ins_state i = ''active'' \<longleftrightarrow> is_active s' (ins_name i) (ins_version i)"
    unfolding ins by (intro ballI, elim update_rowsE) (use inv k in \<open>auto simp: plugins_inv_def is_active_def act\<close>)
  moreover have "exists_row (ins_at n v) (db_installations s') \<longleftrightarrow> exists_row (ins_at n v) (db_installations s)" for n v
    unfolding ins exists_row_update k by simp
  ultimately show ?thesis using inv by (simp add: plugins_inv_def act) (simp add: ins map_update_rows)
next
  case (3 i)
  then have "\<not> is_active s (pr_name r) (pr_version r)" using inv by (auto simp: plugins_inv_def is_active_def exists_row_iff)
  moreover have "ins_state i \<noteq> ''active''" using 3 st by (auto simp: valueOr_def)
  ultimately show ?thesis using inv 3 by (auto simp: plugins_inv_def is_active_def exists_row_iff)
qed

lemma ActivatePlugin_effect:
  assumes inv: "plugins_inv s" and ok: "ActivatePlugin env s name version = Inr s'"
  shows "is_active s' n v \<longleftrightarrow> (if n = name then v = version else is_active s n v)"
    and "distinct (map act_name (db_activations s'))"
proof -
  have d: "distinct (map act_name (db_activations s))" using inv by (simp add: plugins_inv_def)
  let ?row = "\<lparr>act_name = name, act_version = version, act_activated = env_now env\<rparr>"
  have row: "act_name (if act_name a = name then ?row else a) = n \<and> act_version (if act_name a = name then ?row else a) = v \<longleftrightarrow>
      (if act_name a = name then n = name \<and> v = version else act_name a = n \<and> act_version a = v)" for a by auto
  have acts: "db_activations s' = (if exists_row (\<lambda>a. act_name a = name) (db_activations s)
      then update_rows (\<lambda>a. act_name a = name) (\<lambda>_. ?row) (db_activations s) else db_activations s @ [?row])"
    using ok by (auto simp: ActivatePlugin_def Let_def)
  show "is_active s' n v \<longleftrightarrow> (if n = name then v = version else is_active s n v)"
    unfolding is_active_def acts by (auto simp: exists_row_update row) (auto simp: exists_row_iff)
  show "distinct (map act_name (db_activations s'))"
  proof (cases "exists_row (\<lambda>a. act_name a = name) (db_activations s)")
    case True
    then show ?thesis using d by (simp add: acts map_update_rows)
  next
    case False
    then show ?thesis using d by (auto simp: acts exists_row_iff)
  qed
qed

lemma ActivatePlugin_inv:
  assumes inv: "plugins_inv s" and ok: "ActivatePlugin env s name version = Inr s'"
  shows "plugins_inv s'"
proof -
  note e = ActivatePlugin_effect[OF inv ok]
  have ex: "exists_row (ins_at name version) (db_installations s)" using ok by (simp add: ActivatePlugin_def)
  have ins: "db_installations s' = map (\<lambda>i. i\<lparr>ins_state := (if ins_at name version i then ''active''
       else if ins_name i = name \<and> ins_state i = ''active'' then ''installed'' else ins_state i)\<rparr>) (db_installations s)"
    using ok by (auto simp: ActivatePlugin_def Let_def)
  have "exists_row (ins_at (act_name a) (act_version a)) (db_installations s')" if "a \<in> set (db_activations s')" for a
  proof -
    have "is_active s' (act_name a) (act_version a)" using that by (auto simp: is_active_def exists_row_iff)
    then have "exists_row (ins_at (act_name a) (act_version a)) (db_installations s)"
    proof (cases "act_name a = name")
      case True
      then show ?thesis using e(1)[of "act_name a" "act_version a"] ex \<open>is_active s' (act_name a) (act_version a)\<close> by simp
    next
      case False
      then have "is_active s (act_name a) (act_version a)" using e(1) \<open>is_active s' (act_name a) (act_version a)\<close> by simp
      then obtain b where "b \<in> set (db_activations s)" "act_name b = act_name a" "act_version b = act_version a"
        by (auto simp: is_active_def exists_row_iff)
      moreover have "\<forall>b \<in> set (db_activations s). exists_row (ins_at (act_name b) (act_version b)) (db_installations s)"
        using inv by (simp add: plugins_inv_def)
      ultimately show ?thesis by fastforce
    qed
    then show ?thesis by (simp add: exists_row_iff ins)
  qed
  moreover have "ins_state i = ''active'' \<longleftrightarrow> is_active s' (ins_name i) (ins_version i)" if "i \<in> set (db_installations s')" for i
    using that e(1) inv by (auto simp: ins plugins_inv_def split: if_splits)
  moreover have "map (\<lambda>i. (ins_name i, ins_version i)) (db_installations s') = map (\<lambda>i. (ins_name i, ins_version i)) (db_installations s)"
    "map ins_digest (db_installations s') = map ins_digest (db_installations s)" by (simp_all add: ins)
  moreover have "distinct (map (\<lambda>i. (ins_name i, ins_version i)) (db_installations s))" "distinct (map ins_digest (db_installations s))"
    using inv by (simp_all add: plugins_inv_def)
  ultimately show ?thesis using e(2) unfolding plugins_inv_def by simp
qed

lemma DisablePlugin_inv:
  assumes inv: "plugins_inv s" and ok: "DisablePlugin s name = Inr s'"
  shows "plugins_inv s'"
proof -
  have s': "db_activations s' = delete_rows (\<lambda>a. act_name a = name) (db_activations s)"
    "db_installations s' = update_rows (\<lambda>i. ins_name i = name \<and> ins_state i = ''active'') (\<lambda>i. i\<lparr>ins_state := ''installed''\<rparr>) (db_installations s)"
    using ok by (auto simp: DisablePlugin_def)
  have act: "is_active s' n v \<longleftrightarrow> is_active s n v \<and> n \<noteq> name" for n v
    by (auto simp: is_active_def s' exists_row_iff set_delete_rows)
  have "ins_state i = ''active'' \<longleftrightarrow> is_active s' (ins_name i) (ins_version i)" if i: "i \<in> set (db_installations s')" for i
  proof -
    obtain j where "j \<in> set (db_installations s)"
      "i = (if ins_name j = name \<and> ins_state j = ''active'' then j\<lparr>ins_state := ''installed''\<rparr> else j)"
      using i unfolding s' by (rule update_rowsE)
    then show ?thesis using inv act by (auto simp: plugins_inv_def split: if_splits)
  qed
  moreover have "exists_row (ins_at (act_name a) (act_version a)) (db_installations s')" if "a \<in> set (db_activations s')" for a
    using that inv by (fastforce simp: plugins_inv_def s' set_delete_rows exists_row_iff update_rows_def)
  ultimately show ?thesis using inv by (auto simp: plugins_inv_def s' map_update_rows)
qed

datatype plugin_request = ReqPutPlugin plugin_record | ReqActivate string string | ReqDisable string

fun exec_plugin :: "store_env \<times> plugin_request \<Rightarrow> db \<Rightarrow> (store_error, unit \<times> db) result" where
  "exec_plugin (env, ReqPutPlugin r) s = bind_res (PutPlugin env s r) (\<lambda>s'. Inr ((), s'))"
| "exec_plugin (env, ReqActivate name version) s = bind_res (ActivatePlugin env s name version) (\<lambda>s'. Inr ((), s'))"
| "exec_plugin (env, ReqDisable name) s = bind_res (DisablePlugin s name) (\<lambda>s'. Inr ((), s'))"

fun plugin_request_ok :: "store_env \<times> plugin_request \<Rightarrow> bool" where
  "plugin_request_ok (env, ReqPutPlugin r) \<longleftrightarrow> pr_state r \<noteq> ''active''"
| "plugin_request_ok _ \<longleftrightarrow> True"

text \<open>A version keeps the digest, and the contract digest once it has one.\<close>

definition versions_kept :: "db \<Rightarrow> db \<Rightarrow> bool" where
  "versions_kept s s' \<longleftrightarrow> (\<forall>i \<in> set (db_installations s). \<exists>j \<in> set (db_installations s').
     ins_name j = ins_name i \<and> ins_version j = ins_version i \<and> ins_digest j = ins_digest i \<and>
     (ins_contract_digest i \<noteq> [] \<longrightarrow> ins_contract_digest j = ins_contract_digest i))"

lemma versions_kept_update:
  assumes "db_installations s' = update_rows P f (db_installations s)"
    and "\<And>i. P i \<Longrightarrow> ins_name (f i) = ins_name i \<and> ins_version (f i) = ins_version i \<and> ins_digest (f i) = ins_digest i \<and>
      (ins_contract_digest i \<noteq> [] \<longrightarrow> ins_contract_digest (f i) = ins_contract_digest i)"
  shows "versions_kept s s'"
  unfolding versions_kept_def
proof
  fix i assume "i \<in> set (db_installations s)"
  then have "(if P i then f i else i) \<in> set (db_installations s')" unfolding assms(1) by (rule update_rows_in)
  then show "\<exists>j \<in> set (db_installations s'). ins_name j = ins_name i \<and> ins_version j = ins_version i \<and> ins_digest j = ins_digest i \<and>
     (ins_contract_digest i \<noteq> [] \<longrightarrow> ins_contract_digest j = ins_contract_digest i)"
    by (rule bexI[rotated]) (use assms(2) in auto)
qed

lemma PutPlugin_kept: "PutPlugin env s r = Inr s' \<Longrightarrow> versions_kept s s'"
proof (erule PutPlugin_cases)
  assume "s' = s\<lparr>db_installations := update_rows (\<lambda>i. ins_at (pr_name r) (pr_version r) i \<and> ins_contract_digest i = [])
       (\<lambda>i. i\<lparr>ins_contract := pr_contract r, ins_contract_digest := pr_contract_digest r\<rparr>) (db_installations s)\<rparr>"
  then have "db_installations s' = update_rows (\<lambda>i. ins_at (pr_name r) (pr_version r) i \<and> ins_contract_digest i = [])
       (\<lambda>i. i\<lparr>ins_contract := pr_contract r, ins_contract_digest := pr_contract_digest r\<rparr>) (db_installations s)" by simp
  then show ?thesis by (rule versions_kept_update) auto
qed (auto simp: versions_kept_def)

lemma exec_plugin_step:
  assumes inv: "plugins_inv s" and q: "plugin_request_ok q" and ok: "exec_plugin q s = Inr (x, s')"
  shows "plugins_inv s' \<and> versions_kept s s'"
proof (cases "(q, s)" rule: exec_plugin.cases)
  case (1 env r s0)
  then have p: "PutPlugin env s r = Inr s'" using ok by auto
  have "versions_kept s s'" by (rule PutPlugin_kept[OF p])
  then show ?thesis using PutPlugin_inv[OF inv p] q 1 by auto
next
  case (2 env name version s0)
  then have p: "ActivatePlugin env s name version = Inr s'" using ok by auto
  have "versions_kept s s'" using p by (auto simp: ActivatePlugin_def Let_def versions_kept_def)
  then show ?thesis using ActivatePlugin_inv[OF inv p] by auto
next
  case (3 env name s0)
  then have p: "DisablePlugin s name = Inr s'" using ok by auto
  then have "db_installations s' = update_rows (\<lambda>i. ins_name i = name \<and> ins_state i = ''active'')
      (\<lambda>i. i\<lparr>ins_state := ''installed''\<rparr>) (db_installations s)" by (auto simp: DisablePlugin_def)
  then have "versions_kept s s'" by (rule versions_kept_update) auto
  then show ?thesis using DisablePlugin_inv[OF inv p] by auto
qed

interpretation plugin_versions: monotone_transactions plugins_inv plugin_request_ok exec_plugin versions_kept
proof
  show "versions_kept s s" for s by (auto simp: versions_kept_def)
  show "versions_kept s u" if "versions_kept s t" "versions_kept t u" for s t u
    using that unfolding versions_kept_def by metis
qed (use exec_plugin_step in blast)+

lemma empty_plugins_inv: "plugins_inv empty_db"
  by (simp add: plugins_inv_def empty_db_def)

section \<open>Properties\<close>

text \<open>An activation switches one name to one installed version. After any plugin requests,
  \<open>ActivatePlugin\<close> fails exactly for a version that is not installed; otherwise that version
  becomes the only active one of its name, both in the activation table and in the version states, and other
  names keep theirs. No request changes the digest or the contract digest of an installed version.\<close>

theorem activation_is_exclusive:
  assumes "list_all plugin_request_ok qs" and "s = run_requests exec_plugin qs empty_db"
  shows "if exists_row (ins_at name version) (db_installations s)
    then \<exists>s'. ActivatePlugin env s name version = Inr s' \<and> versions_kept s s' \<and>
      (\<forall>n v. is_active s' n v \<longleftrightarrow> (if n = name then v = version else is_active s n v)) \<and>
      (\<forall>i \<in> set (db_installations s'). ins_name i = name \<longrightarrow> (ins_state i = ''active'' \<longleftrightarrow> ins_version i = version))
    else ActivatePlugin env s name version = Inl ErrNotFound"
proof -
  have inv: "plugins_inv s" using plugin_versions.inv_run[OF empty_plugins_inv assms(1)] assms(2) by simp
  show ?thesis
  proof (cases "exists_row (ins_at name version) (db_installations s)")
    case False
    then show ?thesis by (simp add: ActivatePlugin_def)
  next
    case True
    then obtain s' where ok: "ActivatePlugin env s name version = Inr s'" by (simp add: ActivatePlugin_def Let_def)
    have e: "exec_plugin (env, ReqActivate name version) s = Inr ((), s')" using ok by simp
    have "plugins_inv s' \<and> versions_kept s s'" by (rule exec_plugin_step[OF inv _ e]) simp
    then show ?thesis using True ok ActivatePlugin_effect(1)[OF inv ok] by (auto simp: plugins_inv_def)
  qed
qed

definition sample_plugin :: plugin_record where
  "sample_plugin = \<lparr>pr_name = ''github'', pr_version = ''1.0.0'', pr_digest = ''d1'', pr_manifest = JObj [],
     pr_contract = Some (JObj []), pr_contract_digest = ''c1'', pr_state = [], pr_installed = None, pr_active = False\<rparr>"

theorem activation_is_exclusive_witness:
  "\<exists>s'. ActivatePlugin sample_env (run_requests exec_plugin [(sample_env, ReqPutPlugin sample_plugin)] empty_db)
     ''github'' ''1.0.0'' = Inr s' \<and> is_active s' ''github'' ''1.0.0''"
proof -
  have "exists_row (ins_at ''github'' ''1.0.0'')
      (db_installations (run_requests exec_plugin [(sample_env, ReqPutPlugin sample_plugin)] empty_db))"
    and "list_all plugin_request_ok [(sample_env, ReqPutPlugin sample_plugin)]" by code_simp+
  then show ?thesis
    using activation_is_exclusive[OF _ refl, of "[(sample_env, ReqPutPlugin sample_plugin)]" "''github''" "''1.0.0''" sample_env]
    by auto
qed

end
