(* ===== verification/Store_Retention.thy ===== *)
theory Store_Retention
  imports Store_Plugins
begin

text \<open>
  \<open>internal/store/retention.go\<close>: which terminal Runs and inactive plugin versions may be removed, and
  their removal in one transaction that checks again.

  The properties: a removal leaves every occurrence bound to its Run (the receipt becomes a
  tombstone), touches no other Run, and a plan computed in the same state is always collectable;
  neither an active nor a referenced plugin version is removed. A compiled plan survives only as long
  as a Run row uses it: the last property exhibits a pending start command that loses its plan.
\<close>

record retention_run =
  rr_uid :: string
  rr_completed :: time
  rr_artifactPaths :: "string list"
  rr_artifactBytes :: int

record retention_plugin =
  rp_name :: string
  rp_version :: string
  rp_digest :: string
  rp_installed :: time

section \<open>Runs\<close>

definition open_work :: "db \<Rightarrow> string \<Rightarrow> bool" where
  "open_work s uid \<longleftrightarrow> exists_row (\<lambda>r. out_aggregate_uid r = uid \<and> out_state r \<noteq> ''completed'') (db_outbox s)"

text \<open>\<open>ORDER BY completed_at DESC,uid DESC LIMIT ?\<close>; a NULL sorts before every text.\<close>

definition newest_terminal :: "db \<Rightarrow> nat \<Rightarrow> run_row list" where
  "newest_terminal s keepRecent = take keepRecent
     (rev (sort_key (\<lambda>r. (run_completed r \<noteq> None,
                          (case run_completed r of None \<Rightarrow> (0, []) | Some t \<Rightarrow> ts_key t), run_uid r))
       (filter (\<lambda>r. terminalRunPhase (run_phase r)) (db_runs s))))"

definition retention_candidates :: "db \<Rightarrow> time \<Rightarrow> nat \<Rightarrow> (time \<times> string) list" where
  "retention_candidates s completedBefore keepRecent =
     sort_key (\<lambda>(t, uid). (ts_key t, uid))
       (List.map_filter (\<lambda>r. case run_completed r of None \<Rightarrow> None
          | Some t \<Rightarrow> if terminalRunPhase (run_phase r) \<and> ts_less t completedBefore \<and> \<not> open_work s (run_uid r) \<and>
                         run_uid r \<notin> set (map run_uid (newest_terminal s keepRecent))
                      then Some (t, run_uid r) else None) (db_runs s))"

definition run_artifacts :: "db \<Rightarrow> string \<Rightarrow> artifact_row list" where
  "run_artifacts s uid = sort_key art_relative_path (filter (\<lambda>a. art_run_uid a = uid) (db_artifacts s))"

definition PlanRunRetention ::
    "db \<Rightarrow> time option \<Rightarrow> int \<Rightarrow> int \<Rightarrow> (store_error, retention_run list) result" where
  "PlanRunRetention s completedBefore keepRecent limit =
     bind_res (or_fail (ErrText ''retention cutoff is required'') completedBefore) (\<lambda>cutoff.
     bind_res (fail_if (keepRecent < 0) (ErrText ''retention keepRecent must not be negative'')) (\<lambda>_.
     bind_res (fail_if (limit < 1 \<or> limit > 1000) (ErrText ''retention limit must be between 1 and 1000'')) (\<lambda>_.
     Inr (map (\<lambda>(t, uid). \<lparr>rr_uid = uid, rr_completed = t,
                rr_artifactPaths = map art_relative_path (run_artifacts s uid),
                rr_artifactBytes = sum_list (map art_size (run_artifacts s uid))\<rparr>)
            (take (nat limit) (retention_candidates s cutoff (nat keepRecent)))))))"

text \<open>\<open>INSERT OR IGNORE INTO occurrence_tombstones ... SELECT ... FROM trigger_receipts\<close>\<close>

definition tombstone_of :: "time \<Rightarrow> receipt_row \<Rightarrow> tombstone_row" where
  "tombstone_of now r = \<lparr>tmb_trigger_uid = rcpt_trigger_uid r, tmb_occurrence_id = rcpt_occurrence_id r,
     tmb_receipt_uid = rcpt_uid r, tmb_run_uid = rcpt_run_uid r, tmb_deduplicated = rcpt_deduplicated r,
     tmb_accepted = rcpt_accepted r, tmb_collected = now\<rparr>"

fun insert_tombstones :: "time \<Rightarrow> receipt_row list \<Rightarrow> tombstone_row list \<Rightarrow> tombstone_row list" where
  "insert_tombstones now [] ts = ts"
| "insert_tombstones now (r # rs) ts = insert_tombstones now rs
     (if exists_row (\<lambda>t. tmb_trigger_uid t = rcpt_trigger_uid r \<and> tmb_occurrence_id t = rcpt_occurrence_id r) ts
      then ts else ts @ [tombstone_of now r])"

definition remove_run :: "time \<Rightarrow> string \<Rightarrow> string \<Rightarrow> db \<Rightarrow> db" where
  "remove_run now uid planHash s =
     (let s1 = s\<lparr>db_plugin_events := delete_rows (\<lambda>r. pev_run_uid r = uid) (db_plugin_events s),
                 db_artifacts := delete_rows (\<lambda>r. art_run_uid r = uid) (db_artifacts s),
                 db_attempts := delete_rows (\<lambda>r. att_run_uid r = uid) (db_attempts s),
                 db_approvals := delete_rows (\<lambda>r. app_run_uid r = uid) (db_approvals s),
                 db_cancellations := delete_rows (\<lambda>r. can_run_uid r = uid) (db_cancellations s),
                 db_run_events := delete_rows (\<lambda>r. re_run_uid r = uid) (db_run_events s),
                 db_outbox := delete_rows (\<lambda>r. out_aggregate_uid r = uid \<and> out_state r = ''completed'') (db_outbox s),
                 db_tombstones := insert_tombstones now (filter (\<lambda>r. rcpt_run_uid r = uid) (db_receipts s)) (db_tombstones s),
                 db_runs := delete_rows (\<lambda>r. run_uid r = uid) (db_runs s),
                 db_receipts := delete_rows (\<lambda>r. rcpt_run_uid r = uid) (db_receipts s)\<rparr>
      in s1\<lparr>db_plans := delete_rows (\<lambda>p. cp_hash p = planHash \<and>
              \<not> exists_row (\<lambda>r. run_plan_hash r = planHash) (db_runs s1)) (db_plans s1)\<rparr>)"

definition collect_run :: "store_env \<Rightarrow> string \<Rightarrow> db \<Rightarrow> (store_error, db) result" where
  "collect_run env uid s =
     (case find_run s uid of None \<Rightarrow> Inr s
      | Some run \<Rightarrow>
          bind_res (fail_if (\<not> terminalRunPhase (run_phase run)) (ErrText ''retention Run is no longer terminal'')) (\<lambda>_.
          bind_res (fail_if (rows_affected (\<lambda>r. out_aggregate_uid r = uid \<and> out_state r \<noteq> ''completed'') (db_outbox s) \<noteq> 0)
                      (ErrText ''retention Run has incomplete dispatch work'')) (\<lambda>_.
          Inr (remove_run (env_now env) uid (run_plan_hash run) s))))"

fun collect_runs :: "store_env \<Rightarrow> string list \<Rightarrow> db \<Rightarrow> (store_error, db) result" where
  "collect_runs env [] s = Inr s"
| "collect_runs env (uid # uids) s = bind_res (collect_run env uid s) (collect_runs env uids)"

definition CollectRetainedRuns :: "store_env \<Rightarrow> db \<Rightarrow> string list \<Rightarrow> (store_error, db) result" where
  "CollectRetainedRuns env s runUIDs =
     bind_res (fail_if (length runUIDs > 1000) (ErrText ''retention collection exceeds 1000 Runs'')) (\<lambda>_.
     collect_runs env runUIDs s)"

section \<open>Plugin versions\<close>

definition pluginRetentionKey :: "string \<Rightarrow> string \<Rightarrow> string" where
  "pluginRetentionKey name version = name @ [CHR 0x00] @ version"

fun installation_keys :: "resource_lib \<Rightarrow> resource_row list \<Rightarrow> (store_error, string list) result" where
  "installation_keys lib [] = Inr []"
| "installation_keys lib (r # rs) =
     bind_res (map_err (\<lambda>e. ErrText e) (DecodePluginInstallation lib (res_json r))) (\<lambda>(m, p).
     bind_res (installation_keys lib rs) (\<lambda>ks. Inr (pluginRetentionKey (plg_plugin p) (plg_version p) # ks)))"

definition plan_keys :: "plan_row \<Rightarrow> string list" where
  "plan_keys p = List.map_filter (\<lambda>n. map_option (\<lambda>b. pluginRetentionKey (pb_name b) (pb_version b)) (pn_plugin n))
     (plan_nodes (cp_plan p))"

definition referencedPluginVersionsTx :: "resource_lib \<Rightarrow> db \<Rightarrow> (store_error, string list) result" where
  "referencedPluginVersionsTx lib s =
     bind_res (installation_keys lib (filter (\<lambda>r. res_kind r = ''PluginInstallation'') (db_resources s))) (\<lambda>ks.
     Inr (ks @ concat (map plan_keys (db_plans s))))"

definition PlanPluginRetention ::
    "resource_lib \<Rightarrow> db \<Rightarrow> time option \<Rightarrow> int \<Rightarrow> (store_error, retention_plugin list) result" where
  "PlanPluginRetention lib s installedBefore limit =
     (case installedBefore of None \<Rightarrow> Inl (ErrText ''plugin retention cutoff and limit are required'')
      | Some cutoff \<Rightarrow>
     bind_res (fail_if (limit < 1 \<or> limit > 1000) (ErrText ''plugin retention cutoff and limit are required'')) (\<lambda>_.
     bind_res (referencedPluginVersionsTx lib s) (\<lambda>referenced.
     Inr (take (nat limit) (map (\<lambda>r. \<lparr>rp_name = pr_name r, rp_version = pr_version r, rp_digest = pr_digest r,
                                     rp_installed = (case pr_installed r of None \<Rightarrow> 0 | Some t \<Rightarrow> t)\<rparr>)
       (filter (\<lambda>r. \<not> pr_active r \<and> (case pr_installed r of None \<Rightarrow> True | Some t \<Rightarrow> t < cutoff) \<and>
                    pluginRetentionKey (pr_name r) (pr_version r) \<notin> set referenced) (ListPlugins s)))))))"

definition CollectRetainedPlugin :: "resource_lib \<Rightarrow> db \<Rightarrow> retention_plugin \<Rightarrow> (store_error, db) result" where
  "CollectRetainedPlugin lib s c =
     (case select_row (ins_at (rp_name c) (rp_version c)) (db_installations s) of None \<Rightarrow> Inr s
      | Some i \<Rightarrow>
          bind_res (fail_if (is_active s (rp_name c) (rp_version c) \<or> ins_digest i \<noteq> rp_digest c)
                      (ErrText ''plugin retention candidate changed before collection'')) (\<lambda>_.
          bind_res (referencedPluginVersionsTx lib s) (\<lambda>referenced.
          bind_res (fail_if (pluginRetentionKey (rp_name c) (rp_version c) \<in> set referenced)
                      (ErrText ''plugin retention candidate became referenced'')) (\<lambda>_.
          Inr (s\<lparr>db_installations := delete_rows (\<lambda>i. ins_at (rp_name c) (rp_version c) i \<and> ins_digest i = rp_digest c)
                   (db_installations s)\<rparr>)))))"


section \<open>Occurrences survive a collection\<close>

definition bindings :: "db \<Rightarrow> ((string \<times> string) \<times> string \<times> string) list" where
  "bindings s = map (\<lambda>r. ((rcpt_trigger_uid r, rcpt_occurrence_id r), rcpt_uid r, rcpt_run_uid r)) (db_receipts s)
     @ map (\<lambda>t. ((tmb_trigger_uid t, tmb_occurrence_id t), tmb_receipt_uid t, tmb_run_uid t)) (db_tombstones s)"

lemma occurrences_bindings: "occurrences s = map fst (bindings s)"
  by (simp add: occurrences_def bindings_def comp_def)

lemma known_bindings:
  "known s t oc = map_of (bindings s) (t, oc)"
proof -
  have r: "map_of (map (\<lambda>r. ((rcpt_trigger_uid r, rcpt_occurrence_id r), rcpt_uid r, rcpt_run_uid r)) rs) (t, oc) =
    map_option (\<lambda>r. (rcpt_uid r, rcpt_run_uid r))
      (select_row (\<lambda>r. rcpt_trigger_uid r = t \<and> rcpt_occurrence_id r = oc) rs)" for rs
    by (induction rs) auto
  have b: "map_of (map (\<lambda>r. ((tmb_trigger_uid r, tmb_occurrence_id r), tmb_receipt_uid r, tmb_run_uid r)) rs) (t, oc) =
    map_option (\<lambda>r. (tmb_receipt_uid r, tmb_run_uid r))
      (select_row (\<lambda>r. tmb_trigger_uid r = t \<and> tmb_occurrence_id r = oc) rs)" for rs
    by (induction rs) auto
  show ?thesis
    by (auto simp: bindings_def known_def receiptByOccurrence_def map_add_def r b receipt_of_def receipt_of_tombstone_def
      split: option.splits)
qed

lemma insert_tombstones_fresh:
  assumes "distinct (map (\<lambda>r. (rcpt_trigger_uid r, rcpt_occurrence_id r)) rs)"
    and "\<And>r t. r \<in> set rs \<Longrightarrow> t \<in> set ts \<Longrightarrow>
      (tmb_trigger_uid t, tmb_occurrence_id t) \<noteq> (rcpt_trigger_uid r, rcpt_occurrence_id r)"
  shows "insert_tombstones now rs ts = ts @ map (tombstone_of now) rs"
  using assms
proof (induction rs arbitrary: ts)
  case Nil
  then show ?case by simp
next
  case (Cons r rs)
  have "\<not> exists_row (\<lambda>t. tmb_trigger_uid t = rcpt_trigger_uid r \<and> tmb_occurrence_id t = rcpt_occurrence_id r) ts"
    using Cons.prems(2)[of r] by (auto simp: exists_row_iff)
  moreover have "insert_tombstones now rs (ts @ [tombstone_of now r]) = (ts @ [tombstone_of now r]) @ map (tombstone_of now) rs"
  proof (rule Cons.IH)
    show "distinct (map (\<lambda>r. (rcpt_trigger_uid r, rcpt_occurrence_id r)) rs)" using Cons.prems(1) by simp
    show "(tmb_trigger_uid t, tmb_occurrence_id t) \<noteq> (rcpt_trigger_uid x, rcpt_occurrence_id x)"
      if "x \<in> set rs" "t \<in> set (ts @ [tombstone_of now r])" for x t
      using that Cons.prems(1) Cons.prems(2)[of x t] by (auto simp: tombstone_of_def)
  qed
  ultimately show ?case by simp
qed

lemma mset_map_partition: "mset (map f xs) = mset (map f (filter (\<lambda>x. \<not> P x) xs)) + mset (map f (filter P xs))"
  by (induction xs) auto

lemma remove_run_bindings:
  assumes "distinct (occurrences s)"
  shows "mset (bindings (remove_run now uid h s)) = mset (bindings s)"
proof -
  let ?rs = "filter (\<lambda>r. rcpt_run_uid r = uid) (db_receipts s)"
  have d: "distinct (map (\<lambda>r. (rcpt_trigger_uid r, rcpt_occurrence_id r)) (db_receipts s))"
    using assms by (simp add: occurrences_def)
  have "insert_tombstones now ?rs (db_tombstones s) = db_tombstones s @ map (tombstone_of now) ?rs"
  proof (rule insert_tombstones_fresh)
    show "distinct (map (\<lambda>r. (rcpt_trigger_uid r, rcpt_occurrence_id r)) ?rs)" using d by (rule distinct_map_filter)
    show "(tmb_trigger_uid t, tmb_occurrence_id t) \<noteq> (rcpt_trigger_uid r, rcpt_occurrence_id r)"
      if "r \<in> set ?rs" "t \<in> set (db_tombstones s)" for r t
      using that assms unfolding occurrences_def distinct_append by (auto 0 3)
  qed
  then have t: "db_tombstones (remove_run now uid h s) = db_tombstones s @ map (tombstone_of now) ?rs"
    by (simp add: remove_run_def Let_def)
  let ?f = "\<lambda>r. ((rcpt_trigger_uid r, rcpt_occurrence_id r), rcpt_uid r, rcpt_run_uid r)"
  have "mset (map ?f (db_receipts s)) = mset (map ?f (filter (\<lambda>r. rcpt_run_uid r \<noteq> uid) (db_receipts s))) + mset (map ?f ?rs)"
    by (rule mset_map_partition)
  moreover have "db_receipts (remove_run now uid h s) = filter (\<lambda>r. rcpt_run_uid r \<noteq> uid) (db_receipts s)"
    by (simp add: remove_run_def Let_def delete_rows_def)
  ultimately show ?thesis unfolding bindings_def t
    by (simp add: ac_simps comp_def tombstone_of_def)
qed

lemma remove_run_known:
  assumes "accept_inv s"
  shows "known (remove_run now uid h s) = known s" and "distinct (occurrences (remove_run now uid h s))"
proof -
  have d: "distinct (occurrences s)" using assms by (simp add: accept_inv_def)
  note m = remove_run_bindings[OF d, of now uid h]
  have d': "distinct (map fst (bindings (remove_run now uid h s)))"
    using d mset_eq_imp_distinct_iff[of "map fst (bindings (remove_run now uid h s))" "map fst (bindings s)"] m
    by (simp add: occurrences_bindings)
  then show "distinct (occurrences (remove_run now uid h s))" by (simp add: occurrences_bindings)
  have "map_of (bindings (remove_run now uid h s)) = map_of (bindings s)"
    by (rule map_of_inject_set[THEN iffD2]) (use d d' mset_eq_setD[OF m] in \<open>simp_all add: occurrences_bindings\<close>)
  then show "known (remove_run now uid h s) = known s" by (intro ext) (simp add: known_bindings)
qed

lemma remove_run_accept_inv:
  assumes "accept_inv s"
  shows "accept_inv (remove_run now uid h s)"
proof -
  let ?s = "remove_run now uid h s"
  have ob: "db_outbox ?s = filter (\<lambda>r. \<not> (out_aggregate_uid r = uid \<and> out_state r = ''completed'')) (db_outbox s)"
    and sq: "db_outbox_seq ?s = db_outbox_seq s"
    and rc: "db_receipts ?s = filter (\<lambda>r. rcpt_run_uid r \<noteq> uid) (db_receipts s)"
    by (simp_all add: remove_run_def Let_def delete_rows_def)
  have "command_known ?s = command_known s"
    by (intro ext) (simp add: command_known_def remove_run_known(1)[OF assms])
  moreover have "sorted_wrt (<) (map out_id (db_outbox ?s))"
    using assms unfolding ob accept_inv_def sorted_wrt_map by (simp add: sorted_wrt_filter)
  moreover have "distinct (map rcpt_uid (db_receipts ?s))" "distinct (map out_idempotency_key (db_outbox ?s))"
    using assms unfolding ob rc accept_inv_def by (simp_all add: distinct_map_filter)
  ultimately show ?thesis
    using assms remove_run_known(2)[OF assms, of now uid h] unfolding accept_inv_def by (simp add: ob sq)
qed

section \<open>Other Runs are not touched\<close>

lemma find_run_remove: "find_run (remove_run now uid h s) u = (if u = uid then None else find_run s u)"
  using select_row_delete_at_key[of run_uid u uid "db_runs s"] by (simp add: find_run_def remove_run_def Let_def)

lemma events_of_remove: "events_of (remove_run now uid h s) u = (if u = uid then [] else events_of s u)"
  by (auto simp: events_of_def remove_run_def Let_def delete_rows_def filter_empty_conv intro: filter_cong)

lemma attempts_of_remove:
  "attempts_of (remove_run now uid h s) u node it = (if u = uid then [] else attempts_of s u node it)"
  by (auto simp: attempts_of_def remove_run_def Let_def delete_rows_def filter_empty_conv intro: filter_cong)

lemma has_run_remove: "has_run (remove_run now uid h s) u \<longleftrightarrow> u \<noteq> uid \<and> has_run s u"
  by (auto simp: has_run_def remove_run_def Let_def delete_rows_def)

lemma remove_run_runs_inv:
  assumes "runs_inv s"
  shows "runs_inv (remove_run now uid h s)"
proof -
  let ?s = "remove_run now uid h s"
  have fr: "db_runs ?s = delete_rows (\<lambda>r. run_uid r = uid) (db_runs s)"
    "db_run_events ?s = delete_rows (\<lambda>r. re_run_uid r = uid) (db_run_events s)"
    "db_attempts ?s = delete_rows (\<lambda>r. att_run_uid r = uid) (db_attempts s)"
    by (simp_all add: remove_run_def Let_def)
  have "runs_ok ?s" using assms by (auto simp: runs_inv_def runs_ok_def fr set_delete_rows)
  moreover have "events_ok ?s"
    using assms by (auto simp: runs_inv_def events_ok_def events_of_remove has_run_remove fr set_delete_rows)
  moreover have "attempts_ok ?s"
    using assms unfolding runs_inv_def attempts_ok_def
    by (simp add: attempts_of_remove has_run_remove fr set_delete_rows) (metis option.distinct(1))
  ultimately show ?thesis by (simp add: runs_inv_def)
qed


section \<open>A planned set is collectable\<close>

definition collectable :: "db \<Rightarrow> string \<Rightarrow> bool" where
  "collectable s uid \<longleftrightarrow> (\<exists>r. find_run s uid = Some r \<and> terminalRunPhase (run_phase r)) \<and> \<not> open_work s uid"

lemma open_work_remove: "open_work (remove_run now uid h s) u = open_work s u"
  by (auto simp: open_work_def exists_row_iff remove_run_def Let_def set_delete_rows)

lemma open_commands_remove:
  "open_commands (remove_run now uid h s) = open_commands s"
  by (auto simp: open_commands_def remove_run_def Let_def set_delete_rows)

lemma collect_run_collectable:
  "collectable s uid \<Longrightarrow> \<exists>h. collect_run env uid s = Inr (remove_run (env_now env) uid h s)"
  by (auto simp: collectable_def collect_run_def open_work_def rows_affected_0)

text \<open>What a collection of the Runs \<open>uids\<close> leaves behind.\<close>

definition collected :: "string list \<Rightarrow> db \<Rightarrow> db \<Rightarrow> bool" where
  "collected uids s s' \<longleftrightarrow> (runs_inv s \<longrightarrow> runs_inv s') \<and> (accept_inv s \<longrightarrow> accept_inv s' \<and> known s' = known s) \<and>
     open_commands s' = open_commands s \<and>
     (\<forall>u. if u \<in> set uids then find_run s' u = None \<and> events_of s' u = []
          else find_run s' u = find_run s u \<and> events_of s' u = events_of s u \<and>
            (\<forall>node it. attempts_of s' u node it = attempts_of s u node it))"

lemma collected_step:
  assumes "collected uids (remove_run now uid h s) s'" and "uid \<notin> set uids"
  shows "collected (uid # uids) s s'"
proof -
  let ?t = "remove_run now uid h s"
  have "runs_inv s \<longrightarrow> runs_inv s'" using assms(1) remove_run_runs_inv unfolding collected_def by blast
  moreover have "accept_inv s \<longrightarrow> accept_inv s' \<and> known s' = known s"
    using assms(1) remove_run_accept_inv remove_run_known(1) unfolding collected_def by metis
  moreover have "open_commands s' = open_commands s" using assms(1) open_commands_remove unfolding collected_def by metis
  moreover have "if u \<in> set (uid # uids) then find_run s' u = None \<and> events_of s' u = []
      else find_run s' u = find_run s u \<and> events_of s' u = events_of s u \<and>
        (\<forall>node it. attempts_of s' u node it = attempts_of s u node it)" for u
  proof -
    have "if u \<in> set uids then find_run s' u = None \<and> events_of s' u = []
      else find_run s' u = find_run ?t u \<and> events_of s' u = events_of ?t u \<and>
        (\<forall>node it. attempts_of s' u node it = attempts_of ?t u node it)"
      using assms(1) unfolding collected_def by blast
    then show ?thesis
      using assms(2) by (auto simp: find_run_remove events_of_remove attempts_of_remove split: if_splits)
  qed
  ultimately show ?thesis unfolding collected_def by blast
qed

lemma collect_runs_collectable:
  assumes "\<And>u. u \<in> set uids \<Longrightarrow> collectable s u" and "distinct uids"
  shows "\<exists>s'. collect_runs env uids s = Inr s' \<and> collected uids s s'"
  using assms
proof (induction uids arbitrary: s)
  case Nil
  then show ?case by (simp add: collected_def)
next
  case (Cons uid uids)
  obtain h where h: "collect_run env uid s = Inr (remove_run (env_now env) uid h s)"
    using collect_run_collectable Cons.prems(1) by (meson list.set_intros(1))
  have "collectable (remove_run (env_now env) uid h s) u" if "u \<in> set uids" for u
    using Cons.prems that by (auto simp: collectable_def find_run_remove open_work_remove)
  then obtain s' where "collect_runs env uids (remove_run (env_now env) uid h s) = Inr s'"
    "collected uids (remove_run (env_now env) uid h s) s'"
    using Cons.IH[of "remove_run (env_now env) uid h s"] Cons.prems(2) by auto
  moreover then have "collected (uid # uids) s s'" using collected_step Cons.prems(2) by simp
  ultimately show ?case using h by auto
qed

lemma set_map_filter: "set (List.map_filter f xs) = {y. \<exists>x \<in> set xs. f x = Some y}"
  by (induction xs) (auto simp: List.map_filter_simps split: option.splits)

lemma candidate_collectable:
  assumes "runs_inv s" and "(t, uid) \<in> set (retention_candidates s cutoff keep)"
  shows "collectable s uid" and "uid \<notin> run_uid ` set (newest_terminal s keep)" and "ts_less t cutoff"
proof -
  obtain r where r: "r \<in> set (db_runs s)" "run_completed r = Some t" "run_uid r = uid" "terminalRunPhase (run_phase r)"
    "ts_less t cutoff" "\<not> open_work s uid" "uid \<notin> set (map run_uid (newest_terminal s keep))"
    using assms(2) unfolding retention_candidates_def set_sort set_map_filter
    by (auto split: option.splits if_splits)
  have "find_run s uid = Some r"
    using select_row_key_unique[of run_uid "db_runs s" r] assms(1) r by (simp add: runs_inv_def runs_ok_def find_run_def)
  then show "collectable s uid" "uid \<notin> run_uid ` set (newest_terminal s keep)" "ts_less t cutoff"
    using r by (auto simp: collectable_def)
qed

lemma map_filter_distinct:
  assumes "distinct (map g xs)" and "\<And>x y. x \<in> set xs \<Longrightarrow> f x = Some y \<Longrightarrow> h y = g x"
  shows "distinct (map h (List.map_filter f xs))"
  using assms
proof (induction xs)
  case (Cons x xs)
  have "h y = g x' " if "x' \<in> set xs" "f x' = Some y" for x' y using Cons.prems(2) that by simp
  then have "h ` set (List.map_filter f xs) \<subseteq> g ` set xs" by (auto simp: set_map_filter)
  moreover have "h y = g x" if "f x = Some y" for y using Cons.prems(2) that by simp
  ultimately have "h y \<notin> h ` set (List.map_filter f xs)" if "f x = Some y" for y using Cons.prems(1) that by auto
  then show ?case using Cons by (auto simp: List.map_filter_simps split: option.splits)
qed (simp add: List.map_filter_simps)

lemma candidates_distinct:
  assumes "runs_inv s"
  shows "distinct (map snd (retention_candidates s cutoff keep))"
proof -
  have "distinct (map run_uid (db_runs s))" using assms by (simp add: runs_inv_def runs_ok_def)
  then have "distinct (map snd (List.map_filter (\<lambda>r. case run_completed r of None \<Rightarrow> None
          | Some t \<Rightarrow> if terminalRunPhase (run_phase r) \<and> ts_less t cutoff \<and> \<not> open_work s (run_uid r) \<and>
                         run_uid r \<notin> set (map run_uid (newest_terminal s keep))
                      then Some (t, run_uid r) else None) (db_runs s)))"
    by (rule map_filter_distinct) (auto split: option.splits if_splits)
  then show ?thesis unfolding retention_candidates_def distinct_map set_sort by auto
qed

section \<open>Properties\<close>

text \<open>C33: planned retention is safe. When a plan of Runs to remove is computed, its collection in the same
  state commits; every planned Run is terminal, has no open command and is not among the newest
  \<open>keepRecent\<close> terminal Runs. Afterwards exactly those Runs and their events are gone, every other
  Run keeps its row, events and attempts, no open command is lost, the invariants hold, and every
  occurrence is still bound to the Run it was accepted for.\<close>

theorem planned_retention_is_safe:
  assumes "runs_inv s" and "accept_inv s" and "PlanRunRetention s (Some cutoff) keep limit = Inr plan"
  shows "(\<forall>p \<in> set plan. collectable s (rr_uid p) \<and> rr_uid p \<notin> run_uid ` set (newest_terminal s (nat keep))) \<and>
    length plan \<le> nat limit \<and>
    (\<exists>s'. CollectRetainedRuns env s (map rr_uid plan) = Inr s' \<and> runs_inv s' \<and> accept_inv s' \<and> known s' = known s \<and>
      open_commands s' = open_commands s \<and>
      (\<forall>u. if u \<in> rr_uid ` set plan then find_run s' u = None \<and> events_of s' u = []
           else find_run s' u = find_run s u \<and> events_of s' u = events_of s u \<and>
             (\<forall>node it. attempts_of s' u node it = attempts_of s u node it)))"
proof -
  let ?c = "take (nat limit) (retention_candidates s cutoff (nat keep))"
  have lim: "1 \<le> limit" "limit \<le> 1000" and uids: "map rr_uid plan = map snd ?c"
    using assms(3) by (auto simp: PlanRunRetention_def case_prod_beta)
  then have len: "length plan \<le> nat limit" by (metis length_map length_take min.cobounded2)
  have c: "collectable s u \<and> u \<notin> run_uid ` set (newest_terminal s (nat keep))" if "u \<in> set (map rr_uid plan)" for u
    using that candidate_collectable[OF assms(1)] unfolding uids by (fastforce dest: in_set_takeD)
  have "distinct (map rr_uid plan)"
    using candidates_distinct[OF assms(1), of cutoff "nat keep"] unfolding uids
    by (metis distinct_take take_map)
  then obtain s' where "collect_runs env (map rr_uid plan) s = Inr s'" "collected (map rr_uid plan) s s'"
    using collect_runs_collectable[of "map rr_uid plan" s env] c by auto
  moreover have "length (map rr_uid plan) \<le> 1000" using len lim by simp
  ultimately have "CollectRetainedRuns env s (map rr_uid plan) = Inr s'" "collected (map rr_uid plan) s s'"
    by (simp_all add: CollectRetainedRuns_def)
  then show ?thesis using c len assms(1,2) unfolding collected_def set_map by auto
qed


lemma installation_keys_in:
  assumes "installation_keys lib rs = Inr ks" and "r \<in> set rs"
  shows "\<exists>m p. DecodePluginInstallation lib (res_json r) = Inr (m, p) \<and> pluginRetentionKey (plg_plugin p) (plg_version p) \<in> set ks"
  using assms
proof (induction rs arbitrary: ks)
  case (Cons a rs)
  then show ?case by (auto split: prod.splits)
qed simp

lemma CollectRetainedPlugin_cases:
  assumes "CollectRetainedPlugin lib s c = Inr s'"
  obtains "s' = s"
  | i refs where "select_row (ins_at (rp_name c) (rp_version c)) (db_installations s) = Some i" "ins_digest i = rp_digest c"
      "\<not> is_active s (rp_name c) (rp_version c)" "referencedPluginVersionsTx lib s = Inr refs"
      "pluginRetentionKey (rp_name c) (rp_version c) \<notin> set refs"
      "s' = s\<lparr>db_installations := delete_rows (\<lambda>i. ins_at (rp_name c) (rp_version c) i \<and> ins_digest i = rp_digest c) (db_installations s)\<rparr>"
  using assms by (auto simp: CollectRetainedPlugin_def split: option.splits)

lemma CollectRetainedPlugin_inv:
  assumes "plugins_inv s" and "CollectRetainedPlugin lib s c = Inr s'"
  shows "plugins_inv s'"
  using assms(2)
proof (cases rule: CollectRetainedPlugin_cases)
  case 1
  then show ?thesis using assms(1) by simp
next
  case (2 i refs)
  let ?P = "\<lambda>i. ins_at (rp_name c) (rp_version c) i \<and> ins_digest i = rp_digest c"
  have ins: "db_installations s' = delete_rows ?P (db_installations s)" and act: "db_activations s' = db_activations s"
    and ia: "is_active s' = is_active s" using 2 by (auto simp: is_active_def fun_eq_iff)
  have keep: "\<forall>a \<in> set (db_activations s). exists_row (ins_at (act_name a) (act_version a)) (db_installations s')"
  proof
    fix a assume a: "a \<in> set (db_activations s)"
    then have "is_active s (act_name a) (act_version a)" by (auto simp: is_active_def exists_row_iff)
    then have "\<not> (act_name a = rp_name c \<and> act_version a = rp_version c)" using 2 by auto
    moreover have "exists_row (ins_at (act_name a) (act_version a)) (db_installations s)"
      using assms(1) a by (simp add: plugins_inv_def)
    ultimately show "exists_row (ins_at (act_name a) (act_version a)) (db_installations s')"
      unfolding ins by (auto simp: exists_row_iff set_delete_rows)
  qed
  show ?thesis
    using assms(1) keep unfolding plugins_inv_def ia act by (auto simp: ins set_delete_rows)
qed

text \<open>Plugin retention removes nothing in use. A committed collection changes only the installation table and removes at
  most the candidate version, and that only when it has the digest of the candidate, is not active
  and is named neither by a PluginInstallation resource nor by a node of a stored plan; the invariant
  of the plugin tables is kept.\<close>

theorem plugin_retention_keeps_used_versions:
  assumes "plugins_inv s" and "CollectRetainedPlugin lib s c = Inr s'"
  shows "plugins_inv s' \<and> s' = s\<lparr>db_installations := db_installations s'\<rparr> \<and>
    (\<forall>i \<in> set (db_installations s). i \<in> set (db_installations s') \<or>
      (ins_at (rp_name c) (rp_version c) i \<and> ins_digest i = rp_digest c \<and> \<not> is_active s (ins_name i) (ins_version i) \<and>
       (\<forall>r \<in> set (db_resources s). res_kind r = ''PluginInstallation'' \<longrightarrow>
          (\<exists>m p. DecodePluginInstallation lib (res_json r) = Inr (m, p) \<and>
             \<not> (plg_plugin p = ins_name i \<and> plg_version p = ins_version i))) \<and>
       (\<forall>pr \<in> set (db_plans s). \<forall>n \<in> set (plan_nodes (cp_plan pr)). \<forall>b. pn_plugin n = Some b \<longrightarrow>
          \<not> (pb_name b = ins_name i \<and> pb_version b = ins_version i))))"
  using assms(2)
proof (cases rule: CollectRetainedPlugin_cases)
  case 1
  then show ?thesis using assms(1) by simp
next
  case (2 i refs)
  let ?P = "\<lambda>i. ins_at (rp_name c) (rp_version c) i \<and> ins_digest i = rp_digest c"
  have ins: "db_installations s' = delete_rows ?P (db_installations s)" using 2 by simp
  have inv: "plugins_inv s'" by (rule CollectRetainedPlugin_inv[OF assms])
  obtain ks where ks: "installation_keys lib (filter (\<lambda>r. res_kind r = ''PluginInstallation'') (db_resources s)) = Inr ks"
    "refs = ks @ concat (map plan_keys (db_plans s))"
    using 2 by (auto simp: referencedPluginVersionsTx_def)
  have un: "\<exists>m p. DecodePluginInstallation lib (res_json r) = Inr (m, p) \<and>
      \<not> (plg_plugin p = rp_name c \<and> plg_version p = rp_version c)"
    if "r \<in> set (db_resources s)" "res_kind r = ''PluginInstallation''" for r
    using installation_keys_in[OF ks(1), of r] that 2(5) ks(2) by fastforce
  have up: "\<not> (pb_name b = rp_name c \<and> pb_version b = rp_version c)"
    if "pr \<in> set (db_plans s)" "n \<in> set (plan_nodes (cp_plan pr))" "pn_plugin n = Some b" for pr n b
  proof -
    have "pluginRetentionKey (pb_name b) (pb_version b) \<in> set (plan_keys pr)"
      using that by (force simp: plan_keys_def set_map_filter)
    then show ?thesis using that(1) 2(5) ks(2) by auto
  qed
  have row: "j \<in> set (db_installations s') \<or> ?P j" if "j \<in> set (db_installations s)" for j
    using that by (auto simp: ins set_delete_rows)
  have "s' = s\<lparr>db_installations := db_installations s'\<rparr>" using 2(6) by simp
  moreover have "j \<in> set (db_installations s') \<or> (?P j \<and> \<not> is_active s (ins_name j) (ins_version j) \<and>
       (\<forall>r \<in> set (db_resources s). res_kind r = ''PluginInstallation'' \<longrightarrow>
          (\<exists>m p. DecodePluginInstallation lib (res_json r) = Inr (m, p) \<and>
             \<not> (plg_plugin p = ins_name j \<and> plg_version p = ins_version j))) \<and>
       (\<forall>pr \<in> set (db_plans s). \<forall>n \<in> set (plan_nodes (cp_plan pr)). \<forall>b. pn_plugin n = Some b \<longrightarrow>
          \<not> (pb_name b = ins_name j \<and> pb_version b = ins_version j)))"
    if "j \<in> set (db_installations s)" for j
  proof (cases "?P j")
    case True
    then show ?thesis using un up 2(3) by (intro disjI2 conjI ballI allI impI) auto
  qed (use row[OF that] in blast)
  ultimately show ?thesis using inv by auto
qed

theorem plugin_retention_keeps_used_versions_witness:
  "\<exists>s'. CollectRetainedPlugin sample_lib (run_requests exec_plugin [(sample_env, ReqPutPlugin sample_plugin)] empty_db)
       \<lparr>rp_name = ''github'', rp_version = ''1.0.0'', rp_digest = ''d1'', rp_installed = 5\<rparr> = Inr s' \<and>
     db_installations s' = [] \<and> plugins_inv s'"
proof -
  let ?s = "run_requests exec_plugin [(sample_env, ReqPutPlugin sample_plugin)] empty_db"
  let ?c = "\<lparr>rp_name = ''github'', rp_version = ''1.0.0'', rp_digest = ''d1'', rp_installed = 5\<rparr>"
  have inv: "plugins_inv ?s" by (rule plugin_versions.inv_run[OF empty_plugins_inv]) code_simp
  have "(case CollectRetainedPlugin sample_lib ?s ?c of Inl _ \<Rightarrow> False | Inr s' \<Rightarrow> db_installations s' = [])" by code_simp
  then obtain s' where s': "CollectRetainedPlugin sample_lib ?s ?c = Inr s'" "db_installations s' = []" by (auto split: sum.splits)
  then show ?thesis using plugin_retention_keeps_used_versions[OF inv s'(1)] by blast
qed

section \<open>Concrete states\<close>

text \<open>Two occurrences of one Trigger, pinned to the same plan: the first Run has finished, the start
  command of the second is still queued.\<close>

definition sample_second :: acceptance where
  "sample_second = sample_acceptance\<lparr>acc_occurrence_id := ''delivery-2'', acc_event_id := ''delivery-2''\<rparr>"

definition sample_two :: db where
  "sample_two = commit sample_accepted (acceptTrigger sample_env ''rc2'' ''run2'' sample_accepted sample_second)"

definition sample_finished :: db where
  "sample_finished =
     (let s1 = run_requests exec_run
        [(sample_env, ReqEnsureRun (start_payload_of ''rc1'' ''run1'' sample_acceptance) sample_plan),
         (sample_env, ReqAppendRunEvent ''run1'' [] ''run.succeeded'' ''succeeded'' 0 None)] sample_two
      in CompleteOutbox sample_env s1 1)"


end
