(* ===== verification/Store_System.thy ===== *)
theory Store_System
  imports Store_Retention
begin

text \<open>
  The store as one system: every writing operation of \<open>internal/store\<close> as a request, run in any order by
  any number of clients. The database serialises transactions (\<open>SetMaxOpenConns(1)\<close> in \<open>Open\<close>),
  so an execution is a sequence of requests.

  The four invariants hold in every reachable state, whichever component a request belongs to, and
  an occurrence that was accepted once is bound to its receipt and Run for ever.
\<close>

datatype store_request =
  ResourceReq resource_request
| AcceptReq string string acceptance
| SignalReq string string nat string string string string string "json option" string
| EnsureStateReq string nat bool time
| CursorReq string time
| EnableReq string bool
| SkipReq string string string time
| ClaimReq "string list" nat
| CompleteReq nat
| SuppressReq nat string
| RetryReq nat string nat
| RunReq run_request
| PluginReq plugin_request
| CollectRunsReq "string list"
| CollectPluginReq retention_plugin

fun exec_store :: "store_env \<times> store_request \<Rightarrow> db \<Rightarrow> (store_error, unit \<times> db) result" where
  "exec_store (env, ResourceReq q) s = bind_res (exec_resource (env, q) s) (\<lambda>(_, s'). Inr ((), s'))"
| "exec_store (env, AcceptReq ru uu a) s = bind_res (acceptTrigger env ru uu s a) (\<lambda>(_, s'). Inr ((), s'))"
| "exec_store (env, SignalReq ru t g oc f ns run node p c) s =
     bind_res (AcceptProviderSignal env ru s t g oc f ns run node p c) (\<lambda>(_, s'). Inr ((), s'))"
| "exec_store (env, EnsureStateReq uid g en c) s =
     bind_res (EnsureTriggerState env s uid g en c) (\<lambda>(_, s'). Inr ((), s'))"
| "exec_store (env, CursorReq uid c) s = bind_res (AdvanceTriggerCursor env s uid c) (\<lambda>s'. Inr ((), s'))"
| "exec_store (env, EnableReq uid b) s = bind_res (SetTriggerEnabled env s uid b) (\<lambda>s'. Inr ((), s'))"
| "exec_store (env, SkipReq uid oc reason t) s = Inr ((), RecordTriggerSkip env s uid oc reason t)"
| "exec_store (env, ClaimReq types d) s = bind_res (claim types env s d) (\<lambda>(_, s'). Inr ((), s'))"
| "exec_store (env, CompleteReq i) s = Inr ((), CompleteOutbox env s i)"
| "exec_store (env, SuppressReq i run) s = Inr ((), snd (CompleteStartIfRunCancelled env s i run))"
| "exec_store (env, RetryReq i cause d) s = Inr ((), RetryOutbox env s i cause d)"
| "exec_store (env, RunReq q) s = exec_run (env, q) s"
| "exec_store (env, PluginReq q) s = exec_plugin (env, q) s"
| "exec_store (env, CollectRunsReq us) s = bind_res (CollectRetainedRuns env s us) (\<lambda>s'. Inr ((), s'))"
| "exec_store (env, CollectPluginReq c) s = bind_res (CollectRetainedPlugin (env_lib env) s c) (\<lambda>s'. Inr ((), s'))"

fun store_request_ok :: "resource_lib \<Rightarrow> store_env \<times> store_request \<Rightarrow> bool" where
  "store_request_ok lib (env, ResourceReq q) \<longleftrightarrow> resource_request_ok lib (env, q)"
| "store_request_ok lib (env, AcceptReq ru uu a) \<longleftrightarrow> slash_free (acc_trigger_uid a)"
| "store_request_ok lib (env, SignalReq ru t g oc f ns run node p c) \<longleftrightarrow> slash_free t"
| "store_request_ok lib (env, PluginReq q) \<longleftrightarrow> plugin_request_ok (env, q)"
| "store_request_ok lib _ \<longleftrightarrow> True"

definition store_inv :: "resource_lib \<Rightarrow> db \<Rightarrow> bool" where
  "store_inv lib s \<longleftrightarrow> resources_inv lib s \<and> accept_inv s \<and> runs_inv s \<and> plugins_inv s"

section \<open>Frames\<close>

text \<open>The tables each invariant reads.\<close>

definition res_part where "res_part s = (db_revision s, db_resources s, db_events s, db_audit s)"
definition acc_part where "acc_part s = (db_receipts s, db_tombstones s, db_outbox s, db_outbox_seq s)"
definition run_part where "run_part s = (db_runs s, db_run_events s, db_attempts s)"
definition plg_part where "plg_part s = (db_installations s, db_activations s)"

lemmas part_defs = res_part_def acc_part_def run_part_def plg_part_def

lemma resources_part: "res_part s' = res_part s \<Longrightarrow> resources_inv lib s \<Longrightarrow> resources_inv lib s'"
  by (simp add: res_part_def resources_inv_def stored_def fun_eq_iff)

lemma accept_part: "acc_part s' = acc_part s \<Longrightarrow> accept_inv s \<Longrightarrow> accept_inv s' \<and> known_before s s'"
  using accept_inv_frame by (auto simp: acc_part_def)

lemma runs_part: "run_part s' = run_part s \<Longrightarrow> runs_inv s \<Longrightarrow> runs_inv s'"
  using runs_frame by (auto simp: run_part_def)

lemma plugins_part: "plg_part s' = plg_part s \<Longrightarrow> plugins_inv s \<Longrightarrow> plugins_inv s'"
  by (simp add: plg_part_def plugins_inv_def is_active_def)

lemma exec_resource_frame:
  assumes "exec_resource q s = Inr (x, s')"
  shows "acc_part s' = acc_part s \<and> run_part s' = run_part s \<and> plg_part s' = plg_part s"
proof (cases "(q, s)" rule: exec_resource.cases)
  case (1 env uuid reqid doc opts s0)
  then show ?thesis using assms
    by (auto simp: Apply_def Let_def nextRevision_def write_resource_def apply_trigger_state_def ensureTriggerStateTx_def
      append_event_def part_defs split: option.splits sum.splits if_splits)
next
  case (2 env kind ns name gen status s0)
  then show ?thesis using assms
    by (auto simp: UpdateResourceStatus_def Let_def nextRevision_def append_event_def part_defs split: if_splits)
next
  case (3 env reqid kind ns name expected requestID s0)
  then show ?thesis using assms
    by (auto simp: Delete_def Let_def nextRevision_def append_event_def part_defs split: if_splits)
qed

text \<open>The operations on Runs leave everything else alone.\<close>

definition rest_part where "rest_part s = (res_part s, acc_part s, plg_part s)"

lemmas rest_defs = rest_part_def res_part_def acc_part_def plg_part_def

lemma insert_run_event_rest: "insert_run_event e s = Inr s' \<Longrightarrow> rest_part s' = rest_part s"
  by (auto simp: insert_run_event_def rest_defs split: if_splits)

lemma appendRunEventTx_rest: "appendRunEventTx s run node et ph att pl t = Inr (b, s') \<Longrightarrow> rest_part s' = rest_part s"
  by (auto simp: appendRunEventTx_def set_run_phase_def split: if_splits dest!: insert_run_event_rest)
    (auto simp: rest_defs)

lemma appendRunEvidenceTx_rest: "appendRunEvidenceTx s run node et att pl t = Inr s' \<Longrightarrow> rest_part s' = rest_part s"
  by (auto simp: appendRunEvidenceTx_def split: if_splits dest!: insert_run_event_rest) (auto simp: rest_defs)

lemma mark_lost_rest: "mark_lost s run node it att now = Inr s' \<Longrightarrow> rest_part s' = rest_part s"
  by (auto simp: mark_lost_def dest!: appendRunEventTx_rest) (simp add: rest_defs)

lemma begin_new_rest: "begin_new env s run node it fw key input lost = Inr (x, s') \<Longrightarrow> rest_part s' = rest_part s"
  by (auto simp: begin_new_def Let_def insert_attempt_def rest_defs split: option.splits if_splits
    dest!: appendRunEventTx_rest mark_lost_rest)

lemma PutArtifact_rest: "PutArtifact env uuid s a = Inr (r, s') \<Longrightarrow> rest_part s' = rest_part s"
  by (drule PutArtifact_frame) (auto simp: rest_defs)

lemma exec_run_rest:
  assumes "exec_run q s = Inr (x, s')"
  shows "rest_part s' = rest_part s"
proof (cases "(q, s)" rule: exec_run.cases)
  case (1 env p plan s0)
  then show ?thesis using assms
    by (auto simp: EnsureRun_def Let_def insert_run_def insert_plan_def insert_run_event_def rest_defs split: if_splits)
next
  case (2 env run node et ph att pl s0)
  then show ?thesis using assms by (auto simp: AppendRunEvent_def dest: appendRunEventTx_rest)
next
  case (3 env run node it fw key input s0)
  then show ?thesis using assms
    by (auto simp: BeginNodeAttempt_def split: option.splits if_splits dest: begin_new_rest)
next
  case (4 env run node it att ph out err ex s0)
  then show ?thesis using assms
    by (auto simp: CompleteNodeAttempt_def Let_def split: if_splits dest!: appendRunEventTx_rest) (auto simp: rest_defs)
next
  case (5 env run node it att outcome s0)
  then show ?thesis using assms by (auto simp: SetNodeAttemptOutcome_def rest_defs split: if_splits)
next
  case (6 env run node it att n et pl t s0)
  then show ?thesis using assms
    by (auto simp: AppendPluginEvent_def split: option.splits if_splits dest!: appendRunEvidenceTx_rest) (auto simp: rest_defs)
next
  case (7 env uuid a s0)
  then show ?thesis using assms by (auto dest: PutArtifact_rest)
next
  case (8 env run reason s0)
  then show ?thesis using assms
    by (auto simp: RequestRunCancellation_def Let_def split: if_splits dest!: insert_run_event_rest) (auto simp: rest_defs)
next
  case (9 env run s0)
  then show ?thesis using assms by (auto simp: MarkRunCancellationDelivered_def rest_defs)
next
  case (10 env run s0)
  then show ?thesis using assms by (auto simp: MarkRunCancellationDeliveredIfStartImpossible_def Let_def rest_defs)
next
  case (11 env run node t s0)
  then show ?thesis using assms by (auto simp: EnsureApproval_def rest_defs split: if_splits)
next
  case (12 env run node st actor reason s0)
  then show ?thesis using assms by (auto simp: DecideApproval_def Let_def rest_defs)
next
  case (13 env run node s0)
  then show ?thesis using assms by (auto simp: MarkApprovalSignaled_def rest_defs)
next
  case (14 env plan s0)
  then show ?thesis using assms by (auto simp: PutPlan_def insert_plan_def rest_defs)
qed

lemma exec_plugin_frame:
  assumes "exec_plugin q s = Inr (x, s')"
  shows "res_part s' = res_part s \<and> acc_part s' = acc_part s \<and> run_part s' = run_part s"
proof (cases "(q, s)" rule: exec_plugin.cases)
  case (1 env r s0)
  then have "PutPlugin env s r = Inr s'" using assms by auto
  then show ?thesis by (rule PutPlugin_cases) (auto simp: part_defs)
next
  case (2 env name version s0)
  then show ?thesis using assms by (auto simp: ActivatePlugin_def Let_def part_defs)
next
  case (3 env name s0)
  then show ?thesis using assms by (auto simp: DisablePlugin_def part_defs)
qed

text \<open>Changes of an outbox row that keep its identity keep the acceptance invariant.\<close>

lemma outbox_update_accept:
  assumes "accept_inv s" and "s' = s\<lparr>db_outbox := update_rows P f (db_outbox s)\<rparr>"
    and "\<And>r. out_id (f r) = out_id r \<and> out_command (f r) = out_command r \<and> out_aggregate_uid (f r) = out_aggregate_uid r \<and>
      out_idempotency_key (f r) = out_idempotency_key r"
  shows "accept_inv s' \<and> known s' = known s"
proof -
  have k: "known s' = known s" by (rule known_cong) (simp_all add: assms(2))
  have c: "command_known s' (f r) = command_known s r" "command_known s' r = command_known s r" for r
    using assms(3)[of r] by (simp_all add: command_known_def k cong: command.case_cong)
  have "out_id r \<le> db_outbox_seq s' \<and> command_known s' r" if r: "r \<in> set (db_outbox s')" for r
  proof -
    obtain y where "y \<in> set (db_outbox s)" "r = (if P y then f y else y)"
      using r unfolding assms(2) by (auto elim: update_rowsE)
    then show ?thesis using assms(1,3) c by (auto simp: accept_inv_def assms(2) split: if_splits)
  qed
  moreover have "occurrences s' = occurrences s" by (simp add: occurrences_def assms(2))
  moreover have "map out_id (db_outbox s') = map out_id (db_outbox s)"
    "map out_idempotency_key (db_outbox s') = map out_idempotency_key (db_outbox s)"
    using assms(3) by (simp_all add: assms(2) map_update_rows)
  ultimately show ?thesis using assms(1) k by (simp add: accept_inv_def assms(2))
qed


lemma acceptTrigger_frame:
  assumes "acceptTrigger env ru uu s a = Inr (r, s')"
  shows "res_part s' = res_part s \<and> run_part s' = run_part s \<and> plg_part s' = plg_part s"
  using assms
  by (auto simp: acceptTrigger_def Let_def pin_plan_def insert_plan_def insert_receipt_def insert_outbox_def advance_cursor_def
    upsertProviderCursor_def part_defs split: sum.splits option.splits if_splits)

lemma AcceptProviderSignal_frame:
  assumes "AcceptProviderSignal env ru s t g oc f ns run node payload c = Inr (r, s')"
  shows "res_part s' = res_part s \<and> run_part s' = run_part s \<and> plg_part s' = plg_part s"
  using assms by (cases "receiptByOccurrence s t oc")
    (auto simp: AcceptProviderSignal_def Let_def insert_receipt_def insert_outbox_def
      upsertProviderCursor_def part_defs split: if_splits)

lemma remove_run_parts: "res_part (remove_run now uid h s) = res_part s" "plg_part (remove_run now uid h s) = plg_part s"
  by (simp_all add: remove_run_def Let_def part_defs)

lemma collect_runs_keeps:
  assumes "collect_runs env us s = Inr s'" and "accept_inv s" "runs_inv s"
  shows "accept_inv s' \<and> known s' = known s \<and> runs_inv s' \<and> res_part s' = res_part s \<and> plg_part s' = plg_part s"
  using assms
proof (induction us arbitrary: s)
  case Nil
  then show ?case by simp
next
  case (Cons u us)
  then obtain t where t: "collect_run env u s = Inr t" "collect_runs env us t = Inr s'" by auto
  then consider "t = s" | h where "t = remove_run (env_now env) u h s"
    by (auto simp: collect_run_def split: option.splits)
  then have "accept_inv t \<and> known t = known s \<and> runs_inv t \<and> res_part t = res_part s \<and> plg_part t = plg_part s"
    using Cons.prems remove_run_accept_inv remove_run_known(1) remove_run_runs_inv remove_run_parts by cases auto
  then show ?case using Cons.IH[OF t(2)] by simp
qed

lemma CollectRetainedPlugin_frame:
  assumes "CollectRetainedPlugin lib s c = Inr s'"
  shows "res_part s' = res_part s \<and> acc_part s' = acc_part s \<and> run_part s' = run_part s"
  using assms by (rule CollectRetainedPlugin_cases) (auto simp: part_defs)

lemma store_inv_split:
  assumes "store_inv lib s" and "resources_inv lib s'" "accept_inv s' \<and> known_before s s'" "runs_inv s'" "plugins_inv s'"
  shows "store_inv lib s' \<and> known_before s s'"
  using assms by (simp add: store_inv_def)

lemmas parts_kept = resources_part accept_part runs_part plugins_part

lemma exec_store_step:
  assumes inv: "store_inv lib s" and q: "store_request_ok lib q" and ok: "exec_store q s = Inr (x, s')"
  shows "store_inv lib s' \<and> known_before s s'"
proof -
  note i = inv[unfolded store_inv_def]
  have out: ?thesis if "s' = s\<lparr>db_outbox := update_rows P f (db_outbox s)\<rparr>"
    "\<And>r. out_id (f r) = out_id r \<and> out_command (f r) = out_command r \<and> out_aggregate_uid (f r) = out_aggregate_uid r \<and>
      out_idempotency_key (f r) = out_idempotency_key r" for P f
  proof -
    have "res_part s' = res_part s \<and> run_part s' = run_part s \<and> plg_part s' = plg_part s" by (simp add: that(1) part_defs)
    then show ?thesis using outbox_update_accept[OF _ that] i parts_kept[of s' s]
      by (auto simp: store_inv_def known_before_def)
  qed
  have same: ?thesis if "res_part s' = res_part s \<and> acc_part s' = acc_part s \<and> run_part s' = run_part s \<and> plg_part s' = plg_part s"
    using that i parts_kept[of s' s] by (simp add: store_inv_def)
  show ?thesis
  proof (cases "(q, s)" rule: exec_store.cases)
    case (1 env q' s0)
    then obtain d where d: "exec_resource (env, q') s = Inr (d, s')" using ok by auto
    then show ?thesis using exec_resource_step[OF _ _ d, of lib] exec_resource_frame[OF d] 1 q i parts_kept[of s' s]
      by (auto simp: store_inv_def)
  next
    case (2 env ru uu a s0)
    then obtain r where r: "acceptTrigger env ru uu s a = Inr (r, s')" using ok by auto
    then show ?thesis using acceptTrigger_keeps(1,2)[OF _ _ r] acceptTrigger_frame[OF r] 2 q i parts_kept[of s' s]
      by (auto simp: store_inv_def)
  next
    case (3 env ru t g oc f ns run node p c s0)
    then obtain r where r: "AcceptProviderSignal env ru s t g oc f ns run node p c = Inr (r, s')" using ok by auto
    then show ?thesis using AcceptProviderSignal_keeps(1,2)[OF _ _ r] AcceptProviderSignal_frame[OF r] 3 q i parts_kept[of s' s]
      by (auto simp: store_inv_def)
  next
    case (4 env uid g en c s0)
    then show ?thesis using ok
      by (intro same) (auto simp: EnsureTriggerState_def ensureTriggerStateTx_def Let_def part_defs split: option.splits if_splits)
  next
    case (5 env uid c s0)
    then show ?thesis using ok by (intro same) (auto simp: AdvanceTriggerCursor_def part_defs)
  next
    case (6 env uid b s0)
    then show ?thesis using ok by (intro same) (auto simp: SetTriggerEnabled_def part_defs)
  next
    case (7 env uid oc reason t s0)
    then show ?thesis using ok by (intro same) (auto simp: RecordTriggerSkip_def part_defs)
  next
    case (8 env types d s0)
    then obtain k cmd n where "claim types env s d = Inr ((k, cmd, n), s')" using ok by auto
    then have "s' = lease (env_now env) k s" by (rule claim_Inr)
    then show ?thesis unfolding lease_def by (rule out) auto
  next
    case (9 env k s0)
    then have "s' = CompleteOutbox env s k" using ok by simp
    then show ?thesis unfolding CompleteOutbox_def by (rule out) (simp add: complete_row_def)
  next
    case (10 env k run s0)
    then have "s' = snd (CompleteStartIfRunCancelled env s k run)" using ok by simp
    then show ?thesis unfolding CompleteStartIfRunCancelled_def Let_def snd_conv by (rule out) (simp add: complete_row_def)
  next
    case (11 env k cause d s0)
    then have "s' = RetryOutbox env s k cause d" using ok by simp
    then show ?thesis unfolding RetryOutbox_def by (rule out) simp
  next
    case (12 env q' s0)
    then have r: "exec_run (env, q') s = Inr (x, s')" using ok by auto
    then show ?thesis using exec_run_step[OF _ r] exec_run_rest[OF r] i parts_kept[of s' s]
      by (auto simp: store_inv_def rest_part_def)
  next
    case (13 env q' s0)
    then have r: "exec_plugin (env, q') s = Inr (x, s')" using ok by auto
    then show ?thesis using exec_plugin_step[OF _ _ r] exec_plugin_frame[OF r] 13 q i parts_kept[of s' s]
      by (auto simp: store_inv_def)
  next
    case (14 env us s0)
    then have "collect_runs env us s = Inr s'" using ok by (auto simp: CollectRetainedRuns_def)
    then show ?thesis using collect_runs_keeps[of env us s s'] i parts_kept[of s' s]
      by (auto simp: store_inv_def known_before_def)
  next
    case (15 env c s0)
    then have r: "CollectRetainedPlugin (env_lib env) s c = Inr s'" using ok by auto
    then show ?thesis using CollectRetainedPlugin_frame[OF r] CollectRetainedPlugin_inv[OF _ r] i parts_kept[of s' s]
      by (auto simp: store_inv_def)
  qed
qed

interpretation store_log: monotone_transactions "store_inv lib" "store_request_ok lib" exec_store known_before
  for lib
  by unfold_locales (auto dest: exec_store_step intro: known_before_trans)

lemma empty_store_inv: "store_inv lib empty_db"
  by (simp add: store_inv_def empty_db_inv empty_runs_inv empty_plugins_inv)
    (simp add: accept_inv_def occurrences_def empty_db_def)


section \<open>Properties\<close>

text \<open>C1: one Run per occurrence, for ever. Take any history of store requests, accept an occurrence, then any further
  history: resource changes, claims, retries, Runs, retention, other acceptances. Accepting
  the same occurrence of the same Trigger again, with whatever other arguments, returns the receipt and
  the Run of the first acceptance, says that it existed, and adds no receipt, command or Run.\<close>

theorem occurrence_bound_to_one_run:
  assumes "list_all (store_request_ok lib) before" and "list_all (store_request_ok lib) between"
    and "slash_free (acc_trigger_uid a)"
    and "acceptTrigger env ru uu (run_requests exec_store before empty_db) a = Inr (r, s1)"
    and "acceptTrigger env' ru' uu' (run_requests exec_store between s1) a' = Inr (r', s3)"
    and "acc_trigger_uid a' = acc_trigger_uid a" and "acc_occurrence_id a' = acc_occurrence_id a"
  shows "rc_run_uid r' = rc_run_uid r \<and> rc_uid r' = rc_uid r \<and> rc_existing r' \<and>
    acc_part s3 = acc_part (run_requests exec_store between s1) \<and> db_runs s3 = db_runs (run_requests exec_store between s1)"
proof -
  let ?s = "run_requests exec_store before empty_db" and ?s2 = "run_requests exec_store between s1"
  have i: "store_inv lib ?s" by (rule store_log.inv_run[OF empty_store_inv assms(1)])
  have e: "exec_store (env, AcceptReq ru uu a) ?s = Inr ((), s1)" using assms(4) by simp
  have i1: "store_inv lib s1" using exec_store_step[OF i _ e] assms(3) by simp
  have k1: "known s1 (acc_trigger_uid a) (acc_occurrence_id a) = Some (rc_uid r, rc_run_uid r)"
    using acceptTrigger_keeps(3)[OF _ assms(3,4)] i by (simp add: store_inv_def)
  have "known_before s1 ?s2" by (rule store_log.before_run[OF i1 assms(2)])
  then have "known ?s2 (acc_trigger_uid a') (acc_occurrence_id a') = Some (rc_uid r, rc_run_uid r)"
    using k1 assms(6,7) by (simp add: known_before_def)
  note kn = acceptTrigger_known[OF assms(5) this]
  show ?thesis using kn by (simp add: acc_part_def)
qed

text \<open>C3: the store's invariants hold in every reachable state. After any sequence of store requests the resource
  rows agree with their bytes and with the watch log, receipts, tombstones and commands agree, run events and attempts are
  numbered without gaps and terminal Runs are exactly the completed ones, and the plugin tables agree.\<close>

theorem store_inv_reachable:
  assumes "list_all (store_request_ok lib) qs"
  shows "store_inv lib (run_requests exec_store qs empty_db)"
  by (rule store_log.inv_run[OF empty_store_inv assms])

section \<open>Concrete histories\<close>

definition sample_history :: "(store_env \<times> store_request) list" where
  "sample_history =
     [(sample_env, ResourceReq (ReqApply ''flow-uid'' ''r1'' sample_flow (sample_opts 0))),
      (sample_env, ResourceReq (ReqApply ''trigger-uid'' ''r2'' sample_trigger (sample_opts 0)))]"

definition sample_run :: "(store_env \<times> store_request) list" where
  "sample_run =
     [(sample_env, AcceptReq ''rc2'' ''run2'' sample_second),
      (sample_env, RetryReq 1 ''engine is down'' 1),
      (sample_env, RunReq (ReqEnsureRun (start_payload_of ''rc1'' ''run1'' sample_acceptance) sample_plan)),
      (sample_env, CompleteReq 1),
      (sample_env, RunReq (ReqAppendRunEvent ''run1'' [] ''run.succeeded'' ''succeeded'' 0 None))]"

lemma sample_history_ok: "list_all (store_request_ok sample_lib) sample_history"
  using sample_flow_valid sample_trigger_valid by (simp add: sample_history_def)

lemma sample_run_ok: "list_all (store_request_ok sample_lib) sample_run"
  by (simp add: sample_run_def sample_second_def sample_acceptance_def slash_free_def)

lemma commit_forget: "commit s (bind_res r (\<lambda>(_, s'). Inr (y, s'))) = commit s r"
  by (cases r) auto

lemma sample_history_db: "run_requests exec_store sample_history empty_db = sample_db"
  by (simp add: sample_history_def sample_db_def commit_forget)

theorem occurrence_bound_to_one_run_witness:
  "\<exists>r s1 r' s3. acceptTrigger sample_env ''rc1'' ''run1'' (run_requests exec_store sample_history empty_db) sample_acceptance = Inr (r, s1) \<and>
     acceptTrigger sample_env ''rc9'' ''run9''
       (run_requests exec_store (sample_run @ [(sample_env, CollectRunsReq [''run1''])]) s1) sample_acceptance = Inr (r', s3) \<and>
     rc_run_uid r' = rc_run_uid r \<and> rc_existing r'"
proof -
  let ?s = "run_requests exec_store sample_history empty_db"
  let ?b = "sample_run @ [(sample_env, CollectRunsReq [''run1''])]"
  have b: "list_all (store_request_ok sample_lib) ?b" using sample_run_ok by simp
  have sl: "slash_free (acc_trigger_uid sample_acceptance)" by code_simp
  obtain r s1 where r: "acceptTrigger sample_env ''rc1'' ''run1'' ?s sample_acceptance = Inr (r, s1)" "s1 = sample_accepted"
  proof -
    have "is_ok (acceptTrigger sample_env ''rc1'' ''run1'' sample_db sample_acceptance)" by code_simp
    then show ?thesis using that unfolding sample_history_db by (auto simp: is_ok_def sample_accepted_def split: sum.splits)
  qed
  have "is_ok (acceptTrigger sample_env ''rc9'' ''run9'' (run_requests exec_store ?b sample_accepted) sample_acceptance)" by code_simp
  then obtain r' s3 where ok: "acceptTrigger sample_env ''rc1'' ''run1'' ?s sample_acceptance = Inr (r, s1)"
    "acceptTrigger sample_env ''rc9'' ''run9'' (run_requests exec_store ?b s1) sample_acceptance = Inr (r', s3)"
    using r by (auto simp: is_ok_def split: sum.splits)
  then show ?thesis using occurrence_bound_to_one_run[OF sample_history_ok b sl ok] by blast
qed

theorem store_inv_reachable_witness: "store_inv sample_lib (run_requests exec_store (sample_history @ sample_run) empty_db)"
  by (rule store_inv_reachable) (use sample_history_ok sample_run_ok in simp)


lemma sample_accepted_inv: "store_inv sample_lib sample_accepted"
proof -
  have "is_ok (acceptTrigger sample_env ''rc1'' ''run1'' sample_db sample_acceptance)" by code_simp
  then have "exec_store (sample_env, AcceptReq ''rc1'' ''run1'' sample_acceptance) sample_db = Inr ((), sample_accepted)"
    by (auto simp: is_ok_def sample_accepted_def split: sum.splits)
  moreover have "store_inv sample_lib sample_db"
    using store_log.inv_run[OF empty_store_inv sample_history_ok] unfolding sample_history_db .
  moreover have "slash_free (acc_trigger_uid sample_acceptance)" by code_simp
  ultimately show ?thesis using exec_store_step by (metis store_request_ok.simps(2))
qed

definition sample_done :: db where
  "sample_done = run_requests exec_store sample_run sample_accepted"

text \<open>The start command of the first Run is complete and the Run has finished at time 5.\<close>

theorem planned_retention_is_safe_witness:
  "\<exists>s'. PlanRunRetention sample_done (Some (2 * second)) 0 10 = Inr [\<lparr>rr_uid = ''run1'', rr_completed = 5, rr_artifactPaths = [], rr_artifactBytes = 0\<rparr>] \<and>
     CollectRetainedRuns sample_env sample_done [''run1''] = Inr s' \<and> find_run s' ''run1'' = None \<and> known s' = known sample_done"
proof -
  have inv: "store_inv sample_lib sample_done"
    unfolding sample_done_def by (rule store_log.inv_run[OF sample_accepted_inv sample_run_ok])
  have "map (\<lambda>r. (run_uid r, run_phase r, run_completed r)) (db_runs sample_done) = [(''run1'', ''succeeded'', Some 5)]" by code_simp
  then obtain r where r: "db_runs sample_done = [r]" "run_uid r = ''run1''" "run_phase r = ''succeeded''" "run_completed r = Some 5"
    by (cases "db_runs sample_done") auto
  have w: "\<not> open_work sample_done ''run1''" "db_artifacts sample_done = []" by code_simp+
  have lt: "ts_less 5 (2 * second)" by (rule ts_less_seconds) (simp add: second_def)
  have p: "PlanRunRetention sample_done (Some (2 * second)) 0 10 = Inr [\<lparr>rr_uid = ''run1'', rr_completed = 5, rr_artifactPaths = [], rr_artifactBytes = 0\<rparr>]"
    by (simp add: PlanRunRetention_def retention_candidates_def newest_terminal_def r w lt run_artifacts_def List.map_filter_simps)
  show ?thesis
    using planned_retention_is_safe[OF _ _ p, of sample_env] inv p by (auto simp: store_inv_def)
qed

end
