(* ===== verification/Server_List.thy ===== *)
theory Server_List
  imports Store_System
begin

text \<open>
  The list and watch handlers of \<open>internal/server\<close> (\<open>api.go\<close>, \<open>pagination.go\<close>): filters, the
  continue token, stable pages and the stream of events.

  A token is represented by what it encodes: no token, bytes that do not decode to a token
  (\<open>BadToken\<close>), or a token record; base64 and the JSON form are left out. The digest of the filter and
  the projection of a document to the wire are arguments.

  The properties: following the tokens of a list over an unchanged store visits every matching resource
  exactly once, in key order, and a token never continues over a changed store; a watch sends every matching
  event once, in revision order, whatever is written between its polls.
\<close>

datatype rpc_error =
  InvalidArgument string
| Aborted string
| FailedPrecondition string
| NotFound string
| Internal string

fun rpcError :: "store_error \<Rightarrow> rpc_error" where
  "rpcError (ConflictError e c) = Aborted ''resource version conflict''"
| "rpcError (StaleFlowPlanError a b c d) = Aborted ''stale Flow plan''"
| "rpcError (StaleTriggerGenerationError e c) = Aborted ''stale Trigger generation''"
| "rpcError TriggerReferenceChangedError = Aborted ''Trigger reference changed''"
| "rpcError (StaleObservedGenerationError e c) = Aborted ''stale observed generation''"
| "rpcError (SnapshotRevisionError e c) = Aborted ''resource collection changed; restart pagination''"
| "rpcError ErrTriggerDisabled = FailedPrecondition ''trigger is disabled''"
| "rpcError ErrNotFound = NotFound ''not found''"
| "rpcError ErrConstraint = Internal ''constraint''"
| "rpcError (ErrText t) = Internal t"

section \<open>Continue tokens\<close>

definition resourceTokenVersion :: nat where
  "resourceTokenVersion = 1"

record page_token =
  tok_version :: nat
  tok_revision :: nat
  tok_filterDigest :: string
  tok_kind :: string
  tok_namespace :: string
  tok_name :: string

datatype continue_token = NoToken | BadToken | Token page_token

record list_request =
  lr_kind :: string
  lr_namespace :: string
  lr_labels :: "(string \<times> string) list"
  lr_limit :: nat
  lr_continue :: continue_token

record resource_filter =
  rf_kind :: string
  rf_namespace :: string
  rf_labels :: "(string \<times> string) list"

definition resourceFilterDigest :: "(resource_filter \<Rightarrow> string) \<Rightarrow> list_request \<Rightarrow> string" where
  "resourceFilterDigest sha request =
     sha \<lparr>rf_kind = lr_kind request, rf_namespace = lr_namespace request, rf_labels = sort_key fst (lr_labels request)\<rparr>"

definition validResourceKind :: "string \<Rightarrow> bool" where
  "validResourceKind kind \<longleftrightarrow> kind \<in> set [''Flow'', ''Trigger'', ''Repository'', ''AgentProfile'', ''PluginInstallation'', ''SecretRef'']"

definition named_meta :: "string \<Rightarrow> string \<Rightarrow> object_meta" where
  "named_meta name ns = \<lparr>meta_name = name, meta_namespace = ns, meta_uid = [], meta_resourceVersion = 0,
     meta_generation = 0, meta_labels = []\<rparr>"

definition empty_token :: page_token where
  "empty_token = \<lparr>tok_version = 0, tok_revision = 0, tok_filterDigest = [], tok_kind = [], tok_namespace = [], tok_name = []\<rparr>"

definition decodeResourcePageToken ::
    "(resource_filter \<Rightarrow> string) \<Rightarrow> list_request \<Rightarrow> (string, page_token) result" where
  "decodeResourcePageToken sha request =
     (case lr_continue request of NoToken \<Rightarrow> Inr empty_token
      | BadToken \<Rightarrow> Inl ''continue_token is invalid''
      | Token t \<Rightarrow>
          bind_res (fail_if (tok_version t \<noteq> resourceTokenVersion \<or> tok_revision t = 0 \<or> \<not> validResourceKind (tok_kind t) \<or>
                      tok_namespace t = [] \<or> tok_name t = []) ''continue_token is invalid'') (\<lambda>_.
          bind_res (fail_if (tok_filterDigest t \<noteq> resourceFilterDigest sha request)
                      ''continue_token does not match list filters'') (\<lambda>_.
          bind_res (map_err (\<lambda>_. ''continue_token is invalid'') (ValidateMetadata (named_meta (tok_name t) (tok_namespace t)))) (\<lambda>_.
          Inr t))))"

definition encodeResourcePageToken ::
    "(resource_filter \<Rightarrow> string) \<Rightarrow> list_request \<Rightarrow> nat \<Rightarrow> document \<Rightarrow> continue_token" where
  "encodeResourcePageToken sha request revision d =
     Token \<lparr>tok_version = resourceTokenVersion, tok_revision = revision, tok_filterDigest = resourceFilterDigest sha request,
       tok_kind = doc_kind d, tok_namespace = meta_namespace (doc_metadata d), tok_name = meta_name (doc_metadata d)\<rparr>"

section \<open>List\<close>

record 'r list_response =
  ls_revision :: nat
  ls_resources :: "'r list"
  ls_continue :: continue_token

definition page_options_of :: "list_request \<Rightarrow> page_token \<Rightarrow> page_options" where
  "page_options_of request t = \<lparr>pg_kind = lr_kind request, pg_namespace = lr_namespace request, pg_labels = lr_labels request,
     pg_afterKind = tok_kind t, pg_afterNamespace = tok_namespace t, pg_afterName = tok_name t,
     pg_expectedRevision = tok_revision t, pg_limit = int (lr_limit request)\<rparr>"

definition APIList ::
    "resource_lib \<Rightarrow> (resource_filter \<Rightarrow> string) \<Rightarrow> (document \<Rightarrow> 'r) \<Rightarrow> db \<Rightarrow> list_request \<Rightarrow>
      (rpc_error, 'r list_response) result" where
  "APIList lib sha projectResource s request =
     bind_res (fail_if (lr_kind request \<noteq> [] \<and> \<not> validResourceKind (lr_kind request))
                 (InvalidArgument ''kind filter is invalid'')) (\<lambda>_.
     bind_res (if lr_namespace request = [] then Inr ()
               else map_err (\<lambda>_. InvalidArgument ''namespace filter is invalid'')
                 (ValidateMetadata (named_meta ''list'' (lr_namespace request)))) (\<lambda>_.
     bind_res (fail_if (lr_limit request > 1000) (InvalidArgument ''limit must not exceed 1000'')) (\<lambda>_.
     bind_res (map_err InvalidArgument (decodeResourcePageToken sha request)) (\<lambda>token.
     bind_res (map_err rpcError (ListResourcePage lib s (page_options_of request token))) (\<lambda>(docs, revision, hasMore).
     Inr \<lparr>ls_revision = revision, ls_resources = map projectResource docs,
          ls_continue = (if hasMore \<and> docs \<noteq> [] then encodeResourcePageToken sha request revision (last docs)
                         else NoToken)\<rparr>)))))"

text \<open>A client that follows the tokens; the fuel counts pages.\<close>

fun follow_pages ::
    "resource_lib \<Rightarrow> (resource_filter \<Rightarrow> string) \<Rightarrow> (document \<Rightarrow> 'r) \<Rightarrow> db \<Rightarrow> nat \<Rightarrow> list_request \<Rightarrow>
      (rpc_error, 'r list) result option" where
  "follow_pages lib sha project s 0 request = None"
| "follow_pages lib sha project s (Suc fuel) request =
     (case APIList lib sha project s request of Inl e \<Rightarrow> Some (Inl e)
      | Inr resp \<Rightarrow> if ls_continue resp = NoToken then Some (Inr (ls_resources resp))
          else map_option (\<lambda>r. bind_res r (\<lambda>rs. Inr (ls_resources resp @ rs)))
                 (follow_pages lib sha project s fuel (request\<lparr>lr_continue := ls_continue resp\<rparr>)))"

section \<open>Watch\<close>

record watch_request =
  wr_kind :: string
  wr_namespace :: string
  wr_after :: nat

text \<open>
  One poll of the stream sends the events it read until a stored document does not decode; the second
  component is the error of the handler, the third the revision to go on from. \<open>None\<close> is the
  deletion document, a key without a body.
\<close>

fun send_events ::
    "resource_lib \<Rightarrow> (document \<Rightarrow> 'r) \<Rightarrow> resource_event list \<Rightarrow> nat \<Rightarrow>
      (nat \<times> string \<times> 'r option) list \<times> rpc_error option \<times> nat" where
  "send_events lib project [] revision = ([], None, revision)"
| "send_events lib project (e # es) revision =
     (case (case ev_document e of None \<Rightarrow> Inr None
            | Some v \<Rightarrow> bind_res (decode_value lib v) (\<lambda>d. Inr (Some (project d)))) of
        Inl _ \<Rightarrow> ([], Some (Internal ''stored resource event is invalid''), revision)
      | Inr doc \<Rightarrow> (let (out, err, r) = send_events lib project es (ev_revision e)
                   in ((ev_revision e, ev_type e, doc) # out, err, r)))"

text \<open>The polls of one stream, each over the database as it is then.\<close>

fun APIWatch ::
    "resource_lib \<Rightarrow> (document \<Rightarrow> 'r) \<Rightarrow> watch_request \<Rightarrow> nat \<Rightarrow> db list \<Rightarrow>
      (nat \<times> string \<times> 'r option) list \<times> rpc_error option \<times> nat" where
  "APIWatch lib project rq revision [] = ([], None, revision)"
| "APIWatch lib project rq revision (s # polls) =
     (let (out, err, r) = send_events lib project (EventsAfter s (wr_kind rq) (wr_namespace rq) revision 100) revision
      in if err \<noteq> None then (out, err, r)
         else (let (out', err', r') = APIWatch lib project rq r polls in (out @ out', err', r')))"

section \<open>Pages\<close>

definition matches :: "list_request \<Rightarrow> resource_row \<Rightarrow> bool" where
  "matches rq r \<longleftrightarrow> in_scope (lr_kind rq) (lr_namespace rq) r \<and> (lr_labels rq = [] \<or> labelsMatch (res_labels r) (lr_labels rq))"

definition listed :: "list_request \<Rightarrow> db \<Rightarrow> resource_row list" where
  "listed rq s = filter (matches rq) (sort_key row_key (db_resources s))"

definition doc_of :: "resource_lib \<Rightarrow> resource_row \<Rightarrow> document" where
  "doc_of lib r = (case decode_value lib (res_json r) of Inr d \<Rightarrow> d | Inl _ \<Rightarrow> undefined)"

lemma doc_of_ok: "row_ok lib r \<Longrightarrow> decode_value lib (res_json r) = Inr (doc_of lib r) \<and> r = row_of (doc_of lib r) (res_created r) (res_updated r)"
  by (auto simp: row_ok_def doc_of_def split: sum.splits)

lemma doc_of_key:
  assumes "row_ok lib r"
  shows "doc_kind (doc_of lib r) = res_kind r" "meta_namespace (doc_metadata (doc_of lib r)) = res_namespace r"
    "meta_name (doc_metadata (doc_of lib r)) = res_name r" "doc_valid lib (doc_of lib r)"
  using doc_of_ok[OF assms] decode_value_valid by (metis row_of_simps(1-3), metis row_of_simps(1-3), metis row_of_simps(1-3), blast)

lemma page_scan_eq:
  assumes "\<forall>r \<in> set rows. row_ok lib r" and "length acc \<le> n"
  shows "page_scan lib labels n acc rows =
    (let ms = filter (\<lambda>r. labels = [] \<or> labelsMatch (res_labels r) labels) rows
     in Inr (acc @ map (doc_of lib) (take (n - length acc) ms), n - length acc < length ms))"
  using assms
proof (induction rows arbitrary: acc)
  case Nil
  then show ?case by simp
next
  case (Cons r rows)
  have d: "decode_row lib r = Inr (doc_of lib r)" using Cons.prems(1) doc_of_ok[of lib r] by (simp add: decode_row_def)
  show ?case
  proof (cases "labels = [] \<or> labelsMatch (res_labels r) labels")
    case False
    then show ?thesis using Cons by simp
  next
    case True
    then show ?thesis
    proof (cases "length acc = n")
      case True
      then show ?thesis using \<open>labels = [] \<or> labelsMatch (res_labels r) labels\<close> by (auto simp: Let_def)
    next
      case False
      then have "n - length acc = Suc (n - Suc (length acc))" using Cons.prems(2) by simp
      then show ?thesis using True False Cons.IH[of "acc @ [doc_of lib r]"] Cons.prems d by (auto simp: Let_def)
    qed
  qed
qed

lemma after_key_less:
  "after_set pg \<Longrightarrow> after_key pg r \<longleftrightarrow> (pg_afterKind pg, pg_afterNamespace pg, pg_afterName pg) < row_key r"
  by (auto simp: after_key_def row_key_def less_prod_def)

lemma after_key_none: "\<not> after_set pg \<Longrightarrow> after_key pg r"
  by (simp add: after_key_def)

lemma strict_sorted_after:
  fixes k :: "'a \<Rightarrow> 'b :: linorder"
  assumes "sorted_wrt (<) (map k xs)" and "0 < n" "n \<le> length xs"
  shows "filter (\<lambda>x. k (xs ! (n - 1)) < k x) xs = drop n xs"
  using assms
proof (induction xs arbitrary: n)
  case (Cons x xs)
  show ?case
  proof (cases "n = 1")
    case True
    then show ?thesis using Cons.prems(1) by (auto intro: filter_True)
  next
    case False
    then have n: "0 < n - 1" "n - 1 \<le> length xs" using Cons.prems by auto
    then have "k x < k (xs ! (n - 1 - 1))" using Cons.prems(1) by simp
    moreover have "(x # xs) ! (n - 1) = xs ! (n - 1 - 1)" using n by (simp add: nth_Cons')
    moreover have "drop n (x # xs) = drop (n - 1) xs" using n by (simp add: drop_Cons')
    ultimately show ?thesis using Cons.IH[OF _ n] Cons.prems(1) by (auto dest: order.strict_trans)
  qed
qed simp

lemma listed_sorted:
  assumes "resources_inv lib s"
  shows "sorted_wrt (<) (map row_key (listed rq s))"
proof -
  have "distinct (map row_key (db_resources s))" using assms by (simp add: resources_inv_def)
  then have "distinct (map row_key (sort_key row_key (db_resources s)))"
    by (metis distinct_map distinct_sort set_sort)
  then have "sorted_wrt (<) (map row_key (sort_key row_key (db_resources s)))" by (simp add: strict_sorted_iff)
  then show ?thesis unfolding listed_def sorted_wrt_map by (rule sorted_wrt_filter)
qed


lemma listed_rows: "r \<in> set (listed rq s) \<Longrightarrow> r \<in> set (db_resources s)"
  by (simp add: listed_def)

lemma page_matches:
  "pg_kind pg = lr_kind rq \<Longrightarrow> pg_namespace pg = lr_namespace rq \<Longrightarrow> pg_labels pg = lr_labels rq \<Longrightarrow>
    filter (\<lambda>r. pg_labels pg = [] \<or> labelsMatch (res_labels r) (pg_labels pg)) (page_rows s pg) = filter (after_key pg) (listed rq s)"
  by (simp add: page_rows_def listed_def matches_def filter_sort conj_commute conj_left_commute)

lemma ListResourcePage_eq:
  assumes inv: "resources_inv lib s" and rv: "pg_expectedRevision pg = 0 \<or> pg_expectedRevision pg = db_revision s"
    and pg: "pg_kind pg = lr_kind rq" "pg_namespace pg = lr_namespace rq" "pg_labels pg = lr_labels rq"
    and ms: "ms = filter (after_key pg) (listed rq s)" and n: "n = page_limit (pg_limit pg)"
  shows "ListResourcePage lib s pg = Inr (map (doc_of lib) (take n ms), db_revision s, n < length ms)"
proof -
  have "\<forall>r \<in> set (page_rows s pg). row_ok lib r" using inv by (simp add: page_rows_def resources_inv_def)
  from page_scan_eq[OF this, of "[]" n "pg_labels pg"]
  have "page_scan lib (pg_labels pg) n [] (page_rows s pg) = Inr (map (doc_of lib) (take n ms), n < length ms)"
    using page_matches[OF pg] ms by (simp add: Let_def)
  then show ?thesis using rv n by (auto simp: ListResourcePage_def)
qed

lemma row_token_ok:
  assumes inv: "resources_inv lib s" and r: "r \<in> set (db_resources s)"
  shows "validResourceKind (res_kind r)" "res_namespace r \<noteq> []" "res_name r \<noteq> []" "db_revision s \<noteq> 0"
    "ValidateMetadata (named_meta (res_name r) (res_namespace r)) = Inr ()"
proof -
  have ok: "row_ok lib r" and v: "0 < res_version r" "res_version r \<le> db_revision s" using inv r by (auto simp: resources_inv_def)
  note k = doc_of_key[OF ok]
  have d: "is_ok (ValidateMetadata (doc_metadata (doc_of lib r)))" "meta_namespace (doc_metadata (doc_of lib r)) \<noteq> []"
    "doc_kind (doc_of lib r) = spec_kind (doc_spec (doc_of lib r))"
    using k(4) by (auto simp: doc_valid_def doc_coherent_def)
  show "validResourceKind (res_kind r)" using d(3) k(1) by (cases "doc_spec (doc_of lib r)") (auto simp: validResourceKind_def)
  show "res_namespace r \<noteq> []" using d(2) k(2) by simp
  have dn: "dnsName (res_name r)" using d(1) k(3) by (simp add: ValidateMetadata_ok)
  show "res_name r \<noteq> []" using dn by (auto simp: dnsName_def)
  show "db_revision s \<noteq> 0" using v by simp
  have "ValidateMetadata (named_meta (res_name r) (res_namespace r)) = ValidateMetadata (doc_metadata (doc_of lib r))"
    by (rule ValidateMetadata_cong) (use k in \<open>simp_all add: named_meta_def\<close>)
  then show "ValidateMetadata (named_meta (res_name r) (res_namespace r)) = Inr ()"
    using d(1) by (auto simp: is_ok_def split: sum.splits)
qed

text \<open>The filters a list accepts, and the token that stands for \<open>i\<close> listed rows.\<close>

definition filters_ok :: "list_request \<Rightarrow> bool" where
  "filters_ok rq \<longleftrightarrow> (lr_kind rq = [] \<or> validResourceKind (lr_kind rq)) \<and>
     (lr_namespace rq = [] \<or> is_ok (ValidateMetadata (named_meta ''list'' (lr_namespace rq)))) \<and> lr_limit rq \<le> 1000"

definition token_at :: "resource_lib \<Rightarrow> (resource_filter \<Rightarrow> string) \<Rightarrow> db \<Rightarrow> list_request \<Rightarrow> nat \<Rightarrow> continue_token" where
  "token_at lib sha s rq i = (if i = 0 then NoToken
     else encodeResourcePageToken sha rq (db_revision s) (doc_of lib (listed rq s ! (i - 1))))"

lemma digest_continue: "resourceFilterDigest sha (rq\<lparr>lr_continue := t\<rparr>) = resourceFilterDigest sha rq"
  by (simp add: resourceFilterDigest_def)

lemma listed_continue [simp]: "listed (rq\<lparr>lr_continue := t\<rparr>) s = listed rq s"
  by (simp add: listed_def matches_def[abs_def])

lemma APIList_page:
  assumes inv: "resources_inv lib s" and f: "filters_ok rq" and i: "i \<le> length (listed rq s)"
    and n: "n = page_limit (int (lr_limit rq))"
  shows "APIList lib sha project s (rq\<lparr>lr_continue := token_at lib sha s rq i\<rparr>) = Inr \<lparr>ls_revision = db_revision s,
    ls_resources = map (project \<circ> doc_of lib) (take n (drop i (listed rq s))),
    ls_continue = (if i + n < length (listed rq s) then token_at lib sha s rq (i + n) else NoToken)\<rparr>"
proof -
  let ?L = "listed rq s"
  let ?rq = "rq\<lparr>lr_continue := token_at lib sha s rq i\<rparr>"
  have npos: "0 < n" using page_limit_bounds n by simp
  obtain t where t: "decodeResourcePageToken sha ?rq = Inr t" "tok_revision t = 0 \<or> tok_revision t = db_revision s"
    and af: "filter (after_key (page_options_of ?rq t)) ?L = drop i ?L"
  proof (cases "i = 0")
    case True
    show ?thesis
    proof (rule that)
      show "decodeResourcePageToken sha ?rq = Inr empty_token" using True by (simp add: decodeResourcePageToken_def token_at_def)
      show "tok_revision empty_token = 0 \<or> tok_revision empty_token = db_revision s" by (simp add: empty_token_def)
      show "filter (after_key (page_options_of ?rq empty_token)) ?L = drop i ?L"
        using True by (simp add: after_key_none after_set_def page_options_of_def empty_token_def)
    qed
  next
    case False
    let ?r = "?L ! (i - 1)"
    have "?r \<in> set ?L" using False i by simp
    then have r: "?r \<in> set (db_resources s)" by (rule listed_rows)
    then have "row_ok lib ?r" using inv by (simp add: resources_inv_def)
    note k = doc_of_key[OF this] and tk = row_token_ok[OF inv r]
    let ?t = "\<lparr>tok_version = resourceTokenVersion, tok_revision = db_revision s, tok_filterDigest = resourceFilterDigest sha rq,
       tok_kind = res_kind ?r, tok_namespace = res_namespace ?r, tok_name = res_name ?r\<rparr>"
    show ?thesis
    proof (rule that)
      show "decodeResourcePageToken sha ?rq = Inr ?t"
        using False k tk by (simp add: decodeResourcePageToken_def token_at_def encodeResourcePageToken_def digest_continue)
      show "tok_revision ?t = 0 \<or> tok_revision ?t = db_revision s" by simp
      have "after_key (page_options_of ?rq ?t) = (\<lambda>x. row_key ?r < row_key x)"
        using after_key_less[of "page_options_of ?rq ?t"] tk(2) by (simp add: fun_eq_iff after_set_def page_options_of_def row_key_def)
      then show "filter (after_key (page_options_of ?rq ?t)) ?L = drop i ?L"
        using strict_sorted_after[OF listed_sorted[OF inv], of i] False i by simp
    qed
  qed
  have pg: "ListResourcePage lib s (page_options_of ?rq t) = Inr (map (doc_of lib) (take n (drop i ?L)), db_revision s, n < length (drop i ?L))"
    by (rule ListResourcePage_eq[OF inv, where rq = rq]) (use t af n in \<open>simp_all add: page_options_of_def\<close>)
  have pre: "\<not> (lr_kind ?rq \<noteq> [] \<and> \<not> validResourceKind (lr_kind ?rq))" "\<not> lr_limit ?rq > 1000"
    "(if lr_namespace ?rq = [] then Inr () else map_err (\<lambda>_. InvalidArgument ''namespace filter is invalid'')
       (ValidateMetadata (named_meta ''list'' (lr_namespace ?rq)))) = Inr ()"
    using f by (auto simp: filters_ok_def is_ok_def split: sum.splits)
  have lastd: "last (map (doc_of lib) (take n (drop i ?L))) = doc_of lib (?L ! (i + n - 1))" if "i + n < length ?L"
    using that npos by (simp add: last_conv_nth)
  have tok: "(if n < length (drop i ?L) \<and> map (doc_of lib) (take n (drop i ?L)) \<noteq> []
      then encodeResourcePageToken sha ?rq (db_revision s) (last (map (doc_of lib) (take n (drop i ?L)))) else NoToken) =
    (if i + n < length ?L then token_at lib sha s rq (i + n) else NoToken)"
    using npos lastd by (auto simp: token_at_def encodeResourcePageToken_def digest_continue)
  have "APIList lib sha project s ?rq = Inr \<lparr>ls_revision = db_revision s, ls_resources = map project (map (doc_of lib) (take n (drop i ?L))),
      ls_continue = (if n < length (drop i ?L) \<and> map (doc_of lib) (take n (drop i ?L)) \<noteq> []
        then encodeResourcePageToken sha ?rq (db_revision s) (last (map (doc_of lib) (take n (drop i ?L)))) else NoToken)\<rparr>"
    unfolding APIList_def pre(3) t(1) using pre(1,2) pg by (auto simp del: bind_res_Inr_iff)
  then show ?thesis unfolding tok by simp
qed

lemma follow_pages_eq:
  assumes inv: "resources_inv lib s" and f: "filters_ok rq"
  shows "i \<le> length (listed rq s) \<Longrightarrow> length (listed rq s) - i < fuel \<Longrightarrow>
    follow_pages lib sha project s fuel (rq\<lparr>lr_continue := token_at lib sha s rq i\<rparr>) =
      Some (Inr (map (project \<circ> doc_of lib) (drop i (listed rq s))))"
proof (induction fuel arbitrary: i)
  case 0
  then show ?case by simp
next
  case (Suc fuel)
  let ?n = "page_limit (int (lr_limit rq))" and ?L = "listed rq s"
  note pg = APIList_page[OF inv f Suc.prems(1) refl, of sha project]
  have npos: "0 < ?n" using page_limit_bounds by simp
  show ?case
  proof (cases "i + ?n < length ?L")
    case False
    then show ?thesis by (simp add: pg)
  next
    case True
    then have "token_at lib sha s rq (i + ?n) \<noteq> NoToken" using npos by (simp add: token_at_def encodeResourcePageToken_def)
    moreover have "follow_pages lib sha project s fuel (rq\<lparr>lr_continue := token_at lib sha s rq (i + ?n)\<rparr>) =
        Some (Inr (map (project \<circ> doc_of lib) (drop (i + ?n) ?L)))"
      by (rule Suc.IH) (use True Suc.prems npos in auto)
    moreover have "map (project \<circ> doc_of lib) (take ?n (drop i ?L)) @ map (project \<circ> doc_of lib) (drop (i + ?n) ?L) =
        map (project \<circ> doc_of lib) (drop i ?L)"
      by (metis add.commute append_take_drop_id drop_drop map_append)
    ultimately show ?thesis using True by (simp add: pg)
  qed
qed

section \<open>Properties\<close>

text \<open>C30: pages are stable and complete. In a store that satisfies its invariant, a client that lists with valid
  filters and follows the continue tokens terminates after at most one page more than there are matching
  resources and receives exactly the matching resources, each once, in the order of kind,
  namespace and name, whatever the page size. A token taken at another revision is refused
  with Aborted, so that no client combines pages of two snapshots.\<close>

theorem pages_cover_the_snapshot:
  assumes "resources_inv lib s" and "filters_ok rq" and "lr_continue rq = NoToken"
  shows "follow_pages lib sha project s (length (listed rq s) + 1) rq = Some (Inr (map (project \<circ> doc_of lib) (listed rq s))) \<and>
    set (listed rq s) = {r \<in> set (db_resources s). matches rq r} \<and> sorted_wrt (<) (map row_key (listed rq s)) \<and>
    (\<forall>t. decodeResourcePageToken sha (rq\<lparr>lr_continue := Token t\<rparr>) = Inr t \<and> tok_revision t \<noteq> db_revision s \<longrightarrow>
      APIList lib sha project s (rq\<lparr>lr_continue := Token t\<rparr>) =
        Inl (Aborted ''resource collection changed; restart pagination''))"
proof (intro conjI)
  have "rq\<lparr>lr_continue := token_at lib sha s rq 0\<rparr> = rq" using assms(3) by (simp add: token_at_def)
  then show "follow_pages lib sha project s (length (listed rq s) + 1) rq = Some (Inr (map (project \<circ> doc_of lib) (listed rq s)))"
    using follow_pages_eq[OF assms(1,2), of 0 "length (listed rq s) + 1" sha project] by simp
  show "set (listed rq s) = {r \<in> set (db_resources s). matches rq r}" by (auto simp: listed_def)
  show "sorted_wrt (<) (map row_key (listed rq s))" by (rule listed_sorted[OF assms(1)])
  show "\<forall>t. decodeResourcePageToken sha (rq\<lparr>lr_continue := Token t\<rparr>) = Inr t \<and> tok_revision t \<noteq> db_revision s \<longrightarrow>
      APIList lib sha project s (rq\<lparr>lr_continue := Token t\<rparr>) = Inl (Aborted ''resource collection changed; restart pagination'')"
  proof (intro allI impI)
    fix t
    assume t: "decodeResourcePageToken sha (rq\<lparr>lr_continue := Token t\<rparr>) = Inr t \<and> tok_revision t \<noteq> db_revision s"
    then have "tok_revision t \<noteq> 0" by (auto simp: decodeResourcePageToken_def)
    then have "ListResourcePage lib s (page_options_of (rq\<lparr>lr_continue := Token t\<rparr>) t) = Inl (SnapshotRevisionError (tok_revision t) (db_revision s))"
      using t by (simp add: ListResourcePage_def page_options_of_def)
    then show "APIList lib sha project s (rq\<lparr>lr_continue := Token t\<rparr>) = Inl (Aborted ''resource collection changed; restart pagination'')"
      using t assms(2) by (auto simp: APIList_def filters_ok_def is_ok_def split: sum.splits)
  qed
qed


definition sample_list :: list_request where
  "sample_list = \<lparr>lr_kind = [], lr_namespace = [], lr_labels = [], lr_limit = 1, lr_continue = NoToken\<rparr>"

theorem pages_cover_the_snapshot_witness:
  "follow_pages sample_lib (\<lambda>_. ''f'') doc_kind sample_db 3 sample_list = Some (Inr [''Flow'', ''Trigger''])"
proof -
  have inv: "resources_inv sample_lib sample_db"
    using store_log.inv_run[OF empty_store_inv sample_history_ok] unfolding sample_history_db by (simp add: store_inv_def)
  have f: "filters_ok sample_list" "lr_continue sample_list = NoToken" by code_simp+
  have "map doc_kind (map (doc_of sample_lib) (listed sample_list sample_db)) = [''Flow'', ''Trigger'']" by code_simp
  then have l: "map (doc_kind \<circ> doc_of sample_lib) (listed sample_list sample_db) = [''Flow'', ''Trigger'']" by simp
  then have "length (listed sample_list sample_db) + 1 = 3" by (metis One_nat_def Suc_1 add_Suc_right add.right_neutral length_Cons length_map list.size(3) numeral_3_eq_3)
  then show ?thesis using pages_cover_the_snapshot[OF inv f, of "\<lambda>_. ''f''" doc_kind] l by simp
qed

section \<open>The event stream\<close>

definition watched :: "watch_request \<Rightarrow> nat \<Rightarrow> db \<Rightarrow> resource_event list" where
  "watched rq after s = filter (\<lambda>e. ev_revision e > after \<and> (wr_kind rq = [] \<or> ev_kind e = wr_kind rq) \<and>
     (wr_namespace rq = [] \<or> ev_namespace e = wr_namespace rq)) (db_events s)"

definition events_decode :: "resource_lib \<Rightarrow> db \<Rightarrow> bool" where
  "events_decode lib s \<longleftrightarrow> (\<forall>e \<in> set (db_events s). \<forall>v. ev_document e = Some v \<longrightarrow> is_ok (decode_value lib v))"

definition sent_event :: "resource_lib \<Rightarrow> (document \<Rightarrow> 'r) \<Rightarrow> resource_event \<Rightarrow> nat \<times> string \<times> 'r option" where
  "sent_event lib project e = (ev_revision e, ev_type e,
     (case ev_document e of None \<Rightarrow> None | Some v \<Rightarrow> (case decode_value lib v of Inl _ \<Rightarrow> None | Inr d \<Rightarrow> Some (project d))))"

lemma send_events_eq:
  assumes "\<forall>e \<in> set es. \<forall>v. ev_document e = Some v \<longrightarrow> is_ok (decode_value lib v)"
  shows "send_events lib project es r = (map (sent_event lib project) es, None, last (r # map ev_revision es))"
  using assms
proof (induction es arbitrary: r)
  case (Cons e es)
  then show ?case
    by (auto simp: sent_event_def is_ok_def split: option.splits sum.splits)
qed simp

lemma EventsAfter_watched:
  assumes "sorted_wrt (<) (map ev_revision (db_events s))"
  shows "EventsAfter s (wr_kind rq) (wr_namespace rq) r 100 = take 100 (watched rq r s)"
proof -
  have "sorted_wrt (<) (map ev_revision (watched rq r s))"
    using assms unfolding watched_def sorted_wrt_map by (rule sorted_wrt_filter)
  then have "sort_key ev_revision (watched rq r s) = watched rq r s"
    by (intro sort_key_id_if_sorted strict_sorted_imp_sorted)
  then show ?thesis by (simp add: EventsAfter_def watched_def page_limit_def)
qed


lemma watched_append:
  assumes "db_events s = db_events t @ es"
  shows "watched rq r s = watched rq r t @ filter (\<lambda>e. ev_revision e > r \<and> (wr_kind rq = [] \<or> ev_kind e = wr_kind rq) \<and>
     (wr_namespace rq = [] \<or> ev_namespace e = wr_namespace rq)) es"
  by (simp add: watched_def assms)

lemma watched_sorted: "sorted_wrt (<) (map ev_revision (db_events s)) \<Longrightarrow> sorted_wrt (<) (map ev_revision (watched rq r s))"
  unfolding watched_def sorted_wrt_map by (rule sorted_wrt_filter)

text \<open>Going on from the last event sent continues where the stream was.\<close>

lemma watched_resume:
  assumes "sorted_wrt (<) (map ev_revision (db_events s))" and "k \<le> length (watched rq r s)"
  shows "watched rq (last (r # map ev_revision (take k (watched rq r s)))) s = drop k (watched rq r s)"
proof (cases "k = 0")
  case False
  let ?W = "watched rq r s"
  let ?l = "ev_revision (?W ! (k - 1))"
  have l: "last (r # map ev_revision (take k ?W)) = ?l" using False assms(2) by (auto simp: last_conv_nth)
  have "?W ! (k - 1) \<in> set ?W" using False assms(2) by simp
  then have "r < ?l" by (simp add: watched_def)
  then have "watched rq ?l s = filter (\<lambda>e. ?l < ev_revision e) ?W" unfolding watched_def filter_filter by (metis (no_types, lifting) order.strict_trans)
  also have "\<dots> = drop k ?W" using strict_sorted_after[OF watched_sorted[OF assms(1)], of k] False assms(2) by simp
  finally show ?thesis unfolding l .
qed simp

lemma poll_eq:
  assumes "sorted_wrt (<) (map ev_revision (db_events s))" "events_decode lib s" "db_events s = db_events t @ es"
  obtains k where "k \<le> length (watched rq r s)" "t = s \<Longrightarrow> k = min 100 (length (watched rq r s))"
    "send_events lib project (EventsAfter t (wr_kind rq) (wr_namespace rq) r 100) r =
      (map (sent_event lib project) (take k (watched rq r s)), None, last (r # map ev_revision (take k (watched rq r s))))"
proof -
  let ?k = "min 100 (length (watched rq r t))"
  have st: "sorted_wrt (<) (map ev_revision (db_events t))" using assms(1,3) by (simp add: sorted_wrt_append)
  have "EventsAfter t (wr_kind rq) (wr_namespace rq) r 100 = take ?k (watched rq r t)"
    by (simp add: EventsAfter_watched[OF st] min_def)
  also have "\<dots> = take ?k (watched rq r s)" by (simp add: watched_append[OF assms(3)])
  finally have e: "EventsAfter t (wr_kind rq) (wr_namespace rq) r 100 = take ?k (watched rq r s)" .
  have dec: "\<forall>e \<in> set (take ?k (watched rq r s)). \<forall>v. ev_document e = Some v \<longrightarrow> is_ok (decode_value lib v)"
  proof (intro ballI allI impI)
    fix e v assume "e \<in> set (take ?k (watched rq r s))" "ev_document e = Some v"
    then show "is_ok (decode_value lib v)" using assms(2) in_set_takeD[of e ?k "watched rq r s"]
      by (auto simp: events_decode_def watched_def)
  qed
  have len: "?k \<le> length (watched rq r s)" by (simp add: watched_append[OF assms(3)])
  show ?thesis
    by (rule that[OF len]) (simp, simp only: e send_events_eq[OF dec])
qed

lemma APIWatch_prefix:
  assumes "sorted_wrt (<) (map ev_revision (db_events s))" "events_decode lib s"
    and "\<forall>t \<in> set polls. \<exists>es. db_events s = db_events t @ es"
  shows "\<exists>m. m \<le> length (watched rq r s) \<and> APIWatch lib project rq r polls =
    (map (sent_event lib project) (take m (watched rq r s)), None, last (r # map ev_revision (take m (watched rq r s)))) \<and>
    (polls = replicate k s \<longrightarrow> m = min (100 * k) (length (watched rq r s)))"
  using assms(3)
proof (induction polls arbitrary: r k)
  case Nil
  then show ?case by (intro exI[of _ 0]) auto
next
  case (Cons t polls)
  let ?W = "watched rq r s"
  obtain es where "db_events s = db_events t @ es" using Cons.prems by auto
  then obtain j where j: "j \<le> length ?W" "t = s \<Longrightarrow> j = min 100 (length ?W)"
    "send_events lib project (EventsAfter t (wr_kind rq) (wr_namespace rq) r 100) r =
      (map (sent_event lib project) (take j ?W), None, last (r # map ev_revision (take j ?W)))"
    using poll_eq[OF assms(1,2)] by metis
  let ?r = "last (r # map ev_revision (take j ?W))"
  have W: "watched rq ?r s = drop j ?W" by (rule watched_resume[OF assms(1) j(1)])
  obtain m where m: "m \<le> length (drop j ?W)" "APIWatch lib project rq ?r polls =
    (map (sent_event lib project) (take m (drop j ?W)), None, last (?r # map ev_revision (take m (drop j ?W))))"
    "polls = replicate (k - 1) s \<longrightarrow> m = min (100 * (k - 1)) (length (drop j ?W))"
    using Cons.IH[of ?r "k - 1"] Cons.prems unfolding W by auto
  have tk: "take (j + m) ?W = take j ?W @ take m (drop j ?W)" by (rule take_add)
  have "APIWatch lib project rq r (t # polls) =
    (map (sent_event lib project) (take (j + m) ?W), None, last (r # map ev_revision (take (j + m) ?W)))"
    unfolding tk using j(3) m(2) by (simp add: Let_def last_append split: if_splits)
  moreover have "t # polls = replicate k s \<longrightarrow> j + m = min (100 * k) (length ?W)"
  proof
    assume "t # polls = replicate k s"
    then have "t = s" "polls = replicate (k - 1) s" "k \<noteq> 0" by (cases k; simp)+
    then show "j + m = min (100 * k) (length ?W)" using j(2) m(3) by (cases k) auto
  qed
  moreover have "j + m \<le> length ?W" using j(1) m(1) by simp
  ultimately show ?case by blast
qed

section \<open>Stored events decode\<close>

lemma exec_resource_decodes:
  assumes inv: "resources_inv lib s" and q: "resource_request_ok lib q" and ok: "exec_resource q s = Inr (x, s')"
    and d: "events_decode lib s"
  shows "events_decode lib s'"
proof -
  have inv': "resources_inv lib s'" using exec_resource_step[OF inv q ok] by simp
  have "db_events s' = db_events s \<or> (\<exists>e. db_events s' = db_events s @ [e] \<and> (ev_type e = ''DELETED'' \<longrightarrow> ev_document e = None))"
  proof (cases "(q, s)" rule: exec_resource.cases)
    case (1 env uuid reqid doc opts s0)
    then show ?thesis using ok
      by (auto simp: Apply_def Let_def nextRevision_def write_resource_def apply_trigger_state_def ensureTriggerStateTx_def
        append_event_def doc_event_def split: option.splits sum.splits if_splits)
  next
    case (2 env kind ns name gen status s0)
    then show ?thesis using ok
      by (auto simp: UpdateResourceStatus_def Let_def nextRevision_def append_event_def split: if_splits)
  next
    case (3 env reqid kind ns name expected requestID s0)
    then show ?thesis using ok
      by (auto simp: Delete_def Let_def nextRevision_def append_event_def split: if_splits)
  qed
  then show ?thesis
  proof
    assume "db_events s' = db_events s"
    then show ?thesis using d by (simp add: events_decode_def)
  next
    assume "\<exists>e. db_events s' = db_events s @ [e] \<and> (ev_type e = ''DELETED'' \<longrightarrow> ev_document e = None)"
    then obtain e where e: "db_events s' = db_events s @ [e]" "ev_type e = ''DELETED'' \<longrightarrow> ev_document e = None" by blast
    have "is_ok (decode_value lib v)" if v: "ev_document e = Some v" for v
    proof -
      have "stored s' (ev_key e) = Some v"
      proof -
        have "stored s' = replay_event (replay Map.empty (db_events s)) e"
          using inv' e(1) by (simp add: resources_inv_def replay_def)
        then show ?thesis using e(2) v by (auto simp: replay_event_def)
      qed
      then obtain r where "r \<in> set (db_resources s')" "res_json r = v" by (auto simp: stored_def dest: select_row_SomeD)
      then show ?thesis using decode_of_inv(1)[OF inv', of r] by auto
    qed
    then show ?thesis using d e(1) by (auto simp: events_decode_def)
  qed
qed

interpretation decodable_log: transactions "\<lambda>s. resources_inv lib s \<and> events_decode lib s" "resource_request_ok lib" exec_resource
  for lib
  by unfold_locales (use exec_resource_step exec_resource_decodes in blast)

text \<open>C29: the event stream is complete and in order. Let any requests change the resources and let a watch poll at any points of
  that history and then \<open>k\<close> more times at its end. Then the stream has not failed, has sent an initial
  part of the matching events after the requested revision, each once and in revision order, and all of
  them when there are at most \<open>100 * k\<close>.\<close>

theorem watch_sends_every_event_once:
  assumes "list_all (resource_request_ok lib) qs" and "s = run_requests exec_resource qs empty_db"
    and "polls = map (\<lambda>n. run_requests exec_resource (take n qs) empty_db) ns"
  shows "\<exists>m r. APIWatch lib project rq after (polls @ replicate k s) = (map (sent_event lib project) (take m (watched rq after s)), None, r) \<and>
    m \<le> length (watched rq after s) \<and> (length (watched rq after s) \<le> 100 * k \<longrightarrow> m = length (watched rq after s)) \<and>
    sorted_wrt (<) (map ev_revision (watched rq after s))"
proof -
  have ok0: "resources_inv lib empty_db \<and> events_decode lib empty_db"
    using empty_db_inv by (simp add: events_decode_def) (simp add: empty_db_def)
  have inv: "resources_inv lib s \<and> events_decode lib s" using decodable_log.inv_run[OF ok0 assms(1)] assms(2) by simp
  then have st: "sorted_wrt (<) (map ev_revision (db_events s))" by (simp add: resources_inv_def)
  have pre: "\<exists>es. db_events s = db_events t @ es" if t: "t \<in> set polls" for t
  proof -
    obtain n where n: "t = run_requests exec_resource (take n qs) empty_db" using t assms(3) by auto
    have q: "list_all (resource_request_ok lib) (take n qs)" "list_all (resource_request_ok lib) (drop n qs)"
      using assms(1) by (metis append_take_drop_id list_all_append)+
    have "resources_inv lib t" using resource_log.inv_run[OF empty_db_inv q(1)] n by simp
    then have "watch_extends t (run_requests exec_resource (drop n qs) t)" by (rule resource_log.before_run[OF _ q(2)])
    moreover have "run_requests exec_resource (drop n qs) t = s"
      using run_requests_append[of exec_resource "take n qs" "drop n qs" empty_db] n assms(2) by simp
    ultimately show ?thesis by (auto simp: watch_extends_def)
  qed
  obtain m r where m: "m \<le> length (watched rq after s)" "APIWatch lib project rq after polls =
      (map (sent_event lib project) (take m (watched rq after s)), None, r)" "watched rq r s = drop m (watched rq after s)"
    using APIWatch_prefix[OF st, of lib polls rq after project 0] inv pre watched_resume[OF st, of _ rq after] by metis
  obtain j r' where j: "APIWatch lib project rq r (replicate k s) = (map (sent_event lib project) (take j (watched rq r s)), None, r')"
    "j = min (100 * k) (length (watched rq r s))"
    using APIWatch_prefix[OF st, of lib "replicate k s" rq r project k] inv by auto
  have app: "APIWatch lib project rq u (xs @ ys) = (let (out, err, r) = APIWatch lib project rq u xs in
      if err \<noteq> None then (out, err, r) else (let (out', err', r') = APIWatch lib project rq r ys in (out @ out', err', r')))" for u xs ys
    by (induction xs arbitrary: u) (auto simp: Let_def split: prod.splits if_splits)
  have "APIWatch lib project rq after (polls @ replicate k s) = (map (sent_event lib project) (take (m + j) (watched rq after s)), None, r')"
    using m j by (simp add: app take_add)
  moreover have "m + j \<le> length (watched rq after s)" "length (watched rq after s) \<le> 100 * k \<longrightarrow> m + j = length (watched rq after s)"
    using m(1,3) j(2) by auto
  ultimately show ?thesis using watched_sorted[OF st] by blast
qed


definition sample_resource_requests :: "(store_env \<times> resource_request) list" where
  "sample_resource_requests =
     [(sample_env, ReqApply ''flow-uid'' ''r1'' sample_flow (sample_opts 0)),
      (sample_env, ReqApply ''trigger-uid'' ''r2'' sample_trigger (sample_opts 0))]"

theorem watch_sends_every_event_once_witness:
  "\<exists>r. APIWatch sample_lib doc_kind \<lparr>wr_kind = [], wr_namespace = [], wr_after = 0\<rparr> 0
     ([run_requests exec_resource (take 1 sample_resource_requests) empty_db] @ replicate 1 sample_db) =
     ([(1, ''ADDED'', Some ''Flow''), (2, ''ADDED'', Some ''Trigger'')], None, r)"
proof -
  let ?rq = "\<lparr>wr_kind = [], wr_namespace = [], wr_after = 0\<rparr>"
  have ok: "list_all (resource_request_ok sample_lib) sample_resource_requests"
    using sample_flow_valid sample_trigger_valid by (simp add: sample_resource_requests_def)
  have s: "sample_db = run_requests exec_resource sample_resource_requests empty_db"
    by (simp add: sample_db_def sample_resource_requests_def)
  have w: "map (sent_event sample_lib doc_kind) (watched ?rq 0 sample_db) = [(1, ''ADDED'', Some ''Flow''), (2, ''ADDED'', Some ''Trigger'')]"
    by code_simp
  then have l: "length (watched ?rq 0 sample_db) = 2"
    by (metis One_nat_def Suc_1 length_Cons length_map list.size(3))
  show ?thesis
    using watch_sends_every_event_once[OF ok s, of "[run_requests exec_resource (take 1 sample_resource_requests) empty_db]" "[1]"
        doc_kind ?rq 0 1] l w by auto
qed

end
