(* ===== verification/Graph.thy ===== *)
theory Graph
  imports Prelude
begin

text \<open>
  The graph algorithms of \<open>internal/flow/compiler.go\<close>: \<open>reaches\<close>, a breadth-first search, and
  \<open>stronglyConnected\<close>, Tarjan's algorithm. A Go map from a node to its successors is an association
  list; a missing key has no successors.

  The search decides the transitive closure of the edges. Tarjan's algorithm returns exactly the
  strongly connected components, each sorted, in the order of their first elements, so that its result
  depends on the graph alone. Its recursion is bounded by the number of nodes: the model counts
  fuel and the theorem says that this much is enough.
\<close>

type_synonym 'a adjacency = "('a \<times> 'a list) list"

definition succs :: "'a adjacency \<Rightarrow> 'a \<Rightarrow> 'a list" where
  "succs adj v = (case map_of adj v of None \<Rightarrow> [] | Some ws \<Rightarrow> ws)"

definition edge_rel :: "'a adjacency \<Rightarrow> ('a \<times> 'a) set" where
  "edge_rel adj = {(u, v). v \<in> set (succs adj u)}"

section \<open>Reachability\<close>

text \<open>The scan of one node's successors: \<open>None\<close> when the target is found.\<close>

fun scan_next :: "'a \<Rightarrow> 'a list \<Rightarrow> 'a list \<Rightarrow> 'a list \<Rightarrow> ('a list \<times> 'a list) option" where
  "scan_next target [] queue seen = Some (queue, seen)"
| "scan_next target (n # ns) queue seen =
     (if n = target then None
      else if n \<in> set seen then scan_next target ns queue seen
      else scan_next target ns (queue @ [n]) (n # seen))"

definition heads :: "'a adjacency \<Rightarrow> 'a set" where
  "heads adj = set (concat (map snd adj))"

lemma scan_next_Some:
  assumes "scan_next target ns queue seen = Some (q, sn)"
  shows "target \<notin> set ns" "set sn = set seen \<union> set ns" "\<exists>new. q = queue @ new \<and> set new = set ns - set seen \<and>
    distinct new" 
  using assms
proof (induction ns arbitrary: queue seen)
  case (Cons n ns)
  case 1
  then show ?case using Cons by (auto split: if_splits)
next
  case (Cons n ns)
  case 2
  then show ?case using Cons by (auto split: if_splits)
next
  case (Cons n ns)
  case 3
  show ?case
  proof (cases "n \<in> set seen")
    case True
    then show ?thesis using 3 Cons.IH(3)[of queue seen] by (auto split: if_splits)
  next
    case False
    then obtain new where "q = (queue @ [n]) @ new" "set new = set ns - set (n # seen)" "distinct new"
      using 3 Cons.IH(3)[of "queue @ [n]" "n # seen"] by (auto split: if_splits)
    then show ?thesis using False by (intro exI[of _ "n # new"]) auto
  qed
qed auto

lemma scan_next_None: "scan_next target ns queue seen = None \<longleftrightarrow> target \<in> set ns"
  by (induction ns arbitrary: queue seen) auto

lemma succs_heads: "set (succs adj v) \<subseteq> heads adj"
proof (cases "map_of adj v")
  case (Some ws)
  then have "(v, ws) \<in> set adj" by (rule map_of_SomeD)
  then show ?thesis using Some by (force simp: succs_def heads_def)
qed (simp add: succs_def)

lemma finite_heads [simp]: "finite (heads adj)"
  by (simp add: heads_def)

function (sequential) search :: "'a adjacency \<Rightarrow> 'a \<Rightarrow> 'a list \<Rightarrow> 'a list \<Rightarrow> bool" where
  "search adj target [] seen = False"
| "search adj target (current # queue) seen =
     (case scan_next target (succs adj current) queue seen of
        None \<Rightarrow> True
      | Some (queue', seen') \<Rightarrow> search adj target queue' seen')"
  by pat_completeness auto
termination
proof (relation "measure (\<lambda>(adj, target, queue, seen). card (heads adj - set seen) + length queue)", simp)
  fix adj :: "'a adjacency" and target current :: 'a and queue seen x queue' seen'
  assume "scan_next target (succs adj current) queue seen = Some x" "(queue', seen') = x"
  then have s: "scan_next target (succs adj current) queue seen = Some (queue', seen')" by simp
  obtain new where new: "queue' = queue @ new" "set new = set (succs adj current) - set seen" "distinct new"
    using scan_next_Some(3)[OF s] by blast
  have "heads adj - set seen = (heads adj - set seen') \<union> set new"
    using scan_next_Some(2)[OF s] new(2) succs_heads[of adj current] by auto
  moreover have "(heads adj - set seen') \<inter> set new = {}" using scan_next_Some(2)[OF s] new(2) by auto
  ultimately have "card (heads adj - set seen) = card (heads adj - set seen') + length new"
    using distinct_card[OF new(3)] by (simp add: card_Un_disjoint)
  then show "((adj, target, queue', seen'), (adj, target, current # queue, seen))
      \<in> measure (\<lambda>(adj, target, queue, seen). card (heads adj - set seen) + length queue)"
    using new(1) by simp
qed

definition reaches :: "'a \<Rightarrow> 'a \<Rightarrow> 'a adjacency \<Rightarrow> bool" where
  "reaches source target adj = search adj target [source] [source]"

lemma search_sound:
  "search adj t queue seen \<Longrightarrow> (\<And>u. u \<in> set queue \<Longrightarrow> (s, u) \<in> (edge_rel adj)\<^sup>*) \<Longrightarrow> (s, t) \<in> (edge_rel adj)\<^sup>+"
proof (induction adj t queue seen rule: search.induct)
  case (2 adj t c queue seen)
  have c: "(s, c) \<in> (edge_rel adj)\<^sup>*" using "2.prems"(2) by simp
  show ?case
  proof (cases "scan_next t (succs adj c) queue seen")
    case None
    then have "(c, t) \<in> edge_rel adj" by (simp add: scan_next_None edge_rel_def)
    then show ?thesis using c by (rule rtrancl_into_trancl1[rotated])
  next
    case (Some p)
    obtain q sn where p: "p = (q, sn)" by (cases p)
    obtain new where new: "q = queue @ new" "set new = set (succs adj c) - set seen"
      using scan_next_Some(3)[OF Some[unfolded p]] by blast
    have "(s, u) \<in> (edge_rel adj)\<^sup>*" if "u \<in> set q" for u
    proof (cases "u \<in> set queue")
      case False
      then have "(c, u) \<in> edge_rel adj" using that new by (auto simp: edge_rel_def)
      then show ?thesis using c by (rule rtrancl_into_rtrancl[rotated])
    qed (use "2.prems"(2) in auto)
    then show ?thesis using "2.IH"[OF Some p[symmetric]] "2.prems"(1) Some p by simp
  qed
qed simp

lemma search_complete:
  "\<not> search adj t queue seen \<Longrightarrow> set queue \<subseteq> set seen \<Longrightarrow>
    (\<And>u. u \<in> set seen - set queue \<Longrightarrow> set (succs adj u) \<subseteq> set seen \<and> t \<notin> set (succs adj u)) \<Longrightarrow>
    \<exists>R. set seen \<subseteq> R \<and> (\<forall>u \<in> R. set (succs adj u) \<subseteq> R \<and> t \<notin> set (succs adj u))"
proof (induction adj t queue seen rule: search.induct)
  case (1 adj t seen)
  then show ?case by (intro exI[of _ "set seen"]) auto
next
  case (2 adj t c queue seen)
  then obtain q sn where s: "scan_next t (succs adj c) queue seen = Some (q, sn)" "\<not> search adj t q sn"
    by (auto split: option.splits)
  obtain new where new: "q = queue @ new" "set new = set (succs adj c) - set seen"
    using scan_next_Some(3)[OF s(1)] by blast
  note sn = scan_next_Some(1,2)[OF s(1)]
  have "\<exists>R. set sn \<subseteq> R \<and> (\<forall>u \<in> R. set (succs adj u) \<subseteq> R \<and> t \<notin> set (succs adj u))"
  proof (rule "2.IH"[OF s(1) refl s(2)])
    show "set q \<subseteq> set sn" using "2.prems"(2) new sn by auto
    fix u assume u: "u \<in> set sn - set q"
    then have "u = c \<or> u \<in> set seen - set (c # queue)" using new sn by auto
    then show "set (succs adj u) \<subseteq> set sn \<and> t \<notin> set (succs adj u)"
      using "2.prems"(3)[of u] sn by auto
  qed
  then show ?case using sn by auto
qed

lemma reaches_iff: "reaches s t adj \<longleftrightarrow> (s, t) \<in> (edge_rel adj)\<^sup>+"
proof
  assume "reaches s t adj"
  then show "(s, t) \<in> (edge_rel adj)\<^sup>+" unfolding reaches_def by (rule search_sound) simp
next
  assume p: "(s, t) \<in> (edge_rel adj)\<^sup>+"
  show "reaches s t adj"
  proof (rule ccontr)
    assume "\<not> reaches s t adj"
    then obtain R where R: "s \<in> R" "\<forall>u \<in> R. set (succs adj u) \<subseteq> R \<and> t \<notin> set (succs adj u)"
      using search_complete[of adj t "[s]" "[s]"] by (auto simp: reaches_def)
    obtain u where u: "(s, u) \<in> (edge_rel adj)\<^sup>*" "(u, t) \<in> edge_rel adj" using p by (meson tranclD2)
    from u(1) have "u \<in> R" by (induction rule: rtrancl_induct) (use R in \<open>auto simp: edge_rel_def\<close>)
    then show False using R u(2) by (auto simp: edge_rel_def)
  qed
qed

section \<open>Strongly connected components\<close>

record 'a tarjan =
  t_index :: nat
  t_stack :: "'a list"
  t_onStack :: "'a \<Rightarrow> bool"
  t_indices :: "'a \<rightharpoonup> nat"
  t_low :: "'a \<Rightarrow> nat"
  t_components :: "'a list list"

definition t_enter :: "'a \<Rightarrow> 'a tarjan \<Rightarrow> 'a tarjan" where
  "t_enter v s = s\<lparr>t_indices := (t_indices s)(v \<mapsto> t_index s), t_low := (t_low s)(v := t_index s),
     t_index := Suc (t_index s), t_stack := v # t_stack s, t_onStack := (t_onStack s)(v := True)\<rparr>"

definition t_lower :: "'a \<Rightarrow> nat \<Rightarrow> 'a tarjan \<Rightarrow> 'a tarjan" where
  "t_lower v n s = (if n < t_low s v then s\<lparr>t_low := (t_low s)(v := n)\<rparr> else s)"

definition idx :: "'a tarjan \<Rightarrow> 'a \<Rightarrow> nat" where
  "idx s v = (case t_indices s v of None \<Rightarrow> 0 | Some i \<Rightarrow> i)"

text \<open>The loop over the successors of \<open>v\<close>, where \<open>f\<close> is the recursive visit.\<close>

fun visit_all :: "('a \<Rightarrow> 'a tarjan \<Rightarrow> 'a tarjan option) \<Rightarrow> 'a \<Rightarrow> 'a list \<Rightarrow> 'a tarjan \<Rightarrow> 'a tarjan option" where
  "visit_all f v [] s = Some s"
| "visit_all f v (w # ws) s =
     (if t_indices s w = None
      then (case f w s of None \<Rightarrow> None | Some s' \<Rightarrow> visit_all f v ws (t_lower v (t_low s' w) s'))
      else visit_all f v ws (if t_onStack s w then t_lower v (idx s w) s else s))"

text \<open>The stack grows at the head; a root takes everything above and including itself.\<close>

definition t_close :: "('a :: linorder) \<Rightarrow> 'a tarjan \<Rightarrow> 'a tarjan" where
  "t_close v s =
     (if t_low s v = idx s v
      then (let above = takeWhile (\<lambda>x. x \<noteq> v) (t_stack s); component = above @ [v]
            in s\<lparr>t_stack := drop (length component) (t_stack s),
                 t_onStack := (\<lambda>x. x \<notin> set component \<and> t_onStack s x),
                 t_components := t_components s @ [sort component]\<rparr>)
      else s)"

primrec visit :: "'a adjacency \<Rightarrow> nat \<Rightarrow> ('a :: linorder) \<Rightarrow> 'a tarjan \<Rightarrow> 'a tarjan option" where
  "visit adj 0 v s = None"
| "visit adj (Suc n) v s = map_option (t_close v) (visit_all (visit adj n) v (succs adj v) (t_enter v s))"

fun visit_roots :: "'a adjacency \<Rightarrow> nat \<Rightarrow> ('a :: linorder) list \<Rightarrow> 'a tarjan \<Rightarrow> 'a tarjan option" where
  "visit_roots adj n [] s = Some s"
| "visit_roots adj n (v # vs) s =
     (if t_indices s v = None
      then (case visit adj n v s of None \<Rightarrow> None | Some s' \<Rightarrow> visit_roots adj n vs s')
      else visit_roots adj n vs s)"

definition t_start :: "'a tarjan" where
  "t_start = \<lparr>t_index = 0, t_stack = [], t_onStack = (\<lambda>_. False), t_indices = Map.empty, t_low = (\<lambda>_. 0), t_components = []\<rparr>"

definition stronglyConnected :: "('a :: linorder) list \<Rightarrow> 'a adjacency \<Rightarrow> 'a list list option" where
  "stronglyConnected ids adj =
     map_option (\<lambda>s. sort_key hd (t_components s)) (visit_roots adj (length ids) ids t_start)"


section \<open>Correctness of Tarjan's algorithm\<close>

abbreviation reach :: "'a adjacency \<Rightarrow> 'a \<Rightarrow> 'a \<Rightarrow> bool" where
  "reach adj u v \<equiv> (u, v) \<in> (edge_rel adj)\<^sup>*"

definition scc :: "'a adjacency \<Rightarrow> 'a \<Rightarrow> 'a set" where
  "scc adj u = {v. reach adj u v \<and> reach adj v u}"

definition visited :: "'a tarjan \<Rightarrow> 'a set" where
  "visited s = dom (t_indices s)"

definition closed :: "'a tarjan \<Rightarrow> 'a set" where
  "closed s = visited s - set (t_stack s)"

text \<open>The stack: ordered by index, each node reaches every later one, and each reaches an earlier
  node that is still being visited (\<open>G\<close>).\<close>

definition stack_inv :: "'a adjacency \<Rightarrow> 'a set \<Rightarrow> 'a tarjan \<Rightarrow> bool" where
  "stack_inv adj G s \<longleftrightarrow> (\<forall>x. t_onStack s x \<longleftrightarrow> x \<in> set (t_stack s)) \<and> set (t_stack s) \<subseteq> visited s \<and>
     (\<forall>x \<in> visited s. idx s x < t_index s) \<and> sorted_wrt (\<lambda>x y. idx s y < idx s x) (t_stack s) \<and> G \<subseteq> set (t_stack s) \<and>
     (\<forall>x \<in> set (t_stack s). \<forall>y \<in> set (t_stack s). idx s x \<le> idx s y \<longrightarrow> reach adj x y) \<and>
     (\<forall>y \<in> set (t_stack s). \<exists>x \<in> G. idx s x \<le> idx s y \<and> reach adj y x)"

text \<open>The closed nodes: they keep to themselves and their components are the ones recorded.\<close>

definition closed_inv :: "('a :: linorder) adjacency \<Rightarrow> 'a tarjan \<Rightarrow> bool" where
  "closed_inv adj s \<longleftrightarrow> (\<forall>x \<in> closed s. set (succs adj x) \<subseteq> closed s) \<and>
     set ` set (t_components s) = scc adj ` closed s \<and> distinct (concat (t_components s)) \<and>
     (\<forall>c \<in> set (t_components s). sorted c \<and> c \<noteq> [])"

definition t_inv :: "('a :: linorder) adjacency \<Rightarrow> 'a set \<Rightarrow> 'a tarjan \<Rightarrow> bool" where
  "t_inv adj G s \<longleftrightarrow> stack_inv adj G s \<and> closed_inv adj s"

text \<open>What the visits since \<open>s0\<close> kept of it.\<close>

definition grown :: "'a tarjan \<Rightarrow> 'a tarjan \<Rightarrow> bool" where
  "grown s0 s \<longleftrightarrow> visited s0 \<subseteq> visited s \<and> (\<forall>x \<in> visited s0. t_indices s x = t_indices s0 x \<and> t_low s x = t_low s0 x)"

definition t_post :: "('a :: linorder) adjacency \<Rightarrow> 'a set \<Rightarrow> 'a \<Rightarrow> 'a tarjan \<Rightarrow> 'a tarjan \<Rightarrow> bool" where
  "t_post adj G v s s' \<longleftrightarrow> t_inv adj G s' \<and> grown s s' \<and> v \<in> visited s' \<and> idx s' v = t_index s \<and>
     (\<forall>x \<in> visited s' - visited s. set (succs adj x) \<subseteq> visited s') \<and>
     (\<exists>new. t_stack s' = new @ t_stack s \<and> set new \<inter> visited s = {} \<and>
        (\<forall>x \<in> set new. \<forall>y \<in> set (t_stack s). y \<in> set (succs adj x) \<longrightarrow> t_low s' v \<le> idx s y) \<and>
        (new = [] \<and> t_low s' v = t_index s \<or> (\<exists>y \<in> set (t_stack s). idx s y = t_low s' v \<and> reach adj v y)))"

definition loop_inv :: "('a :: linorder) adjacency \<Rightarrow> 'a set \<Rightarrow> 'a \<Rightarrow> 'a tarjan \<Rightarrow> 'a list \<Rightarrow> 'a tarjan \<Rightarrow> bool" where
  "loop_inv adj G v s0 seen s \<longleftrightarrow> t_inv adj (insert v G) s \<and> grown s0 s \<and> v \<in> visited s \<and> idx s v = t_index s0 \<and>
     (\<forall>x \<in> visited s - visited s0 - {v}. set (succs adj x) \<subseteq> visited s) \<and> set seen \<subseteq> visited s \<and>
     (\<forall>y \<in> set seen \<inter> set (t_stack s0). t_low s v \<le> idx s0 y) \<and> t_low s v \<le> idx s v \<and>
     (\<exists>y \<in> set (t_stack s). idx s y = t_low s v \<and> reach adj v y) \<and>
     (\<exists>new. t_stack s = new @ v # t_stack s0 \<and> set new \<inter> visited s0 = {} \<and>
        (\<forall>x \<in> set new. \<forall>y \<in> set (t_stack s0). y \<in> set (succs adj x) \<longrightarrow> t_low s v \<le> idx s0 y))"

lemma grown_idx: "grown s0 s \<Longrightarrow> x \<in> visited s0 \<Longrightarrow> idx s x = idx s0 x"
  by (simp add: grown_def idx_def)

lemma grown_trans: "grown a b \<Longrightarrow> grown b c \<Longrightarrow> grown a c"
  by (auto simp: grown_def)

lemma edge_reach: "y \<in> set (succs adj x) \<Longrightarrow> reach adj x y"
  by (auto simp: edge_rel_def)

lemma closed_reach:
  assumes "\<forall>x \<in> C. set (succs adj x) \<subseteq> C" and "reach adj x y" and "x \<in> C"
  shows "y \<in> C"
  using assms(2,3) by (induction rule: rtrancl_induct) (use assms(1) in \<open>auto simp: edge_rel_def\<close>)

lemma scc_refl: "u \<in> scc adj u"
  by (simp add: scc_def)

lemma scc_eq: "v \<in> scc adj u \<Longrightarrow> scc adj v = scc adj u"
  by (auto simp: scc_def intro: rtrancl_trans)

lemma enter_simps [simp]:
  "visited (t_enter v s) = insert v (visited s)" "t_stack (t_enter v s) = v # t_stack s"
  "t_index (t_enter v s) = Suc (t_index s)" "t_components (t_enter v s) = t_components s"
  "t_low (t_enter v s) = (t_low s)(v := t_index s)" "idx (t_enter v s) = (idx s)(v := t_index s)"
  "t_onStack (t_enter v s) = (t_onStack s)(v := True)"
  by (auto simp: t_enter_def visited_def idx_def)

lemma lower_simps [simp]:
  "visited (t_lower v n s) = visited s" "t_stack (t_lower v n s) = t_stack s" "t_index (t_lower v n s) = t_index s"
  "t_components (t_lower v n s) = t_components s" "idx (t_lower v n s) = idx s" "t_onStack (t_lower v n s) = t_onStack s"
  "t_indices (t_lower v n s) = t_indices s" "t_low (t_lower v n s) = (t_low s)(v := min n (t_low s v))"
  by (auto simp: t_lower_def visited_def idx_def fun_eq_iff)

lemma t_inv_lower [simp]: "t_inv adj G (t_lower v n s) = t_inv adj G s"
  by (simp add: t_inv_def stack_inv_def closed_inv_def closed_def)

text \<open>Entering a node starts its loop.\<close>

lemma enter_loop:
  assumes inv: "t_inv adj G s" and v: "v \<notin> visited s" and g: "\<forall>x \<in> G. reach adj x v"
  shows "loop_inv adj G v s [] (t_enter v s)"
proof -
  have st: "set (t_stack s) \<subseteq> visited s" "\<forall>x \<in> visited s. idx s x < t_index s"
    using inv by (auto simp: t_inv_def stack_inv_def)
  then have vs: "v \<notin> set (t_stack s)" using v by auto
  have low: "idx s x < t_index s" "x \<noteq> v" if "x \<in> set (t_stack s)" for x using that st vs by auto
  have rv: "reach adj x v" if "x \<in> set (t_stack s)" for x
    using inv g that by (meson rtrancl_trans stack_inv_def t_inv_def)
  have i: "G \<subseteq> set (t_stack s)" "\<forall>x \<in> set (t_stack s). \<forall>y \<in> set (t_stack s). idx s x \<le> idx s y \<longrightarrow> reach adj x y"
    "\<forall>y \<in> set (t_stack s). \<exists>x \<in> G. idx s x \<le> idx s y \<and> reach adj y x" "sorted_wrt (\<lambda>x y. idx s y < idx s x) (t_stack s)"
    "\<forall>x. t_onStack s x \<longleftrightarrow> x \<in> set (t_stack s)"
    using inv by (auto simp: t_inv_def stack_inv_def)
  have "sorted_wrt (\<lambda>x y. idx (t_enter v s) y < idx (t_enter v s) x) (t_stack s)"
    using i(4) by (rule sorted_wrt_mono_rel[rotated]) (use low in auto)
  then have "sorted_wrt (\<lambda>x y. idx (t_enter v s) y < idx (t_enter v s) x) (v # t_stack s)" using low by auto
  moreover have "reach adj x y" if "x \<in> set (v # t_stack s)" "y \<in> set (v # t_stack s)" "idx (t_enter v s) x \<le> idx (t_enter v s) y" for x y
  proof (cases "y = v")
    case True
    then show ?thesis using that rv by auto
  next
    case False
    then have "y \<in> set (t_stack s)" "x \<noteq> v" using that low[of y] by (auto split: if_splits)
    then show ?thesis using that i(2) False by auto
  qed
  moreover have "\<exists>x \<in> insert v G. idx (t_enter v s) x \<le> idx (t_enter v s) y \<and> reach adj y x" if y: "y \<in> set (v # t_stack s)" for y
  proof (cases "y = v")
    case False
    then obtain x where "x \<in> G" "idx s x \<le> idx s y" "reach adj y x" using y i(3) by auto
    moreover have "x \<noteq> v" using \<open>x \<in> G\<close> i(1) vs by auto
    ultimately show ?thesis using False by auto
  qed auto
  ultimately have "stack_inv adj (insert v G) (t_enter v s)"
    using i(1,5) st unfolding stack_inv_def by (auto simp: less_Suc_eq)
  moreover have "closed (t_enter v s) = closed s" using v st by (auto simp: closed_def)
  then have "closed_inv adj (t_enter v s)" using inv by (simp add: t_inv_def closed_inv_def)
  moreover have "grown s (t_enter v s)" using v by (auto simp: grown_def t_enter_def visited_def)
  ultimately show ?thesis unfolding loop_inv_def t_inv_def by auto
qed


text \<open>A successor that was visited before.\<close>

lemma loop_seen:
  assumes l: "loop_inv adj G v s0 seen s" and w: "w \<in> set (succs adj v)" "w \<in> visited s" and v0: "v \<notin> visited s0"
    and st0: "set (t_stack s0) \<subseteq> visited s0"
  shows "loop_inv adj G v s0 (seen @ [w]) (if t_onStack s w then t_lower v (idx s w) s else s)"
proof -
  have inv: "t_inv adj (insert v G) s" and gr: "grown s0 s" using l by (auto simp: loop_inv_def)
  have on: "t_onStack s w \<longleftrightarrow> w \<in> set (t_stack s)" using inv by (simp add: t_inv_def stack_inv_def)
  obtain new where new: "t_stack s = new @ v # t_stack s0" using l by (auto simp: loop_inv_def)
  have i0: "idx s y = idx s0 y" if "y \<in> set (t_stack s0)" for y using grown_idx[OF gr] that st0 by auto
  show ?thesis
  proof (cases "t_onStack s w")
    case False
    then have "w \<notin> set (t_stack s0)" using on new by auto
    then show ?thesis using l w False unfolding loop_inv_def by auto
  next
    case True
    have gr': "grown s0 (t_lower v (idx s w) s)" using gr v0 by (auto simp: grown_def)
    have "\<exists>y \<in> set (t_stack s). idx s y = min (idx s w) (t_low s v) \<and> reach adj v y"
      using l True on edge_reach[OF w(1)] unfolding loop_inv_def by (cases "idx s w \<le> t_low s v") (auto simp: min_def)
    then show ?thesis using l w True gr' i0 unfolding loop_inv_def by (auto simp: min_le_iff_disj)
  qed
qed

text \<open>A successor that was visited now.\<close>

lemma loop_visited:
  assumes l: "loop_inv adj G v s0 seen s" and w: "w \<in> set (succs adj v)" "w \<notin> visited s" and v0: "v \<notin> visited s0"
    and st0: "set (t_stack s0) \<subseteq> visited s0" and p: "t_post adj (insert v G) w s s'"
  shows "loop_inv adj G v s0 (seen @ [w]) (t_lower v (t_low s' w) s')"
proof -
  let ?s = "t_lower v (t_low s' w) s'"
  have inv: "t_inv adj (insert v G) s" "t_inv adj (insert v G) s'" and gr: "grown s0 s" "grown s s'" and vs: "v \<in> visited s"
    and iv: "idx s v = t_index s0" "t_low s v \<le> idx s v" using l p by (auto simp: loop_inv_def t_post_def)
  have same: "idx s' x = idx s x" "t_low s' x = t_low s x" if "x \<in> visited s" for x
    using gr(2) that by (auto simp: grown_def idx_def)
  have stk: "set (t_stack s) \<subseteq> visited s" using inv(1) by (simp add: t_inv_def stack_inv_def)
  have st0s: "set (t_stack s0) \<subseteq> visited s" using st0 gr(1) by (auto simp: grown_def)
  have i0: "idx s y = idx s0 y" if "y \<in> set (t_stack s0)" for y using grown_idx[OF gr(1)] that st0 by auto
  obtain new where new: "t_stack s = new @ v # t_stack s0" "set new \<inter> visited s0 = {}"
    "\<forall>x \<in> set new. \<forall>y \<in> set (t_stack s0). y \<in> set (succs adj x) \<longrightarrow> t_low s v \<le> idx s0 y"
    using l by (auto simp: loop_inv_def)
  obtain nw where nw: "t_stack s' = nw @ t_stack s" "set nw \<inter> visited s = {}"
    "\<forall>x \<in> set nw. \<forall>y \<in> set (t_stack s). y \<in> set (succs adj x) \<longrightarrow> t_low s' w \<le> idx s y"
    "nw = [] \<and> t_low s' w = t_index s \<or> (\<exists>y \<in> set (t_stack s). idx s y = t_low s' w \<and> reach adj w y)"
    using p by (auto simp: t_post_def)
  have ti: "idx s v < t_index s" using inv(1) vs by (auto simp: t_inv_def stack_inv_def)
  have low: "t_low ?s v = min (t_low s' w) (t_low s v)" using same(2)[OF vs] by simp
  have grl: "grown s0 ?s" using grown_trans[OF gr] v0 by (auto simp: grown_def)
  have "\<exists>y \<in> set (t_stack s'). idx s' y = t_low ?s v \<and> reach adj v y"
  proof (cases "t_low s' w < t_low s v")
    case True
    then obtain y where "y \<in> set (t_stack s)" "idx s y = t_low s' w" "reach adj w y" using nw(4) iv ti by auto
    then show ?thesis using True low nw(1) stk same(1)[of y] edge_reach[OF w(1)] by (auto intro!: bexI[of _ y])
  next
    case False
    obtain y where "y \<in> set (t_stack s)" "idx s y = t_low s v" "reach adj v y" using l by (auto simp: loop_inv_def)
    then show ?thesis using False low nw(1) stk same(1)[of y] by (auto intro!: bexI[of _ y])
  qed
  moreover have "t_stack ?s = (nw @ new) @ v # t_stack s0 \<and> set (nw @ new) \<inter> visited s0 = {} \<and>
      (\<forall>x \<in> set (nw @ new). \<forall>y \<in> set (t_stack s0). y \<in> set (succs adj x) \<longrightarrow> t_low ?s v \<le> idx s0 y)"
  proof (intro conjI ballI impI)
    show "t_stack ?s = (nw @ new) @ v # t_stack s0" using nw(1) new(1) by simp
    show "set (nw @ new) \<inter> visited s0 = {}" using nw(2) new(2) gr(1) by (auto simp: grown_def)
    fix x y assume x: "x \<in> set (nw @ new)" and y: "y \<in> set (t_stack s0)" "y \<in> set (succs adj x)"
    show "t_low ?s v \<le> idx s0 y"
    proof (cases "x \<in> set nw")
      case True
      then have "t_low s' w \<le> idx s y" using nw(3) y new(1) by auto
      then show ?thesis using low i0[OF y(1)] by simp
    next
      case False
      then have "t_low s v \<le> idx s0 y" using x y new(3) by auto
      then show ?thesis unfolding low by (simp add: min_le_iff_disj)
    qed
  qed
  moreover have "\<forall>x \<in> visited s' - visited s0 - {v}. set (succs adj x) \<subseteq> visited s'"
  proof
    fix x assume x: "x \<in> visited s' - visited s0 - {v}"
    show "set (succs adj x) \<subseteq> visited s'"
    proof (cases "x \<in> visited s")
      case True
      then have "set (succs adj x) \<subseteq> visited s" using l x unfolding loop_inv_def by blast
      then show ?thesis using gr(2) by (auto simp: grown_def)
    next
      case False
      then show ?thesis using p x unfolding t_post_def by blast
    qed
  qed
  moreover have "set (seen @ [w]) \<subseteq> visited s'" using l p gr(2) by (auto simp: loop_inv_def t_post_def grown_def)
  moreover have "\<forall>y \<in> set (seen @ [w]) \<inter> set (t_stack s0). t_low ?s v \<le> idx s0 y"
    using l low w(2) st0s by (auto simp: loop_inv_def min_le_iff_disj)
  moreover have "t_low ?s v \<le> idx s' v" using low iv same(1)[OF vs] by (simp add: min_le_iff_disj)
  moreover have "v \<in> visited s'" "idx s' v = t_index s0" using gr(2) vs iv same(1)[OF vs] by (auto simp: grown_def)
  ultimately show ?thesis unfolding loop_inv_def using inv(2) grl by auto
qed


text \<open>From the nodes above and including \<open>v\<close>, when none of them has an edge below \<open>v\<close>, only these nodes and
  closed ones are reached.\<close>

lemma root_reach:
  assumes l: "loop_inv adj G v s0 (succs adj v) s" and root: "t_low s v = idx s v" and v0: "v \<notin> visited s0"
    and inv0: "t_inv adj G s0" and new: "t_stack s = new @ v # t_stack s0" "set new \<inter> visited s0 = {}"
      "\<forall>x \<in> set new. \<forall>y \<in> set (t_stack s0). y \<in> set (succs adj x) \<longrightarrow> t_low s v \<le> idx s0 y"
    and x: "x \<in> set (new @ [v])" and r: "reach adj x y"
  shows "y \<in> set (new @ [v]) \<union> closed s"
proof -
  have inv: "t_inv adj (insert v G) s" using l by (simp add: loop_inv_def)
  have below: "idx s0 y < idx s v" if "y \<in> set (t_stack s0)" for y
    using that inv0 l by (auto simp: t_inv_def stack_inv_def loop_inv_def)
  have stk: "set (t_stack s) \<subseteq> visited s" using inv by (simp add: t_inv_def stack_inv_def)
  have "set (succs adj z) \<subseteq> set (new @ [v]) \<union> closed s" if z: "z \<in> set (new @ [v])" for z
  proof
    fix u assume u: "u \<in> set (succs adj z)"
    have "u \<in> visited s"
    proof (cases "z = v")
      case True
      then show ?thesis using u l by (auto simp: loop_inv_def)
    next
      case False
      then have "z \<in> visited s - visited s0 - {v}" using z new(1,2) stk by auto
      then show ?thesis using u l unfolding loop_inv_def by blast
    qed
    moreover have "u \<notin> set (t_stack s0)"
    proof
      assume us: "u \<in> set (t_stack s0)"
      have "t_low s v \<le> idx s0 u"
      proof (cases "z = v")
        case True
        then show ?thesis using u us l by (auto simp: loop_inv_def)
      next
        case False
        then show ?thesis using z u us new(3) by auto
      qed
      then show False using below[OF us] root by simp
    qed
    ultimately show "u \<in> set (new @ [v]) \<union> closed s" using new(1) by (auto simp: closed_def)
  qed
  moreover have "\<forall>z \<in> closed s. set (succs adj z) \<subseteq> closed s" using inv by (simp add: t_inv_def closed_inv_def)
  ultimately have "\<forall>z \<in> set (new @ [v]) \<union> closed s. set (succs adj z) \<subseteq> set (new @ [v]) \<union> closed s" by blast
  then show ?thesis by (rule closed_reach) (use x r in auto)
qed

lemma root_scc:
  assumes l: "loop_inv adj G v s0 (succs adj v) s" and root: "t_low s v = idx s v" and v0: "v \<notin> visited s0"
    and inv0: "t_inv adj G s0" and new: "t_stack s = new @ v # t_stack s0" "set new \<inter> visited s0 = {}"
      "\<forall>x \<in> set new. \<forall>y \<in> set (t_stack s0). y \<in> set (succs adj x) \<longrightarrow> t_low s v \<le> idx s0 y"
  shows "scc adj v = set (new @ [v])"
proof (rule set_eqI)
  fix x
  have inv: "t_inv adj (insert v G) s" using l by (simp add: loop_inv_def)
  then have so: "sorted_wrt (\<lambda>x y. idx s y < idx s x) (t_stack s)" by (simp add: t_inv_def stack_inv_def)
  note rr = root_reach[OF l root v0 inv0 new]
  have gs: "G \<subseteq> set (t_stack s0)" "set (t_stack s0) \<subseteq> visited s0" using inv0 by (auto simp: t_inv_def stack_inv_def)
  have nd: "set (new @ [v]) \<inter> set (t_stack s0) = {}" using new(2) v0 gs(2) by auto
  show "x \<in> scc adj v \<longleftrightarrow> x \<in> set (new @ [v])"
  proof
    assume "x \<in> scc adj v"
    then have x: "reach adj v x" "reach adj x v" by (auto simp: scc_def)
    have "x \<notin> closed s"
    proof
      assume "x \<in> closed s"
      moreover have "\<forall>z \<in> closed s. set (succs adj z) \<subseteq> closed s" using inv by (simp add: t_inv_def closed_inv_def)
      ultimately have "v \<in> closed s" using closed_reach x(2) by metis
      then show False using new(1) by (simp add: closed_def)
    qed
    then show "x \<in> set (new @ [v])" using rr[of v x] x(1) by auto
  next
    assume x: "x \<in> set (new @ [v])"
    have "idx s v \<le> idx s x" using so x unfolding new(1) sorted_wrt_append by auto
    then have vx: "reach adj v x" using inv x new(1) by (auto simp: t_inv_def stack_inv_def)
    have "x \<in> set (t_stack s)" using x new(1) by auto
    then obtain g where g: "g \<in> insert v G" "reach adj x g" using inv unfolding t_inv_def stack_inv_def by blast
    have "g \<in> set (new @ [v]) \<union> closed s" by (rule rr[OF x g(2)])
    moreover have "g \<notin> closed s" using g(1) inv by (auto simp: closed_def t_inv_def stack_inv_def)
    ultimately have "g = v" using g(1) gs(1) nd by auto
    then show "x \<in> scc adj v" using vx g(2) by (simp add: scc_def)
  qed
qed

lemma takeWhile_above: "v \<notin> set new \<Longrightarrow> takeWhile (\<lambda>x. x \<noteq> v) (new @ v # old) = new"
  by (induction new) auto

text \<open>Leaving a node: a root closes its component, any other node stays on the stack.\<close>

lemma close_keep:
  assumes l: "loop_inv adj G v s0 (succs adj v) s" and root: "t_low s v \<noteq> idx s v" and v0: "v \<notin> visited s0"
    and inv0: "t_inv adj G s0"
  shows "t_post adj G v s0 s"
proof -
  have inv: "t_inv adj (insert v G) s" and gr: "grown s0 s" and less: "t_low s v < idx s v" and vs: "v \<in> visited s"
    using l root by (auto simp: loop_inv_def)
  have gs: "G \<subseteq> set (t_stack s0)" "set (t_stack s0) \<subseteq> visited s0" "\<forall>x \<in> visited s0. idx s0 x < t_index s0"
    using inv0 by (auto simp: t_inv_def stack_inv_def)
  obtain new where new: "t_stack s = new @ v # t_stack s0" "set new \<inter> visited s0 = {}"
    "\<forall>x \<in> set new. \<forall>y \<in> set (t_stack s0). y \<in> set (succs adj x) \<longrightarrow> t_low s v \<le> idx s0 y"
    using l by (auto simp: loop_inv_def)
  have i0: "idx s y = idx s0 y" if "y \<in> set (t_stack s0)" for y using grown_idx[OF gr] that gs(2) by auto
  have so: "sorted_wrt (\<lambda>x y. idx s y < idx s x) (t_stack s)" using inv by (simp add: t_inv_def stack_inv_def)
  obtain y where y: "y \<in> set (t_stack s)" "idx s y = t_low s v" "reach adj v y" using l by (auto simp: loop_inv_def)
  have y0: "y \<in> set (t_stack s0)" using y less so unfolding new(1) sorted_wrt_append by auto
  obtain g where g: "g \<in> G" "idx s0 g \<le> idx s0 y" "reach adj y g" using inv0 y0 by (auto simp: t_inv_def stack_inv_def)
  have vg: "idx s g \<le> idx s v" "reach adj v g"
    using g gs(1) y y0 i0 less by (auto intro: rtrancl_trans)
  have "\<exists>x \<in> G. idx s x \<le> idx s z \<and> reach adj z x" if z: "z \<in> set (t_stack s)" for z
  proof -
    obtain x where "x \<in> insert v G" "idx s x \<le> idx s z" "reach adj z x"
      using inv z unfolding t_inv_def stack_inv_def by blast
    then show ?thesis using g(1) vg by (cases "x = v") (auto intro: rtrancl_trans order_trans)
  qed
  then have "t_inv adj G s" using inv unfolding t_inv_def stack_inv_def by auto
  moreover have "\<forall>x \<in> visited s - visited s0. set (succs adj x) \<subseteq> visited s"
    using l unfolding loop_inv_def by blast
  moreover have "\<forall>x \<in> set (new @ [v]). \<forall>y \<in> set (t_stack s0). y \<in> set (succs adj x) \<longrightarrow> t_low s v \<le> idx s0 y"
    using new(3) l by (auto simp: loop_inv_def)
  moreover have "t_stack s = (new @ [v]) @ t_stack s0" "set (new @ [v]) \<inter> visited s0 = {}" using new v0 by auto
  moreover have "\<exists>y \<in> set (t_stack s0). idx s0 y = t_low s v \<and> reach adj v y" using y y0 i0 by auto
  ultimately show ?thesis unfolding t_post_def using gr vs l by (auto simp: loop_inv_def)
qed

lemma distinct_sorted_wrt_index:
  "sorted_wrt (\<lambda>x y. f y < (f x :: nat)) xs \<Longrightarrow> distinct xs"
  by (induction xs) auto

text \<open>The recorded components cover the closed nodes exactly.\<close>

lemma closed_cover:
  assumes "closed_inv adj s"
  shows "set (concat (t_components s)) = closed s"
proof -
  have e: "set ` set (t_components s) = scc adj ` closed s" using assms by (simp add: closed_inv_def)
  have "set (concat (t_components s)) = \<Union> (set ` set (t_components s))" by simp
  also have "\<dots> = \<Union> (scc adj ` closed s)" by (simp only: e)
  also have "\<dots> = closed s"
  proof
    have "\<forall>x \<in> closed s. set (succs adj x) \<subseteq> closed s" using assms by (simp add: closed_inv_def)
    then have "y \<in> closed s" if "reach adj x y" "x \<in> closed s" for x y using that by (rule closed_reach)
    then show "\<Union> (scc adj ` closed s) \<subseteq> closed s" by (auto simp: scc_def)
    show "closed s \<subseteq> \<Union> (scc adj ` closed s)" using scc_refl[of _ adj] by (auto intro: UN_I)
  qed
  finally show ?thesis .
qed

text \<open>What closing a component leaves on the stack is what was there before.\<close>

lemma close_stack:
  assumes inv0: "stack_inv adj G s0" and inv: "stack_inv adj G' s" and gr: "grown s0 s"
    and st: "t_stack s = c @ t_stack s0" and dis: "distinct (t_stack s)"
    and s': "t_stack s' = t_stack s0" "t_onStack s' = (\<lambda>x. x \<notin> set c \<and> t_onStack s x)" "visited s' = visited s"
      "idx s' = idx s" "t_index s' = t_index s"
  shows "stack_inv adj G s'"
proof -
  have sub: "set (t_stack s0) \<subseteq> visited s0" "G \<subseteq> set (t_stack s0)" using inv0 by (auto simp: stack_inv_def)
  then have i0: "idx s y = idx s0 y" if "y \<in> set (t_stack s0)" for y using grown_idx[OF gr] that by auto
  have "\<exists>x \<in> G. idx s x \<le> idx s y \<and> reach adj y x" if y: "y \<in> set (t_stack s0)" for y
  proof -
    obtain x where "x \<in> G" "idx s0 x \<le> idx s0 y" "reach adj y x" using inv0 y unfolding stack_inv_def by blast
    moreover have "idx s x = idx s0 x" "idx s y = idx s0 y" using i0 sub(2) y \<open>x \<in> G\<close> by auto
    ultimately show ?thesis by metis
  qed
  moreover have "sorted_wrt (\<lambda>x y. idx s y < idx s x) (t_stack s0)"
    using inv unfolding stack_inv_def st sorted_wrt_append by blast
  moreover have "x \<notin> set c \<and> t_onStack s x \<longleftrightarrow> x \<in> set (t_stack s0)" for x
    using inv dis unfolding stack_inv_def st by auto
  moreover have "reach adj x y" if "x \<in> set (t_stack s0)" "y \<in> set (t_stack s0)" "idx s x \<le> idx s y" for x y
    using inv that unfolding stack_inv_def st by auto
  moreover have "set (t_stack s0) \<subseteq> visited s" "\<forall>x \<in> visited s. idx s x < t_index s"
    using inv unfolding stack_inv_def st by auto
  ultimately show ?thesis unfolding stack_inv_def s' using sub(2) by blast
qed

lemma close_root:
  assumes l: "loop_inv adj G v s0 (succs adj v) s" and root: "t_low s v = idx s v" and v0: "v \<notin> visited s0"
    and inv0: "t_inv adj G s0"
  shows "t_post adj G v s0 (t_close v s)"
proof -
  let ?s = "t_close v s"
  have inv: "t_inv adj (insert v G) s" and gr: "grown s0 s" and vs: "v \<in> visited s" "idx s v = t_index s0"
    using l by (auto simp: loop_inv_def)
  have st0: "set (t_stack s0) \<subseteq> visited s0" using inv0 by (simp add: t_inv_def stack_inv_def)
  obtain new where new: "t_stack s = new @ v # t_stack s0" "set new \<inter> visited s0 = {}"
    "\<forall>x \<in> set new. \<forall>y \<in> set (t_stack s0). y \<in> set (succs adj x) \<longrightarrow> t_low s v \<le> idx s0 y"
    using l by (auto simp: loop_inv_def)
  let ?c = "new @ [v]"
  have i0: "idx s y = idx s0 y" if "y \<in> set (t_stack s0)" for y using grown_idx[OF gr] that st0 by auto
  have so: "sorted_wrt (\<lambda>x y. idx s y < idx s x) (new @ v # t_stack s0)" and stk: "set (t_stack s) \<subseteq> visited s"
    using inv new(1) by (auto simp: t_inv_def stack_inv_def)
  have dis: "distinct (new @ v # t_stack s0)"
    using so by (rule distinct_sorted_wrt_index)
  then have "v \<notin> set new" by simp
  then have c: "takeWhile (\<lambda>x. x \<noteq> v) (t_stack s) @ [v] = ?c" unfolding new(1) by (simp add: takeWhile_above)
  have s: "t_stack ?s = t_stack s0" "t_components ?s = t_components s @ [sort ?c]"
    "t_onStack ?s = (\<lambda>x. x \<notin> set ?c \<and> t_onStack s x)"
    using root c unfolding t_close_def Let_def by (simp_all add: new(1))
  have same: "visited ?s = visited s" "idx ?s = idx s" "t_low ?s = t_low s" "t_index ?s = t_index s" "t_indices ?s = t_indices s"
    by (auto simp: t_close_def Let_def visited_def idx_def fun_eq_iff)
  have cl: "closed ?s = closed s \<union> set ?c" using dis stk unfolding closed_def same s new(1) by auto
  note rr = root_reach[OF l root v0 inv0 new] and sc = root_scc[OF l root v0 inv0 new]
  have scx: "scc adj x = set ?c" if "x \<in> set ?c" for x using scc_eq[of x adj v] that sc by simp
  have stkinv: "stack_inv adj G ?s"
    by (rule close_stack[of adj G s0 "insert v G" s ?c]) (use inv0 inv gr dis s same in \<open>simp_all add: t_inv_def new(1)\<close>)
  have ci: "closed_inv adj s" using inv by (simp add: t_inv_def)
  have "set (succs adj x) \<subseteq> set ?c \<union> closed s" if "x \<in> set ?c" for x
    using rr[OF that edge_reach] by (intro subsetI)
  then have "\<forall>x \<in> closed ?s. set (succs adj x) \<subseteq> closed ?s"
    using ci unfolding cl closed_inv_def by (intro ballI) (auto dest!: bspec)
  moreover have "set ` set (t_components ?s) = scc adj ` closed ?s"
  proof -
    have "scc adj ` set ?c = {set ?c}" using scx by auto
    moreover have "set ` set (t_components s) = scc adj ` closed s" using ci by (simp add: closed_inv_def)
    moreover have "set ` set [sort ?c] = {set ?c}" by simp
    ultimately show ?thesis unfolding s cl image_Un set_append[of "t_components s"] by (simp only:)
  qed
  moreover have "distinct (concat (t_components ?s))"
  proof -
    have "set (concat (t_components s)) \<inter> set ?c = {}" unfolding closed_cover[OF ci] closed_def new(1) by auto
    moreover have "distinct (concat (t_components s))" "distinct ?c" using ci dis by (auto simp: closed_inv_def)
    ultimately show ?thesis unfolding s concat_append distinct_append by simp
  qed
  moreover have "sorted c \<and> c \<noteq> []" if "c \<in> set (t_components ?s)" for c
  proof (cases "c = sort ?c")
    case True
    then have "set c = set ?c" "sorted c" by (simp_all only: set_sort sorted_sort)
    then show ?thesis by auto
  next
    case False
    then show ?thesis using ci that unfolding s closed_inv_def by simp
  qed
  ultimately have "t_inv adj G ?s" unfolding t_inv_def closed_inv_def using stkinv by blast
  moreover have "grown s0 ?s" using gr same by (simp add: grown_def)
  moreover have "\<forall>x \<in> visited s - visited s0. set (succs adj x) \<subseteq> visited s"
    using l unfolding loop_inv_def by blast
  ultimately show ?thesis unfolding t_post_def using s same vs root by simp
qed

lemma close_post:
  assumes "loop_inv adj G v s0 (succs adj v) s" "v \<notin> visited s0" "t_inv adj G s0"
  shows "t_post adj G v s0 (t_close v s)"
proof (cases "t_low s v = idx s v")
  case False
  then have "t_close v s = s" by (simp add: t_close_def)
  then show ?thesis using close_keep[OF assms(1) False assms(2,3)] by simp
qed (use close_root assms in blast)

lemma unvisited: "t_indices s w = None \<longleftrightarrow> w \<notin> visited s"
  by (auto simp: visited_def)

lemma close_visited [simp]: "visited (t_close v s) = visited s"
  by (simp add: t_close_def Let_def visited_def)

lemma visit_all_spec:
  assumes f: "\<And>w s. w \<in> U \<Longrightarrow> w \<notin> visited s \<Longrightarrow> visited s \<subseteq> U \<Longrightarrow> t_inv adj (insert v G) s \<Longrightarrow>
      \<forall>x \<in> insert v G. reach adj x w \<Longrightarrow> card (U - visited s) \<le> n \<Longrightarrow>
      \<exists>s'. f w s = Some s' \<and> t_post adj (insert v G) w s s' \<and> visited s' \<subseteq> U"
    and v0: "v \<notin> visited s0" and st0: "set (t_stack s0) \<subseteq> visited s0" and g: "\<forall>x \<in> G. reach adj x v"
    and u: "finite U" "set (succs adj v) \<subseteq> U"
  shows "succs adj v = seen @ ws \<Longrightarrow> loop_inv adj G v s0 seen s \<Longrightarrow> visited s \<subseteq> U \<Longrightarrow> card (U - visited s) \<le> n \<Longrightarrow>
    \<exists>s'. visit_all f v ws s = Some s' \<and> loop_inv adj G v s0 (succs adj v) s' \<and> visited s' \<subseteq> U"
proof (induction ws arbitrary: seen s)
  case (Cons w ws)
  have w: "w \<in> set (succs adj v)" "w \<in> U" using Cons.prems(1) u(2) by auto
  have sp: "succs adj v = (seen @ [w]) @ ws" using Cons.prems(1) by simp
  show ?case
  proof (cases "w \<in> visited s")
    case True
    let ?s = "if t_onStack s w then t_lower v (idx s w) s else s"
    have "loop_inv adj G v s0 (seen @ [w]) ?s" by (rule loop_seen[OF Cons.prems(2) w(1) True v0 st0])
    moreover have "visited ?s = visited s" by simp
    ultimately show ?thesis using Cons.IH[OF sp, of ?s] Cons.prems(3,4) True by (simp add: unvisited)
  next
    case False
    have inv: "t_inv adj (insert v G) s" using Cons.prems(2) by (simp add: loop_inv_def)
    have "\<forall>x \<in> insert v G. reach adj x w" using g edge_reach[OF w(1)] by (auto intro: rtrancl_trans)
    then obtain s' where s': "f w s = Some s'" "t_post adj (insert v G) w s s'" "visited s' \<subseteq> U"
      using f[OF w(2) False Cons.prems(3) inv _ Cons.prems(4)] by blast
    have "visited s \<subseteq> visited s'" using s'(2) by (simp add: t_post_def grown_def)
    then have "card (U - visited s') \<le> n" using Cons.prems(4) u(1) by (meson Diff_mono card_mono dual_order.trans finite_Diff order_refl)
    then show ?thesis
      using Cons.IH[OF sp loop_visited[OF Cons.prems(2) w(1) False v0 st0 s'(2)]] s' False by (simp add: unvisited)
  qed
qed simp

lemma visit_spec:
  assumes u: "finite U" "\<forall>x \<in> U. set (succs adj x) \<subseteq> U"
  shows "v \<in> U \<Longrightarrow> v \<notin> visited s \<Longrightarrow> visited s \<subseteq> U \<Longrightarrow> t_inv adj G s \<Longrightarrow> \<forall>x \<in> G. reach adj x v \<Longrightarrow>
    card (U - visited s) \<le> n \<Longrightarrow> \<exists>s'. visit adj n v s = Some s' \<and> t_post adj G v s s' \<and> visited s' \<subseteq> U"
proof (induction n arbitrary: v s G)
  case 0
  then show ?case using u(1) by auto
next
  case (Suc n)
  have st: "set (t_stack s) \<subseteq> visited s" using Suc.prems(4) by (simp add: t_inv_def stack_inv_def)
  have "U - visited (t_enter v s) = (U - visited s) - {v}" by auto
  then have card: "card (U - visited (t_enter v s)) \<le> n" using Suc.prems(1,2,6) u(1) by simp
  have vis: "visited (t_enter v s) \<subseteq> U" using Suc.prems(1,3) by simp
  have out: "set (succs adj v) \<subseteq> U" using u(2) Suc.prems(1) by simp
  obtain s' where s': "visit_all (visit adj n) v (succs adj v) (t_enter v s) = Some s'"
    "loop_inv adj G v s (succs adj v) s'" "visited s' \<subseteq> U"
    using visit_all_spec[of U adj v G n "visit adj n", OF Suc.IH Suc.prems(2) st Suc.prems(5) u(1) out append_Nil[symmetric]
        enter_loop[OF Suc.prems(4,2,5)] vis card] by blast
  then show ?case using close_post[OF s'(2) Suc.prems(2,4)] by simp
qed

lemma visit_roots_spec:
  assumes u: "finite U" "\<forall>x \<in> U. set (succs adj x) \<subseteq> U" "card U \<le> n"
  shows "set vs \<subseteq> U \<Longrightarrow> visited s \<subseteq> U \<Longrightarrow> t_inv adj {} s \<Longrightarrow>
    \<exists>s'. visit_roots adj n vs s = Some s' \<and> t_inv adj {} s' \<and> visited s' \<subseteq> U \<and> visited s \<union> set vs \<subseteq> visited s'"
proof (induction vs arbitrary: s)
  case (Cons v vs)
  show ?case
  proof (cases "v \<in> visited s")
    case True
    then show ?thesis using Cons.IH[of s] Cons.prems by (auto simp: unvisited)
  next
    case False
    have "card (U - visited s) \<le> n" using u(1,3) by (meson Diff_subset card_mono dual_order.trans)
    then obtain s' where s': "visit adj n v s = Some s'" "t_post adj {} v s s'" "visited s' \<subseteq> U"
      using visit_spec[OF u(1,2), of v s "{}" n] Cons.prems False by auto
    have p: "t_inv adj {} s'" "insert v (visited s) \<subseteq> visited s'" using s'(2) by (auto simp: t_post_def grown_def)
    then obtain s'' where "visit_roots adj n vs s' = Some s''" "t_inv adj {} s''" "visited s'' \<subseteq> U"
      "visited s' \<union> set vs \<subseteq> visited s''" using Cons.IH[of s'] Cons.prems(1) s'(3) by auto
    then show ?thesis using s'(1) False p(2) by (intro exI[of _ s'']) (auto simp: unvisited)
  qed
qed simp

theorem stronglyConnected_correct:
  assumes "\<forall>x \<in> set ids. set (succs adj x) \<subseteq> set ids"
  shows "\<exists>cs. stronglyConnected ids adj = Some cs \<and> set ` set cs = scc adj ` set ids \<and> distinct (concat cs) \<and>
    (\<forall>c \<in> set cs. sorted c \<and> c \<noteq> []) \<and> sorted (map hd cs)"
proof -
  have "t_inv adj {} t_start"
    by (simp add: t_inv_def stack_inv_def closed_inv_def closed_def visited_def t_start_def)
  moreover have "visited t_start = {}" "visited t_start \<subseteq> set ids" by (simp_all add: visited_def t_start_def)
  ultimately obtain s where s: "visit_roots adj (length ids) ids t_start = Some s" "t_inv adj {} s" "visited s = set ids"
    using visit_roots_spec[of "set ids" adj "length ids" ids t_start] assms card_length[of ids] by auto
  have "t_stack s = []" using s(2) by (simp add: t_inv_def stack_inv_def)
  then have cl: "closed s = set ids" using s(3) by (simp add: closed_def)
  have c: "closed_inv adj s" using s(2) by (simp add: t_inv_def)
  have "mset (concat (sort_key hd (t_components s))) = mset (concat (t_components s))"
    by (simp add: mset_concat flip: sum_mset_sum_list)
  then have "distinct (concat (sort_key hd (t_components s)))" using c by (metis closed_inv_def mset_eq_imp_distinct_iff)
  then show ?thesis using c s(1) cl by (simp add: stronglyConnected_def closed_inv_def)
qed

end
