(* ===== verification/Action_Contract.thy ===== *)
theory Action_Contract
  imports Json "HOL-Library.Word"
begin

unbundle bit_operations_syntax

text \<open>
  \<open>internal/actioncontract/schema.go\<close>: the static inspection of the JSON Schemas an action declares.

  The schema library is the record \<open>js_lib\<close>. A compiled schema of the library is a graph of nodes
  that refer to each other by pointers, a \<open>js_schema\<close>: \<open>js_at\<close> is the heap of its nodes and an
  address \<open>None\<close> is the nil pointer; of a node only the fields the source reads are kept. Following
  \<open>$ref\<close> pointers is the one loop that has no bound of its own: \<open>dereference\<close> is a partial function
  and everything that calls it is \<open>None\<close> when it does not return. The type set \<open>Type\<close> is the
  16-bit word of the source. \<open>normalize\<close> re-encodes a value as JSON, which leaves a \<open>json\<close> value
  as it is.
\<close>

section \<open>Type sets\<close>

type_synonym jtype = "16 word"

definition TypeUnknown :: jtype where "TypeUnknown = 0"
definition TypeNull :: jtype where "TypeNull = 2"
definition TypeBoolean :: jtype where "TypeBoolean = 4"
definition TypeInteger :: jtype where "TypeInteger = 8"
definition TypeNumber :: jtype where "TypeNumber = 16"
definition TypeString :: jtype where "TypeString = 32"
definition TypeObject :: jtype where "TypeObject = 64"
definition TypeArray :: jtype where "TypeArray = 128"

lemmas type_defs = TypeUnknown_def TypeNull_def TypeBoolean_def TypeInteger_def TypeNumber_def
  TypeString_def TypeObject_def TypeArray_def

section \<open>Compiled schemas\<close>

datatype js_additional = AddNil | AddBool bool | AddSchema nat

record js_node =
  js_ref :: "nat option"
  js_types :: "string list"
  js_required :: "string list"
  js_properties :: "(string \<times> nat) list"
  js_additionalProperties :: js_additional
  js_items2020 :: "nat option"
  js_items :: "nat option"

record js_schema =
  js_at :: "nat \<Rightarrow> js_node"
  js_root :: nat

record js_lib =
  js_compile :: "json \<Rightarrow> (string, js_schema) result"
  js_validate :: "js_schema \<Rightarrow> json \<Rightarrow> string list option"

record violation =
  vio_path :: "string list"
  vio_code :: string
  vio_message :: string

record resolution =
  res_schema :: "nat option"
  res_type :: jtype
  res_exists :: bool
  res_dynamic :: bool

definition no_resolution :: resolution where
  "no_resolution = \<lparr>res_schema = None, res_type = TypeUnknown, res_exists = False, res_dynamic = False\<rparr>"

definition open_resolution :: resolution where
  "open_resolution = \<lparr>res_schema = None, res_type = TypeUnknown, res_exists = True, res_dynamic = True\<rparr>"

section \<open>Compiling a schema\<close>

definition schema_keywords :: "string list" where
  "schema_keywords = [''additionalProperties'', ''unevaluatedProperties'', ''unevaluatedItems'', ''propertyNames'',
     ''contains'', ''items'', ''not'', ''if'', ''then'', ''else'', ''contentSchema'']"

definition list_keywords :: "string list" where
  "list_keywords = [''allOf'', ''anyOf'', ''oneOf'', ''prefixItems'']"

definition map_keywords :: "string list" where
  "map_keywords = [''$defs'', ''properties'', ''patternProperties'', ''dependentSchemas'']"

text \<open>The schemas an object holds, in the order the source visits them.\<close>

definition subschemas :: "(string \<times> json) list \<Rightarrow> json list" where
  "subschemas kvs =
     concat (map (\<lambda>k. case map_of kvs k of None \<Rightarrow> [] | Some c \<Rightarrow> [c]) schema_keywords)
     @ concat (map (\<lambda>k. case map_of kvs k of Some (JArr cs) \<Rightarrow> cs | _ \<Rightarrow> []) list_keywords)
     @ concat (map (\<lambda>k. case map_of kvs k of Some (JObj cs) \<Rightarrow> map snd cs | _ \<Rightarrow> []) map_keywords)"

fun first_error :: "(string, unit) result list \<Rightarrow> (string, unit) result" where
  "first_error [] = Inr ()"
| "first_error (r # rs) = (case r of Inl e \<Rightarrow> Inl e | Inr _ \<Rightarrow> first_error rs)"

definition local_reference :: "json \<Rightarrow> bool" where
  "local_reference v = (case v of JStr r \<Rightarrow> has_prefix r ''#'' | _ \<Rightarrow> False)"

text \<open>The checks on the keywords of one object.\<close>

definition reject_here :: "(string \<times> json) list \<Rightarrow> (string, unit) result" where
  "reject_here kvs =
     bind_res (fail_if (map_of kvs ''$schema'' \<noteq> None \<and>
                        map_of kvs ''$schema'' \<noteq> Some (JStr ''https://json-schema.org/draft/2020-12/schema''))
                ''$schema must select Draft 2020-12'') (\<lambda>_.
       first_error (map (\<lambda>keyword. case map_of kvs keyword of None \<Rightarrow> Inr ()
           | Some c \<Rightarrow> fail_if (\<not> local_reference c) (''external '' @ keyword @ '' values are not allowed''))
         [''$ref'', ''$dynamicRef'']))"

lemma size_map_of: "map_of kvs k = Some v \<Longrightarrow> size v < Suc (size_list (size_prod (\<lambda>_. 0) size) kvs)"
  by (induction kvs) (auto split: if_splits)

lemma size_member: "c \<in> set cs \<Longrightarrow> size c < Suc (size_list size cs)"
  by (induction cs) auto

lemma size_entry: "(k, c) \<in> set cs \<Longrightarrow> size c < Suc (size_list (size_prod (\<lambda>_. 0) size) cs)"
  by (induction cs) auto

lemma size_subschemas:
  assumes "c \<in> set (subschemas kvs)"
  shows "size c < size (JObj kvs)"
proof -
  consider k where "map_of kvs k = Some c" | k cs where "map_of kvs k = Some (JArr cs)" "c \<in> set cs"
    | k cs k' where "map_of kvs k = Some (JObj cs)" "(k', c) \<in> set cs"
    using assms by (auto simp: subschemas_def split: option.splits json.splits) (metis+)
  then show ?thesis
    by cases (use size_map_of[of kvs] size_member[of c] size_entry[of _ c] in \<open>fastforce+\<close>)
qed

function (sequential) rejectExternalReferences :: "json \<Rightarrow> (string, unit) result" where
  "rejectExternalReferences (JObj kvs) =
     bind_res (reject_here kvs) (\<lambda>_. first_error (map rejectExternalReferences (subschemas kvs)))"
| "rejectExternalReferences _ = Inr ()"
  by pat_completeness auto
termination
  by (relation "measure size") (auto dest: size_subschemas)

declare rejectExternalReferences.simps(1) [simp del]

definition compile_schema :: "js_lib \<Rightarrow> json \<Rightarrow> (string, js_schema) result" where
  "compile_schema lib raw = bind_res (rejectExternalReferences raw) (\<lambda>_. js_compile lib raw)"

section \<open>Inspecting a schema\<close>

partial_function (option) dereference :: "(nat \<Rightarrow> js_node) \<Rightarrow> nat \<Rightarrow> nat option" where
  "dereference h a = (case js_ref (h a) of None \<Rightarrow> Some a | Some b \<Rightarrow> dereference h b)"

definition type_bit :: "string \<Rightarrow> jtype" where
  "type_bit name =
     (if name = ''null'' then TypeNull else if name = ''boolean'' then TypeBoolean
      else if name = ''integer'' then TypeInteger else if name = ''number'' then TypeNumber
      else if name = ''string'' then TypeString else if name = ''object'' then TypeObject
      else if name = ''array'' then TypeArray else 0)"

definition type_set :: "string list \<Rightarrow> jtype" where
  "type_set names = foldl (\<lambda>t n. t OR type_bit n) 0 names"

definition schemaType :: "(nat \<Rightarrow> js_node) \<Rightarrow> nat option \<Rightarrow> jtype option" where
  "schemaType h schema = (case schema of None \<Rightarrow> Some TypeUnknown
     | Some a \<Rightarrow> Option.bind (dereference h a) (\<lambda>s. Some (type_set (js_types (h s)))))"

definition item_schema :: "js_node \<Rightarrow> nat option" where
  "item_schema n = (case js_items2020 n of None \<Rightarrow> js_items n | Some i \<Rightarrow> Some i)"

fun resolve :: "(nat \<Rightarrow> js_node) \<Rightarrow> nat option \<Rightarrow> string list \<Rightarrow> bool \<Rightarrow> resolution option" where
  "resolve h None parts dynamic = Some open_resolution"
| "resolve h (Some a) [] dynamic =
     Option.bind (dereference h a) (\<lambda>s. Option.bind (schemaType h (Some s)) (\<lambda>types.
       Some \<lparr>res_schema = Some s, res_type = types, res_exists = True, res_dynamic = (dynamic \<or> types = TypeUnknown)\<rparr>))"
| "resolve h (Some a) (part # rest) dynamic =
     Option.bind (dereference h a) (\<lambda>s. Option.bind (schemaType h (Some s)) (\<lambda>types.
       if types = TypeUnknown then Some (open_resolution\<lparr>res_schema := Some s\<rparr>)
       else if types AND TypeObject \<noteq> 0 then
         (case map_of (js_properties (h s)) part of
            Some p \<Rightarrow> resolve h (Some p) rest dynamic
          | None \<Rightarrow> (case js_additionalProperties (h s) of
              AddBool b \<Rightarrow> Some (if b then open_resolution else no_resolution)
            | AddSchema p \<Rightarrow> resolve h (Some p) rest True
            | AddNil \<Rightarrow> Some open_resolution))
       else if types AND TypeArray \<noteq> 0 then
         (if atoi part = None then Some no_resolution
          else (case item_schema (h s) of None \<Rightarrow> Some open_resolution
            | Some i \<Rightarrow> resolve h (Some i) rest dynamic))
       else Some no_resolution))"

definition ResolveDot :: "js_schema \<Rightarrow> string list \<Rightarrow> resolution option" where
  "ResolveDot s parts = resolve (js_at s) (Some (js_root s)) parts False"

definition unescape_pointer :: "string \<Rightarrow> string" where
  "unescape_pointer part = replace_pair (CHR ''~'') (CHR ''0'') ''~'' (replace_pair (CHR ''~'') (CHR ''1'') ''/'' part)"

definition pointer_parts :: "string \<Rightarrow> string list option" where
  "pointer_parts pointer =
     (if \<not> has_prefix pointer ''/'' \<or> pointer = ''/'' then None
      else Some (map unescape_pointer (split_on (CHR ''/'') (trim_prefix pointer ''/''))))"

definition ResolvePointer :: "js_schema \<Rightarrow> string \<Rightarrow> resolution option" where
  "ResolvePointer s pointer = (case pointer_parts pointer of None \<Rightarrow> Some no_resolution
     | Some parts \<Rightarrow> resolve (js_at s) (Some (js_root s)) parts False)"

section \<open>Values\<close>

definition Placeholder :: "resolution \<Rightarrow> json" where
  "Placeholder r =
     (let t = res_type r in
      if t AND TypeString \<noteq> 0 then JStr ''mapped-value''
      else if t AND TypeInteger \<noteq> 0 then JInt 1
      else if t AND TypeNumber \<noteq> 0 then JInt 1
      else if t AND TypeBoolean \<noteq> 0 then JBool False
      else if t AND TypeObject \<noteq> 0 then JObj []
      else if t AND TypeArray \<noteq> 0 then JArr []
      else if t AND TypeNull \<noteq> 0 then JNull
      else JStr ''mapped-value'')"

definition Compatible :: "resolution \<Rightarrow> resolution \<Rightarrow> bool \<times> bool" where
  "Compatible source target =
     (if res_dynamic source \<or> res_dynamic target \<or> res_type source = TypeUnknown \<or> res_type target = TypeUnknown
      then (True, True)
      else (let accepted = (if res_type target AND TypeNumber \<noteq> 0 then res_type target OR TypeInteger else res_type target)
            in (res_type source AND NOT accepted = 0, False)))"

text \<open>The loop of \<open>SetPointer\<close> from the container it has reached; the containers it goes through are
  updated in place.\<close>

fun set_parts :: "string list \<Rightarrow> json \<Rightarrow> json \<Rightarrow> (string, json) result" where
  "set_parts [] v current = Inr current"
| "set_parts (part # rest) v (JObj kvs) =
     (if rest = [] then Inr (JObj (map_put part v kvs))
      else (let next = (case map_of kvs part of None \<Rightarrow> JObj [] | Some JNull \<Rightarrow> JObj [] | Some n \<Rightarrow> n)
            in bind_res (set_parts rest v next) (\<lambda>n. Inr (JObj (map_put part n kvs)))))"
| "set_parts (part # rest) v (JArr xs) =
     (case atoi part of
        None \<Rightarrow> Inl (''mapping target array index '' @ part @ '' is unavailable'')
      | Some i \<Rightarrow>
          if i < 0 \<or> i \<ge> int (length xs) then Inl (''mapping target array index '' @ part @ '' is unavailable'')
          else if rest = [] then Inr (JArr (xs[nat i := v]))
          else bind_res (set_parts rest v (xs ! nat i)) (\<lambda>n. Inr (JArr (xs[nat i := n]))))"
| "set_parts (part # rest) v current = Inl (''mapping target traverses a non-container at '' @ part)"

definition SetPointer :: "(string \<times> json) list \<Rightarrow> string \<Rightarrow> json \<Rightarrow> (string, (string \<times> json) list) result" where
  "SetPointer root pointer v =
     (case pointer_parts pointer of
        None \<Rightarrow> Inl ''mapping target must be a non-root JSON pointer''
      | Some parts \<Rightarrow> bind_res (set_parts parts v (JObj root)) (\<lambda>r.
          Inr (case r of JObj kvs \<Rightarrow> kvs | _ \<Rightarrow> root)))"

fun valueType :: "json \<Rightarrow> jtype" where
  "valueType JNull = TypeNull"
| "valueType (JBool _) = TypeBoolean"
| "valueType (JStr _) = TypeString"
| "valueType (JInt n) = (if - (2 ^ 63) \<le> n \<and> n < 2 ^ 63 then TypeInteger else TypeNumber)"
| "valueType (JFloat _) = TypeNumber"
| "valueType (JObj _) = TypeObject"
| "valueType (JArr _) = TypeArray"

definition valueMatches :: "jtype \<Rightarrow> jtype \<Rightarrow> bool" where
  "valueMatches got want \<longleftrightarrow> got AND want \<noteq> 0 \<or> (got = TypeInteger \<and> want AND TypeNumber \<noteq> 0)"

definition vio :: "string list \<Rightarrow> string \<Rightarrow> string \<Rightarrow> violation" where
  "vio path code msg = \<lparr>vio_path = path, vio_code = code, vio_message = msg\<rparr>"

definition type_mismatch :: "string list \<Rightarrow> violation" where
  "type_mismatch path = vio path ''type_mismatch'' ''value type is incompatible with the declared schema''"

definition missing_fields :: "js_node \<Rightarrow> (string \<times> json) list \<Rightarrow> string list \<Rightarrow> violation list" where
  "missing_fields n kvs path =
     map (\<lambda>r. vio (path @ [r]) ''required'' ''required field is missing'') (filter (\<lambda>r. map_of kvs r = None) (js_required n))"

text \<open>The schema of a field: \<open>Inl\<close> when the field is not allowed.\<close>

definition field_schema :: "js_node \<Rightarrow> string \<Rightarrow> (unit, nat option) result" where
  "field_schema n key =
     (case map_of (js_properties n) key of
        Some p \<Rightarrow> Inr (Some p)
      | None \<Rightarrow> (case js_additionalProperties n of
          AddBool b \<Rightarrow> (if b then Inr None else Inl ())
        | AddSchema p \<Rightarrow> Inr (Some p)
        | AddNil \<Rightarrow> Inr None))"

lemma size_sorted_entry: "x \<in> set (sort_key fst kvs) \<Longrightarrow> size (snd x) < size (JObj kvs)"
  using size_entry[of "fst x" "snd x" kvs] by simp

lemma size_enumerated: "x \<in> set (enumerate n xs) \<Longrightarrow> size (snd x) < size (JArr xs)"
proof -
  assume "x \<in> set (enumerate n xs)"
  then have "snd x \<in> set xs" using nth_mem[of "fst x - n" xs] by (auto simp: in_set_enumerate_eq)
  then show ?thesis using size_member[of "snd x" xs] by simp
qed

function validateShape :: "(nat \<Rightarrow> js_node) \<Rightarrow> nat option \<Rightarrow> json \<Rightarrow> string list \<Rightarrow> violation list option" where
  "validateShape h schema v path =
     (case schema of None \<Rightarrow> Some [] | Some a \<Rightarrow>
       Option.bind (dereference h a) (\<lambda>s. Option.bind (schemaType h (Some s)) (\<lambda>want.
         if want \<noteq> TypeUnknown \<and> \<not> valueMatches (valueType v) want then Some [type_mismatch path]
         else (case v of
             JObj kvs \<Rightarrow> map_option (\<lambda>vss. missing_fields (h s) kvs path @ concat vss)
               (those (map (\<lambda>p. case field_schema (h s) (fst p) of
                    Inl _ \<Rightarrow> Some [vio (path @ [fst p]) ''unknown_field'' ''field is not declared by the closed schema'']
                  | Inr None \<Rightarrow> Some []
                  | Inr (Some c) \<Rightarrow> validateShape h (Some c) (snd p) (path @ [fst p])) (sort_key fst kvs)))
           | JArr xs \<Rightarrow> (case item_schema (h s) of None \<Rightarrow> Some []
               | Some i \<Rightarrow> map_option concat (those (map (\<lambda>p. validateShape h (Some i) (snd p) (path @ [itoa (fst p)]))
                   (enumerate 0 xs))))
           | _ \<Rightarrow> Some []))))"
  by pat_completeness auto
termination
  by (relation "measure (\<lambda>(h, schema, v, path). size v)") (auto dest: size_entry size_enumerated)

declare validateShape.simps [simp del]

definition Validate :: "js_lib \<Rightarrow> js_schema \<Rightarrow> json \<Rightarrow> violation list option" where
  "Validate lib s v =
     Option.bind (validateShape (js_at s) (Some (js_root s)) v []) (\<lambda>violations.
       let all = (if violations = [] then (case js_validate lib s v of None \<Rightarrow> []
             | Some path \<Rightarrow> [vio path ''schema_invalid'' ''value does not satisfy the declared schema'']) else violations)
       in Some (sort_key (\<lambda>w. (join_with [CHR 0x00] (vio_path w), vio_code w)) all))"

section \<open>References stay inside the document\<close>

definition subschema_rel :: "(json \<times> json) set" where
  "subschema_rel = {(v, c). \<exists>kvs. v = JObj kvs \<and> c \<in> set (subschemas kvs)}"

definition keywords_local :: "json \<Rightarrow> bool" where
  "keywords_local v \<longleftrightarrow> (\<forall>keyword \<in> {''$ref'', ''$dynamicRef''}. \<forall>c. json_get keyword v = Some c \<longrightarrow> local_reference c) \<and>
     (\<forall>c. json_get ''$schema'' v = Some c \<longrightarrow> c = JStr ''https://json-schema.org/draft/2020-12/schema'')"

lemma first_error_ok: "first_error rs = Inr u \<longleftrightarrow> (\<forall>r \<in> set rs. \<exists>w. r = Inr w)"
  by (induction rs) (auto split: sum.splits)

lemma reject_here_ok: "reject_here kvs = Inr u \<longleftrightarrow> keywords_local (JObj kvs)"
  by (auto simp: reject_here_def first_error_ok keywords_local_def json_get_def fail_if_def split: option.splits)

lemma rejectExternalReferences_step:
  "rejectExternalReferences v = Inr u \<longleftrightarrow>
    keywords_local v \<and> (\<forall>c. (v, c) \<in> subschema_rel \<longrightarrow> rejectExternalReferences c = Inr ())"
proof (cases v)
  case (JObj kvs)
  then show ?thesis
    by (auto simp: rejectExternalReferences.simps(1) reject_here_ok first_error_ok subschema_rel_def)
qed (auto simp: keywords_local_def json_get_def subschema_rel_def)

lemma rejectExternalReferences_iff:
  "rejectExternalReferences v = Inr () \<longleftrightarrow> (\<forall>c. (v, c) \<in> subschema_rel\<^sup>* \<longrightarrow> keywords_local c)"
proof
  assume ok: "rejectExternalReferences v = Inr ()"
  have "rejectExternalReferences c = Inr ()" if "(v, c) \<in> subschema_rel\<^sup>*" for c
    using that
  proof (induction rule: rtrancl_induct)
    case (step y z)
    then show ?case using rejectExternalReferences_step[of y "()"] by blast
  qed (rule ok)
  then show "\<forall>c. (v, c) \<in> subschema_rel\<^sup>* \<longrightarrow> keywords_local c" using rejectExternalReferences_step by blast
next
  assume "\<forall>c. (v, c) \<in> subschema_rel\<^sup>* \<longrightarrow> keywords_local c"
  then show "rejectExternalReferences v = Inr ()"
  proof (induction "size v" arbitrary: v rule: less_induct)
    case less
    have "rejectExternalReferences c = Inr ()" if c: "(v, c) \<in> subschema_rel" for c
    proof (rule less.hyps)
      show "size c < size v" using c size_subschemas by (auto simp: subschema_rel_def)
      show "\<forall>d. (c, d) \<in> subschema_rel\<^sup>* \<longrightarrow> keywords_local d" using c less.prems by (meson converse_rtrancl_into_rtrancl)
    qed
    then show ?case using less.prems rejectExternalReferences_step by blast
  qed
qed

section \<open>Type sets\<close>

text \<open>The types a schema can name.\<close>

definition known_types :: jtype where
  "known_types = 254"

lemma type_bit_known: "type_bit n AND NOT known_types = 0"
  by (simp add: type_bit_def known_types_def type_defs)

lemma type_set_known: "type_set ns AND NOT known_types = 0"
proof -
  have "foldl (\<lambda>t n. t OR type_bit n) t ns AND NOT known_types = 0" if "t AND NOT known_types = 0" for t
    using that by (induction ns arbitrary: t) (simp_all add: type_bit_known bit.conj_disj_distrib2)
  then show ?thesis by (simp add: type_set_def)
qed

lemma schemaType_known: "schemaType h s = Some t \<Longrightarrow> t AND NOT known_types = 0"
  by (auto simp: schemaType_def type_set_known TypeUnknown_def bind_eq_Some_conv split: option.splits)

lemma known_cases:
  fixes t :: jtype
  assumes "t AND NOT known_types = 0" and "t \<noteq> 0"
  shows "t AND TypeNull \<noteq> 0 \<or> t AND TypeBoolean \<noteq> 0 \<or> t AND TypeInteger \<noteq> 0 \<or> t AND TypeNumber \<noteq> 0 \<or>
    t AND TypeString \<noteq> 0 \<or> t AND TypeObject \<noteq> 0 \<or> t AND TypeArray \<noteq> 0"
proof (rule ccontr)
  assume "\<not> ?thesis"
  then have "t AND (TypeNull OR TypeBoolean OR TypeInteger OR TypeNumber OR TypeString OR TypeObject OR TypeArray) = 0"
    by (simp add: bit.conj_disj_distrib)
  then have "t AND known_types = 0" by (simp add: type_defs known_types_def)
  then have "t AND (known_types OR NOT known_types) = 0" using assms(1) by (simp only: bit.conj_disj_distrib) simp
  then show False using assms(2) by simp
qed

fun type_index :: "json \<Rightarrow> nat" where
  "type_index JNull = 1"
| "type_index (JBool _) = 2"
| "type_index (JInt n) = (if - (2 ^ 63) \<le> n \<and> n < 2 ^ 63 then 3 else 4)"
| "type_index (JFloat _) = 4"
| "type_index (JStr _) = 5"
| "type_index (JObj _) = 6"
| "type_index (JArr _) = 7"

lemma type_bits [simp]:
  "t AND TypeNull = 0 \<longleftrightarrow> \<not> bit t 1" "t AND TypeBoolean = 0 \<longleftrightarrow> \<not> bit t 2" "t AND TypeInteger = 0 \<longleftrightarrow> \<not> bit t 3"
  "t AND TypeNumber = 0 \<longleftrightarrow> \<not> bit t 4" "t AND TypeString = 0 \<longleftrightarrow> \<not> bit t 5" "t AND TypeObject = 0 \<longleftrightarrow> \<not> bit t 6"
  "t AND TypeArray = 0 \<longleftrightarrow> \<not> bit t 7"
  using and_exp_eq_0_iff_not_bit[of t 1] and_exp_eq_0_iff_not_bit[of t 2] and_exp_eq_0_iff_not_bit[of t 3]
    and_exp_eq_0_iff_not_bit[of t 4] and_exp_eq_0_iff_not_bit[of t 5] and_exp_eq_0_iff_not_bit[of t 6]
    and_exp_eq_0_iff_not_bit[of t 7]
  unfolding type_defs by simp_all

lemma type_subset: "s AND NOT a = 0 \<Longrightarrow> bit s k \<Longrightarrow> bit (a :: jtype) k"
  by (metis bit_0_eq bit_and_iff bit_imp_possible_bit bit_not_iff bot_apply bot_bool_def)

lemma type_subset_iff: "s AND NOT a = 0 \<longleftrightarrow> (\<forall>k. bit s k \<longrightarrow> bit (a :: jtype) k)"
proof
  assume "\<forall>k. bit s k \<longrightarrow> bit a k"
  then have "\<not> bit (s AND NOT a) k" for k by (simp add: bit_and_iff bit_not_iff)
  then show "s AND NOT a = 0" by (intro bit_eqI) simp
qed (use type_subset in blast)

lemma bit_TypeInteger: "bit TypeInteger k \<longleftrightarrow> k = 3"
  using bit_exp_iff[where 'a = "16 word", of 3 k] by (auto simp: possible_bit_def TypeInteger_def)

lemma bit_known: "t AND NOT known_types = 0 \<Longrightarrow> bit t k \<Longrightarrow> 1 \<le> k \<and> k \<le> 7"
proof -
  assume "t AND NOT known_types = 0" "bit t k"
  then have "bit known_types k" by (rule type_subset)
  moreover have "known_types = mask 8 AND NOT 1" by (simp add: known_types_def mask_numeral)
  ultimately have "bit (mask 8 AND NOT 1 :: jtype) k" by simp
  then show ?thesis unfolding bit_and_iff bit_not_iff bit_mask_iff bit_1_iff by auto
qed

lemma type_neq:
  "TypeNull \<noteq> TypeInteger" "TypeBoolean \<noteq> TypeInteger" "TypeNumber \<noteq> TypeInteger" "TypeString \<noteq> TypeInteger"
  "TypeObject \<noteq> TypeInteger" "TypeArray \<noteq> TypeInteger"
  by (simp_all add: type_defs)

lemma valueMatches_bits:
  "valueMatches (valueType v) want \<longleftrightarrow> bit want (type_index v) \<or> (type_index v = 3 \<and> bit want 4)"
  by (cases v) (auto simp: valueMatches_def and.commute[of _ want] type_neq)

text \<open>A placeholder satisfies the type it stands for.\<close>

lemma Placeholder_matches:
  assumes "res_type r AND NOT known_types = 0" and "res_type r \<noteq> TypeUnknown"
  shows "valueMatches (valueType (Placeholder r)) (res_type r)"
proof -
  have "bit (res_type r) 1 \<or> bit (res_type r) 2 \<or> bit (res_type r) 3 \<or> bit (res_type r) 4 \<or> bit (res_type r) 5 \<or>
      bit (res_type r) 6 \<or> bit (res_type r) 7"
    using known_cases[OF assms(1)] assms(2) unfolding TypeUnknown_def by simp
  then show ?thesis unfolding valueMatches_bits Placeholder_def Let_def by auto
qed

text \<open>A value for each type.\<close>

lemma type_inhabited: "1 \<le> k \<Longrightarrow> k \<le> 7 \<Longrightarrow> \<exists>v. type_index v = k"
proof -
  assume "1 \<le> k" "k \<le> 7"
  then consider "k = 1" | "k = 2" | "k = 3" | "k = 4" | "k = 5" | "k = 6" | "k = 7" by linarith
  then show ?thesis
    by cases (simp_all add: exI[of _ JNull] exI[of _ "JBool True"] exI[of _ "JInt 0"] exI[of _ "JFloat []"]
        exI[of _ "JStr []"] exI[of _ "JObj []"] exI[of _ "JArr []"])
qed

lemma Compatible_iff:
  assumes known: "res_type source AND NOT known_types = 0"
    and static: "\<not> res_dynamic source" "\<not> res_dynamic target" "res_type source \<noteq> TypeUnknown" "res_type target \<noteq> TypeUnknown"
  shows "Compatible source target = (c, d) \<longleftrightarrow> \<not> d \<and>
    c = (\<forall>v. valueMatches (valueType v) (res_type source) \<longrightarrow> valueMatches (valueType v) (res_type target))"
proof -
  let ?s = "res_type source" and ?t = "res_type target"
  define acc where "acc = (if ?t AND TypeNumber \<noteq> 0 then ?t OR TypeInteger else ?t)"
  have acc: "bit acc k \<longleftrightarrow> bit ?t k \<or> (k = 3 \<and> bit ?t 4)" for k
    by (auto simp: acc_def bit_or_iff bit_TypeInteger)
  have "?s AND NOT acc = 0 \<longleftrightarrow>
      (\<forall>v. valueMatches (valueType v) ?s \<longrightarrow> valueMatches (valueType v) ?t)"
  proof
    assume "?s AND NOT acc = 0"
    then have "bit ?s k \<Longrightarrow> bit ?t k \<or> (k = 3 \<and> bit ?t 4)" for k using acc type_subset by blast
    then show "\<forall>v. valueMatches (valueType v) ?s \<longrightarrow> valueMatches (valueType v) ?t"
      unfolding valueMatches_bits by fastforce
  next
    assume all: "\<forall>v. valueMatches (valueType v) ?s \<longrightarrow> valueMatches (valueType v) ?t"
    have "bit acc k" if "bit ?s k" for k
    proof -
      have "1 \<le> k \<and> k \<le> 7" using known that by (rule bit_known)
      then obtain v where "type_index v = k" using type_inhabited by blast
      then show ?thesis using all that unfolding valueMatches_bits acc by blast
    qed
    then show "?s AND NOT acc = 0" unfolding type_subset_iff by blast
  qed
  moreover have "Compatible source target = (?s AND NOT acc = 0, False)"
    unfolding Compatible_def acc_def Let_def using static by (simp only: simp_thms if_False)
  ultimately show ?thesis by auto
qed

section \<open>The values of a validated document\<close>

text \<open>\<open>lookupMappingValue\<close> of the plugin manager reads a dotted path at run time.\<close>

fun lookup_segments :: "json \<Rightarrow> string list \<Rightarrow> (string, json) result" where
  "lookup_segments current [] = Inr current"
| "lookup_segments (JObj kvs) (segment # rest) =
     (case map_of kvs segment of None \<Rightarrow> Inl (''field '' @ segment @ '' does not exist'')
      | Some v \<Rightarrow> lookup_segments v rest)"
| "lookup_segments (JArr xs) (segment # rest) =
     (case atoi segment of None \<Rightarrow> Inl (''array index '' @ segment @ '' is invalid'')
      | Some i \<Rightarrow> if i < 0 \<or> i \<ge> int (length xs) then Inl (''array index '' @ segment @ '' is invalid'')
          else lookup_segments (xs ! nat i) rest)"
| "lookup_segments current (segment # rest) = Inl (''cannot traverse '' @ segment)"

definition lookupMappingValue :: "json \<Rightarrow> string \<Rightarrow> (string, json) result" where
  "lookupMappingValue root path =
     (if path = [] then Inl ''source path is empty'' else lookup_segments root (split_on (CHR ''.'') path))"

text \<open>No node of the schema allows objects and arrays alike.\<close>

definition unmixed :: "(nat \<Rightarrow> js_node) \<Rightarrow> bool" where
  "unmixed h \<longleftrightarrow> (\<forall>a. \<not> (bit (type_set (js_types (h a))) 6 \<and> bit (type_set (js_types (h a))) 7))"

lemma dereference_idem: "dereference h a = Some s \<Longrightarrow> dereference h s = Some s"
proof (rule dereference.raw_induct[of "\<lambda>h a s. dereference h s = Some s"])
  fix f h a s
  assume ih: "\<And>h a s. f h a = Some s \<Longrightarrow> dereference h s = Some s"
    and "(case js_ref (h a) of None \<Rightarrow> Some a | Some b \<Rightarrow> f h b) = Some s"
  then have "f h (the (js_ref (h a))) = Some s \<or> (js_ref (h a) = None \<and> a = s)" by (auto split: option.splits)
  then show "dereference h s = Some s" using ih dereference.simps[of h s] by auto
qed

lemma schemaType_deref: "dereference h a = Some s \<Longrightarrow> schemaType h (Some s) = Some (type_set (js_types (h s)))"
  by (simp add: schemaType_def dereference_idem)

lemma those_Some: "those xs = Some ys \<Longrightarrow> x \<in> set xs \<Longrightarrow> \<exists>y \<in> set ys. x = Some y"
  by (induction xs arbitrary: ys) (auto split: option.splits)

lemma shape_valid:
  assumes "validateShape h (Some a) v path = Some []"
  obtains s where "dereference h a = Some s" "schemaType h (Some s) = Some (type_set (js_types (h s)))"
    "type_set (js_types (h s)) = TypeUnknown \<or> valueMatches (valueType v) (type_set (js_types (h s)))"
proof -
  obtain s where s: "dereference h a = Some s"
    using assms by (subst (asm) validateShape.simps) (auto simp: bind_eq_Some_conv)
  then show ?thesis using assms that[OF s schemaType_deref[OF s]]
    by (subst (asm) validateShape.simps) (auto simp: schemaType_deref split: if_splits)
qed

lemma shape_field:
  assumes v: "validateShape h (Some a) (JObj kvs) path = Some []" and s: "dereference h a = Some s"
    and p: "map_of kvs k = Some w"
  shows "\<exists>c. field_schema (h s) k = Inr c \<and> (\<forall>b. c = Some b \<longrightarrow> validateShape h (Some b) w (path @ [k]) = Some [])"
proof -
  let ?f = "\<lambda>p. case field_schema (h s) (fst p) of
      Inl _ \<Rightarrow> Some [vio (path @ [fst p]) ''unknown_field'' ''field is not declared by the closed schema'']
    | Inr None \<Rightarrow> Some [] | Inr (Some c) \<Rightarrow> validateShape h (Some c) (snd p) (path @ [fst p])"
  obtain vss where vss: "those (map ?f (sort_key fst kvs)) = Some vss" "concat vss = []"
    using v by (auto simp: validateShape.simps[of h "Some a" "JObj kvs" path] s schemaType_deref[OF s] split: if_splits)
  have "(k, w) \<in> set (sort_key fst kvs)" using map_of_SomeD[OF p] by simp
  then have "?f (k, w) \<in> set (map ?f (sort_key fst kvs))" unfolding set_map by (rule imageI)
  then obtain y where "y \<in> set vss" "?f (k, w) = Some y" using those_Some[OF vss(1)] by blast
  then have f: "?f (k, w) = Some []" using vss(2) by simp
  show ?thesis
  proof (cases "field_schema (h s) k")
    case (Inl u)
    then show ?thesis using f by (simp add: vio_def)
  next
    case (Inr c)
    then show ?thesis using f by (cases c) auto
  qed
qed

lemma shape_item:
  assumes v: "validateShape h (Some a) (JArr xs) path = Some []" and s: "dereference h a = Some s"
    and i: "item_schema (h s) = Some c" "k < length xs"
  shows "validateShape h (Some c) (xs ! k) (path @ [itoa k]) = Some []"
proof -
  let ?f = "\<lambda>p. validateShape h (Some c) (snd p) (path @ [itoa (fst p)])"
  obtain vss where vss: "those (map ?f (enumerate 0 xs)) = Some vss" "concat vss = []"
    using v by (auto simp: validateShape.simps[of h "Some a" "JArr xs" path] s i(1) schemaType_deref[OF s] split: if_splits)
  have "(k, xs ! k) \<in> set (enumerate 0 xs)" using i(2) by (simp add: in_set_enumerate_eq)
  then have "?f (k, xs ! k) \<in> set (map ?f (enumerate 0 xs))" unfolding set_map by (rule imageI)
  then obtain y where "y \<in> set vss" "?f (k, xs ! k) = Some y" using those_Some[OF vss(1)] by blast
  then show ?thesis using vss(2) by simp
qed

lemma resolve_sound:
  "unmixed h \<Longrightarrow> validateShape h (Some a) v path = Some [] \<Longrightarrow> lookup_segments v parts = Inr w \<Longrightarrow>
    \<exists>r. resolve h (Some a) parts d = Some r \<and> res_exists r \<and>
      (res_dynamic r \<or> valueMatches (valueType w) (res_type r))"
proof (induction parts arbitrary: a v path d)
  case Nil
  obtain s where s: "dereference h a = Some s" "schemaType h (Some s) = Some (type_set (js_types (h s)))"
    "type_set (js_types (h s)) = TypeUnknown \<or> valueMatches (valueType v) (type_set (js_types (h s)))"
    using Nil.prems(2) by (rule shape_valid)
  then show ?case using Nil.prems(3) by auto
next
  case (Cons part rest)
  obtain s where s: "dereference h a = Some s" "schemaType h (Some s) = Some (type_set (js_types (h s)))"
    "type_set (js_types (h s)) = TypeUnknown \<or> valueMatches (valueType v) (type_set (js_types (h s)))"
    using Cons.prems(2) by (rule shape_valid)
  let ?t = "type_set (js_types (h s))"
  show ?case
  proof (cases "?t = TypeUnknown")
    case True
    then show ?thesis using s by (simp add: open_resolution_def)
  next
    case known: False
    show ?thesis
    proof (cases v)
      case (JObj kvs)
      then obtain x where x: "map_of kvs part = Some x" "lookup_segments x rest = Inr w"
        using Cons.prems(3) by (auto split: option.splits)
      have obj: "bit ?t 6" using s(3) known JObj valueMatches_bits[of v ?t] by simp
      obtain c where c: "field_schema (h s) part = Inr c"
        "\<forall>b. c = Some b \<longrightarrow> validateShape h (Some b) x (path @ [part]) = Some []"
        using shape_field[OF Cons.prems(2)[unfolded JObj] s(1) x(1)] by blast
      show ?thesis
      proof (cases "map_of (js_properties (h s)) part")
        case (Some p)
        then have "c = Some p" using c(1) by (simp add: field_schema_def)
        then have "validateShape h (Some p) x (path @ [part]) = Some []" using c(2) by simp
        from Cons.IH[OF Cons.prems(1) this x(2), of d] show ?thesis using Some s known obj by simp
      next
        case None
        show ?thesis
        proof (cases "js_additionalProperties (h s)")
          case (AddSchema p)
          then have "c = Some p" using c(1) None by (simp add: field_schema_def)
          then have "validateShape h (Some p) x (path @ [part]) = Some []" using c(2) by simp
          from Cons.IH[OF Cons.prems(1) this x(2), of True] show ?thesis using AddSchema None s known obj by simp
        qed (use None c s known obj in \<open>auto simp: field_schema_def open_resolution_def split: if_splits\<close>)
      qed
    next
      case (JArr xs)
      then obtain i where i: "atoi part = Some i" "0 \<le> i" "i < int (length xs)" "lookup_segments (xs ! nat i) rest = Inr w"
        using Cons.prems(3) by (auto split: option.splits if_splits)
      have arr: "bit ?t 7" using s(3) known JArr valueMatches_bits[of v ?t] by simp
      then have obj: "\<not> bit ?t 6" using Cons.prems(1) by (auto simp: unmixed_def)
      show ?thesis
      proof (cases "item_schema (h s)")
        case None
        then show ?thesis using s known arr obj i(1) by (simp add: open_resolution_def)
      next
        case (Some c)
        have "validateShape h (Some c) (xs ! nat i) (path @ [itoa (nat i)]) = Some []"
          by (rule shape_item[OF Cons.prems(2)[unfolded JArr] s(1) Some]) (use i in simp)
        from Cons.IH[OF Cons.prems(1) this i(4), of d] show ?thesis using Some s known arr obj i(1) by simp
      qed
    qed (use Cons.prems(3) in auto)
  qed
qed

section \<open>Writing through a pointer\<close>

text \<open>\<open>setJSONPointer\<close> of the plugin manager, the run-time counterpart of \<open>SetPointer\<close>.\<close>

fun setPointerValue :: "json \<Rightarrow> string list \<Rightarrow> json \<Rightarrow> (string, json) result" where
  "setPointerValue current [] v = Inr v"
| "setPointerValue (JObj kvs) (token # rest) v =
     (case map_of kvs token of
        None \<Rightarrow> if rest = [] then Inr (JObj (map_put token v kvs))
          else bind_res (setPointerValue (JObj []) rest v) (\<lambda>u. Inr (JObj (map_put token u kvs)))
      | Some child \<Rightarrow> bind_res (setPointerValue child rest v) (\<lambda>u. Inr (JObj (map_put token u kvs))))"
| "setPointerValue (JArr xs) (token # rest) v =
     (case atoi token of
        None \<Rightarrow> Inl (''array index '' @ token @ '' is invalid'')
      | Some i \<Rightarrow> if i < 0 \<or> i \<ge> int (length xs) then Inl (''array index '' @ token @ '' is invalid'')
          else bind_res (setPointerValue (xs ! nat i) rest v) (\<lambda>u. Inr (JArr (xs[nat i := u]))))"
| "setPointerValue current (token # rest) v = Inl (''cannot traverse target segment '' @ token)"

definition setJSONPointer :: "(string \<times> json) list \<Rightarrow> string \<Rightarrow> json \<Rightarrow> (string, (string \<times> json) list) result" where
  "setJSONPointer root pointer v =
     (if pointer = [] \<or> \<not> has_prefix pointer ''/'' then Inl ''target must be a non-empty JSON pointer''
      else bind_res (setPointerValue (JObj root) (map unescape_pointer (split_on (CHR ''/'') (trim_prefix pointer ''/''))) v)
        (\<lambda>r. Inr (case r of JObj kvs \<Rightarrow> kvs | _ \<Rightarrow> root)))"

text \<open>The path goes through a field whose value is null.\<close>

fun through_null :: "string list \<Rightarrow> json \<Rightarrow> bool" where
  "through_null (part # rest) (JObj kvs) =
     (rest \<noteq> [] \<and> (case map_of kvs part of None \<Rightarrow> False | Some n \<Rightarrow> n = JNull \<or> through_null rest n))"
| "through_null (part # rest) (JArr xs) =
     (rest \<noteq> [] \<and> (case atoi part of None \<Rightarrow> False
        | Some i \<Rightarrow> 0 \<le> i \<and> i < int (length xs) \<and> through_null rest (xs ! nat i)))"
| "through_null _ _ = False"

lemma setPointerValue_imp_set_parts:
  "ps \<noteq> [] \<Longrightarrow> setPointerValue cur ps v = Inr r \<Longrightarrow> set_parts ps v cur = Inr r"
proof (induction cur ps v arbitrary: r rule: setPointerValue.induct)
  case (2 kvs token rest v)
  show ?case
  proof (cases "rest = []")
    case True
    then show ?thesis using "2.prems"(2) by (auto split: option.splits)
  next
    case False
    show ?thesis
    proof (cases "map_of kvs token")
      case None
      then show ?thesis using 2 False by (auto split: option.splits)
    next
      case (Some c)
      then obtain u where u: "setPointerValue c rest v = Inr u" "r = JObj (map_put token u kvs)" using "2.prems"(2) by auto
      have "c \<noteq> JNull" using u(1) False by (cases rest) auto
      then show ?thesis using "2.IH"(2)[OF Some False u(1)] Some False u(2) by (auto split: json.splits)
    qed
  qed
next
  case (3 xs token rest v)
  show ?case
  proof (cases "rest = []")
    case True
    then show ?thesis using "3.prems"(2) by (auto split: option.splits if_splits)
  next
    case False
    then show ?thesis using 3 by (auto split: option.splits if_splits)
  qed
qed auto

lemma set_parts_imp_setPointerValue:
  "\<not> through_null ps cur \<Longrightarrow> ps \<noteq> [] \<Longrightarrow> set_parts ps v cur = Inr r \<Longrightarrow> setPointerValue cur ps v = Inr r"
proof (induction ps v cur arbitrary: r rule: set_parts.induct)
  case (2 part rest v kvs)
  show ?case
  proof (cases "rest = []")
    case True
    then show ?thesis using "2.prems"(3) by (auto split: option.splits)
  next
    case False
    define next' where "next' = (case map_of kvs part of None \<Rightarrow> JObj [] | Some JNull \<Rightarrow> JObj [] | Some n \<Rightarrow> n)"
    obtain u where u: "set_parts rest v next' = Inr u" "r = JObj (map_put part u kvs)"
      using "2.prems"(3) False unfolding next'_def by auto
    have n: "next' = (case map_of kvs part of None \<Rightarrow> JObj [] | Some n \<Rightarrow> n)" "\<not> through_null rest next'"
      using "2.prems"(1) False unfolding next'_def
      by (cases rest; auto split: option.splits json.splits)+
    have "setPointerValue next' rest v = Inr u" using "2.IH"[OF False next'_def n(2) False u(1)] .
    then show ?thesis using n(1) False u(2) by (auto split: option.splits)
  qed
next
  case (3 part rest v xs)
  show ?case
  proof (cases "rest = []")
    case True
    then show ?thesis using "3.prems"(3) by (auto split: option.splits if_splits)
  next
    case False
    then show ?thesis using 3 by (auto split: option.splits if_splits)
  qed
qed auto

text \<open>What was written is read back, along the same path.\<close>

lemma set_parts_get:
  "ps \<noteq> [] \<Longrightarrow> set_parts ps v cur = Inr r \<Longrightarrow> lookup_segments r ps = Inr v"
proof (induction ps v cur arbitrary: r rule: set_parts.induct)
  case (2 part rest v kvs)
  then show ?case by (cases "rest = []") (auto simp: Let_def)
next
  case (3 part rest v xs)
  then show ?case by (cases "rest = []") (auto split: option.splits if_splits)
qed auto

lemma set_parts_object: "set_parts ps v (JObj kvs) = Inr r \<Longrightarrow> \<exists>kvs'. r = JObj kvs'"
  by (cases ps) (auto split: if_splits simp: Let_def)

lemma setPointerValue_object: "ps \<noteq> [] \<Longrightarrow> setPointerValue (JObj kvs) ps v = Inr r \<Longrightarrow> \<exists>kvs'. r = JObj kvs'"
  by (cases ps) (auto split: if_splits option.splits)

lemma split_on_not_Nil [simp]: "split_on c s \<noteq> []"
  by (induction s) (auto split: list.splits)

lemma pointer_parts_not_Nil: "pointer_parts pointer = Some ps \<Longrightarrow> ps \<noteq> []"
  by (auto simp: pointer_parts_def split: if_splits)

lemma SetPointer_iff:
  "pointer_parts pointer = Some ps \<Longrightarrow> SetPointer root pointer v = Inr r \<longleftrightarrow> set_parts ps v (JObj root) = Inr (JObj r)"
  using set_parts_object[of ps v root] by (fastforce simp: SetPointer_def)

lemma setJSONPointer_iff:
  "pointer_parts pointer = Some ps \<Longrightarrow>
    setJSONPointer root pointer v = Inr r \<longleftrightarrow> setPointerValue (JObj root) ps v = Inr (JObj r)"
  using setPointerValue_object[of ps root v] pointer_parts_not_Nil[of pointer ps]
  by (fastforce simp: setJSONPointer_def pointer_parts_def has_prefix_def split: if_splits)

lemma resolve_known:
  "resolve h a parts d = Some r \<Longrightarrow> res_type r AND NOT known_types = 0"
proof (induction h a parts d rule: resolve.induct)
  case (2 h a d)
  then show ?case by (auto simp: bind_eq_Some_conv dest: schemaType_known)
next
  case (3 h a part rest d)
  obtain s t where s: "dereference h a = Some s" "schemaType h (Some s) = Some t"
    using "3.prems" by (auto simp: bind_eq_Some_conv)
  show ?case using "3.prems" "3.IH"[OF s] s
    by (auto simp: open_resolution_def no_resolution_def TypeUnknown_def split: if_splits option.splits js_additional.splits)
qed (auto simp: open_resolution_def TypeUnknown_def)

lemma Validate_shape:
  assumes "Validate lib s v = Some []"
  shows "validateShape (js_at s) (Some (js_root s)) v [] = Some []"
proof -
  obtain vs where vs: "validateShape (js_at s) (Some (js_root s)) v [] = Some vs"
    using assms by (auto simp: Validate_def bind_eq_Some_conv)
  have "sort_key k xs = [] \<Longrightarrow> xs = []" for k :: "violation \<Rightarrow> string \<times> string" and xs by (metis length_0_conv length_sort)
  then have "vs = []" using assms vs by (fastforce simp: Validate_def Let_def split: if_splits)
  then show ?thesis using vs by simp
qed

lemma dereference_cycle: "js_ref (h a) = Some a \<Longrightarrow> dereference h a = None"
proof (rule ccontr)
  assume c: "js_ref (h a) = Some a" "dereference h a \<noteq> None"
  then obtain s where "dereference h a = Some s" by auto
  then have "js_ref (h a) \<noteq> Some a"
  proof (rule dereference.raw_induct[of "\<lambda>h a s. js_ref (h a) \<noteq> Some a", rotated])
    fix f h a s
    assume "\<And>h a s. f h a = Some s \<Longrightarrow> js_ref (h a) \<noteq> Some a"
      and "(case js_ref (h a) of None \<Rightarrow> Some a | Some b \<Rightarrow> f h b) = Some s"
    then show "js_ref (h a) \<noteq> Some a" by (auto split: option.splits)
  qed
  with c show False by simp
qed

lemma dereference_ends:
  fixes rank :: "nat \<Rightarrow> nat"
  assumes "\<And>a b. js_ref (h a) = Some b \<Longrightarrow> rank b < rank a"
  shows "\<exists>s. dereference h a = Some s \<and> js_ref (h s) = None"
proof (induction "rank a" arbitrary: a rule: less_induct)
  case less
  show ?case
  proof (cases "js_ref (h a)")
    case None
    then show ?thesis by (simp add: dereference.simps[of h a])
  next
    case (Some b)
    then show ?thesis using less[OF assms[OF Some]] by (simp add: dereference.simps[of h a])
  qed
qed

section \<open>The properties\<close>

text \<open>A schema that the compiler accepts refers to nothing outside itself: at every position where
  \<open>rejectExternalReferences\<close> looks for a subschema, a \<open>$ref\<close> or \<open>$dynamicRef\<close> starts with \<open>#\<close>.\<close>

theorem accepted_references_are_local:
  assumes "compile_schema lib raw = Inr s" and "(raw, c) \<in> subschema_rel\<^sup>*"
    and "k \<in> {''$ref'', ''$dynamicRef''}" and "json_get k c = Some r"
  shows "\<exists>u. r = JStr (CHR ''#'' # u)"
proof -
  have "keywords_local c" using assms(1,2) rejectExternalReferences_iff[of raw] by (simp add: compile_schema_def)
  then have "local_reference r" using assms(3,4) by (auto simp: keywords_local_def)
  then show ?thesis
    by (auto simp: local_reference_def has_prefix_def take_Suc_conv_app_nth neq_Nil_conv split: json.splits)
      (metis list.collapse list.sel(1) take_Suc take_eq_Nil2)
qed

text \<open>A library and a document for the concrete instances: an object with one string field.\<close>

definition leaf_node :: "string list \<Rightarrow> js_node" where
  "leaf_node types = \<lparr>js_ref = None, js_types = types, js_required = [], js_properties = [],
     js_additionalProperties = AddNil, js_items2020 = None, js_items = None\<rparr>"

definition sample_schema :: js_schema where
  "sample_schema = \<lparr>js_at = (\<lambda>a. if a = 0 then (leaf_node [''object''])\<lparr>js_properties := [(''title'', 1)],
       js_required := [''title''], js_additionalProperties := AddBool False\<rparr> else leaf_node [''string'']),
     js_root = 0\<rparr>"

definition sample_lib :: js_lib where
  "sample_lib = \<lparr>js_compile = (\<lambda>_. Inr sample_schema), js_validate = (\<lambda>_ _. None)\<rparr>"

definition sample_raw :: json where
  "sample_raw = JObj [(''type'', JStr ''object''), (''properties'', JObj [(''title'', JObj [(''$ref'', JStr ''#/$defs/t'')])])]"

theorem accepted_references_are_local_witness:
  "\<exists>u. JStr ''#/$defs/t'' = JStr (CHR ''#'' # u)"
proof (rule accepted_references_are_local[where lib = sample_lib and raw = sample_raw and s = sample_schema
      and c = "JObj [(''$ref'', JStr ''#/$defs/t'')]" and k = "''$ref''"])
  show "compile_schema sample_lib sample_raw = Inr sample_schema"
    by (simp add: compile_schema_def sample_lib_def sample_raw_def rejectExternalReferences.simps(1) reject_here_def
        subschemas_def schema_keywords_def list_keywords_def map_keywords_def local_reference_def has_prefix_def)
  have "(sample_raw, JObj [(''$ref'', JStr ''#/$defs/t'')]) \<in> subschema_rel"
    by (simp add: subschema_rel_def sample_raw_def subschemas_def schema_keywords_def list_keywords_def map_keywords_def)
  then show "(sample_raw, JObj [(''$ref'', JStr ''#/$defs/t'')]) \<in> subschema_rel\<^sup>*" by simp
qed (simp_all add: json_get_def)


lemma sample_deref: "dereference (js_at sample_schema) a = Some a"
  by (subst dereference.simps) (simp add: sample_schema_def leaf_node_def)

lemma sample_types:
  "schemaType (js_at sample_schema) (Some 0) = Some TypeObject" "schemaType (js_at sample_schema) (Some (Suc 0)) = Some TypeString"
  by (simp_all add: schemaType_def sample_deref)
    (simp_all add: sample_schema_def leaf_node_def type_set_def type_bit_def)

lemma sample_nodes:
  "js_at sample_schema 0 = (leaf_node [''object''])\<lparr>js_properties := [(''title'', 1)],
     js_required := [''title''], js_additionalProperties := AddBool False\<rparr>" "js_root sample_schema = 0"
  by (simp_all add: sample_schema_def)

lemma sample_title:
  "ResolveDot sample_schema [''title''] =
    Some \<lparr>res_schema = Some 1, res_type = TypeString, res_exists = True, res_dynamic = False\<rparr>"
proof -
  have "TypeObject AND TypeObject \<noteq> 0" "TypeObject \<noteq> TypeUnknown" "TypeString \<noteq> TypeUnknown" by (simp_all add: type_defs)
  then show ?thesis by (simp add: ResolveDot_def sample_nodes sample_deref sample_types)
qed


text \<open>The compile-time and the run-time write of a mapping target agree: on every pointer the compiler
  accepts, unless the path goes through a field that holds null, \<open>SetPointer\<close> and \<open>setJSONPointer\<close> succeed
  on the same configurations with the same result.\<close>

theorem pointer_writes_agree:
  assumes "pointer_parts pointer = Some ps" and "\<not> through_null ps (JObj root)"
  shows "SetPointer root pointer v = Inr r \<longleftrightarrow> setJSONPointer root pointer v = Inr r"
  unfolding SetPointer_iff[OF assms(1)] setJSONPointer_iff[OF assms(1)]
  using set_parts_imp_setPointerValue[OF assms(2)] setPointerValue_imp_set_parts pointer_parts_not_Nil[OF assms(1)] by blast

theorem pointer_writes_agree_witness:
  "SetPointer [(''a'', JArr [JInt 1])] ''/a/0'' (JInt 2) = Inr [(''a'', JArr [JInt 2])] \<longleftrightarrow>
   setJSONPointer [(''a'', JArr [JInt 1])] ''/a/0'' (JInt 2) = Inr [(''a'', JArr [JInt 2])]"
  by (rule pointer_writes_agree[of _ "[''a'', ''0'']"])
    (simp_all add: pointer_parts_def has_prefix_def trim_prefix_def unescape_pointer_def atoi_def is_digit_def dec_val_def digit_val_def)

text \<open>A path through a null field is where they differ: the compiler replaces the null by an object and accepts
  the mapping, the run-time write refuses to go through it.\<close>

theorem null_target_compiles_but_fails:
  "SetPointer [(''a'', JNull)] ''/a/b'' v = Inr [(''a'', JObj [(''b'', v)])] \<and>
   setJSONPointer [(''a'', JNull)] ''/a/b'' v = Inl ''cannot traverse target segment b''"
  by (simp add: SetPointer_def setJSONPointer_def pointer_parts_def has_prefix_def trim_prefix_def unescape_pointer_def map_put_def)

text \<open>What \<open>SetPointer\<close> writes is what the path reads back.\<close>

theorem pointer_roundtrip:
  assumes "SetPointer root pointer v = Inr r"
  shows "\<exists>ps. pointer_parts pointer = Some ps \<and> lookup_segments (JObj r) ps = Inr v"
proof -
  obtain ps where ps: "pointer_parts pointer = Some ps" using assms by (auto simp: SetPointer_def split: option.splits)
  then have "set_parts ps v (JObj root) = Inr (JObj r)" using assms SetPointer_iff by blast
  then show ?thesis using set_parts_get[OF pointer_parts_not_Nil[OF ps]] ps by blast
qed

theorem pointer_roundtrip_witness:
  "\<exists>ps. pointer_parts ''/a/b'' = Some ps \<and> lookup_segments (JObj [(''a'', JObj [(''b'', JInt 3)])]) ps = Inr (JInt 3)"
  by (rule pointer_roundtrip[of "[]"])
    (simp add: SetPointer_def pointer_parts_def has_prefix_def trim_prefix_def unescape_pointer_def map_put_def)

text \<open>Following references ends exactly when the chain of \<open>$ref\<close> pointers does: it returns a node without a
  reference when the chain is well-founded, and on a schema that refers to itself it never returns.\<close>

theorem dereference_returns_or_loops:
  "((\<exists>rank :: nat \<Rightarrow> nat. \<forall>a b. js_ref (h a) = Some b \<longrightarrow> rank b < rank a) \<longrightarrow>
      (\<exists>s. dereference h a = Some s \<and> js_ref (h s) = None)) \<and>
   (js_ref (h a) = Some a \<longrightarrow> dereference h a = None)"
  using dereference_ends[of h _ a] dereference_cycle[of h a] by blast

theorem dereference_returns_or_loops_witness:
  "(\<exists>s. dereference (js_at sample_schema) 0 = Some s \<and> js_ref (js_at sample_schema s) = None) \<and>
   dereference (\<lambda>_. (leaf_node [])\<lparr>js_ref := Some 0\<rparr>) 0 = None"
  using dereference_returns_or_loops[of "js_at sample_schema" 0]
    dereference_returns_or_loops[of "\<lambda>_. (leaf_node [])\<lparr>js_ref := Some 0\<rparr>" 0]
  by (simp add: sample_schema_def leaf_node_def)

end
