(* ===== verification/Flow_Compiler.thy ===== *)
theory Flow_Compiler
  imports Flow_Plan Graph Action_Contract
begin

unbundle bit_operations_syntax

text \<open>
  \<open>internal/flow/compiler.go\<close>: the Flow compiler. \<open>Compile\<close> checks a Flow and returns the execution
  plan with all its diagnostics; the plan has a hash exactly when no diagnostic is an error.

  The compiler calls three things outside the repository's control, gathered in \<open>compile_env\<close>: the schema
  library (\<open>Action_Contract\<close>), the CEL library, of which the type checker, the checked expression and the
  evaluation are used, and SHA-256 of the encoded plan. The capability resolver is an interface of the
  package that another component may provide, with or without the two optional interfaces. The result
  \<open>None\<close> means that the compiler does not return: a chain of \<open>$ref\<close> pointers of a compiled schema is
  cyclic. The messages quote a name without escaping it. A Go map is ranged over in the order of its
  association list.
\<close>

section \<open>The CEL library and the capabilities\<close>

datatype cel_const = CBool | CInt64 | CUint64 | CDouble | CString | CBytes | CNull | COtherConst

text \<open>The last field of \<open>CSelect\<close> is \<open>test_only\<close>: the macro \<open>has(e.f)\<close> is the selection of \<open>f\<close> with the flag.\<close>

datatype cel_expr =
  CIdent string
| CSelect cel_expr string bool
| CConst cel_const
| CCall string "cel_expr option" "cel_expr list"
| COtherExpr

datatype cel_type = CelBool | CelDyn | CelOther

datatype cel_value = VBool bool | VOther

record cel_lib =
  cel_compile :: "string \<Rightarrow> (go_error, cel_type \<times> cel_expr option) result"
  cel_program :: "string \<Rightarrow> (go_error, unit) result"
  cel_eval :: "string \<Rightarrow> json \<Rightarrow> json \<Rightarrow> json \<Rightarrow> (go_error, cel_value) result"

type_synonym config = "(string \<times> json) list"

record capability =
  cap_hasAction :: "string \<Rightarrow> bool"
  cap_bind :: "(string \<Rightarrow> string \<Rightarrow> config \<Rightarrow> action_binding \<times> diagnostic list) option"
  cap_validate :: "(string \<Rightarrow> config \<Rightarrow> diagnostic list) option"

record compile_env =
  ce_js :: js_lib
  ce_cel :: cel_lib
  ce_capabilities :: "capability option"
  ce_hash :: "execution_plan \<Rightarrow> string"

definition quoted :: "string \<Rightarrow> string" where
  "quoted s = ''\"'' @ s @ ''\"''"

definition index_path :: "string \<Rightarrow> nat \<Rightarrow> string" where
  "index_path p i = p @ ''['' @ itoa i @ '']''"

section \<open>Evaluating edges and checking the input\<close>

fun EvaluateEdges :: "cel_lib \<Rightarrow> plan_edge list \<Rightarrow> json \<Rightarrow> json \<Rightarrow> json \<Rightarrow> (go_error, bool list) result" where
  "EvaluateEdges lib [] input res nodes = Inr []"
| "EvaluateEdges lib (e # es) input res nodes =
     bind_res
       (if pe_condition e = [] then Inr True
        else bind_res (map_err (\<lambda>m. ''compile edge '' @ pe_from e @ '' -> '' @ pe_to e @ '': '' @ m)
                 (cel_compile lib (pe_condition e))) (\<lambda>_.
             bind_res (cel_program lib (pe_condition e)) (\<lambda>_.
             bind_res (map_err (\<lambda>m. ''evaluate edge '' @ pe_from e @ '' -> '' @ pe_to e @ '': '' @ m)
                 (cel_eval lib (pe_condition e) input res nodes)) (\<lambda>v.
             case v of VBool b \<Rightarrow> Inr b
             | VOther \<Rightarrow> Inl (''edge '' @ pe_from e @ '' -> '' @ pe_to e @ '' did not evaluate to bool'')))))
       (\<lambda>b. bind_res (EvaluateEdges lib es input res nodes) (\<lambda>bs. Inr (b # bs)))"

definition violation_path :: "string \<Rightarrow> string list \<Rightarrow> string" where
  "violation_path root p = (if p = [] then root else root @ ''.'' @ join_with ''.'' p)"

definition ValidateRunInput :: "js_lib \<Rightarrow> execution_plan \<Rightarrow> json option \<Rightarrow> (go_error, unit) result option" where
  "ValidateRunInput lib plan raw =
     (case plan_inputSchema plan of None \<Rightarrow> Some (Inr ()) | Some schemaJSON \<Rightarrow>
       (let v = (case raw of None \<Rightarrow> JObj [] | Some v \<Rightarrow> v)
        in (case compile_schema lib schemaJSON of
              Inl _ \<Rightarrow> Some (Inl ''pinned run input schema is invalid'')
            | Inr schema \<Rightarrow> map_option (\<lambda>violations. case violations of [] \<Rightarrow> Inr ()
                | w # ws \<Rightarrow> Inl (violation_path ''input'' (vio_path w) @ '' violates the Flow input schema ('' @ vio_code w @ '')''))
                (Validate lib schema v))))"

section \<open>Contracts of the core actions\<close>

definition no_contract :: action_contract where
  "no_contract = \<lparr>ac_digest = [], ac_configSchema = None, ac_inputSchema = None, ac_outputSchema = None\<rparr>"

definition open_object_schema :: json where
  "open_object_schema = JObj [(''type'', JStr ''object''), (''additionalProperties'', JBool True)]"

definition empty_object_schema :: json where
  "empty_object_schema = JObj [(''type'', JStr ''object''), (''properties'', JObj []), (''additionalProperties'', JBool False)]"

definition type_schema :: "string \<Rightarrow> json" where
  "type_schema t = JObj [(''type'', JStr t)]"

definition approval_output_schema :: json where
  "approval_output_schema = JObj [(''type'', JStr ''object''),
     (''properties'', JObj [(''approved'', type_schema ''boolean''), (''state'', type_schema ''string''), (''reason'', type_schema ''string'')]),
     (''required'', JArr [JStr ''approved'', JStr ''state'', JStr ''reason'']), (''additionalProperties'', JBool False)]"

fun schemaFromValue :: "json \<Rightarrow> json" where
  "schemaFromValue JNull = type_schema ''null''"
| "schemaFromValue (JBool _) = type_schema ''boolean''"
| "schemaFromValue (JStr _) = type_schema ''string''"
| "schemaFromValue (JInt _) = type_schema ''integer''"
| "schemaFromValue (JFloat _) = type_schema ''number''"
| "schemaFromValue (JObj kvs) = JObj [(''type'', JStr ''object''),
     (''properties'', JObj (map (\<lambda>p. (fst p, schemaFromValue (snd p))) kvs)),
     (''required'', JArr (map JStr (sort (map fst kvs)))), (''additionalProperties'', JBool False)]"
| "schemaFromValue (JArr xs) = JObj [(''type'', JStr ''array''),
     (''items'', (case xs of [] \<Rightarrow> JObj [] | x # _ \<Rightarrow> schemaFromValue x))]"

definition coreActionContract :: "flow_node \<Rightarrow> action_contract" where
  "coreActionContract node =
     (if node_uses node = ''core.approval'' then
        \<lparr>ac_digest = ''core.approval/v1'', ac_configSchema = Some empty_object_schema,
         ac_inputSchema = Some open_object_schema, ac_outputSchema = Some approval_output_schema\<rparr>
      else if node_uses node = ''core.event'' then
        \<lparr>ac_digest = ''core.event/v1'', ac_configSchema = Some empty_object_schema,
         ac_inputSchema = Some open_object_schema, ac_outputSchema = Some open_object_schema\<rparr>
      else if node_uses node = ''core.noop'' then
        no_contract\<lparr>ac_digest := ''core.noop/v1'',
          ac_outputSchema := Some (schemaFromValue (case map_of (node_with node) ''result'' of
             None \<Rightarrow> JObj [(''ok'', JBool True)] | Some configured \<Rightarrow> configured))\<rparr>
      else no_contract)"

definition outputSchema :: "js_lib \<Rightarrow> action_contract \<Rightarrow> js_schema option" where
  "outputSchema lib contract = (case ac_outputSchema contract of None \<Rightarrow> None
     | Some raw \<Rightarrow> (case compile_schema lib raw of Inl _ \<Rightarrow> None | Inr s \<Rightarrow> Some s))"

section \<open>Types of conditions\<close>

fun celSelectPath :: "cel_expr \<Rightarrow> (string \<times> string list) option" where
  "celSelectPath (CIdent name) = Some (name, [])"
| "celSelectPath (CSelect operand field _) = map_option (\<lambda>(root, parts). (root, parts @ [field])) (celSelectPath operand)"
| "celSelectPath _ = None"

type_synonym inferred = "jtype \<times> bool \<times> bool"

definition contract_of :: "string \<Rightarrow> (string \<times> action_contract) list \<Rightarrow> action_contract" where
  "contract_of k contracts = (case map_of contracts k of None \<Rightarrow> no_contract | Some c \<Rightarrow> c)"

definition typed_path :: "js_schema option \<Rightarrow> string list \<Rightarrow> inferred option" where
  "typed_path schema parts = (case schema of None \<Rightarrow> Some (TypeUnknown, True, True)
     | Some s \<Rightarrow> map_option (\<lambda>r. (res_type r, res_exists r, res_dynamic r)) (ResolveDot s parts))"

definition infer_path :: "js_lib \<Rightarrow> string \<Rightarrow> js_schema \<Rightarrow> (string \<times> action_contract) list \<Rightarrow> string \<Rightarrow> string list \<Rightarrow> inferred option" where
  "infer_path lib resultNode inputSchema contracts root parts =
     (if root = ''input'' then typed_path (Some inputSchema) parts
      else if root = ''result'' then typed_path (outputSchema lib (contract_of resultNode contracts)) parts
      else if root = ''nodes'' then
        (case parts of [] \<Rightarrow> Some (TypeObject, True, True)
         | n # ps \<Rightarrow> typed_path (outputSchema lib (contract_of n contracts)) ps)
      else Some (TypeUnknown, True, True))"

text \<open>The loop over the arguments of a comparison or connective; it stops at the first that does not exist.\<close>

fun infer_all :: "inferred option list \<Rightarrow> bool \<Rightarrow> inferred option" where
  "infer_all [] dynamic = Some (TypeBoolean, True, dynamic)"
| "infer_all (None # rs) dynamic = None"
| "infer_all (Some (t, ex, d) # rs) dynamic =
     (if \<not> ex then Some (TypeBoolean, False, False) else infer_all rs (dynamic \<or> d))"

fun const_type :: "cel_const \<Rightarrow> inferred" where
  "const_type CBool = (TypeBoolean, True, False)"
| "const_type CInt64 = (TypeInteger, True, False)"
| "const_type CUint64 = (TypeInteger, True, False)"
| "const_type CDouble = (TypeNumber, True, False)"
| "const_type CString = (TypeString, True, False)"
| "const_type CBytes = (TypeString, True, False)"
| "const_type CNull = (TypeNull, True, False)"
| "const_type COtherConst = (TypeUnknown, True, True)"

definition boolean_functions :: "string list" where
  "boolean_functions = [''_==_'', ''_!=_'', ''_<_'', ''_<=_'', ''_>_'', ''_>=_'', ''_&&_'', ''_||_'', ''!_'', ''@in'', ''_in_'']"

definition infer_ternary :: "inferred option list \<Rightarrow> inferred option" where
  "infer_ternary rs = (case rs of
       [_, l, r] \<Rightarrow> Option.bind l (\<lambda>(lt, le, ld). Option.bind r (\<lambda>(rt, re, rd). Some (lt OR rt, le \<and> re, ld \<or> rd)))
     | _ \<Rightarrow> Some (TypeUnknown, True, True))"

fun inferCELType :: "js_lib \<Rightarrow> string \<Rightarrow> js_schema \<Rightarrow> (string \<times> action_contract) list \<Rightarrow> cel_expr \<Rightarrow> inferred option" where
  "inferCELType lib resultNode inputSchema contracts (CIdent name) = infer_path lib resultNode inputSchema contracts name []"
| "inferCELType lib resultNode inputSchema contracts (CSelect operand field t) =
     (case celSelectPath (CSelect operand field t) of
        Some (root, parts) \<Rightarrow> infer_path lib resultNode inputSchema contracts root parts
      | None \<Rightarrow> Some (TypeUnknown, True, True))"
| "inferCELType lib resultNode inputSchema contracts (CConst c) = Some (const_type c)"
| "inferCELType lib resultNode inputSchema contracts (CCall f target args) =
     (if f \<in> set boolean_functions then
        infer_all (map (inferCELType lib resultNode inputSchema contracts) args @
          (case target of None \<Rightarrow> [] | Some t \<Rightarrow> [inferCELType lib resultNode inputSchema contracts t])) False
      else if f = ''_?_:_'' then infer_ternary (map (inferCELType lib resultNode inputSchema contracts) args)
      else Some (TypeUnknown, True, True))"
| "inferCELType lib resultNode inputSchema contracts COtherExpr = Some (TypeUnknown, True, True)"

definition typedCELDiagnostics :: "js_lib \<Rightarrow> string \<Rightarrow> cel_expr \<Rightarrow> string \<Rightarrow> js_schema \<Rightarrow> (string \<times> action_contract) list \<Rightarrow> diagnostic list option" where
  "typedCELDiagnostics lib path expression resultNode inputSchema contracts =
     map_option (\<lambda>(inferred, ex, dynamic).
       if \<not> ex then [diag path ''unknown_cel_field'' ''condition references a field that is absent from its declared schema'']
       else if inferred \<noteq> TypeUnknown \<and> inferred AND TypeBoolean = 0
         then [diag path ''cel_not_boolean'' ''condition resolves to a non-boolean schema type'']
       else if inferred = TypeUnknown \<or> dynamic
         then [warning path ''dynamic_cel'' ''condition crosses an explicitly open schema region and will be type-checked again at runtime'']
       else [])
     (inferCELType lib resultNode inputSchema contracts expression)"

section \<open>Mappings\<close>

type_synonym node_map = "(string \<times> flow_node) list"

definition str_field :: "string \<Rightarrow> config \<Rightarrow> string option" where
  "str_field k m = (case map_of m k of Some (JStr s) \<Rightarrow> Some s | _ \<Rightarrow> None)"

definition source_ok :: "string option \<Rightarrow> bool" where
  "source_ok from = (case from of None \<Rightarrow> False
     | Some s \<Rightarrow> s \<noteq> [] \<and> (s = ''input'' \<or> has_prefix s ''input.'' \<or> has_prefix s ''nodes.''))"

definition target_ok :: "string option \<Rightarrow> bool" where
  "target_ok to = (case to of None \<Rightarrow> False | Some s \<Rightarrow> has_prefix s ''/'' \<and> s \<noteq> ''/'')"

definition mappingSource :: "js_lib \<Rightarrow> string \<Rightarrow> string option \<Rightarrow> string \<Rightarrow> node_map \<Rightarrow> string adjacency \<Rightarrow> js_schema
    \<Rightarrow> (string \<times> action_contract) list \<Rightarrow> (resolution \<times> bool \<times> diagnostic list) option" where
  "mappingSource lib path from destination nodes adjacency inputSchema contracts =
     (case from of
        None \<Rightarrow> Some (no_resolution, False, [diag path ''invalid_source'' ''must start with input or nodes.<nodeID>''])
      | Some s \<Rightarrow>
          if \<not> source_ok from then Some (no_resolution, False, [diag path ''invalid_source'' ''must start with input or nodes.<nodeID>''])
          else if s = ''input'' \<or> has_prefix s ''input.'' then
            map_option (\<lambda>r. if res_exists r then (r, True, [])
                else (r, False, [diag path ''unknown_source_field'' (''source '' @ quoted s @ '' is not declared by spec.inputSchema'')]))
              (ResolveDot inputSchema (if s = ''input'' then [] else split_on (CHR ''.'') (trim_prefix s ''input.'')))
          else (let parts = split_on (CHR ''.'') (trim_prefix s ''nodes.''); sourceNode = hd parts in
            if length parts < 2 \<or> sourceNode = [] then
              Some (no_resolution, False, [diag path ''invalid_source'' ''node output source must include nodes.<nodeID>.<field>''])
            else if map_of nodes sourceNode = None then
              Some (no_resolution, False, [diag path ''unknown_node'' (''node '' @ quoted sourceNode @ '' does not exist'')])
            else if \<not> reaches sourceNode destination adjacency then
              Some (no_resolution, False, [diag path ''source_not_predecessor''
                (''node '' @ quoted sourceNode @ '' is not a predecessor of '' @ quoted destination)])
            else (case ac_outputSchema (contract_of sourceNode contracts) of
                None \<Rightarrow> Some (open_resolution, True, [])
              | Some raw \<Rightarrow> (case compile_schema lib raw of
                    Inl _ \<Rightarrow> Some (no_resolution, False, [diag path ''invalid_action_schema'' ''source node output schema is invalid''])
                  | Inr schema \<Rightarrow>
                      map_option (\<lambda>r. if res_exists r then (r, True, [])
                          else (r, False, [diag path ''unknown_source_field''
                            (''source '' @ quoted s @ '' is not declared by node '' @ quoted sourceNode @ '' output schema'')]))
                        (ResolveDot schema (tl parts))))))"

definition shape_item_diags :: "node_map \<Rightarrow> string \<Rightarrow> json \<Rightarrow> diagnostic list" where
  "shape_item_diags nodes itemPath item =
     (case item of
        JObj mapping \<Rightarrow>
          (let from = str_field ''from'' mapping in
           (if \<not> source_ok from then [diag (itemPath @ ''.from'') ''invalid_source'' ''must start with input or nodes.<nodeID>'']
            else (case from of None \<Rightarrow> [] | Some s \<Rightarrow>
              if has_prefix s ''nodes.'' then
                (let parts = split_on (CHR ''.'') s in
                 if length parts < 2 then [diag (itemPath @ ''.from'') ''invalid_source'' ''node output path is incomplete'']
                 else if map_of nodes (parts ! 1) = None
                   then [diag (itemPath @ ''.from'') ''unknown_node'' (''node '' @ quoted (parts ! 1) @ '' does not exist'')]
                 else [])
              else [])))
          @ (if \<not> target_ok (str_field ''to'' mapping)
             then [diag (itemPath @ ''.to'') ''invalid_target'' ''must be a non-root JSON pointer''] else [])
      | _ \<Rightarrow> [diag itemPath ''invalid_mapping'' ''must be an object''])"

definition node_path :: "nat \<Rightarrow> string" where
  "node_path i = index_path ''spec.nodes'' i"

definition validateMappingShapeOnly :: "nat \<Rightarrow> flow_node \<Rightarrow> node_map \<Rightarrow> diagnostic list" where
  "validateMappingShapeOnly nodeIndex node nodes =
     (let path = node_path nodeIndex @ ''.with.mappings'' in
      case map_of (node_with node) ''mappings'' of
        None \<Rightarrow> []
      | Some (JArr items) \<Rightarrow> concat (map (\<lambda>p. shape_item_diags nodes (index_path path (fst p)) (snd p)) (enumerate 0 items))
      | Some _ \<Rightarrow> [diag path ''invalid_mapping'' ''must be a list of {from,to} mappings''])"

text \<open>\<open>cloneMap\<close> encodes and decodes the map: numbers become \<open>float64\<close>.\<close>

definition cloneMap :: "config \<Rightarrow> (go_error, config) result" where
  "cloneMap source =
     (if json_finite (JObj source)
      then Inr (case json_canon (JObj source) of JObj kvs \<Rightarrow> kvs | _ \<Rightarrow> [])
      else Inl ''json: cannot unmarshal number into Go value of type float64'')"

definition schemaDiagnostic :: "string \<Rightarrow> violation \<Rightarrow> diagnostic" where
  "schemaDiagnostic base v =
     diag (base @ concat (map (\<lambda>segment. if atoi segment \<noteq> None then ''['' @ segment @ '']'' else ''.'' @ segment) (vio_path v)))
       (vio_code v) (vio_message v)"

record mapping_env =
  me_lib :: js_lib
  me_nodes :: node_map
  me_adjacency :: "string adjacency"
  me_input :: js_schema
  me_contracts :: "(string \<times> action_contract) list"

text \<open>One mapping: the diagnostics so far and the projected configuration.\<close>

definition mapping_item :: "mapping_env \<Rightarrow> string \<Rightarrow> js_schema \<Rightarrow> string \<Rightarrow> nat \<times> json \<Rightarrow> diagnostic list \<times> config
    \<Rightarrow> (diagnostic list \<times> config) option" where
  "mapping_item me nodeId configSchema path p st =
     (let itemPath = index_path (path @ ''.mappings'') (fst p); ds = fst st; projected = snd st in
      case snd p of
        JObj mapping \<Rightarrow>
          (let unknown = map (\<lambda>q. diag (itemPath @ ''.'' @ fst q) ''unknown_field'' ''only from and to are allowed'')
                 (filter (\<lambda>q. fst q \<noteq> ''from'' \<and> fst q \<noteq> ''to'') mapping);
               to = str_field ''to'' mapping
           in Option.bind (mappingSource (me_lib me) (itemPath @ ''.from'') (str_field ''from'' mapping) nodeId
                (me_nodes me) (me_adjacency me) (me_input me) (me_contracts me)) (\<lambda>(source, sourceOK, sourceDiags).
              let ds1 = ds @ unknown @ sourceDiags in
              case to of
                None \<Rightarrow> Some (ds1 @ [diag (itemPath @ ''.to'') ''invalid_target'' ''must be a non-root JSON pointer''], projected)
              | Some pointer \<Rightarrow>
                  if \<not> target_ok to
                  then Some (ds1 @ [diag (itemPath @ ''.to'') ''invalid_target'' ''must be a non-root JSON pointer''], projected)
                  else Option.bind (ResolvePointer configSchema pointer) (\<lambda>target.
                    if \<not> res_exists target
                    then Some (ds1 @ [diag (itemPath @ ''.to'') ''unknown_target''
                        (''target '' @ quoted pointer @ '' is not declared by the action config schema'')], projected)
                    else (let ds2 = ds1 @ (if sourceOK then
                                (case Compatible source target of (compatible, dynamic) \<Rightarrow>
                                  if \<not> compatible then [diag itemPath ''mapping_type_mismatch''
                                      ''mapping source type is incompatible with the destination action field'']
                                  else if dynamic then [warning itemPath ''dynamic_mapping''
                                      ''mapping crosses an explicitly open schema region and will be validated again at runtime'']
                                  else []) else [])
                          in if hasErrorAt ds2 itemPath then Some (ds2, projected)
                             else (case SetPointer projected pointer (Placeholder target) of
                                 Inl e \<Rightarrow> Some (ds2 @ [diag (itemPath @ ''.to'') ''invalid_target'' e], projected)
                               | Inr projected' \<Rightarrow> Some (ds2, projected'))))))
      | _ \<Rightarrow> Some (ds @ [diag itemPath ''invalid_mapping'' ''must be an object''], projected))"

fun fold_opt :: "('a \<Rightarrow> 's \<Rightarrow> 's option) \<Rightarrow> 'a list \<Rightarrow> 's \<Rightarrow> 's option" where
  "fold_opt f [] s = Some s"
| "fold_opt f (x # xs) s = Option.bind (f x s) (fold_opt f xs)"

definition validateMappings :: "mapping_env \<Rightarrow> nat \<Rightarrow> flow_node \<Rightarrow> config \<Rightarrow> diagnostic list option" where
  "validateMappings me nodeIndex node boundConfig =
     (let path = node_path nodeIndex @ ''.with'' in
      case Option.bind (map_of (me_contracts me) (node_id node)) ac_configSchema of
        None \<Rightarrow> Some (validateMappingShapeOnly nodeIndex node (me_nodes me))
      | Some raw \<Rightarrow>
          (case compile_schema (me_lib me) raw of
             Inl _ \<Rightarrow> Some [diag path ''invalid_action_schema'' ''pinned action config schema is invalid'']
           | Inr configSchema \<Rightarrow>
               (case cloneMap boundConfig of
                  Inl e \<Rightarrow> Some [diag path ''invalid_config'' e]
                | Inr cloned \<Rightarrow>
                    (let rawMappings = map_of cloned ''mappings''; projected = map_del ''mappings'' (map_del ''secretRefs'' cloned);
                         finish = (\<lambda>(ds, projected). map_option (\<lambda>vs. ds @ map (schemaDiagnostic path) vs)
                           (Validate (me_lib me) configSchema (JObj projected)))
                     in case rawMappings of
                          None \<Rightarrow> finish ([], projected)
                        | Some (JArr items) \<Rightarrow>
                            Option.bind (fold_opt (mapping_item me (node_id node) configSchema path) (enumerate 0 items) ([], projected)) finish
                        | Some _ \<Rightarrow> Some [diag (path @ ''.mappings'') ''invalid_mapping'' ''must be a list of {from,to} mappings'']))))"

section \<open>Nodes\<close>

definition validAction :: "string \<Rightarrow> bool" where
  "validAction action =
     (let parts = split_on (CHR ''.'') action
      in length parts \<ge> 2 \<and> nodeID (hd parts) \<and> nodeID (join_with ''_'' (tl parts)))"

definition nodeConfigDiagnosticPath :: "string \<Rightarrow> string \<Rightarrow> string" where
  "nodeConfigDiagnosticPath nodePath pluginPath =
     (if pluginPath = [] \<or> pluginPath = ''config'' then nodePath @ ''.with''
      else nodePath @ ''.with.'' @ trim_prefix pluginPath ''config.'')"

definition at_node :: "string \<Rightarrow> diagnostic \<Rightarrow> diagnostic" where
  "at_node path d = d\<lparr>diag_path := nodeConfigDiagnosticPath path (diag_path d)\<rparr>"

definition is_core :: "string \<Rightarrow> bool" where
  "is_core uses = has_prefix uses ''core.''"

text \<open>The resolution of the action of a node.\<close>

definition bind_node :: "capability option \<Rightarrow> string \<Rightarrow> string \<Rightarrow> flow_node \<Rightarrow> diagnostic list \<times> action_binding option" where
  "bind_node cap namespace path node =
     (let uses = node_uses node in
      if \<not> validAction uses
      then ([diag (path @ ''.uses'') ''invalid_action'' ''action must be core.<name> or <plugin>.<action>''], None)
      else if is_core uses then ([], None)
      else (case cap of
          None \<Rightarrow> ([], None)
        | Some c \<Rightarrow>
            if \<not> cap_hasAction c uses
            then ([diag (path @ ''.uses'') ''unknown_action'' (''no enabled plugin provides '' @ quoted uses)], None)
            else (case cap_bind c of
                Some bind \<Rightarrow> (case bind namespace uses (node_with node) of (resolved, ds) \<Rightarrow>
                  (map (at_node path) ds, if ds = [] then Some resolved else None))
              | None \<Rightarrow> (case cap_validate c of
                    Some validate \<Rightarrow> (map (at_node path) (validate uses (node_with node)), None)
                  | None \<Rightarrow> ([], None)))))"

definition node_timeout_of :: "duration \<Rightarrow> string \<Rightarrow> flow_node \<Rightarrow> diagnostic list \<times> duration" where
  "node_timeout_of timeout path node =
     (case ParseDuration (node_timeout node) timeout of
        Inl e \<Rightarrow> ([diag (path @ ''.timeout'') ''invalid_duration'' e], timeout)
      | Inr d \<Rightarrow> ([], d))"

definition node_retry_of :: "string \<Rightarrow> flow_node \<Rightarrow> diagnostic list \<times> int \<times> string" where
  "node_retry_of path node =
     (case node_retry node of
        None \<Rightarrow> ([], 0, ''1s'')
      | Some r \<Rightarrow>
          (let limits = (if retry_limit r < 0 \<or> retry_limit r > 100
                 then [diag (path @ ''.retry.limit'') ''out_of_range'' ''must be between 0 and 100''] else [])
           in if retry_backoff r = [] then (limits, retry_limit r, ''1s'')
              else (case ParseDuration (retry_backoff r) 1000000000 of
                  Inl e \<Rightarrow> (limits @ [diag (path @ ''.retry.backoff'') ''invalid_duration'' e], retry_limit r, ''1s'')
                | Inr _ \<Rightarrow> (limits, retry_limit r, retry_backoff r))))"

definition node_loop_of :: "string \<Rightarrow> flow_node \<Rightarrow> diagnostic list \<times> int" where
  "node_loop_of path node =
     (case node_loop node of
        None \<Rightarrow> ([], 0)
      | Some l \<Rightarrow> (if loop_maxIterations l < 1 \<or> loop_maxIterations l > 1000
            then [diag (path @ ''.loop.maxIterations'') ''out_of_range'' ''must be between 1 and 1000''] else [],
          loop_maxIterations l))"

definition action_input_diags :: "js_lib \<Rightarrow> js_schema \<Rightarrow> string \<Rightarrow> action_contract \<Rightarrow> diagnostic list option" where
  "action_input_diags lib compiledInput path contract =
     (case ac_inputSchema contract of
        None \<Rightarrow> Some []
      | Some raw \<Rightarrow> (case compile_schema lib raw of
            Inl _ \<Rightarrow> Some [diag (path @ ''.uses'') ''invalid_action_schema'' ''pinned action input schema is invalid'']
          | Inr actionInput \<Rightarrow>
              Option.bind (ResolveDot compiledInput []) (\<lambda>source. Option.bind (ResolveDot actionInput []) (\<lambda>target.
                Some (if fst (Compatible source target) then []
                  else [diag (path @ ''.uses'') ''action_input_type_mismatch''
                    ''Flow input type is incompatible with the action input schema''])))))"

record compile_state =
  cs_nodes :: node_map
  cs_contracts :: "(string \<times> action_contract) list"
  cs_configs :: "(string \<times> config) list"
  cs_plan :: "plan_node list"
  cs_diags :: "diagnostic list"

definition plan_node_of :: "string \<Rightarrow> duration \<Rightarrow> string \<Rightarrow> flow_node \<Rightarrow> action_binding option \<Rightarrow> plan_node" where
  "plan_node_of namespace timeout path node binding =
     \<lparr>pn_id = node_id node, pn_name = (if node_name node = [] then node_id node else node_name node),
      pn_namespace = namespace, pn_uses = node_uses node,
      pn_with = (case binding of None \<Rightarrow> node_with node | Some b \<Rightarrow> ab_config b),
      pn_retryLimit = fst (snd (node_retry_of path node)), pn_retryBackoff = snd (snd (node_retry_of path node)),
      pn_timeout = duration_string (nat (snd (node_timeout_of timeout path node))),
      pn_loopMaxIterations = snd (node_loop_of path node),
      pn_plugin = map_option ab_plugin binding, pn_contract = map_option ab_contract binding,
      pn_resources = (case binding of None \<Rightarrow> [] | Some b \<Rightarrow> ab_resources b)\<rparr>"

text \<open>One round of the loop over the nodes.\<close>

definition compile_node :: "compile_env \<Rightarrow> string \<Rightarrow> duration \<Rightarrow> js_schema \<Rightarrow> nat \<times> flow_node \<Rightarrow> compile_state \<Rightarrow> compile_state option" where
  "compile_node ce namespace timeout compiledInput p st =
     (let path = node_path (fst p); node = snd p; nid = node_id node;
          idDiags = (if nodeID nid then [] else [diag (path @ ''.id'') ''invalid_node_id'' ''must match ^[a-z][a-z0-9_-]{0,62}$''])
      in if map_of (cs_nodes st) nid \<noteq> None
         then Some (st\<lparr>cs_diags := cs_diags st @ idDiags @
                [diag (path @ ''.id'') ''duplicate_node_id'' (''node '' @ quoted nid @ '' is duplicated'')]\<rparr>)
         else (let (bindDiags, binding) = bind_node (ce_capabilities ce) namespace path node;
                   planNode = plan_node_of namespace timeout path node binding;
                   contract = (case binding of Some b \<Rightarrow> Some (ab_contract b)
                     | None \<Rightarrow> if is_core (node_uses node) then Some (coreActionContract node) else None)
               in Option.bind (case binding of None \<Rightarrow> Some []
                      | Some b \<Rightarrow> action_input_diags (ce_js ce) compiledInput path (ab_contract b)) (\<lambda>inputDiags.
                    Some \<lparr>cs_nodes = cs_nodes st @ [(nid, node)],
                      cs_contracts = (case contract of None \<Rightarrow> cs_contracts st | Some c \<Rightarrow> cs_contracts st @ [(nid, c)]),
                      cs_configs = cs_configs st @ [(nid, pn_with planNode)],
                      cs_plan = cs_plan st @ [planNode],
                      cs_diags = cs_diags st @ idDiags @ bindDiags @ fst (node_timeout_of timeout path node)
                        @ fst (node_retry_of path node) @ fst (node_loop_of path node) @ inputDiags\<rparr>)))"

section \<open>Edges\<close>

definition condition_diags :: "compile_env \<Rightarrow> js_schema \<Rightarrow> (string \<times> action_contract) list \<Rightarrow> string \<Rightarrow> flow_edge \<Rightarrow> diagnostic list option" where
  "condition_diags ce compiledInput contracts path edge =
     (if edge_when edge = [] then Some []
      else (case cel_compile (ce_cel ce) (edge_when edge) of
          Inl e \<Rightarrow> Some [diag (path @ ''.when'') ''invalid_cel'' e]
        | Inr (outputType, checked) \<Rightarrow>
            if outputType \<noteq> CelBool \<and> outputType \<noteq> CelDyn
            then Some [diag (path @ ''.when'') ''cel_not_boolean'' ''condition must produce bool'']
            else (case checked of
                None \<Rightarrow> Some [diag (path @ ''.when'') ''invalid_cel'' ''condition could not be converted to a checked expression'']
              | Some expression \<Rightarrow>
                  typedCELDiagnostics (ce_js ce) (path @ ''.when'') expression (edge_from edge) compiledInput contracts)))"

definition edge_diags :: "compile_env \<Rightarrow> js_schema \<Rightarrow> compile_state \<Rightarrow> nat \<times> flow_edge \<Rightarrow> diagnostic list option" where
  "edge_diags ce compiledInput st p =
     (let path = index_path ''spec.edges'' (fst p); edge = snd p;
          missing = (\<lambda>field nid. if map_of (cs_nodes st) nid = None
            then [diag (path @ field) ''unknown_node'' (''node '' @ quoted nid @ '' does not exist'')] else [])
      in map_option (\<lambda>ds. missing ''.from'' (edge_from edge) @ missing ''.to'' (edge_to edge) @ ds)
           (condition_diags ce compiledInput (cs_contracts st) path edge))"

definition add_edge :: "node_map \<Rightarrow> string adjacency \<Rightarrow> flow_edge \<Rightarrow> string adjacency" where
  "add_edge nodes adjacency edge =
     (if map_of nodes (edge_from edge) \<noteq> None \<and> map_of nodes (edge_to edge) \<noteq> None
      then map_put (edge_from edge) (succs adjacency (edge_from edge) @ [edge_to edge]) adjacency else adjacency)"

definition build_adjacency :: "node_map \<Rightarrow> flow_edge list \<Rightarrow> string adjacency" where
  "build_adjacency nodes edges = map (\<lambda>p. (fst p, sort (snd p))) (foldl (add_edge nodes) [] edges)"

definition plan_edge_of :: "flow_edge \<Rightarrow> plan_edge" where
  "plan_edge_of e = \<lparr>pe_from = edge_from e, pe_to = edge_to e, pe_condition = edge_when e\<rparr>"

section \<open>Cycles\<close>

definition sortedKeys :: "node_map \<Rightarrow> string list" where
  "sortedKeys nodes = sort (map fst nodes)"

definition cyclic :: "string adjacency \<Rightarrow> string list \<Rightarrow> bool" where
  "cyclic adjacency component \<longleftrightarrow> length component > 1 \<or>
     (length component = 1 \<and> component ! 0 \<in> set (succs adjacency (component ! 0)))"

definition has_finite_loop :: "node_map \<Rightarrow> string list \<Rightarrow> bool" where
  "has_finite_loop nodes component =
     list_ex (\<lambda>i. case Option.bind (map_of nodes i) node_loop of None \<Rightarrow> False | Some l \<Rightarrow> loop_maxIterations l > 0) component"

definition cycle_diags :: "node_map \<Rightarrow> string adjacency \<Rightarrow> string list list \<Rightarrow> diagnostic list" where
  "cycle_diags nodes adjacency components =
     map (\<lambda>c. diag ''spec.edges'' ''unbounded_cycle'' (''cycle '' @ join_with '' -> '' c @ '' requires a finite loop policy''))
       (filter (\<lambda>c. cyclic adjacency c \<and> \<not> has_finite_loop nodes c) components)"

section \<open>Compile\<close>

definition compile_input :: "compile_env \<Rightarrow> flow_spec \<Rightarrow> (diagnostic list \<times> json \<times> js_schema) option" where
  "compile_input ce fs =
     (let inputSchemaJSON = (if fs_inputSchema fs = [] then open_object_schema else JObj (fs_inputSchema fs))
      in case compile_schema (ce_js ce) inputSchemaJSON of
           Inr s \<Rightarrow> Some ([], inputSchemaJSON, s)
         | Inl e \<Rightarrow> (case compile_schema (ce_js ce) open_object_schema of
               Inl _ \<Rightarrow> None
             | Inr s \<Rightarrow> Some ([diag ''spec.inputSchema'' ''invalid_schema'' e], inputSchemaJSON, s)))"

definition compile_timeout :: "flow_spec \<Rightarrow> diagnostic list \<times> duration" where
  "compile_timeout fs =
     (case ParseDuration (pol_timeout (fs_policies fs)) defaultTimeout of
        Inl e \<Rightarrow> ([diag ''spec.policies.timeout'' ''invalid_duration'' e], defaultTimeout)
      | Inr d \<Rightarrow> ([], d))"

definition compile_maxParallel :: "flow_spec \<Rightarrow> diagnostic list \<times> int" where
  "compile_maxParallel fs =
     (let n = (if pol_maxParallel (fs_policies fs) = 0 then 1 else pol_maxParallel (fs_policies fs))
      in (if n < 1 \<or> n > 128 then [diag ''spec.policies.maxParallel'' ''out_of_range'' ''must be between 1 and 128''] else [], n))"

definition empty_state :: compile_state where
  "empty_state = \<lparr>cs_nodes = [], cs_contracts = [], cs_configs = [], cs_plan = [], cs_diags = []\<rparr>"

definition edge_key :: "plan_edge \<Rightarrow> string \<times> string \<times> string" where
  "edge_key e = (pe_from e, pe_to e, pe_condition e)"

definition seal_plan :: "(execution_plan \<Rightarrow> string) \<Rightarrow> execution_plan \<Rightarrow> diagnostic list \<Rightarrow> execution_plan" where
  "seal_plan hash plan ds = (if hasErrorDiagnostics ds then plan else plan\<lparr>plan_planHash := hash plan\<rparr>)"

definition Compile :: "compile_env \<Rightarrow> object_meta \<Rightarrow> flow_spec \<Rightarrow> (execution_plan \<times> diagnostic list) option" where
  "Compile ce meta fs =
     Option.bind (compile_input ce fs) (\<lambda>(inputDiags, inputSchemaJSON, compiledInput).
     let (timeoutDiags, timeout) = compile_timeout fs; (parallelDiags, maxParallel) = compile_maxParallel fs in
     Option.bind (fold_opt (compile_node ce (meta_namespace meta) timeout compiledInput) (enumerate 0 (fs_nodes fs)) empty_state) (\<lambda>st.
     Option.bind (those (map (edge_diags ce compiledInput st) (enumerate 0 (fs_edges fs)))) (\<lambda>edgeDiags.
     let adjacency = build_adjacency (cs_nodes st) (fs_edges fs);
         me = \<lparr>me_lib = ce_js ce, me_nodes = cs_nodes st, me_adjacency = adjacency, me_input = compiledInput,
               me_contracts = cs_contracts st\<rparr> in
     Option.bind (those (map (\<lambda>p. validateMappings me (fst p) (snd p)
         (case map_of (cs_configs st) (node_id (snd p)) of None \<Rightarrow> [] | Some c \<Rightarrow> c)) (enumerate 0 (fs_nodes fs)))) (\<lambda>mappingDiags.
     Option.bind (stronglyConnected (sortedKeys (cs_nodes st)) adjacency) (\<lambda>components.
     let ds = inputDiags @ timeoutDiags @ parallelDiags @ cs_diags st @ concat edgeDiags @ concat mappingDiags
           @ cycle_diags (cs_nodes st) adjacency components;
         plan = \<lparr>plan_apiVersion = APIVersion, plan_flowUID = meta_uid meta, plan_flowGeneration = meta_generation meta,
           plan_interpreterVersion = InterpreterVersion, plan_timeout = duration_string (nat timeout),
           plan_maxParallel = maxParallel, plan_inputSchema = Some inputSchemaJSON,
           plan_nodes = sort_key pn_id (cs_plan st), plan_edges = sort_key edge_key (map plan_edge_of (fs_edges fs)),
           plan_components = components, plan_planHash = []\<rparr>
     in Some (seal_plan (ce_hash ce) plan ds, ds))))))"

section \<open>Accepted plans\<close>

text \<open>What the loop over the nodes establishes when it reports no error.\<close>

definition plan_node_ok :: "plan_node \<Rightarrow> bool" where
  "plan_node_ok n \<longleftrightarrow> nodeID (pn_id n) \<and> validAction (pn_uses n) \<and> 0 \<le> pn_retryLimit n \<and> pn_retryLimit n \<le> 100 \<and>
     0 \<le> pn_loopMaxIterations n \<and> pn_loopMaxIterations n \<le> 1000"

definition nodes_ok :: "flow_node list \<Rightarrow> compile_state \<Rightarrow> bool" where
  "nodes_ok done st \<longleftrightarrow> cs_nodes st = map (\<lambda>n. (node_id n, n)) done \<and> distinct (map node_id done) \<and>
     list_all2 (\<lambda>n p. pn_id p = node_id n \<and> plan_node_ok p \<and>
       pn_loopMaxIterations p = (case node_loop n of None \<Rightarrow> 0 | Some l \<Rightarrow> loop_maxIterations l)) done (cs_plan st)"

lemma compile_node_grows:
  "compile_node ce ns t ci p st = Some st' \<Longrightarrow> \<exists>ds. cs_diags st' = cs_diags st @ ds"
  by (auto simp: compile_node_def Let_def bind_eq_Some_conv split: if_splits prod.splits)

lemma bind_node_action: "\<not> hasErrorDiagnostics (fst (bind_node cap ns path node)) \<Longrightarrow> validAction (node_uses node)"
  by (auto simp: bind_node_def Let_def split: if_splits)

lemma node_retry_range:
  "\<not> hasErrorDiagnostics (fst (node_retry_of path node)) \<Longrightarrow>
    0 \<le> fst (snd (node_retry_of path node)) \<and> fst (snd (node_retry_of path node)) \<le> 100"
  by (auto simp: node_retry_of_def Let_def split: option.splits if_splits sum.splits)

lemma node_loop_range:
  "\<not> hasErrorDiagnostics (fst (node_loop_of path node)) \<Longrightarrow>
    0 \<le> snd (node_loop_of path node) \<and> snd (node_loop_of path node) \<le> 1000"
  by (auto simp: node_loop_of_def split: option.splits if_splits)

lemma compile_node_ok:
  assumes c: "compile_node ce ns t ci (i, n) st = Some st'" and e: "\<not> hasErrorDiagnostics (cs_diags st')"
    and ok: "nodes_ok done st"
  shows "nodes_ok (done @ [n]) st'"
proof -
  let ?path = "node_path i"
  have new: "map_of (cs_nodes st) (node_id n) = None" and nid: "nodeID (node_id n)"
    using c e by (auto simp: compile_node_def Let_def bind_eq_Some_conv split: if_splits prod.splits)
  obtain bds b where b: "bind_node (ce_capabilities ce) ns ?path n = (bds, b)" by fastforce
  obtain ids where ids: "cs_nodes st' = cs_nodes st @ [(node_id n, n)]" "cs_plan st' = cs_plan st @ [plan_node_of ns t ?path n b]"
    "cs_diags st' = cs_diags st @ [] @ bds @ fst (node_timeout_of t ?path n)
                        @ fst (node_retry_of ?path n) @ fst (node_loop_of ?path n) @ ids"
    using c new nid b by (auto simp: compile_node_def Let_def bind_eq_Some_conv)
  have ne: "\<not> hasErrorDiagnostics bds" "\<not> hasErrorDiagnostics (fst (node_retry_of ?path n))"
    "\<not> hasErrorDiagnostics (fst (node_loop_of ?path n))" using e ids(3) by simp_all
  have "validAction (node_uses n)" using bind_node_action[of "ce_capabilities ce" ns ?path n] b ne(1) by simp
  then have "plan_node_ok (plan_node_of ns t ?path n b)"
    using nid node_retry_range[OF ne(2)] node_loop_range[OF ne(3)] by (simp add: plan_node_ok_def plan_node_of_def)
  moreover have "snd (node_loop_of ?path n) = (case node_loop n of None \<Rightarrow> 0 | Some l \<Rightarrow> loop_maxIterations l)"
    by (simp add: node_loop_of_def split: option.splits)
  moreover have "node_id n \<notin> set (map node_id done)" using new ok by (auto simp: nodes_ok_def map_of_eq_None_iff image_image)
  ultimately show ?thesis using ok ids(1,2) by (simp add: nodes_ok_def list_all2_appendI plan_node_of_def)
qed

lemma compile_nodes_grow:
  "fold_opt (compile_node ce ns t ci) xs st = Some st' \<Longrightarrow> \<exists>ds. cs_diags st' = cs_diags st @ ds"
proof (induction xs arbitrary: st)
  case (Cons m ms)
  then show ?case by (fastforce simp: bind_eq_Some_conv dest: compile_node_grows)
qed simp

lemma compile_nodes_ok:
  "fold_opt (compile_node ce ns t ci) (enumerate i ns') st = Some st' \<Longrightarrow> \<not> hasErrorDiagnostics (cs_diags st') \<Longrightarrow>
    nodes_ok done st \<Longrightarrow> nodes_ok (done @ ns') st'"
proof (induction ns' arbitrary: i st "done")
  case (Cons n ns')
  then obtain st1 where st1: "compile_node ce ns t ci (i, n) st = Some st1"
    "fold_opt (compile_node ce ns t ci) (enumerate (Suc i) ns') st1 = Some st'" by (auto simp: bind_eq_Some_conv)
  then have "\<not> hasErrorDiagnostics (cs_diags st1)" using compile_nodes_grow[OF st1(2)] Cons.prems(2) by auto
  then have "nodes_ok (done @ [n]) st1" using compile_node_ok st1(1) Cons.prems(3) by blast
  then show ?case using Cons.IH[OF st1(2) Cons.prems(2)] by fastforce
qed simp

text \<open>The adjacency is the edge relation.\<close>

lemma succs_map_sort: "set (succs (map (\<lambda>p. (fst p, sort (snd p))) adj) v) = set (succs adj v)"
proof -
  have "map_of (map (\<lambda>p. (fst p, sort (snd p))) adj) v = map_option sort (map_of adj v)"
    by (induction adj) auto
  then show ?thesis by (auto simp: succs_def split: option.splits)
qed

lemma edge_rel_add: "edge_rel (add_edge nodes adj e) = edge_rel adj \<union>
    (if map_of nodes (edge_from e) \<noteq> None \<and> map_of nodes (edge_to e) \<noteq> None then {(edge_from e, edge_to e)} else {})"
  by (auto simp: edge_rel_def add_edge_def succs_def split: if_splits option.splits)

lemma edge_rel_build:
  "edge_rel (build_adjacency nodes es) = {(edge_from e, edge_to e) | e. e \<in> set es \<and>
     map_of nodes (edge_from e) \<noteq> None \<and> map_of nodes (edge_to e) \<noteq> None}"
proof -
  have "edge_rel (foldl (add_edge nodes) adj es) = edge_rel adj \<union> {(edge_from e, edge_to e) | e. e \<in> set es \<and>
     map_of nodes (edge_from e) \<noteq> None \<and> map_of nodes (edge_to e) \<noteq> None}" for adj
    by (induction es arbitrary: adj) (auto simp: edge_rel_add)
  moreover have "edge_rel ([] :: string adjacency) = {}" by (simp add: edge_rel_def succs_def)
  ultimately show ?thesis by (simp add: build_adjacency_def edge_rel_def succs_map_sort)
qed

definition plan_edge_rel :: "execution_plan \<Rightarrow> (string \<times> string) set" where
  "plan_edge_rel plan = (\<lambda>e. (pe_from e, pe_to e)) ` set (plan_edges plan)"

definition plan_ids :: "execution_plan \<Rightarrow> string list" where
  "plan_ids plan = map pn_id (plan_nodes plan)"

text \<open>A plan node depends on its Flow node alone, not on where the Flow lists it.\<close>

definition plan_of_node :: "compile_env \<Rightarrow> string \<Rightarrow> duration \<Rightarrow> flow_node \<Rightarrow> plan_node" where
  "plan_of_node ce ns t n = plan_node_of ns t [] n (snd (bind_node (ce_capabilities ce) ns [] n))"

lemma plan_node_of_path: "plan_node_of ns t path n b = plan_node_of ns t [] n b"
  by (simp add: plan_node_of_def node_retry_of_def node_timeout_of_def node_loop_of_def Let_def
      split: option.splits sum.splits)

lemma bind_node_path: "snd (bind_node cap ns path n) = snd (bind_node cap ns [] n)"
  by (simp add: bind_node_def Let_def split: option.splits prod.splits)

lemma compile_node_plan:
  assumes "compile_node ce ns t ci (i, n) st = Some st'" and "\<not> hasErrorDiagnostics (cs_diags st')"
  shows "cs_plan st' = cs_plan st @ [plan_of_node ce ns t n]"
proof -
  have "map_of (cs_nodes st) (node_id n) = None"
    using assms by (auto simp: compile_node_def Let_def bind_eq_Some_conv split: if_splits prod.splits)
  moreover obtain bds b where b: "bind_node (ce_capabilities ce) ns (node_path i) n = (bds, b)" by fastforce
  moreover have "b = snd (bind_node (ce_capabilities ce) ns [] n)" using bind_node_path[of _ ns "node_path i" n] b by (metis snd_conv)
  ultimately show ?thesis
    using assms(1) plan_node_of_path[of ns t "node_path i" n b] by (auto simp: compile_node_def Let_def bind_eq_Some_conv plan_of_node_def)
qed

lemma compile_nodes_plan:
  "fold_opt (compile_node ce ns t ci) (enumerate i ns') st = Some st' \<Longrightarrow> \<not> hasErrorDiagnostics (cs_diags st') \<Longrightarrow>
    cs_plan st' = cs_plan st @ map (plan_of_node ce ns t) ns'"
proof (induction ns' arbitrary: i st)
  case (Cons n ns')
  then obtain st1 where st1: "compile_node ce ns t ci (i, n) st = Some st1"
    "fold_opt (compile_node ce ns t ci) (enumerate (Suc i) ns') st1 = Some st'" by (auto simp: bind_eq_Some_conv)
  have "\<not> hasErrorDiagnostics (cs_diags st1)" using compile_nodes_grow[OF st1(2)] Cons.prems(2) by auto
  then show ?case using compile_node_plan[OF st1(1)] Cons.IH[OF st1(2) Cons.prems(2)] by simp
qed simp

lemma sort_key_canonical:
  assumes "mset xs = mset ys" and "inj_on k (set xs)"
  shows "sort_key k xs = sort_key k ys"
  using assms by (simp add: sort_key_inj_key_eq)

definition unsealed_plan :: "object_meta \<Rightarrow> flow_spec \<Rightarrow> plan_node list \<Rightarrow> string list list \<Rightarrow> execution_plan" where
  "unsealed_plan meta fs nodes components =
     \<lparr>plan_apiVersion = APIVersion, plan_flowUID = meta_uid meta, plan_flowGeneration = meta_generation meta,
      plan_interpreterVersion = InterpreterVersion, plan_timeout = duration_string (nat (snd (compile_timeout fs))),
      plan_maxParallel = snd (compile_maxParallel fs),
      plan_inputSchema = Some (if fs_inputSchema fs = [] then open_object_schema else JObj (fs_inputSchema fs)),
      plan_nodes = sort_key pn_id nodes, plan_edges = sort_key edge_key (map plan_edge_of (fs_edges fs)),
      plan_components = components, plan_planHash = []\<rparr>"

text \<open>Where the parts of the plan come from.\<close>

definition plan_origin :: "compile_env \<Rightarrow> object_meta \<Rightarrow> flow_spec \<Rightarrow> compile_state \<Rightarrow> string list list \<Rightarrow> execution_plan
    \<Rightarrow> diagnostic list \<Rightarrow> bool" where
  "plan_origin ce meta fs st components plan ds \<longleftrightarrow>
     cs_plan st = map (plan_of_node ce (meta_namespace meta) (snd (compile_timeout fs))) (fs_nodes fs) \<and>
     plan = seal_plan (ce_hash ce) (unsealed_plan meta fs (cs_plan st) components) ds"

text \<open>The steps of a compilation.\<close>

definition compile_result :: "compile_env \<Rightarrow> object_meta \<Rightarrow> flow_spec \<Rightarrow> compile_state \<Rightarrow> string list list \<Rightarrow> execution_plan
    \<Rightarrow> diagnostic list \<Rightarrow> bool" where
  "compile_result ce meta fs st components plan ds \<longleftrightarrow>
     nodes_ok (fs_nodes fs) st \<and>
     (\<forall>e \<in> set (fs_edges fs). map_of (cs_nodes st) (edge_from e) \<noteq> None \<and> map_of (cs_nodes st) (edge_to e) \<noteq> None) \<and>
     stronglyConnected (sortedKeys (cs_nodes st)) (build_adjacency (cs_nodes st) (fs_edges fs)) = Some components \<and>
     cycle_diags (cs_nodes st) (build_adjacency (cs_nodes st) (fs_edges fs)) components = [] \<and>
     plan_origin ce meta fs st components plan ds \<and>
     plan_nodes plan = sort_key pn_id (cs_plan st) \<and> plan_edges plan = sort_key edge_key (map plan_edge_of (fs_edges fs)) \<and>
     plan_components plan = components \<and> 1 \<le> plan_maxParallel plan \<and> plan_maxParallel plan \<le> 128"

lemma edge_diags_known:
  assumes "edge_diags ce ci st (i, e) = Some ds" "\<not> hasErrorDiagnostics ds"
  shows "map_of (cs_nodes st) (edge_from e) \<noteq> None \<and> map_of (cs_nodes st) (edge_to e) \<noteq> None"
  using assms by (auto simp: edge_diags_def Let_def split: if_splits)

lemma cycle_diags_ok: "\<not> hasErrorDiagnostics (cycle_diags nodes adj cs) \<Longrightarrow> cycle_diags nodes adj cs = []"
  unfolding cycle_diags_def by (cases "filter (\<lambda>c. cyclic adj c \<and> \<not> has_finite_loop nodes c) cs") auto

lemma compile_maxParallel_range:
  "\<not> hasErrorDiagnostics (fst (compile_maxParallel fs)) \<Longrightarrow> 1 \<le> snd (compile_maxParallel fs) \<and> snd (compile_maxParallel fs) \<le> 128"
  unfolding compile_maxParallel_def Let_def by (auto split: if_splits)

lemma CompileE:
  assumes "Compile ce meta fs = Some (plan, ds)" and "\<not> HasErrors ds"
  obtains st components where "compile_result ce meta fs st components plan ds"
proof -
  obtain ids isj ci where ci: "compile_input ce fs = Some (ids, isj, ci)"
    using assms(1) by (auto simp: Compile_def bind_eq_Some_conv)
  obtain td tm where tm: "compile_timeout fs = (td, tm)" by fastforce
  obtain pd mp where mp: "compile_maxParallel fs = (pd, mp)" by fastforce
  note unfold = assms(1)[unfolded Compile_def ci tm mp Option.bind.bind_lunit prod.case Let_def]
  obtain st eds mds components where st: "fold_opt (compile_node ce (meta_namespace meta) tm ci) (enumerate 0 (fs_nodes fs)) empty_state = Some st"
    and eds: "those (map (edge_diags ce ci st) (enumerate 0 (fs_edges fs))) = Some eds"
    and sc: "stronglyConnected (sortedKeys (cs_nodes st)) (build_adjacency (cs_nodes st) (fs_edges fs)) = Some components"
    and ds: "ds = ids @ td @ pd @ cs_diags st @ concat eds @ concat mds @
        cycle_diags (cs_nodes st) (build_adjacency (cs_nodes st) (fs_edges fs)) components"
    and full: "plan = seal_plan (ce_hash ce) \<lparr>plan_apiVersion = APIVersion, plan_flowUID = meta_uid meta,
           plan_flowGeneration = meta_generation meta,
           plan_interpreterVersion = InterpreterVersion, plan_timeout = duration_string (nat tm),
           plan_maxParallel = mp, plan_inputSchema = Some isj,
           plan_nodes = sort_key pn_id (cs_plan st), plan_edges = sort_key edge_key (map plan_edge_of (fs_edges fs)),
           plan_components = components, plan_planHash = []\<rparr> ds"
    and plan: "plan_nodes plan = sort_key pn_id (cs_plan st)" "plan_edges plan = sort_key edge_key (map plan_edge_of (fs_edges fs))"
      "plan_components plan = components" "plan_maxParallel plan = mp"
    using unfold by (auto simp: bind_eq_Some_conv seal_plan_def split: if_splits)
  have ne: "\<not> hasErrorDiagnostics (cs_diags st)" "\<not> hasErrorDiagnostics (concat eds)" "\<not> hasErrorDiagnostics pd"
    "\<not> hasErrorDiagnostics (cycle_diags (cs_nodes st) (build_adjacency (cs_nodes st) (fs_edges fs)) components)"
    using assms(2) ds by (auto simp: HasErrors_def)
  have "nodes_ok [] empty_state" by (simp add: nodes_ok_def empty_state_def)
  then have ok: "nodes_ok (fs_nodes fs) st" using compile_nodes_ok[OF st ne(1)] by fastforce
  have known: "map_of (cs_nodes st) (edge_from e) \<noteq> None \<and> map_of (cs_nodes st) (edge_to e) \<noteq> None" if e: "e \<in> set (fs_edges fs)" for e
  proof -
    obtain i where "i < length (fs_edges fs)" "fs_edges fs ! i = e" using e by (metis in_set_conv_nth)
    then have "(i, e) \<in> set (enumerate 0 (fs_edges fs))" by (simp add: in_set_enumerate_eq)
    then have "edge_diags ce ci st (i, e) \<in> set (map (edge_diags ce ci st) (enumerate 0 (fs_edges fs)))"
      unfolding set_map by (rule imageI)
    then obtain d where d: "d \<in> set eds" "edge_diags ce ci st (i, e) = Some d" using those_Some[OF eds] by blast
    then have "\<not> hasErrorDiagnostics d" using ne(2) by (auto simp: hasErrorDiagnostics_concat)
    then show ?thesis using edge_diags_known d(2) by blast
  qed
  have "1 \<le> mp \<and> mp \<le> 128" using compile_maxParallel_range[of fs] mp ne(3) by simp
  moreover have "isj = (if fs_inputSchema fs = [] then open_object_schema else JObj (fs_inputSchema fs))"
    using ci by (auto simp: compile_input_def Let_def split: sum.splits if_splits)
  then have "plan = seal_plan (ce_hash ce) (unsealed_plan meta fs (cs_plan st) components) ds"
    using full tm mp by (simp add: unsealed_plan_def)
  moreover have "cs_plan st = map (plan_of_node ce (meta_namespace meta) (snd (compile_timeout fs))) (fs_nodes fs)"
    using compile_nodes_plan[OF st ne(1)] tm by (simp add: empty_state_def)
  ultimately have "plan_origin ce meta fs st components plan ds" "1 \<le> mp \<and> mp \<le> 128" by (simp_all add: plan_origin_def)
  then have "compile_result ce meta fs st components plan ds"
    unfolding compile_result_def using ok known sc cycle_diags_ok[OF ne(4)] plan by auto
  then show thesis by (rule that)
qed

lemma result_edges:
  assumes "compile_result ce meta fs st components plan ds"
  shows "edge_rel (build_adjacency (cs_nodes st) (fs_edges fs)) = plan_edge_rel plan"
proof -
  have "plan_edge_rel plan = (\<lambda>e. (edge_from e, edge_to e)) ` set (fs_edges fs)"
    using assms by (simp add: compile_result_def plan_edge_rel_def image_image plan_edge_of_def)
  then show ?thesis using assms by (auto simp: edge_rel_build compile_result_def)
qed

lemma result_ids:
  assumes "compile_result ce meta fs st components plan ds"
  shows "set (sortedKeys (cs_nodes st)) = set (plan_ids plan)" "sorted_wrt (<) (plan_ids plan)"
    "map pn_id (cs_plan st) = map node_id (fs_nodes fs)"
proof -
  have ok: "nodes_ok (fs_nodes fs) st" and plan: "plan_nodes plan = sort_key pn_id (cs_plan st)"
    using assms by (auto simp: compile_result_def)
  have "list_all2 (\<lambda>n p. pn_id p = node_id n) (fs_nodes fs) (cs_plan st)"
    using ok unfolding nodes_ok_def by (auto elim: list_all2_mono)
  then show ids: "map pn_id (cs_plan st) = map node_id (fs_nodes fs)"
    by (simp add: list_all2_conv_all_nth list_eq_iff_nth_eq)
  have "mset (plan_ids plan) = mset (map pn_id (cs_plan st))" by (simp add: plan_ids_def plan)
  then have "set (plan_ids plan) = set (map node_id (fs_nodes fs))" "distinct (plan_ids plan)"
    using ids ok mset_eq_setD mset_eq_imp_distinct_iff unfolding nodes_ok_def by metis+
  then show "set (sortedKeys (cs_nodes st)) = set (plan_ids plan)" "sorted_wrt (<) (plan_ids plan)"
    using ok by (auto simp: sortedKeys_def nodes_ok_def strict_sorted_iff plan_ids_def plan image_image)
qed

lemma result_edge_range:
  assumes r: "compile_result ce meta fs st components plan ds"
  shows "plan_edge_rel plan \<subseteq> set (plan_ids plan) \<times> set (plan_ids plan)"
proof
  fix p assume "p \<in> plan_edge_rel plan"
  then have "p \<in> edge_rel (build_adjacency (cs_nodes st) (fs_edges fs))" using result_edges[OF r] by simp
  then have "fst p \<in> dom (map_of (cs_nodes st)) \<and> snd p \<in> dom (map_of (cs_nodes st))" unfolding edge_rel_build by auto
  then show "p \<in> set (plan_ids plan) \<times> set (plan_ids plan)"
    using result_ids(1)[OF r] by (cases p) (auto simp: sortedKeys_def dom_map_of_conv_image_fst)
qed

lemma adjacency_closed:
  "\<forall>x \<in> set (sortedKeys nodes). set (succs (build_adjacency nodes es) x) \<subseteq> set (sortedKeys nodes)"
proof (intro ballI subsetI)
  fix x y assume "y \<in> set (succs (build_adjacency nodes es) x)"
  then have "(x, y) \<in> edge_rel (build_adjacency nodes es)" by (simp add: edge_rel_def)
  then obtain n where "map_of nodes y = Some n" unfolding edge_rel_build by blast
  then show "y \<in> set (sortedKeys nodes)" by (force simp: sortedKeys_def dest: map_of_SomeD)
qed

lemma result_components:
  assumes r: "compile_result ce meta fs st components plan ds"
  shows "set ` set components = (\<lambda>u. {v. (u, v) \<in> (plan_edge_rel plan)\<^sup>* \<and> (v, u) \<in> (plan_edge_rel plan)\<^sup>*}) ` set (plan_ids plan)"
    "distinct (concat components)" "\<forall>c \<in> set components. sorted c \<and> c \<noteq> []" "sorted (map hd components)"
proof -
  let ?adj = "build_adjacency (cs_nodes st) (fs_edges fs)"
  note sub = adjacency_closed[of "cs_nodes st" "fs_edges fs"]
  have "stronglyConnected (sortedKeys (cs_nodes st)) ?adj = Some components" using r by (simp add: compile_result_def)
  then show "set ` set components = (\<lambda>u. {v. (u, v) \<in> (plan_edge_rel plan)\<^sup>* \<and> (v, u) \<in> (plan_edge_rel plan)\<^sup>*}) ` set (plan_ids plan)"
    "distinct (concat components)" "\<forall>c \<in> set components. sorted c \<and> c \<noteq> []" "sorted (map hd components)"
    using stronglyConnected_correct[OF sub] result_edges[OF r] result_ids(1)[OF r] by (auto simp: scc_def)
qed

text \<open>A node on a cycle is in a component the compiler calls cyclic.\<close>

lemma on_cycle:
  assumes r: "compile_result ce meta fs st components plan ds" and v: "(v, v) \<in> (plan_edge_rel plan)\<^sup>+"
  obtains c where "c \<in> set components" "set c = {w. (v, w) \<in> (plan_edge_rel plan)\<^sup>* \<and> (w, v) \<in> (plan_edge_rel plan)\<^sup>*}"
    "cyclic (build_adjacency (cs_nodes st) (fs_edges fs)) c"
proof -
  let ?E = "plan_edge_rel plan" and ?adj = "build_adjacency (cs_nodes st) (fs_edges fs)"
  obtain u where u: "(v, u) \<in> ?E" "(u, v) \<in> ?E\<^sup>*" using v by (meson tranclD)
  then have "(v, u) \<in> edge_rel ?adj" using result_edges[OF r] by simp
  then obtain n where "map_of (cs_nodes st) v = Some n" unfolding edge_rel_build by blast
  then have "v \<in> set (plan_ids plan)" using result_ids(1)[OF r] by (force simp: sortedKeys_def dest: map_of_SomeD)
  then obtain c where c: "c \<in> set components" "set c = {w. (v, w) \<in> ?E\<^sup>* \<and> (w, v) \<in> ?E\<^sup>*}"
    using result_components(1)[OF r] by (metis (no_types, lifting) image_iff)
  have in_c: "v \<in> set c" "u \<in> set c" using c(2) u by auto
  have "cyclic ?adj c"
  proof (cases "length c > 1")
    case False
    then obtain x where x: "c = [x]" using in_c(1) by (cases c) auto
    then have "u = v" "x = v" using in_c by auto
    then have "v \<in> set (succs ?adj v)" using u(1) result_edges[OF r] by (auto simp: edge_rel_def)
    then show ?thesis using x \<open>x = v\<close> by (simp add: cyclic_def)
  qed (simp add: cyclic_def)
  then show thesis using that c by blast
qed

text \<open>C35: An accepted plan is well formed. When the compiler reports no error, the nodes of the plan have distinct,
  valid identifiers in ascending order, a valid action, a retry limit between 0 and 100 and a loop bound of at most 1000,
  every edge joins two nodes of the plan, and the parallelism is between 1 and 128.\<close>

theorem accepted_plan_is_well_formed:
  assumes "Compile ce meta fs = Some (plan, ds)" and "\<not> HasErrors ds"
  shows "sorted_wrt (<) (plan_ids plan) \<and> list_all plan_node_ok (plan_nodes plan) \<and>
    plan_edge_rel plan \<subseteq> set (plan_ids plan) \<times> set (plan_ids plan) \<and> 1 \<le> plan_maxParallel plan \<and> plan_maxParallel plan \<le> 128"
proof -
  obtain st components where r: "compile_result ce meta fs st components plan ds" using CompileE[OF assms] .
  have "list_all plan_node_ok (cs_plan st)"
    using r by (auto simp: compile_result_def nodes_ok_def list_all2_conv_all_nth list_all_length)
  then have "list_all plan_node_ok (plan_nodes plan)" using r by (simp add: compile_result_def list_all_iff)
  then show ?thesis using result_edge_range[OF r] r result_ids(2)[OF r] by (simp add: compile_result_def)
qed

text \<open>C18: An accepted plan has no unbounded cycle. Through every node that lies on a cycle of the plan's edges there is a
  cycle with a node whose loop bound is between 1 and 1000.\<close>

theorem accepted_cycles_are_bounded:
  assumes "Compile ce meta fs = Some (plan, ds)" and "\<not> HasErrors ds" and "(v, v) \<in> (plan_edge_rel plan)\<^sup>+"
  shows "\<exists>n \<in> set (plan_nodes plan). (v, pn_id n) \<in> (plan_edge_rel plan)\<^sup>* \<and> (pn_id n, v) \<in> (plan_edge_rel plan)\<^sup>* \<and>
    1 \<le> pn_loopMaxIterations n \<and> pn_loopMaxIterations n \<le> 1000"
proof -
  obtain st components where r: "compile_result ce meta fs st components plan ds" using CompileE[OF assms(1,2)] .
  obtain c where c: "c \<in> set components" "set c = {w. (v, w) \<in> (plan_edge_rel plan)\<^sup>* \<and> (w, v) \<in> (plan_edge_rel plan)\<^sup>*}"
    "cyclic (build_adjacency (cs_nodes st) (fs_edges fs)) c" using on_cycle[OF r assms(3)] .
  have "has_finite_loop (cs_nodes st) c" using r c(1,3) by (auto simp: compile_result_def cycle_diags_def filter_empty_conv)
  then obtain i n l where i: "i \<in> set c" "map_of (cs_nodes st) i = Some n" "node_loop n = Some l" "loop_maxIterations l > 0"
    by (auto simp: has_finite_loop_def list_ex_iff split: option.splits bind_splits)
  have ok: "nodes_ok (fs_nodes fs) st" using r by (simp add: compile_result_def)
  then have n: "n \<in> set (fs_nodes fs)" "i = node_id n" using map_of_SomeD[OF i(2)] by (auto simp: nodes_ok_def)
  then obtain k where k: "k < length (fs_nodes fs)" "fs_nodes fs ! k = n" by (metis in_set_conv_nth)
  define p where "p = cs_plan st ! k"
  have p: "p \<in> set (cs_plan st)" "pn_id p = node_id n" "plan_node_ok p" "pn_loopMaxIterations p = loop_maxIterations l"
    using ok i(3) k by (auto simp: nodes_ok_def list_all2_conv_all_nth p_def)
  then have "p \<in> set (plan_nodes plan)" using r by (simp add: compile_result_def)
  then show ?thesis using p i(1,4) n(2) c(2) by (intro bexI[of _ p]) (auto simp: plan_node_ok_def)
qed

text \<open>C36: The components of an accepted plan are the strongly connected components of its graph: they are the classes of
  mutual reachability, pairwise disjoint, each sorted, and listed in the order of their first nodes.\<close>

theorem accepted_components_are_sccs:
  assumes "Compile ce meta fs = Some (plan, ds)" and "\<not> HasErrors ds"
  shows "set ` set (plan_components plan) =
      (\<lambda>u. {v. (u, v) \<in> (plan_edge_rel plan)\<^sup>* \<and> (v, u) \<in> (plan_edge_rel plan)\<^sup>*}) ` set (plan_ids plan) \<and>
    distinct (concat (plan_components plan)) \<and> (\<forall>c \<in> set (plan_components plan). sorted c \<and> c \<noteq> []) \<and>
    sorted (map hd (plan_components plan))"
proof -
  obtain st components where r: "compile_result ce meta fs st components plan ds" using CompileE[OF assms] .
  then have "plan_components plan = components" by (simp add: compile_result_def)
  then show ?thesis using result_components[OF r] by simp
qed


text \<open>Lists of disjoint sorted lists, in the order of their first elements, are determined by the sets.\<close>

lemma components_unique:
  fixes xs ys :: "('a :: linorder) list list"
  assumes x: "distinct (concat xs)" "\<forall>c \<in> set xs. sorted c \<and> c \<noteq> []" "sorted (map hd xs)"
    and y: "distinct (concat ys)" "\<forall>c \<in> set ys. sorted c \<and> c \<noteq> []" "sorted (map hd ys)"
    and same: "set ` set xs = set ` set ys"
  shows "xs = ys"
proof -
  have sub: "set as \<subseteq> set bs" if a: "distinct (concat as)" "\<forall>c \<in> set as. sorted c \<and> c \<noteq> []"
    and b: "distinct (concat bs)" "\<forall>c \<in> set bs. sorted c \<and> c \<noteq> []" and e: "set ` set as = set ` set bs"
    for as bs :: "'a list list"
  proof
    fix c assume c: "c \<in> set as"
    then obtain d where d: "d \<in> set bs" "set c = set d" using e by (metis (no_types, lifting) image_iff)
    have "c = d" using c d a b by (intro sorted_distinct_set_unique) (auto simp: distinct_concat_iff)
    then show "c \<in> set bs" using d by simp
  qed
  have eq: "set xs = set ys" using sub[OF x(1,2) y(1,2) same] sub[OF y(1,2) x(1,2) same[symmetric]] by blast
  have inj: "inj_on hd (set as)" if "distinct (concat as)" "\<forall>c \<in> set as. sorted c \<and> c \<noteq> []" for as :: "'a list list"
  proof (rule inj_onI)
    fix c d assume cd: "c \<in> set as" "d \<in> set as" "hd c = hd d"
    then have "hd c \<in> set c \<inter> set d" using that(2) by (metis IntI hd_in_set)
    then show "c = d" using that(1) cd by (auto simp: distinct_concat_iff)
  qed
  have dist: "distinct (map hd as)" if "distinct (concat as)" "\<forall>c \<in> set as. sorted c \<and> c \<noteq> []" for as :: "'a list list"
  proof -
    have "distinct (removeAll [] as)" using that(1) by (simp add: distinct_concat_iff)
    moreover have "removeAll [] as = as" using that(2) by (auto simp: removeAll_id)
    ultimately show ?thesis using inj[OF that] by (simp add: distinct_map)
  qed
  show ?thesis
    by (rule map_sorted_distinct_set_unique[of hd])
      (use eq inj[OF x(1,2)] dist[OF x(1,2)] dist[OF y(1,2)] x(3) y(3) in auto)
qed

text \<open>The plan is canonical: two Flows with the same metadata that differ only in the order in which they list
  their nodes and edges compile to the same plan, hash included, once the compiler accepts them.\<close>

theorem plan_is_canonical:
  assumes "Compile ce meta fs = Some (plan, ds)" and "\<not> HasErrors ds"
    and "Compile ce meta fs' = Some (plan', ds')" and "\<not> HasErrors ds'"
    and "mset (fs_nodes fs) = mset (fs_nodes fs')" and "mset (fs_edges fs) = mset (fs_edges fs')"
    and "fs_policies fs = fs_policies fs'" and "fs_inputSchema fs = fs_inputSchema fs'"
  shows "plan = plan'"
proof -
  obtain st cs where r: "compile_result ce meta fs st cs plan ds" using CompileE[OF assms(1,2)] .
  obtain st' cs' where r': "compile_result ce meta fs' st' cs' plan' ds'" using CompileE[OF assms(3,4)] .
  have pol: "compile_timeout fs = compile_timeout fs'" "compile_maxParallel fs = compile_maxParallel fs'"
    using assms(7) by (simp_all add: compile_timeout_def compile_maxParallel_def)
  have orig: "plan_origin ce meta fs st cs plan ds" "plan_origin ce meta fs' st' cs' plan' ds'"
    using r r' by (auto simp: compile_result_def)
  then have nodes: "mset (cs_plan st) = mset (cs_plan st')"
    using assms(5) pol(1) by (simp add: plan_origin_def)
  have "distinct (map pn_id (cs_plan st))" using r result_ids(3)[OF r] by (simp add: compile_result_def nodes_ok_def)
  then have pn: "sort_key pn_id (cs_plan st) = sort_key pn_id (cs_plan st')"
    using sort_key_canonical[OF nodes, of pn_id] by (simp add: distinct_map)
  have "inj edge_key" by (rule injI) (simp add: edge_key_def)
  moreover have em: "mset (map plan_edge_of (fs_edges fs)) = mset (map plan_edge_of (fs_edges fs'))" using assms(6) by simp
  ultimately have pe: "sort_key edge_key (map plan_edge_of (fs_edges fs)) = sort_key edge_key (map plan_edge_of (fs_edges fs'))"
    by (intro sort_key_canonical) (auto intro: inj_on_subset)
  have "plan_nodes plan = plan_nodes plan'" "plan_edges plan = plan_edges plan'" using r r' pn pe by (simp_all add: compile_result_def)
  then have "plan_edge_rel plan = plan_edge_rel plan'" "plan_ids plan = plan_ids plan'"
    by (simp_all add: plan_edge_rel_def plan_ids_def)
  then have "cs = cs'" using result_components[OF r] result_components[OF r'] by (intro components_unique) auto
  then show ?thesis
    using orig assms(2,4,8) pol pn pe unfolding plan_origin_def seal_plan_def unsealed_plan_def HasErrors_def by simp
qed

section \<open>The compiler returns\<close>

text \<open>What the compiler needs of the schema library: the schemas it compiles have no cyclic chain of \<open>$ref\<close> pointers,
  and the open object schema compiles.\<close>

definition refs_end :: "js_schema \<Rightarrow> bool" where
  "refs_end s \<longleftrightarrow> (\<forall>a. \<exists>b. dereference (js_at s) a = Some b)"

definition lib_ok :: "js_lib \<Rightarrow> bool" where
  "lib_ok lib \<longleftrightarrow> (\<forall>raw s. js_compile lib raw = Inr s \<longrightarrow> refs_end s) \<and> (\<exists>s. js_compile lib open_object_schema = Inr s)"

lemma compile_schema_refs_end: "lib_ok lib \<Longrightarrow> compile_schema lib raw = Inr s \<Longrightarrow> refs_end s"
  by (auto simp: lib_ok_def compile_schema_def)

lemma schemaType_returns: "refs_end s \<Longrightarrow> \<exists>t. schemaType (js_at s) a = Some t"
  by (cases a) (auto simp: schemaType_def refs_end_def bind_eq_Some_conv)

lemma resolve_returns: "refs_end s \<Longrightarrow> \<exists>r. resolve (js_at s) a parts d = Some r"
proof (induction "js_at s" a parts d rule: resolve.induct)
  case (2 a d)
  obtain b where b: "dereference (js_at s) a = Some b" using "2.prems" by (auto simp: refs_end_def)
  obtain t where "schemaType (js_at s) (Some b) = Some t" using schemaType_returns[OF "2.prems"] by blast
  then show ?case using b by simp
next
  case (3 a part rest d)
  obtain b where b: "dereference (js_at s) a = Some b" using "3.prems" by (auto simp: refs_end_def)
  obtain t where t: "schemaType (js_at s) (Some b) = Some t" using schemaType_returns[OF "3.prems"] by blast
  show ?case using "3.hyps"[OF b t] "3.prems" b t
    by (auto split: option.splits js_additional.splits)
qed auto

lemma ResolveDot_returns: "refs_end s \<Longrightarrow> \<exists>r. ResolveDot s parts = Some r"
  by (simp add: ResolveDot_def resolve_returns)

lemma ResolvePointer_returns: "refs_end s \<Longrightarrow> \<exists>r. ResolvePointer s p = Some r"
  by (simp add: ResolvePointer_def resolve_returns split: option.splits)

lemma those_returns: "\<forall>x \<in> set xs. \<exists>y. x = Some y \<Longrightarrow> \<exists>ys. those xs = Some ys"
  by (induction xs) auto

lemma validateShape_returns: "refs_end s \<Longrightarrow> \<exists>vs. validateShape (js_at s) a v path = Some vs"
proof (induction "size v" arbitrary: a v path rule: less_induct)
  case less
  show ?case
  proof (cases a)
    case (Some a')
    obtain b where b: "dereference (js_at s) a' = Some b" using less.prems by (auto simp: refs_end_def)
    obtain t where t: "schemaType (js_at s) (Some b) = Some t" using schemaType_returns[OF less.prems] by blast
    have ih: "\<exists>vs. validateShape (js_at s) c w q = Some vs" if "size w < size v" for c w q
      using less.hyps[OF that less.prems] .
    show ?thesis
    proof (cases v)
      case (JObj kvs)
      let ?f = "\<lambda>p. case field_schema (js_at s b) (fst p) of
          Inl _ \<Rightarrow> Some [vio (path @ [fst p]) ''unknown_field'' ''field is not declared by the closed schema'']
        | Inr None \<Rightarrow> Some [] | Inr (Some c) \<Rightarrow> validateShape (js_at s) (Some c) (snd p) (path @ [fst p])"
      have "\<forall>x \<in> set (map ?f (sort_key fst kvs)). \<exists>y. x = Some y"
        using ih size_sorted_entry[of _ kvs] JObj by (auto split: sum.splits option.splits)
      then obtain ys where "those (map ?f (sort_key fst kvs)) = Some ys" using those_returns by blast
      then show ?thesis using b t JObj Some by (subst validateShape.simps) simp
    next
      case (JArr xs)
      have "\<forall>x \<in> set (map (\<lambda>p. validateShape (js_at s) (Some i) (snd p) (path @ [itoa (fst p)])) (enumerate 0 xs)). \<exists>y. x = Some y" for i
        using ih size_enumerated[of _ 0 xs] JArr by auto
      then have "\<exists>ys. those (map (\<lambda>p. validateShape (js_at s) (Some i) (snd p) (path @ [itoa (fst p)])) (enumerate 0 xs)) = Some ys" for i
        by (rule those_returns)
      then have "\<exists>vs. (case item_schema (js_at s b) of None \<Rightarrow> Some [] | Some i \<Rightarrow> map_option concat
          (those (map (\<lambda>p. validateShape (js_at s) (Some i) (snd p) (path @ [itoa (fst p)])) (enumerate 0 xs)))) = Some vs"
        by (cases "item_schema (js_at s b)") auto
      then show ?thesis using b t JArr Some by (subst validateShape.simps) simp
    qed (use b t Some in \<open>subst validateShape.simps, simp\<close>)+
  qed (subst validateShape.simps, simp)
qed

lemma Validate_returns: "refs_end s \<Longrightarrow> \<exists>vs. Validate lib s v = Some vs"
  using validateShape_returns[of s "Some (js_root s)" v "[]"] by (auto simp: Validate_def)

lemma typed_path_returns: "(\<And>s. schema = Some s \<Longrightarrow> refs_end s) \<Longrightarrow> \<exists>r. typed_path schema ps = Some r"
  using ResolveDot_returns[of _ ps] by (cases schema) (fastforce simp: typed_path_def)+

lemma outputSchema_refs_end: "lib_ok lib \<Longrightarrow> outputSchema lib c = Some s \<Longrightarrow> refs_end s"
  using compile_schema_refs_end by (auto simp: outputSchema_def split: option.splits sum.splits)

lemma infer_path_returns:
  assumes "lib_ok lib" "refs_end ci"
  shows "\<exists>r. infer_path lib n ci contracts root parts = Some r"
proof -
  have "\<exists>r. typed_path (outputSchema lib c) ps = Some r" for c ps
    by (rule typed_path_returns) (rule outputSchema_refs_end[OF assms(1)])
  moreover have "\<exists>r. typed_path (Some ci) ps = Some r" for ps
    by (rule typed_path_returns) (use assms(2) in simp)
  ultimately show ?thesis unfolding infer_path_def by (cases parts) (simp_all del: split_paired_Ex)
qed

lemma infer_all_returns: "\<forall>x \<in> set rs. \<exists>y. x = Some y \<Longrightarrow> \<exists>r. infer_all rs d = Some r"
  by (induction rs d rule: infer_all.induct) auto

lemma inferCELType_returns:
  assumes "lib_ok lib" "refs_end ci"
  shows "\<exists>r. inferCELType lib n ci contracts e = Some r"
proof (induction e)
  case (CCall f target args)
  have all: "\<forall>x \<in> set (map (inferCELType lib n ci contracts) args). \<exists>y. x = Some y" using CCall(2) by auto
  then have "\<exists>r. infer_ternary (map (inferCELType lib n ci contracts) args) = Some r"
    by (auto simp: infer_ternary_def split: list.splits)
  moreover have "\<exists>r. infer_all (map (inferCELType lib n ci contracts) args @
      (case target of None \<Rightarrow> [] | Some t \<Rightarrow> [inferCELType lib n ci contracts t])) False = Some r"
    by (rule infer_all_returns) (use all CCall(1) in \<open>auto split: option.splits\<close>)
  ultimately show ?case by (simp del: split_paired_Ex)
next
  case (CSelect operand field t)
  show ?case by (cases "celSelectPath (CSelect operand field t)") (use infer_path_returns[OF assms] in \<open>auto simp del: split_paired_Ex\<close>)
qed (use infer_path_returns[OF assms] in \<open>simp_all del: split_paired_Ex\<close>)

lemma mappingSource_returns:
  assumes "lib_ok lib" "refs_end ci"
  shows "\<exists>r. mappingSource lib path from dest nodes adj ci contracts = Some r"
proof -
  have "\<exists>r. (case ac_outputSchema c of None \<Rightarrow> Some (open_resolution, True, [])
      | Some raw \<Rightarrow> (case compile_schema lib raw of Inl _ \<Rightarrow> Some (no_resolution, False, f)
          | Inr schema \<Rightarrow> map_option g (ResolveDot schema ps))) = Some r" for c f g ps
    using ResolveDot_returns[OF compile_schema_refs_end[OF assms(1)], of _ _ ps]
    by (cases "ac_outputSchema c"; simp del: split_paired_Ex split: sum.splits; fastforce)
  then show ?thesis using ResolveDot_returns[OF assms(2)]
    unfolding mappingSource_def Let_def
    by (cases "from"; simp only: option.case if_distrib[of "\<lambda>x. \<exists>r. x = Some r"]; auto simp del: split_paired_Ex)
qed

lemma fold_opt_returns: "(\<And>x s. \<exists>s'. f x s = Some s') \<Longrightarrow> \<exists>s'. fold_opt f xs s = Some s'"
proof (induction xs arbitrary: s)
  case (Cons x xs)
  obtain s1 where "f x s = Some s1" using Cons.prems by blast
  then show ?case using Cons.IH[OF Cons.prems, of s1] by simp
qed simp

lemma mapping_item_returns:
  assumes "lib_ok (me_lib me)" "refs_end (me_input me)" "refs_end cs"
  shows "\<exists>r. mapping_item me nid cs path p st = Some r"
proof (cases "snd p")
  case (JObj mapping)
  let ?item = "index_path (path @ ''.mappings'') (fst p)"
  obtain src ok sd where src: "mappingSource (me_lib me) (?item @ ''.from'') (str_field ''from'' mapping) nid
      (me_nodes me) (me_adjacency me) (me_input me) (me_contracts me) = Some (src, ok, sd)"
    using mappingSource_returns[OF assms(1,2)] by (metis prod_cases3)
  show ?thesis
  proof (cases "str_field ''to'' mapping")
    case None
    then show ?thesis using JObj src by (simp add: mapping_item_def Let_def del: split_paired_Ex)
  next
    case (Some pointer)
    obtain target where "ResolvePointer cs pointer = Some target" using ResolvePointer_returns[OF assms(3)] by blast
    then show ?thesis using JObj src Some by (simp add: mapping_item_def Let_def del: split_paired_Ex split: sum.splits)
  qed
qed (simp_all add: mapping_item_def Let_def)

lemma validateMappings_returns:
  assumes l: "lib_ok (me_lib me)" and i: "refs_end (me_input me)"
  shows "\<exists>r. validateMappings me k node config = Some r"
proof (cases "Option.bind (map_of (me_contracts me) (node_id node)) ac_configSchema")
  case (Some raw)
  show ?thesis
  proof (cases "compile_schema (me_lib me) raw")
    case (Inr s)
    have s: "refs_end s" using compile_schema_refs_end[OF l Inr] .
    show ?thesis
    proof (cases "cloneMap config")
      case inl: (Inl e)
      then show ?thesis using Some Inr by (simp add: validateMappings_def Let_def)
    next
      case inr: (Inr cloned)
      have v: "\<exists>vs. Validate (me_lib me) s w = Some vs" for w using Validate_returns[OF s] .
      have f: "\<exists>st. fold_opt (mapping_item me (node_id node) s path) xs st0 = Some st" for path xs st0
        using fold_opt_returns[OF mapping_item_returns[OF l i s]] .
      show ?thesis
      proof (cases "map_of cloned ''mappings''")
        case None
        then show ?thesis using v[of "JObj (map_del ''mappings'' (map_del ''secretRefs'' cloned))"] Some Inr inr
          by (auto simp: validateMappings_def Let_def)
      next
        case raw: (Some m)
        show ?thesis
        proof (cases m)
          case (JArr items)
          obtain ds pr where "fold_opt (mapping_item me (node_id node) s (node_path k @ ''.with'')) (enumerate 0 items)
              ([], map_del ''mappings'' (map_del ''secretRefs'' cloned)) = Some (ds, pr)"
            using f by (metis surj_pair)
          then show ?thesis using v[of "JObj pr"] Some Inr inr raw JArr by (auto simp: validateMappings_def Let_def)
        qed (use Some Inr inr raw in \<open>simp_all add: validateMappings_def Let_def\<close>)
      qed
    qed
  qed (use Some in \<open>simp add: validateMappings_def Let_def\<close>)
qed (simp add: validateMappings_def Let_def)

lemma compile_node_returns:
  assumes l: "lib_ok (ce_js ce)" and ci: "refs_end ci"
  shows "\<exists>r. compile_node ce ns t ci p st = Some r"
proof -
  have "\<exists>ds. action_input_diags (ce_js ce) ci path c = Some ds" for path c
  proof (cases "ac_inputSchema c")
    case (Some raw)
    then show ?thesis
    proof (cases "compile_schema (ce_js ce) raw")
      case (Inr s)
      obtain r1 r2 where "ResolveDot ci [] = Some r1" "ResolveDot s [] = Some r2"
        using ResolveDot_returns[OF ci] ResolveDot_returns[OF compile_schema_refs_end[OF l Inr]] by blast
      then show ?thesis using Some Inr by (simp add: action_input_diags_def)
    qed (simp add: action_input_diags_def)
  qed (simp add: action_input_diags_def)
  then have "\<exists>ds. (case b of None \<Rightarrow> Some [] | Some b \<Rightarrow> action_input_diags (ce_js ce) ci path (ab_contract b)) = Some ds" for b path
    by (cases b) auto
  then show ?thesis unfolding compile_node_def Let_def
    by (cases "bind_node (ce_capabilities ce) ns (node_path (fst p)) (snd p)")
      (auto simp: Option.bind_eq_Some_conv split: prod.splits)
qed

lemma edge_diags_returns:
  assumes l: "lib_ok (ce_js ce)" and ci: "refs_end ci"
  shows "\<exists>r. edge_diags ce ci st p = Some r"
proof -
  have "\<exists>r. typedCELDiagnostics (ce_js ce) path ex n ci cs = Some r" for path ex n cs
    using inferCELType_returns[OF l ci, of n cs ex] by (auto simp: typedCELDiagnostics_def)
  then have "\<exists>r. condition_diags ce ci cs path e = Some r" for cs path e
    by (auto simp: condition_diags_def split: sum.splits option.splits)
  then show ?thesis by (simp add: edge_diags_def Let_def)
qed

lemma CompileI:
  assumes "compile_input ce fs = Some (ids, isj, ci)" "compile_timeout fs = (td, tm)" "compile_maxParallel fs = (pd, mp)"
    and "fold_opt (compile_node ce (meta_namespace meta) tm ci) (enumerate 0 (fs_nodes fs)) empty_state = Some st"
    and "those (map (edge_diags ce ci st) (enumerate 0 (fs_edges fs))) = Some eds"
    and "those (map (\<lambda>p. validateMappings \<lparr>me_lib = ce_js ce, me_nodes = cs_nodes st,
          me_adjacency = build_adjacency (cs_nodes st) (fs_edges fs), me_input = ci, me_contracts = cs_contracts st\<rparr> (fst p) (snd p)
         (case map_of (cs_configs st) (node_id (snd p)) of None \<Rightarrow> [] | Some c \<Rightarrow> c)) (enumerate 0 (fs_nodes fs))) = Some mds"
    and "stronglyConnected (sortedKeys (cs_nodes st)) (build_adjacency (cs_nodes st) (fs_edges fs)) = Some cs"
  shows "\<exists>plan ds. ds = ids @ td @ pd @ cs_diags st @ concat eds @ concat mds @
        cycle_diags (cs_nodes st) (build_adjacency (cs_nodes st) (fs_edges fs)) cs \<and>
      Compile ce meta fs = Some (seal_plan (ce_hash ce) plan ds, ds) \<and> plan_planHash plan = []"
proof -
  let ?plan = "\<lparr>plan_apiVersion = APIVersion, plan_flowUID = meta_uid meta, plan_flowGeneration = meta_generation meta,
    plan_interpreterVersion = InterpreterVersion, plan_timeout = duration_string (nat tm), plan_maxParallel = mp,
    plan_inputSchema = Some isj, plan_nodes = sort_key pn_id (cs_plan st),
    plan_edges = sort_key edge_key (map plan_edge_of (fs_edges fs)), plan_components = cs, plan_planHash = []\<rparr>"
  show ?thesis using assms by (intro exI[of _ ?plan]) (simp add: Compile_def Let_def)
qed


section \<open>Concrete Flows\<close>

definition noop_node :: "string \<Rightarrow> loop_policy option \<Rightarrow> flow_node" where
  "noop_node i l = \<lparr>node_id = i, node_name = [], node_uses = ''core.noop'', node_with = [], node_retry = None,
     node_timeout = [], node_loop = l\<rparr>"

definition sample_edge :: "string \<Rightarrow> string \<Rightarrow> flow_edge" where
  "sample_edge a b = \<lparr>edge_from = a, edge_to = b, edge_when = []\<rparr>"

definition loop_flow :: flow_spec where
  "loop_flow = \<lparr>fs_inputs = [], fs_inputSchema = [], fs_policies = \<lparr>pol_timeout = [], pol_maxParallel = 0\<rparr>,
     fs_nodes = [noop_node ''b'' None, noop_node ''a'' (Some \<lparr>loop_maxIterations = 3\<rparr>)],
     fs_edges = [sample_edge ''b'' ''a'', sample_edge ''a'' ''b'']\<rparr>"

definition loop_flow' :: flow_spec where
  "loop_flow' = loop_flow\<lparr>fs_nodes := rev (fs_nodes loop_flow), fs_edges := rev (fs_edges loop_flow)\<rparr>"

definition sample_meta :: object_meta where
  "sample_meta = \<lparr>meta_name = ''f'', meta_namespace = ''default'', meta_uid = ''u'', meta_resourceVersion = 1,
     meta_generation = 1, meta_labels = []\<rparr>"

definition sample_env :: compile_env where
  "sample_env = \<lparr>ce_js = sample_lib,
     ce_cel = \<lparr>cel_compile = (\<lambda>_. Inl ''none''), cel_program = (\<lambda>_. Inl ''none''), cel_eval = (\<lambda>_ _ _ _. Inl ''none'')\<rparr>,
     ce_capabilities = None, ce_hash = (\<lambda>_. ''hash'')\<rparr>"

definition compiled :: "flow_spec \<Rightarrow> execution_plan" where
  "compiled fs = fst (the (Compile sample_env sample_meta fs))"

lemma sample_ids: "nodeID ''a''" "nodeID ''b''" "validAction ''core.noop''" "is_core ''core.noop''"
  by (simp_all add: nodeID_def is_lower_def validAction_def is_core_def has_prefix_def dns_char_def is_digit_def)

lemma sample_step:
  assumes "nodeID i" "map_of (cs_nodes st) i = None" "l = None \<or> (\<exists>k. l = Some \<lparr>loop_maxIterations = k\<rparr> \<and> 1 \<le> k \<and> k \<le> 1000)"
  shows "\<exists>c p. compile_node sample_env ns t ci (j, noop_node i l) st = Some
    \<lparr>cs_nodes = cs_nodes st @ [(i, noop_node i l)], cs_contracts = cs_contracts st @ [(i, c)],
      cs_configs = cs_configs st @ [(i, [])], cs_plan = cs_plan st @ [p], cs_diags = cs_diags st\<rparr> \<and> ac_configSchema c = None"
  using assms sample_ids
  by (auto simp: compile_node_def Let_def noop_node_def bind_node_def sample_env_def node_timeout_of_def node_retry_of_def
      node_loop_of_def ParseDuration_def coreActionContract_def no_contract_def plan_node_of_def)

lemma sample_two_nodes:
  assumes "nodeID i" "nodeID j" "i \<noteq> j" "\<And>l. l \<in> {l1, l2} \<Longrightarrow> l = None \<or> (\<exists>k. l = Some \<lparr>loop_maxIterations = k\<rparr> \<and> 1 \<le> k \<and> k \<le> 1000)"
  obtains st c d where "fold_opt (compile_node sample_env ns t ci) (enumerate 0 [noop_node i l1, noop_node j l2]) empty_state = Some st"
    "cs_nodes st = [(i, noop_node i l1), (j, noop_node j l2)]" "cs_contracts st = [(i, c), (j, d)]"
    "cs_configs st = [(i, []), (j, [])]" "cs_diags st = []" "ac_configSchema c = None" "ac_configSchema d = None"
proof -
  obtain c p where 1: "compile_node sample_env ns t ci (0, noop_node i l1) empty_state = Some
    \<lparr>cs_nodes = [(i, noop_node i l1)], cs_contracts = [(i, c)], cs_configs = [(i, [])], cs_plan = [p], cs_diags = []\<rparr>"
    "ac_configSchema c = None"
    using sample_step[of i empty_state l1 ns t ci 0] assms by (auto simp: empty_state_def)
  let ?st = "\<lparr>cs_nodes = [(i, noop_node i l1)], cs_contracts = [(i, c)], cs_configs = [(i, [])], cs_plan = [p], cs_diags = []\<rparr>"
  obtain d q where 2: "compile_node sample_env ns t ci (1, noop_node j l2) ?st = Some
    \<lparr>cs_nodes = [(i, noop_node i l1), (j, noop_node j l2)], cs_contracts = [(i, c), (j, d)], cs_configs = [(i, []), (j, [])],
      cs_plan = [p, q], cs_diags = []\<rparr>" "ac_configSchema d = None"
    using sample_step[of j ?st l2 ns t ci 1] assms by auto
  let ?st2 = "\<lparr>cs_nodes = [(i, noop_node i l1), (j, noop_node j l2)], cs_contracts = [(i, c), (j, d)],
    cs_configs = [(i, []), (j, [])], cs_plan = [p, q], cs_diags = []\<rparr>"
  show thesis by (rule that[of ?st2 c d]) (use 1 2 in simp_all)
qed

lemma sample_sccs:
  "stronglyConnected [''a'', ''b''] [(''b'', [''a'']), (''a'', [''b''])] = Some [[''a'', ''b'']]"
  "stronglyConnected [''a'', ''b''] [(''a'', [''b'']), (''b'', [''a''])] = Some [[''a'', ''b'']]"
  by code_simp+

lemma sample_compiles:
  assumes ij: "nodeID i" "nodeID j" "i \<noteq> j" and l: "\<And>l. l \<in> {l1, l2} \<Longrightarrow> l = None \<or> (\<exists>k. l = Some \<lparr>loop_maxIterations = k\<rparr> \<and> 1 \<le> k \<and> k \<le> 1000)"
    and fs: "fs_nodes fs = [noop_node i l1, noop_node j l2]" "fs_edges fs = [sample_edge i j, sample_edge j i]"
      "fs_inputSchema fs = []" "fs_policies fs = \<lparr>pol_timeout = [], pol_maxParallel = 0\<rparr>"
    and loop: "l1 \<noteq> None \<or> l2 \<noteq> None"
    and sc: "stronglyConnected (sort [i, j]) [(i, [j]), (j, [i])] = Some [c]" "set c = {i, j}"
  shows "\<exists>plan. Compile sample_env sample_meta fs = Some (plan, [])"
proof -
  obtain st a b where st: "fold_opt (compile_node sample_env (meta_namespace sample_meta) (snd (compile_timeout fs)) sample_schema)
      (enumerate 0 [noop_node i l1, noop_node j l2]) empty_state = Some st"
    "cs_nodes st = [(i, noop_node i l1), (j, noop_node j l2)]" "cs_contracts st = [(i, a), (j, b)]"
    "cs_configs st = [(i, []), (j, [])]" "cs_diags st = []" "ac_configSchema a = None" "ac_configSchema b = None"
    using sample_two_nodes[OF ij l] by metis
  have fold: "fold_opt (compile_node sample_env (meta_namespace sample_meta) (snd (compile_timeout fs)) sample_schema)
      (enumerate 0 (fs_nodes fs)) empty_state = Some st" using st(1) fs(1) by simp
  have inp: "compile_input sample_env fs = Some ([], open_object_schema, sample_schema)"
    by (simp add: compile_input_def fs sample_env_def compile_schema_def sample_lib_def open_object_schema_def
        rejectExternalReferences.simps(1) reject_here_def subschemas_def schema_keywords_def list_keywords_def map_keywords_def)
  have tm: "compile_timeout fs = ([], snd (compile_timeout fs))" "compile_maxParallel fs = ([], 1)"
    by (simp_all add: compile_timeout_def compile_maxParallel_def fs ParseDuration_def)
  have adj: "build_adjacency (cs_nodes st) (fs_edges fs) = [(i, [j]), (j, [i])]"
    using ij(3) by (simp add: build_adjacency_def fs(2) add_edge_def sample_edge_def st(2) succs_def map_put_def)
  have ed: "those (map (edge_diags sample_env sample_schema st) (enumerate 0 (fs_edges fs))) = Some [[], []]"
    using ij(3) by (simp add: fs(2) edge_diags_def Let_def sample_edge_def st(2) condition_diags_def)
  have md: "validateMappings \<lparr>me_lib = x, me_nodes = y, me_adjacency = z, me_input = w, me_contracts = cs_contracts st\<rparr> k
      (noop_node m l) cfg = Some []" if "m \<in> {i, j}" for x y z w k m l cfg
    using that ij(3) by (auto simp: validateMappings_def Let_def st noop_node_def validateMappingShapeOnly_def)
  have cyc: "has_finite_loop (cs_nodes st) c"
  proof -
    obtain m lp where m: "m \<in> {i, j}" "map_of (cs_nodes st) m = Some (noop_node m (Some lp))" "loop_maxIterations lp \<ge> 1"
      using loop l[of l1] l[of l2] ij(3) st(2) by force
    then show ?thesis using sc(2) by (force simp: has_finite_loop_def list_ex_iff noop_node_def)
  qed
  have sk: "sortedKeys (cs_nodes st) = sort [i, j]" by (simp add: sortedKeys_def st(2) del: sort_key_simps)
  have cd: "cycle_diags (cs_nodes st) (build_adjacency (cs_nodes st) (fs_edges fs)) [c] = []" using cyc by (simp add: cycle_diags_def)
  have scs: "stronglyConnected (sortedKeys (cs_nodes st)) (build_adjacency (cs_nodes st) (fs_edges fs)) = Some [c]"
    using sc(1) adj sk by simp
  have "those (map (\<lambda>p. validateMappings \<lparr>me_lib = ce_js sample_env, me_nodes = cs_nodes st,
          me_adjacency = build_adjacency (cs_nodes st) (fs_edges fs), me_input = sample_schema, me_contracts = cs_contracts st\<rparr> (fst p) (snd p)
         (case map_of (cs_configs st) (node_id (snd p)) of None \<Rightarrow> [] | Some c \<Rightarrow> c)) (enumerate 0 (fs_nodes fs))) = Some [[], []]"
    by (simp add: fs(1) md)
  from CompileI[OF inp tm fold ed this scs] show ?thesis using cd st(5) by auto
qed

lemma loop_flow_compiles: "\<exists>plan. Compile sample_env sample_meta loop_flow = Some (plan, [])"
  by (rule sample_compiles[of "''b''" "''a''" None "Some \<lparr>loop_maxIterations = 3\<rparr>" _ "[''a'', ''b'']"])
    (use sample_ids sample_sccs in \<open>auto simp: loop_flow_def\<close>)

lemma loop_flow'_compiles: "\<exists>plan. Compile sample_env sample_meta loop_flow' = Some (plan, [])"
  by (rule sample_compiles[of "''a''" "''b''" "Some \<lparr>loop_maxIterations = 3\<rparr>" None _ "[''a'', ''b'']"])
    (use sample_ids sample_sccs in \<open>auto simp: loop_flow_def loop_flow'_def\<close>)

lemma sample_accepted:
  obtains plan where "Compile sample_env sample_meta loop_flow = Some (plan, [])" "\<not> HasErrors []"
    "(''a'', ''a'') \<in> (plan_edge_rel plan)\<^sup>+"
proof -
  obtain plan where plan: "Compile sample_env sample_meta loop_flow = Some (plan, [])" using loop_flow_compiles by blast
  have no: "\<not> HasErrors []" by (simp add: HasErrors_def)
  obtain st cs where "compile_result sample_env sample_meta loop_flow st cs plan []" using CompileE[OF plan no] .
  then have "plan_edge_rel plan = (\<lambda>e. (edge_from e, edge_to e)) ` set (fs_edges loop_flow)"
    by (simp add: compile_result_def plan_edge_rel_def image_image plan_edge_of_def)
  then have "(''a'', ''b'') \<in> plan_edge_rel plan" "(''b'', ''a'') \<in> plan_edge_rel plan"
    by (simp_all add: loop_flow_def sample_edge_def)
  then have "(''a'', ''a'') \<in> (plan_edge_rel plan)\<^sup>+" by (rule trancl_into_trancl2[OF _ r_into_trancl])
  then show thesis using that plan no by blast
qed

theorem accepted_plan_is_well_formed_witness:
  "\<exists>plan. Compile sample_env sample_meta loop_flow = Some (plan, []) \<and> sorted_wrt (<) (plan_ids plan) \<and>
    list_all plan_node_ok (plan_nodes plan)"
proof -
  obtain plan where "Compile sample_env sample_meta loop_flow = Some (plan, [])" "\<not> HasErrors []" by (rule sample_accepted)
  then show ?thesis using accepted_plan_is_well_formed[of sample_env sample_meta loop_flow plan "[]"] by blast
qed

theorem accepted_cycles_are_bounded_witness:
  "\<exists>plan. Compile sample_env sample_meta loop_flow = Some (plan, []) \<and>
    (\<exists>n \<in> set (plan_nodes plan). 1 \<le> pn_loopMaxIterations n \<and> (''a'', pn_id n) \<in> (plan_edge_rel plan)\<^sup>*)"
proof -
  obtain plan where "Compile sample_env sample_meta loop_flow = Some (plan, [])" "\<not> HasErrors []"
    "(''a'', ''a'') \<in> (plan_edge_rel plan)\<^sup>+" by (rule sample_accepted)
  then show ?thesis using accepted_cycles_are_bounded[of sample_env sample_meta loop_flow plan "[]" "''a''"] by blast
qed

theorem accepted_components_are_sccs_witness:
  "\<exists>plan. Compile sample_env sample_meta loop_flow = Some (plan, []) \<and> distinct (concat (plan_components plan))"
proof -
  obtain plan where "Compile sample_env sample_meta loop_flow = Some (plan, [])" "\<not> HasErrors []" by (rule sample_accepted)
  then show ?thesis using accepted_components_are_sccs[of sample_env sample_meta loop_flow plan "[]"] by blast
qed

theorem plan_is_canonical_witness:
  "Compile sample_env sample_meta loop_flow = Compile sample_env sample_meta loop_flow'"
proof -
  obtain plan plan' where p: "Compile sample_env sample_meta loop_flow = Some (plan, [])"
    "Compile sample_env sample_meta loop_flow' = Some (plan', [])"
    using loop_flow_compiles loop_flow'_compiles by blast
  have "plan = plan'"
    by (rule plan_is_canonical[OF p(1) _ p(2)]) (simp_all add: HasErrors_def loop_flow_def loop_flow'_def add_mset_commute)
  then show ?thesis using p by simp
qed


text \<open>The macro \<open>has(input.title)\<close>, a boolean in CEL, is inferred with the type of the field it tests: on an input
  whose schema declares \<open>title\<close> as a string the compiler rejects the condition as not boolean.\<close>

theorem has_macro_is_rejected:
  "typedCELDiagnostics sample_lib path (CSelect (CIdent ''input'') ''title'' True) n sample_schema contracts =
    Some [diag path ''cel_not_boolean'' ''condition resolves to a non-boolean schema type'']"
proof -
  note sample_title
  moreover have "TypeString \<noteq> TypeUnknown" "TypeString AND TypeBoolean = 0" by (simp_all only: type_defs) simp_all
  ultimately show ?thesis by (simp add: typedCELDiagnostics_def infer_path_def typed_path_def)
qed

end
