(* ===== verification/Engine_Plan.thy ===== *)
theory Engine_Plan
  imports Flow_Compiler
begin

text \<open>
  The component model of \<open>internal/engine/engine.go\<close>: the interpreter groups the nodes of a plan by the
  components the compiler found, computes the dependencies between them and orders them by Kahn's
  algorithm. An index of the source is a \<open>nat\<close>; the list of ready components is kept sorted by first
  node as in the source.

  The theorems: on a plan whose components are the strongly connected components of its edges the model
  is built without an error, and the order is a permutation of the components in which every component
  comes after those it depends on.
\<close>

record plan_component =
  pc_nodes :: "string list"
  pc_incoming :: "nat list"
  pc_predecessors :: "nat list"
  pc_cyclic :: bool
  pc_maxIterations :: int

record component_model =
  cm_nodes :: "(string \<times> plan_node) list"
  cm_outgoing :: "(string \<times> nat list) list"
  cm_componentByNode :: "(string \<times> nat) list"
  cm_components :: "plan_component list"
  cm_order :: "nat list"

section \<open>Grouping the nodes\<close>

definition node_table :: "plan_node list \<Rightarrow> (string \<times> plan_node) list" where
  "node_table ns = foldl (\<lambda>m n. map_put (pn_id n) n m) [] ns"

definition all_components :: "execution_plan \<Rightarrow> string list list" where
  "all_components plan = plan_components plan @
     map (\<lambda>n. [pn_id n]) (filter (\<lambda>n. pn_id n \<notin> set (concat (plan_components plan))) (plan_nodes plan))"

definition max_loop :: "(string \<times> plan_node) list \<Rightarrow> string list \<Rightarrow> int" where
  "max_loop nodes ids = foldl (\<lambda>m i. case map_of nodes i of None \<Rightarrow> m
     | Some n \<Rightarrow> if pn_loopMaxIterations n > m then pn_loopMaxIterations n else m) 1 ids"

definition component_of :: "(string \<times> plan_node) list \<Rightarrow> string list \<Rightarrow> (string, plan_component) result" where
  "component_of nodes ids =
     (let sorted = sort ids in
      case filter (\<lambda>i. map_of nodes i = None) sorted of
        i # _ \<Rightarrow> Inl (''plan component references unknown node '' @ i)
      | [] \<Rightarrow> Inr \<lparr>pc_nodes = sorted, pc_incoming = [], pc_predecessors = [], pc_cyclic = False,
          pc_maxIterations = max_loop nodes sorted\<rparr>)"

fun components_of :: "(string \<times> plan_node) list \<Rightarrow> string list list \<Rightarrow> (string, plan_component list) result" where
  "components_of nodes [] = Inr []"
| "components_of nodes (c # cs) =
     bind_res (component_of nodes c) (\<lambda>p. bind_res (components_of nodes cs) (\<lambda>ps. Inr (p # ps)))"

definition component_index :: "string list list \<Rightarrow> (string \<times> nat) list" where
  "component_index cs = foldl (\<lambda>m p. foldl (\<lambda>m i. map_put i (fst p) m) m (sort (snd p))) [] (enumerate 0 cs)"

section \<open>Dependencies\<close>

record edge_state =
  es_outgoing :: "(string \<times> nat list) list"
  es_components :: "plan_component list"
  es_adjacency :: "(nat \<times> nat list) list"
  es_seen :: "(nat \<times> nat) list"
  es_indegree :: "int list"

text \<open>\<open>m[k]\<close> and \<open>m[k] = append(m[k], v)\<close> on a map of slices.\<close>

definition entries :: "('k \<times> 'v list) list \<Rightarrow> 'k \<Rightarrow> 'v list" where
  "entries m k = (case map_of m k of None \<Rightarrow> [] | Some vs \<Rightarrow> vs)"

definition put_append :: "'k \<Rightarrow> 'v \<Rightarrow> ('k \<times> 'v list) list \<Rightarrow> ('k \<times> 'v list) list" where
  "put_append k v m = map_put k (entries m k @ [v]) m"

definition add_plan_edge :: "(string \<times> nat) list \<Rightarrow> nat \<times> plan_edge \<Rightarrow> edge_state \<Rightarrow> (string, edge_state) result" where
  "add_plan_edge byNode p st =
     (let e = snd p in
      case (map_of byNode (pe_from e), map_of byNode (pe_to e)) of
        (Some f, Some t) \<Rightarrow>
          (let st1 = st\<lparr>es_outgoing := put_append (pe_from e) (fst p) (es_outgoing st)\<rparr>; cs = es_components st in
           if f = t then
             Inr (st1\<lparr>es_components := cs[f := (cs ! f)\<lparr>pc_cyclic :=
               pc_cyclic (cs ! f) \<or> length (pc_nodes (cs ! f)) > 1 \<or> pe_from e = pe_to e\<rparr>]\<rparr>)
           else
             (let cs1 = cs[t := (cs ! t)\<lparr>pc_incoming := pc_incoming (cs ! t) @ [fst p]\<rparr>] in
              if (f, t) \<in> set (es_seen st) then Inr (st1\<lparr>es_components := cs1\<rparr>)
              else Inr (st1\<lparr>es_components := cs1[t := (cs1 ! t)\<lparr>pc_predecessors := pc_predecessors (cs1 ! t) @ [f]\<rparr>],
                es_adjacency := put_append f t (es_adjacency st), es_seen := es_seen st @ [(f, t)],
                es_indegree := (es_indegree st)[t := es_indegree st ! t + 1]\<rparr>)))
      | _ \<Rightarrow> Inl (''plan edge references unknown node '' @ pe_from e @ '' -> '' @ pe_to e))"

fun add_plan_edges :: "(string \<times> nat) list \<Rightarrow> (nat \<times> plan_edge) list \<Rightarrow> edge_state \<Rightarrow> (string, edge_state) result" where
  "add_plan_edges byNode [] st = Inr st"
| "add_plan_edges byNode (p # ps) st = bind_res (add_plan_edge byNode p st) (add_plan_edges byNode ps)"

section \<open>Ordering\<close>

definition first_node :: "plan_component list \<Rightarrow> nat \<Rightarrow> string" where
  "first_node cs i = hd (pc_nodes (cs ! i))"

text \<open>The loop over the components that depend on the current one; an index is always in range.\<close>

fun relax :: "plan_component list \<Rightarrow> nat list \<Rightarrow> nat list \<Rightarrow> int list \<Rightarrow> nat list \<times> int list" where
  "relax cs [] ready indegree = (ready, indegree)"
| "relax cs (n # ns) ready indegree =
     (if n < length indegree then
        (let indegree' = indegree[n := indegree ! n - 1]
         in if indegree' ! n = 0 then relax cs ns (sort_key (first_node cs) (ready @ [n])) indegree'
            else relax cs ns ready indegree')
      else relax cs ns ready indegree)"

definition positive :: "int list \<Rightarrow> nat set" where
  "positive d = {i. i < length d \<and> d ! i > 0}"

lemma finite_positive [simp]: "finite (positive d)"
  by (simp add: positive_def)

lemma positive_drop:
  assumes "n < length d" "d ! n - 1 = 0"
  shows "positive d = insert n (positive (d[n := d ! n - 1]))" "n \<notin> positive (d[n := d ! n - 1])"
  using assms by (auto simp: positive_def nth_list_update split: if_splits)

lemma positive_keep: "n < length d \<Longrightarrow> positive (d[n := d ! n - 1]) \<subseteq> positive d"
  by (auto simp: positive_def nth_list_update split: if_splits)

lemma relax_measure:
  "relax cs ns ready d = (r', d') \<Longrightarrow> length r' + card (positive d') \<le> length ready + card (positive d)"
proof (induction cs ns ready d arbitrary: r' d' rule: relax.induct)
  case (2 cs n ns ready d)
  show ?case
  proof (cases "n < length d")
    case True
    show ?thesis
    proof (cases "d ! n - 1 = 0")
      case zero: True
      have "card (positive d) = Suc (card (positive (d[n := d ! n - 1])))"
        using positive_drop[OF True zero] by simp
      moreover have "length r' + card (positive d') \<le> length (sort_key (first_node cs) (ready @ [n])) + card (positive (d[n := d ! n - 1]))"
        using "2.IH"(1)[OF True refl] "2.prems" True zero by simp
      ultimately show ?thesis by simp
    next
      case False
      have "card (positive (d[n := d ! n - 1])) \<le> card (positive d)" using positive_keep[OF True] by (intro card_mono) auto
      moreover have "length r' + card (positive d') \<le> length ready + card (positive (d[n := d ! n - 1]))"
        using "2.IH"(2)[OF True refl] "2.prems" True False by simp
      ultimately show ?thesis by simp
    qed
  next
    case False
    then show ?thesis using "2.IH"(3)[OF False] "2.prems" by simp
  qed
qed simp

function kahn :: "plan_component list \<Rightarrow> (nat \<times> nat list) list \<Rightarrow> nat list \<Rightarrow> int list \<Rightarrow> nat list \<Rightarrow> nat list" where
  "kahn cs adj ready indegree order =
     (case ready of [] \<Rightarrow> order
      | current # rest \<Rightarrow> (case relax cs (entries adj current) rest indegree of
          (ready', indegree') \<Rightarrow> kahn cs adj ready' indegree' (order @ [current])))"
  by pat_completeness auto
termination
  by (relation "measure (\<lambda>(cs, adj, ready, d, order). length ready + card (positive d))")
    (auto dest!: relax_measure[OF sym])

declare kahn.simps [simp del]

definition sort_predecessors :: "plan_component list \<Rightarrow> plan_component list" where
  "sort_predecessors cs = map (\<lambda>c. c\<lparr>pc_predecessors := sort_key (first_node cs) (pc_predecessors c)\<rparr>) cs"

definition sort_outgoing :: "plan_edge list \<Rightarrow> (string \<times> nat list) list \<Rightarrow> (string \<times> nat list) list" where
  "sort_outgoing es m = map (\<lambda>p. (fst p, sort_key (\<lambda>i. (pe_to (es ! i), pe_condition (es ! i))) (snd p))) m"

definition buildComponentModel :: "execution_plan \<Rightarrow> (string, component_model) result" where
  "buildComponentModel plan =
     (let nodes = node_table (plan_nodes plan); groups = all_components plan; byNode = component_index groups in
      bind_res (components_of nodes groups) (\<lambda>cs.
      bind_res (add_plan_edges byNode (enumerate 0 (plan_edges plan))
          \<lparr>es_outgoing = [], es_components = cs, es_adjacency = [], es_seen = [], es_indegree = replicate (length cs) 0\<rparr>) (\<lambda>st.
      let comps = sort_predecessors (es_components st);
          ready = sort_key (first_node comps) (filter (\<lambda>i. es_indegree st ! i = 0) [0..<length (es_indegree st)]);
          order = kahn comps (es_adjacency st) ready (es_indegree st) []
      in bind_res (fail_if (length order \<noteq> length comps) ''plan component graph is cyclic'') (\<lambda>_.
         Inr \<lparr>cm_nodes = nodes, cm_outgoing = sort_outgoing (plan_edges plan) (es_outgoing st), cm_componentByNode = byNode,
           cm_components = comps, cm_order = order\<rparr>))))"

section \<open>Readiness\<close>

definition nextReady :: "component_model \<Rightarrow> nat list \<Rightarrow> bool list \<Rightarrow> nat option" where
  "nextReady m pending completed =
     List.find (\<lambda>position. \<forall>p \<in> set (pc_predecessors (cm_components m ! (pending ! position))). completed ! p) [0..<length pending]"

definition componentActive :: "component_model \<Rightarrow> nat \<Rightarrow> bool list \<Rightarrow> bool" where
  "componentActive m i edgeActive =
     (pc_incoming (cm_components m ! i) = [] \<or> (\<exists>e \<in> set (pc_incoming (cm_components m ! i)). edgeActive ! e))"

definition outgoingEdges :: "component_model \<Rightarrow> execution_plan \<Rightarrow> string \<Rightarrow> plan_edge list" where
  "outgoingEdges m plan i = map (\<lambda>e. plan_edges plan ! e) (entries (cm_outgoing m) i)"

section \<open>Kahn's algorithm is correct\<close>

definition preds :: "(nat \<times> nat list) list \<Rightarrow> nat \<Rightarrow> nat set" where
  "preds adj v = {u. v \<in> set (entries adj u)}"

definition graph_ok :: "nat \<Rightarrow> (nat \<times> nat list) list \<Rightarrow> bool" where
  "graph_ok n adj \<longleftrightarrow> (\<forall>u. distinct (entries adj u) \<and> set (entries adj u) \<subseteq> {..<n}) \<and> (\<forall>v. preds adj v \<subseteq> {..<n})"

definition topological :: "(nat \<times> nat list) list \<Rightarrow> nat list \<Rightarrow> bool" where
  "topological adj order \<longleftrightarrow> (\<forall>i < length order. preds adj (order ! i) \<subseteq> set (take i order))"

definition kahn_inv :: "nat \<Rightarrow> (nat \<times> nat list) list \<Rightarrow> nat list \<Rightarrow> int list \<Rightarrow> nat list \<Rightarrow> bool" where
  "kahn_inv n adj ready d order \<longleftrightarrow> length d = n \<and> distinct (order @ ready) \<and> set (order @ ready) \<subseteq> {..<n} \<and>
     (\<forall>v < n. d ! v = int (card (preds adj v - set order))) \<and>
     (\<forall>v < n. v \<in> set (order @ ready) \<longleftrightarrow> preds adj v \<subseteq> set order) \<and> topological adj order"

lemma relax_spec:
  "relax cs ns ready d = (r', d') \<Longrightarrow> distinct ns \<Longrightarrow> set ns \<subseteq> {..<length d} \<Longrightarrow>
    mset r' = mset ready + mset (filter (\<lambda>v. d ! v = 1) ns) \<and> length d' = length d \<and>
    (\<forall>v < length d. d' ! v = d ! v - (if v \<in> set ns then 1 else 0))"
proof (induction cs ns ready d arbitrary: r' d' rule: relax.induct)
  case (2 cs n ns ready d)
  let ?d = "d[n := d ! n - 1]"
  have n: "n < length d" "n \<notin> set ns" "distinct ns" "set ns \<subseteq> {..<length ?d}" using "2.prems"(2,3) by auto
  have same: "filter (\<lambda>v. ?d ! v = 1) ns = filter (\<lambda>v. d ! v = 1) ns"
    by (rule filter_cong[OF refl]) (metis n(2) nth_list_update_neq)
  show ?case
  proof (cases "d ! n - 1 = 0")
    case True
    have r: "relax cs ns (sort_key (first_node cs) (ready @ [n])) ?d = (r', d')" using "2.prems"(1) n(1) True by simp
    have "?d ! n = 0" using True n(1) by simp
    from "2.IH"(1)[OF n(1) refl this r n(3,4), unfolded same]
    have ih: "mset r' = add_mset n (mset ready) + mset (filter (\<lambda>v. d ! v = 1) ns)" "length d' = length d"
      "\<forall>v < length d. d' ! v = ?d ! v - (if v \<in> set ns then 1 else 0)" by simp_all
    have "d' ! v = d ! v - (if v \<in> set (n # ns) then 1 else 0)" if "v < length d" for v
      using ih(3) that n(2) True by (cases "v = n") (auto simp: nth_list_update)
    then show ?thesis using ih(1,2) True by simp
  next
    case False
    have r: "relax cs ns ready ?d = (r', d')" using "2.prems"(1) n(1) False by simp
    have "?d ! n \<noteq> 0" using False n(1) by simp
    from "2.IH"(2)[OF n(1) refl this r n(3,4), unfolded same]
    have ih: "mset r' = mset ready + mset (filter (\<lambda>v. d ! v = 1) ns)" "length d' = length d"
      "\<forall>v < length d. d' ! v = ?d ! v - (if v \<in> set ns then 1 else 0)" by simp_all
    have "d' ! v = d ! v - (if v \<in> set (n # ns) then 1 else 0)" if "v < length d" for v
      using ih(3) that n(2) by (cases "v = n") (auto simp: nth_list_update)
    then show ?thesis using ih(1,2) False by simp
  qed
qed simp

lemma card_drop:
  assumes "finite A" "c \<notin> B"
  shows "int (card (A - insert c B)) = int (card (A - B)) - (if c \<in> A then 1 else 0)"
proof -
  have e: "A - insert c B = (A - B) - {c}" by auto
  show ?thesis
  proof (cases "c \<in> A")
    case True
    then have "c \<in> A - B" using assms(2) by simp
    then have "card (A - B) = Suc (card ((A - B) - {c}))" using assms(1) by (meson card.remove finite_Diff)
    then show ?thesis using True e by simp
  qed (simp add: e)
qed

lemma kahn_step:
  assumes g: "graph_ok n adj" and inv: "kahn_inv n adj (c # ready) d order"
    and r: "relax cs (entries adj c) ready d = (r', d')"
  shows "kahn_inv n adj r' d' (order @ [c])"
proof -
  have len: "length d = n" and dis: "distinct (order @ c # ready)" and sub: "set (order @ c # ready) \<subseteq> {..<n}"
    and deg: "\<forall>v < n. d ! v = int (card (preds adj v - set order))"
    and mem: "\<forall>v < n. v \<in> set (order @ c # ready) \<longleftrightarrow> preds adj v \<subseteq> set order" and topo: "topological adj order"
    using inv by (auto simp: kahn_inv_def)
  have adj: "distinct (entries adj c)" "set (entries adj c) \<subseteq> {..<length d}" using g len by (auto simp: graph_ok_def)
  have fin: "finite (preds adj v)" for v using g by (meson finite_lessThan finite_subset graph_ok_def)
  note rs = relax_spec[OF r adj]
  have set_r': "set r' = set ready \<union> {v \<in> set (entries adj c). d ! v = 1}"
    using arg_cong[OF conjunct1[OF rs], of set_mset] by auto
  have "c \<notin> set order" using dis by simp
  then have deg': "\<forall>v < n. d' ! v = int (card (preds adj v - set (order @ [c])))"
    using rs deg len card_drop[OF fin, of c "set order"] by (auto simp: preds_def)
  have zero: "card (preds adj v - set order) = 0 \<longleftrightarrow> preds adj v \<subseteq> set order" for v using fin by auto
  have one: "d ! v = 1 \<Longrightarrow> v \<in> set (entries adj c) \<Longrightarrow> v \<notin> set (order @ c # ready)" for v
  proof
    assume v: "d ! v = 1" "v \<in> set (entries adj c)" "v \<in> set (order @ c # ready)"
    then have "v < n" using adj(2) len by auto
    then have "d ! v = 0" using v(3) mem deg zero[of v] by auto
    then show False using v(1) by simp
  qed
  have "distinct r'"
  proof -
    have "distinct (ready @ filter (\<lambda>v. d ! v = 1) (entries adj c))" using dis adj(1) one by auto
    then show ?thesis using conjunct1[OF rs] by (metis mset_append mset_eq_imp_distinct_iff)
  qed
  then have dis': "distinct ((order @ [c]) @ r')" using dis one set_r' by auto
  have sub': "set ((order @ [c]) @ r') \<subseteq> {..<n}" using sub set_r' adj(2) len by auto
  have mem': "v \<in> set ((order @ [c]) @ r') \<longleftrightarrow> preds adj v \<subseteq> set (order @ [c])" if v: "v < n" for v
  proof -
    have "preds adj v \<subseteq> set (order @ [c]) \<longleftrightarrow> d' ! v = 0" using deg' v fin by auto
    also have "\<dots> \<longleftrightarrow> d ! v = (if v \<in> set (entries adj c) then 1 else 0)" using rs v len by auto
    also have "\<dots> \<longleftrightarrow> v \<in> set (order @ c # ready) \<or> (v \<in> set (entries adj c) \<and> d ! v = 1)"
    proof (cases "v \<in> set (entries adj c)")
      case True
      then have "c \<in> preds adj v" by (simp add: preds_def)
      then have "v \<notin> set (order @ c # ready)" using mem v \<open>c \<notin> set order\<close> by auto
      then show ?thesis using True by simp
    next
      case False
      then show ?thesis using mem deg v zero[of v] by auto
    qed
    finally show ?thesis using set_r' by auto
  qed
  have "preds adj c \<subseteq> set order" using mem sub by auto
  then have "topological adj (order @ [c])" using topo by (auto simp: topological_def nth_append less_Suc_eq)
  then show ?thesis unfolding kahn_inv_def using rs len dis' sub' deg' mem' by blast
qed

lemma kahn_end:
  assumes g: "graph_ok n adj" and inv: "kahn_inv n adj [] d order" and acyc: "acyclic {(u, v). v \<in> set (entries adj u)}"
  shows "distinct order \<and> set order = {..<n} \<and> topological adj order"
proof -
  let ?R = "{(u, v). v \<in> set (entries adj u)}"
  have R: "?R \<subseteq> {..<n} \<times> {..<n}" using g by (auto simp: graph_ok_def preds_def)
  then have "wf ?R" using acyc by (meson finite_SigmaI finite_acyclic_wf finite_lessThan finite_subset)
  have o: "distinct order" "set order \<subseteq> {..<n}" "topological adj order" "\<forall>v < n. v \<in> set order \<longleftrightarrow> preds adj v \<subseteq> set order"
    using inv by (auto simp: kahn_inv_def)
  have "{..<n} \<subseteq> set order"
  proof (rule ccontr)
    assume "\<not> ?thesis"
    then obtain v where "v \<in> {..<n} - set order" by blast
    then obtain z where z: "z \<in> {..<n} - set order" "\<And>y. (y, z) \<in> ?R \<Longrightarrow> y \<notin> {..<n} - set order"
      using wfE_min[OF \<open>wf ?R\<close>, of v "{..<n} - set order"] by metis
    then have "preds adj z \<subseteq> set order" using R by (auto simp: preds_def)
    then show False using o(4) z(1) by auto
  qed
  then show ?thesis using o by auto
qed

lemma kahn_correct:
  "graph_ok n adj \<Longrightarrow> acyclic {(u, v). v \<in> set (entries adj u)} \<Longrightarrow> kahn_inv n adj ready d order \<Longrightarrow>
    distinct (kahn cs adj ready d order) \<and>
    set (kahn cs adj ready d order) = {..<n} \<and> topological adj (kahn cs adj ready d order)"
proof (induction cs adj ready d order rule: kahn.induct)
  case (1 cs adj ready d order)
  show ?case
  proof (cases ready)
    case Nil
    then show ?thesis using kahn_end[of n adj d order] "1.prems" by (simp add: kahn.simps)
  next
    case (Cons c rest)
    obtain r' d' where r: "relax cs (entries adj c) rest d = (r', d')" by fastforce
    have "kahn_inv n adj r' d' (order @ [c])" using kahn_step[of n adj c rest d order cs r' d'] "1.prems" Cons r by simp
    then have "distinct (kahn cs adj r' d' (order @ [c])) \<and> set (kahn cs adj r' d' (order @ [c])) = {..<n} \<and>
        topological adj (kahn cs adj r' d' (order @ [c]))"
      using "1.IH"[OF Cons r[symmetric] "1.prems"(1,2)] by simp
    moreover have "kahn cs adj ready d order = kahn cs adj r' d' (order @ [c])" using Cons r by (simp add: kahn.simps[of cs adj "c # rest"])
    ultimately show ?thesis by simp
  qed
qed

section \<open>The dependencies of the components\<close>

lemma entries_put_append: "entries (put_append k v m) x = (if x = k then entries m k @ [v] else entries m x)"
  by (simp add: entries_def put_append_def)

text \<open>The pairs of different components that an edge connects.\<close>

definition cross :: "(string \<times> nat) list \<Rightarrow> (nat \<times> plan_edge) list \<Rightarrow> (nat \<times> nat) set" where
  "cross byNode ps = {(f, t). f \<noteq> t \<and> (\<exists>p \<in> set ps. map_of byNode (pe_from (snd p)) = Some f \<and> map_of byNode (pe_to (snd p)) = Some t)}"

text \<open>The edges that enter a component, and whether one stays inside.\<close>

definition entering :: "(string \<times> nat) list \<Rightarrow> nat \<Rightarrow> (nat \<times> plan_edge) list \<Rightarrow> nat set" where
  "entering byNode i ps = fst ` {p \<in> set ps. map_of byNode (pe_from (snd p)) \<noteq> Some i \<and> map_of byNode (pe_to (snd p)) = Some i}"

definition has_inner :: "(string \<times> nat) list \<Rightarrow> string list \<Rightarrow> nat \<Rightarrow> (nat \<times> plan_edge) list \<Rightarrow> bool" where
  "has_inner byNode ids i ps \<longleftrightarrow> (\<exists>p \<in> set ps. map_of byNode (pe_from (snd p)) = Some i \<and> map_of byNode (pe_to (snd p)) = Some i \<and>
     (length ids > 1 \<or> pe_from (snd p) = pe_to (snd p)))"

definition edges_ok :: "(string \<times> nat) list \<Rightarrow> plan_component list \<Rightarrow> (nat \<times> plan_edge) list \<Rightarrow> edge_state \<Rightarrow> bool" where
  "edges_ok byNode cs ps st \<longleftrightarrow> length (es_components st) = length cs \<and> length (es_indegree st) = length cs \<and>
     (\<forall>i < length cs. pc_nodes (es_components st ! i) = pc_nodes (cs ! i) \<and>
        pc_maxIterations (es_components st ! i) = pc_maxIterations (cs ! i) \<and>
        set (pc_predecessors (es_components st ! i)) = {f. (f, i) \<in> cross byNode ps} \<and>
        es_indegree st ! i = int (card {f. (f, i) \<in> cross byNode ps}) \<and>
        set (pc_incoming (es_components st ! i)) = entering byNode i ps \<and>
        (pc_cyclic (es_components st ! i) \<longleftrightarrow> has_inner byNode (pc_nodes (cs ! i)) i ps)) \<and>
     set (es_seen st) = cross byNode ps \<and>
     (\<forall>u. distinct (entries (es_adjacency st) u) \<and> set (entries (es_adjacency st) u) = {v. (u, v) \<in> cross byNode ps})"

lemma finite_cross: "finite {f. (f, i) \<in> cross byNode ps}"
proof -
  have "{f. (f, i) \<in> cross byNode ps} \<subseteq> (\<lambda>p. the (map_of byNode (pe_from (snd p)))) ` set ps"
    by (force simp: cross_def)
  then show ?thesis by (rule finite_subset) simp
qed

lemma cross_snoc:
  "map_of byNode (pe_from (snd p)) = Some f \<Longrightarrow> map_of byNode (pe_to (snd p)) = Some t \<Longrightarrow>
    cross byNode (ps @ [p]) = cross byNode ps \<union> (if f = t then {} else {(f, t)})"
  by (auto simp: cross_def)

lemma entering_snoc:
  "map_of byNode (pe_from (snd p)) = Some f \<Longrightarrow> map_of byNode (pe_to (snd p)) = Some t \<Longrightarrow>
    entering byNode i (ps @ [p]) = entering byNode i ps \<union> (if f \<noteq> t \<and> t = i then {fst p} else {})"
  by (auto simp: entering_def)

lemma has_inner_snoc:
  "map_of byNode (pe_from (snd p)) = Some f \<Longrightarrow> map_of byNode (pe_to (snd p)) = Some t \<Longrightarrow>
    has_inner byNode ids i (ps @ [p]) \<longleftrightarrow> has_inner byNode ids i ps \<or>
      (f = i \<and> t = i \<and> (length ids > 1 \<or> pe_from (snd p) = pe_to (snd p)))"
  by (auto simp: has_inner_def)

lemma add_plan_edge_ok:
  assumes inv: "edges_ok byNode cs ps st" and range: "\<forall>x i. map_of byNode x = Some i \<longrightarrow> i < length cs"
    and known: "map_of byNode (pe_from (snd p)) = Some f" "map_of byNode (pe_to (snd p)) = Some t"
  shows "\<exists>st'. add_plan_edge byNode p st = Inr st' \<and> edges_ok byNode cs (ps @ [p]) st'"
proof -
  have ft: "f < length cs" "t < length cs" using range known by auto
  note cr = cross_snoc[of byNode p f t ps, OF known]
  note en = entering_snoc[of byNode p f t _ ps, OF known] has_inner_snoc[of byNode p f t _ _ ps, OF known]
  note inv' = inv[unfolded edges_ok_def]
  show ?thesis
  proof (cases "f = t")
    case True
    then have "cross byNode (ps @ [p]) = cross byNode ps" using cr by simp
    then show ?thesis using inv' known True ft by (auto simp: add_plan_edge_def Let_def edges_ok_def nth_list_update en)
  next
    case False
    show ?thesis
    proof (cases "(f, t) \<in> set (es_seen st)")
      case True
      then have "cross byNode (ps @ [p]) = cross byNode ps" using cr inv' False by auto
      then show ?thesis using inv' known False True ft by (auto simp: add_plan_edge_def Let_def edges_ok_def nth_list_update en)
    next
      case new: False
      have c: "cross byNode (ps @ [p]) = insert (f, t) (cross byNode ps)" using cr False by auto
      have nf: "f \<notin> {g. (g, t) \<in> cross byNode ps}" using new inv' by auto
      have card: "card {g. (g, i) \<in> insert (f, t) (cross byNode ps)} = (if i = t then Suc (card {g. (g, i) \<in> cross byNode ps}) else card {g. (g, i) \<in> cross byNode ps})" for i
      proof (cases "i = t")
        case True
        have "{g. (g, t) \<in> insert (f, t) (cross byNode ps)} = insert f {g. (g, t) \<in> cross byNode ps}" by auto
        then show ?thesis using True nf finite_cross by simp
      qed simp
      have cardt: "card {g. g = f \<or> (g, t) \<in> cross byNode ps} = Suc (card {g. (g, t) \<in> cross byNode ps})"
        using card[of t] by simp
      show ?thesis using inv' known False new ft nf
        by (auto simp: add_plan_edge_def Let_def edges_ok_def c card cardt nth_list_update entries_put_append en)
    qed
  qed
qed

lemma add_plan_edges_ok:
  "edges_ok byNode cs ps st \<Longrightarrow> \<forall>x i. map_of byNode x = Some i \<longrightarrow> i < length cs \<Longrightarrow>
    \<forall>p \<in> set qs. map_of byNode (pe_from (snd p)) \<noteq> None \<and> map_of byNode (pe_to (snd p)) \<noteq> None \<Longrightarrow>
    \<exists>st'. add_plan_edges byNode qs st = Inr st' \<and> edges_ok byNode cs (ps @ qs) st'"
proof (induction qs arbitrary: ps st)
  case (Cons q qs)
  obtain f t where "map_of byNode (pe_from (snd q)) = Some f" "map_of byNode (pe_to (snd q)) = Some t" using Cons.prems(3) by auto
  then obtain st1 where st1: "add_plan_edge byNode q st = Inr st1" "edges_ok byNode cs (ps @ [q]) st1"
    using add_plan_edge_ok[OF Cons.prems(1,2)] by blast
  then show ?case using Cons.IH[OF st1(2) Cons.prems(2)] Cons.prems(3) by auto
qed auto

section \<open>Plans the compiler accepts\<close>

abbreviation mutual :: "execution_plan \<Rightarrow> string \<Rightarrow> string set" where
  "mutual plan u \<equiv> {v. (u, v) \<in> (plan_edge_rel plan)\<^sup>* \<and> (v, u) \<in> (plan_edge_rel plan)\<^sup>*}"

definition sound_plan :: "execution_plan \<Rightarrow> bool" where
  "sound_plan plan \<longleftrightarrow> distinct (plan_ids plan) \<and> plan_edge_rel plan \<subseteq> set (plan_ids plan) \<times> set (plan_ids plan) \<and>
     distinct (concat (plan_components plan)) \<and> (\<forall>c \<in> set (plan_components plan). sorted c \<and> c \<noteq> []) \<and>
     set ` set (plan_components plan) = mutual plan ` set (plan_ids plan)"

lemma reach_ids:
  assumes "plan_edge_rel plan \<subseteq> set (plan_ids plan) \<times> set (plan_ids plan)" "(u, v) \<in> (plan_edge_rel plan)\<^sup>*" "u \<in> set (plan_ids plan)"
  shows "v \<in> set (plan_ids plan)"
  using assms(2,3) by (induction rule: rtrancl_induct) (use assms(1) in auto)

lemma sound_cover:
  assumes "sound_plan plan"
  shows "set (concat (plan_components plan)) = set (plan_ids plan)"
proof -
  have "set (concat (plan_components plan)) = \<Union> (set ` set (plan_components plan))" by simp
  also have "\<dots> = \<Union> (mutual plan ` set (plan_ids plan))" using assms by (simp add: sound_plan_def)
  also have "\<dots> = set (plan_ids plan)"
    using assms reach_ids[of plan] by (auto simp: sound_plan_def)
  finally show ?thesis .
qed

lemma sound_mutual:
  assumes s: "sound_plan plan" and c: "c \<in> set (plan_components plan)" "u \<in> set c"
  shows "set c = mutual plan u"
proof -
  have "set c \<in> set ` set (plan_components plan)" using c(1) by simp
  then have "set c \<in> mutual plan ` set (plan_ids plan)" using s by (simp add: sound_plan_def)
  then obtain w where w: "set c = mutual plan w" by blast
  then have "u \<in> mutual plan w" using c(2) by blast
  then have "mutual plan u = mutual plan w" by (auto intro: rtrancl_trans)
  then show ?thesis using w by simp
qed

lemma sound_all_components: "sound_plan plan \<Longrightarrow> all_components plan = plan_components plan"
  using sound_cover[of plan] by (auto simp: all_components_def plan_ids_def filter_empty_conv)

lemma node_table_lookup:
  assumes "distinct (map pn_id ns)"
  shows "map_of (node_table ns) x = map_of (map (\<lambda>n. (pn_id n, n)) ns) x"
proof -
  have "map_of (foldl (\<lambda>m n. map_put (pn_id n) n m) m ns) x =
      (case map_of (map (\<lambda>n. (pn_id n, n)) ns) x of None \<Rightarrow> map_of m x | Some n \<Rightarrow> Some n)" for m
    using assms
  proof (induction ns arbitrary: m)
    case (Cons n ns)
    then have "map_of (map (\<lambda>n. (pn_id n, n)) ns) (pn_id n) = None" by (simp add: map_of_eq_None_iff image_image)
    then show ?case using Cons by (cases "x = pn_id n") (auto split: option.splits)
  qed simp
  then show ?thesis by (simp add: node_table_def split: option.splits)
qed

text \<open>The index of the component that holds a node.\<close>

lemma concat_disjoint: "distinct (concat (c # cs)) \<Longrightarrow> x \<in> set c \<Longrightarrow> k < length cs \<Longrightarrow> x \<notin> set (cs ! k)"
  using nth_mem[of k cs] by (auto simp: disjoint_iff)

lemma component_index_aux:
  "distinct (concat cs) \<Longrightarrow> map_of (foldl (\<lambda>m p. foldl (\<lambda>m i. map_put i (fst p) m) m (sort (snd p))) m (enumerate k cs)) x =
    (case List.find (\<lambda>i. x \<in> set (cs ! i)) [0..<length cs] of None \<Rightarrow> map_of m x | Some i \<Rightarrow> Some (k + i))"
proof (induction cs arbitrary: m k)
  case (Cons c cs)
  have inner: "map_of (foldl (\<lambda>m i. map_put i v m) m xs) x = (if x \<in> set xs then Some v else map_of m x)" for v m xs
    by (induction xs arbitrary: m) auto
  have shift: "List.find (\<lambda>i. x \<in> set ((c # cs) ! i)) [0..<length (c # cs)] =
      (if x \<in> set c then Some 0 else map_option Suc (List.find (\<lambda>i. x \<in> set (cs ! i)) [0..<length cs]))"
  proof -
    have "[0..<length (c # cs)] = 0 # map Suc [0..<length cs]" by (simp add: upt_conv_Cons map_Suc_upt del: upt_Suc)
    moreover have "List.find P (map Suc ys) = map_option Suc (List.find (\<lambda>i. P (Suc i)) ys)" for P ys by (induction ys) auto
    ultimately show ?thesis by simp
  qed
  have "x \<in> set c \<Longrightarrow> List.find (\<lambda>i. x \<in> set (cs ! i)) [0..<length cs] = None"
    using concat_disjoint[OF Cons.prems] by (auto simp: find_None_iff)
  then show ?case unfolding shift using Cons.IH[of "foldl (\<lambda>m i. map_put i k m) m (sort c)" "Suc k"] Cons.prems inner[of k m "sort c"]
    by (auto split: option.splits)
qed simp

lemma distinct_concat_nth:
  "distinct (concat cs) \<Longrightarrow> i < length cs \<Longrightarrow> j < length cs \<Longrightarrow> x \<in> set (cs ! i) \<Longrightarrow> x \<in> set (cs ! j) \<Longrightarrow> i = j"
proof (induction cs arbitrary: i j)
  case (Cons c cs)
  show ?case
  proof (cases i; cases j)
    fix i' j' assume "i = Suc i'" "j = Suc j'"
    then show ?thesis using Cons by simp
  next
    fix j' assume "i = 0" "j = Suc j'"
    then show ?thesis using Cons.prems concat_disjoint[of c cs x j'] by auto
  next
    fix i' assume "i = Suc i'" "j = 0"
    then show ?thesis using Cons.prems concat_disjoint[of c cs x i'] by auto
  qed simp
qed simp

lemma component_index_iff:
  assumes d: "distinct (concat cs)"
  shows "map_of (component_index cs) x = Some i \<longleftrightarrow> i < length cs \<and> x \<in> set (cs ! i)"
proof -
  let ?find = "List.find (\<lambda>i. x \<in> set (cs ! i)) [0..<length cs]"
  have e: "map_of (component_index cs) x = ?find"
    using component_index_aux[OF d, of "[]" 0 x] by (simp add: component_index_def split: option.splits)
  show ?thesis
  proof (cases ?find)
    case None
    then have "\<not> (i < length cs \<and> x \<in> set (cs ! i))" by (auto simp: find_None_iff)
    then show ?thesis using e None by simp
  next
    case (Some j)
    then have "j < length cs" "x \<in> set (cs ! j)" by (auto simp: find_Some_iff)
    then have "i < length cs \<and> x \<in> set (cs ! i) \<longleftrightarrow> i = j" using distinct_concat_nth[OF d] by metis
    then show ?thesis using e Some by auto
  qed
qed

lemma component_index_total: "distinct (concat cs) \<Longrightarrow> x \<in> set (concat cs) \<Longrightarrow> \<exists>i. map_of (component_index cs) x = Some i"
proof -
  assume d: "distinct (concat cs)" and "x \<in> set (concat cs)"
  then obtain c where "c \<in> set cs" "x \<in> set c" by auto
  then obtain i where "i < length cs" "x \<in> set (cs ! i)" by (metis in_set_conv_nth)
  then show ?thesis using component_index_iff[OF d] by blast
qed

lemma components_of_ok:
  "\<forall>c \<in> set cs. \<forall>i \<in> set c. map_of nodes i \<noteq> None \<Longrightarrow>
    \<exists>ps. components_of nodes cs = Inr ps \<and> length ps = length cs \<and>
      (\<forall>k < length cs. ps ! k = \<lparr>pc_nodes = sort (cs ! k), pc_incoming = [], pc_predecessors = [], pc_cyclic = False,
          pc_maxIterations = max_loop nodes (sort (cs ! k))\<rparr>)"
proof (induction cs)
  case (Cons c cs)
  have "component_of nodes c = Inr \<lparr>pc_nodes = sort c, pc_incoming = [], pc_predecessors = [], pc_cyclic = False,
      pc_maxIterations = max_loop nodes (sort c)\<rparr>"
    using Cons.prems by (simp add: component_of_def Let_def filter_False)
  then show ?case using Cons by (fastforce simp: nth_Cons split: nat.splits)
qed simp

text \<open>A cycle of components would be a larger component.\<close>

lemma cross_step:
  assumes s: "sound_plan plan" and c: "(f, t) \<in> cross (component_index (plan_components plan)) (enumerate 0 (plan_edges plan))"
    and r: "\<forall>w \<in> set (plan_components plan ! f). (u, w) \<in> (plan_edge_rel plan)\<^sup>*"
  shows "t < length (plan_components plan) \<and> (\<forall>v \<in> set (plan_components plan ! t). (u, v) \<in> (plan_edge_rel plan)\<^sup>*)"
proof -
  have d: "distinct (concat (plan_components plan))" using s by (simp add: sound_plan_def)
  obtain e where e: "e \<in> set (plan_edges plan)" "pe_from e \<in> set (plan_components plan ! f)"
    "t < length (plan_components plan)" "pe_to e \<in> set (plan_components plan ! t)"
    using c by (auto simp: cross_def component_index_iff[OF d] in_set_enumerate_eq) (metis nth_mem)
  have "(pe_from e, pe_to e) \<in> plan_edge_rel plan" using e(1) by (auto simp: plan_edge_rel_def)
  then have ut: "(u, pe_to e) \<in> (plan_edge_rel plan)\<^sup>*" using r e(2) by (meson rtrancl.rtrancl_into_rtrancl)
  have "set (plan_components plan ! t) = mutual plan (pe_to e)" using sound_mutual[OF s nth_mem[OF e(3)] e(4)] .
  then show ?thesis using ut e(3) by (auto intro: rtrancl_trans)
qed

lemma cross_reach:
  assumes s: "sound_plan plan" and x: "(f, t) \<in> (cross (component_index (plan_components plan)) (enumerate 0 (plan_edges plan)))\<^sup>+"
    and u: "u \<in> set (plan_components plan ! f)" "f < length (plan_components plan)"
  shows "t < length (plan_components plan) \<and> (\<forall>v \<in> set (plan_components plan ! t). (u, v) \<in> (plan_edge_rel plan)\<^sup>*)"
  using x
proof (induction rule: trancl_induct)
  case (base t)
  have "\<forall>w \<in> set (plan_components plan ! f). (u, w) \<in> (plan_edge_rel plan)\<^sup>*"
    using sound_mutual[OF s nth_mem[OF u(2)] u(1)] by blast
  then show ?case using cross_step[OF s base] by blast
next
  case (step y z)
  then show ?case using cross_step[OF s step.hyps(2)] by blast
qed

lemma cross_range: "(f, t) \<in> cross (component_index cs) ps \<Longrightarrow> distinct (concat cs) \<Longrightarrow> f < length cs \<and> t < length cs"
  by (auto simp: cross_def component_index_iff)

lemma sound_acyclic:
  assumes s: "sound_plan plan"
  shows "acyclic (cross (component_index (plan_components plan)) (enumerate 0 (plan_edges plan)))" (is "acyclic ?R")
proof (rule acyclicI, intro allI notI)
  fix f assume c: "(f, f) \<in> ?R\<^sup>+"
  have d: "distinct (concat (plan_components plan))" "\<forall>c \<in> set (plan_components plan). c \<noteq> []"
    using s by (auto simp: sound_plan_def)
  obtain t where t: "(f, t) \<in> ?R" "(t, f) \<in> ?R\<^sup>*" using c by (meson tranclD)
  then have ft: "f \<noteq> t" "f < length (plan_components plan)" "t < length (plan_components plan)"
    using cross_range[OF t(1) d(1)] by (auto simp: cross_def)
  then have tf: "(t, f) \<in> ?R\<^sup>+" using t(2) by (auto simp: rtrancl_eq_or_trancl)
  obtain u v where uv: "u \<in> set (plan_components plan ! f)" "v \<in> set (plan_components plan ! t)"
    using d(2) ft nth_mem by (metis list.set_sel(1))
  have "(u, v) \<in> (plan_edge_rel plan)\<^sup>*" using cross_reach[OF s r_into_trancl[OF t(1)] uv(1) ft(2)] uv(2) by blast
  moreover have "(v, u) \<in> (plan_edge_rel plan)\<^sup>*" using cross_reach[OF s tf uv(2) ft(3)] uv(1) by blast
  ultimately have "v \<in> set (plan_components plan ! f)" using sound_mutual[OF s nth_mem[OF ft(2)] uv(1)] by blast
  then show False using distinct_concat_nth[OF d(1) ft(2,3) _ uv(2)] ft(1) by blast
qed

text \<open>What the interpreter needs of a component model.\<close>

definition model_ok :: "component_model \<Rightarrow> bool" where
  "model_ok m \<longleftrightarrow> distinct (cm_order m) \<and> set (cm_order m) = {..<length (cm_components m)} \<and>
     (\<forall>i < length (cm_order m). set (pc_predecessors (cm_components m ! (cm_order m ! i))) \<subseteq> set (take i (cm_order m)))"

lemma buildComponentModel_sound:
  assumes s: "sound_plan plan"
  shows "\<exists>m. buildComponentModel plan = Inr m \<and> model_ok m \<and> length (cm_components m) = length (plan_components plan) \<and>
    cm_nodes m = node_table (plan_nodes plan) \<and> cm_componentByNode m = component_index (plan_components plan) \<and>
    (\<forall>i < length (plan_components plan). pc_nodes (cm_components m ! i) = plan_components plan ! i \<and>
       pc_maxIterations (cm_components m ! i) = max_loop (cm_nodes m) (plan_components plan ! i) \<and>
       set (pc_incoming (cm_components m ! i)) = entering (cm_componentByNode m) i (enumerate 0 (plan_edges plan)) \<and>
       (pc_cyclic (cm_components m ! i) \<longleftrightarrow>
          has_inner (cm_componentByNode m) (plan_components plan ! i) i (enumerate 0 (plan_edges plan))) \<and>
       set (pc_predecessors (cm_components m ! i)) = {f. (f, i) \<in> cross (cm_componentByNode m) (enumerate 0 (plan_edges plan))})"
proof -
  let ?cs = "plan_components plan" and ?nodes = "node_table (plan_nodes plan)"
  let ?by = "component_index ?cs" and ?ps = "enumerate 0 (plan_edges plan)"
  have d: "distinct (concat ?cs)" "\<forall>c \<in> set ?cs. sorted c" using s by (auto simp: sound_plan_def)
  have dn: "distinct (map pn_id (plan_nodes plan))" using s by (simp add: sound_plan_def plan_ids_def)
  have known: "\<forall>c \<in> set ?cs. \<forall>i \<in> set c. map_of ?nodes i \<noteq> None"
  proof (intro ballI)
    fix c i assume "c \<in> set ?cs" "i \<in> set c"
    then have "i \<in> set (plan_ids plan)" using sound_cover[OF s] by auto
    then show "map_of ?nodes i \<noteq> None" by (auto simp: node_table_lookup[OF dn] map_of_eq_None_iff plan_ids_def image_image)
  qed
  obtain ps where ps: "components_of ?nodes ?cs = Inr ps" "length ps = length ?cs"
    "\<forall>k < length ?cs. ps ! k = \<lparr>pc_nodes = sort (?cs ! k), pc_incoming = [], pc_predecessors = [], pc_cyclic = False,
          pc_maxIterations = max_loop ?nodes (sort (?cs ! k))\<rparr>" using components_of_ok[OF known] by blast
  let ?st0 = "\<lparr>es_outgoing = [], es_components = ps, es_adjacency = [], es_seen = [], es_indegree = replicate (length ps) 0\<rparr>"
  have ok0: "edges_ok ?by ps [] ?st0" using ps by (simp add: edges_ok_def cross_def entries_def entering_def has_inner_def)
  have by_range: "\<forall>x i. map_of ?by x = Some i \<longrightarrow> i < length ps" using component_index_iff[OF d(1)] ps(2) by auto
  have ends: "\<forall>p \<in> set ?ps. map_of ?by (pe_from (snd p)) \<noteq> None \<and> map_of ?by (pe_to (snd p)) \<noteq> None"
  proof
    fix p assume "p \<in> set ?ps"
    then have "snd p \<in> set (plan_edges plan)" by (metis in_set_enumerate_eq add.commute le_add_diff_inverse nth_mem less_diff_conv2 add_0)
    then have "(pe_from (snd p), pe_to (snd p)) \<in> plan_edge_rel plan" by (auto simp: plan_edge_rel_def)
    then have "pe_from (snd p) \<in> set (concat ?cs)" "pe_to (snd p) \<in> set (concat ?cs)"
      using s sound_cover[OF s] by (auto simp: sound_plan_def)
    then show "map_of ?by (pe_from (snd p)) \<noteq> None \<and> map_of ?by (pe_to (snd p)) \<noteq> None"
      using component_index_total[OF d(1)] by auto
  qed
  obtain st where st: "add_plan_edges ?by ?ps ?st0 = Inr st" "edges_ok ?by ps ?ps st"
    using add_plan_edges_ok[OF ok0 by_range ends] by auto
  note e = st(2)[unfolded edges_ok_def]
  let ?n = "length ?cs" and ?adj = "es_adjacency st" and ?R = "cross ?by ?ps"
  have range: "?R \<subseteq> {..<?n} \<times> {..<?n}" using cross_range[OF _ d(1)] by auto
  have adj: "set (entries ?adj u) = {v. (u, v) \<in> ?R}" for u using e by blast
  have preds: "preds ?adj v = {f. (f, v) \<in> ?R}" for v by (auto simp: preds_def adj)
  have g: "graph_ok ?n ?adj" using e adj range unfolding graph_ok_def preds by auto
  have acyc: "acyclic {(u, v). v \<in> set (entries ?adj u)}" using sound_acyclic[OF s] by (simp add: adj)
  define comps where "comps = sort_predecessors (es_components st)"
  define ready where "ready = sort_key (first_node comps) (filter (\<lambda>i. es_indegree st ! i = 0) [0..<length (es_indegree st)])"
  define order where "order = kahn comps ?adj ready (es_indegree st) []"
  have fin: "finite {f. (f, v) \<in> ?R}" for v by (rule finite_cross)
  have "kahn_inv ?n ?adj ready (es_indegree st) []"
    unfolding kahn_inv_def preds using e ps(2) fin by (auto simp: ready_def topological_def)
  then have o: "distinct order" "set order = {..<?n}" "topological ?adj order"
    unfolding order_def using kahn_correct[OF g acyc, where cs = comps] by blast+
  have len: "length comps = ?n" using e ps(2) by (simp add: comps_def sort_predecessors_def)
  have c: "pc_nodes (comps ! i) = ?cs ! i" "pc_maxIterations (comps ! i) = max_loop ?nodes (?cs ! i)"
    "set (pc_predecessors (comps ! i)) = {f. (f, i) \<in> ?R}" "set (pc_incoming (comps ! i)) = entering ?by i ?ps"
    "pc_cyclic (comps ! i) \<longleftrightarrow> has_inner ?by (?cs ! i) i ?ps" if "i < ?n" for i
    using e ps(2,3) that d(2) by (simp_all add: comps_def sort_predecessors_def sorted_sort_id)
  have "length order = length comps" using o(1,2) len distinct_card[OF o(1)] by simp
  then have b: "buildComponentModel plan = Inr \<lparr>cm_nodes = ?nodes, cm_outgoing = sort_outgoing (plan_edges plan) (es_outgoing st),
      cm_componentByNode = ?by, cm_components = comps, cm_order = order\<rparr>"
    using ps(1) st(1) unfolding order_def ready_def comps_def
    by (simp add: buildComponentModel_def sound_all_components[OF s] Let_def)
  have "set (pc_predecessors (comps ! (order ! i))) \<subseteq> set (take i order)" if "i < length order" for i
  proof -
    have "order ! i < ?n" using nth_mem[OF that] o(2) by auto
    then show ?thesis using o(3) that c(3) by (auto simp: topological_def preds)
  qed
  then show ?thesis using b o(1,2) len c by (simp add: model_ok_def)
qed

lemma compiled_plan_sound:
  assumes "Compile ce meta fs = Some (plan, ds)" and "\<not> HasErrors ds"
  shows "sound_plan plan"
proof -
  obtain st components where r: "compile_result ce meta fs st components plan ds" using CompileE[OF assms] .
  then have c: "plan_components plan = components" by (simp add: compile_result_def)
  show ?thesis unfolding sound_plan_def c
    using result_components[OF r] result_edge_range[OF r] result_ids(2)[OF r] by (simp add: strict_sorted_iff)
qed

end
