(* ===== verification/Engine_Run.thy ===== *)
theory Engine_Run
  imports Engine_Plan "HOL-Library.Sublist"
begin

text \<open>
  The interpreter of \<open>internal/engine/engine.go\<close>: the execution of one component (\<open>executePlanComponent\<close>) and
  the scheduler loop of \<open>InterpreterWorkflow\<close>.

  The workflow framework is outside the repository: what a node execution and a skip do is the parameter
  \<open>node_runner\<close>, with a state of its own that is threaded through the calls in program order; \<open>None\<close> is
  a call that does not return. In the scheduler the components that were admitted run concurrently; the
  order in which their completions arrive is not determined, so the scheduler is a step relation
  with one step per completion received, with any result. \<open>queued[x]\<close> of the source is membership in the
  queue. A decoded JSON number is a \<open>float64\<close> (\<open>json_canon\<close>).
\<close>

record node_request =
  rq_runUID :: string
  rq_node :: plan_node
  rq_iteration :: nat
  rq_outgoing :: "plan_edge list"
  rq_input :: "json option"
  rq_nodes :: "(string \<times> json) list"

record node_result =
  nr_output :: "json option"
  nr_activated :: "bool list"
  nr_rejected :: bool

section \<open>One node\<close>

record approval_signal =
  sig_state :: string
  sig_reason :: string

text \<open>The payload of an event is \<open>None\<close> when its bytes are not JSON.\<close>

record event_signal =
  evs_providerEventID :: string
  evs_payload :: "json option"

datatype 'a selected = Received 'a | ChannelClosed | TimerExpired

text \<open>
  What the interpreter calls of the workflow framework: the activities by name, the select over a signal
  channel and a timer, and the timers. The arguments of \<open>wf_executeNode\<close> are the retry options
  \<open>MaxAttempts\<close>, \<open>FirstRetryInterval\<close> and \<open>RetryTimeout\<close>.
\<close>

record 's workflow =
  wf_executeNode :: "int \<Rightarrow> duration \<Rightarrow> duration \<Rightarrow> node_request \<Rightarrow> 's \<Rightarrow> ((string, node_result) result \<times> 's) option"
  wf_beginApproval :: "node_request \<Rightarrow> 's \<Rightarrow> ((string, unit) result \<times> 's) option"
  wf_endApproval :: "node_request \<Rightarrow> approval_signal \<Rightarrow> 's \<Rightarrow> ((string, node_result) result \<times> 's) option"
  wf_beginEvent :: "node_request \<Rightarrow> 's \<Rightarrow> ((string, unit) result \<times> 's) option"
  wf_endEvent :: "node_request \<Rightarrow> event_signal \<Rightarrow> 's \<Rightarrow> ((string, node_result) result \<times> 's) option"
  wf_ignoreEvent :: "node_request \<Rightarrow> event_signal \<Rightarrow> 's \<Rightarrow> ((string, unit) result \<times> 's) option"
  wf_skipNode :: "string \<Rightarrow> string \<Rightarrow> 's \<Rightarrow> ((string, unit) result \<times> 's) option"
  wf_scheduleTimer :: "string \<Rightarrow> duration \<Rightarrow> 's \<Rightarrow> 's"
  wf_cancelTimer :: "string \<Rightarrow> 's \<Rightarrow> 's"
  wf_selectApproval :: "string \<Rightarrow> string \<Rightarrow> 's \<Rightarrow> (approval_signal selected \<times> 's) option"
  wf_selectEvent :: "string \<Rightarrow> string \<Rightarrow> 's \<Rightarrow> (event_signal selected \<times> 's) option"

definition approvalSignalName :: "string \<Rightarrow> string" where
  "approvalSignalName i = ''approval:'' @ i"

definition eventSignalName :: "string \<Rightarrow> string" where
  "eventSignalName i = ''event:'' @ i"

definition timer_name :: "string \<Rightarrow> node_request \<Rightarrow> string" where
  "timer_name kind rq = kind @ ''-timeout-'' @ pn_id (rq_node rq) @ ''-'' @ itoa (rq_iteration rq)"

definition parsed_or_zero :: "string \<Rightarrow> duration" where
  "parsed_or_zero s = (case time_ParseDuration s of None \<Rightarrow> 0 | Some d \<Rightarrow> d)"

text \<open>The error of a duration that does not parse; the standard library quotes the text.\<close>

definition invalid_duration :: "string \<Rightarrow> string" where
  "invalid_duration s = ''time: invalid duration '' @ s"

text \<open>The decision an approval ends with: the signal received, a rejection when the timer fired or the channel was closed.\<close>

definition approval_outcome :: "approval_signal selected \<Rightarrow> approval_signal" where
  "approval_outcome sel = (case sel of Received s \<Rightarrow> s
     | _ \<Rightarrow> \<lparr>sig_state = ''rejected'', sig_reason = ''approval timed out''\<rparr>)"

definition executeApprovalNode :: "'s workflow \<Rightarrow> node_request \<Rightarrow> 's \<Rightarrow> ((string, node_result) result \<times> 's) option" where
  "executeApprovalNode wk rq w =
     Option.bind (wf_beginApproval wk rq w) (\<lambda>(r, w1). case r of
         Inl e \<Rightarrow> Some (Inl e, w1)
       | Inr _ \<Rightarrow> (case time_ParseDuration (pn_timeout (rq_node rq)) of
           None \<Rightarrow> Some (Inl (invalid_duration (pn_timeout (rq_node rq))), w1)
         | Some d \<Rightarrow>
             Option.bind (wf_selectApproval wk (approvalSignalName (pn_id (rq_node rq))) (timer_name ''approval'' rq)
                 (wf_scheduleTimer wk (timer_name ''approval'' rq) d w1)) (\<lambda>(sel, w2).
               wf_endApproval wk rq (approval_outcome sel)
                 (if sel = TimerExpired then w2 else wf_cancelTimer wk (timer_name ''approval'' rq) w2))))"

text \<open>What the event loop accepts from a select.\<close>

definition checked_event :: "node_request \<Rightarrow> event_signal selected \<Rightarrow> (string, event_signal) result" where
  "checked_event rq sel =
     (case sel of
        TimerExpired \<Rightarrow> Inl (''external event node '' @ pn_id (rq_node rq) @ '' timed out'')
      | ChannelClosed \<Rightarrow> Inl (''external event node '' @ pn_id (rq_node rq) @ '' received an invalid signal'')
      | Received s \<Rightarrow>
          if evs_providerEventID s = [] \<or> evs_payload s = None
          then Inl (''external event node '' @ pn_id (rq_node rq) @ '' received an invalid signal'')
          else (case evs_payload s of
              Some (JObj _) \<Rightarrow> Inr s
            | _ \<Rightarrow> Inl (''external event node '' @ pn_id (rq_node rq) @ '' requires a JSON object payload'')))"

partial_function (option) event_loop :: "'s workflow \<Rightarrow> node_request \<Rightarrow> string list \<Rightarrow> 's
    \<Rightarrow> ((string, node_result) result \<times> 's \<times> string list) option" where
  "event_loop wk rq seen w =
     Option.bind (wf_selectEvent wk (eventSignalName (pn_id (rq_node rq))) (timer_name ''event'' rq) w) (\<lambda>(sel, w1).
       case checked_event rq sel of
         Inl e \<Rightarrow> Some (Inl e, w1, seen)
       | Inr s \<Rightarrow>
           if evs_providerEventID s \<in> set seen then
             Option.bind (wf_ignoreEvent wk rq s w1) (\<lambda>(r, w2). case r of
                 Inl e \<Rightarrow> Some (Inl e, w2, seen)
               | Inr _ \<Rightarrow> event_loop wk rq seen w2)
           else
             Option.bind (wf_endEvent wk rq s (wf_cancelTimer wk (timer_name ''event'' rq) w1)) (\<lambda>(r, w2).
               Some (r, w2, evs_providerEventID s # seen)))"

definition executeEventNode :: "'s workflow \<Rightarrow> node_request \<Rightarrow> string list \<Rightarrow> 's
    \<Rightarrow> ((string, node_result) result \<times> 's \<times> string list) option" where
  "executeEventNode wk rq seen w =
     Option.bind (wf_beginEvent wk rq w) (\<lambda>(r, w1). case r of
         Inl e \<Rightarrow> Some (Inl e, w1, seen)
       | Inr _ \<Rightarrow> (case time_ParseDuration (pn_timeout (rq_node rq)) of
           None \<Rightarrow> Some (Inl (invalid_duration (pn_timeout (rq_node rq))), w1, seen)
         | Some d \<Rightarrow> map_option (\<lambda>(r, w2, seen'). (r, wf_cancelTimer wk (timer_name ''event'' rq) w2, seen'))
             (event_loop wk rq seen (wf_scheduleTimer wk (timer_name ''event'' rq) d w1))))"

definition executePlanNode :: "'s workflow \<Rightarrow> node_request \<Rightarrow> string list \<Rightarrow> 's
    \<Rightarrow> ((string, node_result) result \<times> 's \<times> string list) option" where
  "executePlanNode wk rq seen w =
     (let node = rq_node rq in
      if pn_uses node \<noteq> ''core.approval'' \<and> pn_uses node \<noteq> ''core.event'' then
        map_option (\<lambda>(r, w'). (r, w', seen))
          (wf_executeNode wk (pn_retryLimit node + 1) (parsed_or_zero (pn_retryBackoff node)) (parsed_or_zero (pn_timeout node)) rq w)
      else if pn_uses node = ''core.event'' then executeEventNode wk rq seen w
      else map_option (\<lambda>(r, w'). (r, w', seen)) (executeApprovalNode wk rq w))"

definition skipPlanNode :: "'s workflow \<Rightarrow> string \<Rightarrow> string \<Rightarrow> 's \<Rightarrow> ((string, unit) result \<times> 's) option" where
  "skipPlanNode wk runUID i w = wf_skipNode wk runUID i w"

section \<open>One component\<close>

record component_result =
  cr_edgeActive :: "bool list"
  cr_outputs :: "(string \<times> json) list"
  cr_rejected :: bool
  cr_errorText :: string

record 's node_runner =
  run_node :: "node_request \<Rightarrow> 's \<Rightarrow> ((string, node_result) result \<times> 's) option"
  run_skip :: "string \<Rightarrow> 's \<Rightarrow> ((string, unit) result \<times> 's) option"

text \<open>The arguments that stay fixed during the execution of a component.\<close>

record run_context =
  rc_runUID :: string
  rc_plan :: execution_plan
  rc_input :: "json option"
  rc_model :: component_model

definition component_at :: "run_context \<Rightarrow> nat \<Rightarrow> plan_component" where
  "component_at rc i = cm_components (rc_model rc) ! i"

definition decoded_output :: "json option \<Rightarrow> json" where
  "decoded_output out = (case out of None \<Rightarrow> JNull | Some v \<Rightarrow> json_canon v)"

text \<open>\<open>for position, edgeIndex := range outgoing\<close> with the activation of the position.\<close>

definition activated_edges :: "component_model \<Rightarrow> string \<Rightarrow> bool list \<Rightarrow> nat list" where
  "activated_edges m i activated =
     map snd (filter (\<lambda>p. fst p < length activated \<and> activated ! fst p) (enumerate 0 (entries (cm_outgoing m) i)))"

definition recordResult :: "component_model \<Rightarrow> string \<Rightarrow> node_result \<Rightarrow> component_result \<times> (string \<times> json) list
    \<Rightarrow> component_result \<times> (string \<times> json) list" where
  "recordResult m i r p =
     (let out = decoded_output (nr_output r); res = fst p
      in (res\<lparr>cr_edgeActive := foldl (\<lambda>es e. es[e := True]) (cr_edgeActive res) (activated_edges m i (nr_activated r)),
              cr_outputs := map_put i out (cr_outputs res)\<rparr>, map_put i out (snd p)))"

definition request_for :: "run_context \<Rightarrow> plan_node \<Rightarrow> nat \<Rightarrow> (string \<times> json) list \<Rightarrow> node_request" where
  "request_for rc node iteration nodes =
     \<lparr>rq_runUID = rc_runUID rc, rq_node = node, rq_iteration = iteration,
      rq_outgoing = outgoingEdges (rc_model rc) (rc_plan rc) (pn_id node), rq_input = rc_input rc, rq_nodes = nodes\<rparr>"

definition zero_node :: plan_node where
  "zero_node = \<lparr>pn_id = [], pn_name = [], pn_namespace = [], pn_uses = [], pn_with = [], pn_retryLimit = 0, pn_retryBackoff = [],
     pn_timeout = [], pn_loopMaxIterations = 0, pn_plugin = None, pn_contract = None, pn_resources = []\<rparr>"

definition node_at :: "run_context \<Rightarrow> string \<Rightarrow> plan_node" where
  "node_at rc i = (case map_of (cm_nodes (rc_model rc)) i of None \<Rightarrow> zero_node | Some n \<Rightarrow> n)"

text \<open>The targets a result enqueues.\<close>

definition push_target :: "run_context \<Rightarrow> nat \<Rightarrow> (string \<Rightarrow> nat) \<Rightarrow> string list \<Rightarrow> nat \<Rightarrow> string list" where
  "push_target rc ci counts q e =
     (let target = pe_to (plan_edges (rc_plan rc) ! e) in
      if map_of (cm_componentByNode (rc_model rc)) target = Some ci \<and>
         int (counts target) < pc_maxIterations (component_at rc ci) \<and> target \<notin> set q then q @ [target] else q)"

definition push_targets :: "run_context \<Rightarrow> nat \<Rightarrow> (string \<Rightarrow> nat) \<Rightarrow> nat list \<Rightarrow> string list \<Rightarrow> string list" where
  "push_targets rc ci counts edges queue = foldl (push_target rc ci counts) queue edges"

fun skip_all :: "'s node_runner \<Rightarrow> string list \<Rightarrow> component_result \<Rightarrow> 's \<Rightarrow> (component_result \<times> 's) option" where
  "skip_all nr [] res w = Some (res, w)"
| "skip_all nr (i # ids) res w =
     Option.bind (run_skip nr i w) (\<lambda>(r, w'). case r of
         Inl e \<Rightarrow> Some (res\<lparr>cr_errorText := e\<rparr>, w')
       | Inr _ \<Rightarrow> skip_all nr ids res w')"

text \<open>The loop over the queue of a cyclic component.\<close>

definition loop_nodes :: "run_context \<Rightarrow> string list \<Rightarrow> string set" where
  "loop_nodes rc queue = set queue \<union>
     (\<lambda>e. pe_to (plan_edges (rc_plan rc) ! e)) ` set (concat (map snd (cm_outgoing (rc_model rc))))"

definition remaining :: "run_context \<Rightarrow> nat \<Rightarrow> string list \<Rightarrow> (string \<Rightarrow> nat) \<Rightarrow> nat" where
  "remaining rc ci queue counts = (\<Sum>n \<in> loop_nodes rc queue. nat (pc_maxIterations (component_at rc ci) - int (counts n)))"

lemma finite_loop_nodes [simp]: "finite (loop_nodes rc queue)"
  by (simp add: loop_nodes_def)

lemma activated_edges_known: "set (activated_edges m i act) \<subseteq> set (concat (map snd (cm_outgoing m)))"
proof -
  have "set (entries (cm_outgoing m) i) \<subseteq> set (concat (map snd (cm_outgoing m)))"
  proof (cases "map_of (cm_outgoing m) i")
    case (Some vs)
    then have "(i, vs) \<in> set (cm_outgoing m)" by (rule map_of_SomeD)
    then show ?thesis using Some by (force simp: entries_def)
  qed (simp add: entries_def)
  moreover have "set (activated_edges m i act) \<subseteq> set (entries (cm_outgoing m) i)"
    by (auto simp: activated_edges_def in_set_enumerate_eq)
  ultimately show ?thesis by blast
qed

lemma push_targets_set:
  "set (push_targets rc ci counts es q) \<subseteq> set q \<union> (\<lambda>e. pe_to (plan_edges (rc_plan rc) ! e)) ` set es"
proof (induction es arbitrary: q)
  case (Cons e es)
  have "set (push_target rc ci counts q e) \<subseteq> insert (pe_to (plan_edges (rc_plan rc) ! e)) (set q)"
    by (simp add: push_target_def Let_def subset_insertI)
  then show ?case using Cons[of "push_target rc ci counts q e"] by (auto simp: push_targets_def)
qed (simp add: push_targets_def)

lemma remaining_subset:
  assumes "loop_nodes rc q' \<subseteq> loop_nodes rc q"
  shows "remaining rc ci q' counts \<le> remaining rc ci q counts"
  unfolding remaining_def by (rule sum_mono2) (use assms in auto)

lemma loop_nodes_push:
  "loop_nodes rc (push_targets rc ci counts (activated_edges (rc_model rc) i act) q) \<subseteq> loop_nodes rc (i # q)"
  using push_targets_set[of rc ci counts "activated_edges (rc_model rc) i act" q]
    image_mono[OF activated_edges_known[of "rc_model rc" i act], of "\<lambda>e. pe_to (plan_edges (rc_plan rc) ! e)"]
  unfolding loop_nodes_def list.set by blast

lemma remaining_execute:
  assumes "int (counts i) < pc_maxIterations (component_at rc ci)" and "loop_nodes rc q' \<subseteq> loop_nodes rc (i # q)"
  shows "remaining rc ci q' (counts(i := Suc (counts i))) < remaining rc ci (i # q) counts"
proof -
  have "remaining rc ci q' (counts(i := Suc (counts i))) \<le> remaining rc ci (i # q) (counts(i := Suc (counts i)))"
    by (rule remaining_subset[OF assms(2)])
  also have "\<dots> < remaining rc ci (i # q) counts"
    unfolding remaining_def by (rule sum_strict_mono_ex1) (use assms(1) in \<open>auto simp: loop_nodes_def\<close>)
  finally show ?thesis .
qed

function (sequential) component_loop :: "'s node_runner \<Rightarrow> run_context \<Rightarrow> nat \<Rightarrow> string list \<Rightarrow> (string \<Rightarrow> nat) \<Rightarrow> (string \<times> json) list
    \<Rightarrow> component_result \<Rightarrow> 's \<Rightarrow> (component_result \<times> (string \<Rightarrow> nat) option \<times> 's) option" where
  "component_loop nr rc ci [] counts nodes res w = Some (res, Some counts, w)"
| "component_loop nr rc ci (i # q) counts nodes res w =
     (if int (counts i) \<ge> pc_maxIterations (component_at rc ci) then component_loop nr rc ci q counts nodes res w
      else Option.bind (run_node nr (request_for rc (node_at rc i) (counts i) nodes) w) (\<lambda>(r, w'). case r of
          Inl e \<Rightarrow> Some (res\<lparr>cr_errorText := e\<rparr>, None, w')
        | Inr x \<Rightarrow>
            (case recordResult (rc_model rc) i x (res, nodes) of (res', nodes') \<Rightarrow>
              if nr_rejected x then Some (res'\<lparr>cr_rejected := True\<rparr>, None, w')
              else component_loop nr rc ci
                (push_targets rc ci (counts(i := Suc (counts i))) (activated_edges (rc_model rc) i (nr_activated x)) q)
                (counts(i := Suc (counts i))) nodes' res' w')))"
  by pat_completeness auto
termination
proof (relation "measures [\<lambda>(nr, rc, ci, q, counts, nodes, res, w). remaining rc ci q counts,
    \<lambda>(nr, rc, ci, q, counts, nodes, res, w). length q]", goal_cases)
  case (2 nr rc ci i q counts nodes res w)
  have "loop_nodes rc q \<subseteq> loop_nodes rc (i # q)" by (auto simp: loop_nodes_def)
  then have "remaining rc ci q counts \<le> remaining rc ci (i # q) counts" by (rule remaining_subset)
  then show ?case by auto
next
  case (3 nr rc ci i q counts nodes res w)
  then show ?case using remaining_execute[OF _ loop_nodes_push] by auto
qed simp

text \<open>The queue a cyclic component starts with: the targets of the active edges that enter it, or its first node.\<close>

definition initial_queue :: "run_context \<Rightarrow> nat \<Rightarrow> bool list \<Rightarrow> string list" where
  "initial_queue rc ci inputEdges =
     (let c = component_at rc ci;
          q = foldl (\<lambda>q e. if inputEdges ! e \<and> pe_to (plan_edges (rc_plan rc) ! e) \<notin> set q
                then q @ [pe_to (plan_edges (rc_plan rc) ! e)] else q) [] (pc_incoming c)
      in if q = [] \<and> pc_incoming c = [] then [hd (pc_nodes c)] else q)"

definition execute_component :: "'s node_runner \<Rightarrow> run_context \<Rightarrow> nat \<Rightarrow> bool \<Rightarrow> bool list \<Rightarrow> (string \<times> json) list \<Rightarrow> 's
    \<Rightarrow> (component_result \<times> 's) option" where
  "execute_component nr rc ci active inputEdges inputNodes w =
     (let c = component_at rc ci;
          res = \<lparr>cr_edgeActive = replicate (length (plan_edges (rc_plan rc))) False, cr_outputs = [], cr_rejected = False, cr_errorText = []\<rparr>
      in if \<not> active then skip_all nr (pc_nodes c) res w
         else if \<not> pc_cyclic c then
           (let node = node_at rc (hd (pc_nodes c)) in
            Option.bind (run_node nr (request_for rc node 0 inputNodes) w) (\<lambda>(r, w'). case r of
                Inl e \<Rightarrow> Some (res\<lparr>cr_errorText := e\<rparr>, w')
              | Inr x \<Rightarrow> Some ((fst (recordResult (rc_model rc) (pn_id node) x (res, inputNodes)))\<lparr>cr_rejected := nr_rejected x\<rparr>, w')))
         else Option.bind (component_loop nr rc ci (initial_queue rc ci inputEdges) (\<lambda>_. 0) inputNodes res w) (\<lambda>(res', finished, w').
            case finished of None \<Rightarrow> Some (res', w')
            | Some counts \<Rightarrow> skip_all nr (filter (\<lambda>i. counts i = 0) (pc_nodes c)) res' w'))"

text \<open>The runner of the interpreter; the second part of its state is \<open>seenEventIDs\<close>, empty when a component starts.\<close>

definition plan_runner :: "'s workflow \<Rightarrow> string \<Rightarrow> ('s \<times> string list) node_runner" where
  "plan_runner wk runUID = \<lparr>run_node = (\<lambda>rq (w, seen). executePlanNode wk rq seen w),
     run_skip = (\<lambda>i (w, seen). map_option (\<lambda>(r, w'). (r, w', seen)) (skipPlanNode wk runUID i w))\<rparr>"

definition executePlanComponent :: "'s workflow \<Rightarrow> run_context \<Rightarrow> nat \<Rightarrow> bool \<Rightarrow> bool list \<Rightarrow> (string \<times> json) list \<Rightarrow> 's
    \<Rightarrow> (component_result \<times> 's) option" where
  "executePlanComponent wk rc ci active inputEdges inputNodes w =
     map_option (\<lambda>(res, w', seen). (res, w'))
       (execute_component (plan_runner wk (rc_runUID rc)) rc ci active inputEdges inputNodes (w, []))"

section \<open>An event is consumed once\<close>

text \<open>Either the wait failed, or a signal with a new identity and an object as its payload ended it.\<close>

definition consumed :: "'s workflow \<Rightarrow> node_request \<Rightarrow> string list \<Rightarrow> (string, node_result) result \<times> 's \<times> string list \<Rightarrow> bool" where
  "consumed wk rq seen y \<longleftrightarrow> (snd (snd y) = seen \<and> (\<exists>e. fst y = Inl e)) \<or>
    (\<exists>s w1 m. evs_providerEventID s \<notin> set seen \<and> evs_providerEventID s \<noteq> [] \<and> evs_payload s = Some (JObj m) \<and>
       snd (snd y) = evs_providerEventID s # seen \<and> wf_endEvent wk rq s w1 = Some (fst y, fst (snd y)))"

lemma checked_event_Inr:
  "checked_event rq sel = Inr s \<Longrightarrow> sel = Received s \<and> evs_providerEventID s \<noteq> [] \<and> (\<exists>m. evs_payload s = Some (JObj m))"
  by (auto simp: checked_event_def split: selected.splits if_splits option.splits json.splits)

lemma event_loop_consumed:
  assumes "event_loop wk rq seen w = Some y"
  shows "consumed wk rq seen y"
proof (rule event_loop.raw_induct[OF _ assms])
  fix loop wk rq seen w y
  assume IH: "\<And>(wk :: 's workflow) rq seen w y. loop wk rq seen w = Some y \<Longrightarrow> consumed wk rq seen y"
    and body: "Option.bind (wf_selectEvent wk (eventSignalName (pn_id (rq_node rq))) (timer_name ''event'' rq) w) (\<lambda>(sel, w1).
       case checked_event rq sel of
         Inl e \<Rightarrow> Some (Inl e, w1, seen)
       | Inr s \<Rightarrow>
           if evs_providerEventID s \<in> set seen then
             Option.bind (wf_ignoreEvent wk rq s w1) (\<lambda>(r, w2). case r of
                 Inl e \<Rightarrow> Some (Inl e, w2, seen)
               | Inr _ \<Rightarrow> loop wk rq seen w2)
           else
             Option.bind (wf_endEvent wk rq s (wf_cancelTimer wk (timer_name ''event'' rq) w1)) (\<lambda>(r, w2).
               Some (r, w2, evs_providerEventID s # seen))) = Some y"
  obtain sel w1 where sel: "wf_selectEvent wk (eventSignalName (pn_id (rq_node rq))) (timer_name ''event'' rq) w = Some (sel, w1)"
    using body by (auto simp: bind_eq_Some_conv)
  show "consumed wk rq seen y"
  proof (cases "checked_event rq sel")
    case (Inl e)
    then show ?thesis using body sel by (auto simp: consumed_def)
  next
    case (Inr s)
    note s = checked_event_Inr[OF Inr]
    show ?thesis
    proof (cases "evs_providerEventID s \<in> set seen")
      case True
      then obtain r w2 where r: "wf_ignoreEvent wk rq s w1 = Some (r, w2)" using body sel Inr by (auto simp: bind_eq_Some_conv)
      then show ?thesis using body sel Inr True IH by (cases r) (auto simp: consumed_def)
    next
      case False
      then obtain r w2 where "wf_endEvent wk rq s (wf_cancelTimer wk (timer_name ''event'' rq) w1) = Some (r, w2)"
        "y = (r, w2, evs_providerEventID s # seen)" using body sel Inr by (auto simp: bind_eq_Some_conv)
      then show ?thesis using s False unfolding consumed_def by (intro disjI2 exI[of _ s]) auto
    qed
  qed
qed

section \<open>Every iteration of a node is executed once\<close>

text \<open>A runner that writes down which node it executed in which iteration and which it skipped.\<close>

datatype trace_event = Executed string nat | Skipped string

definition logged :: "'s node_runner \<Rightarrow> ('s \<times> trace_event list) node_runner" where
  "logged nr = \<lparr>run_node = (\<lambda>rq (w, log). map_option (\<lambda>(r, w'). (r, w', log @ [Executed (pn_id (rq_node rq)) (rq_iteration rq)])) (run_node nr rq w)),
     run_skip = (\<lambda>i (w, log). map_option (\<lambda>(r, w'). (r, w', log @ [Skipped i])) (run_skip nr i w))\<rparr>"

lemma logged_run:
  "run_node (logged nr) rq (w, log) = Some (r, w1, log1) \<longleftrightarrow>
    run_node nr rq w = Some (r, w1) \<and> log1 = log @ [Executed (pn_id (rq_node rq)) (rq_iteration rq)]"
  by (auto simp: logged_def)

lemma logged_skip:
  "run_skip (logged nr) i (w, log) = Some (r, w1, log1) \<longleftrightarrow> run_skip nr i w = Some (r, w1) \<and> log1 = log @ [Skipped i]"
  by (auto simp: logged_def)

text \<open>A runner whose calls return, and whose errors have a text (the interpreter takes an empty text for success).\<close>

definition runner_total :: "'s node_runner \<Rightarrow> bool" where
  "runner_total nr \<longleftrightarrow> (\<forall>rq w. run_node nr rq w \<noteq> None) \<and> (\<forall>i w. run_skip nr i w \<noteq> None)"

definition errors_have_text :: "'s node_runner \<Rightarrow> bool" where
  "errors_have_text nr \<longleftrightarrow> (\<forall>rq w e w'. run_node nr rq w = Some (Inl e, w') \<longrightarrow> e \<noteq> []) \<and>
     (\<forall>i w e w'. run_skip nr i w = Some (Inl e, w') \<longrightarrow> e \<noteq> [])"

definition in_component :: "run_context \<Rightarrow> nat \<Rightarrow> string \<Rightarrow> bool" where
  "in_component rc ci i \<longleftrightarrow> map_of (cm_componentByNode (rc_model rc)) i = Some ci"

definition log_ok :: "run_context \<Rightarrow> nat \<Rightarrow> trace_event list \<Rightarrow> bool" where
  "log_ok rc ci log \<longleftrightarrow> distinct log \<and>
     (\<forall>i k. Executed i k \<in> set log \<longrightarrow> in_component rc ci i \<and> int k < pc_maxIterations (component_at rc ci) \<and> Skipped i \<notin> set log)"

definition counts_ok :: "run_context \<Rightarrow> nat \<Rightarrow> (string \<Rightarrow> nat) \<Rightarrow> trace_event list \<Rightarrow> bool" where
  "counts_ok rc ci counts log \<longleftrightarrow> log_ok rc ci log \<and> (\<forall>i. Skipped i \<notin> set log) \<and> (\<forall>i k. Executed i k \<in> set log \<longleftrightarrow> k < counts i)"

lemma log_ok_snoc:
  assumes "counts_ok rc ci counts log" "in_component rc ci i" "int (counts i) < pc_maxIterations (component_at rc ci)"
  shows "log_ok rc ci (log @ [Executed i (counts i)])" "counts_ok rc ci (counts(i := Suc (counts i))) (log @ [Executed i (counts i)])"
proof -
  have "Executed i (counts i) \<notin> set log" using assms(1) by (simp add: counts_ok_def)
  then show l: "log_ok rc ci (log @ [Executed i (counts i)])" using assms by (auto simp: counts_ok_def log_ok_def)
  show "counts_ok rc ci (counts(i := Suc (counts i))) (log @ [Executed i (counts i)])"
    using l assms(1) by (auto simp: counts_ok_def less_Suc_eq)
qed

lemma push_targets_in_component:
  "\<forall>i \<in> set q. in_component rc ci i \<Longrightarrow> \<forall>i \<in> set (push_targets rc ci counts es q). in_component rc ci i"
proof (induction es arbitrary: q)
  case (Cons e es)
  have "\<forall>i \<in> set (push_target rc ci counts q e). in_component rc ci i"
    using Cons.prems by (auto simp: push_target_def Let_def in_component_def)
  then show ?case using Cons.IH by (simp add: push_targets_def)
qed (simp add: push_targets_def)

lemma component_loop_log:
  fixes nr :: "'s node_runner"
  shows "component_loop nr' rc ci q counts nodes res wl = Some (res', fin, wl') \<Longrightarrow> nr' = logged nr \<Longrightarrow>
    (\<And>i. in_component rc ci i \<Longrightarrow> pn_id (node_at rc i) = i) \<Longrightarrow>
    counts_ok rc ci counts (snd wl) \<Longrightarrow> \<forall>i \<in> set q. in_component rc ci i \<Longrightarrow>
    log_ok rc ci (snd wl') \<and> (\<forall>counts'. fin = Some counts' \<longrightarrow> counts_ok rc ci counts' (snd wl'))"
proof (induction nr' rc ci q counts nodes res wl rule: component_loop.induct)
  case (1 nr' rc ci counts nodes res wl)
  then show ?case by (auto simp: counts_ok_def)
next
  case (2 nr' rc ci i q counts nodes res wl)
  show ?case
  proof (cases "int (counts i) \<ge> pc_maxIterations (component_at rc ci)")
    case True
    then show ?thesis using 2 by simp
  next
    case False
    have i: "in_component rc ci i" "pn_id (node_at rc i) = i" using "2.prems"(3,5) by auto
    let ?rq = "request_for rc (node_at rc i) (counts i) nodes" and ?log = "snd wl @ [Executed i (counts i)]"
    note snoc = log_ok_snoc[OF "2.prems"(4) i(1)]
    obtain r wl1 where r: "run_node nr' ?rq wl = Some (r, wl1)" using "2.prems"(1) False by (auto simp: bind_eq_Some_conv)
    have log1: "snd wl1 = ?log"
      using r "2.prems"(2) logged_run[of nr ?rq "fst wl" "snd wl" r "fst wl1" "snd wl1"] i(2) by (simp add: request_for_def)
    show ?thesis
    proof (cases r)
      case (Inl e)
      then show ?thesis using "2.prems"(1) False r log1 snoc(1) by auto
    next
      case (Inr x)
      obtain res1 nodes1 where rr: "recordResult (rc_model rc) i x (res, nodes) = (res1, nodes1)" by fastforce
      show ?thesis
      proof (cases "nr_rejected x")
        case True
        then show ?thesis using "2.prems"(1) False r Inr rr log1 snoc(1) by auto
      next
        case rej: False
        let ?counts = "counts(i := Suc (counts i))"
        let ?q = "push_targets rc ci ?counts (activated_edges (rc_model rc) i (nr_activated x)) q"
        have l: "component_loop nr' rc ci ?q ?counts nodes1 res1 wl1 = Some (res', fin, wl')"
          using "2.prems"(1) False r Inr rr rej by simp
        have c: "counts_ok rc ci ?counts (snd wl1)" using snoc(2) log1 False by simp
        have "\<forall>j \<in> set q. in_component rc ci j" using "2.prems"(5) by simp
        note qs = push_targets_in_component[OF this, of ?counts "activated_edges (rc_model rc) i (nr_activated x)"]
        show ?thesis by (rule "2.IH"(2)[OF False r refl Inr rr[symmetric] rej l "2.prems"(2,3) c qs])
      qed
    qed
  qed
qed

lemma component_loop_end:
  "component_loop nr rc ci q counts nodes res w = Some (res', fin, w') \<Longrightarrow> errors_have_text nr \<Longrightarrow>
    cr_errorText res = [] \<Longrightarrow> \<not> cr_rejected res \<Longrightarrow>
    (fin = None \<longrightarrow> cr_errorText res' \<noteq> [] \<or> cr_rejected res') \<and> (fin \<noteq> None \<longrightarrow> cr_errorText res' = [] \<and> \<not> cr_rejected res')"
proof (induction nr rc ci q counts nodes res w rule: component_loop.induct)
  case (2 nr rc ci i q counts nodes res w)
  show ?case
  proof (cases "int (counts i) \<ge> pc_maxIterations (component_at rc ci)")
    case True
    then show ?thesis using 2 by simp
  next
    case False
    obtain r w1 where r: "run_node nr (request_for rc (node_at rc i) (counts i) nodes) w = Some (r, w1)"
      using "2.prems"(1) False by (auto simp: bind_eq_Some_conv)
    show ?thesis
    proof (cases r)
      case (Inl e)
      then have "e \<noteq> []" using r "2.prems"(2) by (simp add: errors_have_text_def) blast
      then show ?thesis using "2.prems"(1) False r Inl by auto
    next
      case (Inr x)
      obtain res1 nodes1 where rr: "recordResult (rc_model rc) i x (res, nodes) = (res1, nodes1)" by fastforce
      then have keep: "cr_errorText res1 = []" "\<not> cr_rejected res1" using "2.prems"(3,4) by (auto simp: recordResult_def Let_def)
      show ?thesis
      proof (cases "nr_rejected x")
        case True
        then show ?thesis using "2.prems"(1) False r Inr rr by auto
      next
        case rej: False
        have l: "component_loop nr rc ci (push_targets rc ci (counts(i := Suc (counts i))) (activated_edges (rc_model rc) i (nr_activated x)) q)
            (counts(i := Suc (counts i))) nodes1 res1 w1 = Some (res', fin, w')"
          using "2.prems"(1) False r Inr rr rej by simp
        show ?thesis by (rule "2.IH"(2)[OF False r refl Inr rr[symmetric] rej l "2.prems"(2) keep])
      qed
    qed
  qed
qed auto

lemma component_loop_returns: "runner_total nr \<Longrightarrow> component_loop nr rc ci q counts nodes res w \<noteq> None"
proof (induction nr rc ci q counts nodes res w rule: component_loop.induct)
  case (2 nr rc ci i q counts nodes res w)
  obtain r w1 where r: "run_node nr (request_for rc (node_at rc i) (counts i) nodes) w = Some (r, w1)"
    using "2.prems" by (fastforce simp: runner_total_def)
  then show ?case using 2 by (auto split: sum.splits prod.splits simp del: fun_upd_apply)
qed simp

lemma skip_all_returns: "runner_total nr \<Longrightarrow> skip_all nr ids res w \<noteq> None"
proof (induction nr ids res w rule: skip_all.induct)
  case (2 nr i ids res w)
  obtain r w1 where "run_skip nr i w = Some (r, w1)" using "2.prems" by (fastforce simp: runner_total_def)
  then show ?case using 2 by (auto split: sum.splits)
qed simp

lemma logged_total [simp]: "runner_total (logged nr) = runner_total nr"
  by (auto simp: runner_total_def logged_def)

lemma skip_all_log:
  "skip_all (logged nr) ids res (w, log) = Some (res', w', log') \<Longrightarrow> errors_have_text nr \<Longrightarrow> cr_errorText res = [] \<Longrightarrow>
    \<exists>sk. prefix sk ids \<and> log' = log @ map Skipped sk \<and> (cr_errorText res' = [] \<longrightarrow> sk = ids) \<and> cr_rejected res' = cr_rejected res"
proof (induction ids arbitrary: w log)
  case (Cons i ids)
  obtain r w1 where r: "run_skip (logged nr) i (w, log) = Some (r, w1, log @ [Skipped i])" "run_skip nr i w = Some (r, w1)"
    using Cons.prems(1) by (auto simp: bind_eq_Some_conv logged_skip)
  show ?case
  proof (cases r)
    case (Inl e)
    then have "e \<noteq> []" using r(2) Cons.prems(2) by (simp add: errors_have_text_def) blast
    then show ?thesis using Cons.prems(1) r Inl by (auto intro!: exI[of _ "[i]"])
  next
    case (Inr u)
    then obtain sk where "prefix sk ids" "log' = (log @ [Skipped i]) @ map Skipped sk" "cr_errorText res' = [] \<longrightarrow> sk = ids"
      "cr_rejected res' = cr_rejected res" using Cons.IH[of w1 "log @ [Skipped i]"] Cons.prems r(1) by auto
    then show ?thesis by (intro exI[of _ "i # sk"]) simp
  qed
qed simp

section \<open>The run of a compiled plan\<close>

definition runs_plan :: "run_context \<Rightarrow> bool" where
  "runs_plan rc \<longleftrightarrow> sound_plan (rc_plan rc) \<and> list_all plan_node_ok (plan_nodes (rc_plan rc)) \<and>
     buildComponentModel (rc_plan rc) = Inr (rc_model rc)"

lemma max_loop_bounds:
  assumes "\<And>i n. map_of nodes i = Some n \<Longrightarrow> pn_loopMaxIterations n \<le> b" and "1 \<le> b"
  shows "1 \<le> max_loop nodes ids" "max_loop nodes ids \<le> b"
proof -
  let ?g = "\<lambda>m i. case map_of nodes i of None \<Rightarrow> m
     | Some n \<Rightarrow> if pn_loopMaxIterations n > m then pn_loopMaxIterations n else m"
  have step: "1 \<le> ?g m i \<and> ?g m i \<le> b" if "1 \<le> m" "m \<le> b" for m i
    using that assms(1)[of i] by (cases "map_of nodes i") auto
  have "1 \<le> m \<Longrightarrow> m \<le> b \<Longrightarrow> 1 \<le> foldl ?g m ids \<and> foldl ?g m ids \<le> b" for m
  proof (induction ids arbitrary: m)
    case (Cons i ids)
    show ?case using Cons.IH step[OF Cons.prems, of i] unfolding foldl_Cons by blast
  qed simp
  then show "1 \<le> max_loop nodes ids" "max_loop nodes ids \<le> b" using assms(2) by (auto simp: max_loop_def)
qed

text \<open>A component without an inner edge is a single node.\<close>

lemma acyclic_singleton:
  assumes s: "sound_plan plan" and ci: "ci < length (plan_components plan)"
    and inner: "\<not> has_inner (component_index (plan_components plan)) (plan_components plan ! ci) ci (enumerate 0 (plan_edges plan))"
  shows "length (plan_components plan ! ci) = 1"
proof (rule ccontr)
  let ?c = "plan_components plan ! ci"
  assume "length ?c \<noteq> 1"
  moreover have d: "distinct (concat (plan_components plan))" "?c \<noteq> []"
    using s nth_mem[OF ci] by (auto simp: sound_plan_def)
  ultimately have len: "length ?c > 1" by (cases ?c) auto
  moreover have "distinct ?c" using d(1) nth_mem[OF ci] by (simp add: distinct_concat_iff)
  ultimately have uv: "?c ! 0 \<in> set ?c" "?c ! 1 \<in> set ?c" "?c ! 0 \<noteq> ?c ! 1"
    using nth_mem[of 0 ?c] nth_mem[of 1 ?c] nth_eq_iff_index_eq[of ?c 0 1] d(2) by auto
  have m: "set ?c = mutual plan (?c ! 0)" by (rule sound_mutual[OF s nth_mem[OF ci] uv(1)])
  then have "(?c ! 0, ?c ! 1) \<in> (plan_edge_rel plan)\<^sup>*" "(?c ! 1, ?c ! 0) \<in> (plan_edge_rel plan)\<^sup>*" using uv(2) by auto
  then obtain w where w: "(?c ! 0, w) \<in> plan_edge_rel plan" "(w, ?c ! 1) \<in> (plan_edge_rel plan)\<^sup>*"
    using uv(3) by (meson converse_rtranclE)
  then have "w \<in> set ?c" using m \<open>(?c ! 1, ?c ! 0) \<in> _\<close> by (auto intro: rtrancl_trans)
  moreover obtain k where k: "k < length (plan_edges plan)" "pe_from (plan_edges plan ! k) = ?c ! 0" "pe_to (plan_edges plan ! k) = w"
    using w(1) by (auto simp: plan_edge_rel_def in_set_conv_nth)
  moreover have "(k, plan_edges plan ! k) \<in> set (enumerate 0 (plan_edges plan))" using k(1) by (simp add: in_set_enumerate_eq)
  ultimately show False using inner uv(1) len ci by (force simp: has_inner_def component_index_iff[OF d(1)])
qed

lemma runs_component:
  assumes rc: "runs_plan rc" and ci: "ci < length (cm_components (rc_model rc))"
  shows "in_component rc ci i \<longleftrightarrow> i \<in> set (pc_nodes (component_at rc ci))" and "pc_nodes (component_at rc ci) \<noteq> []"
    and "in_component rc ci i \<Longrightarrow> pn_id (node_at rc i) = i" and "pc_maxIterations (component_at rc ci) \<le> 1000"
    and "1 \<le> pc_maxIterations (component_at rc ci)"
    and "e \<in> set (pc_incoming (component_at rc ci)) \<Longrightarrow> in_component rc ci (pe_to (plan_edges (rc_plan rc) ! e))"
    and "\<not> pc_cyclic (component_at rc ci) \<Longrightarrow> \<exists>i. pc_nodes (component_at rc ci) = [i]"
    and "distinct (pc_nodes (component_at rc ci))"
proof -
  let ?p = "rc_plan rc" and ?m = "rc_model rc" and ?cs = "plan_components (rc_plan rc)"
  have s: "sound_plan ?p" and ok: "list_all plan_node_ok (plan_nodes ?p)" using rc by (auto simp: runs_plan_def)
  have m: "length (cm_components ?m) = length ?cs" "cm_nodes ?m = node_table (plan_nodes ?p)"
    "cm_componentByNode ?m = component_index ?cs"
    "\<forall>i < length ?cs. pc_nodes (cm_components ?m ! i) = ?cs ! i \<and>
       pc_maxIterations (cm_components ?m ! i) = max_loop (cm_nodes ?m) (?cs ! i) \<and>
       set (pc_incoming (cm_components ?m ! i)) = entering (cm_componentByNode ?m) i (enumerate 0 (plan_edges ?p)) \<and>
       (pc_cyclic (cm_components ?m ! i) \<longleftrightarrow> has_inner (cm_componentByNode ?m) (?cs ! i) i (enumerate 0 (plan_edges ?p)))"
    using buildComponentModel_sound[OF s] rc by (auto simp: runs_plan_def)
  have ci': "ci < length ?cs" using ci m(1) by simp
  have nodes: "pc_nodes (component_at rc ci) = ?cs ! ci" using m(4) ci' by (simp add: component_at_def)
  have d: "distinct (concat ?cs)" using s by (simp add: sound_plan_def)
  show in_c: "in_component rc ci i \<longleftrightarrow> i \<in> set (pc_nodes (component_at rc ci))" for i
    using component_index_iff[OF d] m(3) ci' nodes by (simp add: in_component_def)
  show ne: "pc_nodes (component_at rc ci) \<noteq> []" using s nth_mem[OF ci'] nodes by (simp add: sound_plan_def)
  have dn: "distinct (map pn_id (plan_nodes ?p))" using s by (simp add: sound_plan_def plan_ids_def)
  show "pn_id (node_at rc i) = i" if "in_component rc ci i"
  proof -
    have "i \<in> set (plan_ids ?p)" using that in_c nodes sound_cover[OF s] nth_mem[OF ci'] by auto
    then obtain n where n: "n \<in> set (plan_nodes ?p)" "pn_id n = i" by (auto simp: plan_ids_def)
    then have "map_of (node_table (plan_nodes ?p)) i = Some n"
      using dn by (auto simp: node_table_lookup[OF dn] comp_def)
    then show ?thesis using n m(2) by (simp add: node_at_def)
  qed
  have max: "pc_maxIterations (component_at rc ci) = max_loop (node_table (plan_nodes ?p)) (?cs ! ci)"
    using m(2,4) ci' by (simp add: component_at_def)
  have "pn_loopMaxIterations n \<le> 1000" if "map_of (node_table (plan_nodes ?p)) i = Some n" for i n
    using that ok map_of_SomeD by (fastforce simp: node_table_lookup[OF dn] list_all_iff plan_node_ok_def)
  note bounds = max_loop_bounds[where b = 1000 and ids = "?cs ! ci", OF this]
  show "pc_maxIterations (component_at rc ci) \<le> 1000" "1 \<le> pc_maxIterations (component_at rc ci)"
    using max bounds by simp_all
  show "in_component rc ci (pe_to (plan_edges ?p ! e))" if "e \<in> set (pc_incoming (component_at rc ci))"
    using that m(4) ci' by (auto simp: component_at_def in_component_def entering_def in_set_enumerate_eq)
  show "\<exists>i. pc_nodes (component_at rc ci) = [i]" if "\<not> pc_cyclic (component_at rc ci)"
    using acyclic_singleton[OF s ci'] that m(3,4) ci' nodes by (simp add: component_at_def length_Suc_conv)
  show "distinct (pc_nodes (component_at rc ci))" using d nth_mem[OF ci'] nodes by (simp add: distinct_concat_iff)
qed

lemma initial_queue_in_component:
  assumes rc: "runs_plan rc" "ci < length (cm_components (rc_model rc))" and i: "i \<in> set (initial_queue rc ci inputEdges)"
  shows "in_component rc ci i"
proof -
  let ?q = "foldl (\<lambda>q e. if inputEdges ! e \<and> pe_to (plan_edges (rc_plan rc) ! e) \<notin> set q
    then q @ [pe_to (plan_edges (rc_plan rc) ! e)] else q)"
  have "set (?q q es) \<subseteq> set q \<union> (\<lambda>e. pe_to (plan_edges (rc_plan rc) ! e)) ` set es" for q es
  proof (induction es arbitrary: q)
    case (Cons e es)
    show ?case using Cons[of "q @ [pe_to (plan_edges (rc_plan rc) ! e)]"] Cons[of q] by auto
  qed simp
  from this[of "[]" "pc_incoming (component_at rc ci)"] i
  have "i = hd (pc_nodes (component_at rc ci)) \<or> i \<in> (\<lambda>e. pe_to (plan_edges (rc_plan rc) ! e)) ` set (pc_incoming (component_at rc ci))"
    by (auto simp: initial_queue_def Let_def split: if_splits)
  then show ?thesis using runs_component(1,2,6)[OF rc] by auto
qed

text \<open>The nodes of a component that were executed or skipped.\<close>

definition settled :: "trace_event list \<Rightarrow> string set" where
  "settled log = {i. Skipped i \<in> set log \<or> (\<exists>k. Executed i k \<in> set log)}"

lemma skipped_log_ok:
  assumes "counts_ok rc ci counts log" "prefix sk (filter (\<lambda>i. counts i = 0) ids)" "distinct ids"
  shows "log_ok rc ci (log @ map Skipped sk)"
proof -
  have "distinct (filter (\<lambda>i. counts i = 0) ids)" using assms(3) by simp
  then have sk: "distinct sk" "\<forall>i \<in> set sk. counts i = 0" using assms(2) set_mono_prefix[OF assms(2)] by (auto simp: prefix_def)
  show ?thesis using assms(1) sk by (auto simp: counts_ok_def log_ok_def distinct_map inj_on_def)
qed

lemma skipped_settled:
  assumes "counts_ok rc ci counts log" "\<And>i. in_component rc ci i \<longleftrightarrow> i \<in> set ids"
  shows "settled (log @ map Skipped (filter (\<lambda>i. counts i = 0) ids)) = set ids"
proof -
  have "(\<exists>k. Executed i k \<in> set log) \<longleftrightarrow> counts i \<noteq> 0" "counts i \<noteq> 0 \<Longrightarrow> i \<in> set ids" for i
    using assms by (auto simp: counts_ok_def log_ok_def)
  then show ?thesis using assms(1) by (auto simp: settled_def counts_ok_def)
qed

lemma logged_text [simp]: "errors_have_text nr \<Longrightarrow> errors_have_text (logged nr)"
  by (auto simp: errors_have_text_def logged_def)

lemma execute_component_log:
  assumes rc: "runs_plan rc" "ci < length (cm_components (rc_model rc))" and e: "errors_have_text nr"
    and r: "execute_component (logged nr) rc ci active inputEdges nodes (w, []) = Some (res, w', log)"
  shows "log_ok rc ci log \<and> (cr_errorText res = [] \<and> \<not> cr_rejected res \<longrightarrow> settled log = set (pc_nodes (component_at rc ci)))"
proof -
  let ?c = "component_at rc ci"
  let ?res = "\<lparr>cr_edgeActive = replicate (length (plan_edges (rc_plan rc))) False, cr_outputs = [], cr_rejected = False, cr_errorText = []\<rparr>"
  note comp = runs_component[OF rc]
  note dist = comp(8)
  have pre: "prefix sk (pc_nodes ?c) \<Longrightarrow> distinct sk" for sk using dist by (auto simp: prefix_def)
  consider (skip) "\<not> active" | (single) "active" "\<not> pc_cyclic ?c" | (loop) "active" "pc_cyclic ?c" by blast
  then show ?thesis
  proof cases
    case skip
    then have "skip_all (logged nr) (pc_nodes ?c) ?res (w, []) = Some (res, w', log)" using r by (simp add: execute_component_def Let_def)
    from skip_all_log[OF this e] obtain sk where "prefix sk (pc_nodes ?c)" "log = map Skipped sk" "cr_errorText res = [] \<longrightarrow> sk = pc_nodes ?c"
      by auto
    then show ?thesis using pre by (auto simp: log_ok_def distinct_map inj_on_def settled_def)
  next
    case single
    obtain i where i: "pc_nodes ?c = [i]" "pn_id (node_at rc i) = i" "in_component rc ci i" using comp(1,3,7) single(2) by (metis list.set_intros(1))
    let ?rq = "request_for rc (node_at rc i) 0 nodes"
    obtain x wl where x: "run_node (logged nr) ?rq (w, []) = Some (x, wl)"
      using r single i(1) by (auto simp: execute_component_def Let_def bind_eq_Some_conv)
    then have "snd wl = log" using r single i(1) by (cases x) (auto simp: execute_component_def Let_def)
    then have "log = [Executed i 0]"
      using x i(2) logged_run[of nr ?rq w "[]" x "fst wl" "snd wl"] by (cases wl) (simp add: request_for_def)
    then show ?thesis using i comp(5) by (auto simp: log_ok_def settled_def)
  next
    case loop
    obtain res1 fin w1 log1 where l: "component_loop (logged nr) rc ci (initial_queue rc ci inputEdges) (\<lambda>_. 0) nodes ?res (w, []) = Some (res1, fin, w1, log1)"
      and f: "case fin of None \<Rightarrow> (res, w', log) = (res1, w1, log1)
        | Some counts \<Rightarrow> skip_all (logged nr) (filter (\<lambda>i. counts i = 0) (pc_nodes ?c)) res1 (w1, log1) = Some (res, w', log)"
      using r loop by (auto simp: execute_component_def Let_def bind_eq_Some_conv split: option.splits)
    have "counts_ok rc ci (\<lambda>_. 0) (snd (w, []))" by (simp add: counts_ok_def log_ok_def)
    from component_loop_log[OF l refl comp(3) this] initial_queue_in_component[OF rc]
    have lo: "log_ok rc ci log1" "\<forall>counts. fin = Some counts \<longrightarrow> counts_ok rc ci counts log1" by auto
    have "errors_have_text (logged nr)" using e by simp
    from component_loop_end[OF l this]
    have le: "fin = None \<longrightarrow> cr_errorText res1 \<noteq> [] \<or> cr_rejected res1" "fin \<noteq> None \<longrightarrow> cr_errorText res1 = []" by auto
    show ?thesis
    proof (cases fin)
      case None
      then show ?thesis using f lo(1) le(1) by auto
    next
      case (Some counts)
      then have co: "counts_ok rc ci counts log1" using lo(2) by simp
      have "skip_all (logged nr) (filter (\<lambda>i. counts i = 0) (pc_nodes ?c)) res1 (w1, log1) = Some (res, w', log)" using f Some by simp
      from skip_all_log[OF this e] le(2) Some obtain sk where sk: "prefix sk (filter (\<lambda>i. counts i = 0) (pc_nodes ?c))"
        "log = log1 @ map Skipped sk" "cr_errorText res = [] \<longrightarrow> sk = filter (\<lambda>i. counts i = 0) (pc_nodes ?c)" by auto
      show ?thesis using skipped_log_ok[OF co sk(1) dist] skipped_settled[OF co] sk(2,3) comp(1) by auto
    qed
  qed
qed

section \<open>What every call keeps holds at the end of the component\<close>

definition runner_keeps :: "('s \<Rightarrow> bool) \<Rightarrow> 's node_runner \<Rightarrow> bool" where
  "runner_keeps P nr \<longleftrightarrow> (\<forall>rq w r w'. run_node nr rq w = Some (r, w') \<longrightarrow> P w \<longrightarrow> P w') \<and>
     (\<forall>i w r w'. run_skip nr i w = Some (r, w') \<longrightarrow> P w \<longrightarrow> P w')"

lemma component_loop_keeps:
  "component_loop nr rc ci q counts nodes res w = Some (res', fin, w') \<Longrightarrow> runner_keeps P nr \<Longrightarrow> P w \<Longrightarrow> P w'"
proof (induction nr rc ci q counts nodes res w rule: component_loop.induct)
  case (2 nr rc ci i q counts nodes res w)
  show ?case
  proof (cases "int (counts i) \<ge> pc_maxIterations (component_at rc ci)")
    case True
    then show ?thesis using 2 by simp
  next
    case False
    obtain r w1 where r: "run_node nr (request_for rc (node_at rc i) (counts i) nodes) w = Some (r, w1)"
      using "2.prems"(1) False by (auto simp: bind_eq_Some_conv)
    then have w1: "P w1" using "2.prems"(2,3) unfolding runner_keeps_def by blast
    show ?thesis
    proof (cases "(\<exists>e. r = Inl e) \<or> (\<exists>x. r = Inr x \<and> nr_rejected x)")
      case True
      then show ?thesis using "2.prems"(1) False r w1 by (auto split: prod.splits)
    next
      case go: False
      then obtain x where x: "r = Inr x" "\<not> nr_rejected x" by (cases r) auto
      obtain res1 nodes1 where rr: "recordResult (rc_model rc) i x (res, nodes) = (res1, nodes1)" by fastforce
      have "component_loop nr rc ci (push_targets rc ci (counts(i := Suc (counts i))) (activated_edges (rc_model rc) i (nr_activated x)) q)
          (counts(i := Suc (counts i))) nodes1 res1 w1 = Some (res', fin, w')" using "2.prems"(1) False r x rr by simp
      then show ?thesis by (rule "2.IH"(2)[OF False r refl x(1) rr[symmetric] x(2) _ "2.prems"(2) w1])
    qed
  qed
qed simp

lemma skip_all_keeps: "skip_all nr ids res w = Some (res', w') \<Longrightarrow> runner_keeps P nr \<Longrightarrow> P w \<Longrightarrow> P w'"
proof (induction nr ids res w rule: skip_all.induct)
  case (2 nr i ids res w)
  obtain r w1 where r: "run_skip nr i w = Some (r, w1)" using "2.prems"(1) by (auto simp: bind_eq_Some_conv)
  then have "P w1" using "2.prems"(2,3) unfolding runner_keeps_def by blast
  then show ?case using 2 r by (cases r) auto
qed simp

lemma execute_component_keeps:
  assumes "execute_component nr rc ci active inputEdges nodes w = Some (res, w')" "runner_keeps P nr" "P w"
  shows "P w'"
proof -
  consider (skip) "\<not> active" | (single) "active" "\<not> pc_cyclic (component_at rc ci)" | (loop) "active" "pc_cyclic (component_at rc ci)" by blast
  then show ?thesis
  proof cases
    case skip
    then show ?thesis using skip_all_keeps[OF _ assms(2,3)] assms(1) by (auto simp: execute_component_def Let_def)
  next
    case single
    let ?node = "node_at rc (hd (pc_nodes (component_at rc ci)))"
    obtain r w1 where r: "run_node nr (request_for rc ?node 0 nodes) w = Some (r, w1)"
      using assms(1) single by (auto simp: execute_component_def Let_def bind_eq_Some_conv)
    then have "P w1" using assms(2,3) unfolding runner_keeps_def by blast
    moreover have "w1 = w'" using assms(1) single r by (cases r) (auto simp: execute_component_def Let_def)
    ultimately show ?thesis by simp
  next
    case loop
    then show ?thesis
      using assms(1) component_loop_keeps[OF _ assms(2,3)] skip_all_keeps[OF _ assms(2)]
      by (fastforce simp: execute_component_def Let_def bind_eq_Some_conv split: option.splits)
  qed
qed

lemma executePlanNode_consumed:
  assumes "executePlanNode wk rq seen w = Some (r, w', seen')"
  shows "seen' = seen \<and> (pn_uses (rq_node rq) = ''core.event'' \<longrightarrow> (\<exists>e. r = Inl e)) \<or>
    (\<exists>s w1 w2 m. evs_providerEventID s \<notin> set seen \<and> evs_payload s = Some (JObj m) \<and> seen' = evs_providerEventID s # seen \<and>
       wf_endEvent wk rq s w1 = Some (r, w2))"
proof (cases "pn_uses (rq_node rq) = ''core.event''")
  case True
  then have e: "executeEventNode wk rq seen w = Some (r, w', seen')" using assms by (simp add: executePlanNode_def Let_def)
  then obtain b w1 where b: "wf_beginEvent wk rq w = Some (b, w1)" by (auto simp: executeEventNode_def bind_eq_Some_conv)
  show ?thesis
  proof (cases "(\<exists>x. b = Inl x) \<or> time_ParseDuration (pn_timeout (rq_node rq)) = None")
    case True
    then show ?thesis using e b by (auto simp: executeEventNode_def split: sum.splits)
  next
    case False
    then obtain d w0 w2 where "event_loop wk rq seen w0 = Some (r, w2, seen')"
      using e b by (cases b) (auto simp: executeEventNode_def)
    from event_loop_consumed[OF this] show ?thesis unfolding consumed_def by auto
  qed
qed (use assms in \<open>auto simp: executePlanNode_def Let_def split: if_splits\<close>)

lemma plan_runner_distinct: "runner_keeps (\<lambda>p. distinct (snd p)) (plan_runner wk uid)"
  unfolding runner_keeps_def plan_runner_def by (auto dest: executePlanNode_consumed)

section \<open>Writing the trace changes nothing\<close>

lemma component_loop_erase:
  fixes nr :: "'s node_runner"
  shows "component_loop nr' rc ci q counts nodes res wl = Some (res', fin, wl') \<Longrightarrow> nr' = logged nr \<Longrightarrow>
    component_loop nr rc ci q counts nodes res (fst wl) = Some (res', fin, fst wl')"
proof (induction nr' rc ci q counts nodes res wl rule: component_loop.induct)
  case (2 nr' rc ci i q counts nodes res wl)
  show ?case
  proof (cases "int (counts i) \<ge> pc_maxIterations (component_at rc ci)")
    case True
    then show ?thesis using 2 by simp
  next
    case False
    let ?rq = "request_for rc (node_at rc i) (counts i) nodes"
    obtain r wl1 where r: "run_node nr' ?rq wl = Some (r, wl1)" using "2.prems"(1) False by (auto simp: bind_eq_Some_conv)
    then have r1: "run_node nr ?rq (fst wl) = Some (r, fst wl1)"
      using "2.prems"(2) logged_run[of nr ?rq "fst wl" "snd wl" r "fst wl1" "snd wl1"] by simp
    show ?thesis
    proof (cases "(\<exists>e. r = Inl e) \<or> (\<exists>x. r = Inr x \<and> nr_rejected x)")
      case True
      then show ?thesis using "2.prems"(1) False r r1 by (auto split: prod.splits)
    next
      case go: False
      then obtain x where x: "r = Inr x" "\<not> nr_rejected x" by (cases r) auto
      obtain res1 nodes1 where rr: "recordResult (rc_model rc) i x (res, nodes) = (res1, nodes1)" by fastforce
      have l: "component_loop nr' rc ci (push_targets rc ci (counts(i := Suc (counts i))) (activated_edges (rc_model rc) i (nr_activated x)) q)
          (counts(i := Suc (counts i))) nodes1 res1 wl1 = Some (res', fin, wl')" using "2.prems"(1) False r x rr by simp
      show ?thesis using "2.IH"(2)[OF False r refl x(1) rr[symmetric] x(2) l "2.prems"(2)] False r1 x rr by (simp del: fun_upd_apply)
    qed
  qed
qed simp

lemma skip_all_erase:
  "skip_all (logged nr) ids res wl = Some (res', wl') \<Longrightarrow> skip_all nr ids res (fst wl) = Some (res', fst wl')"
proof (induction ids arbitrary: wl)
  case (Cons i ids)
  obtain r wl1 where r: "run_skip (logged nr) i wl = Some (r, wl1)" using Cons.prems by (auto simp: bind_eq_Some_conv)
  then have "run_skip nr i (fst wl) = Some (r, fst wl1)" using logged_skip[of nr i "fst wl" "snd wl" r "fst wl1" "snd wl1"] by simp
  then show ?case using Cons r by (cases r) auto
qed simp

lemma execute_component_erase:
  assumes "execute_component (logged nr) rc ci active inputEdges nodes wl = Some (res, wl')"
  shows "execute_component nr rc ci active inputEdges nodes (fst wl) = Some (res, fst wl')"
proof -
  consider (skip) "\<not> active" | (single) "active" "\<not> pc_cyclic (component_at rc ci)" | (loop) "active" "pc_cyclic (component_at rc ci)" by blast
  then show ?thesis
  proof cases
    case skip
    then show ?thesis using skip_all_erase[of nr _ _ wl res wl'] assms by (auto simp: execute_component_def Let_def)
  next
    case single
    let ?rq = "request_for rc (node_at rc (hd (pc_nodes (component_at rc ci)))) 0 nodes"
    obtain r wl1 where r: "run_node (logged nr) ?rq wl = Some (r, wl1)"
      using assms single by (auto simp: execute_component_def Let_def bind_eq_Some_conv)
    then have "run_node nr ?rq (fst wl) = Some (r, fst wl1)" using logged_run[of nr ?rq "fst wl" "snd wl" r "fst wl1" "snd wl1"] by simp
    then show ?thesis using assms single r by (cases r) (auto simp: execute_component_def Let_def)
  next
    case loop
    let ?res = "\<lparr>cr_edgeActive = replicate (length (plan_edges (rc_plan rc))) False, cr_outputs = [], cr_rejected = False, cr_errorText = []\<rparr>"
    obtain res1 fin wl1 where l: "component_loop (logged nr) rc ci (initial_queue rc ci inputEdges) (\<lambda>_. 0) nodes ?res wl = Some (res1, fin, wl1)"
      using assms loop by (auto simp: execute_component_def Let_def bind_eq_Some_conv)
    then show ?thesis using component_loop_erase[OF l refl] assms loop skip_all_erase[of nr _ res1 wl1 res wl']
      by (cases fin) (auto simp: execute_component_def Let_def)
  qed
qed

lemma compiled_runs_plan:
  assumes "Compile ce meta fs = Some (rc_plan rc, ds)" "\<not> HasErrors ds" "buildComponentModel (rc_plan rc) = Inr (rc_model rc)"
  shows "runs_plan rc"
proof -
  obtain st components where r: "compile_result ce meta fs st components (rc_plan rc) ds" using CompileE[OF assms(1,2)] .
  have "list_all plan_node_ok (cs_plan st)"
    using r by (auto simp: compile_result_def nodes_ok_def list_all2_conv_all_nth list_all_length)
  then have "list_all plan_node_ok (plan_nodes (rc_plan rc))" using r by (simp add: compile_result_def list_all_iff)
  then show ?thesis using compiled_plan_sound[OF assms(1,2)] assms(3) by (simp add: runs_plan_def)
qed

lemma execute_component_returns:
  assumes "runner_total nr"
  shows "\<exists>res w'. execute_component nr rc ci active inputEdges nodes w = Some (res, w')"
proof -
  let ?res = "\<lparr>cr_edgeActive = replicate (length (plan_edges (rc_plan rc))) False, cr_outputs = [], cr_rejected = False, cr_errorText = []\<rparr>"
  let ?node = "node_at rc (hd (pc_nodes (component_at rc ci)))"
  obtain r w1 where r: "run_node nr (request_for rc ?node 0 nodes) w = Some (r, w1)"
    using assms by (fastforce simp: runner_total_def)
  obtain res1 fin w2 where l: "component_loop nr rc ci (initial_queue rc ci inputEdges) (\<lambda>_. 0) nodes ?res w = Some (res1, fin, w2)"
    using component_loop_returns[OF assms] by fastforce
  show ?thesis using r l skip_all_returns[OF assms]
    by (cases r; cases fin) (auto simp: execute_component_def Let_def)
qed


text \<open>C19: in one component an external event is consumed at most once. The identities consumed by the event nodes of the
  component are distinct, and every execution of a node either consumes none (an event node then fails) or ends with
  the result of \<open>EndEvent\<close> for an object payload whose identity was not consumed before.\<close>

theorem events_are_consumed_once:
  "(execute_component (plan_runner wk uid) rc ci active inputEdges nodes (w, []) = Some (res, w', ids) \<longrightarrow> distinct ids) \<and>
   (executePlanNode wk rq seen w = Some (r, w1, seen') \<longrightarrow>
      seen' = seen \<and> (pn_uses (rq_node rq) = ''core.event'' \<longrightarrow> (\<exists>e. r = Inl e)) \<or>
      (\<exists>s w2 w3 m. evs_providerEventID s \<notin> set seen \<and> evs_payload s = Some (JObj m) \<and> seen' = evs_providerEventID s # seen \<and>
         wf_endEvent wk rq s w2 = Some (r, w3)))"
  using execute_component_keeps[OF _ plan_runner_distinct, of wk uid rc ci active inputEdges nodes "(w, [])" res "(w', ids)"]
    executePlanNode_consumed[of wk rq seen w r w1 seen'] by auto

section \<open>Witnesses\<close>

definition noop_runner :: "nat node_runner" where
  "noop_runner = \<lparr>run_node = (\<lambda>rq w. Some (Inr \<lparr>nr_output = Some (JObj []), nr_activated = map (\<lambda>_. True) (rq_outgoing rq), nr_rejected = False\<rparr>, Suc w)),
     run_skip = (\<lambda>i w. Some (Inr (), w))\<rparr>"

lemma sample_model:
  obtains plan m where "Compile sample_env sample_meta loop_flow = Some (plan, [])" "\<not> HasErrors []"
    "buildComponentModel plan = Inr m" "model_ok m" "cm_components m \<noteq> []"
proof -
  obtain plan where p: "Compile sample_env sample_meta loop_flow = Some (plan, [])" "\<not> HasErrors []"
    "(''a'', ''a'') \<in> (plan_edge_rel plan)\<^sup>+" by (rule sample_accepted)
  have s: "sound_plan plan" by (rule compiled_plan_sound[OF p(1,2)])
  then have "set (plan_ids plan) \<noteq> {}" using p(3) by (auto simp: sound_plan_def dest!: tranclD)
  then have "plan_components plan \<noteq> []" using sound_cover[OF s] by auto
  then show thesis using that p(1,2) buildComponentModel_sound[OF s] by (metis length_0_conv)
qed


definition sample_workflow :: "nat workflow" where
  "sample_workflow = \<lparr>wf_executeNode = (\<lambda>_ _ _ _ w. Some (Inl ''unused'', w)), wf_beginApproval = (\<lambda>_ w. Some (Inr (), w)),
     wf_endApproval = (\<lambda>_ _ w. Some (Inl ''unused'', w)), wf_beginEvent = (\<lambda>_ w. Some (Inr (), w)),
     wf_endEvent = (\<lambda>_ s w. Some (Inr \<lparr>nr_output = evs_payload s, nr_activated = [], nr_rejected = False\<rparr>, w)),
     wf_ignoreEvent = (\<lambda>_ _ w. Some (Inr (), w)), wf_skipNode = (\<lambda>_ _ w. Some (Inr (), w)),
     wf_scheduleTimer = (\<lambda>_ _ w. w), wf_cancelTimer = (\<lambda>_ w. w), wf_selectApproval = (\<lambda>_ _ w. Some (TimerExpired, w)),
     wf_selectEvent = (\<lambda>_ _ w. Some (Received \<lparr>evs_providerEventID = (if w = 0 then ''e1'' else ''e2''), evs_payload = Some (JObj [])\<rparr>, Suc w))\<rparr>"

definition event_request :: node_request where
  "event_request = \<lparr>rq_runUID = ''r'', rq_node = zero_node\<lparr>pn_id := ''n'', pn_uses := ''core.event'', pn_timeout := ''0''\<rparr>, rq_iteration = 0,
     rq_outgoing = [], rq_input = None, rq_nodes = []\<rparr>"

text \<open>A redelivered event is ignored and the next one is consumed.\<close>

lemma sample_event: "\<exists>r w. executePlanNode sample_workflow event_request [''e1''] 0 = Some (r, w, [''e2'', ''e1''])"
proof -
  have d: "time_ParseDuration ''0'' = Some 0" by (simp add: time_ParseDuration_def)
  have "event_loop sample_workflow event_request [''e1''] 0 = event_loop sample_workflow event_request [''e1''] 1"
    by (subst event_loop.simps) (simp add: sample_workflow_def checked_event_def)
  moreover have "\<exists>r w. event_loop sample_workflow event_request [''e1''] 1 = Some (r, w, [''e2'', ''e1''])"
    by (subst event_loop.simps) (simp add: sample_workflow_def checked_event_def)
  ultimately show ?thesis
    using d by (auto simp: executePlanNode_def executeEventNode_def event_request_def zero_node_def sample_workflow_def)
qed

theorem events_are_consumed_once_witness:
  "\<exists>s w2 w3 r. evs_providerEventID s = ''e2'' \<and> wf_endEvent sample_workflow event_request s w2 = Some (r, w3)"
proof -
  obtain r w where "executePlanNode sample_workflow event_request [''e1''] 0 = Some (r, w, [''e2'', ''e1''])" using sample_event by blast
  then show ?thesis
    using events_are_consumed_once[where wk = sample_workflow and rq = event_request and seen = "[''e1'']" and w = 0 and r = r and ?w1.0 = w
      and seen' = "[''e2'', ''e1'']"] by (simp add: eq_commute del: split_paired_Ex) blast
qed

end
