(* ===== verification/Engine_Scheduler.thy ===== *)
theory Engine_Scheduler
  imports Engine_Run
begin

text \<open>
  The scheduler of \<open>InterpreterWorkflow\<close> in \<open>internal/engine/engine.go\<close>. Components that were admitted run
  concurrently, and the order in which their completions arrive is not determined: the scheduler is a step
  relation with one step per completion received. A step is one round of the loop of the source: admission of
  ready components while fewer than \<open>maxParallel\<close> run, then the receipt of the completion of any running
  component, with any result its execution can have. The completion channel is never closed.

  The theorems: the number of running components stays within the limit (so the buffered channel never overflows), every
  component starts at most once and after all components it depends on, with the final activation of every edge that enters
  it; a run never deadlocks, ends after at most one completion per component, and ends as succeeded exactly
  when every component completed without an error and without a rejection.
\<close>

record admission =
  ad_index :: nat
  ad_active :: bool
  ad_inputEdges :: "bool list"
  ad_inputNodes :: "(string \<times> json) list"

record scheduler =
  sc_pending :: "nat list"
  sc_completed :: "bool list"
  sc_running :: "admission list"
  sc_edgeActive :: "bool list"
  sc_nodeOutputs :: "(string \<times> json) list"
  sc_stopAdmission :: bool
  sc_firstError :: string
  sc_rejected :: bool

definition max_parallel :: "execution_plan \<Rightarrow> int" where
  "max_parallel plan = (if plan_maxParallel plan \<le> 0 then 1 else plan_maxParallel plan)"

definition initial_scheduler :: "execution_plan \<Rightarrow> component_model \<Rightarrow> scheduler" where
  "initial_scheduler plan m = \<lparr>sc_pending = cm_order m, sc_completed = replicate (length (cm_components m)) False, sc_running = [],
     sc_edgeActive = replicate (length (plan_edges plan)) False, sc_nodeOutputs = [], sc_stopAdmission = False, sc_firstError = [],
     sc_rejected = False\<rparr>"

text \<open>Taking the component at a position of the pending list and starting it with a copy of the current edges and outputs.\<close>

definition admit_at :: "component_model \<Rightarrow> nat \<Rightarrow> scheduler \<Rightarrow> scheduler" where
  "admit_at m position s =
     (let i = sc_pending s ! position in
      s\<lparr>sc_pending := take position (sc_pending s) @ drop (Suc position) (sc_pending s),
        sc_running := sc_running s @ [\<lparr>ad_index = i, ad_active = componentActive m i (sc_edgeActive s),
          ad_inputEdges = sc_edgeActive s, ad_inputNodes = sc_nodeOutputs s\<rparr>]\<rparr>)"

lemma nextReady_range: "nextReady m pending completed = Some p \<Longrightarrow> p < length pending"
  by (auto simp: nextReady_def find_Some_iff)

function admit_ready :: "component_model \<Rightarrow> int \<Rightarrow> scheduler \<Rightarrow> scheduler" where
  "admit_ready m limit s =
     (if int (length (sc_running s)) < limit then
        (case nextReady m (sc_pending s) (sc_completed s) of None \<Rightarrow> s | Some p \<Rightarrow> admit_ready m limit (admit_at m p s))
      else s)"
  by pat_completeness auto
termination
  by (relation "measure (\<lambda>(m, limit, s). length (sc_pending s))")
    (auto simp: admit_at_def Let_def dest!: nextReady_range)

declare admit_ready.simps [simp del]

definition admitted :: "component_model \<Rightarrow> int \<Rightarrow> scheduler \<Rightarrow> scheduler" where
  "admitted m limit s = (if sc_stopAdmission s then s else admit_ready m limit s)"

text \<open>The receipt of a completion.\<close>

definition merge_edges :: "bool list \<Rightarrow> bool list \<Rightarrow> bool list" where
  "merge_edges edges new = foldl (\<lambda>es e. if new ! e then es[e := True] else es) edges [0..<length new]"

definition merge_outputs :: "(string \<times> json) list \<Rightarrow> (string \<times> json) list \<Rightarrow> (string \<times> json) list" where
  "merge_outputs outputs new = foldl (\<lambda>os p. map_put (fst p) (snd p) os) outputs new"

definition receive_completion :: "admission \<Rightarrow> component_result \<Rightarrow> scheduler \<Rightarrow> scheduler" where
  "receive_completion a r s =
     (let s1 = s\<lparr>sc_running := remove1 a (sc_running s), sc_completed := (sc_completed s)[ad_index a := True]\<rparr> in
      if cr_errorText r \<noteq> [] then
        (if sc_firstError s1 = [] then s1\<lparr>sc_firstError := cr_errorText r, sc_stopAdmission := True\<rparr> else s1)
      else
        (let s2 = s1\<lparr>sc_edgeActive := merge_edges (sc_edgeActive s1) (cr_edgeActive r),
                     sc_nodeOutputs := merge_outputs (sc_nodeOutputs s1) (cr_outputs r)\<rparr> in
         if cr_rejected r \<and> \<not> sc_rejected s2 then s2\<lparr>sc_rejected := True, sc_stopAdmission := True\<rparr> else s2))"

datatype run_outcome = RunFailed string | RunRejected | RunSucceeded

definition final_outcome :: "scheduler \<Rightarrow> run_outcome" where
  "final_outcome s = (if sc_firstError s \<noteq> [] then RunFailed (sc_firstError s) else if sc_rejected s then RunRejected else RunSucceeded)"

definition scheduler_done :: "scheduler \<Rightarrow> bool" where
  "scheduler_done s \<longleftrightarrow> sc_pending s = [] \<and> sc_running s = []"

text \<open>The outcome of the run in a state at the head of the loop; \<open>None\<close> while the scheduler waits for a completion.\<close>

definition scheduler_outcome :: "component_model \<Rightarrow> int \<Rightarrow> scheduler \<Rightarrow> run_outcome option" where
  "scheduler_outcome m limit s =
     (if scheduler_done s then Some (final_outcome s)
      else (let s1 = admitted m limit s in
        if sc_running s1 = [] then
          (if sc_stopAdmission s1 then Some (final_outcome s1) else Some (RunFailed ''component scheduler reached a dependency deadlock''))
        else None))"

inductive sched_run :: "component_model \<Rightarrow> int \<Rightarrow> (admission \<Rightarrow> component_result \<Rightarrow> bool) \<Rightarrow> scheduler \<Rightarrow> (admission \<times> component_result) list
    \<Rightarrow> scheduler \<Rightarrow> bool" for m limit exec s0 where
  start: "sched_run m limit exec s0 [] s0"
| complete: "sched_run m limit exec s0 h s \<Longrightarrow> \<not> scheduler_done s \<Longrightarrow> a \<in> set (sc_running (admitted m limit s)) \<Longrightarrow> exec a r \<Longrightarrow>
    sched_run m limit exec s0 (h @ [(a, r)]) (receive_completion a r (admitted m limit s))"

section \<open>The invariant of the scheduler\<close>

text \<open>What the scheduler needs of the executions: they activate only edges that leave the component.\<close>

definition leaves :: "component_model \<Rightarrow> execution_plan \<Rightarrow> nat \<Rightarrow> nat \<Rightarrow> bool" where
  "leaves m plan ci e \<longleftrightarrow> map_of (cm_componentByNode m) (pe_from (plan_edges plan ! e)) = Some ci"

definition exec_ok :: "component_model \<Rightarrow> execution_plan \<Rightarrow> (admission \<Rightarrow> component_result \<Rightarrow> bool) \<Rightarrow> bool" where
  "exec_ok m plan exec \<longleftrightarrow> (\<forall>a r. exec a r \<longrightarrow> ad_index a < length (cm_components m) \<longrightarrow>
     length (cr_edgeActive r) = length (plan_edges plan) \<and>
     (\<forall>e < length (plan_edges plan). cr_edgeActive r ! e \<longrightarrow> leaves m plan (ad_index a) e))"

definition incoming_ok :: "component_model \<Rightarrow> execution_plan \<Rightarrow> bool" where
  "incoming_ok m plan \<longleftrightarrow> (\<forall>i < length (cm_components m). \<forall>e \<in> set (pc_incoming (cm_components m ! i)). e < length (plan_edges plan) \<and>
     (\<forall>f. leaves m plan f e \<longrightarrow> f \<in> set (pc_predecessors (cm_components m ! i))))"

definition done_set :: "scheduler \<Rightarrow> nat set" where
  "done_set s = {i. i < length (sc_completed s) \<and> sc_completed s ! i}"

definition run_set :: "scheduler \<Rightarrow> nat set" where
  "run_set s = ad_index ` set (sc_running s)"

text \<open>The components: which are pending, running and completed.\<close>

definition control_inv :: "component_model \<Rightarrow> int \<Rightarrow> scheduler \<Rightarrow> bool" where
  "control_inv m limit s \<longleftrightarrow> length (sc_completed s) = length (cm_components m) \<and> distinct (map ad_index (sc_running s)) \<and>
     run_set s \<subseteq> {..<length (cm_components m)} - done_set s \<and> int (length (sc_running s)) \<le> limit \<and>
     sc_pending s = filter (\<lambda>i. i \<notin> run_set s \<union> done_set s) (cm_order m) \<and>
     (\<forall>i \<in> run_set s \<union> done_set s. set (pc_predecessors (cm_components m ! i)) \<subseteq> done_set s)"

text \<open>The inputs: what was admitted saw the activation its incoming edges have now.\<close>

definition inputs_inv :: "component_model \<Rightarrow> execution_plan \<Rightarrow> (admission \<times> component_result) list \<Rightarrow> scheduler \<Rightarrow> bool" where
  "inputs_inv m plan h s \<longleftrightarrow> length (sc_edgeActive s) = length (plan_edges plan) \<and>
     (\<forall>a \<in> set (sc_running s) \<union> fst ` set h. ad_active a = componentActive m (ad_index a) (sc_edgeActive s) \<and>
        (\<forall>e \<in> set (pc_incoming (cm_components m ! ad_index a)). ad_inputEdges a ! e = sc_edgeActive s ! e))"

text \<open>The history: completed components and the outcome so far.\<close>

definition history_inv :: "(admission \<times> component_result) list \<Rightarrow> scheduler \<Rightarrow> bool" where
  "history_inv h s \<longleftrightarrow> distinct (map (ad_index \<circ> fst) h) \<and> (ad_index \<circ> fst) ` set h = done_set s \<and>
     (sc_firstError s \<noteq> [] \<longleftrightarrow> (\<exists>(a, r) \<in> set h. cr_errorText r \<noteq> [])) \<and>
     (sc_firstError s \<noteq> [] \<longrightarrow> sc_firstError s \<in> (cr_errorText \<circ> snd) ` set h) \<and>
     (sc_rejected s \<longleftrightarrow> (\<exists>(a, r) \<in> set h. cr_errorText r = [] \<and> cr_rejected r)) \<and>
     (sc_stopAdmission s \<longleftrightarrow> sc_firstError s \<noteq> [] \<or> sc_rejected s)"

definition sched_inv :: "component_model \<Rightarrow> execution_plan \<Rightarrow> int \<Rightarrow> (admission \<times> component_result) list \<Rightarrow> scheduler \<Rightarrow> bool" where
  "sched_inv m plan limit h s \<longleftrightarrow> control_inv m limit s \<and> inputs_inv m plan h s \<and> history_inv h s"

lemma history_invD:
  assumes "history_inv h s"
  shows "distinct (map (ad_index \<circ> fst) h)"
    "(ad_index \<circ> fst) ` set h = done_set s"
    "sc_firstError s \<noteq> [] \<longleftrightarrow> (\<exists>(a, r) \<in> set h. cr_errorText r \<noteq> [])"
    "sc_rejected s \<longleftrightarrow> (\<exists>(a, r) \<in> set h. cr_errorText r = [] \<and> cr_rejected r)"
    "sc_stopAdmission s \<longleftrightarrow> sc_firstError s \<noteq> [] \<or> sc_rejected s"
    "sc_firstError s \<noteq> [] \<longrightarrow> sc_firstError s \<in> (cr_errorText \<circ> snd) ` set h"
proof -
  show "distinct (map (ad_index \<circ> fst) h)" using assms unfolding history_inv_def by (elim conjE)
  show "(ad_index \<circ> fst) ` set h = done_set s" using assms unfolding history_inv_def by (elim conjE)
  show "sc_firstError s \<noteq> [] \<longleftrightarrow> (\<exists>(a, r) \<in> set h. cr_errorText r \<noteq> [])" using assms unfolding history_inv_def by (elim conjE)
  show "sc_rejected s \<longleftrightarrow> (\<exists>(a, r) \<in> set h. cr_errorText r = [] \<and> cr_rejected r)" using assms unfolding history_inv_def by (elim conjE)
  show "sc_stopAdmission s \<longleftrightarrow> sc_firstError s \<noteq> [] \<or> sc_rejected s" using assms unfolding history_inv_def by (elim conjE)
  show "sc_firstError s \<noteq> [] \<longrightarrow> sc_firstError s \<in> (cr_errorText \<circ> snd) ` set h" using assms unfolding history_inv_def by (elim conjE)
qed

lemma drop_position: "distinct xs \<Longrightarrow> p < length xs \<Longrightarrow> take p xs @ drop (Suc p) xs = filter (\<lambda>y. y \<noteq> xs ! p) xs"
proof (induction xs arbitrary: p)
  case (Cons x xs)
  show ?case
  proof (cases p)
    case 0
    then show ?thesis using Cons.prems(1) by (auto intro!: filter_True[symmetric])
  next
    case (Suc q)
    then have "x \<noteq> xs ! q" using Cons.prems nth_mem[of q xs] by auto
    then show ?thesis using Cons Suc by simp
  qed
qed simp

lemma nextReady_ready:
  "nextReady m pending completed = Some p \<Longrightarrow> \<forall>q \<in> set (pc_predecessors (cm_components m ! (pending ! p))). completed ! q"
  by (auto simp: nextReady_def find_Some_iff)

lemma admit_at_simps [simp]:
  "done_set (admit_at m p s) = done_set s" "sc_completed (admit_at m p s) = sc_completed s"
  "run_set (admit_at m p s) = insert (sc_pending s ! p) (run_set s)" "sc_edgeActive (admit_at m p s) = sc_edgeActive s"
  "sc_firstError (admit_at m p s) = sc_firstError s" "sc_rejected (admit_at m p s) = sc_rejected s"
  "sc_stopAdmission (admit_at m p s) = sc_stopAdmission s"
  by (auto simp: admit_at_def Let_def done_set_def run_set_def)

lemma model_predecessors:
  assumes m: "model_ok m" and i: "i < length (cm_components m)"
  shows "set (pc_predecessors (cm_components m ! i)) \<subseteq> {..<length (cm_components m)}"
proof -
  have o: "set (cm_order m) = {..<length (cm_components m)}" using m by (simp add: model_ok_def)
  then have "i \<in> set (cm_order m)" using i by simp
  then obtain k where k: "k < length (cm_order m)" "cm_order m ! k = i" unfolding in_set_conv_nth by blast
  have "set (pc_predecessors (cm_components m ! (cm_order m ! k))) \<subseteq> set (take k (cm_order m))"
    using m k(1) by (simp add: model_ok_def)
  then show ?thesis using k(2) set_take_subset[of k "cm_order m"] o by auto
qed

lemma admit_at_control:
  assumes m: "model_ok m" and inv: "control_inv m limit s" and lim: "int (length (sc_running s)) < limit"
    and p: "nextReady m (sc_pending s) (sc_completed s) = Some p"
  shows "control_inv m limit (admit_at m p s)"
proof -
  let ?i = "sc_pending s ! p"
  have c: "length (sc_completed s) = length (cm_components m)" "distinct (map ad_index (sc_running s))"
    "run_set s \<subseteq> {..<length (cm_components m)} - done_set s"
    "\<forall>i \<in> run_set s \<union> done_set s. set (pc_predecessors (cm_components m ! i)) \<subseteq> done_set s"
    using inv by (auto simp: control_inv_def)
  have pending: "sc_pending s = filter (\<lambda>i. i \<notin> run_set s \<union> done_set s) (cm_order m)" using inv by (simp add: control_inv_def)
  have mem: "?i \<in> set (filter (\<lambda>i. i \<notin> run_set s \<union> done_set s) (cm_order m))"
    using nth_mem[OF nextReady_range[OF p]] unfolding pending .
  then have order: "?i \<in> set (cm_order m)" and i: "?i \<notin> run_set s \<union> done_set s" by auto
  then have n: "?i < length (cm_components m)" using m by (auto simp: model_ok_def)
  have "set (pc_predecessors (cm_components m ! ?i)) \<subseteq> {..<length (cm_components m)}"
    by (rule model_predecessors[OF m n])
  then have preds: "set (pc_predecessors (cm_components m ! ?i)) \<subseteq> done_set s"
    using nextReady_ready[OF p] c by (auto simp: done_set_def)
  have dist: "distinct (sc_pending s)" unfolding pending using m by (auto simp: model_ok_def)
  have "sc_pending (admit_at m p s) = filter (\<lambda>y. y \<noteq> ?i) (sc_pending s)"
    using drop_position[OF dist nextReady_range[OF p]] by (simp add: admit_at_def Let_def)
  also have "\<dots> = filter (\<lambda>i. i \<notin> insert ?i (run_set s) \<union> done_set s) (cm_order m)"
    unfolding pending filter_filter by (rule filter_cong) auto
  finally have pend: "sc_pending (admit_at m p s) = filter (\<lambda>i. i \<notin> insert ?i (run_set s) \<union> done_set s) (cm_order m)" .
  have run: "map ad_index (sc_running (admit_at m p s)) = map ad_index (sc_running s) @ [?i]" by (simp add: admit_at_def Let_def)
  have len: "length (sc_running (admit_at m p s)) = Suc (length (sc_running s))" by (simp add: admit_at_def Let_def)
  have "?i \<notin> ad_index ` set (sc_running s)" using i by (simp add: run_set_def)
  then show ?thesis unfolding control_inv_def admit_at_simps pend run len
    using c i n preds lim by auto
qed

lemma admit_at_inv:
  assumes "model_ok m" "sched_inv m plan limit h s" "int (length (sc_running s)) < limit" "nextReady m (sc_pending s) (sc_completed s) = Some p"
  shows "sched_inv m plan limit h (admit_at m p s)"
proof -
  have "inputs_inv m plan h (admit_at m p s)"
    using assms(2) by (auto simp: sched_inv_def inputs_inv_def admit_at_def Let_def)
  moreover have "history_inv h (admit_at m p s) = history_inv h s" by (simp add: history_inv_def)
  ultimately show ?thesis using admit_at_control[OF assms(1) _ assms(3,4)] assms(2) by (simp add: sched_inv_def)
qed

lemma admit_ready_inv: "model_ok m \<Longrightarrow> sched_inv m plan limit h s \<Longrightarrow> sched_inv m plan limit h (admit_ready m limit s)"
proof (induction m limit s rule: admit_ready.induct)
  case (1 m limit s)
  show ?case
  proof (cases "int (length (sc_running s)) < limit \<and> nextReady m (sc_pending s) (sc_completed s) \<noteq> None")
    case True
    then obtain p where p: "int (length (sc_running s)) < limit" "nextReady m (sc_pending s) (sc_completed s) = Some p" by auto
    then show ?thesis using "1.IH"[OF p "1.prems"(1) admit_at_inv[OF "1.prems" p]] by (simp add: admit_ready.simps[of m limit s])
  next
    case False
    then show ?thesis using "1.prems"(2) by (auto simp: admit_ready.simps[of m limit s] split: option.splits)
  qed
qed

lemma admit_ready_keeps:
  "set (sc_running s) \<subseteq> set (sc_running (admit_ready m limit s)) \<and> sc_stopAdmission (admit_ready m limit s) = sc_stopAdmission s"
proof (induction m limit s rule: admit_ready.induct)
  case (1 m limit s)
  have "set (sc_running s) \<subseteq> set (sc_running (admit_at m p s))" for p by (auto simp: admit_at_def Let_def)
  then show ?case using 1 by (subst (1 2) admit_ready.simps) (auto split: option.splits)
qed

lemma admitted_inv: "model_ok m \<Longrightarrow> sched_inv m plan limit h s \<Longrightarrow> sched_inv m plan limit h (admitted m limit s)"
  by (simp add: admitted_def admit_ready_inv)

text \<open>The receipt of a completion.\<close>

lemma merge_edges_spec:
  assumes "length new = length edges"
  shows "length (merge_edges edges new) = length edges" "e < length edges \<Longrightarrow> merge_edges edges new ! e \<longleftrightarrow> edges ! e \<or> new ! e"
proof -
  let ?f = "foldl (\<lambda>es e. if new ! e then es[e := True] else es)"
  have "length (?f es ks) = length es \<and> (\<forall>e < length es. ?f es ks ! e \<longleftrightarrow> es ! e \<or> (e \<in> set ks \<and> new ! e))" for es ks
  proof (induction ks arbitrary: es)
    case (Cons k ks)
    have upd: "e < length es \<Longrightarrow> es[k := True] ! e \<longleftrightarrow> es ! e \<or> e = k" for e by (cases "k = e") auto
    show ?case using Cons[of "es[k := True]"] Cons[of es] by (auto simp: upd)
  qed simp
  from this[of edges "[0..<length new]"]
  show "length (merge_edges edges new) = length edges" "e < length edges \<Longrightarrow> merge_edges edges new ! e \<longleftrightarrow> edges ! e \<or> new ! e"
    using assms by (auto simp: merge_edges_def)
qed

lemma receive_simps [simp]:
  "sc_completed (receive_completion a r s) = (sc_completed s)[ad_index a := True]"
  "sc_running (receive_completion a r s) = remove1 a (sc_running s)"
  "sc_pending (receive_completion a r s) = sc_pending s"
  "sc_edgeActive (receive_completion a r s) = (if cr_errorText r \<noteq> [] then sc_edgeActive s else merge_edges (sc_edgeActive s) (cr_edgeActive r))"
  "sc_firstError (receive_completion a r s) = (if sc_firstError s = [] then cr_errorText r else sc_firstError s)"
  "sc_rejected (receive_completion a r s) \<longleftrightarrow> sc_rejected s \<or> (cr_errorText r = [] \<and> cr_rejected r)"
  "sc_stopAdmission (receive_completion a r s) \<longleftrightarrow> sc_stopAdmission s \<or> (cr_errorText r \<noteq> [] \<and> sc_firstError s = []) \<or>
     (cr_errorText r = [] \<and> cr_rejected r \<and> \<not> sc_rejected s)"
  by (auto simp: receive_completion_def Let_def)

lemma receive_done:
  assumes "control_inv m limit s" "a \<in> set (sc_running s)"
  shows "done_set (receive_completion a r s) = insert (ad_index a) (done_set s)"
    "run_set (receive_completion a r s) = run_set s - {ad_index a}" "ad_index a \<notin> done_set s" "ad_index a < length (cm_components m)"
proof -
  have c: "length (sc_completed s) = length (cm_components m)" "distinct (map ad_index (sc_running s))"
    "run_set s \<subseteq> {..<length (cm_components m)} - done_set s" using assms(1) by (auto simp: control_inv_def)
  have "ad_index a \<in> run_set s" using assms(2) by (simp add: run_set_def)
  then show i: "ad_index a \<notin> done_set s" "ad_index a < length (cm_components m)" using c(3) by auto
  show "done_set (receive_completion a r s) = insert (ad_index a) (done_set s)"
    using i c(1) by (auto simp: done_set_def nth_list_update split: if_splits)
  have "distinct (sc_running s)" "inj_on ad_index (set (sc_running s))" using c(2) by (auto simp: distinct_map)
  then show "run_set (receive_completion a r s) = run_set s - {ad_index a}"
    using assms(2) by (auto simp: run_set_def set_remove1_eq inj_on_def)
qed

lemma receive_control:
  assumes "control_inv m limit s" "a \<in> set (sc_running s)"
  shows "control_inv m limit (receive_completion a r s)"
proof -
  note d = receive_done(1,2)[OF assms, of r]
  have c: "length (sc_completed s) = length (cm_components m)" "distinct (map ad_index (sc_running s))"
    "run_set s \<subseteq> {..<length (cm_components m)} - done_set s" "int (length (sc_running s)) \<le> limit"
    "sc_pending s = filter (\<lambda>i. i \<notin> run_set s \<union> done_set s) (cm_order m)"
    "\<forall>i \<in> run_set s \<union> done_set s. set (pc_predecessors (cm_components m ! i)) \<subseteq> done_set s"
    using assms(1) by (simp_all add: control_inv_def)
  have i: "ad_index a \<in> run_set s" using assms(2) by (simp add: run_set_def)
  then have u: "run_set s - {ad_index a} \<union> insert (ad_index a) (done_set s) = run_set s \<union> done_set s" by auto
  have "distinct (map ad_index (remove1 a (sc_running s)))"
    using c(2) by (auto simp: distinct_map distinct_remove1 inj_on_def dest: notin_set_remove1 set_remove1_subset[THEN subsetD])
  moreover have "length (remove1 a (sc_running s)) \<le> length (sc_running s)" by (simp add: length_remove1)
  ultimately show ?thesis unfolding control_inv_def d(1,2) u receive_simps
    using c by auto
qed

text \<open>A completion changes no edge that enters a component that was already admitted.\<close>

lemma receive_edge_kept:
  assumes ok: "exec_ok m plan exec" "incoming_ok m plan" and inv: "control_inv m limit s" "inputs_inv m plan h s" "history_inv h s"
    and a: "a \<in> set (sc_running s)" "exec a r" and b: "b \<in> set (sc_running s) \<union> fst ` set h"
    and e: "e \<in> set (pc_incoming (cm_components m ! ad_index b))"
  shows "sc_edgeActive (receive_completion a r s) ! e = sc_edgeActive s ! e"
proof -
  note d = receive_done(3,4)[OF inv(1) a(1)]
  have bi: "ad_index b \<in> run_set s \<union> done_set s" using b inv(3) by (auto simp: run_set_def history_inv_def)
  then have "ad_index b < length (cm_components m)" using inv(1) by (auto simp: control_inv_def done_set_def)
  then have el: "e < length (plan_edges plan)" "leaves m plan f e \<Longrightarrow> f \<in> set (pc_predecessors (cm_components m ! ad_index b))" for f
    using ok(2) e by (auto simp: incoming_ok_def)
  have "set (pc_predecessors (cm_components m ! ad_index b)) \<subseteq> done_set s" using inv(1) bi by (auto simp: control_inv_def)
  then have "\<not> leaves m plan (ad_index a) e" using el(2) d(1) by blast
  moreover have r: "length (cr_edgeActive r) = length (plan_edges plan)" "cr_edgeActive r ! e \<longrightarrow> leaves m plan (ad_index a) e"
    using ok(1) a(2) d(2) el(1) by (auto simp: exec_ok_def)
  moreover have "length (sc_edgeActive s) = length (plan_edges plan)" using inv(2) by (simp add: inputs_inv_def)
  ultimately show ?thesis using merge_edges_spec(2)[of "cr_edgeActive r" "sc_edgeActive s" e] el(1) by simp
qed

lemma receive_inputs:
  assumes ok: "exec_ok m plan exec" "incoming_ok m plan" and inv: "control_inv m limit s" "inputs_inv m plan h s" "history_inv h s"
    and a: "a \<in> set (sc_running s)" "exec a r"
  shows "inputs_inv m plan (h @ [(a, r)]) (receive_completion a r s)"
proof -
  note kept = receive_edge_kept[OF ok inv a]
  have len: "length (cr_edgeActive r) = length (plan_edges plan)" "length (sc_edgeActive s) = length (plan_edges plan)"
    using ok(1) a(2) receive_done(4)[OF inv(1) a(1)] inv(2) by (auto simp: exec_ok_def inputs_inv_def)
  have "ad_active b = componentActive m (ad_index b) (sc_edgeActive (receive_completion a r s)) \<and>
      (\<forall>e \<in> set (pc_incoming (cm_components m ! ad_index b)). ad_inputEdges b ! e = sc_edgeActive (receive_completion a r s) ! e)"
    if b: "b \<in> set (sc_running s) \<union> fst ` set h" for b
  proof -
    have "componentActive m (ad_index b) (sc_edgeActive (receive_completion a r s)) = componentActive m (ad_index b) (sc_edgeActive s)"
      unfolding componentActive_def using kept[OF b] by (metis (no_types, lifting))
    then show ?thesis using inv(2) b kept[OF b] unfolding inputs_inv_def by metis
  qed
  moreover have "set (sc_running (receive_completion a r s)) \<union> fst ` set (h @ [(a, r)]) \<subseteq> set (sc_running s) \<union> fst ` set h"
    using a(1) set_remove1_subset[of a "sc_running s"] by auto
  moreover have "length (sc_edgeActive (receive_completion a r s)) = length (plan_edges plan)"
    using len merge_edges_spec(1)[of "cr_edgeActive r" "sc_edgeActive s"] by simp
  ultimately show ?thesis unfolding inputs_inv_def by blast
qed

lemma receive_history:
  assumes inv: "control_inv m limit s" "history_inv h s" and a: "a \<in> set (sc_running s)"
  shows "history_inv (h @ [(a, r)]) (receive_completion a r s)"
proof -
  note d = receive_done(1,3)[OF inv(1) a]
  note h = history_invD[OF inv(2)]
  have "distinct (map (ad_index \<circ> fst) (h @ [(a, r)]))" using h(1,2) d(2) by auto
  moreover have "(ad_index \<circ> fst) ` set (h @ [(a, r)]) = done_set (receive_completion a r s)" using h(2) d(1) by simp
  moreover have "sc_firstError (receive_completion a r s) \<noteq> [] \<longleftrightarrow> (\<exists>(a, r) \<in> set (h @ [(a, r)]). cr_errorText r \<noteq> [])"
    using h(3) by auto
  moreover have "sc_rejected (receive_completion a r s) \<longleftrightarrow> (\<exists>(a, r) \<in> set (h @ [(a, r)]). cr_errorText r = [] \<and> cr_rejected r)"
    using h(4) by auto
  moreover have "sc_stopAdmission (receive_completion a r s) \<longleftrightarrow>
      sc_firstError (receive_completion a r s) \<noteq> [] \<or> sc_rejected (receive_completion a r s)" using h(5) by auto
  moreover have "sc_firstError (receive_completion a r s) \<noteq> [] \<longrightarrow>
      sc_firstError (receive_completion a r s) \<in> (cr_errorText \<circ> snd) ` set (h @ [(a, r)])" using h(6) by auto
  ultimately show ?thesis unfolding history_inv_def by blast
qed

lemma sched_inv_initial:
  assumes "model_ok m" "limit \<ge> 1"
  shows "sched_inv m plan limit [] (initial_scheduler plan m)"
proof -
  have "done_set (initial_scheduler plan m) = {}" "run_set (initial_scheduler plan m) = {}"
    by (auto simp: initial_scheduler_def done_set_def run_set_def)
  then show ?thesis using assms
    by (simp add: sched_inv_def control_inv_def inputs_inv_def history_inv_def) (simp add: initial_scheduler_def)
qed

lemma sched_run_inv:
  assumes m: "model_ok m" "limit \<ge> 1" "exec_ok m plan exec" "incoming_ok m plan"
    and run: "sched_run m limit exec (initial_scheduler plan m) h s"
  shows "sched_inv m plan limit h s"
  using run
proof induction
  case start
  show ?case by (rule sched_inv_initial[OF m(1,2)])
next
  case (complete h s a r)
  have i: "sched_inv m plan limit h (admitted m limit s)" by (rule admitted_inv[OF m(1) complete.IH])
  then have c: "control_inv m limit (admitted m limit s)" and n: "inputs_inv m plan h (admitted m limit s)"
    and o: "history_inv h (admitted m limit s)" by (simp_all add: sched_inv_def)
  show ?case using receive_control[OF c complete.hyps(3)] receive_inputs[OF m(3,4) c n o complete.hyps(3,4)]
      receive_history[OF c o complete.hyps(3)] unfolding sched_inv_def by blast
qed

section \<open>No deadlock\<close>

lemma filter_first: "filter P xs = y # ys \<Longrightarrow> \<exists>k < length xs. xs ! k = y \<and> P y \<and> (\<forall>z \<in> set (take k xs). \<not> P z)"
proof (induction xs)
  case (Cons x xs)
  show ?case
  proof (cases "P x")
    case True
    then show ?thesis using Cons.prems by (intro exI[of _ 0]) simp
  next
    case False
    then obtain k where "k < length xs" "xs ! k = y" "P y" "\<forall>z \<in> set (take k xs). \<not> P z" using Cons by auto
    then show ?thesis using False by (intro exI[of _ "Suc k"]) simp
  qed
qed simp

lemma first_pending_ready:
  assumes m: "model_ok m" and inv: "control_inv m limit s" and p: "sc_pending s \<noteq> []" and r: "sc_running s = []"
  shows "nextReady m (sc_pending s) (sc_completed s) \<noteq> None"
proof -
  have run: "run_set s = {}" using r by (simp add: run_set_def)
  obtain y ys where y: "sc_pending s = y # ys" using p by (cases "sc_pending s") auto
  moreover have "sc_pending s = filter (\<lambda>i. i \<notin> done_set s) (cm_order m)" using inv run by (simp add: control_inv_def)
  ultimately have "filter (\<lambda>i. i \<notin> done_set s) (cm_order m) = y # ys" by simp
  from filter_first[OF this] obtain k where k: "k < length (cm_order m)" "cm_order m ! k = y" "set (take k (cm_order m)) \<subseteq> done_set s"
    by auto
  have "set (pc_predecessors (cm_components m ! y)) \<subseteq> set (take k (cm_order m))" using m k(1,2) by (auto simp: model_ok_def)
  then have "\<forall>q \<in> set (pc_predecessors (cm_components m ! y)). sc_completed s ! q" using k(3) by (auto simp: done_set_def)
  then show ?thesis by (auto simp: nextReady_def find_None_iff y intro!: exI[of _ 0])
qed

lemma admitted_running:
  assumes m: "model_ok m" "limit \<ge> 1" and inv: "sched_inv m plan limit h s" and go: "\<not> scheduler_done s" "\<not> sc_stopAdmission s"
  shows "sc_running (admitted m limit s) \<noteq> []"
proof (cases "sc_running s = []")
  case False
  then show ?thesis using admit_ready_keeps[of s m limit] go(2) by (auto simp: admitted_def)
next
  case True
  then have "sc_pending s \<noteq> []" using go(1) by (simp add: scheduler_done_def)
  then obtain p where p: "nextReady m (sc_pending s) (sc_completed s) = Some p"
    using first_pending_ready[OF m(1) _ _ True] inv by (auto simp: sched_inv_def)
  have "admitted m limit s = admit_ready m limit (admit_at m p s)"
    using go(2) p m(2) True by (simp add: admitted_def admit_ready.simps[of m limit s])
  moreover have "set (sc_running (admit_at m p s)) \<noteq> {}" by (simp add: admit_at_def Let_def)
  ultimately show ?thesis using admit_ready_keeps[of "admit_at m p s" m limit] by auto
qed

section \<open>Executions activate only edges that leave the component\<close>

lemma add_plan_edges_outgoing:
  "add_plan_edges byNode ps st = Inr st' \<Longrightarrow> k \<in> set (entries (es_outgoing st') i) \<Longrightarrow>
    k \<in> set (entries (es_outgoing st) i) \<or> (\<exists>e. (k, e) \<in> set ps \<and> pe_from e = i)"
proof (induction ps arbitrary: st)
  case (Cons p ps)
  obtain st1 where st1: "add_plan_edge byNode p st = Inr st1" "add_plan_edges byNode ps st1 = Inr st'" using Cons.prems(1) by auto
  have "es_outgoing st1 = put_append (pe_from (snd p)) (fst p) (es_outgoing st)"
    using st1(1) by (auto simp: add_plan_edge_def Let_def split: option.splits if_splits)
  then have "k \<in> set (entries (es_outgoing st1) i) \<Longrightarrow> k \<in> set (entries (es_outgoing st) i) \<or> (k, snd p) = p \<and> pe_from (snd p) = i"
    by (cases p) (auto simp: entries_put_append split: if_splits)
  then show ?case using Cons.IH[OF st1(2) Cons.prems(2)] by auto
qed simp

lemma entries_sort_outgoing: "set (entries (sort_outgoing es m) i) = set (entries m i)"
  by (induction m) (auto simp: sort_outgoing_def entries_def split: option.splits)

lemma model_outgoing:
  assumes "buildComponentModel plan = Inr m" "e \<in> set (entries (cm_outgoing m) i)"
  shows "e < length (plan_edges plan) \<and> pe_from (plan_edges plan ! e) = i"
proof -
  obtain byNode cs st where st: "add_plan_edges byNode (enumerate 0 (plan_edges plan))
      \<lparr>es_outgoing = [], es_components = cs, es_adjacency = [], es_seen = [], es_indegree = replicate (length cs) 0\<rparr> = Inr st"
    "cm_outgoing m = sort_outgoing (plan_edges plan) (es_outgoing st)"
    using assms(1) by (auto simp: buildComponentModel_def Let_def)
  then have "e \<in> set (entries (es_outgoing st) i)" using assms(2) by (simp add: entries_sort_outgoing)
  from add_plan_edges_outgoing[OF st(1) this] show ?thesis by (auto simp: entries_def in_set_enumerate_eq)
qed

definition edges_leave :: "run_context \<Rightarrow> nat \<Rightarrow> component_result \<Rightarrow> bool" where
  "edges_leave rc ci res \<longleftrightarrow> length (cr_edgeActive res) = length (plan_edges (rc_plan rc)) \<and>
     (\<forall>e < length (plan_edges (rc_plan rc)). cr_edgeActive res ! e \<longrightarrow> in_component rc ci (pe_from (plan_edges (rc_plan rc) ! e)))"

lemma recordResult_edges:
  assumes rc: "runs_plan rc" and i: "in_component rc ci i" and res: "edges_leave rc ci res"
    and r: "recordResult (rc_model rc) i x (res, nodes) = (res', nodes')"
  shows "edges_leave rc ci res'"
proof -
  let ?E = "plan_edges (rc_plan rc)"
  have "set (activated_edges (rc_model rc) i act) \<subseteq> set (entries (cm_outgoing (rc_model rc)) i)" for act
    by (auto simp: activated_edges_def in_set_enumerate_eq)
  then have es: "e \<in> set (activated_edges (rc_model rc) i act) \<Longrightarrow> e < length ?E \<and> pe_from (?E ! e) = i" for act e
    using model_outgoing[of "rc_plan rc" "rc_model rc"] rc unfolding runs_plan_def by blast
  have mark: "length (foldl (\<lambda>es e. es[e := True]) es ks) = length es \<and>
      (\<forall>e < length es. foldl (\<lambda>es e. es[e := True]) es ks ! e \<longrightarrow> es ! e \<or> e \<in> set ks)" for es ks
  proof (induction ks arbitrary: es)
    case (Cons k ks)
    have upd: "e < length es \<Longrightarrow> es[k := True] ! e \<longleftrightarrow> es ! e \<or> e = k" for e by (cases "k = e") auto
    show ?case using Cons[of "es[k := True]"] by (auto simp: upd)
  qed simp
  have "cr_edgeActive res' = foldl (\<lambda>es e. es[e := True]) (cr_edgeActive res) (activated_edges (rc_model rc) i (nr_activated x))"
    using r by (auto simp: recordResult_def Let_def)
  then show ?thesis using mark[of "cr_edgeActive res" "activated_edges (rc_model rc) i (nr_activated x)"] res es i
    unfolding edges_leave_def by fastforce
qed

lemma edges_leave_other [simp]:
  "edges_leave rc ci (res\<lparr>cr_errorText := e\<rparr>) = edges_leave rc ci res" "edges_leave rc ci (res\<lparr>cr_rejected := b\<rparr>) = edges_leave rc ci res"
  by (simp_all add: edges_leave_def)

lemma component_loop_edges:
  "component_loop nr rc ci q counts nodes res w = Some (res', fin, w') \<Longrightarrow> runs_plan rc \<Longrightarrow>
    \<forall>i \<in> set q. in_component rc ci i \<Longrightarrow> edges_leave rc ci res \<Longrightarrow> edges_leave rc ci res'"
proof (induction nr rc ci q counts nodes res w rule: component_loop.induct)
  case (2 nr rc ci i q counts nodes res w)
  show ?case
  proof (cases "int (counts i) \<ge> pc_maxIterations (component_at rc ci)")
    case True
    then show ?thesis using 2 by simp
  next
    case False
    obtain r w1 where r: "run_node nr (request_for rc (node_at rc i) (counts i) nodes) w = Some (r, w1)"
      using "2.prems"(1) False by (auto simp: bind_eq_Some_conv)
    show ?thesis
    proof (cases r)
      case (Inl e)
      then show ?thesis using "2.prems"(1,4) False r by auto
    next
      case (Inr x)
      obtain res1 nodes1 where rr: "recordResult (rc_model rc) i x (res, nodes) = (res1, nodes1)" by fastforce
      have e1: "edges_leave rc ci res1" using recordResult_edges[OF "2.prems"(2) _ "2.prems"(4) rr] "2.prems"(3) by simp
      show ?thesis
      proof (cases "nr_rejected x")
        case True
        then show ?thesis using "2.prems"(1) False r Inr rr e1 by auto
      next
        case rej: False
        let ?counts = "counts(i := Suc (counts i))"
        have l: "component_loop nr rc ci (push_targets rc ci ?counts (activated_edges (rc_model rc) i (nr_activated x)) q)
            ?counts nodes1 res1 w1 = Some (res', fin, w')" using "2.prems"(1) False r Inr rr rej by simp
        have "\<forall>j \<in> set q. in_component rc ci j" using "2.prems"(3) by simp
        note qs = push_targets_in_component[OF this, of ?counts "activated_edges (rc_model rc) i (nr_activated x)"]
        show ?thesis by (rule "2.IH"(2)[OF False r refl Inr rr[symmetric] rej l "2.prems"(2) qs e1])
      qed
    qed
  qed
qed auto

lemma skip_all_edges: "skip_all nr ids res w = Some (res', w') \<Longrightarrow> edges_leave rc ci res' = edges_leave rc ci res"
proof (induction nr ids res w rule: skip_all.induct)
  case (2 nr i ids res w)
  obtain r w1 where "run_skip nr i w = Some (r, w1)" using "2.prems"(1) by (auto simp: bind_eq_Some_conv)
  then show ?case using 2 by (cases r) auto
qed simp

lemma execute_component_edges:
  assumes rc: "runs_plan rc" "ci < length (cm_components (rc_model rc))"
    and r: "execute_component nr rc ci active inputEdges nodes w = Some (res, w')"
  shows "edges_leave rc ci res"
proof -
  let ?c = "component_at rc ci"
  let ?res = "\<lparr>cr_edgeActive = replicate (length (plan_edges (rc_plan rc))) False, cr_outputs = [], cr_rejected = False, cr_errorText = []\<rparr>"
  have start: "edges_leave rc ci ?res" by (simp add: edges_leave_def)
  note comp = runs_component[OF rc]
  consider (skip) "\<not> active" | (single) "active" "\<not> pc_cyclic ?c" | (loop) "active" "pc_cyclic ?c" by blast
  then show ?thesis
  proof cases
    case skip
    then show ?thesis using skip_all_edges[of nr "pc_nodes ?c" ?res w res w'] r start by (simp add: execute_component_def Let_def)
  next
    case single
    let ?i = "hd (pc_nodes ?c)"
    have i: "in_component rc ci ?i" "pn_id (node_at rc ?i) = ?i" using comp(1,2,3) by auto
    obtain x w1 where x: "run_node nr (request_for rc (node_at rc ?i) 0 nodes) w = Some (x, w1)"
      using r single by (auto simp: execute_component_def Let_def bind_eq_Some_conv)
    show ?thesis
    proof (cases x)
      case (Inl e)
      then have "res = ?res\<lparr>cr_errorText := e\<rparr>" using r single x by (simp add: execute_component_def Let_def)
      then show ?thesis using start by (simp only: edges_leave_other)
    next
      case (Inr y)
      obtain res1 nodes1 where rr: "recordResult (rc_model rc) ?i y (?res, nodes) = (res1, nodes1)" by fastforce
      have "res = res1\<lparr>cr_rejected := nr_rejected y\<rparr>" using r single x Inr rr by (simp add: execute_component_def Let_def i(2))
      then show ?thesis using recordResult_edges[OF rc(1) i(1) start rr] by (simp only: edges_leave_other)
    qed
  next
    case loop
    obtain res1 fin w1 where l: "component_loop nr rc ci (initial_queue rc ci inputEdges) (\<lambda>_. 0) nodes ?res w = Some (res1, fin, w1)"
      using r loop by (auto simp: execute_component_def Let_def bind_eq_Some_conv)
    have "edges_leave rc ci res1" using component_loop_edges[OF l rc(1) _ start] initial_queue_in_component[OF rc] by blast
    then show ?thesis using r loop l skip_all_edges[of nr _ res1 w1 res w'] by (cases fin) (auto simp: execute_component_def Let_def)
  qed
qed

section \<open>The interpreter\<close>

text \<open>The results the execution of an admitted component can have, whatever the state of the framework.\<close>

definition component_execution :: "'s workflow \<Rightarrow> run_context \<Rightarrow> admission \<Rightarrow> component_result \<Rightarrow> bool" where
  "component_execution wk rc a r \<longleftrightarrow>
     (\<exists>w w'. executePlanComponent wk rc (ad_index a) (ad_active a) (ad_inputEdges a) (ad_inputNodes a) w = Some (r, w'))"

text \<open>The loop of \<open>InterpreterWorkflow\<close> from its start to a state at its head, with the completions received on the way.\<close>

definition interpreter_run :: "'s workflow \<Rightarrow> run_context \<Rightarrow> (admission \<times> component_result) list \<Rightarrow> scheduler \<Rightarrow> bool" where
  "interpreter_run wk rc h s \<longleftrightarrow>
     sched_run (rc_model rc) (max_parallel (rc_plan rc)) (component_execution wk rc) (initial_scheduler (rc_plan rc) (rc_model rc)) h s"

lemma max_parallel_pos: "1 \<le> max_parallel plan"
  by (simp add: max_parallel_def)

lemma runs_model_ok: "runs_plan rc \<Longrightarrow> model_ok (rc_model rc)"
  using buildComponentModel_sound[of "rc_plan rc"] by (auto simp: runs_plan_def)

lemma runs_exec_ok: "runs_plan rc \<Longrightarrow> exec_ok (rc_model rc) (rc_plan rc) (component_execution wk rc)"
  unfolding exec_ok_def component_execution_def executePlanComponent_def
  by (auto dest!: execute_component_edges simp: edges_leave_def leaves_def in_component_def)

lemma runs_incoming_ok:
  assumes "runs_plan rc"
  shows "incoming_ok (rc_model rc) (rc_plan rc)"
proof -
  let ?m = "rc_model rc" and ?p = "rc_plan rc"
  have n: "length (cm_components ?m) = length (plan_components ?p)" and m: "i < length (plan_components ?p) \<Longrightarrow>
      set (pc_incoming (cm_components ?m ! i)) = entering (cm_componentByNode ?m) i (enumerate 0 (plan_edges ?p)) \<and>
      set (pc_predecessors (cm_components ?m ! i)) = {f. (f, i) \<in> cross (cm_componentByNode ?m) (enumerate 0 (plan_edges ?p))}" for i
    using buildComponentModel_sound[of ?p] assms by (auto simp: runs_plan_def)
  show ?thesis unfolding incoming_ok_def
  proof (intro allI impI ballI)
    fix i e assume i: "i < length (cm_components ?m)" and e: "e \<in> set (pc_incoming (cm_components ?m ! i))"
    then obtain x where x: "(e, x) \<in> set (enumerate 0 (plan_edges ?p))" "map_of (cm_componentByNode ?m) (pe_from x) \<noteq> Some i"
      "map_of (cm_componentByNode ?m) (pe_to x) = Some i" using m n by (auto simp: entering_def)
    then have el: "e < length (plan_edges ?p)" "plan_edges ?p ! e = x" by (auto simp: in_set_enumerate_eq)
    have "f \<in> set (pc_predecessors (cm_components ?m ! i))" if "leaves ?m ?p f e" for f
      using that x el m[of i] i n by (force simp: leaves_def cross_def)
    then show "e < length (plan_edges ?p) \<and> (\<forall>f. leaves ?m ?p f e \<longrightarrow> f \<in> set (pc_predecessors (cm_components ?m ! i)))"
      using el by blast
  qed
qed

lemma interpreter_inv:
  assumes "runs_plan rc" "interpreter_run wk rc h s"
  shows "sched_inv (rc_model rc) (rc_plan rc) (max_parallel (rc_plan rc)) h s"
  using sched_run_inv[OF runs_model_ok max_parallel_pos runs_exec_ok runs_incoming_ok] assms
  unfolding interpreter_run_def by blast

lemma done_bound:
  assumes "control_inv m limit s" "history_inv h s"
  shows "length h \<le> length (cm_components m)" "sc_running s \<noteq> [] \<Longrightarrow> length h < length (cm_components m)"
proof -
  have sub: "done_set s \<subseteq> {..<length (cm_components m)}" "run_set s \<subseteq> {..<length (cm_components m)} - done_set s"
    using assms(1) by (auto simp: control_inv_def done_set_def)
  have h: "length h = card (done_set s)"
    using assms(2) distinct_card[of "map (ad_index \<circ> fst) h"] by (simp add: history_inv_def)
  show "length h \<le> length (cm_components m)" using card_mono[OF _ sub(1)] h by simp
  assume "sc_running s \<noteq> []"
  then have "run_set s \<noteq> {}" by (simp add: run_set_def)
  then have "done_set s \<subset> {..<length (cm_components m)}" using sub by blast
  then show "length h < length (cm_components m)" using psubset_card_mono[of "{..<length (cm_components m)}"] h by simp
qed

lemma done_all:
  assumes m: "model_ok m" and inv: "control_inv m limit s" and d: "scheduler_done s"
  shows "done_set s = {..<length (cm_components m)}"
proof -
  have "filter (\<lambda>i. i \<notin> done_set s) (cm_order m) = []" using inv d by (auto simp: control_inv_def scheduler_done_def run_set_def)
  then have "set (cm_order m) \<subseteq> done_set s" by (auto simp: filter_empty_conv)
  then show ?thesis using m inv by (auto simp: model_ok_def control_inv_def done_set_def)
qed

lemma final_outcome_cases:
  assumes "history_inv h s"
  shows "case final_outcome s of RunFailed e \<Rightarrow> e \<noteq> [] \<and> (\<exists>(a, r) \<in> set h. cr_errorText r = e)
      | RunRejected \<Rightarrow> (\<exists>(a, r) \<in> set h. cr_rejected r) \<and> (\<forall>(a, r) \<in> set h. cr_errorText r = [])
      | RunSucceeded \<Rightarrow> \<not> sc_stopAdmission s \<and> (\<forall>(a, r) \<in> set h. cr_errorText r = [] \<and> \<not> cr_rejected r)"
proof -
  note h = history_invD[OF assms]
  consider (failed) "sc_firstError s \<noteq> []" | (rejected) "sc_firstError s = []" "sc_rejected s" | (ok) "sc_firstError s = []" "\<not> sc_rejected s" by blast
  then show ?thesis
  proof cases
    case failed
    then show ?thesis using h(6) by (force simp: final_outcome_def)
  next
    case rejected
    then show ?thesis using h(3,4) by (force simp: final_outcome_def)
  next
    case ok
    then show ?thesis using h(3,4,5) by (force simp: final_outcome_def)
  qed
qed

text \<open>C4: at every point of every interleaving of the executions of a compiled plan at most \<open>maxParallel\<close> components run (so the
  completion channel never overflows), no component starts twice, and every component that started did so after
  every component it depends on completed, with the decision whether it is active and the activation of each of its incoming edges equal to
  their values in every later state: no completion that arrives later could have changed its inputs.\<close>

theorem scheduler_is_safe:
  assumes "Compile ce meta fs = Some (rc_plan rc, ds)" "\<not> HasErrors ds" "buildComponentModel (rc_plan rc) = Inr (rc_model rc)"
    and "interpreter_run wk rc h s"
  shows "let s' = admitted (rc_model rc) (max_parallel (rc_plan rc)) s in
    int (length (sc_running s')) \<le> max_parallel (rc_plan rc) \<and>
    distinct (map ad_index (sc_running s') @ map (ad_index \<circ> fst) h) \<and>
    (\<forall>a \<in> set (sc_running s') \<union> fst ` set h.
       set (pc_predecessors (component_at rc (ad_index a))) \<subseteq> (ad_index \<circ> fst) ` set h \<and>
       ad_active a = componentActive (rc_model rc) (ad_index a) (sc_edgeActive s') \<and>
       (\<forall>e \<in> set (pc_incoming (component_at rc (ad_index a))). ad_inputEdges a ! e = sc_edgeActive s' ! e))"
proof -
  have rc: "runs_plan rc" by (rule compiled_runs_plan[OF assms(1-3)])
  let ?s = "admitted (rc_model rc) (max_parallel (rc_plan rc)) s"
  have inv: "sched_inv (rc_model rc) (rc_plan rc) (max_parallel (rc_plan rc)) h ?s"
    by (rule admitted_inv[OF runs_model_ok[OF rc] interpreter_inv[OF rc assms(4)]])
  then have c: "distinct (map ad_index (sc_running ?s))" "run_set ?s \<inter> done_set ?s = {}"
    "int (length (sc_running ?s)) \<le> max_parallel (rc_plan rc)"
    "\<forall>i \<in> run_set ?s \<union> done_set ?s. set (pc_predecessors (cm_components (rc_model rc) ! i)) \<subseteq> done_set ?s"
    and h: "distinct (map (ad_index \<circ> fst) h)" "(ad_index \<circ> fst) ` set h = done_set ?s"
    by (auto simp: sched_inv_def control_inv_def history_inv_def)
  have d: "distinct (map ad_index (sc_running ?s) @ map (ad_index \<circ> fst) h)"
    using c(1,2) h by (simp add: run_set_def)
  have "\<forall>a \<in> set (sc_running ?s) \<union> fst ` set h. ad_index a \<in> run_set ?s \<union> done_set ?s"
    unfolding h(2)[symmetric] run_set_def by auto
  then have p: "\<forall>a \<in> set (sc_running ?s) \<union> fst ` set h. set (pc_predecessors (component_at rc (ad_index a))) \<subseteq> (ad_index \<circ> fst) ` set h"
    using c(4) unfolding h(2) component_at_def by blast
  show ?thesis using inv c(3) d p unfolding Let_def sched_inv_def inputs_inv_def component_at_def by blast
qed

text \<open>C5: a run of a compiled plan never deadlocks and ends after at most one completion per component. In every reachable state
  the scheduler either waits for the completion of a running component (which can arrive, and fewer completions than
  components were received) or has an outcome: success only when every component completed, none with an error or a
  rejection; rejection only when some component was rejected and none failed; failure only with the error text of a component that
  failed.\<close>

theorem interpreter_finishes:
  assumes "Compile ce meta fs = Some (rc_plan rc, ds)" "\<not> HasErrors ds" "buildComponentModel (rc_plan rc) = Inr (rc_model rc)"
    and "runner_total (plan_runner wk (rc_runUID rc))" and "interpreter_run wk rc h s"
  shows "length h \<le> length (cm_components (rc_model rc)) \<and>
    (case scheduler_outcome (rc_model rc) (max_parallel (rc_plan rc)) s of
       None \<Rightarrow> length h < length (cm_components (rc_model rc)) \<and>
         (\<exists>a r. interpreter_run wk rc (h @ [(a, r)]) (receive_completion a r (admitted (rc_model rc) (max_parallel (rc_plan rc)) s)))
     | Some RunSucceeded \<Rightarrow> (ad_index \<circ> fst) ` set h = {..<length (cm_components (rc_model rc))} \<and>
         (\<forall>(a, r) \<in> set h. cr_errorText r = [] \<and> \<not> cr_rejected r)
     | Some RunRejected \<Rightarrow> (\<exists>(a, r) \<in> set h. cr_rejected r) \<and> (\<forall>(a, r) \<in> set h. cr_errorText r = [])
     | Some (RunFailed e) \<Rightarrow> e \<noteq> [] \<and> (\<exists>(a, r) \<in> set h. cr_errorText r = e))"
proof -
  have rc: "runs_plan rc" by (rule compiled_runs_plan[OF assms(1-3)])
  let ?m = "rc_model rc" and ?l = "max_parallel (rc_plan rc)"
  let ?s = "admitted ?m ?l s"
  note m = runs_model_ok[OF rc]
  have inv0: "sched_inv ?m (rc_plan rc) ?l h s" by (rule interpreter_inv[OF rc assms(5)])
  have inv1: "sched_inv ?m (rc_plan rc) ?l h ?s" by (rule admitted_inv[OF m inv0])
  have b: "length h \<le> length (cm_components ?m)" "sc_running ?s \<noteq> [] \<Longrightarrow> length h < length (cm_components ?m)"
    using done_bound inv1 unfolding sched_inv_def by blast+
  have h0: "history_inv h s" "history_inv h ?s" using inv0 inv1 by (simp_all add: sched_inv_def)
  show ?thesis
  proof (cases "scheduler_done s")
    case True
    have "control_inv ?m ?l s" using inv0 by (simp add: sched_inv_def)
    then have "(ad_index \<circ> fst) ` set h = {..<length (cm_components ?m)}" using done_all[OF m _ True] history_invD(2)[OF h0(1)] by simp
    moreover have "scheduler_outcome ?m ?l s = Some (final_outcome s)" using True by (simp add: scheduler_outcome_def)
    ultimately show ?thesis using b(1) final_outcome_cases[OF h0(1)] by (auto split: run_outcome.splits)
  next
    case False
    show ?thesis
    proof (cases "sc_running ?s = []")
      case True
      then have stop: "sc_stopAdmission s" using admitted_running[OF m max_parallel_pos inv0 False] by blast
      then have "scheduler_outcome ?m ?l s = Some (final_outcome s)" using False True by (simp add: scheduler_outcome_def Let_def admitted_def)
      then show ?thesis using b(1) final_outcome_cases[OF h0(1)] stop by (auto split: run_outcome.splits)
    next
      case run: False
      then obtain a where a: "a \<in> set (sc_running ?s)" by (cases "sc_running ?s") auto
      obtain r where "component_execution wk rc a r"
        using execute_component_returns[OF assms(4)] unfolding component_execution_def executePlanComponent_def by fastforce
      then have "interpreter_run wk rc (h @ [(a, r)]) (receive_completion a r ?s)"
        using sched_run.complete[OF _ False a] assms(5) unfolding interpreter_run_def by blast
      moreover have "scheduler_outcome ?m ?l s = None" using False run by (simp add: scheduler_outcome_def Let_def)
      ultimately show ?thesis using b(1) b(2)[OF run] by auto
    qed
  qed
qed

section \<open>Witnesses\<close>

definition timeout_workflow :: "nat workflow" where
  "timeout_workflow = sample_workflow\<lparr>wf_selectEvent := \<lambda>_ _ w. Some (TimerExpired, w)\<rparr>"

lemma timeout_total: "runner_total (plan_runner timeout_workflow uid)"
proof -
  have "event_loop timeout_workflow rq seen w \<noteq> None" for rq seen w
    by (subst event_loop.simps) (simp add: timeout_workflow_def sample_workflow_def checked_event_def)
  then have e: "executeEventNode timeout_workflow rq seen w \<noteq> None" for rq seen w
    by (auto simp: executeEventNode_def timeout_workflow_def sample_workflow_def split: option.splits)
  have "executeApprovalNode timeout_workflow rq w \<noteq> None" for rq w
    by (auto simp: executeApprovalNode_def timeout_workflow_def sample_workflow_def split: option.splits)
  then have "executePlanNode timeout_workflow rq seen w \<noteq> None" for rq seen w
    using e by (auto simp: executePlanNode_def Let_def) (simp add: timeout_workflow_def sample_workflow_def)
  moreover have "skipPlanNode timeout_workflow u i w \<noteq> None" for u i w
    by (simp add: skipPlanNode_def timeout_workflow_def sample_workflow_def)
  ultimately show ?thesis unfolding runner_total_def plan_runner_def by auto
qed

lemma sample_interpreter:
  obtains rc where "Compile sample_env sample_meta loop_flow = Some (rc_plan rc, [])" "\<not> HasErrors []"
    "buildComponentModel (rc_plan rc) = Inr (rc_model rc)"
    "interpreter_run timeout_workflow rc [] (initial_scheduler (rc_plan rc) (rc_model rc))"
proof -
  obtain plan m where p: "Compile sample_env sample_meta loop_flow = Some (plan, [])" "\<not> HasErrors []"
    "buildComponentModel plan = Inr m" using sample_model by metis
  have "interpreter_run timeout_workflow \<lparr>rc_runUID = ''r'', rc_plan = plan, rc_input = None, rc_model = m\<rparr> [] (initial_scheduler plan m)"
    unfolding interpreter_run_def by (simp add: sched_run.start)
  then show thesis using that[of "\<lparr>rc_runUID = ''r'', rc_plan = plan, rc_input = None, rc_model = m\<rparr>"] p by simp
qed

theorem scheduler_is_safe_witness:
  "\<exists>rc :: run_context. Compile sample_env sample_meta loop_flow = Some (rc_plan rc, []) \<and>
    int (length (sc_running (admitted (rc_model rc) (max_parallel (rc_plan rc)) (initial_scheduler (rc_plan rc) (rc_model rc))))) \<le> max_parallel (rc_plan rc)"
proof -
  obtain rc where "Compile sample_env sample_meta loop_flow = Some (rc_plan rc, [])" "\<not> HasErrors []"
    "buildComponentModel (rc_plan rc) = Inr (rc_model rc)"
    "interpreter_run timeout_workflow rc [] (initial_scheduler (rc_plan rc) (rc_model rc))" using sample_interpreter .
  note r = this
  from scheduler_is_safe[OF r] r(1) show ?thesis unfolding Let_def by blast
qed

theorem interpreter_finishes_witness:
  "\<exists>rc h s. Compile sample_env sample_meta loop_flow = Some (rc_plan rc, []) \<and> interpreter_run timeout_workflow rc h s \<and>
    length h \<le> length (cm_components (rc_model rc))"
proof -
  obtain rc where "Compile sample_env sample_meta loop_flow = Some (rc_plan rc, [])" "\<not> HasErrors []"
    "buildComponentModel (rc_plan rc) = Inr (rc_model rc)"
    "interpreter_run timeout_workflow rc [] (initial_scheduler (rc_plan rc) (rc_model rc))" using sample_interpreter .
  then show ?thesis using interpreter_finishes[of sample_env sample_meta loop_flow rc "[]" timeout_workflow "[]", OF _ _ _ timeout_total] by blast
qed

end
