(* ===== verification/Engine_Activities.thy ===== *)
theory Engine_Activities
  imports Store_System Engine_Run
begin

text \<open>
  The activities of \<open>internal/engine/engine.go\<close>: the boundary at which the interpreter reads and writes the
  product store. An activity is delivered at least once by the framework; what it records in the store makes
  a redelivery harmless.

  \<open>ExecuteNode\<close> is two transactions with the task in between: other transactions of the store run meanwhile, so the
  state before the second transaction is \<open>between s\<close>, a parameter. The task executor (the plugin manager) is a
  parameter too; the model also returns the calls made to it. An error of the executor carries what
  \<open>errors.Is\<close> finds in it. Writing a JSON value and reading it back gives the value with
  its numbers as \<open>float64\<close>.

  The theorems: a delivery whose outcome was recorded is replayed from the record and never reaches the executor
  again; an approval is answered from the recorded decision.
\<close>

datatype exec_error = ExecCanceled string | ExecDeadline string | ExecOther string

fun exec_text :: "exec_error \<Rightarrow> string" where
  "exec_text (ExecCanceled t) = t"
| "exec_text (ExecDeadline t) = t"
| "exec_text (ExecOther t) = t"

record task_identity =
  ti_iteration :: nat
  ti_attempt :: nat
  ti_frameworkAttempt :: nat

record executor_call =
  ec_identity :: task_identity
  ec_runUID :: string
  ec_node :: plan_node
  ec_input :: "json option"
  ec_nodes :: "(string \<times> json) list"
  ec_key :: string

datatype activity_error = ActStore store_error | ActText string | ActPermanent string

record activity_env =
  ae_begin :: store_env
  ae_end :: store_env
  ae_cel :: cel_lib
  ae_executor :: "(executor_call \<Rightarrow> (exec_error, json option) result) option"
  ae_interrupted :: bool
  ae_between :: "db \<Rightarrow> db"

section \<open>Evaluating the outgoing edges\<close>

text \<open>\<open>json.Unmarshal\<close> into a \<open>map[string]any\<close>: an object, or nothing for \<open>null\<close>.\<close>

definition decode_object :: "string \<Rightarrow> json option \<Rightarrow> (string, json) result" where
  "decode_object what v =
     (case v of None \<Rightarrow> Inr (JObj [])
      | Some (JObj m) \<Rightarrow> Inr (json_canon (JObj m))
      | Some JNull \<Rightarrow> Inr (JObj [])
      | Some _ \<Rightarrow> Inl (''decode '' @ what @ '': cannot unmarshal into an object''))"

definition evaluate :: "cel_lib \<Rightarrow> node_request \<Rightarrow> json option \<Rightarrow> (string, bool list) result" where
  "evaluate lib rq output =
     bind_res (decode_object ''run input'' (rq_input rq)) (\<lambda>input.
     bind_res (decode_object ''node output'' output) (\<lambda>res.
     EvaluateEdges lib (rq_outgoing rq) input res (JObj (rq_nodes rq))))"

section \<open>Executing a node\<close>

definition execution_key :: "node_request \<Rightarrow> string" where
  "execution_key rq = ''run/'' @ rq_runUID rq @ ''/node/'' @ pn_id (rq_node rq) @ ''/iteration/'' @ itoa (rq_iteration rq) @ ''/operation/execute''"

text \<open>The task: its outcome, the exit outcome and the calls made to the executor.\<close>

definition run_task :: "activity_env \<Rightarrow> node_request \<Rightarrow> nat \<Rightarrow> nat \<Rightarrow> (exec_error, json option) result \<times> string \<times> executor_call list" where
  "run_task ae rq attempt fw =
     (let node = rq_node rq in
      if pn_uses node = ''core.noop'' then
        (Inr (Some (case map_of (pn_with node) ''result'' of None \<Rightarrow> JObj [(''ok'', JBool True)] | Some v \<Rightarrow> v)), ''completed'', [])
      else if pn_uses node = ''core.fail'' then (Inl (ExecOther ''core.fail requested''), ''core-error'', [])
      else (case ae_executor ae of
          None \<Rightarrow> (Inl (ExecOther (''no task executor for '' @ pn_uses node)), ''executor-unavailable'', [])
        | Some ex \<Rightarrow>
            (let call = \<lparr>ec_identity = \<lparr>ti_iteration = rq_iteration rq, ti_attempt = attempt, ti_frameworkAttempt = fw\<rparr>, ec_runUID = rq_runUID rq,
               ec_node = node, ec_input = rq_input rq, ec_nodes = rq_nodes rq, ec_key = execution_key rq\<rparr>
             in (ex call, ''plugin-completed'', [call]))))"

text \<open>The error an execution error is reported as, and the exit outcome recorded for it.\<close>

definition classify_error :: "activity_env \<Rightarrow> db \<Rightarrow> node_request \<Rightarrow> exec_error \<Rightarrow> string \<Rightarrow> activity_error \<times> string" where
  "classify_error ae s rq e exitOutcome =
     (case e of
        ExecCanceled t \<Rightarrow>
          if ae_interrupted ae then
            (case GetRun s (rq_runUID rq) of
               Inr run \<Rightarrow> if run_phase run \<noteq> ''cancelled''
                 then (ActText ''activity delivery was interrupted before durable completion'', ''delivery-lost'')
                 else (ActText t, ''cancelled'')
             | Inl _ \<Rightarrow> (ActText t, ''cancelled''))
          else (ActPermanent t, ''cancelled'')
      | ExecDeadline t \<Rightarrow> (ActText t, ''deadline-exceeded'')
      | ExecOther t \<Rightarrow> (ActText t, if exitOutcome = ''plugin-completed'' then ''plugin-failed'' else exitOutcome))"

fun error_text :: "activity_error \<Rightarrow> string" where
  "error_text (ActText t) = t"
| "error_text (ActPermanent t) = t"
| "error_text (ActStore e) = []"

text \<open>Recording a failure: an error of the store is ignored.\<close>

definition record_failure :: "activity_env \<Rightarrow> db \<Rightarrow> node_request \<Rightarrow> nat \<Rightarrow> string \<Rightarrow> string \<Rightarrow> db" where
  "record_failure ae s rq attempt message outcome =
     (case CompleteNodeAttempt (ae_end ae) s (rq_runUID rq) (pn_id (rq_node rq)) (rq_iteration rq) attempt ''failed'' None message outcome of
        Inl _ \<Rightarrow> s | Inr (_, s') \<Rightarrow> s')"

definition finish_task :: "activity_env \<Rightarrow> node_request \<Rightarrow> nat \<Rightarrow> (exec_error, json option) result \<Rightarrow> string \<Rightarrow> db
    \<Rightarrow> (activity_error, node_result) result \<times> db" where
  "finish_task ae rq attempt outcome exitOutcome s =
     (case outcome of
        Inl e \<Rightarrow> (case classify_error ae s rq e exitOutcome of (err, exit) \<Rightarrow>
          (Inl err, record_failure ae s rq attempt (error_text err) exit))
      | Inr output \<Rightarrow> (case evaluate (ae_cel ae) rq output of
          Inl m \<Rightarrow> (Inl (ActText m), record_failure ae s rq attempt m ''evaluation-failed'')
        | Inr activated \<Rightarrow>
            (case CompleteNodeAttempt (ae_end ae) s (rq_runUID rq) (pn_id (rq_node rq)) (rq_iteration rq) attempt ''succeeded'' output [] exitOutcome of
               Inl e \<Rightarrow> (Inl (ActStore e), s)
             | Inr (_, s') \<Rightarrow> (Inr \<lparr>nr_output = output, nr_activated = activated, nr_rejected = False\<rparr>, s'))))"

definition replay_attempt :: "activity_env \<Rightarrow> node_request \<Rightarrow> attempt_row \<Rightarrow> (activity_error, node_result) result" where
  "replay_attempt ae rq a =
     (if att_phase a \<noteq> ''succeeded'' then Inl (ActText (att_error a))
      else (case evaluate (ae_cel ae) rq (att_output a) of
          Inl m \<Rightarrow> Inl (ActText m)
        | Inr activated \<Rightarrow> Inr \<lparr>nr_output = att_output a, nr_activated = activated, nr_rejected = False\<rparr>))"

definition ExecuteNode :: "activity_env \<Rightarrow> nat \<Rightarrow> node_request \<Rightarrow> db
    \<Rightarrow> (activity_error, node_result) result \<times> db \<times> executor_call list" where
  "ExecuteNode ae frameworkAttempt rq s =
     (if rq_iteration rq \<ge> 1000 then (Inl (ActText ''node iteration is outside the compiled limit''), s, [])
      else if frameworkAttempt < 1 \<or> int frameworkAttempt > pn_retryLimit (rq_node rq) + 1
        then (Inl (ActText (''framework attempt '' @ itoa frameworkAttempt @ '' is outside retry policy'')), s, [])
      else (case BeginNodeAttempt (ae_begin ae) s (rq_runUID rq) (pn_id (rq_node rq)) (int (rq_iteration rq)) frameworkAttempt (execution_key rq) (rq_input rq) of
          Inl e \<Rightarrow> (Inl (ActStore e), s, [])
        | Inr ((a, created), s1) \<Rightarrow>
            if \<not> created \<and> att_completed a \<noteq> None then (replay_attempt ae rq a, s1, [])
            else (case run_task ae rq (att_attempt a) frameworkAttempt of (outcome, exitOutcome, calls) \<Rightarrow>
              (case finish_task ae rq (att_attempt a) outcome exitOutcome (ae_between ae s1) of (r, s2) \<Rightarrow> (r, s2, calls)))))"

section \<open>Approvals\<close>

definition BeginApproval :: "store_env \<Rightarrow> node_request \<Rightarrow> db \<Rightarrow> (activity_error, bool \<times> db) result" where
  "BeginApproval env rq s =
     (case time_ParseDuration (pn_timeout (rq_node rq)) of
        None \<Rightarrow> Inl (ActText (invalid_duration (pn_timeout (rq_node rq))))
      | Some d \<Rightarrow>
          bind_res (map_err ActStore (EnsureApproval s (rq_runUID rq) (pn_id (rq_node rq)) (Some (env_now env + nat d)))) (\<lambda>s1.
          bind_res (map_err ActStore (AppendRunEvent env s1 (rq_runUID rq) (pn_id (rq_node rq)) ''approval.waiting'' ''waiting'' 1 None)) (\<lambda>s2.
          Inr (True, s2))))"

definition approval_output :: "string \<Rightarrow> string \<Rightarrow> json" where
  "approval_output state reason = JObj [(''approved'', JBool (state = ''approved'')), (''reason'', JStr reason), (''state'', JStr state)]"

definition EndApproval :: "cel_lib \<Rightarrow> store_env \<Rightarrow> node_request \<Rightarrow> approval_signal \<Rightarrow> db \<Rightarrow> (activity_error, node_result \<times> db) result" where
  "EndApproval lib env rq signal s =
     bind_res (map_err ActStore (ApprovalState s (rq_runUID rq) (pn_id (rq_node rq)))) (\<lambda>recorded.
     bind_res (if recorded = ''pending'' then
                 map_err ActStore (bind_res (DecideApproval env s (rq_runUID rq) (pn_id (rq_node rq)) (sig_state signal) ''system'' (sig_reason signal))
                   (\<lambda>s1. Inr (sig_state signal, s1)))
               else Inr (recorded, s)) (\<lambda>(state, s1).
     (let output = approval_output state (sig_reason signal) in
      bind_res (map_err ActText (evaluate lib rq (Some output))) (\<lambda>activated.
      bind_res (map_err ActStore (AppendRunEvent env s1 (rq_runUID rq) (pn_id (rq_node rq))
          (if state \<noteq> ''approved'' then ''approval.rejected'' else ''approval.approved'') ''running'' 1 (Some output))) (\<lambda>s2.
      Inr (\<lparr>nr_output = Some output, nr_activated = activated, nr_rejected = state \<noteq> ''approved''\<rparr>, s2))))))"

section \<open>Events and the end of a run\<close>

definition BeginEvent :: "store_env \<Rightarrow> node_request \<Rightarrow> db \<Rightarrow> (activity_error, bool \<times> db) result" where
  "BeginEvent env rq s = map_err ActStore (bind_res
     (AppendRunEvent env s (rq_runUID rq) (pn_id (rq_node rq)) ''event.waiting'' ''waiting'' (rq_iteration rq + 1) None) (\<lambda>s'. Inr (True, s')))"

definition EndEvent :: "cel_lib \<Rightarrow> store_env \<Rightarrow> node_request \<Rightarrow> event_signal \<Rightarrow> db \<Rightarrow> (activity_error, node_result \<times> db) result" where
  "EndEvent lib env rq signal s =
     bind_res (map_err ActText (evaluate lib rq (evs_payload signal))) (\<lambda>activated.
     bind_res (or_fail (ActText ''unexpected end of JSON input'') (evs_payload signal)) (\<lambda>payload.
     bind_res (map_err ActStore (AppendRunEvent env s (rq_runUID rq) (pn_id (rq_node rq)) ''event.received'' ''running'' (rq_iteration rq + 1)
         (Some (JObj [(''payload'', json_canon payload), (''providerEventID'', JStr (evs_providerEventID signal))])))) (\<lambda>s'.
     Inr (\<lparr>nr_output = Some payload, nr_activated = activated, nr_rejected = False\<rparr>, s'))))"

definition IgnoreEvent :: "store_env \<Rightarrow> node_request \<Rightarrow> event_signal \<Rightarrow> db \<Rightarrow> (activity_error, bool \<times> db) result" where
  "IgnoreEvent env rq signal s = map_err ActStore (bind_res
     (AppendRunEvent env s (rq_runUID rq) (pn_id (rq_node rq)) ''event.duplicate'' ''waiting'' (rq_iteration rq + 1)
       (Some (JObj [(''providerEventID'', JStr (evs_providerEventID signal))]))) (\<lambda>s'. Inr (True, s')))"

definition SkipNode :: "store_env \<Rightarrow> string \<Rightarrow> string \<Rightarrow> db \<Rightarrow> (activity_error, bool \<times> db) result" where
  "SkipNode env runUID i s = map_err ActStore (bind_res
     (AppendRunEvent env s runUID i ''node.skipped'' ''running'' 0 None) (\<lambda>s'. Inr (True, s')))"

definition CompleteRun :: "store_env \<Rightarrow> string \<Rightarrow> string \<Rightarrow> db \<Rightarrow> (activity_error, bool \<times> db) result" where
  "CompleteRun env runUID phase s = map_err ActStore (bind_res
     (AppendRunEvent env s runUID [] (''run.'' @ phase) phase 0 None) (\<lambda>s'. Inr (True, s')))"

definition FailRun :: "store_env \<Rightarrow> string \<Rightarrow> string \<Rightarrow> db \<Rightarrow> (activity_error, bool \<times> db) result" where
  "FailRun env runUID message s = map_err ActStore (bind_res
     (AppendRunEvent env s runUID [] ''run.failed'' ''failed'' 0 (Some (JObj [(''error'', JStr message)]))) (\<lambda>s'. Inr (True, s')))"

section \<open>A recorded delivery is replayed\<close>

definition delivery_row :: "node_request \<Rightarrow> nat \<Rightarrow> attempt_row \<Rightarrow> bool" where
  "delivery_row rq fw a \<longleftrightarrow> att_run_uid a = rq_runUID rq \<and> att_node_id a = pn_id (rq_node rq) \<and> att_iteration a = rq_iteration rq \<and>
     att_framework a = fw"

text \<open>The transactions that run during the task leave the open attempt of this delivery alone.\<close>

definition keeps_delivery :: "(db \<Rightarrow> db) \<Rightarrow> node_request \<Rightarrow> nat \<Rightarrow> bool" where
  "keeps_delivery between rq fw \<longleftrightarrow> (\<forall>t a. runs_inv t \<longrightarrow> a \<in> set (db_attempts t) \<longrightarrow> delivery_row rq fw a \<longrightarrow> att_completed a = None \<longrightarrow>
     runs_inv (between t) \<and> a \<in> set (db_attempts (between t)))"

lemma CompleteNodeAttempt_rows:
  assumes "CompleteNodeAttempt env s run node it att phase output err ex = Inr (b, s')" "NodeAttempt s run node it att = Inr a" "att_completed a = None"
  shows "db_attempts s' = update_rows (\<lambda>a. att_at run node it att a \<and> att_completed a = None)
    (\<lambda>a. a\<lparr>att_phase := phase, att_output := Some (case output of None \<Rightarrow> JObj [] | Some v \<Rightarrow> v), att_error := err,
       att_exit := (if att_exit a = [] then ex else att_exit a), att_completed := Some (env_now env)\<rparr>) (db_attempts s)"
proof -
  define s1 where "s1 = s\<lparr>db_attempts := update_rows (\<lambda>a. att_at run node it att a \<and> att_completed a = None)
    (\<lambda>a. a\<lparr>att_phase := phase, att_output := Some (case output of None \<Rightarrow> JObj [] | Some v \<Rightarrow> v), att_error := err,
       att_exit := (if att_exit a = [] then ex else att_exit a), att_completed := Some (env_now env)\<rparr>) (db_attempts s)\<rparr>"
  obtain et pl c where "appendRunEventTx s1 run node et ''running'' att pl (env_now env) = Inr (c, s')"
    using assms by (auto simp: CompleteNodeAttempt_def Let_def s1_def)
  then have "db_attempts s' = db_attempts s1"
    by (auto simp: appendRunEventTx_def insert_run_event_def set_run_phase_def split: if_splits)
  then show ?thesis by (simp add: s1_def)
qed

lemma open_attempt_found:
  assumes "attempts_ok s" "a \<in> set (db_attempts s)"
  shows "NodeAttempt s (att_run_uid a) (att_node_id a) (att_iteration a) (att_attempt a) = Inr a"
proof -
  have "select_row (att_at (att_run_uid a) (att_node_id a) (att_iteration a) (att_attempt a)) (db_attempts s) \<noteq> None"
    using assms(2) by (auto simp: select_row_None)
  then obtain b where b: "select_row (att_at (att_run_uid a) (att_node_id a) (att_iteration a) (att_attempt a)) (db_attempts s) = Some b" by auto
  then have "a = b" using attempt_unique[OF assms] select_row_SomeD[OF b] by auto
  then show ?thesis using b by (simp add: NodeAttempt_def)
qed

text \<open>Completing the open attempt of a delivery makes it the attempt a redelivery finds.\<close>

lemma completed_is_latest:
  assumes inv: "runs_inv s" "runs_inv s'" and a: "a \<in> set (db_attempts s)" "att_completed a = None"
    and c: "CompleteNodeAttempt env s (att_run_uid a) (att_node_id a) (att_iteration a) (att_attempt a) phase output err ex = Inr (b, s')"
  obtains a' where "nodeAttemptForFrameworkTx s' (att_run_uid a) (att_node_id a) (att_iteration a) (att_framework a) = Some a'"
    "a' \<in> set (db_attempts s')" "att_completed a' \<noteq> None" "att_phase a' = phase" "att_output a' = Some (case output of None \<Rightarrow> JObj [] | Some v \<Rightarrow> v)"
    "att_error a' = err"
proof -
  have ok: "attempts_ok s" "attempts_ok s'" using inv by (auto simp: runs_inv_def)
  define g where "g = (\<lambda>a :: attempt_row. a\<lparr>att_phase := phase, att_output := Some (case output of None \<Rightarrow> JObj [] | Some v \<Rightarrow> v), att_error := err,
       att_exit := (if att_exit a = [] then ex else att_exit a), att_completed := Some (env_now env)\<rparr>)"
  let ?P = "\<lambda>x. att_at (att_run_uid a) (att_node_id a) (att_iteration a) (att_attempt a) x \<and> att_completed x = None"
  have rows: "db_attempts s' = update_rows ?P g (db_attempts s)"
    using CompleteNodeAttempt_rows[OF c open_attempt_found[OF ok(1) a(1)] a(2)] by (simp add: g_def)
  have g: "g a \<in> set (db_attempts s')" using a unfolding rows update_rows_def by (auto intro!: image_eqI[of _ _ a])
  obtain x where x: "nodeAttemptForFrameworkTx s' (att_run_uid a) (att_node_id a) (att_iteration a) (att_framework a) = Some x"
    using latest_for_framework(1)[OF refl _ g, of "att_run_uid a" "att_node_id a" "att_iteration a" "att_framework a"]
    by (cases "nodeAttemptForFrameworkTx s' (att_run_uid a) (att_node_id a) (att_iteration a) (att_framework a)") (auto simp: g_def)
  note lx = latest_for_framework(2)[OF x refl]
  have ge: "att_attempt a \<le> att_attempt x" using latest_for_framework(3)[OF x refl g] by (simp add: g_def)
  obtain y where y: "y \<in> set (db_attempts s)" "x = (if ?P y then g y else y)" using lx rows by (auto simp: update_rows_def)
  have keys: "att_run_uid (g y) = att_run_uid y" "att_node_id (g y) = att_node_id y" "att_iteration (g y) = att_iteration y"
    "att_framework (g y) = att_framework y" "att_attempt (g y) = att_attempt y" by (simp_all add: g_def)
  have e: "att_run_uid x = att_run_uid y \<and> att_node_id x = att_node_id y \<and> att_iteration x = att_iteration y \<and>
      att_framework x = att_framework y \<and> att_attempt x = att_attempt y" unfolding y(2) using keys by simp
  then have same: "same_delivery a y" "att_attempt x = att_attempt y" using lx unfolding same_delivery_def by metis+
  have "\<not> att_attempt a < att_attempt y" using ok(1) a y(1) same(1) unfolding attempts_ok_def by blast
  then have "y = a" using attempt_unique[OF ok(1) y(1) a(1)] same ge unfolding same_delivery_def by (metis linorder_neqE_nat not_less)
  then have "x = g a" using y(2) a(2) by simp
  then show thesis using that[of x] x g by (simp add: g_def)
qed

lemma ExecuteNode_begun:
  assumes "runs_inv s" "BeginNodeAttempt env s run node (int it) fw key input = Inr ((a, created), s1)"
  shows "(\<not> created \<and> s1 = s \<and> att_completed a \<noteq> None \<and> nodeAttemptForFrameworkTx s run node it fw = Some a) \<or>
    (created \<and> runs_inv s1 \<and> a \<in> set (db_attempts s1) \<and> att_completed a = None \<and> att_run_uid a = run \<and> att_node_id a = node \<and>
       att_iteration a = it \<and> att_framework a = fw)"
proof (cases "\<exists>x. nodeAttemptForFrameworkTx s run node it fw = Some x \<and> att_completed x \<noteq> None")
  case True
  then show ?thesis using assms(2) by (auto simp: BeginNodeAttempt_def)
next
  case False
  let ?lost = "map_option att_attempt (nodeAttemptForFrameworkTx s run node it fw)"
  have n: "begin_new env s run node it fw key input ?lost = Inr ((a, created), s1)"
    using assms(2) False by (auto simp: BeginNodeAttempt_def split: option.splits if_splits)
  show ?thesis by (rule begin_new_step[OF assms(1) n refl]) blast
qed

lemma CompleteNodeAttempt_succeeds:
  assumes inv: "runs_inv s" and a: "a \<in> set (db_attempts s)" "att_completed a = None"
  shows "\<exists>b s'. CompleteNodeAttempt env s (att_run_uid a) (att_node_id a) (att_iteration a) (att_attempt a) ''succeeded'' output err ex = Inr (b, s')"
proof -
  let ?out = "case output of None \<Rightarrow> JObj [] | Some v \<Rightarrow> v"
  let ?P = "att_at (att_run_uid a) (att_node_id a) (att_iteration a) (att_attempt a)"
  define g where "g = (\<lambda>a :: attempt_row. a\<lparr>att_phase := ''succeeded'', att_output := Some ?out, att_error := err,
       att_exit := (if att_exit a = [] then ex else att_exit a), att_completed := Some (env_now env)\<rparr>)"
  define s1 where "s1 = s\<lparr>db_attempts := update_rows (\<lambda>a. ?P a \<and> att_completed a = None) g (db_attempts s)\<rparr>"
  have ok: "attempts_ok s" "events_ok s" using inv by (auto simp: runs_inv_def)
  have run: "has_run s (att_run_uid a)" using ok(1) a(1) by (simp add: attempts_ok_def)
  have "events_ok s1" "has_run s1 (att_run_uid a)" using ok(2) run by (auto simp: s1_def events_ok_def events_of_def has_run_def)
  then obtain c s2 where s2: "appendRunEventTx s1 (att_run_uid a) (att_node_id a) ''node.completed'' ''running'' (att_attempt a) ?out (env_now env) = Inr (c, s2)"
    using appendRunEventTx_succeeds by metis
  then have rows: "db_attempts s2 = db_attempts s1"
    by (auto simp: appendRunEventTx_def insert_run_event_def set_run_phase_def split: if_splits)
  have "g a \<in> set (db_attempts s1)" using a unfolding s1_def update_rows_def by (auto intro!: image_eqI[of _ _ a])
  moreover have "?P (g a)" by (simp add: g_def)
  ultimately have "select_row ?P (db_attempts s2) \<noteq> None" unfolding rows select_row_None by blast
  then obtain b where "NodeAttempt s2 (att_run_uid a) (att_node_id a) (att_iteration a) (att_attempt a) = Inr b" by (auto simp: NodeAttempt_def)
  then show ?thesis using open_attempt_found[OF ok(1) a(1)] a(2) s2
    by (auto simp: CompleteNodeAttempt_def Let_def s1_def g_def)
qed


section \<open>An approval in a loop\<close>

text \<open>An approval is stored per Run and node, not per iteration.\<close>

text \<open>A second iteration of an approval node is approved by its own timeout. Once the approval of a node was granted, beginning it
  again leaves the recorded decision as it is, no further decision can be recorded, and when the wait of the new iteration
  times out \<open>EndApproval\<close> still answers approved and not rejected.\<close>

theorem repeated_approval_times_out_as_approved:
  assumes inv: "runs_inv s" and run: "has_run s (rq_runUID rq)"
    and st: "ApprovalState s (rq_runUID rq) (pn_id (rq_node rq)) = Inr ''approved''"
    and app: "length (filter (\<lambda>a. app_run_uid a = rq_runUID rq \<and> app_node_id a = pn_id (rq_node rq)) (db_approvals s)) = 1"
    and ev: "evaluate lib rq (Some (approval_output ''approved'' ''approval timed out'')) = Inr activated"
  shows "(\<exists>s'. EndApproval lib env rq (approval_outcome TimerExpired) s =
      Inr (\<lparr>nr_output = Some (approval_output ''approved'' ''approval timed out''), nr_activated = activated, nr_rejected = False\<rparr>, s')) \<and>
    (\<forall>b s'. BeginApproval env rq s = Inr (b, s') \<longrightarrow> db_approvals s' = db_approvals s) \<and>
    \<not> is_ok (DecideApproval env s (rq_runUID rq) (pn_id (rq_node rq)) state actor reason)"
proof (intro conjI allI impI)
  let ?P = "\<lambda>a. app_run_uid a = rq_runUID rq \<and> app_node_id a = pn_id (rq_node rq)"
  obtain row where row: "select_row ?P (db_approvals s) = Some row" "app_state row = ''approved''"
    using st by (auto simp: ApprovalState_def)
  have "events_ok s" using inv by (simp add: runs_inv_def)
  then obtain c s' where "appendRunEventTx s (rq_runUID rq) (pn_id (rq_node rq)) ''approval.approved'' ''running'' 1
      (approval_output ''approved'' ''approval timed out'') (env_now env) = Inr (c, s')"
    using appendRunEventTx_succeeds[OF _ run] by metis
  then have "AppendRunEvent env s (rq_runUID rq) (pn_id (rq_node rq)) ''approval.approved'' ''running'' 1
      (Some (approval_output ''approved'' ''approval timed out'')) = Inr s'" by (simp add: AppendRunEvent_def)
  then show "\<exists>s'. EndApproval lib env rq (approval_outcome TimerExpired) s =
      Inr (\<lparr>nr_output = Some (approval_output ''approved'' ''approval timed out''), nr_activated = activated, nr_rejected = False\<rparr>, s')"
    using st ev by (simp add: EndApproval_def approval_outcome_def Let_def)
  fix b s' assume "BeginApproval env rq s = Inr (b, s')"
  then obtain s1 t where "EnsureApproval s (rq_runUID rq) (pn_id (rq_node rq)) t = Inr s1"
    "AppendRunEvent env s1 (rq_runUID rq) (pn_id (rq_node rq)) ''approval.waiting'' ''waiting'' 1 None = Inr s'"
    by (auto simp: BeginApproval_def split: option.splits)
  moreover have "exists_row ?P (db_approvals s)" using select_row_SomeD[OF row(1)] by (auto simp: exists_row_iff)
  ultimately show "db_approvals s' = db_approvals s"
    by (auto simp: EnsureApproval_def AppendRunEvent_def appendRunEventTx_def insert_run_event_def set_run_phase_def split: if_splits)
next
  let ?P = "\<lambda>a. app_run_uid a = rq_runUID rq \<and> app_node_id a = pn_id (rq_node rq)"
  obtain row where row: "select_row ?P (db_approvals s) = Some row" "app_state row = ''approved''"
    using st by (auto simp: ApprovalState_def)
  have r: "row \<in> set (filter ?P (db_approvals s))" using select_row_SomeD[OF row(1)] by simp
  obtain z where "filter ?P (db_approvals s) = [z]" using app by (auto simp: length_Suc_conv)
  then have "filter ?P (db_approvals s) = [row]" using r by simp
  then have "set (filter ?P (db_approvals s)) = {row}" by simp
  then have "a = row" if "a \<in> set (db_approvals s)" "?P a" for a using that by auto
  then have "\<not> exists_row (\<lambda>a. ?P a \<and> app_state a = ''pending'') (db_approvals s)" using row(2) by (auto simp: exists_row_iff)
  then show "\<not> is_ok (DecideApproval env s (rq_runUID rq) (pn_id (rq_node rq)) state actor reason)"
    by (auto simp: DecideApproval_def Let_def is_ok_def fail_if_def rows_affected_0 split: if_splits)
qed

section \<open>Witnesses\<close>

definition noop_request :: node_request where
  "noop_request = \<lparr>rq_runUID = ''run1'', rq_node = zero_node\<lparr>pn_id := ''a'', pn_uses := ''core.noop''\<rparr>, rq_iteration = 0, rq_outgoing = [],
     rq_input = None, rq_nodes = []\<rparr>"

definition no_cel :: cel_lib where
  "no_cel = \<lparr>cel_compile = (\<lambda>_. Inl ''unused''), cel_program = (\<lambda>_. Inl ''unused''), cel_eval = (\<lambda>_ _ _ _. Inl ''unused'')\<rparr>"

definition sample_activity :: activity_env where
  "sample_activity = \<lparr>ae_begin = Samples.sample_env, ae_end = Samples.sample_env, ae_cel = no_cel, ae_executor = None, ae_interrupted = False,
     ae_between = (\<lambda>s. s)\<rparr>"

lemma sample_execution:
  obtains x s' where "ExecuteNode sample_activity 1 noop_request sample_started = (Inr x, s', [])" "nr_output x \<noteq> None"
proof -
  obtain r where r: "find_run sample_started ''run1'' = Some r" "run_phase r = ''pending''" by (rule sample_started_run)
  have n: "nodeAttemptForFrameworkTx sample_started ''run1'' ''a'' 0 1 = None" "attempts_of sample_started ''run1'' ''a'' 0 = []" by code_simp+
  let ?key = "execution_key noop_request"
  obtain a s1 where "begin_new Samples.sample_env sample_started ''run1'' ''a'' 0 1 ?key None None = Inr ((a, True), s1)"
    using begin_new_succeeds[OF sample_started_inv r(1), of "''a''" 0 Samples.sample_env 1 ?key None None] r(2) n(2) by (auto simp: max_uint32_def)
  then have b: "BeginNodeAttempt Samples.sample_env sample_started ''run1'' ''a'' (int 0) 1 ?key None = Inr ((a, True), s1)"
    using n(1) by (simp add: BeginNodeAttempt_def execution_key_def)
  have new: "runs_inv s1" "a \<in> set (db_attempts s1)" "att_completed a = None" "att_run_uid a = ''run1''" "att_node_id a = ''a''" "att_iteration a = 0"
    using ExecuteNode_begun[OF sample_started_inv b] by auto
  obtain d s2 where c: "CompleteNodeAttempt Samples.sample_env s1 ''run1'' ''a'' 0 (att_attempt a) ''succeeded'' (Some (JObj [(''ok'', JBool True)])) [] ''completed'' = Inr (d, s2)"
    using CompleteNodeAttempt_succeeds[OF new(1-3), of Samples.sample_env "Some (JObj [(''ok'', JBool True)])" "[]" "''completed''"] new(4-6) by auto
  have e: "evaluate no_cel noop_request (Some (JObj [(''ok'', JBool True)])) = Inr []"
    by (simp add: evaluate_def decode_object_def noop_request_def)
  have t: "run_task sample_activity noop_request (att_attempt a) 1 = (Inr (Some (JObj [(''ok'', JBool True)])), ''completed'', [])"
    by (simp add: run_task_def noop_request_def zero_node_def Let_def)
  have f: "finish_task sample_activity noop_request (att_attempt a) (Inr (Some (JObj [(''ok'', JBool True)]))) ''completed'' s1 =
      (Inr \<lparr>nr_output = Some (JObj [(''ok'', JBool True)]), nr_activated = [], nr_rejected = False\<rparr>,
       s2)"
    using e c by (auto simp: finish_task_def sample_activity_def noop_request_def zero_node_def)
  show thesis
  proof (rule that)
    show "ExecuteNode sample_activity 1 noop_request sample_started = (Inr \<lparr>nr_output = Some (JObj [(''ok'', JBool True)]), nr_activated = [], nr_rejected = False\<rparr>, s2, [])"
      using b t f by (simp add: ExecuteNode_def sample_activity_def noop_request_def zero_node_def)
  qed simp
qed


definition sample_approved :: db where
  "sample_approved = run_requests exec_run [(Samples.sample_env, ReqDecideApproval ''run1'' ''a'' ''approved'' ''op'' [])] sample_started"

theorem repeated_approval_times_out_as_approved_witness:
  "\<exists>x s'. EndApproval no_cel Samples.sample_env noop_request (approval_outcome TimerExpired) sample_approved = Inr (x, s') \<and> \<not> nr_rejected x"
proof -
  have inv: "runs_inv sample_approved" unfolding sample_approved_def
    by (rule run_log.inv_run[OF sample_started_inv]) (simp add: list_all_iff)
  have st: "ApprovalState sample_approved ''run1'' ''a'' = Inr ''approved''" "has_run sample_approved ''run1''"
    "length (filter (\<lambda>a. app_run_uid a = ''run1'' \<and> app_node_id a = ''a'') (db_approvals sample_approved)) = 1" by code_simp+
  have rq: "rq_runUID noop_request = ''run1''" "pn_id (rq_node noop_request) = ''a''" by (simp_all add: noop_request_def zero_node_def)
  have "evaluate no_cel noop_request (Some (approval_output ''approved'' ''approval timed out'')) = Inr []"
    by (simp add: evaluate_def decode_object_def noop_request_def approval_output_def)
  from repeated_approval_times_out_as_approved[OF inv _ _ _ this, of Samples.sample_env, unfolded rq, OF st(2,1,3)]
  show ?thesis by (metis node_result.select_convs(3))
qed

end
