(* ===== verification/Engine_Adapter.thy ===== *)
theory Engine_Adapter
  imports Store_System Engine_Run
begin

text \<open>
  The adapter of \<open>internal/engine/engine.go\<close> that runs the interpreter on the workflow framework: starting, cancelling and
  removing instances, and redelivering decisions and cancellations the engine has not acknowledged.

  The framework's backend is outside the repository: its calls are the parameter \<open>backend\<close>. Other
  transactions of the store may run between two reads of one operation; the later state is an argument.
  Polling in \<open>RemoveFinishedRun\<close> is bounded by a deadline: the number of polls before it is an argument, and the
  framework moves on between two polls (\<open>tick\<close>).
\<close>

datatype engine_error = EngStore store_error | EngText string

record 'b backend =
  be_list :: "'b \<Rightarrow> (string, string list) result"
  be_create :: "string \<Rightarrow> execution_plan \<Rightarrow> json option \<Rightarrow> 'b \<Rightarrow> (string, unit) result \<times> 'b"
  be_signalApproval :: "string \<Rightarrow> string \<Rightarrow> approval_signal \<Rightarrow> 'b \<Rightarrow> (string, unit) result \<times> 'b"
  be_signalEvent :: "string \<Rightarrow> string \<Rightarrow> event_signal \<Rightarrow> 'b \<Rightarrow> (string, unit) result \<times> 'b"
  be_cancel :: "string \<Rightarrow> 'b \<Rightarrow> (string, unit) result \<times> 'b"
  be_finished :: "string \<Rightarrow> 'b \<Rightarrow> (string, bool) result"
  be_remove :: "string \<Rightarrow> 'b \<Rightarrow> (string, unit) result \<times> 'b"
  be_cancelCalls :: "(string \<Rightarrow> string \<Rightarrow> 'b \<Rightarrow> (string, unit) result \<times> 'b) option"

text \<open>\<open>findInstance\<close>: the backend lists at most 1000 instances.\<close>

definition findInstance :: "'b backend \<Rightarrow> string \<Rightarrow> 'b \<Rightarrow> (engine_error, string) result" where
  "findInstance be runUID b =
     (case be_list be b of
        Inl e \<Rightarrow> Inl (EngText e)
      | Inr ids \<Rightarrow> if runUID \<in> set (take 1000 ids) then Inr runUID else Inl (EngStore ErrNotFound))"

definition cancelCreatedRunIfRequested :: "'b backend \<Rightarrow> db \<Rightarrow> string \<Rightarrow> 'b \<Rightarrow> (engine_error, unit) result \<times> 'b" where
  "cancelCreatedRunIfRequested be s runUID b =
     (case GetRun s runUID of
        Inl e \<Rightarrow> (Inl (EngStore e), b)
      | Inr run \<Rightarrow>
          if run_phase run \<noteq> ''cancelled'' then (Inr (), b)
          else (case findInstance be runUID b of
              Inl e \<Rightarrow> (Inl e, b)
            | Inr i \<Rightarrow> (case be_cancel be i b of (r, b') \<Rightarrow> (map_err EngText r, b'))))"

definition Adapter_Start :: "'b backend \<Rightarrow> db \<Rightarrow> db \<Rightarrow> string \<Rightarrow> execution_plan \<Rightarrow> json option \<Rightarrow> 'b \<Rightarrow> (engine_error, unit) result \<times> 'b" where
  "Adapter_Start be s later runUID plan input b =
     (case GetRun s runUID of
        Inl e \<Rightarrow> (Inl (EngStore e), b)
      | Inr run \<Rightarrow>
          if run_phase run = ''cancelled'' then (Inr (), b)
          else (case findInstance be runUID b of
              Inr _ \<Rightarrow> (Inr (), b)
            | Inl e \<Rightarrow>
                if e \<noteq> EngStore ErrNotFound then (Inl e, b)
                else (case be_create be runUID plan input b of
                    (Inr _, b') \<Rightarrow> cancelCreatedRunIfRequested be later runUID b'
                  | (Inl m, b') \<Rightarrow> (case findInstance be runUID b' of
                      Inr _ \<Rightarrow> (Inr (), b')
                    | Inl _ \<Rightarrow> (Inl (EngText (''create interpreter instance: '' @ m)), b')))))"

definition Adapter_Signal :: "'b backend \<Rightarrow> string \<Rightarrow> string \<Rightarrow> approval_signal \<Rightarrow> 'b \<Rightarrow> (engine_error, unit) result \<times> 'b" where
  "Adapter_Signal be runUID i signal b =
     (case be_signalApproval be runUID (approvalSignalName i) signal b of (r, b') \<Rightarrow> (map_err EngText r, b'))"

definition Adapter_SignalEvent :: "'b backend \<Rightarrow> string \<Rightarrow> string \<Rightarrow> event_signal \<Rightarrow> 'b \<Rightarrow> (engine_error, unit) result \<times> 'b" where
  "Adapter_SignalEvent be runUID i signal b =
     (case be_signalEvent be runUID (eventSignalName i) signal b of (r, b') \<Rightarrow> (map_err EngText r, b'))"

text \<open>\<open>errors.Join\<close> of the error of the provider and the error of the framework.\<close>

definition join_errors :: "string option \<Rightarrow> (string, unit) result \<Rightarrow> (engine_error, unit) result" where
  "join_errors providerErr r =
     (case (providerErr, r) of
        (None, Inr _) \<Rightarrow> Inr ()
      | (None, Inl e) \<Rightarrow> Inl (EngText e)
      | (Some p, Inr _) \<Rightarrow> Inl (EngText p)
      | (Some p, Inl e) \<Rightarrow> Inl (EngText (p @ CHR 0x0A # e)))"

definition cancel_calls :: "'b backend \<Rightarrow> string \<Rightarrow> string \<Rightarrow> 'b \<Rightarrow> string option \<times> 'b" where
  "cancel_calls be runUID reason b =
     (case be_cancelCalls be of
        None \<Rightarrow> (None, b)
      | Some cancel \<Rightarrow> (case cancel runUID reason b of (Inl e, b') \<Rightarrow> (Some e, b') | (Inr _, b') \<Rightarrow> (None, b')))"

definition Adapter_Cancel :: "'b backend \<Rightarrow> string \<Rightarrow> string \<Rightarrow> 'b \<Rightarrow> (engine_error, unit) result \<times> 'b" where
  "Adapter_Cancel be runUID reason b =
     (case cancel_calls be runUID reason b of (providerErr, b1) \<Rightarrow>
       (case findInstance be runUID b1 of
          Inl e \<Rightarrow> (case providerErr of
              Some p \<Rightarrow> (Inl (EngText (''cancel provider calls: '' @ p)), b1)
            | None \<Rightarrow> (Inl e, b1))
        | Inr i \<Rightarrow> (case be_cancel be i b1 of (r, b2) \<Rightarrow> (join_errors providerErr r, b2))))"

text \<open>The two loops of \<open>Reconcile\<close>.\<close>

fun redeliver_approvals :: "'b backend \<Rightarrow> (string \<times> string \<times> string \<times> string) list \<Rightarrow> db \<Rightarrow> 'b \<Rightarrow> (engine_error, unit) result \<times> db \<times> 'b" where
  "redeliver_approvals be [] s b = (Inr (), s, b)"
| "redeliver_approvals be ((run, node, state, reason) # rest) s b =
     (case Adapter_Signal be run node \<lparr>sig_state = state, sig_reason = reason\<rparr> b of
        (Inl e, b') \<Rightarrow> (Inl e, s, b')
      | (Inr _, b') \<Rightarrow> redeliver_approvals be rest (MarkApprovalSignaled s run node) b')"

fun redeliver_cancellations :: "'b backend \<Rightarrow> store_env \<Rightarrow> (string \<times> string) list \<Rightarrow> db \<Rightarrow> 'b \<Rightarrow> (engine_error, unit) result \<times> db \<times> 'b" where
  "redeliver_cancellations be env [] s b = (Inr (), s, b)"
| "redeliver_cancellations be env ((run, reason) # rest) s b =
     (case Adapter_Cancel be run reason b of
        (Inl e, b') \<Rightarrow>
          if e \<noteq> EngStore ErrNotFound then (Inl e, s, b')
          else redeliver_cancellations be env rest (snd (MarkRunCancellationDeliveredIfStartImpossible env s run)) b'
      | (Inr _, b') \<Rightarrow> redeliver_cancellations be env rest (MarkRunCancellationDelivered env s run) b')"

definition Adapter_Reconcile :: "'b backend \<Rightarrow> store_env \<Rightarrow> db \<Rightarrow> 'b \<Rightarrow> (engine_error, unit) result \<times> db \<times> 'b" where
  "Adapter_Reconcile be env s b =
     (case redeliver_approvals be (UndeliveredApprovalSignals s 100) s b of
        (Inl e, s1, b1) \<Rightarrow> (Inl e, s1, b1)
      | (Inr _, s1, b1) \<Rightarrow> redeliver_cancellations be env (UndeliveredRunCancellations s1 100) s1 b1)"

fun RemoveFinishedRun :: "'b backend \<Rightarrow> ('b \<Rightarrow> 'b) \<Rightarrow> nat \<Rightarrow> string \<Rightarrow> 'b \<Rightarrow> (engine_error, unit) result \<times> 'b" where
  "RemoveFinishedRun be tick polls runUID b =
     (case findInstance be runUID b of
        Inl e \<Rightarrow> if e = EngStore ErrNotFound then (Inr (), b) else (Inl e, b)
      | Inr i \<Rightarrow> (case be_finished be i b of
          Inl e \<Rightarrow> (Inl (EngText e), b)
        | Inr True \<Rightarrow> (case be_remove be i b of (r, b') \<Rightarrow> (map_err EngText r, b'))
        | Inr False \<Rightarrow> (case polls of
              0 \<Rightarrow> (Inl (EngText ''workflow instance did not become terminal within the retention deadline''), b)
            | Suc n \<Rightarrow> RemoveFinishedRun be tick n runUID (tick b))))"

declare RemoveFinishedRun.simps [simp del]

section \<open>What the adapter relies on\<close>

text \<open>
  The documented behaviour of the framework: instances have unique identities; creating one either adds it or changes nothing, and
  reports success only when it added it (an error may still leave it created); the listing returns the identities of
  instances, and all of them when there are at most 1000; signals and cancellations create and remove no instance.
\<close>

definition backend_ok :: "'b backend \<Rightarrow> ('b \<Rightarrow> (string \<times> execution_plan \<times> json option) list) \<Rightarrow> bool" where
  "backend_ok be insts \<longleftrightarrow>
     (\<forall>b ids. be_list be b = Inr ids \<longrightarrow> set ids \<subseteq> fst ` set (insts b)) \<and>
     (\<forall>i plan input b r b'. be_create be i plan input b = (r, b') \<longrightarrow>
        (insts b' = insts b \<and> (\<exists>e. r = Inl e)) \<or> (i \<notin> fst ` set (insts b) \<and> insts b' = insts b @ [(i, plan, input)])) \<and>
     (\<forall>i c sig b. insts (snd (be_signalApproval be i c sig b)) = insts b) \<and>
     (\<forall>i c sig b. insts (snd (be_signalEvent be i c sig b)) = insts b) \<and>
     (\<forall>i b. insts (snd (be_cancel be i b)) = insts b)"

text \<open>Starting a run adds at most one instance, the one of the run, and succeeds only when the run has an instance or was cancelled.\<close>

lemma Adapter_Start_spec:
  assumes ok: "backend_ok be insts" and r: "Adapter_Start be s later runUID plan input b = (r, b')"
  shows "(insts b' = insts b \<or> (runUID \<notin> fst ` set (insts b) \<and> insts b' = insts b @ [(runUID, plan, input)])) \<and>
    (r = Inr () \<longrightarrow> runUID \<in> fst ` set (insts b') \<or> (\<exists>run. find_run s runUID = Some run \<and> run_phase run = ''cancelled''))"
proof -
  have list: "\<And>b i. findInstance be runUID b = Inr i \<Longrightarrow> runUID \<in> fst ` set (insts b)"
    using ok set_take_subset unfolding backend_ok_def findInstance_def by (fastforce split: sum.splits if_splits)
  have create: "\<And>r b'. be_create be runUID plan input b = (r, b') \<Longrightarrow> (insts b' = insts b \<and> (\<exists>e. r = Inl e)) \<or>
      (runUID \<notin> fst ` set (insts b) \<and> insts b' = insts b @ [(runUID, plan, input)])"
    using ok unfolding backend_ok_def by blast
  have cancel: "\<And>b r b'. cancelCreatedRunIfRequested be later runUID b = (r, b') \<Longrightarrow> insts b' = insts b"
    using ok unfolding backend_ok_def cancelCreatedRunIfRequested_def
    by (auto split: sum.splits if_splits prod.splits) (metis snd_conv)
  consider (err) e where "GetRun s runUID = Inl e" | (canc) run where "GetRun s runUID = Inr run" "run_phase run = ''cancelled''"
    | (live) run where "GetRun s runUID = Inr run" "run_phase run \<noteq> ''cancelled''" by (cases "GetRun s runUID") auto
  then show ?thesis
  proof cases
    case err
    then show ?thesis using r by (auto simp: Adapter_Start_def)
  next
    case canc
    then show ?thesis using r by (auto simp: Adapter_Start_def GetRun_def)
  next
    case live
    show ?thesis
    proof (cases "findInstance be runUID b = Inl (EngStore ErrNotFound)")
      case False
      then show ?thesis using r live list[of b] by (auto simp: Adapter_Start_def split: sum.splits if_splits)
    next
      case True
      obtain c b1 where c: "be_create be runUID plan input b = (c, b1)" by fastforce
      show ?thesis
      proof (cases c)
        case (Inr u)
        then have "insts b1 = insts b @ [(runUID, plan, input)]" "runUID \<notin> fst ` set (insts b)" using create[OF c] by auto
        moreover have "insts b' = insts b1" using r live True c Inr cancel[of b1 r b'] by (simp add: Adapter_Start_def)
        ultimately show ?thesis by simp
      next
        case (Inl m)
        then have "b' = b1" "r = Inr () \<longrightarrow> (\<exists>i. findInstance be runUID b1 = Inr i)"
          using r live True c by (auto simp: Adapter_Start_def split: sum.splits)
        then show ?thesis using create[OF c] list[of b1] by auto
      qed
    qed
  qed
qed

section \<open>Runs beyond the listing\<close>

lemma page_limit_100 [simp]: "page_limit 100 = 100"
  by (simp add: page_limit_def)

text \<open>A cancellation can be acknowledged without reaching its workflow. When the instance of a cancelled Run is not among the first
  1000 the backend lists and no start command of the Run is open, \<open>Reconcile\<close> takes it for a Run that never
  started: it marks the cancellation as delivered, leaves the backend (and the running workflow) as it is, and
  the cancellation is never delivered again.\<close>

theorem cancellation_acknowledged_beyond_listing:
  assumes be: "be_list be b = Inr ids" "runUID \<notin> set (take 1000 ids)" "be_cancelCalls be = None"
    and s: "UndeliveredApprovalSignals s 100 = []" "db_cancellations s = [c]" "can_run_uid c = runUID" "\<not> can_delivered c" "\<not> start_open s runUID"
  shows "\<exists>s'. Adapter_Reconcile be env s b = (Inr (), s', b) \<and> UndeliveredRunCancellations s' 100 = []"
proof -
  have f: "findInstance be runUID b = Inl (EngStore ErrNotFound)" using be by (simp add: findInstance_def)
  have u: "UndeliveredRunCancellations s 100 = [(runUID, can_reason c)]" using s by (simp add: UndeliveredRunCancellations_def)
  have c: "Adapter_Cancel be runUID (can_reason c) b = (Inl (EngStore ErrNotFound), b)"
    using f be(3) by (simp add: Adapter_Cancel_def cancel_calls_def)
  let ?s = "snd (MarkRunCancellationDeliveredIfStartImpossible env s runUID)"
  have "Adapter_Reconcile be env s b = (Inr (), ?s, b)" using s(1) u c by (simp add: Adapter_Reconcile_def)
  moreover have "UndeliveredRunCancellations ?s 100 = []"
    using s by (simp add: UndeliveredRunCancellations_def MarkRunCancellationDeliveredIfStartImpossible_def Let_def update_rows_def mark_delivered_def)
  ultimately show ?thesis by blast
qed

text \<open>A backend that keeps its instances in a list, newest first; the flag says whether the instance was cancelled.\<close>

definition list_backend :: "((string \<times> bool) \<times> execution_plan \<times> json option) list backend" where
  "list_backend = \<lparr>be_list = (\<lambda>b. Inr (map (fst \<circ> fst) b)),
     be_create = (\<lambda>i plan input b. if i \<in> (fst \<circ> fst) ` set b then (Inl ''instance already exists'', b) else (Inr (), b @ [((i, False), plan, input)])),
     be_signalApproval = (\<lambda>_ _ _ b. (Inr (), b)), be_signalEvent = (\<lambda>_ _ _ b. (Inr (), b)),
     be_cancel = (\<lambda>i b. (Inr (), map (\<lambda>p. if fst (fst p) = i then ((i, True), snd p) else p) b)),
     be_finished = (\<lambda>i b. Inr False), be_remove = (\<lambda>i b. (Inr (), filter (\<lambda>p. fst (fst p) \<noteq> i) b)), be_cancelCalls = None\<rparr>"

definition list_instances :: "((string \<times> bool) \<times> execution_plan \<times> json option) list \<Rightarrow> (string \<times> execution_plan \<times> json option) list" where
  "list_instances b = map (\<lambda>p. (fst (fst p), snd p)) b"

lemma list_backend_ok: "backend_ok list_backend list_instances"
  unfolding backend_ok_def list_backend_def list_instances_def by (auto simp: image_image comp_def split: if_splits)

definition sample_plan_of :: "string \<Rightarrow> (string \<times> bool) \<times> execution_plan \<times> json option" where
  "sample_plan_of i = ((i, False), sample_plan, None)"

theorem cancellation_acknowledged_beyond_listing_witness:
  "\<exists>b s s'. ((''run1'', False), sample_plan, None) \<in> set b \<and>
     UndeliveredRunCancellations s 100 = [(''run1'', ''operator'')] \<and>
     Adapter_Reconcile list_backend Samples.sample_env s b = (Inr (), s', b) \<and> UndeliveredRunCancellations s' 100 = []"
proof -
  let ?c = "\<lparr>can_run_uid = ''run1'', can_reason = ''operator'', can_delivered = False, can_requested = 5, can_delivered_at = None\<rparr>"
  let ?s = "empty_db\<lparr>db_cancellations := [?c]\<rparr>"
  let ?b = "replicate 1000 (sample_plan_of ''other'') @ [sample_plan_of ''run1'']"
  have "''run1'' \<notin> set (take 1000 (map (fst \<circ> fst) ?b))" by (simp add: sample_plan_of_def)
  moreover have "UndeliveredApprovalSignals ?s 100 = []" "\<not> start_open ?s ''run1''"
    by (simp_all add: UndeliveredApprovalSignals_def start_open_def empty_db_def exists_row_iff)
  ultimately obtain s' where "Adapter_Reconcile list_backend Samples.sample_env ?s ?b = (Inr (), s', ?b)" "UndeliveredRunCancellations s' 100 = []"
    using cancellation_acknowledged_beyond_listing[of list_backend ?b "map (fst \<circ> fst) ?b" "''run1''" ?s ?c Samples.sample_env]
    by (auto simp: list_backend_def)
  moreover have "UndeliveredRunCancellations ?s 100 = [(''run1'', ''operator'')]" by (simp add: UndeliveredRunCancellations_def)
  moreover have "((''run1'', False), sample_plan, None) \<in> set ?b" by (simp add: sample_plan_of_def)
  ultimately show ?thesis by blast
qed

end
