(* ===== verification/Health.thy ===== *)
theory Health
  imports Prelude
begin

text \<open>
  The health tracker of \<open>internal/health/health.go\<close>: a map from components to their unresolved failure, shown
  in the order of the component names.
\<close>

record health_diagnostic =
  hd_path :: string
  hd_code :: string
  hd_message :: string

type_synonym tracker = "(string \<times> health_diagnostic) list"

definition NewTracker :: tracker where
  "NewTracker = []"

definition health_Set :: "tracker \<Rightarrow> string \<Rightarrow> health_diagnostic \<Rightarrow> tracker" where
  "health_Set t component d = map_put component d t"

definition health_Clear :: "tracker \<Rightarrow> string \<Rightarrow> tracker" where
  "health_Clear t component = map_del component t"

definition health_Has :: "tracker \<Rightarrow> string \<Rightarrow> bool" where
  "health_Has t component \<longleftrightarrow> map_of t component \<noteq> None"

definition health_Snapshot :: "tracker \<Rightarrow> health_diagnostic list" where
  "health_Snapshot t = map (\<lambda>c. the (map_of t c)) (sort (map fst t))"

lemma health_Has_simps [simp]:
  "\<not> health_Has NewTracker c" "health_Has (health_Set t c d) c' \<longleftrightarrow> c' = c \<or> health_Has t c'"
  "health_Has (health_Clear t c) c' \<longleftrightarrow> c' \<noteq> c \<and> health_Has t c'"
  by (auto simp: NewTracker_def health_Has_def health_Set_def health_Clear_def)

end
