(* ===== verification/Orchestrator.thy ===== *)
theory Orchestrator
  imports Engine_Adapter Health
begin

text \<open>
  The control loop of \<open>internal/orchestrator/orchestrator.go\<close>: acceptance of occurrences with the compiled plan, and the
  dispatch of outbox commands to the engine.

  A dispatch is a sequence of store transactions with calls of the engine in between; other clients of the store run
  between them. The state the step \<open>k\<close> of a dispatch sees is \<open>oe_between k s\<close>, a parameter, and the theorems hold for every
  interference that keeps what is named in their hypotheses. The clock is one value per call. \<open>None\<close> is a
  compilation that does not return (\<open>Flow_Compiler.Compile\<close>). The fault hook of the crash tests is kept: an error at a boundary
  stands for a crash there.

  The theorems: a dispatch creates at most one workflow instance, of the Run the command names and with the pinned
  plan; it closes the command only when the Run has an instance or was cancelled, and keeps it open
  on every error; the number of active Runs never exceeds the configured capacity.
\<close>

datatype boundary = BoundaryAfterReceipt | BoundaryAfterRun | BoundaryAfterEngine

datatype orch_error =
  OrchStore store_error
| OrchText string
| OrchCapacity
| OrchEngine engine_error

record 'b orch_env =
  oe_env :: store_env
  oe_compiler :: compile_env
  oe_backend :: "'b backend"
  oe_fault :: "boundary \<Rightarrow> string option"
  oe_claimStaleAfter :: nat
  oe_maxActiveRuns :: nat
  oe_capacityRetryAfter :: nat
  oe_message :: "orch_error \<Rightarrow> string"
  oe_between :: "nat \<Rightarrow> db \<Rightarrow> db"

section \<open>Acceptance\<close>

definition compileCurrentFlow :: "'b orch_env \<Rightarrow> db \<Rightarrow> string \<Rightarrow> string \<Rightarrow> (orch_error, execution_plan) result option" where
  "compileCurrentFlow oe s flowName namespace =
     (case Get (env_lib (oe_env oe)) s ''Flow'' namespace flowName of
        Inl e \<Rightarrow> Some (Inl (OrchStore e))
      | Inr doc \<Rightarrow> (case DecodeFlow (env_lib (oe_env oe)) (doc_JSON doc) of
          Inl e \<Rightarrow> Some (Inl (OrchText e))
        | Inr (meta, spec) \<Rightarrow> map_option (\<lambda>(plan, ds). case filter IsError ds of
              d # _ \<Rightarrow> Inl (OrchText (''flow compile failed: '' @ diag_message d @ '' at '' @ diag_path d))
            | [] \<Rightarrow> Inr plan) (Compile (oe_compiler oe) meta spec)))"

text \<open>Compiling the current Flow and checking the input against its schema.\<close>

definition compiled_plan_for :: "'b orch_env \<Rightarrow> db \<Rightarrow> string \<Rightarrow> string \<Rightarrow> json option \<Rightarrow> (orch_error, execution_plan) result option" where
  "compiled_plan_for oe s flowName namespace input =
     Option.bind (compileCurrentFlow oe s flowName namespace) (\<lambda>r. case r of
         Inl e \<Rightarrow> Some (Inl e)
       | Inr plan \<Rightarrow> map_option (\<lambda>v. case v of Inl m \<Rightarrow> Inl (OrchText m) | Inr _ \<Rightarrow> Inr plan) (ValidateRunInput (ce_js (oe_compiler oe)) plan input))"

definition Orch_AcceptTrigger :: "'b orch_env \<Rightarrow> string \<Rightarrow> string \<Rightarrow> db \<Rightarrow> string \<Rightarrow> nat \<Rightarrow> string \<Rightarrow> string \<Rightarrow> string \<Rightarrow> json option \<Rightarrow> bool
    \<Rightarrow> (orch_error, receipt \<times> db) result option" where
  "Orch_AcceptTrigger oe receiptUID runUID s triggerUID generation occurrenceID flowName namespace input deduplicated =
     (case ReceiptByOccurrence s triggerUID occurrenceID of
        Inr existing \<Rightarrow> Some (Inr (existing\<lparr>rc_existing := True\<rparr>, s))
      | Inl e \<Rightarrow>
          if e \<noteq> ErrNotFound then Some (Inl (OrchStore e))
          else map_option (\<lambda>r. bind_res r (\<lambda>plan. map_err OrchStore
              (AcceptTriggerWithPlan (oe_env oe) receiptUID runUID (oe_between oe 0 s) triggerUID generation occurrenceID flowName namespace input deduplicated plan)))
            (compiled_plan_for oe s flowName namespace input))"

definition Orch_AcceptProviderTrigger :: "'b orch_env \<Rightarrow> string \<Rightarrow> string \<Rightarrow> db \<Rightarrow> string \<Rightarrow> nat \<Rightarrow> string \<Rightarrow> string \<Rightarrow> string \<Rightarrow> json option \<Rightarrow> string
    \<Rightarrow> (orch_error, receipt \<times> db) result option" where
  "Orch_AcceptProviderTrigger oe receiptUID runUID s triggerUID generation occurrenceID flowName namespace input cursor =
     (case ReceiptByOccurrence s triggerUID occurrenceID of
        Inr _ \<Rightarrow> Some (map_err OrchStore
          (AcceptProviderTrigger (oe_env oe) receiptUID runUID (oe_between oe 0 s) triggerUID generation occurrenceID flowName namespace input cursor))
      | Inl e \<Rightarrow>
          if e \<noteq> ErrNotFound then Some (Inl (OrchStore e))
          else map_option (\<lambda>r. bind_res r (\<lambda>plan. map_err OrchStore
              (AcceptProviderTriggerWithPlan (oe_env oe) receiptUID runUID (oe_between oe 0 s) triggerUID generation occurrenceID flowName namespace input cursor plan)))
            (compiled_plan_for oe s flowName namespace input))"

definition Orch_AcceptProviderSignal :: "'b orch_env \<Rightarrow> string \<Rightarrow> db \<Rightarrow> string \<Rightarrow> nat \<Rightarrow> string \<Rightarrow> string \<Rightarrow> string \<Rightarrow> string \<Rightarrow> string \<Rightarrow> json option \<Rightarrow> string
    \<Rightarrow> (orch_error, receipt \<times> db) result" where
  "Orch_AcceptProviderSignal oe receiptUID s triggerUID generation occurrenceID flowName namespace runUID node payload cursor =
     map_err OrchStore (AcceptProviderSignal (oe_env oe) receiptUID s triggerUID generation occurrenceID flowName namespace runUID node payload cursor)"

text \<open>\<open>StartManual\<close>: an empty key is replaced by a fresh one; an error at the boundary leaves the receipt committed.\<close>

definition StartManual :: "'b orch_env \<Rightarrow> string \<Rightarrow> string \<Rightarrow> string \<Rightarrow> db \<Rightarrow> string \<Rightarrow> string \<Rightarrow> json option \<Rightarrow> string
    \<Rightarrow> ((orch_error, receipt) result \<times> db) option" where
  "StartManual oe receiptUID runUID freshKey s flowName namespace input idempotencyKey =
     map_option (\<lambda>r. case r of
         Inl e \<Rightarrow> (Inl e, s)
       | Inr (receipt, s') \<Rightarrow> (case oe_fault oe BoundaryAfterReceipt of Some m \<Rightarrow> (Inl (OrchText m), s') | None \<Rightarrow> (Inr receipt, s')))
     (Orch_AcceptTrigger oe receiptUID runUID s (''manual:'' @ namespace @ '':'' @ flowName) 0
        (if idempotencyKey = [] then freshKey else idempotencyKey) flowName namespace input (idempotencyKey \<noteq> []))"

section \<open>Dispatch\<close>

definition retry_command :: "'b orch_env \<Rightarrow> nat \<Rightarrow> orch_error \<Rightarrow> nat \<Rightarrow> db \<Rightarrow> db" where
  "retry_command oe i e delay s = RetryOutbox (oe_env oe) s i (oe_message oe e) delay"

definition start_plan :: "'b orch_env \<Rightarrow> start_payload \<Rightarrow> db \<Rightarrow> (orch_error, execution_plan) result option" where
  "start_plan oe p s =
     (if sp_planHash p \<noteq> [] then Some (map_err OrchStore (GetPlan s (sp_planHash p)))
      else compileCurrentFlow oe s (sp_flowName p) (sp_namespace p))"

text \<open>The capacity check: the error, the delay of the retry and the health of the capacity.\<close>

definition capacity_check :: "'b orch_env \<Rightarrow> start_payload \<Rightarrow> db \<Rightarrow> tracker \<Rightarrow> (orch_error \<times> nat) option \<times> tracker" where
  "capacity_check oe p s h =
     (case GetRun s (sp_runUID p) of
        Inr _ \<Rightarrow> (None, health_Clear h ''capacity'')
      | Inl e \<Rightarrow>
          if e \<noteq> ErrNotFound then (Some (OrchStore e, second), h)
          else if CountActiveRunsExcluding (oe_between oe 2 s) (sp_runUID p) \<ge> oe_maxActiveRuns oe
            then (Some (OrchCapacity, oe_capacityRetryAfter oe),
              health_Set h ''capacity'' \<lparr>hd_path = ''capacity/runs'', hd_code = ''saturated'',
                hd_message = ''configured active Run capacity is saturated; accepted work remains queued''\<rparr>)
          else (None, health_Clear h ''capacity''))"

text \<open>The plan of a Run that exists already.\<close>

definition pinned_plan :: "bool \<Rightarrow> start_payload \<Rightarrow> execution_plan \<Rightarrow> db \<Rightarrow> (store_error, execution_plan) result" where
  "pinned_plan created p plan s =
     (if created then Inr plan else bind_res (GetRun s (sp_runUID p)) (\<lambda>run. GetPlan s (run_plan_hash run)))"

text \<open>The part of \<open>reconcileStart\<close> after the Run exists.\<close>

definition start_engine :: "'b orch_env \<Rightarrow> nat \<Rightarrow> start_payload \<Rightarrow> execution_plan \<Rightarrow> db \<Rightarrow> 'b \<Rightarrow> (orch_error, unit) result \<times> db \<times> 'b" where
  "start_engine oe i p plan s b =
     (case oe_fault oe BoundaryAfterRun of Some m \<Rightarrow> (Inl (OrchText m), s, b)
      | None \<Rightarrow> (case CompleteStartIfRunCancelled (oe_env oe) s i (sp_runUID p) of
          (True, s1) \<Rightarrow> (Inr (), s1, b)
        | (False, s1) \<Rightarrow>
            (let s2 = oe_between oe 5 s1; s3 = oe_between oe 6 s2 in
             case Adapter_Start (oe_backend oe) s2 s3 (sp_runUID p) plan (Some (sp_input p)) b of
               (Inl e, b') \<Rightarrow> (Inl (OrchEngine e), retry_command oe i (OrchEngine e) second s3, b')
             | (Inr _, b') \<Rightarrow> (case oe_fault oe BoundaryAfterEngine of
                   Some m \<Rightarrow> (Inl (OrchText m), s3, b')
                 | None \<Rightarrow> (Inr (), CompleteOutbox (oe_env oe) s3 i, b')))))"

definition reconcileStart :: "'b orch_env \<Rightarrow> nat \<Rightarrow> start_payload \<Rightarrow> db \<Rightarrow> 'b \<Rightarrow> tracker \<Rightarrow> ((orch_error, unit) result \<times> db \<times> 'b \<times> tracker) option" where
  "reconcileStart oe i p s b h =
     map_option (\<lambda>r. case r of
         Inl e \<Rightarrow> (Inl e, retry_command oe i e second s, b, h)
       | Inr plan \<Rightarrow>
           (let s1 = oe_between oe 1 s; s2 = oe_between oe 3 (oe_between oe 2 s1) in
            case capacity_check oe p s1 h of
              (Some (e, delay), h') \<Rightarrow> (Inl e, retry_command oe i e delay s2, b, h')
            | (None, h') \<Rightarrow> (case EnsureRun (oe_env oe) s2 p plan of
                Inl e \<Rightarrow> (Inl (OrchStore e), retry_command oe i (OrchStore e) second s2, b, h')
              | Inr (created, s3) \<Rightarrow>
                  (let s4 = oe_between oe 4 s3 in
                   case pinned_plan created p plan s4 of
                     Inl e \<Rightarrow> (Inl (OrchStore e), retry_command oe i (OrchStore e) second s4, b, h')
                   | Inr plan' \<Rightarrow> (case start_engine oe i p plan' s4 b of (r, s', b') \<Rightarrow> (r, s', b', h'))))))
     (start_plan oe p s)"

definition reconcileSignal :: "'b orch_env \<Rightarrow> nat \<Rightarrow> signal_payload \<Rightarrow> db \<Rightarrow> 'b \<Rightarrow> (orch_error, unit) result \<times> db \<times> 'b" where
  "reconcileSignal oe i p s b =
     (let s1 = oe_between oe 1 s in
      case Adapter_SignalEvent (oe_backend oe) (sg_runUID p) (sg_nodeID p)
          \<lparr>evs_providerEventID = sg_providerEventID p, evs_payload = Some (sg_payload p)\<rparr> b of
        (Inl e, b') \<Rightarrow> (Inl (OrchEngine e), retry_command oe i (OrchEngine e) second s1, b')
      | (Inr _, b') \<Rightarrow> (case oe_fault oe BoundaryAfterEngine of
            Some m \<Rightarrow> (Inl (OrchText m), s1, b')
          | None \<Rightarrow> (Inr (), CompleteOutbox (oe_env oe) s1 i, b')))"

definition ReconcileOne :: "'b orch_env \<Rightarrow> db \<Rightarrow> 'b \<Rightarrow> tracker \<Rightarrow> ((orch_error, unit) result \<times> db \<times> 'b \<times> tracker) option" where
  "ReconcileOne oe s b h =
     (case ClaimNext (oe_env oe) s (oe_claimStaleAfter oe) of
        Inl e \<Rightarrow> Some (Inl (OrchStore e), s, b, h)
      | Inr ((i, cmd, attempts), s1) \<Rightarrow> (case cmd of
          StartCommand p \<Rightarrow> reconcileStart oe i p s1 b h
        | SignalRunCommand p \<Rightarrow> (case reconcileSignal oe i p s1 b of (r, s', b') \<Rightarrow> Some (r, s', b', h))))"

text \<open>The health of the outbox after a dispatch; \<open>canceled\<close> says whether the error wraps a cancelled context.\<close>

definition outbox_diagnostic :: "string \<Rightarrow> string \<Rightarrow> health_diagnostic" where
  "outbox_diagnostic code message = \<lparr>hd_path = ''outbox'', hd_code = code, hd_message = message\<rparr>"

definition observeOutbox :: "db \<Rightarrow> (orch_error, unit) result \<Rightarrow> bool \<Rightarrow> tracker \<Rightarrow> tracker" where
  "observeOutbox s r canceled h =
     (case r of
        Inr _ \<Rightarrow> health_Clear h ''outbox''
      | Inl e \<Rightarrow>
          if e = OrchCapacity then h
          else if e \<notin> {OrchStore ErrNotFound, OrchEngine (EngStore ErrNotFound)} then
            (if canceled then h
             else health_Set h ''outbox'' (outbox_diagnostic ''reconcile_failed'' ''outbox reconciliation failed; inspect daemon logs''))
          else (let st = InspectOutboxStatus s in
            if ob_failed st > 0 then health_Set h ''outbox''
              (outbox_diagnostic ''retry_pending'' ''one or more outbox commands are waiting after a failed delivery'')
            else if ob_active st = 0 \<or> \<not> health_Has h ''outbox'' then health_Clear h ''outbox'' else h))"

text \<open>\<open>New\<close>: the tracker of a new control loop and the bound on active Runs from the options.\<close>

definition new_orchestrator_health :: tracker where
  "new_orchestrator_health =
     health_Set (health_Set NewTracker ''engine''
       \<lparr>hd_path = ''engine'', hd_code = ''starting'', hd_message = ''durable engine reconciliation has not completed''\<rparr>)
       ''outbox'' (outbox_diagnostic ''starting'' ''outbox reconciliation has not completed'')"

definition max_active_runs :: "int option \<Rightarrow> nat" where
  "max_active_runs options = (case options of Some n \<Rightarrow> if n > 0 then nat n else 1024 | None \<Rightarrow> 1024)"

text \<open>One round of \<open>loop\<close>: a dispatch, its health, and the redeliveries of the engine. The second and third argument say which
  errors wrap a cancelled context; \<open>oe_between 7\<close> is what other clients do before the engine reconciles.\<close>

definition loop_round :: "'b orch_env \<Rightarrow> (orch_error \<Rightarrow> bool) \<Rightarrow> (engine_error \<Rightarrow> bool) \<Rightarrow> db \<times> 'b \<times> tracker \<Rightarrow> (db \<times> 'b \<times> tracker) option" where
  "loop_round oe canceled ecanceled = (\<lambda>(s, b, h).
     map_option (\<lambda>(r, s1, b1, h1).
       (let h2 = observeOutbox s1 r (case r of Inl e \<Rightarrow> canceled e | Inr _ \<Rightarrow> False) h1 in
        case Adapter_Reconcile (oe_backend oe) (oe_env oe) (oe_between oe 7 s1) b1 of
          (Inr _, s2, b2) \<Rightarrow> (s2, b2, health_Clear h2 ''engine'')
        | (Inl e, s2, b2) \<Rightarrow> (s2, b2, if ecanceled e then h2 else health_Set h2 ''engine''
            \<lparr>hd_path = ''engine'', hd_code = ''reconcile_failed'', hd_message = ''durable engine reconciliation failed; inspect daemon logs''\<rparr>)))
     (ReconcileOne oe s b h))"

fun loop_rounds :: "nat \<Rightarrow> 'b orch_env \<Rightarrow> (orch_error \<Rightarrow> bool) \<Rightarrow> (engine_error \<Rightarrow> bool) \<Rightarrow> db \<times> 'b \<times> tracker \<Rightarrow> (db \<times> 'b \<times> tracker) option" where
  "loop_rounds 0 oe canceled ecanceled st = Some st"
| "loop_rounds (Suc n) oe canceled ecanceled st =
     Option.bind (loop_round oe canceled ecanceled st) (loop_rounds n oe canceled ecanceled)"

section \<open>What a dispatch relies on\<close>

definition run_cancelled :: "db \<Rightarrow> string \<Rightarrow> bool" where
  "run_cancelled t uid \<longleftrightarrow> (\<exists>run. find_run t uid = Some run \<and> run_phase run = ''cancelled'')"

text \<open>Other clients do not close the claimed command and do not revive a cancelled Run.\<close>

definition calm :: "'b orch_env \<Rightarrow> nat \<Rightarrow> string \<Rightarrow> bool" where
  "calm oe i uid \<longleftrightarrow> (\<forall>k t. outbox_ids t \<longrightarrow> outbox_ids (oe_between oe k t) \<and> (i \<in> open_commands t \<longrightarrow> i \<in> open_commands (oe_between oe k t)) \<and>
     (run_cancelled t uid \<longrightarrow> run_cancelled (oe_between oe k t) uid))"

text \<open>The plan a command names: what is stored under its hash is that plan, and a Run of the command has that hash.\<close>

definition pin_ok :: "start_payload \<Rightarrow> execution_plan \<Rightarrow> db \<Rightarrow> bool" where
  "pin_ok p plan t \<longleftrightarrow> (\<forall>run. find_run t (sp_runUID p) = Some run \<longrightarrow> run_plan_hash run = sp_planHash p) \<and>
     (\<forall>q. GetPlan t (sp_planHash p) = Inr q \<longrightarrow> q = plan)"

definition pin_kept :: "'b orch_env \<Rightarrow> start_payload \<Rightarrow> execution_plan \<Rightarrow> bool" where
  "pin_kept oe p plan \<longleftrightarrow> (\<forall>k t. pin_ok p plan t \<longrightarrow> pin_ok p plan (oe_between oe k t))"

lemma EnsureRun_outbox:
  assumes "EnsureRun env s p plan = Inr (created, s')"
  shows "open_commands s' = open_commands s" "outbox_ids s' = outbox_ids s"
proof -
  have "db_outbox s' = db_outbox s"
    using assms by (auto simp: EnsureRun_def insert_plan_def insert_run_def insert_run_event_def Let_def split: if_splits)
  then show "open_commands s' = open_commands s" "outbox_ids s' = outbox_ids s" by (simp_all add: open_commands_def outbox_ids_def)
qed

lemma EnsureRun_pin:
  assumes "EnsureRun env s p plan = Inr (created, s')" "pin_ok p plan s" "plan_planHash plan = sp_planHash p"
  shows "pin_ok p plan s'"
proof (cases "exists_row (\<lambda>r. run_uid r = sp_runUID p) (db_runs s)")
  case True
  then show ?thesis using assms by (simp add: EnsureRun_def)
next
  case False
  then have runs: "\<exists>r. db_runs s' = db_runs s @ [r] \<and> run_uid r = sp_runUID p \<and> run_plan_hash r = plan_planHash plan"
    and plans: "db_plans s' = db_plans (insert_plan (env_now env) plan s)"
    using assms(1) by (auto simp: EnsureRun_def insert_run_def insert_run_event_def Let_def insert_plan_def split: if_splits)
  have "run_plan_hash run = sp_planHash p" if "find_run s' (sp_runUID p) = Some run" for run
    using that runs assms(3) False find_run_SomeD[OF that] by (auto simp: exists_row_iff)
  moreover have "q = plan" if "GetPlan s' (sp_planHash p) = Inr q" for q
  proof (cases "exists_row (\<lambda>x. cp_hash x = plan_planHash plan) (db_plans s)")
    case True
    then have "GetPlan s (sp_planHash p) = Inr q" using that plans by (simp add: GetPlan_def find_plan_def insert_plan_def)
    then show ?thesis using assms(2) by (simp add: pin_ok_def)
  next
    case False
    then show ?thesis using that plans assms(3)
      by (auto simp: GetPlan_def find_plan_def insert_plan_def select_row_append exists_row_iff select_row_None split: option.splits dest: select_row_SomeD)
  qed
  ultimately show ?thesis by (simp add: pin_ok_def)
qed

lemma CompleteStart_cases:
  assumes ids: "outbox_ids s" and c: "CompleteStartIfRunCancelled env s i uid = (b, s')"
  shows "if b then i \<notin> open_commands s' \<and> (\<exists>c \<in> set (db_cancellations s'). can_run_uid c = uid) else s' = s"
proof -
  let ?P = "\<lambda>r. out_id r = i \<and> command_type (out_command r) = ''start-run'' \<and> out_aggregate_uid r = uid \<and>
    exists_row (\<lambda>c. can_run_uid c = uid) (db_cancellations s)"
  have b: "b \<longleftrightarrow> rows_affected ?P (db_outbox s) = 1" and s': "s' = s\<lparr>db_outbox := update_rows ?P (complete_row (env_now env)) (db_outbox s)\<rparr>"
    using c by (auto simp: CompleteStartIfRunCancelled_def Let_def)
  have uniq: "r = r'" if "r \<in> set (db_outbox s)" "r' \<in> set (db_outbox s)" "out_id r = out_id r'" for r r'
    using outbox_row_unique[OF ids that] .
  show ?thesis
  proof (cases "exists_row ?P (db_outbox s)")
    case True
    then obtain r where r: "r \<in> set (db_outbox s)" "?P r" by (auto simp: exists_row_iff)
    have "distinct (db_outbox s)" using ids by (auto simp: outbox_ids_def strict_sorted_iff distinct_map)
    moreover have "set (filter ?P (db_outbox s)) = {r}" using r uniq by auto
    ultimately have "length (filter ?P (db_outbox s)) = 1" using distinct_card[of "filter ?P (db_outbox s)"] by simp
    then have "b" using b by (simp add: rows_affected_def)
    moreover have "i \<notin> open_commands s'"
      unfolding s' by (subst open_update) (use r uniq in \<open>auto simp: complete_row_def\<close>)
    moreover have "\<exists>c \<in> set (db_cancellations s'). can_run_uid c = uid" using r(2) s' by (auto simp: exists_row_iff)
    ultimately show ?thesis by simp
  next
    case False
    then have "rows_affected ?P (db_outbox s) = 0" by (simp add: rows_affected_0)
    moreover have "s' = s" using False unfolding s' by (simp add: update_rows_noop exists_row_iff)
    ultimately show ?thesis using b by simp
  qed
qed

lemma retry_open: "i \<in> open_commands s \<Longrightarrow> i \<in> open_commands (retry_command oe i e d s)"
  by (simp add: retry_command_def RetryOutbox_open)

definition cancelled_or_requested :: "db \<Rightarrow> string \<Rightarrow> bool" where
  "cancelled_or_requested t uid \<longleftrightarrow> run_cancelled t uid \<or> (\<exists>c \<in> set (db_cancellations t). can_run_uid c = uid)"

lemma start_engine_spec:
  assumes ok: "backend_ok (oe_backend oe) insts" and calm: "calm oe i (sp_runUID p)"
    and s: "outbox_ids s" "i \<in> open_commands s" and r: "start_engine oe i p plan s b = (r, s', b')"
  shows "(insts b' = insts b \<or> (sp_runUID p \<notin> fst ` set (insts b) \<and> insts b' = insts b @ [(sp_runUID p, plan, Some (sp_input p))])) \<and>
    (case r of Inr _ \<Rightarrow> i \<notin> open_commands s' \<and> (sp_runUID p \<in> fst ` set (insts b') \<or> cancelled_or_requested s' (sp_runUID p))
     | Inl e \<Rightarrow> i \<in> open_commands s')"
proof (cases "oe_fault oe BoundaryAfterRun")
  case (Some m)
  then show ?thesis using r s by (auto simp: start_engine_def)
next
  case None
  obtain c s1 where c: "CompleteStartIfRunCancelled (oe_env oe) s i (sp_runUID p) = (c, s1)" by fastforce
  note cc = CompleteStart_cases[OF s(1) c]
  show ?thesis
  proof (cases c)
    case True
    then show ?thesis using r None c cc by (auto simp: start_engine_def cancelled_or_requested_def)
  next
    case False
    then have s1: "s1 = s" using cc by simp
    let ?s2 = "oe_between oe 5 s" and ?s3 = "oe_between oe 6 (oe_between oe 5 s)"
    have calm': "outbox_ids ?s2" "i \<in> open_commands ?s2" "outbox_ids ?s3" "i \<in> open_commands ?s3"
      "run_cancelled ?s2 (sp_runUID p) \<Longrightarrow> run_cancelled ?s3 (sp_runUID p)"
      using calm s unfolding calm_def by blast+
    obtain x b1 where x: "Adapter_Start (oe_backend oe) ?s2 ?s3 (sp_runUID p) plan (Some (sp_input p)) b = (x, b1)" by fastforce
    note st = Adapter_Start_spec[OF ok x]
    show ?thesis
    proof (cases x)
      case (Inl e)
      then have "b' = b1" "r = Inl (OrchEngine e)" "s' = retry_command oe i (OrchEngine e) second ?s3"
        using r None c False s1 x by (simp_all add: start_engine_def Let_def)
      then show ?thesis using st calm'(4) retry_open by auto
    next
      case (Inr u)
      show ?thesis
      proof (cases "oe_fault oe BoundaryAfterEngine")
        case (Some m)
        then have e: "b' = b1" "r = Inl (OrchText m)" "s' = ?s3"
          using r None c False s1 x Inr by (simp_all add: start_engine_def Let_def)
        then show ?thesis using st calm'(4) by auto
      next
        case fault: None
        have e: "b' = b1" "r = Inr ()" "s' = CompleteOutbox (oe_env oe) ?s3 i"
          using r None c False s1 x Inr fault by (simp_all add: start_engine_def Let_def)
        have "run_cancelled ?s2 (sp_runUID p) \<Longrightarrow> run_cancelled s' (sp_runUID p)"
          using calm'(5) e(3) by (simp add: run_cancelled_def CompleteOutbox_def find_run_def)
        then show ?thesis using st Inr e CompleteOutbox_open(1)[of "oe_env oe" ?s3 i]
          by (auto simp: cancelled_or_requested_def run_cancelled_def)
      qed
    qed
  qed
qed

text \<open>C2: whatever other clients do meanwhile (short of closing the claimed command), a dispatch of a start command creates at most
  one workflow instance, that of the Run the command names, never a second one, and with exactly the plan pinned when
  the occurrence was accepted. The command is closed only when the Run has an instance or was cancelled; after
  every error, and after a crash at any boundary, it is still open.\<close>

theorem start_dispatch_is_safe:
  assumes ok: "backend_ok (oe_backend oe) insts" and calm: "calm oe i (sp_runUID p)"
    and pin: "pin_ok p plan s" "pin_kept oe p plan" "plan_planHash plan = sp_planHash p" "sp_planHash p \<noteq> []"
    and s: "outbox_ids s" "i \<in> open_commands s"
    and r: "reconcileStart oe i p s b h = Some (r, s', b', h')"
  shows "(insts b' = insts b \<or> (sp_runUID p \<notin> fst ` set (insts b) \<and> insts b' = insts b @ [(sp_runUID p, plan, Some (sp_input p))])) \<and>
    (case r of Inr _ \<Rightarrow> i \<notin> open_commands s' \<and> (sp_runUID p \<in> fst ` set (insts b') \<or> cancelled_or_requested s' (sp_runUID p))
     | Inl e \<Rightarrow> i \<in> open_commands s')"
proof (cases "GetPlan s (sp_planHash p)")
  case (Inl e)
  then show ?thesis using r pin(4) s(2) retry_open by (auto simp: reconcileStart_def start_plan_def)
next
  case (Inr q)
  then have q: "GetPlan s (sp_planHash p) = Inr plan" using pin(1) by (simp add: pin_ok_def)
  let ?s1 = "oe_between oe 1 s"
  let ?s2 = "oe_between oe 3 (oe_between oe 2 ?s1)"
  have s2: "outbox_ids ?s2" "i \<in> open_commands ?s2" using calm s unfolding calm_def by blast+
  have p2: "pin_ok p plan ?s2" using pin(1,2) unfolding pin_kept_def by blast
  obtain v h1 where v: "capacity_check oe p ?s1 h = (v, h1)" by fastforce
  show ?thesis
  proof (cases v)
    case (Some ed)
    obtain e d where ed: "ed = (e, d)" by fastforce
    then show ?thesis using r pin(4) q v Some s2(2) retry_open by (auto simp: reconcileStart_def start_plan_def Let_def)
  next
    case None
    show ?thesis
    proof (cases "EnsureRun (oe_env oe) ?s2 p plan")
      case (Inl e)
      then show ?thesis using r pin(4) q v None s2(2) retry_open by (auto simp: reconcileStart_def start_plan_def Let_def)
    next
      case (Inr cs)
      obtain created s3 where e: "EnsureRun (oe_env oe) ?s2 p plan = Inr (created, s3)" using Inr by (cases cs) auto
      let ?s4 = "oe_between oe 4 s3"
      have s3: "outbox_ids s3" "i \<in> open_commands s3" "pin_ok p plan s3"
        using EnsureRun_outbox[OF e] EnsureRun_pin[OF e p2 pin(3)] s2 by auto
      then have s4: "outbox_ids ?s4" "i \<in> open_commands ?s4" "pin_ok p plan ?s4"
        using calm pin(2) unfolding calm_def pin_kept_def by blast+
      show ?thesis
      proof (cases "pinned_plan created p plan ?s4")
        case (Inl m)
        then show ?thesis using r pin(4) q v None e s4(2) retry_open by (auto simp: reconcileStart_def start_plan_def Let_def)
      next
        case plan': (Inr plan')
        then have "plan' = plan" using s4(3) by (auto simp: pinned_plan_def pin_ok_def GetRun_def split: if_splits)
        then have "start_engine oe i p plan ?s4 b = (r, s', b')"
          using r pin(4) q v None e plan' by (auto simp: reconcileStart_def start_plan_def Let_def split: prod.splits)
        then show ?thesis by (rule start_engine_spec[OF ok calm s4(1,2)])
      qed
    qed
  qed
qed

section \<open>Capacity\<close>

definition active_runs :: "db \<Rightarrow> nat" where
  "active_runs s = length (filter (\<lambda>r. \<not> terminalRunPhase (run_phase r)) (db_runs s))"

text \<open>Other clients of the store finish Runs but do not create them: only the dispatcher does, and retention removes a
  Run only when its command is closed.\<close>

definition sole_dispatcher :: "'b orch_env \<Rightarrow> bool" where
  "sole_dispatcher oe \<longleftrightarrow> (\<forall>k t. active_runs (oe_between oe k t) \<le> active_runs t \<and>
     (\<forall>uid. (find_run (oe_between oe k t) uid = None) = (find_run t uid = None)))"

lemma active_excluding: "find_run s uid = None \<Longrightarrow> CountActiveRunsExcluding s uid = active_runs s"
  unfolding CountActiveRunsExcluding_def active_runs_def
  by (rule arg_cong[where f = length], rule filter_cong) (auto simp: find_run_def select_row_None)

lemma EnsureRun_active:
  assumes "EnsureRun env s p plan = Inr (created, s')"
  shows "active_runs s' \<le> active_runs s + (if find_run s (sp_runUID p) = None then 1 else 0)"
  using assms by (auto simp: EnsureRun_def active_runs_def insert_run_def insert_run_event_def insert_plan_def Let_def
      find_run_def select_row_None exists_row_iff split: if_splits)

lemma same_runs_active: "db_runs s = db_runs t \<Longrightarrow> active_runs s = active_runs t"
  by (simp add: active_runs_def)

lemma retry_active: "active_runs (retry_command oe i e d s) = active_runs s"
  by (rule same_runs_active) (simp add: retry_command_def RetryOutbox_def)

lemma start_engine_active:
  assumes sole: "sole_dispatcher oe" and r: "start_engine oe i p plan s b = (r, s', b')"
  shows "active_runs s' \<le> active_runs s"
proof (cases "oe_fault oe BoundaryAfterRun")
  case None
  obtain c s1 where c: "CompleteStartIfRunCancelled (oe_env oe) s i (sp_runUID p) = (c, s1)" by fastforce
  then have s1: "active_runs s1 = active_runs s"
    by (intro same_runs_active) (auto simp: CompleteStartIfRunCancelled_def Let_def)
  let ?s2 = "oe_between oe 5 s1" and ?s3 = "oe_between oe 6 (oe_between oe 5 s1)"
  have "active_runs ?s3 \<le> active_runs ?s2" "active_runs ?s2 \<le> active_runs s1" using sole unfolding sole_dispatcher_def by blast+
  then have s3: "active_runs ?s3 \<le> active_runs s" using s1 by simp
  have co: "active_runs (CompleteOutbox (oe_env oe) t i) = active_runs t" for t
    by (rule same_runs_active) (simp add: CompleteOutbox_def)
  show ?thesis
  proof (cases c)
    case True
    then show ?thesis using r None c s1 by (simp add: start_engine_def)
  next
    case False
    then show ?thesis using r None c s3
      by (auto simp: start_engine_def Let_def retry_active co split: prod.splits sum.splits option.splits)
  qed
qed (use r in \<open>simp add: start_engine_def\<close>)

lemma reconcileStart_active:
  assumes sole: "sole_dispatcher oe" and r: "reconcileStart oe i p s b h = Some (r, s', b', h')"
  shows "active_runs s' \<le> max (oe_maxActiveRuns oe) (active_runs s)"
proof (cases "start_plan oe p s")
  case None
  then show ?thesis using r by (simp add: reconcileStart_def)
next
  case (Some pr)
  show ?thesis
  proof (cases pr)
    case (Inl e)
    then show ?thesis using r Some by (auto simp: reconcileStart_def retry_active)
  next
    case (Inr plan)
    let ?s1 = "oe_between oe 1 s" and ?s1' = "oe_between oe 2 (oe_between oe 1 s)"
    let ?s2 = "oe_between oe 3 ?s1'"
    have le: "active_runs ?s2 \<le> active_runs ?s1'" "active_runs ?s1' \<le> active_runs ?s1" "active_runs ?s1 \<le> active_runs s"
      using sole unfolding sole_dispatcher_def by blast+
    have same: "find_run ?s2 (sp_runUID p) = None \<longleftrightarrow> find_run ?s1' (sp_runUID p) = None"
      "find_run ?s1' (sp_runUID p) = None \<longleftrightarrow> find_run ?s1 (sp_runUID p) = None"
      using sole unfolding sole_dispatcher_def by blast+
    obtain v h1 where v: "capacity_check oe p ?s1 h = (v, h1)" by fastforce
    show ?thesis
    proof (cases v)
      case (Some ed)
      then show ?thesis using r \<open>start_plan oe p s = Some pr\<close> Inr v le
        by (cases ed) (auto simp: reconcileStart_def Let_def retry_active)
    next
      case None
      have room: "find_run ?s2 (sp_runUID p) = None \<Longrightarrow> active_runs ?s1' < oe_maxActiveRuns oe"
        using v None same active_excluding[of ?s1' "sp_runUID p"]
        by (auto simp: capacity_check_def GetRun_def split: if_splits option.splits)
      show ?thesis
      proof (cases "EnsureRun (oe_env oe) ?s2 p plan")
        case (Inl e)
        then show ?thesis using r \<open>start_plan oe p s = Some pr\<close> \<open>pr = Inr plan\<close> v None le
          by (auto simp: reconcileStart_def Let_def retry_active)
      next
        case cs: (Inr cs)
        obtain created s3 where e: "EnsureRun (oe_env oe) ?s2 p plan = Inr (created, s3)" using cs by (cases cs) auto
        have "active_runs s3 \<le> max (oe_maxActiveRuns oe) (active_runs s)"
          using EnsureRun_active[OF e] room le by (auto split: if_splits)
        moreover have "active_runs (oe_between oe 4 s3) \<le> active_runs s3" using sole unfolding sole_dispatcher_def by blast
        moreover have "active_runs s' \<le> active_runs (oe_between oe 4 s3)"
          using r \<open>start_plan oe p s = Some pr\<close> \<open>pr = Inr plan\<close> v None e start_engine_active[OF sole]
          by (auto simp: reconcileStart_def Let_def retry_active split: prod.splits sum.splits)
        ultimately show ?thesis by linarith
      qed
    qed
  qed
qed

lemma ReconcileOne_active:
  assumes sole: "sole_dispatcher oe" and r: "ReconcileOne oe s b h = Some (r, s', b', h')"
  shows "active_runs s' \<le> max (oe_maxActiveRuns oe) (active_runs s)"
proof (cases "ClaimNext (oe_env oe) s (oe_claimStaleAfter oe)")
  case (Inl e)
  then show ?thesis using r by (simp add: ReconcileOne_def)
next
  case (Inr x)
  then obtain i cmd n s1 where x: "ClaimNext (oe_env oe) s (oe_claimStaleAfter oe) = Inr ((i, cmd, n), s1)" by (metis prod_cases3 prod.exhaust)
  then have s1: "active_runs s1 = active_runs s"
    by (intro same_runs_active) (auto simp: ClaimNext_def lease_def elim: claim_Inr)
  have sg: "active_runs (oe_between oe 1 s1) \<le> active_runs s1" using sole unfolding sole_dispatcher_def by blast
  have co: "active_runs (CompleteOutbox (oe_env oe) t i) = active_runs t" for t
    by (rule same_runs_active) (simp add: CompleteOutbox_def)
  show ?thesis
  proof (cases cmd)
    case (StartCommand p)
    then show ?thesis using r x reconcileStart_active[OF sole, of i p s1] s1 by (simp add: ReconcileOne_def)
  next
    case (SignalRunCommand p)
    then show ?thesis using r x s1 sg
      by (auto simp: ReconcileOne_def reconcileSignal_def Let_def retry_active co split: prod.splits sum.splits option.splits)
  qed
qed

lemma redeliver_approvals_runs: "redeliver_approvals be ps s b = (r, s', b') \<Longrightarrow> db_runs s' = db_runs s"
  by (induction be ps s b rule: redeliver_approvals.induct) (auto simp: MarkApprovalSignaled_def split: prod.splits sum.splits if_splits)

lemma redeliver_cancellations_runs: "redeliver_cancellations be env cs s b = (r, s', b') \<Longrightarrow> db_runs s' = db_runs s"
  by (induction be env cs s b rule: redeliver_cancellations.induct)
    (auto simp: MarkRunCancellationDelivered_def MarkRunCancellationDeliveredIfStartImpossible_def Let_def split: prod.splits sum.splits if_splits)

lemma Adapter_Reconcile_runs: "Adapter_Reconcile be env s b = (r, s', b') \<Longrightarrow> db_runs s' = db_runs s"
  by (auto simp: Adapter_Reconcile_def split: prod.splits sum.splits dest!: redeliver_approvals_runs redeliver_cancellations_runs)

lemma loop_round_active:
  assumes sole: "sole_dispatcher oe" and r: "loop_round oe cn ec (s, b, h) = Some (s', b', h')"
  shows "active_runs s' \<le> max (oe_maxActiveRuns oe) (active_runs s)"
proof -
  obtain x s1 b1 h1 where o1: "ReconcileOne oe s b h = Some (x, s1, b1, h1)" using r by (auto simp: loop_round_def)
  obtain y s2 b2 where o2: "Adapter_Reconcile (oe_backend oe) (oe_env oe) (oe_between oe 7 s1) b1 = (y, s2, b2)" by (metis prod_cases3)
  have "s' = s2" using r o1 o2 by (auto simp: loop_round_def Let_def split: sum.splits)
  then have "active_runs s' = active_runs (oe_between oe 7 s1)" using Adapter_Reconcile_runs[OF o2] by (simp add: active_runs_def)
  also have "\<dots> \<le> active_runs s1" using sole unfolding sole_dispatcher_def by blast
  finally show ?thesis using ReconcileOne_active[OF sole o1] by simp
qed

lemma loop_rounds_active:
  assumes sole: "sole_dispatcher oe" and r: "loop_rounds n oe canceled ecanceled (s, b, h) = Some (s', b', h')"
  shows "active_runs s' \<le> max (oe_maxActiveRuns oe) (active_runs s)"
  using r
proof (induction n arbitrary: s b h)
  case (Suc n)
  obtain s1 b1 h1 where o1: "loop_round oe canceled ecanceled (s, b, h) = Some (s1, b1, h1)"
    using Suc.prems by (cases "loop_round oe canceled ecanceled (s, b, h)") auto
  then show ?case using Suc loop_round_active[OF sole o1] by fastforce
qed simp

section \<open>A dispatch that succeeds\<close>

definition sample_orch :: "((string \<times> bool) \<times> execution_plan \<times> json option) list orch_env" where
  "sample_orch = \<lparr>oe_env = Samples.sample_env, oe_compiler = Flow_Compiler.sample_env, oe_backend = list_backend, oe_fault = (\<lambda>_. None),
     oe_claimStaleAfter = 30, oe_maxActiveRuns = 1, oe_capacityRetryAfter = 1, oe_message = (\<lambda>_. []), oe_between = (\<lambda>_ s. s)\<rparr>"

definition sample_start :: start_payload where
  "sample_start = \<lparr>sp_runUID = ''run1'', sp_receiptUID = ''receipt1'', sp_flowName = ''build'', sp_namespace = ''default'',
     sp_planHash = ''hash'', sp_input = JObj [], sp_idempotencyKey = ''k''\<rparr>"

definition sample_queued :: "string \<Rightarrow> nat \<Rightarrow> time option \<Rightarrow> db" where
  "sample_queued st n c = (insert_plan 1 sample_plan empty_db)\<lparr>db_outbox := [\<lparr>out_id = 1, out_command = StartCommand sample_start,
     out_aggregate_uid = ''run1'', out_idempotency_key = ''k'', out_state = st, out_attempts = n, out_available = 5,
     out_claimed = c, out_completed = None, out_last_error = []\<rparr>]\<rparr>"

lemmas sample_dispatch_simps = sample_orch_def sample_start_def sample_queued_def empty_db_def insert_plan_def sample_plan_def
  exists_row_iff select_row_def

lemma sample_start_facts:
  "st \<noteq> ''completed'' \<Longrightarrow> 1 \<in> open_commands (sample_queued st n c)"
  "outbox_ids (sample_queued st n c)" "pin_ok sample_start sample_plan (sample_queued st n c)"
  "calm sample_orch 1 ''run1''" "pin_kept sample_orch sample_start sample_plan" "sole_dispatcher sample_orch"
  by (simp_all add: outbox_ids_def open_commands_def pin_ok_def calm_def pin_kept_def sole_dispatcher_def GetPlan_def find_plan_def
      find_run_def sample_dispatch_simps)

definition sample_dispatched :: "string \<Rightarrow> nat \<Rightarrow> time option \<Rightarrow> db" where
  "sample_dispatched st n c = (sample_queued st n c)\<lparr>
     db_runs := [\<lparr>run_uid = ''run1'', run_flow_uid = ''flow-uid'', run_receipt_uid = ''receipt1'', run_plan_hash = ''hash'',
       run_interpreter = InterpreterVersion, run_phase = ''pending'', run_input = JObj [], run_created = 5, run_updated = 5, run_completed = None\<rparr>],
     db_run_events := [\<lparr>re_run_uid = ''run1'', re_sequence = 1, re_node_id = [], re_attempt = 0, re_type = ''run.accepted'',
       re_payload = JObj [], re_occurred = 5\<rparr>]\<rparr>"

lemma sample_dispatch_steps:
  "start_plan sample_orch sample_start (sample_queued st n c) = Some (Inr sample_plan)"
  "capacity_check sample_orch sample_start (sample_queued st n c) [] = (None, [])"
  "EnsureRun (oe_env sample_orch) (sample_queued st n c) sample_start sample_plan = Inr (True, (sample_dispatched st n c))"
  "start_engine sample_orch 1 sample_start sample_plan (sample_dispatched st n c) [] =
     (Inr (), CompleteOutbox (oe_env sample_orch) (sample_dispatched st n c) 1, [((''run1'', False), sample_plan, Some (JObj []))])"
  subgoal by (simp add: start_plan_def GetPlan_def find_plan_def sample_dispatch_simps)
  subgoal by (simp add: capacity_check_def GetRun_def find_run_def CountActiveRunsExcluding_def health_Clear_def map_del_def sample_dispatch_simps)
  subgoal by (simp add: EnsureRun_def insert_run_def insert_run_event_def sample_dispatched_def Samples.sample_env_def sample_dispatch_simps)
  subgoal by (simp add: start_engine_def CompleteStartIfRunCancelled_def rows_affected_def update_rows_def Adapter_Start_def GetRun_def
      find_run_def findInstance_def list_backend_def cancelCreatedRunIfRequested_def sample_dispatched_def sample_dispatch_simps)
  done

lemma sample_dispatch:
  "reconcileStart sample_orch 1 sample_start (sample_queued st n c) [] [] =
     Some (Inr (), CompleteOutbox (oe_env sample_orch) (sample_dispatched st n c) 1, [((''run1'', False), sample_plan, Some (JObj []))], [])"
  using sample_dispatch_steps by (simp add: reconcileStart_def pinned_plan_def sample_orch_def)

theorem start_dispatch_is_safe_witness:
  "\<exists>s' b' h'. reconcileStart sample_orch 1 sample_start (sample_queued ''inflight'' 1 (Some 5)) [] [] = Some (Inr (), s', b', h') \<and>
     list_instances b' = [(''run1'', sample_plan, Some (JObj []))] \<and> 1 \<notin> open_commands s'"
proof -
  obtain s' b' h' where r: "reconcileStart sample_orch 1 sample_start (sample_queued ''inflight'' 1 (Some 5)) [] [] = Some (Inr (), s', b', h')" "b' \<noteq> []"
    using sample_dispatch by blast
  have ok: "backend_ok (oe_backend sample_orch) list_instances" using list_backend_ok by (simp add: sample_orch_def)
  have uid: "sp_runUID sample_start = ''run1''" "sp_input sample_start = JObj []" "sp_planHash sample_start = ''hash''"
    by (simp_all add: sample_start_def)
  have h: "plan_planHash sample_plan = sp_planHash sample_start" "sp_planHash sample_start \<noteq> []"
    by (simp_all add: sample_start_def sample_plan_def)
  have "list_instances b' = [(''run1'', sample_plan, Some (JObj []))] \<and> 1 \<notin> open_commands s'"
    using start_dispatch_is_safe[OF ok sample_start_facts(4)[folded uid(1)] sample_start_facts(3,5) h sample_start_facts(2,1) r(1)] r(2) uid
    by (auto simp: list_instances_def)
  then show ?thesis using r(1) by blast
qed

lemma sample_claim:
  "ClaimNext (oe_env sample_orch) (sample_queued ''pending'' 0 None) 30 = Inr ((1, StartCommand sample_start, 1), sample_queued ''inflight'' 1 (Some 5))"
  by (simp add: ClaimNext_def claim_def oldest_def eligible_def lease_def update_rows_def Samples.sample_env_def sample_dispatch_simps)

lemma sample_round:
  obtains s' b' h' where "loop_rounds 1 sample_orch (\<lambda>_. False) (\<lambda>_. False) (sample_queued ''pending'' 0 None, [], []) = Some (s', b', h')"
    "length (db_runs s') = 1"
proof -
  let ?s1 = "CompleteOutbox (oe_env sample_orch) (sample_dispatched ''inflight'' 1 (Some 5)) 1"
  obtain b1 h1 where one: "ReconcileOne sample_orch (sample_queued ''pending'' 0 None) [] [] = Some (Inr (), ?s1, b1, h1)"
    using sample_claim sample_dispatch[of "''inflight''" 1 "Some 5"] by (simp add: ReconcileOne_def sample_orch_def[THEN arg_cong, of oe_claimStaleAfter, simplified])
  have bt: "oe_between sample_orch 7 ?s1 = ?s1" by (simp add: sample_orch_def)
  obtain y s' b' where rec: "Adapter_Reconcile (oe_backend sample_orch) (oe_env sample_orch) ?s1 b1 = (y, s', b')" by (metis prod_cases3)
  have runs: "db_runs s' = db_runs ?s1" by (rule Adapter_Reconcile_runs[OF rec])
  obtain h' where r: "loop_rounds 1 sample_orch (\<lambda>_. False) (\<lambda>_. False) (sample_queued ''pending'' 0 None, [], []) = Some (s', b', h')"
    using one rec bt by (cases y) (simp_all add: loop_round_def)
  moreover have "length (db_runs s') = 1" unfolding runs by (simp add: CompleteOutbox_def sample_dispatched_def)
  ultimately show ?thesis by (rule that)
qed

lemma sample_queued_idle: "active_runs (sample_queued st n c) = 0"
  by (simp add: active_runs_def sample_dispatch_simps)

end
