(* ===== verification/Trigger_Controller.thy ===== *)
theory Trigger_Controller
  imports Orchestrator
begin

text \<open>
  Schedules and provider subscriptions, \<open>internal/trigger/controller.go\<close>.

  The cron parser and the time zone database are parameters: \<open>sl_next\<close> is \<open>Schedule.Next\<close> of a cron line in a zone, and the zero
  time it returns when nothing matches within five years is the time 0. Times are instants, so that \<open>In\<close> and \<open>UTC\<close> only
  change how they are shown. The acceptor is the orchestrator, as in the daemon; \<open>oe_between\<close> is again what other
  clients do between two transactions. A pass over the schedules is a function of the clock it is given.

  The theorems: a pass that succeeds moves the cursor of a schedule to its latest due occurrence, which is accepted or recorded as
  skipped, and accepts no other one; a schedule that cannot be scanned blocks the schedules after it for ever; after a
  synchronisation exactly the wanted subscriptions run.
\<close>

record schedule_lib =
  sl_location :: "string \<Rightarrow> bool"
  sl_next :: "string \<Rightarrow> string \<Rightarrow> (time \<Rightarrow> time) option"

datatype trigger_error = TrgText string | TrgStore store_error | TrgOrch orch_error

definition maxCatchupScan :: nat where
  "maxCatchupScan = 10000"

definition parseSchedule :: "schedule_lib \<Rightarrow> schedule_trigger \<Rightarrow> (string, time \<Rightarrow> time) result" where
  "parseSchedule sl spec =
     (if length (str_fields (sched_cron spec)) \<noteq> 5 then Inl ''schedule cron must contain exactly five fields''
      else let timezone = (if sched_timezone spec = [] then ''UTC'' else sched_timezone spec) in
        if \<not> sl_location sl timezone then Inl (''load timezone '' @ timezone)
        else (case sl_next sl (sched_cron spec) timezone of
            None \<Rightarrow> Inl ''parse cron''
          | Some next_time \<Rightarrow>
              if sched_misfirePolicy spec \<noteq> [] \<and> sched_misfirePolicy spec \<noteq> ''fireOnce'' then Inl ''unsupported misfirePolicy''
              else if sched_concurrencyPolicy spec \<noteq> [] \<and> sched_concurrencyPolicy spec \<noteq> ''forbid'' then Inl ''unsupported concurrencyPolicy''
              else Inr next_time))"

definition OccurrenceIdentity :: "object_meta \<Rightarrow> time \<Rightarrow> string" where
  "OccurrenceIdentity meta scheduled = meta_uid meta @ '':'' @ itoa (meta_generation meta) @ '':'' @ rfc3339_text scheduled"

definition trigger_enabled :: "trigger_spec \<Rightarrow> bool" where
  "trigger_enabled spec = (case trg_enabled spec of None \<Rightarrow> True | Some b \<Rightarrow> b)"

section \<open>Schedules\<close>

fun next_times :: "nat \<Rightarrow> (time \<Rightarrow> time) \<Rightarrow> time \<Rightarrow> time list" where
  "next_times 0 f cursor = []"
| "next_times (Suc n) f cursor = f cursor # next_times n f (f cursor)"

definition NextOccurrences :: "schedule_lib \<Rightarrow> trigger_spec \<Rightarrow> time \<Rightarrow> int \<Rightarrow> (string, time list) result" where
  "NextOccurrences sl spec from_time n =
     (case trg_schedule spec of
        None \<Rightarrow> Inl ''trigger is not a schedule''
      | Some sched \<Rightarrow> bind_res (parseSchedule sl sched) (\<lambda>f. Inr (next_times (if n \<le> 0 \<or> n > 100 then 5 else nat n) f from_time)))"

text \<open>The loop that collects the due occurrences.\<close>

fun scan_due :: "nat \<Rightarrow> (time \<Rightarrow> time) \<Rightarrow> time \<Rightarrow> time \<Rightarrow> time list" where
  "scan_due 0 f now cursor = []"
| "scan_due (Suc n) f now cursor = (if f cursor > now then [] else f cursor # scan_due n f now (f cursor))"

text \<open>\<open>Time.Sub\<close>, which saturates.\<close>

definition time_sub :: "time \<Rightarrow> time \<Rightarrow> duration" where
  "time_sub a b = max (- (2 ^ 63)) (min (2 ^ 63 - 1) (int a - int b))"

definition advance_schedule :: "'b orch_env \<Rightarrow> string \<Rightarrow> time \<Rightarrow> db \<Rightarrow> (trigger_error, unit) result \<times> db" where
  "advance_schedule oe uid to s =
     (case AdvanceTriggerCursor (oe_env oe) s uid to of Inl e \<Rightarrow> (Inl (TrgStore e), s) | Inr s' \<Rightarrow> (Inr (), s'))"

definition skip_occurrence :: "'b orch_env \<Rightarrow> object_meta \<Rightarrow> string \<Rightarrow> time \<Rightarrow> db \<Rightarrow> (trigger_error, unit) result \<times> db" where
  "skip_occurrence oe meta reason selected s =
     advance_schedule oe (meta_uid meta) selected (oe_between oe 8
       (RecordTriggerSkip (oe_env oe) s (meta_uid meta) (OccurrenceIdentity meta selected) reason selected))"

definition schedule_payload :: "object_meta \<Rightarrow> time \<Rightarrow> json" where
  "schedule_payload meta selected = JObj [(''trigger'', JObj [(''occurrenceId'', JStr (OccurrenceIdentity meta selected)),
     (''scheduledAt'', JStr (rfc3339_text selected)), (''type'', JStr ''schedule'')])]"

text \<open>The part of \<open>reconcileSchedule\<close> for an occurrence within the deadline.\<close>

definition fire_schedule :: "'b orch_env \<Rightarrow> string \<Rightarrow> string \<Rightarrow> object_meta \<Rightarrow> trigger_spec \<Rightarrow> schedule_trigger \<Rightarrow> time \<Rightarrow> db
    \<Rightarrow> ((trigger_error, unit) result \<times> db) option" where
  "fire_schedule oe receiptUID runUID meta spec sched selected s =
     (let uid = meta_uid meta; identity = OccurrenceIdentity meta selected in
      case ReceiptByOccurrence s uid identity of
        Inr _ \<Rightarrow> Some (advance_schedule oe uid selected (oe_between oe 9 s))
      | Inl e \<Rightarrow>
          if e \<noteq> ErrNotFound then Some (Inl (TrgStore e), s)
          else let s1 = oe_between oe 10 s in
            if (sched_concurrencyPolicy sched = [] \<or> sched_concurrencyPolicy sched = ''forbid'') \<and> HasActiveRunForTrigger s1 uid
            then Some (skip_occurrence oe meta ''concurrency-forbid'' selected (oe_between oe 11 s1))
            else let s2 = oe_between oe 12 s1 in
              map_option (\<lambda>r. case r of Inl e \<Rightarrow> (Inl (TrgOrch e), s2) | Inr (_, s3) \<Rightarrow> advance_schedule oe uid selected (oe_between oe 13 s3))
                (Orch_AcceptTrigger oe receiptUID runUID s2 uid (meta_generation meta) identity (trg_flow spec) (meta_namespace meta)
                   (Some (schedule_payload meta selected)) True))"

definition reconcileSchedule :: "'b orch_env \<Rightarrow> schedule_lib \<Rightarrow> string \<Rightarrow> string \<Rightarrow> time \<Rightarrow> object_meta \<Rightarrow> trigger_spec \<Rightarrow> schedule_trigger \<Rightarrow> db
    \<Rightarrow> ((trigger_error, unit) result \<times> db) option" where
  "reconcileSchedule oe sl receiptUID runUID now meta spec sched s =
     (case parseSchedule sl sched of
        Inl e \<Rightarrow> Some (Inl (TrgText e), s)
      | Inr f \<Rightarrow> (case EnsureTriggerState (oe_env oe) s (meta_uid meta) (meta_generation meta) (trigger_enabled spec) now of
          Inl e \<Rightarrow> Some (Inl (TrgStore e), s)
        | Inr (st, s1) \<Rightarrow>
            if \<not> tst_enabled st then Some (Inr (), s1)
            else let due = scan_due maxCatchupScan f now (tst_cursor st) in
              if length due = maxCatchupScan \<and> \<not> f (last due) > now then Some (Inl (TrgText ''schedule catch-up scan exceeded 10000 occurrences''), s1)
              else if due = [] then Some (Inr (), s1)
              else (case ParseDuration (sched_startingDeadline sched) 3600000000000 of
                  Inl e \<Rightarrow> Some (Inl (TrgText e), s1)
                | Inr deadline \<Rightarrow>
                    if time_sub now (last due) > deadline
                    then Some (skip_occurrence oe meta ''misfire-deadline'' (last due) (oe_between oe 14 s1))
                    else fire_schedule oe receiptUID runUID meta spec sched (last due) (oe_between oe 14 s1))))"

text \<open>The loop of \<open>ReconcileSchedules\<close>; \<open>fresh\<close> gives the new receipt and Run for a Trigger.\<close>

fun reconcile_documents :: "'b orch_env \<Rightarrow> schedule_lib \<Rightarrow> (string \<Rightarrow> string \<times> string) \<Rightarrow> time \<Rightarrow> document list \<Rightarrow> db
    \<Rightarrow> ((trigger_error, unit) result \<times> db) option" where
  "reconcile_documents oe sl fresh now [] s = Some (Inr (), s)"
| "reconcile_documents oe sl fresh now (doc # docs) s =
     (case DecodeTrigger (env_lib (oe_env oe)) (doc_JSON doc) of
        Inl e \<Rightarrow> Some (Inl (TrgText e), s)
      | Inr (meta, spec) \<Rightarrow> (case trg_schedule spec of
          None \<Rightarrow> reconcile_documents oe sl fresh now docs s
        | Some sched \<Rightarrow> Option.bind (reconcileSchedule oe sl (fst (fresh (meta_uid meta))) (snd (fresh (meta_uid meta))) now meta spec sched s) (\<lambda>(r, s').
            case r of Inl e \<Rightarrow> Some (Inl e, s') | Inr _ \<Rightarrow> reconcile_documents oe sl fresh now docs (oe_between oe 15 s'))))"

definition ReconcileSchedules :: "'b orch_env \<Rightarrow> schedule_lib \<Rightarrow> (string \<Rightarrow> string \<times> string) \<Rightarrow> time \<Rightarrow> db
    \<Rightarrow> ((trigger_error, unit) result \<times> db) option" where
  "ReconcileSchedules oe sl fresh now s =
     (case ListResources (env_lib (oe_env oe)) s ''Trigger'' DefaultNamespace 1000 of
        Inl e \<Rightarrow> Some (Inl (TrgStore e), s)
      | Inr (docs, _) \<Rightarrow> reconcile_documents oe sl fresh now docs (oe_between oe 15 s))"

definition observeSchedule :: "(trigger_error, unit) result \<Rightarrow> bool \<Rightarrow> tracker \<Rightarrow> tracker" where
  "observeSchedule r canceled h =
     (case r of Inr _ \<Rightarrow> health_Clear h ''schedules''
      | Inl _ \<Rightarrow> if canceled then h else health_Set h ''schedules''
          \<lparr>hd_path = ''controllers/schedules'', hd_code = ''reconcile_failed'', hd_message = ''schedule reconciliation failed; inspect daemon logs''\<rparr>)"

definition observeProviders :: "(trigger_error, unit) result \<Rightarrow> bool \<Rightarrow> tracker \<Rightarrow> tracker" where
  "observeProviders r canceled h =
     (case r of Inr _ \<Rightarrow> health_Clear h ''providers''
      | Inl _ \<Rightarrow> if canceled then h else health_Set h ''providers''
          \<lparr>hd_path = ''controllers/providers'', hd_code = ''reconcile_failed'', hd_message = ''provider reconciliation failed; inspect daemon logs''\<rparr>)"

definition new_controller_health :: tracker where
  "new_controller_health =
     health_Set (health_Set NewTracker ''providers''
       \<lparr>hd_path = ''controllers/providers'', hd_code = ''starting'', hd_message = ''provider reconciliation has not completed''\<rparr>)
       ''schedules'' \<lparr>hd_path = ''controllers/schedules'', hd_code = ''starting'', hd_message = ''schedule reconciliation has not completed''\<rparr>"

section \<open>Provider subscriptions\<close>

text \<open>The subscriptions: the generation of the Trigger each was started for.\<close>

type_synonym subscriptions = "(string \<times> nat) list"

definition providerHealthKey :: "string \<Rightarrow> string" where
  "providerHealthKey uid = ''provider/'' @ uid"

text \<open>The first loop of \<open>syncProviders\<close>: the enabled provider Triggers.\<close>

fun wanted_triggers :: "store_env \<Rightarrow> time \<Rightarrow> document list \<Rightarrow> db \<Rightarrow> (string \<times> object_meta \<times> trigger_spec) list
    \<Rightarrow> (trigger_error, (string \<times> object_meta \<times> trigger_spec) list) result \<times> db" where
  "wanted_triggers env now [] s wanted = (Inr wanted, s)"
| "wanted_triggers env now (doc # docs) s wanted =
     (case DecodeTrigger (env_lib env) (doc_JSON doc) of
        Inl e \<Rightarrow> (Inl (TrgText e), s)
      | Inr (meta, spec) \<Rightarrow>
          if trg_provider spec = None then wanted_triggers env now docs s wanted
          else (case EnsureTriggerState env s (meta_uid meta) (meta_generation meta) (trigger_enabled spec) now of
              Inl e \<Rightarrow> (Inl (TrgStore e), s)
            | Inr (st, s') \<Rightarrow> wanted_triggers env now docs s' (if tst_enabled st then map_put (meta_uid meta) (meta, spec) wanted else wanted)))"

text \<open>The part under the lock: the new subscriptions, the health, the cancelled ones and the Triggers a watch is started for.\<close>

definition stale_subscription :: "(string \<times> object_meta \<times> trigger_spec) list \<Rightarrow> string \<times> nat \<Rightarrow> bool" where
  "stale_subscription wanted sub = (case map_of wanted (fst sub) of None \<Rightarrow> True | Some (meta, _) \<Rightarrow> meta_generation meta \<noteq> snd sub)"

definition update_subscriptions :: "(string \<times> object_meta \<times> trigger_spec) list \<Rightarrow> subscriptions \<Rightarrow> tracker
    \<Rightarrow> subscriptions \<times> tracker \<times> subscriptions \<times> (object_meta \<times> trigger_spec) list" where
  "update_subscriptions wanted subs h =
     (let cancelled = filter (stale_subscription wanted) subs;
          kept = filter (\<lambda>sub. \<not> stale_subscription wanted sub) subs;
          started = map snd (filter (\<lambda>(uid, _). map_of kept uid = None) wanted)
      in (kept @ map (\<lambda>(meta, _). (meta_uid meta, meta_generation meta)) started,
          foldl (\<lambda>h sub. health_Clear h (providerHealthKey (fst sub))) h cancelled, cancelled, started))"

definition syncProviders :: "store_env \<Rightarrow> bool \<Rightarrow> time \<Rightarrow> db \<Rightarrow> subscriptions \<Rightarrow> tracker
    \<Rightarrow> (trigger_error, subscriptions \<times> (object_meta \<times> trigger_spec) list) result \<times> db \<times> subscriptions \<times> tracker" where
  "syncProviders env hasProvider now s subs h =
     (if \<not> hasProvider then (Inr ([], []), s, subs, h)
      else (case ListResources (env_lib env) s ''Trigger'' DefaultNamespace 1000 of
          Inl e \<Rightarrow> (Inl (TrgStore e), s, subs, h)
        | Inr (docs, _) \<Rightarrow> (case wanted_triggers env now docs s [] of
            (Inl e, s') \<Rightarrow> (Inl e, s', subs, h)
          | (Inr wanted, s') \<Rightarrow> (case update_subscriptions wanted subs h of
              (subs', h', cancelled, started) \<Rightarrow> (Inr (cancelled, started), s', subs', h')))))"

definition stopProviders :: "subscriptions \<Rightarrow> tracker \<Rightarrow> subscriptions \<times> tracker" where
  "stopProviders subs h = ([], foldl (\<lambda>h sub. health_Clear h (providerHealthKey (fst sub))) h subs)"

text \<open>The callback of \<open>watchProvider\<close>: \<open>pe_payload\<close> is \<open>None\<close> for bytes that are not JSON.\<close>

record trigger_event =
  pe_providerEventId :: string
  pe_cursor :: string
  pe_payload :: "json option"
  pe_targetRunUid :: string

definition watch_callback :: "'b orch_env \<Rightarrow> string \<Rightarrow> string \<Rightarrow> object_meta \<Rightarrow> trigger_spec \<Rightarrow> trigger_event \<Rightarrow> db
    \<Rightarrow> ((trigger_error, unit) result \<times> db) option" where
  "watch_callback oe receiptUID runUID meta spec ev s =
     (if pe_providerEventId ev = [] \<or> pe_cursor ev = [] \<or> pe_payload ev = None
      then Some (Inl (TrgText ''provider event identity, cursor, and JSON payload are required''), s)
      else let finish = (\<lambda>r. case r of Inl e \<Rightarrow> (Inl (TrgOrch e), s) | Inr (_, s') \<Rightarrow> (Inr (), s')) in
        case trg_delivery spec of
          Some d \<Rightarrow>
            if dlv_mode d = ''signal'' then
              (if pe_targetRunUid ev = [] then Some (Inl (TrgText ''signal delivery requires a provider target Run UID''), s)
               else Some (finish (Orch_AcceptProviderSignal oe receiptUID s (meta_uid meta) (meta_generation meta) (pe_providerEventId ev)
                 (trg_flow spec) (meta_namespace meta) (pe_targetRunUid ev) (dlv_node d) (pe_payload ev) (pe_cursor ev))))
            else map_option finish (Orch_AcceptProviderTrigger oe receiptUID runUID s (meta_uid meta) (meta_generation meta) (pe_providerEventId ev)
                 (trg_flow spec) (meta_namespace meta) (pe_payload ev) (pe_cursor ev))
        | None \<Rightarrow> map_option finish (Orch_AcceptProviderTrigger oe receiptUID runUID s (meta_uid meta) (meta_generation meta) (pe_providerEventId ev)
                 (trg_flow spec) (meta_namespace meta) (pe_payload ev) (pe_cursor ev)))"

text \<open>The health after a watch that ended, and the pause before the next one.\<close>

definition watch_diagnostic :: "string \<Rightarrow> bool \<Rightarrow> health_diagnostic" where
  "watch_diagnostic uid ended = \<lparr>hd_path = ''controllers/providers/'' @ uid,
     hd_code = (if ended then ''watch_ended'' else ''watch_failed''),
     hd_message = (if ended then ''provider subscription ended unexpectedly and is waiting to restart''
       else ''provider subscription failed and is waiting to retry'')\<rparr>"

definition next_backoff :: "nat \<Rightarrow> nat" where
  "next_backoff b = (if b < 30 * second then b * 2 else b)"

section \<open>What a pass does to one schedule\<close>

lemma scan_due_spec:
  assumes due_def: "due = scan_due n f now c"
  shows "length due \<le> n" "k \<le> length due \<Longrightarrow> 0 < k \<Longrightarrow> due ! (k - 1) = (f ^^ k) c \<and> (f ^^ k) c \<le> now"
    "length due < n \<Longrightarrow> now < (f ^^ Suc (length due)) c" "due \<noteq> [] \<Longrightarrow> last due = (f ^^ length due) c"
proof -
  have main: "length (scan_due n f now c) \<le> n \<and>
    (\<forall>k < length (scan_due n f now c). scan_due n f now c ! k = (f ^^ Suc k) c \<and> (f ^^ Suc k) c \<le> now) \<and>
    (length (scan_due n f now c) < n \<longrightarrow> now < (f ^^ Suc (length (scan_due n f now c))) c)"
  proof (induction n arbitrary: c)
    case (Suc n)
    then show ?case
      using less_Suc_eq_0_disj by (auto simp: funpow_swap1 nth_Cons' simp del: funpow.simps(2)) (simp_all add: funpow_swap1)
  qed simp
  show "length due \<le> n" "length due < n \<Longrightarrow> now < (f ^^ Suc (length due)) c" using main by (simp_all add: due_def)
  show k: "k \<le> length due \<Longrightarrow> 0 < k \<Longrightarrow> due ! (k - 1) = (f ^^ k) c \<and> (f ^^ k) c \<le> now" for k
    using main by (cases k) (auto simp: due_def)
  show "due \<noteq> [] \<Longrightarrow> last due = (f ^^ length due) c" using k[of "length due"] by (simp add: last_conv_nth)
qed

lemma acceptTrigger_effect:
  assumes "acceptTrigger env ru uu s a = Inr (r, s')"
  shows "known s' t oc = (if (t, oc) = (acc_trigger_uid a, acc_occurrence_id a) \<and> known s t oc = None then Some (ru, uu) else known s t oc)"
    "db_trigger_states s' = db_trigger_states s" "db_trigger_skips s' = db_trigger_skips s"
proof -
  let ?k = "known s (acc_trigger_uid a) (acc_occurrence_id a)"
  have "known s' t oc = (if (t, oc) = (acc_trigger_uid a, acc_occurrence_id a) \<and> known s t oc = None then Some (ru, uu) else known s t oc) \<and>
    db_trigger_states s' = db_trigger_states s \<and> db_trigger_skips s' = db_trigger_skips s"
  proof (cases ?k)
    case (Some v)
    then have s': "s' = advance_cursor (env_now env) a s" using acceptTrigger_known(4)[OF assms] by blast
    have "known s' = known s" by (rule known_cong) (simp_all add: s')
    then show ?thesis using Some by (auto simp: s' advance_cursor_def upsertProviderCursor_def Let_def)
  next
    case None
    obtain e where e: "receiptByOccurrence s (acc_trigger_uid a) (acc_occurrence_id a) = Inl e" using known_Some_receipt(2)[OF None] by blast
    obtain s1 s2 s3 row where n: "pin_plan env s (acc_flow a) (default_ns (acc_namespace a)) (acc_plan a) = Inr s1"
      "rcpt_uid row = ru" "rcpt_run_uid row = uu" "rcpt_trigger_uid row = acc_trigger_uid a" "rcpt_occurrence_id row = acc_occurrence_id a"
      "insert_receipt row s1 = Inr s2" "insert_outbox (StartCommand (start_payload_of ru uu a)) uu (start_key (acc_trigger_uid a) (acc_occurrence_id a)) (env_now env) s2 = Inr s3"
      "s' = advance_cursor (env_now env) a s3"
      using assms e by (force simp: acceptTrigger_def Let_def start_payload_of_def split: if_splits)
    obtain ps where p: "s1 = s\<lparr>db_plans := db_plans s @ ps\<rparr>" using pin_plan_frame(1)[OF n(1)] by blast
    have s': "db_receipts s' = db_receipts s @ [row]" "db_tombstones s' = db_tombstones s"
      "db_trigger_states s' = db_trigger_states s" "db_trigger_skips s' = db_trigger_skips s"
      using n(6-8) by (auto simp: p insert_receipt_def insert_outbox_def advance_cursor_def upsertProviderCursor_def Let_def split: if_splits)
    show ?thesis using known_insert[OF s'(1,2), of t oc] n(2-5) None s'(3,4) by auto
  qed
  then show "known s' t oc = (if (t, oc) = (acc_trigger_uid a, acc_occurrence_id a) \<and> known s t oc = None then Some (ru, uu) else known s t oc)"
    "db_trigger_states s' = db_trigger_states s" "db_trigger_skips s' = db_trigger_skips s" by auto
qed

lemma acceptTrigger_receipt:
  assumes a: "acceptTrigger env ru uu s a = Inr (x, s')"
  shows "known s' (acc_trigger_uid a) (acc_occurrence_id a) = Some (rc_uid x, rc_run_uid x)"
proof (cases "known s (acc_trigger_uid a) (acc_occurrence_id a)")
  case None
  have "rc_uid x = ru" "rc_run_uid x = uu"
    using a known_Some_receipt(2)[OF None] by (auto simp: acceptTrigger_def Let_def split: if_splits)
  then show ?thesis using acceptTrigger_effect(1)[OF a] None by simp
next
  case (Some v)
  then show ?thesis using acceptTrigger_effect(1)[OF a] acceptTrigger_known(2)[OF a Some] by simp
qed

lemma Orch_AcceptTrigger_receipt:
  assumes r: "Orch_AcceptTrigger oe ru uu s uid g oc f ns inp d = Some (Inr (x, s'))"
  shows "known s' uid oc = Some (rc_uid x, rc_run_uid x)" "known s uid oc = Some v \<Longrightarrow> v = (rc_uid x, rc_run_uid x) \<and> rc_existing x"
proof -
  have "known s' uid oc = Some (rc_uid x, rc_run_uid x) \<and> (\<forall>v. known s uid oc = Some v \<longrightarrow> v = (rc_uid x, rc_run_uid x) \<and> rc_existing x)"
  proof (cases "ReceiptByOccurrence s uid oc")
    case (Inr e)
    then show ?thesis using r by (auto simp: Orch_AcceptTrigger_def known_def ReceiptByOccurrence_def)
  next
    case (Inl e)
    then obtain plan where a: "AcceptTriggerWithPlan (oe_env oe) ru uu (oe_between oe 0 s) uid g oc f ns inp d plan = Inr (x, s')"
      using r by (auto simp: Orch_AcceptTrigger_def split: if_splits sum.splits)
    have "known s' uid oc = Some (rc_uid x, rc_run_uid x)" using acceptTrigger_receipt[OF a[unfolded AcceptTriggerWithPlan_def]] by simp
    moreover have "known s uid oc = None" using Inl by (simp add: known_def ReceiptByOccurrence_def)
    ultimately show ?thesis by simp
  qed
  then show "known s' uid oc = Some (rc_uid x, rc_run_uid x)" "known s uid oc = Some v \<Longrightarrow> v = (rc_uid x, rc_run_uid x) \<and> rc_existing x" by auto
qed

section \<open>The contract of an acceptor\<close>

text \<open>The interface \<open>Acceptor\<close>, which the store and the orchestrator both implement and the controllers call: an occurrence that is accepted
  is bound, and one that is bound already is answered with what it is bound to. A client that retries gets the same answer.\<close>

locale acceptor =
  fixes accept :: "'q \<Rightarrow> 's \<Rightarrow> ('r \<times> 's) option"
    and occurrence :: "'q \<Rightarrow> 'c"
    and bound :: "'s \<Rightarrow> 'c \<Rightarrow> 'v option"
    and answer :: "'r \<Rightarrow> 'v"
  assumes accept_binds: "accept q s = Some (r, s') \<Longrightarrow> bound s' (occurrence q) = Some (answer r)"
    and accept_bound: "bound s (occurrence q) = Some v \<Longrightarrow> accept q s = Some (r, s') \<Longrightarrow> answer r = v"
begin

lemma retry_same_answer:
  assumes "accept q s = Some (r, s')" "accept q' t = Some (r', t')" "occurrence q' = occurrence q"
    and "\<And>v. bound s' (occurrence q) = Some v \<Longrightarrow> bound t (occurrence q) = Some v"
  shows "answer r' = answer r"
  using accept_binds[OF assms(1)] accept_bound[OF _ assms(2)] assms(3,4) by simp

end

record accept_request =
  ar_receiptUID :: string
  ar_runUID :: string
  ar_triggerUID :: string
  ar_generation :: nat
  ar_occurrenceID :: string
  ar_flow :: string
  ar_namespace :: string
  ar_input :: "json option"
  ar_deduplicated :: bool

definition request_occurrence :: "accept_request \<Rightarrow> string \<times> string" where
  "request_occurrence q = (ar_triggerUID q, ar_occurrenceID q)"

definition store_accept :: "store_env \<Rightarrow> accept_request \<Rightarrow> db \<Rightarrow> (receipt \<times> db) option" where
  "store_accept env q s =
     (case AcceptTrigger env (ar_receiptUID q) (ar_runUID q) s (ar_triggerUID q) (ar_generation q) (ar_occurrenceID q) (ar_flow q) (ar_namespace q)
        (ar_input q) (ar_deduplicated q) of Inr r \<Rightarrow> Some r | Inl _ \<Rightarrow> None)"

definition orch_accept :: "'b orch_env \<Rightarrow> accept_request \<Rightarrow> db \<Rightarrow> (receipt \<times> db) option" where
  "orch_accept oe q s =
     (case Orch_AcceptTrigger oe (ar_receiptUID q) (ar_runUID q) s (ar_triggerUID q) (ar_generation q) (ar_occurrenceID q) (ar_flow q) (ar_namespace q)
        (ar_input q) (ar_deduplicated q) of Some (Inr r) \<Rightarrow> Some r | _ \<Rightarrow> None)"

interpretation store_acceptor: acceptor "store_accept env" request_occurrence "\<lambda>s (t, oc). known s t oc" "\<lambda>r. (rc_uid r, rc_run_uid r)"
proof
  fix q :: accept_request and s s' :: db and r :: receipt and v
  assume a: "store_accept env q s = Some (r, s')"
  let ?a = "\<lparr>acc_trigger_uid = ar_triggerUID q, acc_generation = ar_generation q, acc_occurrence_id = ar_occurrenceID q, acc_flow = ar_flow q,
    acc_namespace = ar_namespace q, acc_input = ar_input q, acc_deduplicated = ar_deduplicated q, acc_cursor = [], acc_event_id = [], acc_plan = None\<rparr>"
  have a': "acceptTrigger env (ar_receiptUID q) (ar_runUID q) s ?a = Inr (r, s')"
    using a by (auto simp: store_accept_def AcceptTrigger_def split: sum.splits)
  show "(case request_occurrence q of (t, oc) \<Rightarrow> known s' t oc) = Some (rc_uid r, rc_run_uid r)"
    using acceptTrigger_receipt[OF a'] by (simp add: request_occurrence_def)
  show "(rc_uid r, rc_run_uid r) = v" if "(case request_occurrence q of (t, oc) \<Rightarrow> known s t oc) = Some v"
    using acceptTrigger_known(2)[OF a'] that by (simp add: request_occurrence_def)
qed

interpretation orch_acceptor: acceptor "orch_accept oe" request_occurrence "\<lambda>s (t, oc). known s t oc" "\<lambda>r. (rc_uid r, rc_run_uid r)"
proof
  fix q :: accept_request and s s' :: db and r :: receipt and v
  assume a: "orch_accept oe q s = Some (r, s')"
  then have a': "Orch_AcceptTrigger oe (ar_receiptUID q) (ar_runUID q) s (ar_triggerUID q) (ar_generation q) (ar_occurrenceID q) (ar_flow q) (ar_namespace q)
        (ar_input q) (ar_deduplicated q) = Some (Inr (r, s'))" by (auto simp: orch_accept_def split: option.splits sum.splits)
  show "(case request_occurrence q of (t, oc) \<Rightarrow> known s' t oc) = Some (rc_uid r, rc_run_uid r)"
    using Orch_AcceptTrigger_receipt(1)[OF a'] by (simp add: request_occurrence_def)
  show "(rc_uid r, rc_run_uid r) = v" if "(case request_occurrence q of (t, oc) \<Rightarrow> known s t oc) = Some v"
    using Orch_AcceptTrigger_receipt(2)[OF a'] that by (simp add: request_occurrence_def)
qed

definition trigger_cursor :: "db \<Rightarrow> string \<Rightarrow> time option" where
  "trigger_cursor s uid = map_option tst_cursor (select_row (\<lambda>t. tst_trigger_uid t = uid) (db_trigger_states s))"

text \<open>An occurrence is settled when it has a receipt or is recorded as skipped.\<close>

definition occurrence_settled :: "db \<Rightarrow> object_meta \<Rightarrow> time \<Rightarrow> bool" where
  "occurrence_settled s meta x \<longleftrightarrow> known s (meta_uid meta) (OccurrenceIdentity meta x) \<noteq> None \<or>
     (\<exists>k \<in> set (db_trigger_skips s). tsk_trigger_uid k = meta_uid meta \<and> tsk_occurrence_id k = OccurrenceIdentity meta x)"

text \<open>Other clients do not accept occurrences of this schedule, do not move its cursor and do not remove records of skipped occurrences.\<close>

definition schedule_calm :: "'b orch_env \<Rightarrow> string \<Rightarrow> bool" where
  "schedule_calm oe uid \<longleftrightarrow> (\<forall>k t. known (oe_between oe k t) uid = known t uid \<and> trigger_cursor (oe_between oe k t) uid = trigger_cursor t uid \<and>
     set (db_trigger_skips t) \<subseteq> set (db_trigger_skips (oe_between oe k t)))"

lemma calm_known:
  assumes "schedule_calm oe uid"
  shows "known (oe_between oe k t) uid = known t uid" "trigger_cursor (oe_between oe k t) uid = trigger_cursor t uid"
    "x \<in> set (db_trigger_skips t) \<Longrightarrow> x \<in> set (db_trigger_skips (oe_between oe k t))"
  using assms unfolding schedule_calm_def by blast+

lemma settled_between: "schedule_calm oe (meta_uid meta) \<Longrightarrow> occurrence_settled t meta x \<Longrightarrow> occurrence_settled (oe_between oe k t) meta x"
  unfolding occurrence_settled_def using calm_known by metis

lemma select_updated:
  "(\<And>r. P r \<Longrightarrow> P (g r)) \<Longrightarrow> select_row P (update_rows P g rows) = map_option g (select_row P rows)"
  by (induction rows) (auto simp: update_rows_def)

lemma ensured_cursor:
  assumes "EnsureTriggerState env s uid g en now = Inr (st, s1)"
  shows "trigger_cursor s1 uid = Some (tst_cursor st)" "known s1 = known s"
  using assms by (auto simp: EnsureTriggerState_def ensureTriggerStateTx_def trigger_cursor_def Let_def select_row_append
      select_updated intro!: known_cong split: option.splits if_splits)

lemma advance_schedule_spec:
  assumes "advance_schedule oe uid to s = (r, s')"
  shows "known s' = known s" "db_trigger_skips s' = db_trigger_skips s" "r = Inr () \<Longrightarrow> trigger_cursor s' uid = Some to"
    "r \<noteq> Inr () \<Longrightarrow> s' = s"
proof -
  have c: "(r = Inr () \<and> rows_affected (\<lambda>t. tst_trigger_uid t = uid) (db_trigger_states s) \<noteq> 0 \<and>
      s' = s\<lparr>db_trigger_states := update_rows (\<lambda>t. tst_trigger_uid t = uid)
       (\<lambda>t. t\<lparr>tst_cursor := to, tst_updated := env_now (oe_env oe)\<rparr>) (db_trigger_states s)\<rparr>) \<or> (\<exists>e. r = Inl e \<and> s' = s)"
    using assms by (auto simp: advance_schedule_def AdvanceTriggerCursor_def fail_if_def split: if_splits sum.splits)
  show "known s' = known s" using c by (auto intro!: known_cong)
  show "db_trigger_skips s' = db_trigger_skips s" "r \<noteq> Inr () \<Longrightarrow> s' = s" using c by auto
  show "r = Inr () \<Longrightarrow> trigger_cursor s' uid = Some to" using c
    by (cases "select_row (\<lambda>t. tst_trigger_uid t = uid) (db_trigger_states s)")
      (auto simp: trigger_cursor_def select_updated rows_affected_0 exists_row_iff select_row_None)
qed

lemma skip_occurrence_spec:
  assumes calm: "schedule_calm oe (meta_uid meta)" and r: "skip_occurrence oe meta reason x s = (r, s')"
  shows "known s' (meta_uid meta) = known s (meta_uid meta)" "r = Inr () \<Longrightarrow> trigger_cursor s' (meta_uid meta) = Some x"
    "r \<noteq> Inr () \<Longrightarrow> trigger_cursor s' (meta_uid meta) = trigger_cursor s (meta_uid meta)" "occurrence_settled s' meta x"
proof -
  let ?s1 = "RecordTriggerSkip (oe_env oe) s (meta_uid meta) (OccurrenceIdentity meta x) reason x"
  have a: "advance_schedule oe (meta_uid meta) x (oe_between oe 8 ?s1) = (r, s')" using r by (simp add: skip_occurrence_def)
  have k: "known ?s1 = known s" by (rule known_cong) (simp_all add: RecordTriggerSkip_def)
  have "occurrence_settled ?s1 meta x" by (auto simp: occurrence_settled_def RecordTriggerSkip_def exists_row_iff)
  then have st: "occurrence_settled (oe_between oe 8 ?s1) meta x" by (rule settled_between[OF calm])
  note ad = advance_schedule_spec[OF a]
  show "known s' (meta_uid meta) = known s (meta_uid meta)" using ad(1) k calm_known(1)[OF calm] by simp
  show "r = Inr () \<Longrightarrow> trigger_cursor s' (meta_uid meta) = Some x" by (rule ad(3))
  show "r \<noteq> Inr () \<Longrightarrow> trigger_cursor s' (meta_uid meta) = trigger_cursor s (meta_uid meta)"
    using ad(4) calm_known(2)[OF calm, of 8 ?s1] by (auto simp: trigger_cursor_def RecordTriggerSkip_def)
  show "occurrence_settled s' meta x" using st ad(1,2) by (simp add: occurrence_settled_def)
qed

lemma Orch_AcceptTrigger_effect:
  assumes calm: "schedule_calm oe uid" and r: "Orch_AcceptTrigger oe ru uu s uid g oc f ns inp d = Some (Inr (x, s'))"
  shows "\<forall>oc'. known s' uid oc' = known s uid oc' \<or> known s uid oc' = None \<and> oc' = oc" "known s' uid oc \<noteq> None"
    "trigger_cursor s' uid = trigger_cursor s uid"
proof -
  have "(\<forall>oc'. known s' uid oc' = known s uid oc' \<or> known s uid oc' = None \<and> oc' = oc) \<and> known s' uid oc \<noteq> None \<and>
    trigger_cursor s' uid = trigger_cursor s uid"
  proof (cases "ReceiptByOccurrence s uid oc")
    case (Inr e)
    then show ?thesis using r by (auto simp: Orch_AcceptTrigger_def known_def ReceiptByOccurrence_def)
  next
    case (Inl e)
    then obtain plan where "AcceptTriggerWithPlan (oe_env oe) ru uu (oe_between oe 0 s) uid g oc f ns inp d plan = Inr (x, s')"
      using r by (auto simp: Orch_AcceptTrigger_def split: if_splits sum.splits)
    note ae = acceptTrigger_effect[OF this[unfolded AcceptTriggerWithPlan_def], simplified]
    have k: "known (oe_between oe 0 s) uid = known s uid" "trigger_cursor (oe_between oe 0 s) uid = trigger_cursor s uid"
      using calm_known[OF calm] by auto
    show ?thesis using ae(1)[of uid] ae(2) k by (auto simp: trigger_cursor_def)
  qed
  then show "\<forall>oc'. known s' uid oc' = known s uid oc' \<or> known s uid oc' = None \<and> oc' = oc" "known s' uid oc \<noteq> None"
    "trigger_cursor s' uid = trigger_cursor s uid" by auto
qed

text \<open>What a pass does for the occurrence it selected.\<close>

definition pass_effect :: "object_meta \<Rightarrow> time \<Rightarrow> db \<Rightarrow> (trigger_error, unit) result \<Rightarrow> db \<Rightarrow> bool" where
  "pass_effect meta x s r s' \<longleftrightarrow>
     (\<forall>oc. known s' (meta_uid meta) oc = known s (meta_uid meta) oc \<or>
        known s (meta_uid meta) oc = None \<and> oc = OccurrenceIdentity meta x) \<and>
     (if r = Inr () then trigger_cursor s' (meta_uid meta) = Some x \<and> occurrence_settled s' meta x
      else trigger_cursor s' (meta_uid meta) = trigger_cursor s (meta_uid meta))"

lemma skip_effect:
  assumes "schedule_calm oe (meta_uid meta)" "skip_occurrence oe meta reason x s = (r, s')"
  shows "pass_effect meta x s r s'"
  using skip_occurrence_spec[OF assms] by (auto simp: pass_effect_def)

lemma advance_effect:
  assumes "advance_schedule oe (meta_uid meta) x s = (r, s')" "occurrence_settled s meta x"
  shows "pass_effect meta x s r s'"
  using advance_schedule_spec[OF assms(1)] assms(2) by (auto simp: pass_effect_def occurrence_settled_def)

lemma effect_before:
  assumes "pass_effect meta x t r s'" "known t (meta_uid meta) = known s (meta_uid meta)"
    "trigger_cursor t (meta_uid meta) = trigger_cursor s (meta_uid meta)"
  shows "pass_effect meta x s r s'"
  using assms by (simp add: pass_effect_def)

lemma fire_schedule_effect:
  assumes calm: "schedule_calm oe (meta_uid meta)" and r: "fire_schedule oe ru uu meta spec sched x s = Some (r, s')"
  shows "pass_effect meta x s r s'"
proof (cases "ReceiptByOccurrence s (meta_uid meta) (OccurrenceIdentity meta x)")
  case (Inr rc)
  then have "occurrence_settled s meta x" by (simp add: occurrence_settled_def known_def ReceiptByOccurrence_def)
  moreover have "advance_schedule oe (meta_uid meta) x (oe_between oe 9 s) = (r, s')" using r Inr by (simp add: fire_schedule_def)
  ultimately have "pass_effect meta x (oe_between oe 9 s) r s'" by (blast intro: advance_effect settled_between[OF calm])
  then show ?thesis by (rule effect_before) (rule calm_known[OF calm])+
next
  case (Inl e)
  let ?s1 = "oe_between oe 10 s"
  consider "e \<noteq> ErrNotFound" | "e = ErrNotFound" "HasActiveRunForTrigger ?s1 (meta_uid meta)"
      "sched_concurrencyPolicy sched = [] \<or> sched_concurrencyPolicy sched = ''forbid''"
    | "e = ErrNotFound" "\<not> ((sched_concurrencyPolicy sched = [] \<or> sched_concurrencyPolicy sched = ''forbid'') \<and> HasActiveRunForTrigger ?s1 (meta_uid meta))"
    by blast
  then show ?thesis
  proof cases
    case 1
    then show ?thesis using r Inl by (auto simp: fire_schedule_def pass_effect_def)
  next
    case 2
    then have "skip_occurrence oe meta ''concurrency-forbid'' x (oe_between oe 11 ?s1) = (r, s')"
      using r Inl by (simp add: fire_schedule_def Let_def)
    then show ?thesis using skip_effect[OF calm] calm_known(1,2)[OF calm] by (blast intro: effect_before)
  next
    case 3
    let ?s2 = "oe_between oe 12 ?s1"
    have k2: "known ?s2 (meta_uid meta) = known s (meta_uid meta)" "trigger_cursor ?s2 (meta_uid meta) = trigger_cursor s (meta_uid meta)"
      using calm_known(1,2)[OF calm] by metis+
    obtain a where a: "Orch_AcceptTrigger oe ru uu ?s2 (meta_uid meta) (meta_generation meta) (OccurrenceIdentity meta x) (trg_flow spec) (meta_namespace meta)
        (Some (schedule_payload meta x)) True = Some a"
      and ra: "(case a of Inl e \<Rightarrow> (Inl (TrgOrch e), ?s2) | Inr (_, s3) \<Rightarrow> advance_schedule oe (meta_uid meta) x (oe_between oe 13 s3)) = (r, s')"
      using r Inl 3 by (auto simp: fire_schedule_def Let_def)
    show ?thesis
    proof (cases a)
      case (Inl e')
      then show ?thesis using ra k2 by (auto simp: pass_effect_def)
    next
      case (Inr xs)
      obtain rc s3 where x: "a = Inr (rc, s3)" using Inr by (cases xs) auto
      note ef = Orch_AcceptTrigger_effect[OF calm a[unfolded x]]
      have "occurrence_settled s3 meta x" using ef(2) by (simp add: occurrence_settled_def)
      moreover have "advance_schedule oe (meta_uid meta) x (oe_between oe 13 s3) = (r, s')" using ra x by simp
      ultimately have "pass_effect meta x (oe_between oe 13 s3) r s'" by (blast intro: advance_effect settled_between[OF calm])
      then have p: "pass_effect meta x s3 r s'" by (rule effect_before) (rule calm_known[OF calm])+
      show ?thesis using p ef(1,3) k2 unfolding pass_effect_def by metis
    qed
  qed
qed

text \<open>C14: one pass over a schedule that is enabled: whatever happens, the pass accepts no occurrence but the latest due one, and
  that only when it was not accepted before; when it fails the cursor stays. When it succeeds, the cursor has moved past exactly
  the \<open>n\<close> due occurrences (the next one lies in the future), and the latest of them is accepted or recorded as skipped.\<close>

theorem schedule_pass_settles_latest:
  assumes calm: "schedule_calm oe (meta_uid meta)" and f: "parseSchedule sl sched = Inr f"
    and e: "EnsureTriggerState (oe_env oe) s (meta_uid meta) (meta_generation meta) (trigger_enabled spec) now = Inr (st, s1)" "tst_enabled st"
    and r: "reconcileSchedule oe sl ru uu now meta spec sched s = Some (r, s')"
  shows "\<exists>n. (\<forall>k \<in> {1..n}. (f ^^ k) (tst_cursor st) \<le> now) \<and>
    (\<forall>oc. known s' (meta_uid meta) oc = known s (meta_uid meta) oc \<or>
        n > 0 \<and> known s (meta_uid meta) oc = None \<and> oc = OccurrenceIdentity meta ((f ^^ n) (tst_cursor st))) \<and>
    (if r = Inr () then now < (f ^^ Suc n) (tst_cursor st) \<and> trigger_cursor s' (meta_uid meta) = Some ((f ^^ n) (tst_cursor st)) \<and>
        (n > 0 \<longrightarrow> occurrence_settled s' meta ((f ^^ n) (tst_cursor st)))
     else trigger_cursor s' (meta_uid meta) = Some (tst_cursor st))"
proof -
  let ?due = "scan_due maxCatchupScan f now (tst_cursor st)" and ?c = "tst_cursor st" and ?u = "meta_uid meta"
  let ?n = "length ?due"
  note sd = scan_due_spec[OF refl, where n = maxCatchupScan and f = f and now = now and c = ?c]
  have c1: "trigger_cursor s1 ?u = Some ?c" and k1: "known s1 = known s"
    using ensured_cursor[OF e(1)] by auto
  have due: "\<forall>k \<in> {1..?n}. (f ^^ k) ?c \<le> now" using sd(2) by auto
  have more: "\<not> (?n = maxCatchupScan \<and> \<not> f (last ?due) > now) \<Longrightarrow> now < (f ^^ Suc ?n) ?c"
  proof (cases "?n = maxCatchupScan")
    case True
    moreover assume "\<not> (?n = maxCatchupScan \<and> \<not> f (last ?due) > now)"
    moreover have "?due \<noteq> []" using True by (auto simp: maxCatchupScan_def)
    ultimately show ?thesis using sd(4) by simp
  qed (use sd(1,3) in simp)
  show ?thesis
  proof (cases "?due = [] \<or> (?n = maxCatchupScan \<and> \<not> f (last ?due) > now) \<or> (\<exists>m. ParseDuration (sched_startingDeadline sched) 3600000000000 = Inl m)")
    case True
    have "s' = s1" "r = Inr () \<Longrightarrow> ?due = [] \<and> \<not> (?n = maxCatchupScan \<and> \<not> f (last ?due) > now)"
      using r f e True by (auto simp: reconcileSchedule_def Let_def split: if_splits)
    then show ?thesis using due c1 k1 more by (intro exI[of _ ?n]) auto
  next
    case False
    then obtain dl where dl: "ParseDuration (sched_startingDeadline sched) 3600000000000 = Inr dl"
      by (cases "ParseDuration (sched_startingDeadline sched) 3600000000000") auto
    let ?s2 = "oe_between oe 14 s1"
    have "pass_effect meta (last ?due) ?s2 r s'"
    proof (cases "time_sub now (last ?due) > dl")
      case True
      then have "skip_occurrence oe meta ''misfire-deadline'' (last ?due) ?s2 = (r, s')"
        using r f e dl \<open>\<not> _\<close> by (auto simp: reconcileSchedule_def Let_def split: if_splits)
      then show ?thesis by (rule skip_effect[OF calm])
    next
      case False
      then have "fire_schedule oe ru uu meta spec sched (last ?due) ?s2 = Some (r, s')"
        using r f e dl \<open>\<not> (_ \<or> _)\<close> by (auto simp: reconcileSchedule_def Let_def split: if_splits)
      then show ?thesis by (rule fire_schedule_effect[OF calm])
    qed
    then have "pass_effect meta (last ?due) s1 r s'" by (rule effect_before) (rule calm_known[OF calm])+
    then show ?thesis using False sd(4) more due k1 c1 unfolding pass_effect_def by (intro exI[of _ ?n]) auto
  qed
qed

section \<open>A schedule that cannot be scanned\<close>

lemma reconcile_documents_append:
  "reconcile_documents oe sl fresh now (pre @ post) s =
     Option.bind (reconcile_documents oe sl fresh now pre s) (\<lambda>(r, s'). case r of Inl e \<Rightarrow> Some (Inl e, s') | Inr _ \<Rightarrow> reconcile_documents oe sl fresh now post s')"
proof (induction pre arbitrary: s)
  case (Cons doc pre)
  show ?case
  proof (cases "DecodeTrigger (env_lib (oe_env oe)) (doc_JSON doc)")
    case (Inr ms)
    obtain meta spec where ms: "ms = (meta, spec)" by fastforce
    show ?thesis
    proof (cases "trg_schedule spec")
      case None
      then show ?thesis using Inr ms Cons by simp
    next
      case (Some sched)
      then show ?thesis using Inr ms Cons
        by (cases "reconcileSchedule oe sl (fst (fresh (meta_uid meta))) (snd (fresh (meta_uid meta))) now meta spec sched s")
          (auto split: sum.splits)
    qed
  qed simp
qed simp

lemma scan_due_full:
  assumes "\<forall>k \<in> {1..Suc n}. (f ^^ k) c \<le> now" "0 < n"
  shows "length (scan_due n f now c) = n" "\<not> f (last (scan_due n f now c)) > now"
proof -
  note sd = scan_due_spec[OF refl, where n = n and f = f and now = now and c = c]
  show len: "length (scan_due n f now c) = n"
  proof (rule ccontr)
    assume "length (scan_due n f now c) \<noteq> n"
    then have l: "length (scan_due n f now c) < n" using sd(1) by simp
    then have "(f ^^ Suc (length (scan_due n f now c))) c \<le> now" using assms(1) by (intro bspec[OF assms(1)]) auto
    then show False using sd(3)[OF l] by simp
  qed
  then have "scan_due n f now c \<noteq> []" using assms(2) by auto
  then have "f (last (scan_due n f now c)) = (f ^^ Suc n) c" using sd(4) len by simp
  moreover have "(f ^^ Suc n) c \<le> now" using assms(1) by (intro bspec[OF assms(1)]) auto
  ultimately show "\<not> f (last (scan_due n f now c)) > now" by simp
qed

text \<open>An enabled schedule with more than 10000 due occurrences makes every later pass fail at its document: the cursor is not
  moved, so the next pass finds the same occurrences again, and the Triggers listed after it are never reached.\<close>

theorem stuck_schedule_blocks_the_rest:
  assumes pre: "reconcile_documents oe sl fresh now' pre s0 = Some (Inr (), s)"
    and doc: "DecodeTrigger (env_lib (oe_env oe)) (doc_JSON doc) = Inr (meta, spec)" "trg_schedule spec = Some sched" "parseSchedule sl sched = Inr f"
    and st: "TriggerState s (meta_uid meta) = Inr st" "tst_generation st = meta_generation meta" "tst_enabled st"
    and stuck: "\<forall>k \<in> {1..Suc maxCatchupScan}. (f ^^ k) (tst_cursor st) \<le> now" and later: "now \<le> now'"
  shows "reconcile_documents oe sl fresh now' (pre @ doc # rest) s0 =
    Some (Inl (TrgText ''schedule catch-up scan exceeded 10000 occurrences''), s)"
proof -
  have "select_row (\<lambda>t. tst_trigger_uid t = meta_uid meta) (db_trigger_states s) = Some st"
    using st(1) by (cases "select_row (\<lambda>t. tst_trigger_uid t = meta_uid meta) (db_trigger_states s)") (simp_all add: TriggerState_def)
  then have e: "EnsureTriggerState (oe_env oe) s (meta_uid meta) (meta_generation meta) (trigger_enabled spec) now' = Inr (st, s)"
    using st(2) by (simp add: EnsureTriggerState_def ensureTriggerStateTx_def Let_def)
  have "\<forall>k \<in> {1..Suc maxCatchupScan}. (f ^^ k) (tst_cursor st) \<le> now'" using stuck later by (meson le_trans)
  moreover have "0 < maxCatchupScan" by (simp add: maxCatchupScan_def)
  ultimately have sc: "length (scan_due maxCatchupScan f now' (tst_cursor st)) = maxCatchupScan"
    "\<not> f (last (scan_due maxCatchupScan f now' (tst_cursor st))) > now'" by (rule scan_due_full)+
  have "reconcileSchedule oe sl ru uu now' meta spec sched s = Some (Inl (TrgText ''schedule catch-up scan exceeded 10000 occurrences''), s)" for ru uu
    using e st(3) sc doc(3) by (simp add: reconcileSchedule_def)
  then show ?thesis using pre doc(1,2) by (simp add: reconcile_documents_append)
qed

section \<open>Provider events\<close>

lemma upsert_cursor_read: "ProviderCursor (upsertProviderCursor s uid c ev n) uid = (c, ev)"
proof (cases "exists_row (\<lambda>c. cur_trigger_uid c = uid) (db_cursors s)")
  case True
  then obtain r where "select_row (\<lambda>c. cur_trigger_uid c = uid) (db_cursors s) = Some r"
    by (cases "select_row (\<lambda>c. cur_trigger_uid c = uid) (db_cursors s)") (auto simp: select_row_None exists_row_iff)
  then show ?thesis using True by (simp add: upsertProviderCursor_def ProviderCursor_def Let_def select_updated)
next
  case False
  then have "select_row (\<lambda>c. cur_trigger_uid c = uid) (db_cursors s) = None" by (auto simp: select_row_None exists_row_iff)
  then show ?thesis using False by (simp add: upsertProviderCursor_def ProviderCursor_def Let_def select_row_append)
qed

lemma acceptTrigger_cursor:
  assumes "acceptTrigger env ru uu s a = Inr (r, s')" "acc_cursor a \<noteq> []"
  shows "ProviderCursor s' (acc_trigger_uid a) = (acc_cursor a, acc_event_id a)"
  using assms by (auto simp: acceptTrigger_def Let_def advance_cursor_def upsert_cursor_read split: if_splits sum.splits)

lemma AcceptProviderSignal_effect:
  assumes "AcceptProviderSignal env ru s t g oc f ns run node payload c = Inr (r, s')"
  shows "known s' t oc \<noteq> None" "ProviderCursor s' t = (c, oc)"
proof -
  obtain s1 where s1: "s' = upsertProviderCursor s1 t c oc (env_now env)" and k: "known s1 t oc \<noteq> None"
  proof (cases "receiptByOccurrence s t oc")
    case (Inr x)
    then have "s' = upsertProviderCursor s t c oc (env_now env)" using assms by (auto simp: AcceptProviderSignal_def Let_def)
    then show ?thesis using Inr by (intro that[of s]) (simp_all add: known_def)
  next
    case (Inl e)
    obtain row p sa sb where n: "rcpt_trigger_uid row = t" "rcpt_occurrence_id row = oc" "insert_receipt row s = Inr sa"
      "insert_outbox (SignalRunCommand p) run (signal_key t oc) (env_now env) sa = Inr sb" "s' = upsertProviderCursor sb t c oc (env_now env)"
      using assms Inl by (force simp: AcceptProviderSignal_def Let_def)
    have sa: "db_receipts sb = db_receipts s @ [row]" "db_tombstones sb = db_tombstones s"
      using n(3,4) by (auto simp: insert_receipt_def insert_outbox_def split: if_splits)
    have "known s (rcpt_trigger_uid row) (rcpt_occurrence_id row) = None" using Inl n(1,2) by (simp add: known_def)
    then show ?thesis using known_insert[OF sa, of t oc] n(1,2,5) by (intro that[of sb]) auto
  qed
  have "known s' = known s1" by (rule known_cong) (simp_all add: s1)
  then show "known s' t oc \<noteq> None" using k by simp
  show "ProviderCursor s' t = (c, oc)" by (simp add: s1 upsert_cursor_read)
qed

text \<open>C15: an event the controller acknowledges to its provider is durable: it is bound to a receipt and the stored cursor is
  the one of the event, so that a restarted watch resumes after it; an event that is not acknowledged leaves the cursor.\<close>

theorem acknowledged_event_is_durable:
  assumes r: "watch_callback oe ru uu meta spec ev s = Some (r, s')"
  shows "if r = Inr () then known s' (meta_uid meta) (pe_providerEventId ev) \<noteq> None \<and>
      ProviderCursor s' (meta_uid meta) = (pe_cursor ev, pe_providerEventId ev) else s' = s"
proof (cases "pe_providerEventId ev = [] \<or> pe_cursor ev = [] \<or> pe_payload ev = None")
  case True
  then show ?thesis using r by (auto simp: watch_callback_def)
next
  case False
  then have c: "pe_cursor ev \<noteq> []" by simp
  let ?u = "meta_uid meta" and ?e = "pe_providerEventId ev"
  have start: ?thesis if h: "map_option (\<lambda>r. case r of Inl e \<Rightarrow> (Inl (TrgOrch e), s) | Inr (_, s') \<Rightarrow> (Inr (), s'))
    (Orch_AcceptProviderTrigger oe ru uu s ?u (meta_generation meta) ?e (trg_flow spec) (meta_namespace meta) (pe_payload ev) (pe_cursor ev)) = Some (r, s')"
  proof -
    let ?acc = "Orch_AcceptProviderTrigger oe ru uu s ?u (meta_generation meta) ?e (trg_flow spec) (meta_namespace meta) (pe_payload ev) (pe_cursor ev)"
    obtain y where y: "?acc = Some y" and ry: "(case y of Inl e \<Rightarrow> (Inl (TrgOrch e), s) | Inr (_, s') \<Rightarrow> (Inr (), s')) = (r, s')"
      using h by auto
    show ?thesis
    proof (cases y)
      case (Inl e)
      then show ?thesis using ry by auto
    next
      case (Inr x)
      then obtain rc where rc: "y = Inr (rc, s')" and r0: "r = Inr ()" using ry by (cases x) auto
      obtain a t where "acceptTrigger (oe_env oe) ru uu t a = Inr (rc, s')" "acc_trigger_uid a = ?u" "acc_occurrence_id a = ?e"
        "acc_cursor a = pe_cursor ev" "acc_event_id a = ?e"
        using y rc by (auto simp: Orch_AcceptProviderTrigger_def AcceptProviderTrigger_def AcceptProviderTriggerWithPlan_def split: sum.splits if_splits)
      then show ?thesis using acceptTrigger_effect(1)[of "oe_env oe" ru uu t a rc s' ?u ?e] acceptTrigger_cursor[of "oe_env oe" ru uu t a rc s'] c r0 by (auto split: if_splits)
    qed
  qed
  show ?thesis
  proof (cases "trg_delivery spec")
    case None
    then show ?thesis using r False by (intro start) (simp add: watch_callback_def Let_def)
  next
    case (Some d)
    then show ?thesis
    proof (cases "dlv_mode d = ''signal''")
      case True
      then show ?thesis using r False Some AcceptProviderSignal_effect
        by (auto simp: watch_callback_def Orch_AcceptProviderSignal_def Let_def split: if_splits sum.splits)
    next
      case mode: False
      then show ?thesis using r False Some by (intro start) (simp add: watch_callback_def Let_def)
    qed
  qed
qed

section \<open>Subscriptions\<close>

text \<open>The provider Triggers of a listing that are enabled in the store.\<close>

definition provider_entry :: "resource_lib \<Rightarrow> db \<Rightarrow> document \<Rightarrow> (string \<times> object_meta \<times> trigger_spec) option" where
  "provider_entry lib s doc =
     (case DecodeTrigger lib (doc_JSON doc) of
        Inl _ \<Rightarrow> None
      | Inr (meta, spec) \<Rightarrow> (case TriggerState s (meta_uid meta) of
          Inl _ \<Rightarrow> None
        | Inr st \<Rightarrow> if trg_provider spec \<noteq> None \<and> tst_enabled st then Some (meta_uid meta, meta, spec) else None))"

definition enabled_providers :: "resource_lib \<Rightarrow> document list \<Rightarrow> db \<Rightarrow> subscriptions" where
  "enabled_providers lib docs s = map (\<lambda>(uid, meta, _). (uid, meta_generation meta)) (List.map_filter (provider_entry lib s) docs)"

definition trigger_uids :: "resource_lib \<Rightarrow> document list \<Rightarrow> string list" where
  "trigger_uids lib docs = map (\<lambda>doc. case DecodeTrigger lib (doc_JSON doc) of Inr (meta, _) \<Rightarrow> meta_uid meta | Inl _ \<Rightarrow> []) docs"

lemma TriggerState_ensure:
  assumes "EnsureTriggerState env s uid g en now = Inr (st, s1)"
  shows "TriggerState s1 uid = Inr st" "uid' \<noteq> uid \<Longrightarrow> TriggerState s1 uid' = TriggerState s uid'"
  using assms by (auto simp: EnsureTriggerState_def ensureTriggerStateTx_def TriggerState_def Let_def select_row_append
      select_updated select_row_update_other split: option.splits if_splits)

lemma wanted_states:
  assumes "wanted_triggers env now docs s w = (Inr w', s')" "uid \<notin> set (trigger_uids (env_lib env) docs)"
  shows "TriggerState s' uid = TriggerState s uid"
  using assms
proof (induction env now docs s w rule: wanted_triggers.induct)
  case (2 env now doc docs s w)
  then show ?case by (auto simp: trigger_uids_def TriggerState_ensure(2) split: sum.splits if_splits prod.splits)
qed simp

lemma wanted_spec:
  assumes "wanted_triggers env now docs s w = (Inr w', s')" "distinct (trigger_uids (env_lib env) docs)"
    "fst ` set w \<inter> set (trigger_uids (env_lib env) docs) = {}"
  shows "w' = w @ List.map_filter (provider_entry (env_lib env) s') docs"
  using assms
proof (induction docs arbitrary: s w)
  case (Cons doc docs)
  obtain meta spec where d: "DecodeTrigger (env_lib env) (doc_JSON doc) = Inr (meta, spec)"
    using Cons.prems(1) by (cases "DecodeTrigger (env_lib env) (doc_JSON doc)") (auto split: prod.splits)
  let ?u = "meta_uid meta"
  have uids: "trigger_uids (env_lib env) (doc # docs) = ?u # trigger_uids (env_lib env) docs" using d by (simp add: trigger_uids_def)
  have dis: "distinct (trigger_uids (env_lib env) docs)" "?u \<notin> set (trigger_uids (env_lib env) docs)" "?u \<notin> fst ` set w"
    "fst ` set w \<inter> set (trigger_uids (env_lib env) docs) = {}"
    using Cons.prems(2,3) uids by auto
  show ?case
  proof (cases "trg_provider spec")
    case None
    then have "w' = w @ List.map_filter (provider_entry (env_lib env) s') docs" using Cons.prems(1) d dis by (intro Cons.IH) simp_all
    moreover have "provider_entry (env_lib env) s' doc = None" using None d by (simp add: provider_entry_def split: sum.splits)
    ultimately show ?thesis by (simp add: map_filter_simps)
  next
    case (Some p)
    then obtain st s1 where e: "EnsureTriggerState env s ?u (meta_generation meta) (trigger_enabled spec) now = Inr (st, s1)"
      using Cons.prems(1) d by (cases "EnsureTriggerState env s ?u (meta_generation meta) (trigger_enabled spec) now") auto
    let ?w = "if tst_enabled st then w @ [(?u, meta, spec)] else w"
    have r: "wanted_triggers env now docs s1 ?w = (Inr w', s')"
      using Cons.prems(1) d Some e dis(3) by (auto simp: map_put_def)
    have ts: "TriggerState s' ?u = Inr st" using wanted_states[OF r dis(2)] TriggerState_ensure(1)[OF e] by simp
    have "w' = ?w @ List.map_filter (provider_entry (env_lib env) s') docs" by (rule Cons.IH[OF r dis(1)]) (use dis in auto)
    moreover have "provider_entry (env_lib env) s' doc = (if tst_enabled st then Some (?u, meta, spec) else None)"
      using d Some ts by (simp add: provider_entry_def)
    ultimately show ?thesis by (simp add: map_filter_simps)
  qed
qed (simp add: map_filter_simps)

lemma entry_uids:
  assumes "distinct (trigger_uids lib docs)"
  shows "distinct (map fst (List.map_filter (provider_entry lib s) docs))"
    "fst ` set (List.map_filter (provider_entry lib s) docs) \<subseteq> set (trigger_uids lib docs)"
proof -
  have sub: "fst ` set (List.map_filter (provider_entry lib s) ds) \<subseteq> set (trigger_uids lib ds)" for ds
    by (induction ds) (auto simp: map_filter_simps provider_entry_def trigger_uids_def split: sum.splits if_splits)
  then show "fst ` set (List.map_filter (provider_entry lib s) docs) \<subseteq> set (trigger_uids lib docs)" .
  show "distinct (map fst (List.map_filter (provider_entry lib s) docs))" using assms
  proof (induction docs)
    case (Cons d docs)
    have IH: "distinct (map fst (List.map_filter (provider_entry lib s) docs))" using Cons by (simp add: trigger_uids_def)
    show ?case
    proof (cases "provider_entry lib s d")
      case (Some x)
      then have "trigger_uids lib (d # docs) = fst x # trigger_uids lib docs"
        by (auto simp: provider_entry_def trigger_uids_def split: sum.splits if_splits)
      then have "fst x \<notin> set (trigger_uids lib docs)" using Cons.prems by simp
      then show ?thesis using Some IH sub[of docs] by (auto simp: map_filter_simps)
    qed (use IH in \<open>simp add: map_filter_simps\<close>)
  qed (simp add: map_filter_simps)
qed

lemma entry_key: "(uid, meta, spec) \<in> set (List.map_filter (provider_entry lib s) docs) \<Longrightarrow> meta_uid meta = uid"
  by (induction docs) (auto simp: map_filter_simps provider_entry_def split: sum.splits if_splits option.splits)

lemma update_subscriptions_spec:
  assumes w: "distinct (map fst w)" "\<And>uid meta spec. (uid, meta, spec) \<in> set w \<Longrightarrow> meta_uid meta = uid"
    and subs: "distinct (map fst subs)" and r: "update_subscriptions w subs h = (subs', h', cancelled, started)"
    and E: "E = (\<lambda>(uid, meta, spec). (uid, meta_generation meta)) ` set w"
  shows "set subs' = E" "distinct (map fst subs')" "set cancelled = set subs - E"
    "(\<lambda>(meta, spec). (meta_uid meta, meta_generation meta)) ` set started = E - set subs"
proof -
  let ?kept = "filter (\<lambda>sub. \<not> stale_subscription w sub) subs"
  have E_mem: "(uid, g) \<in> E \<longleftrightarrow> (\<exists>meta spec. map_of w uid = Some (meta, spec) \<and> g = meta_generation meta)" for uid g
    using w(1) unfolding E by (force simp: map_of_eq_Some_iff)
  have stale: "stale_subscription w sub \<longleftrightarrow> sub \<notin> E" for sub
    using E_mem[of "fst sub" "snd sub"] by (auto simp: stale_subscription_def split: option.splits)
  have kept: "set ?kept = set subs \<inter> E" using stale by auto
  have eq: "subs' = ?kept @ map (\<lambda>(meta, _). (meta_uid meta, meta_generation meta)) started"
    "cancelled = filter (stale_subscription w) subs" "started = map snd (filter (\<lambda>(uid, _). map_of ?kept uid = None) w)"
    using r by (auto simp: update_subscriptions_def Let_def simp del: map_map)
  have fresh: "map_of ?kept uid = None \<longleftrightarrow> (uid, meta_generation meta) \<notin> set subs" if "(uid, meta, spec) \<in> set w" for uid meta spec
  proof -
    have "map_of w uid = Some (meta, spec)" using that w(1) by simp
    then have "(uid, g) \<in> E \<longleftrightarrow> g = meta_generation meta" for g using E_mem by auto
    then show ?thesis using kept by (force simp: map_of_eq_None_iff)
  qed
  show "set cancelled = set subs - E" using stale by (auto simp: eq(2))
  have st: "(\<lambda>(meta, spec). (meta_uid meta, meta_generation meta)) ` set started = E - set subs"
  proof (rule set_eqI)
    fix x :: "string \<times> nat"
    have "x \<in> (\<lambda>(meta, spec). (meta_uid meta, meta_generation meta)) ` set started \<longleftrightarrow>
        (\<exists>uid meta spec. (uid, meta, spec) \<in> set w \<and> map_of ?kept uid = None \<and> x = (meta_uid meta, meta_generation meta))"
      unfolding eq(3) by (auto simp: image_iff)
    also have "\<dots> \<longleftrightarrow> (\<exists>uid meta spec. (uid, meta, spec) \<in> set w \<and> x = (uid, meta_generation meta)) \<and> x \<notin> set subs"
      using fresh w(2) by metis
    also have "\<dots> \<longleftrightarrow> x \<in> E - set subs" unfolding E by (force simp: image_iff)
    finally show "x \<in> (\<lambda>(meta, spec). (meta_uid meta, meta_generation meta)) ` set started \<longleftrightarrow> x \<in> E - set subs" .
  qed
  then show "(\<lambda>(meta, spec). (meta_uid meta, meta_generation meta)) ` set started = E - set subs" .
  show "set subs' = E" using st kept unfolding eq(1) by (auto simp: case_prod_unfold)
  have keys: "map (\<lambda>x. meta_uid (fst x)) started = map fst (filter (\<lambda>(uid, _). map_of ?kept uid = None) w)"
    unfolding eq(3) using w(2) by (auto intro!: map_cong)
  have "distinct (map fst ?kept)" using subs by (simp add: distinct_map_filter)
  moreover have "distinct (map fst (filter (\<lambda>(uid, _). map_of ?kept uid = None) w))" using w(1) by (simp add: distinct_map_filter)
  moreover have "fst ` set ?kept \<inter> fst ` set (filter (\<lambda>(uid, _). map_of ?kept uid = None) w) = {}"
    by (force simp: map_of_eq_None_iff)
  moreover have "map fst subs' = map fst ?kept @ map fst (filter (\<lambda>(uid, _). map_of ?kept uid = None) w)"
    unfolding eq(1) using keys by (simp add: comp_def case_prod_unfold)
  ultimately show "distinct (map fst subs')" by (simp only: distinct_append set_map)
qed

lemma trigger_row_uid:
  assumes "row_ok lib r" "res_kind r = ''Trigger''" "decode_row lib r = Inr d"
  obtains t where "DecodeTrigger lib (doc_JSON d) = Inr (doc_metadata d, t)" "meta_uid (doc_metadata d) = res_uid r"
proof -
  have d: "decode_value lib (res_json r) = Inr d" using assms(3) by (auto simp: decode_row_def split: sum.splits)
  then have r: "r = row_of d (res_created r) (res_updated r)" using assms(1) by (simp add: row_ok_def)
  have k: "doc_kind d = ''Trigger''" "meta_uid (doc_metadata d) = res_uid r"
    using assms(2) arg_cong[OF r, of res_kind] arg_cong[OF r, of res_uid] by (simp_all add: row_of_def Let_def)
  obtain t where "DecodeTrigger lib (doc_JSON d) = Inr (doc_metadata d, t)" by (rule DecodeTrigger_JSON[OF decode_value_valid[OF d] k(1)])
  then show ?thesis using k(2) that by blast
qed

lemma listed_uids:
  assumes "decode_rows lib rows = Inr docs" "\<forall>r \<in> set rows. row_ok lib r \<and> res_kind r = ''Trigger''"
  shows "trigger_uids lib docs = map res_uid rows"
  using assms
proof (induction rows arbitrary: docs)
  case (Cons r rows)
  obtain d ds where d: "decode_row lib r = Inr d" "decode_rows lib rows = Inr ds" "docs = d # ds"
    using Cons.prems(1) by (auto split: sum.splits)
  obtain t where "DecodeTrigger lib (doc_JSON d) = Inr (doc_metadata d, t)" "meta_uid (doc_metadata d) = res_uid r"
    using Cons.prems(2) d(1) by (auto elim: trigger_row_uid[of lib r d])
  moreover have "trigger_uids lib ds = map res_uid rows" using Cons d(2) by simp
  ultimately show ?case by (simp add: d(3) trigger_uids_def)
qed (simp add: trigger_uids_def)

lemma listing_uids_distinct:
  assumes inv: "resources_inv lib s" and l: "ListResources lib s ''Trigger'' ns n = Inr (docs, rv)"
  shows "distinct (trigger_uids lib docs)"
proof -
  let ?rows = "take (page_limit n) (sort_key row_key (filter (in_scope ''Trigger'' ns) (db_resources s)))"
  have "set ?rows \<subseteq> set (filter (in_scope ''Trigger'' ns) (db_resources s))" by (auto dest: in_set_takeD)
  then have "\<forall>r \<in> set ?rows. row_ok lib r \<and> res_kind r = ''Trigger''" using inv by (auto simp: resources_inv_def in_scope_def)
  moreover have "decode_rows lib ?rows = Inr docs" using l by (auto simp: ListResources_def split: sum.splits)
  ultimately have "trigger_uids lib docs = map res_uid ?rows" by (rule listed_uids[rotated])
  moreover have "distinct (map res_uid (sort_key row_key (filter (in_scope ''Trigger'' ns) (db_resources s))))"
  proof -
    have "distinct (map res_uid (filter (in_scope ''Trigger'' ns) (db_resources s)))" using inv by (simp add: resources_inv_def distinct_map_filter)
    then show ?thesis by (simp add: distinct_map)
  qed
  ultimately show ?thesis by (simp add: distinct_take flip: take_map)
qed


section \<open>Concrete passes\<close>

text \<open>A schedule that fires every ten thousand seconds, and one whose cron line matches no date.\<close>

definition sample_schedule :: schedule_trigger where
  "sample_schedule = \<lparr>sched_cron = ''0 0 * * *'', sched_timezone = [], sched_misfirePolicy = [], sched_startingDeadline = [], sched_concurrencyPolicy = []\<rparr>"

definition sample_schedule_spec :: trigger_spec where
  "sample_schedule_spec = \<lparr>trg_flow = ''build'', trg_enabled = None, trg_schedule = Some sample_schedule, trg_webhook = None, trg_provider = None, trg_delivery = None\<rparr>"

definition every :: "nat \<Rightarrow> time \<Rightarrow> time" where
  "every period t = (t div period + 1) * period"

definition period_lib :: schedule_lib where
  "period_lib = \<lparr>sl_location = (\<lambda>_. True), sl_next = (\<lambda>_ _. Some (every 10000000000000))\<rparr>"

definition never_lib :: schedule_lib where
  "never_lib = \<lparr>sl_location = (\<lambda>_. True), sl_next = (\<lambda>_ _. Some (\<lambda>_. 0))\<rparr>"

definition sample_nightly :: document where
  "sample_nightly = sample_doc ''nightly'' (STrigger sample_schedule_spec)"

definition sample_nightly_db :: db where
  "sample_nightly_db = empty_db\<lparr>db_trigger_states := [\<lparr>tst_trigger_uid = [], tst_generation = 0, tst_enabled = True, tst_cursor = 0, tst_updated = 0\<rparr>]\<rparr>"

lemma sample_schedule_parses:
  "parseSchedule period_lib sample_schedule = Inr (every 10000000000000)" "parseSchedule never_lib sample_schedule = Inr (\<lambda>_. 0)"
proof -
  have "length (str_fields (sched_cron sample_schedule)) = 5" by code_simp
  then show "parseSchedule period_lib sample_schedule = Inr (every 10000000000000)" "parseSchedule never_lib sample_schedule = Inr (\<lambda>_. 0)"
    by (simp_all add: parseSchedule_def period_lib_def never_lib_def Let_def) (simp_all add: sample_schedule_def)
qed

lemma sample_nightly_state:
  "EnsureTriggerState env sample_nightly_db [] 0 en now =
     Inr (\<lparr>tst_trigger_uid = [], tst_generation = 0, tst_enabled = True, tst_cursor = 0, tst_updated = 0\<rparr>, sample_nightly_db)"
  by (simp add: EnsureTriggerState_def ensureTriggerStateTx_def sample_nightly_db_def)

lemma sample_nightly_meta: "meta_uid (Samples.sample_meta n) = []" "meta_generation (Samples.sample_meta n) = 0"
  by (simp_all add: Samples.sample_meta_def)

lemma sample_scan: "scan_due maxCatchupScan (every 10000000000000) 15000000000000 0 = [10000000000000]"
proof -
  have "scan_due (Suc (Suc 9998)) (every 10000000000000) 15000000000000 0 = [10000000000000]"
    unfolding scan_due.simps by (simp add: every_def)
  then show ?thesis by (simp add: maxCatchupScan_def)
qed

lemma sample_pass:
  "\<exists>s'. reconcileSchedule sample_orch period_lib ru uu 15000000000000 (Samples.sample_meta n) sample_schedule_spec sample_schedule sample_nightly_db = Some (Inr (), s')"
  using sample_nightly_state sample_scan
  by (simp add: reconcileSchedule_def sample_schedule_parses sample_nightly_meta Let_def maxCatchupScan_def ParseDuration_def time_sub_def
      skip_occurrence_def advance_schedule_def AdvanceTriggerCursor_def fail_if_def rows_affected_def RecordTriggerSkip_def
      sample_nightly_db_def sample_orch_def sample_schedule_def[THEN arg_cong, of sched_startingDeadline, simplified])

theorem schedule_pass_settles_latest_witness:
  "\<exists>s' n. reconcileSchedule sample_orch period_lib ''rc1'' ''run1'' 15000000000000 (Samples.sample_meta ''nightly'') sample_schedule_spec
       sample_schedule sample_nightly_db = Some (Inr (), s') \<and> 15000000000000 < (every 10000000000000 ^^ Suc n) 0 \<and>
     trigger_cursor s' [] = Some ((every 10000000000000 ^^ n) 0)"
proof -
  obtain s' where r: "reconcileSchedule sample_orch period_lib ''rc1'' ''run1'' 15000000000000 (Samples.sample_meta ''nightly'') sample_schedule_spec
    sample_schedule sample_nightly_db = Some (Inr (), s')" using sample_pass by blast
  have calm: "schedule_calm sample_orch (meta_uid (Samples.sample_meta ''nightly''))" by (simp add: schedule_calm_def sample_orch_def)
  show ?thesis
    using schedule_pass_settles_latest[OF calm sample_schedule_parses(1) _ _ r, unfolded sample_nightly_meta, OF sample_nightly_state] r by auto
qed

lemma never_iterates: "0 < k \<Longrightarrow> ((\<lambda>_. 0) ^^ k) (c :: time) = (0 :: time)"
  by (cases k) auto

lemma sample_nightly_decodes: "DecodeTrigger Samples.sample_lib (doc_JSON sample_nightly) = Inr (Samples.sample_meta ''nightly'', sample_schedule_spec)"
proof -
  have v: "doc_valid Samples.sample_lib sample_nightly" by code_simp
  have k: "doc_kind sample_nightly = ''Trigger''" by (simp add: sample_nightly_def sample_doc_def)
  show ?thesis by (rule DecodeTrigger_JSON[OF v k]) (simp add: sample_nightly_def sample_doc_def)
qed

theorem stuck_schedule_blocks_the_rest_witness:
  "reconcile_documents sample_orch never_lib (\<lambda>_. (''rc'', ''run'')) 9 ([] @ sample_nightly # [sample_trigger]) sample_nightly_db =
     Some (Inl (TrgText ''schedule catch-up scan exceeded 10000 occurrences''), sample_nightly_db)"
proof (rule stuck_schedule_blocks_the_rest[where now = 1])
  show "reconcile_documents sample_orch never_lib (\<lambda>_. (''rc'', ''run'')) 9 [] sample_nightly_db = Some (Inr (), sample_nightly_db)" by simp
  show "DecodeTrigger (env_lib (oe_env sample_orch)) (doc_JSON sample_nightly) = Inr (Samples.sample_meta ''nightly'', sample_schedule_spec)"
    using sample_nightly_decodes by (simp add: sample_orch_def)
  show "trg_schedule sample_schedule_spec = Some sample_schedule" by (simp add: sample_schedule_spec_def)
  show "parseSchedule never_lib sample_schedule = Inr (\<lambda>_. 0)" by (rule sample_schedule_parses)
  show "TriggerState sample_nightly_db (meta_uid (Samples.sample_meta ''nightly'')) =
    Inr \<lparr>tst_trigger_uid = [], tst_generation = 0, tst_enabled = True, tst_cursor = 0, tst_updated = 0\<rparr>"
    by (simp add: TriggerState_def sample_nightly_db_def sample_nightly_meta)
qed (auto simp: sample_nightly_meta never_iterates)

text \<open>A provider Trigger, in a store with a delivery that was accepted before.\<close>

definition sample_provider_spec :: trigger_spec where
  "sample_provider_spec = \<lparr>trg_flow = ''build'', trg_enabled = None, trg_schedule = None, trg_webhook = None,
     trg_provider = Some \<lparr>prov_plugin = ''github'', prov_source = ''issues'', prov_config = []\<rparr>, trg_delivery = None\<rparr>"

definition sample_provider_db :: db where
  "sample_provider_db = run_requests exec_resource
     [(Samples.sample_env, ReqApply ''flow-uid'' ''r1'' sample_flow (sample_opts 0)),
      (Samples.sample_env, ReqApply ''trigger-uid'' ''r2'' (sample_doc ''watch'' (STrigger sample_provider_spec)) (sample_opts 0))] empty_db"

definition sample_delivered_db :: db where
  "sample_delivered_db = (case acceptTrigger Samples.sample_env ''rc1'' ''run1'' sample_provider_db sample_acceptance of Inr (_, s) \<Rightarrow> s | Inl _ \<Rightarrow> empty_db)"

definition sample_watch_meta :: object_meta where
  "sample_watch_meta = (Samples.sample_meta ''watch'')\<lparr>meta_uid := ''trigger-uid'', meta_generation := 1\<rparr>"

definition sample_event :: trigger_event where
  "sample_event = \<lparr>pe_providerEventId = ''delivery-1'', pe_cursor = ''c2'', pe_payload = Some (JObj []), pe_targetRunUid = []\<rparr>"

lemma sample_delivery:
  "case watch_callback sample_orch ''rc2'' ''run2'' sample_watch_meta sample_provider_spec sample_event sample_delivered_db of
     Some (Inr _, s') \<Rightarrow> True | _ \<Rightarrow> False"
  by code_simp

lemma sample_sync:
  "case syncProviders Samples.sample_env True 7 sample_provider_db [(''gone'', 1)] [] of
     (Inr (c, st), s', subs', h') \<Rightarrow> c = [(''gone'', 1)] \<and> subs' = [(''trigger-uid'', 1)] | _ \<Rightarrow> False"
  by code_simp

lemma sample_provider_db_inv: "resources_inv Samples.sample_lib sample_provider_db"
proof -
  have "doc_valid Samples.sample_lib (sample_doc ''watch'' (STrigger sample_provider_spec))" by code_simp
  then show ?thesis unfolding sample_provider_db_def
    by (intro resource_log.inv_run[OF empty_db_inv]) (simp add: sample_flow_valid)
qed

lemma sample_listing: "is_ok (ListResources Samples.sample_lib sample_provider_db ''Trigger'' DefaultNamespace 1000)"
  by code_simp

theorem acknowledged_event_is_durable_witness:
  "\<exists>s'. watch_callback sample_orch ''rc2'' ''run2'' sample_watch_meta sample_provider_spec sample_event sample_delivered_db = Some (Inr (), s') \<and>
     ProviderCursor s' (meta_uid sample_watch_meta) = (''c2'', ''delivery-1'')"
proof -
  obtain s' where r: "watch_callback sample_orch ''rc2'' ''run2'' sample_watch_meta sample_provider_spec sample_event sample_delivered_db = Some (Inr (), s')"
    using sample_delivery by (auto split: option.splits prod.splits sum.splits)
  show ?thesis using acknowledged_event_is_durable[OF r] r by (auto simp: sample_event_def)
qed


end
