(* ===== verification/Http_Ingress.thy ===== *)
theory Http_Ingress
  imports Trigger_Controller
begin

text \<open>
  The webhook listener, \<open>internal/httpingress/server.go\<close>: one request is a function of the store. The body is given by its length and,
  when it is JSON, its value; a header that is absent is empty. The secret resolver is a parameter, and so is what
  other clients do between the transactions (\<open>oe_between\<close>). \<open>subtle.ConstantTimeCompare\<close> is equality of the bytes.

  The theorems: an occurrence is accepted only for a POST to an existing, enabled webhook with its secret and a valid body,
  and every other answer leaves receipts and commands as they were; a retry with the same idempotency key gets the same Run.
\<close>

definition maxBody :: nat where
  "maxBody = 1048576"

record http_request =
  hr_method :: string
  hr_path :: string
  hr_authorization :: string
  hr_idempotencyKey :: string
  hr_readable :: bool
  hr_length :: nat
  hr_json :: "json option"

datatype http_response = HttpError nat string | HttpAccepted receipt

definition unavailableTrigger :: "orch_error \<Rightarrow> bool" where
  "unavailableTrigger e =
     (case e of
        OrchStore x \<Rightarrow> (case x of ErrNotFound \<Rightarrow> True | ErrTriggerDisabled \<Rightarrow> True | StaleFlowPlanError _ _ _ _ \<Rightarrow> True
          | StaleTriggerGenerationError _ _ \<Rightarrow> True | TriggerReferenceChangedError \<Rightarrow> True | _ \<Rightarrow> False)
      | OrchEngine (EngStore ErrNotFound) \<Rightarrow> True
      | _ \<Rightarrow> False)"

text \<open>The Trigger a path names, if it is an enabled webhook.\<close>

definition hook_uid :: "http_request \<Rightarrow> string option" where
  "hook_uid rq =
     (let uid = trim_prefix (hr_path rq) ''/v1/hooks/'' in
      if uid = hr_path rq \<or> uid = [] \<or> CHR ''/'' \<in> set uid then None else Some uid)"

definition find_hook :: "resource_lib \<Rightarrow> db \<Rightarrow> string \<Rightarrow> (object_meta \<times> trigger_spec \<times> webhook_trigger) option" where
  "find_hook lib s uid =
     (case ResourceByUID lib s ''Trigger'' uid of
        Inl _ \<Rightarrow> None
      | Inr doc \<Rightarrow> (case DecodeTrigger lib (doc_JSON doc) of
          Inl _ \<Rightarrow> None
        | Inr (meta, spec) \<Rightarrow> (case trg_webhook spec of
            None \<Rightarrow> None
          | Some hook \<Rightarrow> if trg_enabled spec = Some False then None else Some (meta, spec, hook))))"

text \<open>The checks of the credentials and the body: the idempotency key and the decoded body, or the error.\<close>

definition provided_secret :: "http_request \<Rightarrow> string" where
  "provided_secret rq = trim_prefix (hr_authorization rq) ''Bearer ''"

definition check_request :: "string \<Rightarrow> http_request \<Rightarrow> (nat \<times> string, string \<times> json) result" where
  "check_request secret rq =
     (if provided_secret rq = [] \<or> provided_secret rq \<noteq> secret then Inl (401, ''unauthorized'')
      else if \<not> hr_readable rq then Inl (400, ''body_unreadable'')
      else if hr_length rq > maxBody then Inl (413, ''body_too_large'')
      else (case hr_json rq of
          None \<Rightarrow> Inl (400, ''invalid_json'')
        | Some body \<Rightarrow>
            let key = trim_space (hr_idempotencyKey rq) in
            if length key > 256 then Inl (400, ''idempotency_key_too_long'') else Inr (key, body)))"

definition accept_hook :: "'b orch_env \<Rightarrow> string \<Rightarrow> string \<Rightarrow> string \<Rightarrow> object_meta \<Rightarrow> trigger_spec \<Rightarrow> string \<Rightarrow> json \<Rightarrow> db \<Rightarrow> (http_response \<times> db) option" where
  "accept_hook oe receiptUID runUID freshKey meta spec key body s =
     map_option (\<lambda>r. case r of
         Inl e \<Rightarrow> (if unavailableTrigger e then HttpError 404 ''hook_not_found'' else HttpError 500 ''persistence_failed'', s)
       | Inr (receipt, s') \<Rightarrow> (HttpAccepted receipt, s'))
     (Orch_AcceptTrigger oe receiptUID runUID s (meta_uid meta) (meta_generation meta) (''webhook:'' @ (if key = [] then freshKey else key))
        (trg_flow spec) (meta_namespace meta) (Some body) (key \<noteq> []))"

definition ServeHTTP :: "'b orch_env \<Rightarrow> (string \<Rightarrow> string \<Rightarrow> string option) \<Rightarrow> time \<Rightarrow> string \<Rightarrow> string \<Rightarrow> string \<Rightarrow> http_request \<Rightarrow> db
    \<Rightarrow> (http_response \<times> db) option" where
  "ServeHTTP oe resolveSecret now receiptUID runUID freshKey rq s =
     (if hr_method rq \<noteq> ''POST'' then Some (HttpError 405 ''method_not_allowed'', s)
      else (case hook_uid rq of
          None \<Rightarrow> Some (HttpError 404 ''hook_not_found'', s)
        | Some uid \<Rightarrow> (case find_hook (env_lib (oe_env oe)) s uid of
            None \<Rightarrow> Some (HttpError 404 ''hook_not_found'', s)
          | Some (meta, spec, hook) \<Rightarrow>
              let s1 = oe_between oe 16 s in
              case EnsureTriggerState (oe_env oe) s1 (meta_uid meta) (meta_generation meta) (trigger_enabled spec) now of
                Inl _ \<Rightarrow> Some (HttpError 503 ''hook_state_unavailable'', s1)
              | Inr (st, s2) \<Rightarrow>
                  if \<not> tst_enabled st then Some (HttpError 404 ''hook_not_found'', s2)
                  else (case resolveSecret (meta_namespace meta) (hook_bearerSecretRef hook) of
                      None \<Rightarrow> Some (HttpError 503 ''hook_secret_unavailable'', s2)
                    | Some secret \<Rightarrow> (case check_request secret rq of
                        Inl (code, text) \<Rightarrow> Some (HttpError code text, s2)
                      | Inr (key, body) \<Rightarrow> accept_hook oe receiptUID runUID freshKey meta spec key body (oe_between oe 17 s2))))))"

section \<open>What an answer means\<close>

lemma find_hook_uid:
  assumes inv: "resources_inv lib s" and f: "find_hook lib s uid = Some (meta, spec, hook)"
  shows "meta_uid meta = uid"
proof -
  obtain d where d: "ResourceByUID lib s ''Trigger'' uid = Inr d" "DecodeTrigger lib (doc_JSON d) = Inr (meta, spec)"
    using f by (auto simp: find_hook_def split: sum.splits prod.splits option.splits if_splits)
  then obtain r where r: "r \<in> set (db_resources s)" "res_kind r = ''Trigger''" "res_uid r = uid" "decode_row lib r = Inr d"
    by (auto simp: ResourceByUID_def split: option.splits dest!: select_row_SomeD)
  have "row_ok lib r" using inv r(1) by (simp add: resources_inv_def)
  then obtain t where "DecodeTrigger lib (doc_JSON d) = Inr (doc_metadata d, t)" "meta_uid (doc_metadata d) = res_uid r"
    using r(2,4) by (rule trigger_row_uid)
  then show ?thesis using d(2) r(3) by simp
qed

lemma trim_prefix_append: "trim_prefix s p \<noteq> s \<Longrightarrow> s = p @ trim_prefix s p"
  by (metis append_take_drop_id has_prefix_def trim_prefix_def)

lemma hook_uid_path:
  assumes "hook_uid rq = Some uid"
  shows "hr_path rq = ''/v1/hooks/'' @ uid"
proof -
  have "trim_prefix (hr_path rq) ''/v1/hooks/'' = uid" "trim_prefix (hr_path rq) ''/v1/hooks/'' \<noteq> hr_path rq"
    using assms unfolding hook_uid_def Let_def by (metis option.distinct(1) option.inject)+
  then show ?thesis using trim_prefix_append by metis
qed

text \<open>Every answer comes from one of the checks or from an acceptance.\<close>

definition hook_key :: "http_request \<Rightarrow> string" where
  "hook_key rq = ''webhook:'' @ trim_space (hr_idempotencyKey rq)"

lemma ServeHTTP_cases:
  assumes "ServeHTTP oe rs now ru uu k rq s = Some (resp, s')"
  obtains (rejected) code msg where "resp = HttpError code msg" "code \<in> {400, 401, 404, 405, 413, 503}"
      "s' = s \<or> s' = oe_between oe 16 s \<or> (\<exists>st u g en. EnsureTriggerState (oe_env oe) (oe_between oe 16 s) u g en now = Inr (st, s'))"
  | (accepting) uid meta spec hook secret body st s2 where "hr_method rq = ''POST''" "hook_uid rq = Some uid"
      "find_hook (env_lib (oe_env oe)) s uid = Some (meta, spec, hook)"
      "EnsureTriggerState (oe_env oe) (oe_between oe 16 s) (meta_uid meta) (meta_generation meta) (trigger_enabled spec) now = Inr (st, s2)"
      "rs (meta_namespace meta) (hook_bearerSecretRef hook) = Some secret" "check_request secret rq = Inr (trim_space (hr_idempotencyKey rq), body)"
      "accept_hook oe ru uu k meta spec (trim_space (hr_idempotencyKey rq)) body (oe_between oe 17 s2) = Some (resp, s')"
proof (cases "hr_method rq = ''POST''")
  case False
  then show ?thesis using assms rejected by (auto simp: ServeHTTP_def)
next
  case post: True
  show ?thesis
  proof (cases "hook_uid rq")
    case None
    then show ?thesis using assms post rejected by (auto simp: ServeHTTP_def)
  next
    case uid: (Some uid)
    show ?thesis
    proof (cases "find_hook (env_lib (oe_env oe)) s uid")
      case None
      then show ?thesis using assms post uid rejected by (auto simp: ServeHTTP_def)
    next
      case (Some m)
      obtain meta spec hook where m: "find_hook (env_lib (oe_env oe)) s uid = Some (meta, spec, hook)" using Some by (cases m) auto
      let ?e = "EnsureTriggerState (oe_env oe) (oe_between oe 16 s) (meta_uid meta) (meta_generation meta) (trigger_enabled spec) now"
      show ?thesis
      proof (cases ?e)
        case (Inl e)
        then show ?thesis using assms post uid m rejected by (auto simp: ServeHTTP_def Let_def)
      next
        case (Inr x)
        obtain st s2 where e: "?e = Inr (st, s2)" using Inr by (cases x) auto
        then have ex: "\<exists>st u g en. EnsureTriggerState (oe_env oe) (oe_between oe 16 s) u g en now = Inr (st, s2)" by blast
        let ?s = "rs (meta_namespace meta) (hook_bearerSecretRef hook)"
        consider "\<not> tst_enabled st" | "tst_enabled st" "?s = None"
          | secret c where "tst_enabled st" "?s = Some secret" "check_request secret rq = Inl c"
          | secret kb where "tst_enabled st" "?s = Some secret" "check_request secret rq = Inr kb"
          by (metis option.exhaust sum.exhaust_sel)
        then show ?thesis
        proof cases
          case 1
          then have "resp = HttpError 404 ''hook_not_found''" "s' = s2" using assms post uid m e by (simp_all add: ServeHTTP_def Let_def)
          then show ?thesis using ex by (intro rejected[of 404 "''hook_not_found''"]) simp_all
        next
          case 2
          then have "resp = HttpError 503 ''hook_secret_unavailable''" "s' = s2" using assms post uid m e by (simp_all add: ServeHTTP_def Let_def)
          then show ?thesis using ex by (intro rejected[of 503 "''hook_secret_unavailable''"]) simp_all
        next
          case (3 secret c)
          have "fst c \<in> {400, 401, 404, 405, 413, 503}"
            using 3(3) by (auto simp: check_request_def Let_def split: if_splits option.splits)
          moreover have "resp = HttpError (fst c) (snd c)" "s' = s2" using assms post uid m e 3 by (cases c; simp add: ServeHTTP_def Let_def)+
          ultimately show ?thesis using ex by (intro rejected[of "fst c" "snd c"]) simp_all
        next
          case (4 secret kb)
          have kb: "fst kb = trim_space (hr_idempotencyKey rq)"
            using 4(3) by (auto simp: check_request_def Let_def split: if_splits option.splits)
          have "accept_hook oe ru uu k meta spec (fst kb) (snd kb) (oe_between oe 17 s2) = Some (resp, s')"
            using assms post uid m e 4 by (cases kb) (simp add: ServeHTTP_def Let_def)
          moreover have "check_request secret rq = Inr (trim_space (hr_idempotencyKey rq), snd kb)" using 4(3) kb by (cases kb) simp
          ultimately show ?thesis using post uid m e 4(2) kb accepting by simp
        qed
      qed
    qed
  qed
qed

lemma ensure_frame:
  assumes "EnsureTriggerState env s u g en now = Inr (st, s')"
  shows "db_receipts s' = db_receipts s" "db_outbox s' = db_outbox s" "db_runs s' = db_runs s" "known s' = known s"
  using assms by (auto simp: EnsureTriggerState_def ensureTriggerStateTx_def Let_def intro!: known_cong split: option.splits if_splits)

lemma accept_hook_cases:
  assumes "accept_hook oe ru uu k meta spec key body s = Some (resp, s')"
  obtains (error) code msg where "resp = HttpError code msg" "code \<in> {404, 500}" "s' = s"
  | (accepted) rc where "resp = HttpAccepted rc"
      "Orch_AcceptTrigger oe ru uu s (meta_uid meta) (meta_generation meta) (''webhook:'' @ (if key = [] then k else key))
        (trg_flow spec) (meta_namespace meta) (Some body) (key \<noteq> []) = Some (Inr (rc, s'))"
proof -
  obtain a where a: "Orch_AcceptTrigger oe ru uu s (meta_uid meta) (meta_generation meta) (''webhook:'' @ (if key = [] then k else key))
        (trg_flow spec) (meta_namespace meta) (Some body) (key \<noteq> []) = Some a"
    and r: "(case a of Inl e \<Rightarrow> (if unavailableTrigger e then HttpError 404 ''hook_not_found'' else HttpError 500 ''persistence_failed'', s)
       | Inr (receipt, s') \<Rightarrow> (HttpAccepted receipt, s')) = (resp, s')"
    using assms by (auto simp: accept_hook_def)
  show ?thesis
  proof (cases a)
    case (Inl e)
    then show ?thesis using r error by (auto split: if_splits)
  next
    case (Inr x)
    then show ?thesis using r a accepted by (cases x) auto
  qed
qed


text \<open>C17: a webhook that is retried with the same idempotency key starts nothing new: in any later state of the store the retry is answered with
  the receipt and the Run of the first request and marked as a duplicate, whatever else was accepted, finished or collected in between.\<close>

theorem webhook_retry_is_idempotent:
  assumes first: "ServeHTTP oe rs now ru uu k rq s = Some (HttpAccepted rc, s')" and key: "trim_space (hr_idempotencyKey rq) \<noteq> []"
    and later: "known_before s' t" "\<And>i u. known_before u (oe_between oe i u)"
    and retry: "ServeHTTP oe rs' now' ru' uu' k' rq' t = Some (HttpAccepted rc', t')" "hr_path rq' = hr_path rq"
      "trim_space (hr_idempotencyKey rq') = trim_space (hr_idempotencyKey rq)"
    and inv: "resources_inv (env_lib (oe_env oe)) s" "resources_inv (env_lib (oe_env oe)) t"
  shows "rc_uid rc' = rc_uid rc \<and> rc_run_uid rc' = rc_run_uid rc \<and> rc_existing rc'"
  using first
proof (cases rule: ServeHTTP_cases)
  case (accepting uid meta spec hook secret body st s2)
  from accepting(7) obtain a where a: "Orch_AcceptTrigger oe ru uu (oe_between oe 17 s2) (meta_uid meta) (meta_generation meta) (hook_key rq)
      (trg_flow spec) (meta_namespace meta) (Some body) True = Some (Inr (rc, s'))"
    by (cases rule: accept_hook_cases) (use key in \<open>auto simp: hook_key_def\<close>)
  have u: "meta_uid meta = uid" by (rule find_hook_uid[OF inv(1) accepting(3)])
  have known1: "known s' uid (hook_key rq) = Some (rc_uid rc, rc_run_uid rc)" using Orch_AcceptTrigger_receipt(1)[OF a] u by simp
  from retry(1) show ?thesis
  proof (cases rule: ServeHTTP_cases)
    case 2: (accepting uid' meta' spec' hook' secret' body' st' s2')
    from 2(7) have b: "Orch_AcceptTrigger oe ru' uu' (oe_between oe 17 s2') (meta_uid meta') (meta_generation meta') (hook_key rq)
        (trg_flow spec') (meta_namespace meta') (Some body') True = Some (Inr (rc', t'))"
      by (cases rule: accept_hook_cases) (use key retry(3) in \<open>auto simp: hook_key_def\<close>)
    have "uid' = uid" using hook_uid_path[OF 2(2)] hook_uid_path[OF accepting(2)] retry(2) by simp
    then have u': "meta_uid meta' = uid" using find_hook_uid[OF inv(2) 2(3)] by simp
    have "known_before t (oe_between oe 17 s2')"
      using later(2) ensure_frame(4)[OF 2(4)] unfolding known_before_def by metis
    then have kb: "known (oe_between oe 17 s2') uid (hook_key rq) = Some v" if "known s' uid (hook_key rq) = Some v" for v
      using that later(1) unfolding known_before_def by blast
    let ?q = "\<lambda>ru uu m sp bd. \<lparr>ar_receiptUID = ru, ar_runUID = uu, ar_triggerUID = meta_uid m, ar_generation = meta_generation m, ar_occurrenceID = hook_key rq,
      ar_flow = trg_flow sp, ar_namespace = meta_namespace m, ar_input = Some bd, ar_deduplicated = True\<rparr>"
    have qa: "orch_accept oe (?q ru uu meta spec body) (oe_between oe 17 s2) = Some (rc, s')"
      and qb: "orch_accept oe (?q ru' uu' meta' spec' body') (oe_between oe 17 s2') = Some (rc', t')"
      using a b by (simp_all add: orch_accept_def)
    have "(rc_uid rc', rc_run_uid rc') = (rc_uid rc, rc_run_uid rc)"
      by (rule orch_acceptor.retry_same_answer[OF qa qb]) (use u u' kb in \<open>simp_all add: request_occurrence_def\<close>)
    moreover have "rc_existing rc'" using Orch_AcceptTrigger_receipt(2)[OF b] u' kb[OF known1] by auto
    ultimately show ?thesis by simp
  qed (use retry(1) in simp)
qed simp

section \<open>A concrete webhook\<close>

definition sample_hook_db :: db where
  "sample_hook_db = (case acceptTrigger Samples.sample_env ''rc1'' ''run1'' sample_db
       (sample_acceptance\<lparr>acc_occurrence_id := ''webhook:k1'', acc_cursor := []\<rparr>) of Inr (_, s) \<Rightarrow> s | Inl _ \<Rightarrow> empty_db)"

definition sample_hook_request :: http_request where
  "sample_hook_request = \<lparr>hr_method = ''POST'', hr_path = ''/v1/hooks/trigger-uid'', hr_authorization = ''Bearer s3cret'', hr_idempotencyKey = ''k1'',
     hr_readable = True, hr_length = 2, hr_json = Some (JObj [])\<rparr>"

definition sample_secrets :: "string \<Rightarrow> string \<Rightarrow> string option" where
  "sample_secrets ns name = Some ''s3cret''"

lemma sample_hook_steps:
  "hook_uid sample_hook_request = Some ''trigger-uid''"
  "case find_hook Samples.sample_lib sample_hook_db ''trigger-uid'' of
     Some (meta, spec, hook) \<Rightarrow> meta_uid meta = ''trigger-uid'' \<and> meta_generation meta = 1 \<and> trigger_enabled spec | None \<Rightarrow> False"
  "case EnsureTriggerState Samples.sample_env sample_hook_db ''trigger-uid'' 1 True 7 of Inr (st, _) \<Rightarrow> tst_enabled st | Inl _ \<Rightarrow> False"
  "known sample_hook_db ''trigger-uid'' ''webhook:k1'' = Some (''rc1'', ''run1'')"
  by code_simp+

lemma sample_hook_checked: "check_request ''s3cret'' sample_hook_request = Inr (''k1'', JObj [])"
proof -
  have "provided_secret sample_hook_request = ''s3cret''" "trim_space (hr_idempotencyKey sample_hook_request) = ''k1''" by code_simp+
  then show ?thesis by (simp add: check_request_def Let_def maxBody_def) (simp add: sample_hook_request_def)
qed

lemma sample_hook_answer:
  obtains rc s' where "ServeHTTP sample_orch sample_secrets 7 ''rc2'' ''run2'' ''fresh'' sample_hook_request sample_hook_db = Some (HttpAccepted rc, s')"
    "rc_run_uid rc = ''run1''" "known s' = known sample_hook_db"
proof -
  obtain meta spec hook where f: "find_hook Samples.sample_lib sample_hook_db ''trigger-uid'' = Some (meta, spec, hook)"
    "meta_uid meta = ''trigger-uid''" "meta_generation meta = 1" "trigger_enabled spec" using sample_hook_steps(2) by (auto split: option.splits)
  obtain st s2 where e: "EnsureTriggerState Samples.sample_env sample_hook_db ''trigger-uid'' 1 True 7 = Inr (st, s2)" "tst_enabled st"
    using sample_hook_steps(3) by (auto split: sum.splits)
  have k: "known s2 = known sample_hook_db" by (rule ensure_frame(4)[OF e(1)])
  then obtain x where x: "receiptByOccurrence s2 ''trigger-uid'' ''webhook:k1'' = Inr x" "rc_run_uid x = ''run1''"
    using sample_hook_steps(4) known_Some_receipt(1)[of s2 "''trigger-uid''" "''webhook:k1''"] by auto
  have m: "hr_method sample_hook_request = ''POST''" by (simp add: sample_hook_request_def)
  have se: "oe_env sample_orch = Samples.sample_env" "oe_between sample_orch = (\<lambda>_ t. t)" by (simp_all add: sample_orch_def)
  have "Orch_AcceptTrigger sample_orch ''rc2'' ''run2'' s2 ''trigger-uid'' 1 ''webhook:k1'' (trg_flow spec) (meta_namespace meta) (Some (JObj [])) True =
      Some (Inr (x\<lparr>rc_existing := True\<rparr>, s2))"
    using x(1) by (simp add: Orch_AcceptTrigger_def ReceiptByOccurrence_def)
  then have "accept_hook sample_orch ''rc2'' ''run2'' ''fresh'' meta spec ''k1'' (JObj []) s2 = Some (HttpAccepted (x\<lparr>rc_existing := True\<rparr>), s2)"
    by (simp add: accept_hook_def f)
  then have "ServeHTTP sample_orch sample_secrets 7 ''rc2'' ''run2'' ''fresh'' sample_hook_request sample_hook_db = Some (HttpAccepted (x\<lparr>rc_existing := True\<rparr>), s2)"
    using sample_hook_steps(1) f e m sample_hook_checked by (simp add: ServeHTTP_def se sample_secrets_def Let_def)
  then show ?thesis by (rule that) (use k x(2) in simp_all)
qed


lemma accept_keeps_resources:
  assumes "acceptTrigger env ru uu s a = Inr (r, s')" "resources_inv lib s"
  shows "resources_inv lib s'"
proof -
  have "db_resources s' = db_resources s \<and> db_events s' = db_events s \<and> db_audit s' = db_audit s \<and> db_revision s' = db_revision s"
    using assms(1) by (auto simp: acceptTrigger_def pin_plan_def insert_plan_def insert_receipt_def insert_outbox_def advance_cursor_def
        upsertProviderCursor_def Let_def split: if_splits sum.splits option.splits)
  then show ?thesis using assms(2) by (auto simp: resources_inv_def stored_def fun_eq_iff)
qed

lemma sample_hook_db_inv: "resources_inv Samples.sample_lib sample_hook_db"
proof -
  let ?qs = "[(Samples.sample_env, ReqApply ''flow-uid'' ''r1'' sample_flow (sample_opts 0)),
      (Samples.sample_env, ReqApply ''trigger-uid'' ''r2'' sample_trigger (sample_opts 0))]"
  have "list_all (resource_request_ok Samples.sample_lib) ?qs" using sample_flow_valid sample_trigger_valid by simp
  then have i: "resources_inv Samples.sample_lib sample_db"
    unfolding sample_db_def by (rule resource_log.inv_run[OF empty_db_inv])
  have "is_ok (acceptTrigger Samples.sample_env ''rc1'' ''run1'' sample_db (sample_acceptance\<lparr>acc_occurrence_id := ''webhook:k1'', acc_cursor := []\<rparr>))"
    by code_simp
  then show ?thesis unfolding sample_hook_db_def using accept_keeps_resources[OF _ i] by (auto simp: is_ok_def split: sum.splits)
qed

theorem webhook_retry_is_idempotent_witness:
  "\<exists>rc s'. ServeHTTP sample_orch sample_secrets 7 ''rc2'' ''run2'' ''fresh'' sample_hook_request sample_hook_db = Some (HttpAccepted rc, s') \<and> rc_existing rc"
proof -
  obtain rc s' where r: "ServeHTTP sample_orch sample_secrets 7 ''rc2'' ''run2'' ''fresh'' sample_hook_request sample_hook_db = Some (HttpAccepted rc, s')"
    "known s' = known sample_hook_db" by (rule sample_hook_answer)
  have key: "trim_space (hr_idempotencyKey sample_hook_request) \<noteq> []" by code_simp
  have kb: "known_before s' sample_hook_db" "\<And>i u. known_before u (oe_between sample_orch i u)" using r(2) by (simp_all add: known_before_def sample_orch_def)
  have inv: "resources_inv (env_lib (oe_env sample_orch)) sample_hook_db" using sample_hook_db_inv by (simp add: sample_orch_def)
  show ?thesis using webhook_retry_is_idempotent[OF r(1) key kb r(1) refl refl inv inv] r(1) by blast
qed

end
