(* ===== verification/Json_Text.thy ===== *)
theory Json_Text
  imports Json
begin

text \<open>
  JSON texts: what \<open>json.Marshal\<close> prints and what \<open>json.Unmarshal\<close> and \<open>json.Valid\<close> read. A number literal that is not a plain
  integer is kept as it is written (\<open>JFloat\<close>), as \<open>json.Number\<close> does. Strings are bytes; those above 127 are taken to be part of valid
  UTF-8 other than U+2028 and U+2029. The nesting limit of the decoder (10,000) is not modelled. The last of several equal keys counts.
\<close>

section \<open>Printing\<close>

definition hex_char :: "nat \<Rightarrow> char" where
  "hex_char n = (if n < 10 then char_of (48 + n) else char_of (87 + n))"

definition escape_char :: "char \<Rightarrow> string" where
  "escape_char c =
     (if c = CHR 0x22 \<or> c = CHR 0x5C then [CHR 0x5C, c]
      else if c = CHR 0x08 then [CHR 0x5C, CHR ''b''] else if c = CHR 0x0C then [CHR 0x5C, CHR ''f'']
      else if c = CHR 0x0A then [CHR 0x5C, CHR ''n''] else if c = CHR 0x0D then [CHR 0x5C, CHR ''r'']
      else if c = CHR 0x09 then [CHR 0x5C, CHR ''t'']
      else if (of_char c :: nat) < 32 \<or> c = CHR ''<'' \<or> c = CHR ''>'' \<or> c = CHR ''&''
        then [CHR 0x5C, CHR ''u'', CHR ''0'', CHR ''0'', hex_char (of_char c div 16), hex_char (of_char c mod 16)]
      else [c])"

definition escaped :: "string \<Rightarrow> string" where
  "escaped s = concat (map escape_char s)"

definition json_quote :: "string \<Rightarrow> string" where
  "json_quote s = CHR 0x22 # escaped s @ [CHR 0x22]"

definition int_text :: "int \<Rightarrow> string" where
  "int_text n = (if n < 0 then CHR ''-'' # itoa (nat (- n)) else itoa (nat n))"

fun json_text :: "json \<Rightarrow> string" where
  "json_text JNull = ''null''"
| "json_text (JBool b) = (if b then ''true'' else ''false'')"
| "json_text (JInt n) = int_text n"
| "json_text (JFloat s) = s"
| "json_text (JStr s) = json_quote s"
| "json_text (JArr xs) = CHR ''['' # join_with '','' (map json_text xs) @ '']''"
| "json_text (JObj kvs) = CHR ''{'' # join_with '',''
     (map (\<lambda>p. json_quote (fst p) @ CHR '':'' # snd p) (sort_key fst (map (\<lambda>p. (fst p, json_text (snd p))) kvs))) @ ''}''"

section \<open>Reading\<close>

definition json_space :: "char \<Rightarrow> bool" where
  "json_space c \<longleftrightarrow> c = CHR 0x20 \<or> c = CHR 0x09 \<or> c = CHR 0x0A \<or> c = CHR 0x0D"

definition skip_ws :: "string \<Rightarrow> string" where
  "skip_ws = dropWhile json_space"

definition hex_val :: "char \<Rightarrow> nat option" where
  "hex_val c = (let n = of_char c :: nat in
     if 48 \<le> n \<and> n \<le> 57 then Some (n - 48) else if 97 \<le> n \<and> n \<le> 102 then Some (n - 87)
     else if 65 \<le> n \<and> n \<le> 70 then Some (n - 55) else None)"

definition hex4 :: "string \<Rightarrow> nat option" where
  "hex4 s = (if length s < 4 then None
     else case (hex_val (s ! 0), hex_val (s ! 1), hex_val (s ! 2), hex_val (s ! 3)) of
       (Some a, Some b, Some c, Some d) \<Rightarrow> Some (((a * 16 + b) * 16 + c) * 16 + d) | _ \<Rightarrow> None)"

definition utf8 :: "nat \<Rightarrow> string" where
  "utf8 n = map char_of (if n < 0x80 then [n] else if n < 0x800 then [0xC0 + n div 0x40, 0x80 + n mod 0x40]
     else if n < 0x10000 then [0xE0 + n div 0x1000, 0x80 + n div 0x40 mod 0x40, 0x80 + n mod 0x40]
     else [0xF0 + n div 0x40000, 0x80 + n div 0x1000 mod 0x40, 0x80 + n div 0x40 mod 0x40, 0x80 + n mod 0x40])"

definition unescape :: "char \<Rightarrow> char option" where
  "unescape e = (if e = CHR 0x22 \<or> e = CHR 0x5C \<or> e = CHR ''/'' then Some e
     else if e = CHR ''b'' then Some (CHR 0x08) else if e = CHR ''f'' then Some (CHR 0x0C) else if e = CHR ''n'' then Some (CHR 0x0A)
     else if e = CHR ''r'' then Some (CHR 0x0D) else if e = CHR ''t'' then Some (CHR 0x09) else None)"

definition low_surrogate :: "string \<Rightarrow> nat option" where
  "low_surrogate s = (if take 2 s \<noteq> [CHR 0x5C, CHR ''u''] then None
     else case hex4 (drop 2 s) of None \<Rightarrow> None | Some m \<Rightarrow> if 0xDC00 \<le> m \<and> m < 0xE000 then Some m else None)"

definition push :: "string \<Rightarrow> (string \<times> string) option \<Rightarrow> (string \<times> string) option" where
  "push x r = map_option (\<lambda>(s, rest). (x @ s, rest)) r"

function parse_chars :: "string \<Rightarrow> (string \<times> string) option" where
  "parse_chars [] = None"
| "parse_chars (c # cs) =
     (if c = CHR 0x22 then Some ([], cs)
      else if c = CHR 0x5C then (case cs of [] \<Rightarrow> None
        | e # es \<Rightarrow>
            if e = CHR ''u'' then (case hex4 es of None \<Rightarrow> None
              | Some n \<Rightarrow>
                  if 0xD800 \<le> n \<and> n < 0xDC00 then (case low_surrogate (drop 4 es) of
                      None \<Rightarrow> push (utf8 0xFFFD) (parse_chars (drop 4 es))
                    | Some m \<Rightarrow> push (utf8 (0x10000 + (n - 0xD800) * 0x400 + (m - 0xDC00))) (parse_chars (drop 10 es)))
                  else push (utf8 (if 0xDC00 \<le> n \<and> n < 0xE000 then 0xFFFD else n)) (parse_chars (drop 4 es)))
            else (case unescape e of None \<Rightarrow> None | Some d \<Rightarrow> push [d] (parse_chars es)))
      else if (of_char c :: nat) < 32 then None
      else push [c] (parse_chars cs))"
  by pat_completeness auto
termination by (relation "measure length") auto

declare parse_chars.simps(2) [simp del]

text \<open>The literal of a number and the rest of the text.\<close>

definition number_fraction :: "string \<Rightarrow> (string \<times> string) option" where
  "number_fraction s = (case s of [] \<Rightarrow> Some ([], [])
     | c # cs \<Rightarrow> if c \<noteq> CHR ''.'' then Some ([], s)
         else if takeWhile is_digit cs = [] then None else Some (c # takeWhile is_digit cs, dropWhile is_digit cs))"

definition number_exponent :: "string \<Rightarrow> (string \<times> string) option" where
  "number_exponent s = (case s of [] \<Rightarrow> Some ([], [])
     | c # cs \<Rightarrow> if c \<noteq> CHR ''e'' \<and> c \<noteq> CHR ''E'' then Some ([], s)
         else (let sg = (case cs of [] \<Rightarrow> [] | d # ds \<Rightarrow> if d = CHR ''+'' \<or> d = CHR ''-'' then [d] else []); t = drop (length sg) cs in
           if takeWhile is_digit t = [] then None else Some (c # sg @ takeWhile is_digit t, dropWhile is_digit t)))"

definition parse_number :: "string \<Rightarrow> (json \<times> string) option" where
  "parse_number s =
     (let sg = (case s of [] \<Rightarrow> [] | c # cs \<Rightarrow> if c = CHR ''-'' then [c] else []); t = drop (length sg) s;
          ds = takeWhile is_digit t in
      if ds = [] \<or> (hd ds = CHR ''0'' \<and> 1 < length ds) then None
      else Option.bind (number_fraction (dropWhile is_digit t)) (\<lambda>(fr, r1). Option.bind (number_exponent r1) (\<lambda>(ex, r2).
        Some (if fr @ ex = [] \<and> \<not> (sg \<noteq> [] \<and> ds = ''0'') then JInt (if sg = [] then int (dec_val ds) else - int (dec_val ds))
              else JFloat (sg @ ds @ fr @ ex), r2))))"

definition merge_keys :: "(string \<times> json) list \<Rightarrow> (string \<times> json) list" where
  "merge_keys kvs = foldl (\<lambda>m p. map_put (fst p) (snd p) m) [] kvs"

fun parse_value :: "nat \<Rightarrow> string \<Rightarrow> (json \<times> string) option"
  and parse_items :: "nat \<Rightarrow> string \<Rightarrow> (json list \<times> string) option"
  and parse_members :: "nat \<Rightarrow> string \<Rightarrow> ((string \<times> json) list \<times> string) option" where
  "parse_value 0 s = None"
| "parse_value (Suc n) s = (case skip_ws s of [] \<Rightarrow> None
     | c # cs \<Rightarrow>
         if c = CHR 0x22 then map_option (\<lambda>(x, r). (JStr x, r)) (parse_chars cs)
         else if c = CHR ''['' then (if take 1 (skip_ws cs) = '']'' then Some (JArr [], drop 1 (skip_ws cs))
           else map_option (\<lambda>(xs, r). (JArr xs, r)) (parse_items n cs))
         else if c = CHR ''{'' then (if take 1 (skip_ws cs) = ''}'' then Some (JObj [], drop 1 (skip_ws cs))
           else map_option (\<lambda>(kvs, r). (JObj (merge_keys kvs), r)) (parse_members n cs))
         else if take 4 (c # cs) = ''null'' then Some (JNull, drop 4 (c # cs))
         else if take 4 (c # cs) = ''true'' then Some (JBool True, drop 4 (c # cs))
         else if take 5 (c # cs) = ''false'' then Some (JBool False, drop 5 (c # cs))
         else parse_number (c # cs))"
| "parse_items 0 s = None"
| "parse_items (Suc n) s = (case parse_value n s of None \<Rightarrow> None
     | Some (v, r) \<Rightarrow> (case skip_ws r of [] \<Rightarrow> None
         | c # r1 \<Rightarrow> if c = CHR '','' then map_option (\<lambda>(vs, r2). (v # vs, r2)) (parse_items n r1)
             else if c = CHR '']'' then Some ([v], r1) else None))"
| "parse_members 0 s = None"
| "parse_members (Suc n) s = (case skip_ws s of [] \<Rightarrow> None
     | q # cs \<Rightarrow> if q \<noteq> CHR 0x22 then None
         else (case parse_chars cs of None \<Rightarrow> None
           | Some (k, r) \<Rightarrow> (case skip_ws r of [] \<Rightarrow> None
               | c # r1 \<Rightarrow> if c \<noteq> CHR '':'' then None
                   else (case parse_value n r1 of None \<Rightarrow> None
                     | Some (v, r2) \<Rightarrow> (case skip_ws r2 of [] \<Rightarrow> None
                         | d # r3 \<Rightarrow> if d = CHR '','' then map_option (\<lambda>(kvs, r4). ((k, v) # kvs, r4)) (parse_members n r3)
                             else if d = CHR ''}'' then Some ([(k, v)], r3) else None)))))"

declare parse_value.simps(2) [simp del] parse_items.simps(2) [simp del] parse_members.simps(2) [simp del]

definition json_parse :: "string \<Rightarrow> json option" where
  "json_parse s = (case parse_value (2 * length s + 2) s of None \<Rightarrow> None | Some (v, r) \<Rightarrow> if skip_ws r = [] then Some v else None)"

section \<open>What is printed is read back\<close>

fun json_sorted :: "json \<Rightarrow> json" where
  "json_sorted (JArr xs) = JArr (map json_sorted xs)"
| "json_sorted (JObj kvs) = JObj (sort_key fst (map (\<lambda>p. (fst p, json_sorted (snd p))) kvs))"
| "json_sorted v = v"

text \<open>Values of Go: distinct keys, and the text of a number is one.\<close>

fun json_plain :: "json \<Rightarrow> bool" where
  "json_plain (JFloat s) \<longleftrightarrow> parse_number s = Some (JFloat s, [])"
| "json_plain (JArr xs) \<longleftrightarrow> (\<forall>x \<in> set xs. json_plain x)"
| "json_plain (JObj kvs) \<longleftrightarrow> distinct (map fst kvs) \<and> (\<forall>p \<in> set kvs. json_plain (snd p))"
| "json_plain _ \<longleftrightarrow> True"

text \<open>What may follow a number.\<close>

definition ends_number :: "string \<Rightarrow> bool" where
  "ends_number r \<longleftrightarrow> (case r of [] \<Rightarrow> True | c # _ \<Rightarrow> \<not> is_digit c \<and> c \<noteq> CHR ''.'' \<and> c \<noteq> CHR ''e'' \<and> c \<noteq> CHR ''E'')"

lemma takeWhile_digits: "ends_number r \<Longrightarrow> takeWhile is_digit (s @ r) = takeWhile is_digit s"
  by (induction s) (auto simp: ends_number_def split: list.splits)

lemma dropWhile_digits: "ends_number r \<Longrightarrow> dropWhile is_digit (s @ r) = dropWhile is_digit s @ r"
  by (induction s) (auto simp: ends_number_def split: list.splits)

lemma fraction_append:
  "ends_number r \<Longrightarrow> number_fraction s = Some (x, y) \<Longrightarrow> number_fraction (s @ r) = Some (x, y @ r)"
  by (cases s; cases r) (auto simp: number_fraction_def takeWhile_digits dropWhile_digits ends_number_def split: if_splits)

lemma exponent_append:
  assumes "ends_number r" "number_exponent s = Some (x, y)"
  shows "number_exponent (s @ r) = Some (x, y @ r)"
proof (cases s)
  case Nil
  then show ?thesis using assms by (cases r) (auto simp: number_exponent_def ends_number_def)
next
  case (Cons c cs)
  then show ?thesis using assms
    by (cases cs) (auto simp: number_exponent_def takeWhile_digits dropWhile_digits Let_def split: if_splits)
qed

lemma parse_number_append:
  assumes r: "ends_number r" and p: "parse_number s = Some (v, q)"
  shows "parse_number (s @ r) = Some (v, q @ r)"
proof -
  define sg where "sg = (case s of [] \<Rightarrow> [] | c # cs \<Rightarrow> if c = CHR ''-'' then [c] else [])"
  define t where "t = drop (length sg) s"
  have ne: "s \<noteq> []" using p by (auto simp: parse_number_def)
  then have sg': "(case s @ r of [] \<Rightarrow> [] | c # cs \<Rightarrow> if c = CHR ''-'' then [c] else []) = sg" by (cases s) (auto simp: sg_def)
  have t': "drop (length sg) (s @ r) = t @ r" using ne by (cases s) (auto simp: sg_def t_def)
  obtain fr r1 ex where f: "number_fraction (dropWhile is_digit t) = Some (fr, r1)" "number_exponent r1 = Some (ex, q)"
    "\<not> (takeWhile is_digit t = [] \<or> (hd (takeWhile is_digit t) = CHR ''0'' \<and> 1 < length (takeWhile is_digit t)))"
    "v = (if fr @ ex = [] \<and> \<not> (sg \<noteq> [] \<and> takeWhile is_digit t = ''0'')
       then JInt (if sg = [] then int (dec_val (takeWhile is_digit t)) else - int (dec_val (takeWhile is_digit t)))
       else JFloat (sg @ takeWhile is_digit t @ fr @ ex))"
    using p unfolding parse_number_def sg_def[symmetric] Let_def t_def[symmetric]
    by (auto simp: bind_eq_Some_conv split: if_splits)
  show ?thesis unfolding parse_number_def sg' Let_def t' takeWhile_digits[OF r] dropWhile_digits[OF r] fraction_append[OF r f(1)]
    using f(3,4) exponent_append[OF r f(2)] by simp
qed

lemma char_48: "char_of (48 :: nat) = CHR ''0''"
  by code_simp

lemma digit_char_0: "n < 10 \<Longrightarrow> digit_char n = CHR ''0'' \<longleftrightarrow> n = 0"
proof
  assume n: "n < 10" and d: "digit_char n = CHR ''0''"
  have "(of_char (digit_char n) :: nat) = 48" by (simp add: d)
  then show "n = 0" using n of_char_digit[of n] by simp
qed (use char_48 in \<open>simp add: digit_char_def\<close>)

lemma itoa_hd: "0 < n \<Longrightarrow> hd (itoa n) \<noteq> CHR ''0''"
proof (induction n rule: itoa.induct)
  case (1 n)
  show ?case
  proof (cases "n < 10")
    case True
    then show ?thesis using 1(2) digit_char_0[of n] by (subst itoa.simps) simp
  next
    case False
    then have "0 < n div 10" by (simp add: div_greater_zero_iff)
    then have "hd (itoa (n div 10)) \<noteq> CHR ''0''" using 1(1) False by blast
    then show ?thesis using False by (subst itoa.simps) simp
  qed
qed

lemma itoa_0: "itoa 0 = ''0''"
  by (subst itoa.simps) (simp add: digit_char_def char_48)

lemma itoa_minus: "hd (itoa n) \<noteq> CHR ''-''"
proof -
  have "is_digit (hd (itoa n))" using itoa_digits[of n] by (cases "itoa n") (auto simp: itoa_not_Nil[of n])
  then show ?thesis by (auto simp: is_digit_def)
qed

lemma parse_int_text:
  assumes "ends_number r"
  shows "parse_number (int_text n @ r) = Some (JInt n, r)"
proof -
  have d: "takeWhile is_digit (itoa m) = itoa m" "dropWhile is_digit (itoa m) = []" for m
    using itoa_digits[of m] by (auto simp: list_all_iff)
  have z: "\<not> (hd (itoa m) = CHR ''0'' \<and> 1 < length (itoa m))" for m
    using itoa_hd[of m] itoa_0 by (cases "m = 0") auto
  have "parse_number (int_text n) = Some (JInt n, [])"
  proof (cases "n < 0")
    case True
    then have "itoa (nat (- n)) \<noteq> ''0''" using itoa_inject[of "nat (- n)" 0] by (simp add: itoa_0)
    then show ?thesis using True z[of "nat (- n)"]
      by (simp add: parse_number_def int_text_def d number_fraction_def number_exponent_def Let_def)
  next
    case False
    then have "itoa (nat n) = c # cs \<Longrightarrow> c \<noteq> CHR ''-''" for c cs using itoa_minus[of "nat n"] by auto
    then have sg: "(case itoa (nat n) of [] \<Rightarrow> [] | c # cs \<Rightarrow> if c = CHR ''-'' then [c] else []) = []"
      by (cases "itoa (nat n)") auto
    then show ?thesis using False z[of "nat n"]
      by (simp add: parse_number_def int_text_def d number_fraction_def number_exponent_def Let_def)
  qed
  from parse_number_append[OF assms this] show ?thesis by simp
qed

lemma hex_roundtrip: "n < 16 \<Longrightarrow> hex_val (hex_char n) = Some n"
proof -
  assume n: "n < 16"
  have "(of_char (char_of k :: char) :: nat) = k" if "k < 256" for k :: nat using that by (simp add: of_char_of take_bit_eq_mod)
  then show ?thesis using n by (auto simp: hex_char_def hex_val_def)
qed

lemma escape_unicode:
  assumes "n < 128"
  shows "parse_chars (CHR 0x5C # CHR ''u'' # CHR ''0'' # CHR ''0'' # hex_char (n div 16) # hex_char (n mod 16) # t) = push [char_of n] (parse_chars t)"
proof -
  have "hex4 (CHR ''0'' # CHR ''0'' # hex_char (n div 16) # hex_char (n mod 16) # t) = Some n"
    using assms by (simp add: hex4_def hex_roundtrip) (simp add: hex_val_def)
  then show ?thesis using assms by (simp add: parse_chars.simps utf8_def)
qed

lemma escape_roundtrip: "parse_chars (escape_char c @ t) = push [c] (parse_chars t)"
proof (cases "(of_char c :: nat) < 32 \<or> c = CHR ''<'' \<or> c = CHR ''>'' \<or> c = CHR ''&''")
  case True
  then have "(of_char c :: nat) < 128" by auto
  from escape_unicode[OF this] True show ?thesis
    by (auto simp: escape_char_def parse_chars.simps(2)[of "CHR 0x5C"] unescape_def)
next
  case False
  then show ?thesis by (auto simp: escape_char_def parse_chars.simps(2) unescape_def)
qed

lemma parse_escaped: "parse_chars (escaped s @ CHR 0x22 # r) = Some (s, r)"
proof (induction s)
  case (Cons c s)
  have "escaped (c # s) @ CHR 0x22 # r = escape_char c @ (escaped s @ CHR 0x22 # r)" by (simp add: escaped_def)
  then show ?case using Cons by (simp add: escape_roundtrip push_def)
qed (simp add: escaped_def parse_chars.simps)

lemma sort_key_map: "sort_key f (map g xs) = map g (sort_key (\<lambda>x. f (g x)) xs)"
proof -
  have i: "insort_key f (g x) (map g ys) = map g (insort_key (\<lambda>x. f (g x)) x ys)" for x ys by (induction ys) auto
  show ?thesis by (induction xs) (auto simp: i)
qed

lemma merge_fresh:
  "distinct (map fst (m @ kvs)) \<Longrightarrow> foldl (\<lambda>m p. map_put (fst p) (snd p) m) m kvs = m @ kvs"
proof (induction kvs arbitrary: m)
  case (Cons p kvs)
  have "map_put (fst p) (snd p) m = m @ [p]" using Cons.prems by (auto simp: map_put_def)
  then show ?case using Cons.IH[of "m @ [p]"] Cons.prems by simp
qed simp

lemma merge_distinct: "distinct (map fst kvs) \<Longrightarrow> merge_keys kvs = kvs"
  using merge_fresh[of "[]" kvs] by (simp add: merge_keys_def)

lemma skip_ws_at: "\<not> json_space c \<Longrightarrow> skip_ws (c # cs) = c # cs"
  by (simp add: skip_ws_def)

lemma number_first: "parse_number s = Some (v, r) \<Longrightarrow> \<exists>c cs. s = c # cs \<and> (is_digit c \<or> c = CHR ''-'')"
  by (cases s) (auto simp: parse_number_def split: if_splits)

lemma digit_first: "is_digit c \<or> c = CHR ''-'' \<Longrightarrow> \<not> json_space c \<and> c \<notin> {CHR 0x22, CHR ''['', CHR ''{'', CHR ''n'', CHR ''t'', CHR ''f'', CHR '']''}"
  by (auto simp: is_digit_def json_space_def)

lemma int_first: "\<exists>c cs. int_text n = c # cs \<and> (is_digit c \<or> c = CHR ''-'')"
  using number_first[OF parse_int_text[of "[]" n]] by (simp add: ends_number_def)

lemma json_text_first: "json_plain v \<Longrightarrow> \<exists>c cs. json_text v = c # cs \<and> \<not> json_space c \<and> c \<noteq> CHR '']''"
proof (cases v)
  case (JInt n)
  then show ?thesis using int_first[of n] digit_first by force
next
  case (JFloat s)
  moreover assume "json_plain v"
  ultimately show ?thesis using number_first[of s] digit_first by force
qed (auto simp: json_space_def json_quote_def)

lemma parse_number_value:
  assumes "parse_number s = Some (v, r)"
  shows "parse_value (Suc n) s = Some (v, r)"
proof -
  obtain c cs where c: "s = c # cs" "is_digit c \<or> c = CHR ''-''" using number_first[OF assms] by blast
  then show ?thesis using digit_first[OF c(2)] assms by (simp add: parse_value.simps(2) skip_ws_at)
qed

text \<open>What a value's reader must answer on its text with any fuel that covers it, before anything that ends a number.\<close>

definition reads_back :: "json \<Rightarrow> bool" where
  "reads_back v \<longleftrightarrow> (\<forall>n r. 2 * length (json_text v) \<le> n \<longrightarrow> ends_number r \<longrightarrow> parse_value n (json_text v @ r) = Some (json_sorted v, r))"

lemma reads_backD:
  "reads_back v \<Longrightarrow> 2 * length (json_text v) \<le> n \<Longrightarrow> ends_number r \<Longrightarrow> parse_value n (json_text v @ r) = Some (json_sorted v, r)"
  by (simp add: reads_back_def)

lemma ends_punct [simp]: "ends_number (CHR '','' # r)" "ends_number (CHR '']'' # r)" "ends_number (CHR ''}'' # r)"
  by (simp_all add: ends_number_def is_digit_def)

lemma skip_punct [simp]: "skip_ws (CHR '','' # r) = CHR '','' # r" "skip_ws (CHR '']'' # r) = CHR '']'' # r" "skip_ws (CHR ''}'' # r) = CHR ''}'' # r"
  "skip_ws (CHR '':'' # r) = CHR '':'' # r" "skip_ws (CHR 0x22 # r) = CHR 0x22 # r"
  by (simp_all add: skip_ws_def json_space_def)

lemma parse_items_text:
  assumes "xs \<noteq> []" "\<forall>x \<in> set xs. reads_back x" "2 * length (join_with '','' (map json_text xs)) < n"
  shows "parse_items n (join_with '','' (map json_text xs) @ CHR '']'' # r) = Some (map json_sorted xs, r)"
  using assms
proof (induction xs arbitrary: n)
  case (Cons x xs)
  obtain m where n: "n = Suc m" using Cons.prems(3) by (cases n) auto
  show ?case
  proof (cases xs)
    case Nil
    have "parse_value m (json_text x @ CHR '']'' # r) = Some (json_sorted x, CHR '']'' # r)"
      using Cons.prems Nil n by (intro reads_backD) auto
    then show ?thesis using Nil n by (simp add: parse_items.simps(2))
  next
    case (Cons y ys)
    let ?rest = "join_with '','' (map json_text xs) @ CHR '']'' # r"
    have j: "join_with '','' (map json_text (x # xs)) = json_text x @ CHR '','' # join_with '','' (map json_text xs)" using Cons by simp
    have v: "parse_value m (json_text x @ CHR '','' # ?rest) = Some (json_sorted x, CHR '','' # ?rest)"
      using Cons.prems n j by (intro reads_backD) auto
    have "parse_items m ?rest = Some (map json_sorted xs, r)" using Cons.IH[of m] Cons.prems Cons n j by auto
    then show ?thesis using v n unfolding j by (simp add: parse_items.simps(2))
  qed
qed simp

definition member_text :: "string \<times> json \<Rightarrow> string" where
  "member_text p = json_quote (fst p) @ CHR '':'' # json_text (snd p)"

lemma parse_member:
  assumes "reads_back (snd p)" "2 * length (member_text p) \<le> m" "ends_number r"
  shows "parse_members (Suc m) (member_text p @ r) = (case skip_ws r of [] \<Rightarrow> None
    | d # r3 \<Rightarrow> if d = CHR '','' then map_option (\<lambda>(kvs, r4). ((fst p, json_sorted (snd p)) # kvs, r4)) (parse_members m r3)
        else if d = CHR ''}'' then Some ([(fst p, json_sorted (snd p))], r3) else None)"
proof -
  have "2 * length (json_text (snd p)) \<le> m" using assms(2) by (simp add: member_text_def)
  then have v: "parse_value m (json_text (snd p) @ r) = Some (json_sorted (snd p), r)" using assms by (intro reads_backD)
  have e: "member_text p @ r = CHR 0x22 # escaped (fst p) @ CHR 0x22 # CHR '':'' # json_text (snd p) @ r"
    by (simp add: member_text_def json_quote_def)
  show ?thesis unfolding e parse_members.simps(2) by (simp add: parse_escaped v)
qed

lemma parse_members_text:
  assumes "kvs \<noteq> []" "\<forall>p \<in> set kvs. reads_back (snd p)" "2 * length (join_with '','' (map member_text kvs)) < n"
  shows "parse_members n (join_with '','' (map member_text kvs) @ CHR ''}'' # r) = Some (map (\<lambda>p. (fst p, json_sorted (snd p))) kvs, r)"
  using assms
proof (induction kvs arbitrary: n)
  case (Cons p kvs)
  obtain m where n: "n = Suc m" using Cons.prems(3) by (cases n) auto
  show ?case
  proof (cases kvs)
    case Nil
    then show ?thesis using Cons.prems n parse_member[of p m "CHR ''}'' # r"] by simp
  next
    case (Cons q qs)
    let ?rest = "join_with '','' (map member_text kvs) @ CHR ''}'' # r"
    have j: "join_with '','' (map member_text (p # kvs)) = member_text p @ CHR '','' # join_with '','' (map member_text kvs)" using Cons by simp
    have "parse_members m ?rest = Some (map (\<lambda>p. (fst p, json_sorted (snd p))) kvs, r)" using Cons.IH[of m] Cons.prems Cons n j by auto
    then show ?thesis using Cons.prems n j parse_member[of p m "CHR '','' # ?rest"] by simp
  qed
qed simp

lemma reads_backI:
  assumes "json_text v \<noteq> []"
    and "\<And>m r. 2 * length (json_text v) \<le> Suc m \<Longrightarrow> ends_number r \<Longrightarrow> parse_value (Suc m) (json_text v @ r) = Some (json_sorted v, r)"
  shows "reads_back v"
proof -
  have "parse_value n (json_text v @ r) = Some (json_sorted v, r)" if "2 * length (json_text v) \<le> n" "ends_number r" for n r
  proof -
    have "n \<noteq> 0" using that(1) assms(1) by (cases "json_text v") auto
    then obtain m where "n = Suc m" by (cases n) auto
    then show ?thesis using assms(2)[of m r] that by simp
  qed
  then show ?thesis by (simp add: reads_back_def)
qed

lemma array_reads_back:
  assumes p: "json_plain (JArr xs)" and IH: "\<forall>x \<in> set xs. reads_back x"
  shows "reads_back (JArr xs)"
proof (rule reads_backI)
  fix m r assume m: "2 * length (json_text (JArr xs)) \<le> Suc m" and r: "ends_number r"
  show "parse_value (Suc m) (json_text (JArr xs) @ r) = Some (json_sorted (JArr xs), r)"
  proof (cases xs)
    case Nil
    then show ?thesis by (simp add: parse_value.simps(2) skip_ws_at json_space_def)
  next
    case (Cons y ys)
    let ?t = "join_with '','' (map json_text xs) @ CHR '']'' # r"
    have i: "parse_items m ?t = Some (map json_sorted xs, r)"
      using IH m Cons by (intro parse_items_text) auto
    obtain c cs where c: "json_text y = c # cs" "\<not> json_space c" "c \<noteq> CHR '']''" using json_text_first[of y] p Cons by auto
    then have "\<exists>cs'. ?t = c # cs'" using Cons by (cases ys) auto
    then have "take 1 (skip_ws ?t) \<noteq> '']''" using c by (auto simp: skip_ws_at)
    then show ?thesis using i by (simp add: parse_value.simps(2) skip_ws_at json_space_def)
  qed
qed simp

lemma object_reads_back:
  assumes p: "json_plain (JObj kvs)" and IH: "\<forall>p \<in> set kvs. reads_back (snd p)"
  shows "reads_back (JObj kvs)"
proof (rule reads_backI)
  fix m r assume m: "2 * length (json_text (JObj kvs)) \<le> Suc m" and r: "ends_number r"
  let ?ks = "sort_key fst kvs" and ?g = "\<lambda>p. (fst p, json_sorted (snd p))"
  have e: "json_text (JObj kvs) = CHR ''{'' # join_with '','' (map member_text ?ks) @ ''}''"
    by (simp add: sort_key_map[of fst] comp_def member_text_def[abs_def])
  have srt: "json_sorted (JObj kvs) = JObj (map ?g ?ks)" by (simp add: sort_key_map[of fst])
  show "parse_value (Suc m) (json_text (JObj kvs) @ r) = Some (json_sorted (JObj kvs), r)"
  proof (cases "?ks = []")
    case True
    then show ?thesis unfolding e srt by (simp add: parse_value.simps(2) skip_ws_at json_space_def)
  next
    case False
    then obtain y ys where ks: "?ks = y # ys" by (cases ?ks) auto
    let ?t = "join_with '','' (map member_text ?ks) @ CHR ''}'' # r"
    have i: "parse_members m ?t = Some (map ?g ?ks, r)"
      using IH m False unfolding e by (intro parse_members_text) auto
    have "\<exists>cs. ?t = CHR 0x22 # cs" unfolding ks by (cases ys) (auto simp: member_text_def json_quote_def)
    then have "take 1 (skip_ws ?t) \<noteq> ''}''" by auto
    moreover have "merge_keys (map ?g ?ks) = map ?g ?ks"
    proof (rule merge_distinct)
      have "mset (map fst ?ks) = mset (map fst kvs)" by simp
      then have "distinct (map fst ?ks)" using p mset_eq_imp_distinct_iff by fastforce
      then show "distinct (map fst (map ?g ?ks))" by (simp add: comp_def)
    qed
    ultimately show ?thesis using i unfolding e srt by (simp add: parse_value.simps(2) skip_ws_at json_space_def)
  qed
qed simp

lemma json_reads_back: "json_plain v \<Longrightarrow> reads_back v"
proof (induction v)
  case JNull
  show ?case by (rule reads_backI) (simp_all add: parse_value.simps(2) skip_ws_at json_space_def)
next
  case (JBool b)
  show ?case by (rule reads_backI) (simp_all add: parse_value.simps(2) skip_ws_at json_space_def)
next
  case (JInt n)
  show ?case
  proof (rule reads_backI)
    show "json_text (JInt n) \<noteq> []" using int_first[of n] by auto
    fix m r assume "ends_number r"
    from parse_number_value[OF parse_int_text[OF this]] show "parse_value (Suc m) (json_text (JInt n) @ r) = Some (json_sorted (JInt n), r)" by simp
  qed
next
  case (JFloat s)
  then have s: "parse_number s = Some (JFloat s, [])" by simp
  show ?case
  proof (rule reads_backI)
    show "json_text (JFloat s) \<noteq> []" using number_first[OF s] by auto
    fix m r assume "ends_number r"
    from parse_number_value[OF parse_number_append[OF this s]] show "parse_value (Suc m) (json_text (JFloat s) @ r) = Some (json_sorted (JFloat s), r)" by simp
  qed
next
  case (JStr s)
  show ?case by (rule reads_backI) (simp_all add: json_quote_def parse_value.simps(2) parse_escaped)
next
  case (JArr xs)
  show ?case by (rule array_reads_back[OF JArr.prems]) (use JArr in auto)
next
  case (JObj kvs)
  show ?case
  proof (rule object_reads_back[OF JObj.prems], rule ballI)
    fix p assume "p \<in> set kvs"
    moreover from this have "json_plain (snd p)" using JObj.prems by simp
    ultimately show "reads_back (snd p)" using JObj.IH[of p "snd p"] by (metis prod.collapse snds.intros)
  qed
qed

lemma json_roundtrip: "json_plain v \<Longrightarrow> json_parse (json_text v) = Some (json_sorted v)"
  using reads_backD[OF json_reads_back, of v "2 * length (json_text v) + 2" "[]"]
  by (simp add: json_parse_def ends_number_def skip_ws_def)

section \<open>What is read is plain\<close>

lemma takeWhile_all: "takeWhile P (takeWhile P xs @ ys) = takeWhile P xs @ takeWhile P ys" "dropWhile P (takeWhile P xs @ ys) = dropWhile P ys"
  by (induction xs) auto

lemma fraction_split:
  assumes "number_fraction s = Some (x, y)"
  shows "x = [] \<or> (\<exists>t. x = CHR ''.'' # takeWhile is_digit t \<and> takeWhile is_digit t \<noteq> [])"
  using assms by (cases s) (auto simp: number_fraction_def split: if_splits)

lemma exponent_split:
  assumes "number_exponent s = Some (x, y)"
  shows "x = [] \<or> (\<exists>c sg t. x = c # sg @ takeWhile is_digit t \<and> takeWhile is_digit t \<noteq> [] \<and> (c = CHR ''e'' \<or> c = CHR ''E'') \<and> sg \<in> {[], ''+'', ''-''})"
proof (cases s)
  case (Cons c cs)
  define sg where "sg = (case cs of [] \<Rightarrow> [] | d # ds \<Rightarrow> if d = CHR ''+'' \<or> d = CHR ''-'' then [d] else [])"
  have sg: "sg \<in> {[], ''+'', ''-''}" by (auto simp: sg_def split: list.splits)
  have "x = [] \<or> (x = c # sg @ takeWhile is_digit (drop (length sg) cs) \<and> takeWhile is_digit (drop (length sg) cs) \<noteq> [] \<and> (c = CHR ''e'' \<or> c = CHR ''E''))"
    using assms unfolding Cons number_exponent_def list.simps(5) sg_def[symmetric] Let_def by (auto split: if_splits)
  then show ?thesis using sg by blast
qed (use assms in \<open>simp add: number_exponent_def\<close>)

lemma exponent_self:
  assumes "x = [] \<or> (\<exists>c sg t. x = c # sg @ takeWhile is_digit t \<and> takeWhile is_digit t \<noteq> [] \<and> (c = CHR ''e'' \<or> c = CHR ''E'') \<and> sg \<in> {[], ''+'', ''-''})"
  shows "number_exponent x = Some (x, []) \<and> takeWhile is_digit x = [] \<and> dropWhile is_digit x = x \<and> (x \<noteq> [] \<longrightarrow> hd x \<noteq> CHR ''.'')"
proof (cases "x = []")
  case False
  then obtain c sg t where x: "x = c # sg @ takeWhile is_digit t" "takeWhile is_digit t \<noteq> []" "c = CHR ''e'' \<or> c = CHR ''E''" "sg \<in> {[], ''+'', ''-''}"
    using assms by blast
  have nd: "\<not> is_digit c" using x(3) by (auto simp: is_digit_def)
  obtain d ds where t: "takeWhile is_digit t = d # ds" using x(2) by (cases "takeWhile is_digit t") auto
  then have d: "is_digit d" by (metis list.set_intros(1) set_takeWhileD)
  then have dn: "d \<noteq> CHR ''+''" "d \<noteq> CHR ''-''" by (auto simp: is_digit_def)
  have tt: "takeWhile is_digit (takeWhile is_digit t) = takeWhile is_digit t" "dropWhile is_digit (takeWhile is_digit t) = []"
    using takeWhile_all[of is_digit t "[]"] by simp_all
  have "number_exponent x = Some (x, [])"
  proof (cases "sg = []")
    case True
    then show ?thesis using x(1,3) t tt dn by (auto simp: number_exponent_def Let_def)
  next
    case False
    then show ?thesis using x tt by (auto simp: number_exponent_def Let_def)
  qed
  then show ?thesis using x nd by auto
qed (simp add: number_exponent_def)

lemma parse_number_literal:
  assumes "parse_number s = Some (JFloat l, r)"
  shows "parse_number l = Some (JFloat l, [])"
proof -
  define sg where "sg = (case s of [] \<Rightarrow> [] | c # cs \<Rightarrow> if c = CHR ''-'' then [c] else [])"
  define t where "t = drop (length sg) s"
  define ds where "ds = takeWhile is_digit t"
  obtain fr r1 ex where f: "number_fraction (dropWhile is_digit t) = Some (fr, r1)" "number_exponent r1 = Some (ex, r)"
    "ds \<noteq> []" "\<not> (hd ds = CHR ''0'' \<and> 1 < length ds)" "\<not> (fr @ ex = [] \<and> \<not> (sg \<noteq> [] \<and> ds = ''0''))" "l = sg @ ds @ fr @ ex"
    using assms unfolding parse_number_def sg_def[symmetric] Let_def t_def[symmetric] ds_def[symmetric]
    by (auto simp: bind_eq_Some_conv split: if_splits)
  note ex = exponent_self[OF exponent_split[OF f(2)]]
  have fe: "number_fraction (fr @ ex) = Some (fr, ex)" "takeWhile is_digit (fr @ ex) = []" "dropWhile is_digit (fr @ ex) = fr @ ex"
  proof -
    have "number_fraction (fr @ ex) = Some (fr, ex) \<and> takeWhile is_digit (fr @ ex) = [] \<and> dropWhile is_digit (fr @ ex) = fr @ ex"
      using fraction_split[OF f(1)]
    proof
      assume "fr = []"
      then show ?thesis using ex by (cases ex) (auto simp: number_fraction_def)
    next
      assume "\<exists>t. fr = CHR ''.'' # takeWhile is_digit t \<and> takeWhile is_digit t \<noteq> []"
      then obtain t' where t': "fr = CHR ''.'' # takeWhile is_digit t'" "takeWhile is_digit t' \<noteq> []" by blast
      moreover have "\<not> is_digit (CHR ''.'')" by (simp add: is_digit_def)
      ultimately show ?thesis using ex by (simp add: number_fraction_def takeWhile_all)
    qed
    then show "number_fraction (fr @ ex) = Some (fr, ex)" "takeWhile is_digit (fr @ ex) = []" "dropWhile is_digit (fr @ ex) = fr @ ex" by auto
  qed
  have d: "takeWhile is_digit (ds @ fr @ ex) = ds" "dropWhile is_digit (ds @ fr @ ex) = fr @ ex"
    using takeWhile_all[of is_digit t "fr @ ex"] fe by (simp_all add: ds_def)
  have sgs: "sg = [] \<or> sg = ''-''" by (auto simp: sg_def split: list.splits)
  have h: "hd ds \<noteq> CHR ''-''"
  proof -
    have "is_digit (hd ds)" using f(3) unfolding ds_def by (metis hd_in_set set_takeWhileD)
    then show ?thesis by (auto simp: is_digit_def)
  qed
  have sl: "(case l of [] \<Rightarrow> [] | c # cs \<Rightarrow> if c = CHR ''-'' then [c] else []) = sg"
    using sgs f(3,6) h by (cases ds) auto
  have dl: "drop (length sg) l = ds @ fr @ ex" using f(6) by simp
  show ?thesis unfolding parse_number_def sl Let_def dl d using f(3-6) fe(1) ex by auto
qed

lemma parse_number_plain:
  assumes "parse_number s = Some (v, r)"
  shows "json_plain v"
proof (cases "\<exists>l. v = JFloat l")
  case True
  then show ?thesis using assms parse_number_literal by auto
next
  case False
  then show ?thesis using assms by (auto simp: parse_number_def Let_def bind_eq_Some_conv split: if_splits)
qed

lemma merge_keys_plain: "distinct (map fst (merge_keys kvs)) \<and> snd ` set (merge_keys kvs) \<subseteq> snd ` set kvs"
proof -
  have "distinct (map fst m) \<Longrightarrow> distinct (map fst (foldl (\<lambda>m p. map_put (fst p) (snd p) m) m kvs)) \<and>
      snd ` set (foldl (\<lambda>m p. map_put (fst p) (snd p) m) m kvs) \<subseteq> snd ` set m \<union> snd ` set kvs" for m
  proof (induction kvs arbitrary: m)
    case (Cons p kvs)
    have "distinct (map fst (map_put (fst p) (snd p) m))" by (rule distinct_map_put[OF Cons.prems])
    note IH = Cons.IH[OF this]
    have "snd ` set (map_put (fst p) (snd p) m) \<subseteq> snd ` set m \<union> {snd p}" by (auto simp: map_put_def image_iff)
    then have "snd ` set (map_put (fst p) (snd p) m) \<union> snd ` set kvs \<subseteq> snd ` set m \<union> snd ` set (p # kvs)" by auto
    then show ?case using IH by (simp only: foldl.simps) blast
  qed simp
  from this[of "[]"] show ?thesis by (simp add: merge_keys_def)
qed

lemma parse_members_step:
  assumes "parse_members (Suc n) s = Some (kvs, r)"
  shows "\<exists>k v rest r1 r2 r3. kvs = (k, v) # rest \<and> parse_value n r1 = Some (v, r2) \<and> (rest = [] \<or> parse_members n r3 = Some (rest, r))"
proof -
  obtain q cs where 1: "skip_ws s = q # cs" using assms by (cases "skip_ws s") (auto simp: parse_members.simps(2))
  obtain k r0 where 2: "q = CHR 0x22" "parse_chars cs = Some (k, r0)"
    using assms unfolding parse_members.simps(2) 1 by (cases "parse_chars cs") (auto split: if_splits)
  obtain c r1 where 3: "skip_ws r0 = c # r1" using assms unfolding parse_members.simps(2) 1 by (cases "skip_ws r0") (auto simp: 2)
  have c: "c = CHR '':''" using assms unfolding parse_members.simps(2) 1 by (auto simp: 2 3 split: if_splits)
  obtain v r2 where 4: "parse_value n r1 = Some (v, r2)"
    using assms unfolding parse_members.simps(2) 1 by (cases "parse_value n r1") (auto simp: 2 3 c)
  obtain d r3 where 5: "skip_ws r2 = d # r3" using assms unfolding parse_members.simps(2) 1 by (cases "skip_ws r2") (auto simp: 2 3 4 c)
  have "(if d = CHR '','' then map_option (\<lambda>(kvs, r4). ((k, v) # kvs, r4)) (parse_members n r3)
      else if d = CHR ''}'' then Some ([(k, v)], r3) else None) = Some (kvs, r)"
    using assms unfolding parse_members.simps(2) 1 by (simp add: 2 3 4 5 c)
  then obtain rest where "kvs = (k, v) # rest" "rest = [] \<or> parse_members n r3 = Some (rest, r)" by (auto split: if_splits)
  then show ?thesis using 4 by blast
qed

lemma parse_items_step:
  assumes "parse_items (Suc n) s = Some (vs, r)"
  shows "\<exists>v rest r2 r3. vs = v # rest \<and> parse_value n s = Some (v, r2) \<and> (rest = [] \<or> parse_items n r3 = Some (rest, r))"
  using assms by (auto simp: parse_items.simps(2) split: option.splits list.splits if_splits; blast)

lemma parse_value_step:
  assumes "parse_value (Suc n) s = Some (v, r)"
  shows "json_plain v \<or> (\<exists>xs r1. v = JArr xs \<and> parse_items n r1 = Some (xs, r)) \<or> (\<exists>kvs r1. v = JObj (merge_keys kvs) \<and> parse_members n r1 = Some (kvs, r))"
proof (cases "skip_ws s")
  case (Cons c cs)
  have num: "parse_number (c # cs) = Some (v, r) \<Longrightarrow> json_plain v" by (rule parse_number_plain)
  show ?thesis using assms num unfolding parse_value.simps(2) Cons list.simps(5) by (auto split: if_splits)
qed (use assms in \<open>simp add: parse_value.simps(2)\<close>)

lemma parsed_is_plain:
  "(parse_value n s = Some (v, r) \<longrightarrow> json_plain v) \<and> (parse_items n s = Some (vs, r) \<longrightarrow> (\<forall>x \<in> set vs. json_plain x)) \<and>
   (parse_members n s = Some (kvs, r) \<longrightarrow> (\<forall>p \<in> set kvs. json_plain (snd p)))"
proof (induction n arbitrary: s v r vs kvs)
  case (Suc n)
  have "json_plain v" if p: "parse_value (Suc n) s = Some (v, r)"
    using parse_value_step[OF p]
  proof (elim disjE exE conjE)
    fix xs r1 assume "v = JArr xs" "parse_items n r1 = Some (xs, r)"
    then show "json_plain v" using Suc.IH by auto
  next
    fix kvs r1 assume v: "v = JObj (merge_keys kvs)" "parse_members n r1 = Some (kvs, r)"
    then have "\<forall>p \<in> set kvs. json_plain (snd p)" using Suc.IH by blast
    moreover have "snd p \<in> snd ` set kvs" if "p \<in> set (merge_keys kvs)" for p using that merge_keys_plain[of kvs] by blast
    ultimately show "json_plain v" using v(1) merge_keys_plain[of kvs] by fastforce
  qed simp
  moreover have "\<forall>x \<in> set vs. json_plain x" if p: "parse_items (Suc n) s = Some (vs, r)"
  proof -
    obtain v rest r2 r3 where s: "vs = v # rest" "parse_value n s = Some (v, r2)" "rest = [] \<or> parse_items n r3 = Some (rest, r)"
      using parse_items_step[OF p] by blast
    then have "json_plain v" "\<forall>x \<in> set rest. json_plain x" using Suc.IH by (blast, auto)
    then show ?thesis using s(1) by simp
  qed
  moreover have "\<forall>p \<in> set kvs. json_plain (snd p)" if p: "parse_members (Suc n) s = Some (kvs, r)"
  proof -
    obtain k v rest r1 r2 r3 where s: "kvs = (k, v) # rest" "parse_value n r1 = Some (v, r2)" "rest = [] \<or> parse_members n r3 = Some (rest, r)"
      using parse_members_step[OF p] by blast
    have "json_plain v" using s(2) Suc.IH by blast
    moreover have "\<forall>p \<in> set rest. json_plain (snd p)" using s(3)
    proof
      assume "parse_members n r3 = Some (rest, r)"
      then show ?thesis using Suc.IH by blast
    qed simp
    ultimately show ?thesis using s(1) by simp
  qed
  ultimately show ?case by blast
qed simp

lemma sorted_keys: "map fst (sort_key fst (map (\<lambda>p. (fst p, f (snd p))) kvs)) = sort (map fst kvs)"
  by (simp add: sort_key_map[of fst] comp_def) (simp add: sort_key_map[of "\<lambda>x. x" fst])

lemma json_sorted_plain: "json_plain v \<Longrightarrow> json_plain (json_sorted v)"
proof (induction v)
  case (JObj kvs)
  have "distinct (map fst (sort_key fst (map (\<lambda>p. (fst p, json_sorted (snd p))) kvs)))" unfolding sorted_keys using JObj.prems by simp
  moreover have "json_plain (json_sorted (snd p))" if "p \<in> set kvs" for p
    using JObj.IH[of p "snd p"] that JObj.prems by (metis json_plain.simps(3) prod.collapse snds.intros)
  ultimately show ?case by auto
qed auto

lemma json_sorted_idem: "json_sorted (json_sorted v) = json_sorted v"
proof (induction v)
  case (JObj kvs)
  have e: "json_sorted (json_sorted (snd p)) = json_sorted (snd p)" if "p \<in> set kvs" for p
    using JObj.IH[of p "snd p"] that by (metis prod.collapse snds.intros)
  have "map (\<lambda>p. (fst p, json_sorted (snd p))) (sort_key fst (map (\<lambda>p. (fst p, json_sorted (snd p))) kvs)) =
      sort_key fst (map (\<lambda>p. (fst p, json_sorted (snd p))) kvs)" using e by (intro map_idI) auto
  then show ?case by (simp add: sort_key_id_if_sorted)
qed (auto intro: map_idI)

text \<open>A decoded value; a Go map has no order, its keys are kept sorted.\<close>

definition json_decode :: "string \<Rightarrow> json option" where
  "json_decode s = map_option json_sorted (json_parse s)"

lemma json_decode_plain: "json_decode s = Some v \<Longrightarrow> json_plain v \<and> json_sorted v = v"
proof -
  assume "json_decode s = Some v"
  then obtain w where w: "json_parse s = Some w" "v = json_sorted w" by (auto simp: json_decode_def)
  then have "json_plain w" using w(1) parsed_is_plain by (auto simp: json_parse_def split: option.splits if_splits)
  then show ?thesis using w json_sorted_plain json_sorted_idem by simp
qed

lemma json_decode_again: "json_decode s = Some v \<Longrightarrow> json_decode (json_text v) = Some v"
  using json_decode_plain[of s v] json_roundtrip[of v] by (simp add: json_decode_def)

end
