(* ===== verification/Plugin_Bundle.thy ===== *)
theory Plugin_Bundle
  imports Json
begin

text \<open>
  Plugin bundles, \<open>internal/pluginbundle/bundle.go\<close>: the manifest and its validation, reading an archive, building one, and
  publishing an installed version.

  Bytes are strings. The codecs are the record \<open>bundle_lib\<close>: a gzipped tar archive is the list of its entries
  (\<open>bl_untar\<close>, with what follows the last entry: the end or a read error), \<open>bl_tar\<close> writes one, \<open>bl_yaml\<close> and
  \<open>bl_yaml_text\<close> are the strict YAML codec of the manifest, \<open>bl_semver\<close> accepts semantic versions and \<open>bl_sha256\<close> is the
  digest in hexadecimal. The directories a version is installed in are a map from name and version to their content.
\<close>

section \<open>Manifests\<close>

record platform =
  pf_os :: string
  pf_arch :: string
  pf_path :: string
  pf_sha256 :: string

record manifest =
  mf_apiVersion :: string
  mf_name :: string
  mf_version :: string
  mf_minimum :: nat
  mf_maximum :: nat
  mf_capabilities :: "string list"
  mf_platforms :: "platform list"

record tar_entry =
  te_name :: string
  te_dir :: bool
  te_regular :: bool
  te_size :: int
  te_data :: string

record bundle_lib =
  bl_untar :: "string \<Rightarrow> (tar_entry list \<times> bool) option"
  bl_tar :: "(string \<times> nat \<times> string) list \<Rightarrow> string option"
  bl_yaml :: "string \<Rightarrow> manifest option"
  bl_yaml_text :: "manifest \<Rightarrow> string"
  bl_semver :: "string \<Rightarrow> bool"
  bl_sha256 :: "string \<Rightarrow> string"

definition maxBundle :: nat where "maxBundle = 128 * 2 ^ 20"

definition maxFile :: nat where "maxFile = 96 * 2 ^ 20"

definition pluginAPIVersion :: string where "pluginAPIVersion = ''orchigram.dev/plugin/v1alpha1''"

text \<open>\<open>^[a-z][a-z0-9-]{0,62}$\<close>, \<open>^[a-z0-9][a-z0-9_-]{0,31}$\<close> and \<open>^[a-z][a-z0-9-]*(\.[a-z][a-z0-9-]*)+$\<close>.\<close>

definition label_word :: "string \<Rightarrow> bool" where
  "label_word s \<longleftrightarrow> s \<noteq> [] \<and> is_lower (hd s) \<and> list_all (\<lambda>c. dns_char c \<or> c = CHR ''-'') (tl s)"

definition pluginName :: "string \<Rightarrow> bool" where
  "pluginName s \<longleftrightarrow> label_word s \<and> length s \<le> 63"

definition targetName :: "string \<Rightarrow> bool" where
  "targetName s \<longleftrightarrow> s \<noteq> [] \<and> dns_char (hd s) \<and> length s \<le> 32 \<and>
     list_all (\<lambda>c. dns_char c \<or> c = CHR ''_'' \<or> c = CHR ''-'') (tl s)"

definition capabilityName :: "string \<Rightarrow> bool" where
  "capabilityName s \<longleftrightarrow> (let parts = split_on (CHR ''.'') s in 2 \<le> length parts \<and> list_all label_word parts)"

definition cleanArchivePath :: "string \<Rightarrow> (string, string) result" where
  "cleanArchivePath value =
     (let cleaned = filepath_clean (map (\<lambda>c. if c = CHR 0x5C then CHR ''/'' else c) value)
      in if cleaned = ''.'' \<or> cleaned = [] \<or> has_prefix cleaned ''/'' \<or> cleaned = ''..'' \<or> has_prefix cleaned ''../''
         then Inl ''unsafe bundle path'' else Inr cleaned)"

fun validate_capabilities :: "string \<Rightarrow> string list \<Rightarrow> string list \<Rightarrow> (string, unit) result" where
  "validate_capabilities name seen [] = Inr ()"
| "validate_capabilities name seen (c # cs) =
     (if \<not> capabilityName c \<or> c \<in> set seen then Inl ''invalid or duplicate plugin capability''
      else let ns = hd (split_on (CHR ''.'') c) in
        if ns \<noteq> ''task'' \<and> ns \<noteq> ''trigger'' \<and> ns \<noteq> ''agent'' then Inl ''unsupported plugin capability namespace''
        else if ns = ''task'' \<and> \<not> has_prefix c (''task.'' @ name @ ''.'') then Inl ''task capability must be rooted at plugin name''
        else validate_capabilities name (c # seen) cs)"

definition platform_key :: "platform \<Rightarrow> string" where
  "platform_key p = pf_os p @ ''/'' @ pf_arch p"

fun validate_platforms :: "string list \<Rightarrow> string list \<Rightarrow> platform list \<Rightarrow> (string, unit) result" where
  "validate_platforms keys paths [] = Inr ()"
| "validate_platforms keys paths (p # ps) =
     (if \<not> targetName (pf_os p) \<or> \<not> targetName (pf_arch p) then Inl ''invalid plugin platform''
      else if platform_key p \<in> set keys then Inl ''duplicate plugin platform''
      else (case cleanArchivePath (pf_path p) of Inl e \<Rightarrow> Inl e
        | Inr cleaned \<Rightarrow>
            if cleaned \<noteq> pf_path p then Inl ''platform path must be normalized''
            else if pf_path p \<in> set paths then Inl ''duplicate platform target''
            else if length (pf_sha256 p) \<noteq> 64 \<or> \<not> list_all is_hex (pf_sha256 p) then Inl ''platform has invalid sha256''
            else validate_platforms (platform_key p # keys) (pf_path p # paths) ps))"

definition Validate_manifest :: "bundle_lib \<Rightarrow> manifest \<Rightarrow> (string, unit) result" where
  "Validate_manifest bl m =
     (if mf_apiVersion m \<noteq> pluginAPIVersion then Inl ''unsupported plugin apiVersion''
      else if \<not> pluginName (mf_name m) then Inl ''invalid plugin name''
      else if \<not> bl_semver bl (mf_version m) then Inl ''plugin version must be semantic''
      else if mf_minimum m = 0 \<or> mf_maximum m < mf_minimum m then Inl ''plugin protocol range is invalid''
      else if mf_capabilities m = [] then Inl ''plugin capabilities must not be empty''
      else if mf_platforms m = [] then Inl ''plugin platforms must not be empty''
      else bind_res (validate_capabilities (mf_name m) [] (mf_capabilities m)) (\<lambda>_.
           validate_platforms [] [] (mf_platforms m)))"

definition Platform_of :: "manifest \<Rightarrow> string \<Rightarrow> string \<Rightarrow> (string, platform) result" where
  "Platform_of m os arch =
     or_fail ''plugin has no binary for the platform'' (List.find (\<lambda>p. pf_os p = os \<and> pf_arch p = arch) (mf_platforms m))"

section \<open>Reading a bundle\<close>

definition to_lower :: "char \<Rightarrow> char" where
  "to_lower c = (if 65 \<le> (of_char c :: nat) \<and> (of_char c :: nat) \<le> 90 then char_of ((of_char c :: nat) + 32) else c)"

text \<open>\<open>strings.EqualFold\<close> of two hexadecimal digests.\<close>

definition equal_fold :: "string \<Rightarrow> string \<Rightarrow> bool" where
  "equal_fold a b \<longleftrightarrow> map to_lower a = map to_lower b"

fun read_entries :: "tar_entry list \<Rightarrow> bool \<Rightarrow> (string \<times> string) list \<Rightarrow> (string, (string \<times> string) list) result" where
  "read_entries [] complete files = (if complete then Inr files else Inl ''read plugin bundle'')"
| "read_entries (e # es) complete files =
     (if te_dir e then read_entries es complete files
      else if \<not> te_regular e then Inl ''bundle entry is not a regular file''
      else (case cleanArchivePath (te_name e) of Inl x \<Rightarrow> Inl x
        | Inr name \<Rightarrow>
            if te_size e < 0 \<or> int maxFile < te_size e then Inl ''bundle entry exceeds size limit''
            else if name \<in> fst ` set files then Inl ''duplicate bundle entry''
            else if int (length (te_data e)) \<noteq> te_size e then Inl ''read bundle entry''
            else read_entries es complete (map_put name (te_data e) files)))"

definition ParseForPlatform :: "bundle_lib \<Rightarrow> string \<Rightarrow> string \<Rightarrow> string \<Rightarrow> (string, manifest \<times> string \<times> string) result" where
  "ParseForPlatform bl bundle os arch =
     (if bundle = [] \<or> maxBundle < length bundle then Inl ''plugin bundle must be between 1 byte and 128 MiB''
      else (case bl_untar bl bundle of None \<Rightarrow> Inl ''open plugin bundle''
        | Some (entries, complete) \<Rightarrow>
      bind_res (read_entries entries complete []) (\<lambda>files.
      bind_res (or_fail ''plugin.yaml is required'' (map_of files ''plugin.yaml'')) (\<lambda>manifestData.
      bind_res (or_fail ''decode plugin.yaml'' (bl_yaml bl manifestData)) (\<lambda>m.
      bind_res (Validate_manifest bl m) (\<lambda>_.
      bind_res (Platform_of m os arch) (\<lambda>p.
      bind_res (or_fail ''platform binary is missing'' (map_of files (pf_path p))) (\<lambda>binary.
      bind_res (fail_if (\<not> equal_fold (pf_sha256 p) (bl_sha256 bl binary)) ''platform binary digest mismatch'') (\<lambda>_.
      Inr (m, binary, bl_sha256 bl bundle))))))))))"

section \<open>Building a bundle\<close>

definition normalizeManifest :: "manifest \<Rightarrow> manifest" where
  "normalizeManifest m = m\<lparr>mf_capabilities := sort (mf_capabilities m),
     mf_platforms := sort_key (\<lambda>p. (pf_os p, pf_arch p, pf_path p)) (mf_platforms m)\<rparr>"

fun build_files :: "bundle_lib \<Rightarrow> (string \<times> string) list \<Rightarrow> platform list \<Rightarrow> (string \<times> string) list \<Rightarrow> (string, (string \<times> string) list) result" where
  "build_files bl binaries [] files = Inr files"
| "build_files bl binaries (p # ps) files =
     (case map_of binaries (pf_path p) of None \<Rightarrow> Inl ''binary is missing''
      | Some binary \<Rightarrow>
          if \<not> equal_fold (pf_sha256 p) (bl_sha256 bl binary) then Inl ''binary digest mismatch''
          else build_files bl binaries ps (map_put (pf_path p) binary files))"

definition archive_files :: "(string \<times> string) list \<Rightarrow> (string \<times> nat \<times> string) list" where
  "archive_files files = map (\<lambda>n. (n, if n = ''plugin.yaml'' then 0x1A0 else 0x168, the (map_of files n))) (sort (map fst files))"

definition Build :: "bundle_lib \<Rightarrow> manifest \<Rightarrow> (string \<times> string) list \<Rightarrow> (string, string) result" where
  "Build bl manifest binaries =
     (let m = normalizeManifest manifest in
      bind_res (Validate_manifest bl m) (\<lambda>_.
      bind_res (build_files bl binaries (mf_platforms m) [(''plugin.yaml'', bl_yaml_text bl m)]) (\<lambda>files.
      bind_res (or_fail ''write plugin bundle'' (bl_tar bl (archive_files files))) (\<lambda>output.
      if maxBundle < length output then Inl ''plugin bundle exceeds 128 MiB'' else Inr output))))"

section \<open>Publishing a version\<close>

text \<open>A directory of an installed version: the text of \<open>bundle.sha256\<close>, when it can be read, and the binary.\<close>

record version_tree =
  vt_digest :: "string option"
  vt_binary :: string

type_synonym plugin_trees = "((string \<times> string) \<times> version_tree) list"

record staged =
  sg_manifest :: manifest
  sg_digest :: string
  sg_tree :: version_tree

definition Stage :: "bundle_lib \<Rightarrow> string \<Rightarrow> string \<Rightarrow> string \<Rightarrow> (string, staged) result" where
  "Stage bl os arch bundle = bind_res (ParseForPlatform bl bundle os arch) (\<lambda>(m, binary, digest).
     Inr \<lparr>sg_manifest = m, sg_digest = digest, sg_tree = \<lparr>vt_digest = Some (digest @ [CHR 0x0A]), vt_binary = binary\<rparr>\<rparr>)"

definition final_directory :: "manifest \<Rightarrow> string \<times> string" where
  "final_directory m = (mf_name m, mf_version m)"

text \<open>The answer says whether the directory was created by this call (\<open>Published\<close>).\<close>

definition Publish :: "staged \<Rightarrow> plugin_trees \<Rightarrow> (string, bool) result \<times> plugin_trees" where
  "Publish sg trees =
     (case map_of trees (final_directory (sg_manifest sg)) of
        Some existing \<Rightarrow> if map_option trim_space (vt_digest existing) = Some (sg_digest sg) then (Inr False, trees)
          else (Inl ''plugin version is already installed with a different digest'', trees)
      | None \<Rightarrow> (Inr True, map_put (final_directory (sg_manifest sg)) (sg_tree sg) trees))"

section \<open>Paths\<close>

lemma split_on_nonempty [simp]: "split_on c xs \<noteq> []"
  by (induction xs) (auto split: list.splits)

lemma split_on_parts: "p \<in> set (split_on c xs) \<Longrightarrow> c \<notin> set p"
proof (induction xs arbitrary: p)
  case (Cons x xs)
  then show ?case by (cases "split_on c xs") (auto split: if_splits)
qed simp

lemma split_on_append: "c \<notin> set xs \<Longrightarrow> split_on c (xs @ c # ys) = xs # split_on c ys"
  by (induction xs) auto

lemma split_on_single: "c \<notin> set xs \<Longrightarrow> split_on c xs = [xs]"
  by (induction xs) auto

lemma split_join: "ps \<noteq> [] \<Longrightarrow> \<forall>p \<in> set ps. c \<notin> set p \<Longrightarrow> split_on c (join_with [c] ps) = ps"
  by (induction "[c]" ps rule: join_with.induct) (auto simp: split_on_append split_on_single)

definition proper_segment :: "string \<Rightarrow> bool" where
  "proper_segment p \<longleftrightarrow> p \<noteq> [] \<and> p \<noteq> ''.'' \<and> p \<noteq> ''..'' \<and> CHR ''/'' \<notin> set p"

text \<open>Cleaning a relative path leaves parent steps only at its front.\<close>

lemma clean_segments_form:
  assumes "acc = ns @ replicate k ''..''" "\<forall>n \<in> set ns. proper_segment n" "\<forall>p \<in> set ps. CHR ''/'' \<notin> set p"
  shows "\<exists>j ms. clean_segments False acc ps = replicate j ''..'' @ ms \<and> (\<forall>m \<in> set ms. proper_segment m)"
  using assms
proof (induction ps arbitrary: acc ns k)
  case Nil
  then show ?case by (auto intro!: exI[of _ k] exI[of _ "rev ns"])
next
  case (Cons p ps)
  show ?case
  proof (cases "p = [] \<or> p = ''.''")
    case True
    then show ?thesis using Cons by simp
  next
    case ne: False
    show ?thesis
    proof (cases "p = ''..''")
      case False
      then have "p # acc = (p # ns) @ replicate k ''..''" "\<forall>n \<in> set (p # ns). proper_segment n"
        using Cons.prems ne by (auto simp: proper_segment_def)
      from Cons.IH[OF this] show ?thesis using ne False Cons.prems by simp
    next
      case up: True
      show ?thesis
      proof (cases ns)
        case Nil
        have "''..'' # acc = [] @ replicate (Suc k) ''..''" using Cons.prems Nil by simp
        from Cons.IH[OF this] show ?thesis using up Cons.prems Nil by (cases k) auto
      next
        case (Cons n ns')
        have "n \<noteq> ''..''" using Cons.prems(2) Cons by (simp add: proper_segment_def)
        then show ?thesis using Cons.IH[of "ns' @ replicate k ''..''" ns' k] up Cons.prems Cons by simp
      qed
    qed
  qed
qed

lemma has_prefix_app [simp]: "has_prefix (p @ s) p"
  by (simp add: has_prefix_def)

definition safe_path :: "string \<Rightarrow> bool" where
  "safe_path p \<longleftrightarrow> \<not> has_prefix p ''/'' \<and> list_all proper_segment (split_on (CHR ''/'') p)"

lemma cleanArchivePath_safe:
  assumes "cleanArchivePath v = Inr p"
  shows "safe_path p"
proof -
  define w where "w = map (\<lambda>c. if c = CHR 0x5C then CHR ''/'' else c) v"
  have p: "p = filepath_clean w" "p \<noteq> ''.''" "p \<noteq> []" "\<not> has_prefix p ''/''" "p \<noteq> ''..''" "\<not> has_prefix p ''../''"
    using assms by (auto simp: cleanArchivePath_def w_def Let_def split: if_splits)
  have rel: "\<not> is_abs w" using p(1,4) by (auto simp: filepath_clean_def Let_def has_prefix_def)
  obtain j ms where f: "clean_segments False [] (split_on (CHR ''/'') w) = replicate j ''..'' @ ms" "\<forall>m \<in> set ms. proper_segment m"
    using clean_segments_form[of "[]" "[]" 0 "split_on (CHR ''/'') w"] by (auto dest: split_on_parts)
  let ?segs = "replicate j ''..'' @ ms"
  have ne: "?segs \<noteq> []" and pj: "p = join_with ''/'' ?segs"
    using p rel f by (auto simp: filepath_clean_def Let_def split: if_splits)
  have "j = 0"
  proof (rule ccontr)
    assume "j \<noteq> 0"
    then obtain i where "?segs = ''..'' # replicate i ''..'' @ ms" by (cases j) auto
    then show False using pj p(5,6) by (cases "replicate i ''..'' @ ms") (auto simp: has_prefix_def)
  qed
  then have "split_on (CHR ''/'') p = ms" using pj ne f(2) by (auto simp: proper_segment_def intro!: split_join)
  then show ?thesis using f(2) p(4) by (simp add: safe_path_def list_all_iff)
qed

section \<open>What is read\<close>

lemma read_entries_Inr:
  assumes "read_entries es complete files = Inr out" "distinct (map fst files)"
  shows "complete \<and> distinct (map fst out) \<and> (\<forall>n d. map_of out n = Some d \<longrightarrow> map_of files n = Some d \<or>
    (\<exists>e \<in> set es. te_regular e \<and> \<not> te_dir e \<and> cleanArchivePath (te_name e) = Inr n \<and> te_data e = d \<and> length d \<le> maxFile))"
  using assms
proof (induction es complete files rule: read_entries.induct)
  case (1 complete files)
  then show ?case by (auto split: if_splits)
next
  case (2 e es complete files)
  show ?case
  proof (cases "te_dir e")
    case True
    then show ?thesis using 2 by fastforce
  next
    case False
    then obtain name where n: "te_regular e" "cleanArchivePath (te_name e) = Inr name" "\<not> int maxFile < te_size e" "0 \<le> te_size e"
      "name \<notin> fst ` set files" "int (length (te_data e)) = te_size e"
      "read_entries es complete (map_put name (te_data e) files) = Inr out"
      using 2(3) by (auto split: if_splits sum.splits)
    have d: "distinct (map fst (map_put name (te_data e) files))" by (rule distinct_map_put[OF 2(4)])
    have "length (te_data e) \<le> maxFile" using n by linarith
    then have IH: "complete \<and> distinct (map fst out) \<and> (\<forall>k x. map_of out k = Some x \<longrightarrow> map_of (map_put name (te_data e) files) k = Some x \<or>
        (\<exists>e \<in> set es. te_regular e \<and> \<not> te_dir e \<and> cleanArchivePath (te_name e) = Inr k \<and> te_data e = x \<and> length x \<le> maxFile))"
      using 2(2)[OF False _ n(2) _ _ _ n(7) d] n by simp
    have "map_of files k = Some x \<or> (\<exists>e \<in> set (e # es). te_regular e \<and> \<not> te_dir e \<and> cleanArchivePath (te_name e) = Inr k \<and> te_data e = x \<and> length x \<le> maxFile)"
      if "map_of out k = Some x" for k x
    proof -
      from IH that consider "map_of (map_put name (te_data e) files) k = Some x"
        | "\<exists>e \<in> set es. te_regular e \<and> \<not> te_dir e \<and> cleanArchivePath (te_name e) = Inr k \<and> te_data e = x \<and> length x \<le> maxFile" by blast
      then show ?thesis
      proof cases
        case 1
        then show ?thesis using n(1,2) False \<open>length (te_data e) \<le> maxFile\<close> by (cases "k = name") auto
      next
        case 2
        then show ?thesis by auto
      qed
    qed
    then show ?thesis using IH by blast
  qed
qed

lemma validate_platforms_Inr:
  "validate_platforms keys paths ps = Inr u \<longleftrightarrow>
     (\<forall>p \<in> set ps. targetName (pf_os p) \<and> targetName (pf_arch p) \<and> cleanArchivePath (pf_path p) = Inr (pf_path p) \<and>
        length (pf_sha256 p) = 64 \<and> list_all is_hex (pf_sha256 p)) \<and>
     distinct (map platform_key ps) \<and> set keys \<inter> platform_key ` set ps = {} \<and>
     distinct (map pf_path ps) \<and> set paths \<inter> pf_path ` set ps = {}"
  by (induction keys paths ps rule: validate_platforms.induct) (auto split: sum.splits)

lemma Validate_manifest_platforms:
  "Validate_manifest bl m = Inr u \<Longrightarrow> (\<forall>p \<in> set (mf_platforms m). cleanArchivePath (pf_path p) = Inr (pf_path p)) \<and>
     distinct (map platform_key (mf_platforms m)) \<and> distinct (map pf_path (mf_platforms m))"
  by (auto simp: Validate_manifest_def validate_platforms_Inr split: if_splits)

lemma Platform_of_Inr:
  "Platform_of m os arch = Inr p \<Longrightarrow> p \<in> set (mf_platforms m) \<and> pf_os p = os \<and> pf_arch p = arch"
  by (auto simp: Platform_of_def find_Some_iff)


section \<open>What is built\<close>

definition tar_codec :: "bundle_lib \<Rightarrow> bool" where
  "tar_codec bl \<longleftrightarrow> (\<forall>fs out. bl_tar bl fs = Some out \<longrightarrow> out \<noteq> [] \<and>
     bl_untar bl out = Some (map (\<lambda>(n, mode, d). \<lparr>te_name = n, te_dir = False, te_regular = True, te_size = int (length d), te_data = d\<rparr>) fs, True))"

lemma read_written:
  assumes "distinct (map fst files @ map fst fs)"
    and "\<forall>(n, mode, d) \<in> set fs. cleanArchivePath n = Inr n \<and> length d \<le> maxFile"
  shows "read_entries (map (\<lambda>(n, mode, d). \<lparr>te_name = n, te_dir = False, te_regular = True, te_size = int (length d), te_data = d\<rparr>) fs) True files
    = Inr (files @ map (\<lambda>(n, mode, d). (n, d)) fs)"
  using assms
proof (induction fs arbitrary: files)
  case (Cons f fs)
  obtain n mode d where f: "f = (n, mode, d)" by (cases f)
  have "n \<notin> fst ` set files" using Cons.prems(1) by (auto simp: f)
  then have put: "map_put n d files = files @ [(n, d)]" by (simp add: map_put_def)
  have "distinct (map fst (files @ [(n, d)]) @ map fst fs)" using Cons.prems(1) by (auto simp: f)
  from Cons.IH[OF this] show ?case using Cons.prems \<open>n \<notin> fst ` set files\<close> by (simp add: f put)
qed simp

lemma build_files_Inr:
  assumes "build_files bl binaries ps files = Inr out" "distinct (map pf_path ps)" "distinct (map fst files)"
  shows "distinct (map fst out) \<and> (\<forall>p \<in> set ps. \<exists>b. map_of binaries (pf_path p) = Some b \<and> map_of out (pf_path p) = Some b \<and>
      equal_fold (pf_sha256 p) (bl_sha256 bl b)) \<and>
    (\<forall>n. n \<notin> pf_path ` set ps \<longrightarrow> map_of out n = map_of files n) \<and> fst ` set out = fst ` set files \<union> pf_path ` set ps"
  using assms
proof (induction ps arbitrary: files)
  case (Cons p ps)
  obtain b where b: "map_of binaries (pf_path p) = Some b" "equal_fold (pf_sha256 p) (bl_sha256 bl b)"
    "build_files bl binaries ps (map_put (pf_path p) b files) = Inr out"
    using Cons.prems(1) by (auto split: option.splits if_splits)
  have d: "distinct (map pf_path ps)" "pf_path p \<notin> pf_path ` set ps" using Cons.prems(2) by auto
  have "map_of out (pf_path p) = Some b" using Cons.IH[OF b(3) d(1) distinct_map_put[OF Cons.prems(3)]] d(2) by simp
  then show ?case using Cons.IH[OF b(3) d(1) distinct_map_put[OF Cons.prems(3)]] b by (auto simp: keys_map_put)
qed simp

lemma map_of_archive:
  assumes "distinct (map fst files)" "map_of files n = Some d"
  shows "map_of (map (\<lambda>(n, mode, d). (n, d)) (archive_files files)) n = Some d"
proof -
  have "map (\<lambda>(n, mode, d). (n, d)) (archive_files files) = map (\<lambda>n. (n, the (map_of files n))) (sort (map fst files))"
    by (simp add: archive_files_def comp_def)
  moreover have "set (sort (map fst files)) = dom (map_of files)" by (simp add: dom_map_of_conv_image_fst)
  ultimately show ?thesis using assms(2) by (simp add: map_of_map_keys)
qed

lemma find_platform:
  assumes "distinct (map platform_key ps)" "p \<in> set ps"
  shows "List.find (\<lambda>q. pf_os q = pf_os p \<and> pf_arch q = pf_arch p) ps = Some p"
  using assms
proof (induction ps)
  case (Cons q ps)
  then show ?case by (cases "pf_os q = pf_os p \<and> pf_arch q = pf_arch p") (force simp: platform_key_def)+
qed simp

lemma Platform_of_valid:
  "Validate_manifest bl m = Inr u \<Longrightarrow> p \<in> set (mf_platforms m) \<Longrightarrow> Platform_of m (pf_os p) (pf_arch p) = Inr p"
  using Validate_manifest_platforms[of bl m u] find_platform[of "mf_platforms m" p] by (simp add: Platform_of_def)


lemma normalize_permuted:
  assumes "mset (mf_capabilities m) = mset (mf_capabilities m')" "mset (mf_platforms m) = mset (mf_platforms m')"
    and "m' = m\<lparr>mf_capabilities := mf_capabilities m', mf_platforms := mf_platforms m'\<rparr>" "Validate_manifest bl (normalizeManifest m) = Inr u"
  shows "normalizeManifest m' = normalizeManifest m"
proof -
  have "distinct (map platform_key (mf_platforms (normalizeManifest m)))" using Validate_manifest_platforms[OF assms(4)] by blast
  then have "inj_on platform_key (set (mf_platforms m))" by (simp add: distinct_map normalizeManifest_def)
  then have "inj_on (\<lambda>p. (pf_os p, pf_arch p, pf_path p)) (set (mf_platforms m))" by (auto simp: inj_on_def platform_key_def)
  then have "sort_key (\<lambda>p. (pf_os p, pf_arch p, pf_path p)) (mf_platforms m) = sort_key (\<lambda>p. (pf_os p, pf_arch p, pf_path p)) (mf_platforms m')"
    by (rule sort_key_cong_mset[OF assms(2)])
  moreover have "sort (mf_capabilities m) = sort (mf_capabilities m')"
    using assms(1) by (intro properties_for_sort) simp_all
  ultimately show ?thesis unfolding normalizeManifest_def by (subst assms(3)) simp
qed

lemma build_is_deterministic:
  assumes "Build bl m binaries = Inr out" "map_of binaries' = map_of binaries"
    and "mset (mf_capabilities m) = mset (mf_capabilities m')" "mset (mf_platforms m) = mset (mf_platforms m')"
    and "m' = m\<lparr>mf_capabilities := mf_capabilities m', mf_platforms := mf_platforms m'\<rparr>"
  shows "Build bl m' binaries' = Inr out"
proof -
  have "Validate_manifest bl (normalizeManifest m) = Inr ()" using assms(1) by (simp add: Build_def Let_def)
  note n = normalize_permuted[OF assms(3-5) this]
  have "build_files bl binaries' ps files = build_files bl binaries ps files" for ps files
    by (induction ps arbitrary: files) (simp_all add: assms(2) split: option.split)
  then show ?thesis using assms(1) n by (simp add: Build_def Let_def)
qed

lemma Publish_once:
  assumes "Publish sg trees = (r, trees')"
  shows "map_of trees k = Some t \<Longrightarrow> map_of trees' k = Some t"
    and "r = Inr fresh \<Longrightarrow> \<exists>t. map_of trees' (final_directory (sg_manifest sg)) = Some t \<and>
       (if fresh then map_of trees (final_directory (sg_manifest sg)) = None \<and> t = sg_tree sg
        else trees' = trees \<and> map_option trim_space (vt_digest t) = Some (sg_digest sg))"
    and "r = Inl e \<Longrightarrow> trees' = trees"
  using assms by (auto simp: Publish_def split: option.splits if_splits)

section \<open>A sample bundle\<close>

definition sample_manifest :: manifest where
  "sample_manifest = \<lparr>mf_apiVersion = pluginAPIVersion, mf_name = ''git'', mf_version = ''1.0.0'', mf_minimum = 1, mf_maximum = 1,
     mf_capabilities = [''task.git.clone''], mf_platforms = [\<lparr>pf_os = ''linux'', pf_arch = ''amd64'', pf_path = ''bin/git'',
       pf_sha256 = replicate 64 (CHR ''0'')\<rparr>]\<rparr>"

definition sample_entries :: "(string \<times> nat \<times> string) list" where
  "sample_entries = [(''bin/git'', 0x168, ''ELF''), (''plugin.yaml'', 0x1A0, ''m'')]"

definition sample_bundle_lib :: bundle_lib where
  "sample_bundle_lib = \<lparr>bl_untar = (\<lambda>b. if b = ''x'' then Some (map (\<lambda>(n, mode, d). \<lparr>te_name = n, te_dir = False, te_regular = True,
       te_size = int (length d), te_data = d\<rparr>) sample_entries, True) else None),
     bl_tar = (\<lambda>fs. if fs = sample_entries then Some ''x'' else None), bl_yaml = (\<lambda>t. if t = ''m'' then Some sample_manifest else None),
     bl_yaml_text = (\<lambda>_. ''m''), bl_semver = (\<lambda>v. v \<noteq> []), bl_sha256 = (\<lambda>_. replicate 64 (CHR ''0''))\<rparr>"

lemma sample_valid: "Validate_manifest sample_bundle_lib sample_manifest = Inr ()"
  by code_simp

lemma sample_normal: "normalizeManifest sample_manifest = sample_manifest"
  by code_simp

lemma sample_built: "Build sample_bundle_lib sample_manifest [(''bin/git'', ''ELF'')] = Inr ''x''"
proof -
  have f: "build_files sample_bundle_lib [(''bin/git'', ''ELF'')] (mf_platforms sample_manifest) [(''plugin.yaml'', bl_yaml_text sample_bundle_lib sample_manifest)]
      = Inr [(''plugin.yaml'', ''m''), (''bin/git'', ''ELF'')]" by code_simp
  have t: "bl_tar sample_bundle_lib (archive_files [(''plugin.yaml'', ''m''), (''bin/git'', ''ELF'')]) = Some ''x''" by code_simp
  show ?thesis by (simp add: Build_def Let_def sample_normal sample_valid f t maxBundle_def)
qed

lemma sample_tar_codec: "tar_codec sample_bundle_lib"
  by (auto simp: tar_codec_def sample_bundle_lib_def)


lemma sample_parsed: "ParseForPlatform sample_bundle_lib ''x'' ''linux'' ''amd64'' = Inr (sample_manifest, ''ELF'', replicate 64 (CHR ''0''))"
proof -
  have r: "read_entries (map (\<lambda>(n, mode, d). \<lparr>te_name = n, te_dir = False, te_regular = True, te_size = int (length d), te_data = d\<rparr>) sample_entries) True []
      = Inr [(''bin/git'', ''ELF''), (''plugin.yaml'', ''m'')]"
  proof -
    have c: "cleanArchivePath ''bin/git'' = Inr ''bin/git''" "cleanArchivePath ''plugin.yaml'' = Inr ''plugin.yaml''" by code_simp+
    show ?thesis by (simp add: sample_entries_def c maxFile_def map_put_def)
  qed
  have p: "Platform_of sample_manifest ''linux'' ''amd64'' = Inr (hd (mf_platforms sample_manifest))" by code_simp
  have v: "Validate_manifest sample_bundle_lib sample_manifest = Inr ()" by (rule sample_valid)
  show ?thesis using v r p by (simp add: ParseForPlatform_def sample_bundle_lib_def maxBundle_def) (simp add: sample_manifest_def equal_fold_def)
qed


end
