(* ===== verification/Plugin_Contract.thy ===== *)
theory Plugin_Contract
  imports Json_Text Plugin_Bundle Action_Contract
begin

text \<open>
  The contract a plugin publishes, \<open>sdk/plugin/schema.go\<close> and \<open>validateMetadata\<close> of \<open>sdk/plugin/sdk.go\<close>: descriptors of actions and
  triggers with their JSON schemas. The host validates a description with the same rules the plugin was built with and pins the digest of the
  canonical contract.

  A descriptor is a record over the type of its schemas: the raw text in a description, the decoded document once it is validated, and an
  optional document when it is read back from the database. The JSON Schema compiler, the semantic version parser and SHA-256 are the record
  \<open>sdk_lib\<close>. \<open>rejectExternalReferences\<close> of this file is the function of \<open>Action_Contract\<close>, but for the texts of its errors.
\<close>

section \<open>Descriptors\<close>

record 's action_descriptor =
  acd_action :: string
  acd_config :: 's
  acd_input :: 's
  acd_output :: 's

record 's trigger_descriptor =
  trd_source :: string
  trd_config :: 's
  trd_event :: 's

record 's contract =
  con_actions :: "'s action_descriptor list"
  con_triggers :: "'s trigger_descriptor list"

record 's metadata =
  md_name :: string
  md_version :: string
  md_capabilities :: "string list"
  md_actions :: "'s action_descriptor list"
  md_triggers :: "'s trigger_descriptor list"
  md_inputSchema :: string
  md_outputSchema :: string

record description =
  ds_name :: string
  ds_version :: string
  ds_capabilities :: "string list"
  ds_protocol :: "(nat \<times> nat) option"
  ds_actions :: "string action_descriptor list"
  ds_triggers :: "string trigger_descriptor list"

record sdk_lib =
  sl_semver :: "string \<Rightarrow> bool"
  sl_compile :: "json \<Rightarrow> bool"
  sl_sha256 :: "string \<Rightarrow> string"

definition ActivationFenceCapability :: string where
  "ActivationFenceCapability = ''trigger.bootstrap.activation-fence''"

section \<open>Schemas\<close>

definition declaresObject :: "json \<Rightarrow> bool" where
  "declaresObject document \<longleftrightarrow> json_get ''type'' document = Some (JStr ''object'')"

definition compileSchema :: "sdk_lib \<Rightarrow> string \<Rightarrow> bool \<Rightarrow> (string, json) result" where
  "compileSchema sl raw requireObject =
     (if trim_space raw = [] then Inl ''schema is required''
      else (case parse_value (2 * length raw + 2) raw of None \<Rightarrow> Inl ''schema must be valid JSON''
        | Some (v, rest) \<Rightarrow>
            if skip_ws rest \<noteq> [] then Inl ''schema must contain exactly one JSON value''
            else let document = json_sorted v in
              bind_res (rejectExternalReferences document) (\<lambda>_.
              bind_res (fail_if (requireObject \<and> \<not> declaresObject document) ''schema must declare an object root'') (\<lambda>_.
              bind_res (fail_if (\<not> sl_compile sl document) ''compile schema'') (\<lambda>_. Inr document)))))"

definition compile_action :: "sdk_lib \<Rightarrow> string action_descriptor \<Rightarrow> (string, json action_descriptor) result" where
  "compile_action sl d =
     bind_res (compileSchema sl (acd_config d) True) (\<lambda>config.
     bind_res (compileSchema sl (acd_input d) False) (\<lambda>input.
     bind_res (compileSchema sl (acd_output d) False) (\<lambda>output.
     Inr \<lparr>acd_action = acd_action d, acd_config = config, acd_input = input, acd_output = output\<rparr>)))"

fun check_actions :: "sdk_lib \<Rightarrow> string \<Rightarrow> string list \<Rightarrow> bool \<Rightarrow> string list \<Rightarrow> string action_descriptor list \<Rightarrow> (string, json action_descriptor list) result" where
  "check_actions sl name declared hasAgent seen [] = Inr []"
| "check_actions sl name declared hasAgent seen (d # ds) =
     (if \<not> capabilityName (acd_action d) \<or> \<not> has_prefix (acd_action d) (name @ ''.'') then Inl ''invalid action descriptor''
      else if acd_action d \<in> set seen then Inl ''duplicate action descriptor''
      else if acd_action d \<notin> set declared \<and> \<not> (hasAgent \<and> acd_action d = name @ ''.run'') then Inl ''action descriptor has no matching capability''
      else bind_res (compile_action sl d) (\<lambda>c.
           bind_res (check_actions sl name declared hasAgent (acd_action d # seen) ds) (\<lambda>cs. Inr (c # cs))))"

definition validateActionDescriptors :: "sdk_lib \<Rightarrow> string metadata \<Rightarrow> string list \<Rightarrow> bool \<Rightarrow> (string, json action_descriptor list) result" where
  "validateActionDescriptors sl m declared hasAgent =
     bind_res (check_actions sl (md_name m) declared hasAgent [] (md_actions m)) (\<lambda>ds.
     bind_res (fail_if (\<not> set declared \<subseteq> acd_action ` set ds) ''task action is missing an action descriptor'') (\<lambda>_.
     bind_res (fail_if (hasAgent \<and> md_name m @ ''.run'' \<notin> acd_action ` set ds) ''agent runtime is missing action descriptor'') (\<lambda>_.
     Inr (sort_key acd_action ds))))"

definition declared_triggers :: "string list \<Rightarrow> string list" where
  "declared_triggers capabilities = map (drop 8) (filter (\<lambda>c. has_prefix c ''trigger.'' \<and> c \<noteq> ActivationFenceCapability) capabilities)"

definition compile_trigger :: "sdk_lib \<Rightarrow> string trigger_descriptor \<Rightarrow> (string, json trigger_descriptor) result" where
  "compile_trigger sl d =
     bind_res (compileSchema sl (trd_config d) True) (\<lambda>config.
     bind_res (compileSchema sl (trd_event d) False) (\<lambda>event.
     Inr \<lparr>trd_source = trd_source d, trd_config = config, trd_event = event\<rparr>))"

fun check_triggers :: "sdk_lib \<Rightarrow> string \<Rightarrow> string list \<Rightarrow> string list \<Rightarrow> string trigger_descriptor list \<Rightarrow> (string, json trigger_descriptor list) result" where
  "check_triggers sl name declared seen [] = Inr []"
| "check_triggers sl name declared seen (d # ds) =
     (if \<not> capabilityName (trd_source d) \<or> \<not> has_prefix (trd_source d) (name @ ''.'') then Inl ''invalid trigger descriptor''
      else if trd_source d \<in> set seen then Inl ''duplicate trigger descriptor''
      else if trd_source d \<notin> set declared then Inl ''trigger descriptor has no matching capability''
      else bind_res (compile_trigger sl d) (\<lambda>c.
           bind_res (check_triggers sl name declared (trd_source d # seen) ds) (\<lambda>cs. Inr (c # cs))))"

definition validateTriggerDescriptors :: "sdk_lib \<Rightarrow> string metadata \<Rightarrow> bool \<Rightarrow> (string, json trigger_descriptor list) result" where
  "validateTriggerDescriptors sl m hasTrigger =
     bind_res (check_triggers sl (md_name m) (declared_triggers (md_capabilities m)) [] (md_triggers m)) (\<lambda>ds.
     bind_res (fail_if (hasTrigger \<and> \<not> set (declared_triggers (md_capabilities m)) \<subseteq> trd_source ` set ds) ''trigger source is missing a trigger descriptor'') (\<lambda>_.
     Inr (sort_key trd_source ds)))"

text \<open>The loop over the capabilities; the answer is the declared task actions.\<close>

fun check_capabilities :: "string \<Rightarrow> string list \<Rightarrow> string list \<Rightarrow> (string, string list) result" where
  "check_capabilities name seen [] = Inr []"
| "check_capabilities name seen (c # cs) =
     (if \<not> capabilityName c then Inl ''invalid plugin capability''
      else if c \<in> set seen then Inl ''duplicate plugin capability''
      else (let ns = hd (split_on (CHR ''.'') c) in
        if ns \<noteq> ''task'' \<and> ns \<noteq> ''trigger'' \<and> ns \<noteq> ''agent'' then Inl ''unsupported plugin capability namespace''
        else if has_prefix c ''task.'' then
          (if \<not> has_prefix c (''task.'' @ name @ ''.'') then Inl ''task capability must be rooted at plugin name''
           else bind_res (check_capabilities name (c # seen) cs) (\<lambda>as. Inr (drop 5 c # as)))
        else check_capabilities name (c # seen) cs))"

definition validateMetadata :: "sdk_lib \<Rightarrow> string metadata \<Rightarrow> bool \<Rightarrow> bool \<Rightarrow> bool \<Rightarrow> (string, json metadata \<times> string list) result" where
  "validateMetadata sl m hasTask hasTrigger hasAgent =
     (if \<not> pluginName (md_name m) then Inl ''invalid plugin name''
      else if \<not> sl_semver sl (md_version m) then Inl ''plugin version must be semantic''
      else if md_capabilities m = [] then Inl ''plugin capabilities must not be empty''
      else bind_res (check_capabilities (md_name m) [] (md_capabilities m)) (\<lambda>actions.
        bind_res (fail_if (hasTask \<and> actions = []) ''task handler requires at least one task.<action> capability'') (\<lambda>_.
        bind_res (fail_if (\<exists>s \<in> {md_inputSchema m, md_outputSchema m}. s \<noteq> [] \<and> json_parse s = None) ''schema must be valid JSON'') (\<lambda>_.
        bind_res (validateActionDescriptors sl m actions hasAgent) (\<lambda>validatedActions.
        bind_res (validateTriggerDescriptors sl m hasTrigger) (\<lambda>validatedTriggers.
        Inr (\<lparr>md_name = md_name m, md_version = md_version m, md_capabilities = sort (md_capabilities m), md_actions = validatedActions,
              md_triggers = validatedTriggers, md_inputSchema = md_inputSchema m, md_outputSchema = md_outputSchema m\<rparr>, actions)))))))"

section \<open>The canonical contract\<close>

definition object_text :: "(string \<times> string) list \<Rightarrow> string" where
  "object_text kvs = CHR ''{'' # join_with '','' (map (\<lambda>(k, v). json_quote k @ CHR '':'' # v) kvs) @ ''}''"

definition array_text :: "string list \<Rightarrow> string" where
  "array_text xs = CHR ''['' # join_with '','' xs @ '']''"

text \<open>\<open>json.Marshal\<close> of a contract: fields in the order of the structs, an empty slice of actions is \<open>null\<close>, empty triggers are left out.\<close>

definition contract_text :: "json contract \<Rightarrow> string" where
  "contract_text c = object_text
     ((''actions'', if con_actions c = [] then ''null'' else array_text (map (\<lambda>d. object_text [(''action'', json_quote (acd_action d)),
         (''configSchema'', json_text (acd_config d)), (''inputSchema'', json_text (acd_input d)), (''outputSchema'', json_text (acd_output d))])
         (con_actions c)))
      # (if con_triggers c = [] then [] else [(''triggers'', array_text (map (\<lambda>d. object_text [(''source'', json_quote (trd_source d)),
         (''configSchema'', json_text (trd_config d)), (''eventSchema'', json_text (trd_event d))]) (con_triggers c)))]))"

definition described_metadata :: "description \<Rightarrow> string metadata" where
  "described_metadata d = \<lparr>md_name = ds_name d, md_version = ds_version d, md_capabilities = ds_capabilities d, md_actions = ds_actions d,
     md_triggers = ds_triggers d, md_inputSchema = [], md_outputSchema = []\<rparr>"

definition has_task :: "string list \<Rightarrow> bool" where
  "has_task capabilities \<longleftrightarrow> list_ex (\<lambda>c. has_prefix c ''task.'') capabilities"

definition has_trigger :: "string list \<Rightarrow> bool" where
  "has_trigger capabilities \<longleftrightarrow> list_ex (\<lambda>c. has_prefix c ''trigger.'' \<and> c \<noteq> ActivationFenceCapability) capabilities"

definition has_agent :: "string list \<Rightarrow> bool" where
  "has_agent capabilities \<longleftrightarrow> list_ex (\<lambda>c. has_prefix c ''agent.'') capabilities"

definition ValidateDescription :: "sdk_lib \<Rightarrow> description \<Rightarrow> (string, json contract \<times> string) result" where
  "ValidateDescription sl d =
     (case ds_protocol d of None \<Rightarrow> Inl ''plugin description has an invalid protocol range''
      | Some (minimum, maximum) \<Rightarrow>
          if minimum = 0 \<or> maximum < minimum then Inl ''plugin description has an invalid protocol range''
          else bind_res (validateMetadata sl (described_metadata d) (has_task (ds_capabilities d)) (has_trigger (ds_capabilities d))
              (has_agent (ds_capabilities d))) (\<lambda>(v, _).
            let c = \<lparr>con_actions = md_actions v, con_triggers = md_triggers v\<rparr> in Inr (c, sl_sha256 sl (contract_text c))))"

section \<open>The stored contract\<close>

definition action_json :: "json action_descriptor \<Rightarrow> json" where
  "action_json d = JObj [(''action'', JStr (acd_action d)), (''configSchema'', acd_config d), (''inputSchema'', acd_input d), (''outputSchema'', acd_output d)]"

definition trigger_json :: "json trigger_descriptor \<Rightarrow> json" where
  "trigger_json d = JObj [(''source'', JStr (trd_source d)), (''configSchema'', trd_config d), (''eventSchema'', trd_event d)]"

definition contract_json :: "json contract \<Rightarrow> json" where
  "contract_json c = JObj ((''actions'', if con_actions c = [] then JNull else JArr (map action_json (con_actions c)))
     # (if con_triggers c = [] then [] else [(''triggers'', JArr (map trigger_json (con_triggers c)))]))"

text \<open>\<open>json.Unmarshal\<close> into a struct: an absent or null field keeps its zero value, another type is an error.\<close>

definition text_field :: "string \<Rightarrow> (string \<times> json) list \<Rightarrow> string option" where
  "text_field k kvs = (case map_of kvs k of None \<Rightarrow> Some [] | Some JNull \<Rightarrow> Some [] | Some (JStr s) \<Rightarrow> Some s | _ \<Rightarrow> None)"

definition arr_field :: "string \<Rightarrow> (string \<times> json) list \<Rightarrow> json list option" where
  "arr_field k kvs = (case map_of kvs k of None \<Rightarrow> Some [] | Some JNull \<Rightarrow> Some [] | Some (JArr xs) \<Rightarrow> Some xs | _ \<Rightarrow> None)"

fun all_some :: "'a option list \<Rightarrow> 'a list option" where
  "all_some [] = Some []"
| "all_some (None # xs) = None"
| "all_some (Some x # xs) = map_option (Cons x) (all_some xs)"

lemma all_some_Some [simp]: "all_some (map Some xs) = Some xs"
  by (induction xs) auto

definition known_fields :: "string list \<Rightarrow> (string \<times> json) list \<Rightarrow> bool" where
  "known_fields ks kvs \<longleftrightarrow> fst ` set kvs \<subseteq> set ks"

definition decode_action :: "json \<Rightarrow> json option action_descriptor option" where
  "decode_action v = (case (case v of JNull \<Rightarrow> Some [] | JObj kvs \<Rightarrow> Some kvs | _ \<Rightarrow> None) of None \<Rightarrow> None
     | Some kvs \<Rightarrow> if \<not> known_fields [''action'', ''configSchema'', ''inputSchema'', ''outputSchema''] kvs then None
         else map_option (\<lambda>a. \<lparr>acd_action = a, acd_config = map_of kvs ''configSchema'', acd_input = map_of kvs ''inputSchema'',
           acd_output = map_of kvs ''outputSchema''\<rparr>) (text_field ''action'' kvs))"

definition decode_trigger :: "json \<Rightarrow> json option trigger_descriptor option" where
  "decode_trigger v = (case (case v of JNull \<Rightarrow> Some [] | JObj kvs \<Rightarrow> Some kvs | _ \<Rightarrow> None) of None \<Rightarrow> None
     | Some kvs \<Rightarrow> if \<not> known_fields [''source'', ''configSchema'', ''eventSchema''] kvs then None
         else map_option (\<lambda>a. \<lparr>trd_source = a, trd_config = map_of kvs ''configSchema'', trd_event = map_of kvs ''eventSchema''\<rparr>)
           (text_field ''source'' kvs))"

definition DecodeContract :: "json option \<Rightarrow> (string, json option contract) result" where
  "DecodeContract raw = or_fail ''decode plugin contract''
     (case raw of None \<Rightarrow> None
      | Some v \<Rightarrow> (case (case v of JNull \<Rightarrow> Some [] | JObj kvs \<Rightarrow> Some kvs | _ \<Rightarrow> None) of None \<Rightarrow> None
        | Some kvs \<Rightarrow> if \<not> known_fields [''actions'', ''triggers''] kvs then None
            else (case (Option.bind (arr_field ''actions'' kvs) (\<lambda>xs. all_some (map decode_action xs)),
                Option.bind (arr_field ''triggers'' kvs) (\<lambda>xs. all_some (map decode_trigger xs))) of
              (Some as, Some ts) \<Rightarrow> Some \<lparr>con_actions = as, con_triggers = ts\<rparr> | _ \<Rightarrow> None)))"

section \<open>What an accepted contract covers\<close>

lemma trim_space_Nil: "trim_space s = [] \<Longrightarrow> \<forall>c \<in> set s. is_space c"
proof -
  assume "trim_space s = []"
  then have a: "\<forall>x \<in> set (dropWhile is_space s). is_space x" by (simp add: trim_space_def)
  have "dropWhile is_space s = []" using hd_dropWhile[of is_space s] a by (cases "dropWhile is_space s") auto
  then show ?thesis by simp
qed

lemma blank_is_no_json: "trim_space s = [] \<Longrightarrow> json_parse s = None"
proof -
  assume "trim_space s = []"
  then have s: "\<forall>c \<in> set s. is_space c" by (rule trim_space_Nil)
  show ?thesis
  proof (cases "skip_ws s")
    case (Cons c cs)
    have "c \<in> set s" using Cons set_dropWhileD[of c json_space s] by (simp add: skip_ws_def)
    then have "is_space c" using s by blast
    moreover have "dropWhile json_space s \<noteq> []" using Cons by (simp add: skip_ws_def)
    from hd_dropWhile[OF this] have "\<not> json_space c" using Cons by (simp add: skip_ws_def)
    ultimately have "c = CHR 0x0B \<or> c = CHR 0x0C" by (auto simp: is_space_def json_space_def)
    then have "parse_number (c # cs) = None" "c \<notin> {CHR 0x22, CHR ''['', CHR ''{'', CHR ''n'', CHR ''t'', CHR ''f''}"
      by (auto simp: parse_number_def is_digit_def Let_def)
    then show ?thesis using Cons by (simp add: json_parse_def parse_value.simps(2))
  qed (simp add: json_parse_def parse_value.simps(2))
qed

lemma compileSchema_iff:
  "compileSchema sl raw req = Inr v \<longleftrightarrow> json_decode raw = Some v \<and> rejectExternalReferences v = Inr () \<and> (req \<longrightarrow> declaresObject v) \<and> sl_compile sl v"
  using blank_is_no_json[of raw]
  by (auto simp: compileSchema_def json_decode_def json_parse_def Let_def fail_if_def split: option.splits prod.splits if_splits)

definition right :: "('e, 'a) result \<Rightarrow> 'a" where
  "right r = (case r of Inr x \<Rightarrow> x)"

lemma right_Inr [simp]: "right (Inr x) = x"
  by (simp add: right_def)

lemma check_actions_iff:
  "check_actions sl name declared ag seen ds = Inr cs \<longleftrightarrow>
     distinct (map acd_action ds) \<and> (\<forall>d \<in> set ds. acd_action d \<notin> set seen) \<and>
     (\<forall>d \<in> set ds. capabilityName (acd_action d) \<and> has_prefix (acd_action d) (name @ ''.'') \<and>
        (acd_action d \<in> set declared \<or> ag \<and> acd_action d = name @ ''.run'') \<and> is_ok (compile_action sl d)) \<and>
     cs = map (\<lambda>d. right (compile_action sl d)) ds"
proof (induction ds arbitrary: seen cs)
  case (Cons d ds)
  show ?case
  proof (cases "compile_action sl d")
    case (Inr c)
    show ?thesis using Cons.IH[of "acd_action d # seen"] Inr by (auto simp: image_iff)
  qed simp
qed auto

lemma check_triggers_iff:
  "check_triggers sl name declared seen ds = Inr cs \<longleftrightarrow>
     distinct (map trd_source ds) \<and> (\<forall>d \<in> set ds. trd_source d \<notin> set seen) \<and>
     (\<forall>d \<in> set ds. capabilityName (trd_source d) \<and> has_prefix (trd_source d) (name @ ''.'') \<and> trd_source d \<in> set declared \<and> is_ok (compile_trigger sl d)) \<and>
     cs = map (\<lambda>d. right (compile_trigger sl d)) ds"
proof (induction ds arbitrary: seen cs)
  case (Cons d ds)
  show ?case
  proof (cases "compile_trigger sl d")
    case (Inr c)
    show ?thesis using Cons.IH[of "trd_source d # seen"] Inr by (auto simp: image_iff)
  qed simp
qed auto

definition capability_ok :: "string \<Rightarrow> string \<Rightarrow> bool" where
  "capability_ok name c \<longleftrightarrow> capabilityName c \<and> hd (split_on (CHR ''.'') c) \<in> {''task'', ''trigger'', ''agent''} \<and>
     (has_prefix c ''task.'' \<longrightarrow> has_prefix c (''task.'' @ name @ ''.''))"

lemma check_capabilities_iff:
  "check_capabilities name seen cs = Inr as \<longleftrightarrow> distinct cs \<and> (\<forall>c \<in> set cs. c \<notin> set seen \<and> capability_ok name c) \<and>
     as = map (drop 5) (filter (\<lambda>c. has_prefix c ''task.'') cs)"
proof (induction cs arbitrary: seen as)
  case (Cons c cs)
  show ?case using Cons.IH[of "c # seen"] by (auto simp: capability_ok_def Let_def)
qed auto

definition task_actions :: "string list \<Rightarrow> string list" where
  "task_actions capabilities = map (drop 5) (filter (\<lambda>c. has_prefix c ''task.'') capabilities)"

definition metadata_actions :: "sdk_lib \<Rightarrow> string metadata \<Rightarrow> json action_descriptor list" where
  "metadata_actions sl m = sort_key acd_action (map (\<lambda>d. right (compile_action sl d)) (md_actions m))"

definition metadata_triggers :: "sdk_lib \<Rightarrow> string metadata \<Rightarrow> json trigger_descriptor list" where
  "metadata_triggers sl m = sort_key trd_source (map (\<lambda>d. right (compile_trigger sl d)) (md_triggers m))"

text \<open>The conditions under which metadata are accepted, without the order in which they are checked.\<close>

definition metadata_ok :: "sdk_lib \<Rightarrow> string metadata \<Rightarrow> bool \<Rightarrow> bool \<Rightarrow> bool \<Rightarrow> bool" where
  "metadata_ok sl m hasTask hasTrigger hasAgent \<longleftrightarrow>
     pluginName (md_name m) \<and> sl_semver sl (md_version m) \<and> md_capabilities m \<noteq> [] \<and>
     distinct (md_capabilities m) \<and> (\<forall>c \<in> set (md_capabilities m). capability_ok (md_name m) c) \<and>
     (hasTask \<longrightarrow> task_actions (md_capabilities m) \<noteq> []) \<and>
     (\<forall>s \<in> {md_inputSchema m, md_outputSchema m}. s \<noteq> [] \<longrightarrow> json_parse s \<noteq> None) \<and>
     distinct (map acd_action (md_actions m)) \<and> distinct (map trd_source (md_triggers m)) \<and>
     (\<forall>d \<in> set (md_actions m). capabilityName (acd_action d) \<and> has_prefix (acd_action d) (md_name m @ ''.'') \<and>
        (acd_action d \<in> set (task_actions (md_capabilities m)) \<or> hasAgent \<and> acd_action d = md_name m @ ''.run'') \<and> is_ok (compile_action sl d)) \<and>
     set (task_actions (md_capabilities m)) \<subseteq> acd_action ` set (md_actions m) \<and>
     (hasAgent \<longrightarrow> md_name m @ ''.run'' \<in> acd_action ` set (md_actions m)) \<and>
     (\<forall>d \<in> set (md_triggers m). capabilityName (trd_source d) \<and> has_prefix (trd_source d) (md_name m @ ''.'') \<and>
        trd_source d \<in> set (declared_triggers (md_capabilities m)) \<and> is_ok (compile_trigger sl d)) \<and>
     (hasTrigger \<longrightarrow> set (declared_triggers (md_capabilities m)) \<subseteq> trd_source ` set (md_triggers m))"

lemma compile_action_name: "is_ok (compile_action sl d) \<Longrightarrow> acd_action (right (compile_action sl d)) = acd_action d"
  by (cases "compile_action sl d") (auto simp: compile_action_def)

lemma compile_trigger_name: "is_ok (compile_trigger sl d) \<Longrightarrow> trd_source (right (compile_trigger sl d)) = trd_source d"
  by (cases "compile_trigger sl d") (auto simp: compile_trigger_def)

lemma validateActionDescriptors_iff:
  "validateActionDescriptors sl m declared ag = Inr as \<longleftrightarrow>
     distinct (map acd_action (md_actions m)) \<and>
     (\<forall>d \<in> set (md_actions m). capabilityName (acd_action d) \<and> has_prefix (acd_action d) (md_name m @ ''.'') \<and>
        (acd_action d \<in> set declared \<or> ag \<and> acd_action d = md_name m @ ''.run'') \<and> is_ok (compile_action sl d)) \<and>
     set declared \<subseteq> acd_action ` set (md_actions m) \<and> (ag \<longrightarrow> md_name m @ ''.run'' \<in> acd_action ` set (md_actions m)) \<and>
     as = metadata_actions sl m"
  (is "_ \<longleftrightarrow> ?D \<and> ?A \<and> ?S \<and> ?G \<and> _")
proof (cases "?D \<and> ?A")
  case True
  then have c: "check_actions sl (md_name m) declared ag [] (md_actions m) = Inr (map (\<lambda>d. right (compile_action sl d)) (md_actions m))"
    using check_actions_iff[of sl "md_name m" declared ag "[]" "md_actions m"] by simp
  have names: "acd_action ` set (map (\<lambda>d. right (compile_action sl d)) (md_actions m)) = acd_action ` set (md_actions m)"
    using True compile_action_name[of sl] by (auto simp: image_iff)
  show ?thesis using True unfolding validateActionDescriptors_def c bind_res_simps names
    by (auto simp: fail_if_def metadata_actions_def)
next
  case False
  then have "check_actions sl (md_name m) declared ag [] (md_actions m) \<noteq> Inr ds" for ds
    using check_actions_iff[of sl "md_name m" declared ag "[]" "md_actions m"] by auto
  then show ?thesis using False by (auto simp: validateActionDescriptors_def)
qed

lemma validateTriggerDescriptors_iff:
  "validateTriggerDescriptors sl m hasTrigger = Inr ts \<longleftrightarrow>
     distinct (map trd_source (md_triggers m)) \<and>
     (\<forall>d \<in> set (md_triggers m). capabilityName (trd_source d) \<and> has_prefix (trd_source d) (md_name m @ ''.'') \<and>
        trd_source d \<in> set (declared_triggers (md_capabilities m)) \<and> is_ok (compile_trigger sl d)) \<and>
     (hasTrigger \<longrightarrow> set (declared_triggers (md_capabilities m)) \<subseteq> trd_source ` set (md_triggers m)) \<and> ts = metadata_triggers sl m"
  (is "_ \<longleftrightarrow> ?D \<and> ?A \<and> ?S \<and> _")
proof (cases "?D \<and> ?A")
  case True
  then have c: "check_triggers sl (md_name m) (declared_triggers (md_capabilities m)) [] (md_triggers m) = Inr (map (\<lambda>d. right (compile_trigger sl d)) (md_triggers m))"
    using check_triggers_iff[of sl "md_name m" "declared_triggers (md_capabilities m)" "[]" "md_triggers m"] by simp
  have names: "trd_source ` set (map (\<lambda>d. right (compile_trigger sl d)) (md_triggers m)) = trd_source ` set (md_triggers m)"
    using True compile_trigger_name[of sl] by (auto simp: image_iff)
  show ?thesis using True unfolding validateTriggerDescriptors_def c bind_res_simps names
    by (auto simp: fail_if_def metadata_triggers_def)
next
  case False
  then have "check_triggers sl (md_name m) (declared_triggers (md_capabilities m)) [] (md_triggers m) \<noteq> Inr ds" for ds
    using check_triggers_iff[of sl "md_name m" "declared_triggers (md_capabilities m)" "[]" "md_triggers m"] by auto
  then show ?thesis using False by (auto simp: validateTriggerDescriptors_def)
qed

definition validated_metadata :: "sdk_lib \<Rightarrow> string metadata \<Rightarrow> json metadata" where
  "validated_metadata sl m = \<lparr>md_name = md_name m, md_version = md_version m, md_capabilities = sort (md_capabilities m), md_actions = metadata_actions sl m,
     md_triggers = metadata_triggers sl m, md_inputSchema = md_inputSchema m, md_outputSchema = md_outputSchema m\<rparr>"

lemma validateMetadata_iff:
  "validateMetadata sl m t tr ag = Inr r \<longleftrightarrow> metadata_ok sl m t tr ag \<and> r = (validated_metadata sl m, task_actions (md_capabilities m))"
  by (auto simp: validateMetadata_def metadata_ok_def validated_metadata_def check_capabilities_iff validateActionDescriptors_iff
    validateTriggerDescriptors_iff fail_if_def task_actions_def[symmetric] split: if_splits)

definition described_contract :: "sdk_lib \<Rightarrow> description \<Rightarrow> json contract" where
  "described_contract sl d = \<lparr>con_actions = metadata_actions sl (described_metadata d), con_triggers = metadata_triggers sl (described_metadata d)\<rparr>"

lemma ValidateDescription_iff:
  "ValidateDescription sl d = Inr (c, dg) \<longleftrightarrow>
     (\<exists>lo hi. ds_protocol d = Some (lo, hi) \<and> lo \<noteq> 0 \<and> lo \<le> hi) \<and>
     metadata_ok sl (described_metadata d) (has_task (ds_capabilities d)) (has_trigger (ds_capabilities d)) (has_agent (ds_capabilities d)) \<and>
     c = described_contract sl d \<and> dg = sl_sha256 sl (contract_text c)"
  by (auto simp: ValidateDescription_def validateMetadata_iff validated_metadata_def described_contract_def Let_def split: option.splits if_splits)

definition schema_ok :: "sdk_lib \<Rightarrow> json \<Rightarrow> bool" where
  "schema_ok sl v \<longleftrightarrow> rejectExternalReferences v = Inr () \<and> sl_compile sl v \<and> json_plain v \<and> json_sorted v = v"

lemma compiled_action_ok:
  assumes "compile_action sl d = Inr c"
  shows "schema_ok sl (acd_config c) \<and> schema_ok sl (acd_input c) \<and> schema_ok sl (acd_output c) \<and> declaresObject (acd_config c)"
  using assms json_decode_plain by (auto simp: compile_action_def compileSchema_iff schema_ok_def)

lemma compiled_trigger_ok:
  assumes "compile_trigger sl d = Inr c"
  shows "schema_ok sl (trd_config c) \<and> schema_ok sl (trd_event c) \<and> declaresObject (trd_config c)"
  using assms json_decode_plain by (auto simp: compile_trigger_def compileSchema_iff schema_ok_def)

lemma is_okE: "is_ok r \<Longrightarrow> \<exists>x. r = Inr x" by (cases r) auto

lemma prefix_drop: "has_prefix c p \<longleftrightarrow> (\<exists>t. c = p @ t)"
proof
  assume "has_prefix c p"
  then have "c = p @ drop (length p) c" unfolding has_prefix_def by (metis append_take_drop_id)
  then show "\<exists>t. c = p @ t" by blast
qed (auto simp: has_prefix_def)

lemma task_actions_set: "set (task_actions caps) = {a. ''task.'' @ a \<in> set caps}"
  by (force simp: task_actions_def prefix_drop)

lemma declared_triggers_set: "set (declared_triggers caps) = {a. ''trigger.'' @ a \<in> set caps \<and> ''trigger.'' @ a \<noteq> ActivationFenceCapability}"
  by (force simp: declared_triggers_def prefix_drop)

lemma has_trigger_iff: "has_trigger caps \<longleftrightarrow> set (declared_triggers caps) \<noteq> {}"
  by (auto simp: has_trigger_def declared_triggers_def list_ex_iff filter_empty_conv)

lemma sorted_names:
  assumes "distinct (map g ds)" "map f cs = map g ds"
  shows "map f (sort_key f cs) = sorted_list_of_set (g ` set ds)"
proof -
  have "map f (sort_key f cs) = sort (map f cs)" using sort_key_map[of "\<lambda>x. x" f cs] by simp
  then show ?thesis using assms sorted_list_of_set_sort_remdups[of "map g ds"] by (simp add: distinct_remdups_id)
qed


text \<open>Two descriptors that name the same action with texts of the same schemas.\<close>

definition action_meaning :: "string action_descriptor \<Rightarrow> json option action_descriptor" where
  "action_meaning d = \<lparr>acd_action = acd_action d, acd_config = json_decode (acd_config d), acd_input = json_decode (acd_input d), acd_output = json_decode (acd_output d)\<rparr>"

definition trigger_meaning :: "string trigger_descriptor \<Rightarrow> json option trigger_descriptor" where
  "trigger_meaning d = \<lparr>trd_source = trd_source d, trd_config = json_decode (trd_config d), trd_event = json_decode (trd_event d)\<rparr>"

lemma compileSchema_ok: "is_ok (compileSchema sl raw req) \<longleftrightarrow>
    (\<exists>v. json_decode raw = Some v \<and> rejectExternalReferences v = Inr () \<and> (req \<longrightarrow> declaresObject v) \<and> sl_compile sl v)"
  using compileSchema_iff[of sl raw req] by (cases "compileSchema sl raw req") auto

text \<open>What the meaning of a descriptor determines.\<close>

lemma compile_action_meaning:
  assumes "action_meaning d = action_meaning e" "is_ok (compile_action sl d)"
  shows "compile_action sl e = compile_action sl d"
proof -
  obtain c where c: "compile_action sl d = Inr c" using is_okE[OF assms(2)] by blast
  then have "compile_action sl e = Inr c" using assms(1) by (auto simp: action_meaning_def compile_action_def compileSchema_iff)
  then show ?thesis using c by simp
qed

lemma compile_trigger_meaning:
  assumes "trigger_meaning d = trigger_meaning e" "is_ok (compile_trigger sl d)"
  shows "compile_trigger sl e = compile_trigger sl d"
proof -
  obtain c where c: "compile_trigger sl d = Inr c" using is_okE[OF assms(2)] by blast
  then have "compile_trigger sl e = Inr c" using assms(1) by (auto simp: trigger_meaning_def compile_trigger_def compileSchema_iff)
  then show ?thesis using c by simp
qed

lemma mset_same_meaning:
  assumes "image_mset m (mset xs) = image_mset m (mset ys)" "\<And>x y. x \<in> set xs \<Longrightarrow> m x = m y \<Longrightarrow> f y = f x"
  shows "mset (map f xs) = mset (map f ys)"
proof -
  let ?h = "\<lambda>k. f (SOME x. x \<in> set xs \<and> m x = k)"
  have h: "f z = ?h (m z)" if "m z \<in> m ` set xs" for z
  proof -
    have "\<exists>x. x \<in> set xs \<and> m x = m z" using that by fastforce
    from someI_ex[OF this] assms(2)[of "SOME x. x \<in> set xs \<and> m x = m z" z] show ?thesis by simp
  qed
  have "set (map m ys) = set (map m xs)" using assms(1) by (metis mset_map set_mset_mset)
  then have y: "m z \<in> m ` set xs" if "z \<in> set ys" for z using that by (metis image_eqI image_set)
  have "image_mset f (mset xs) = image_mset ?h (image_mset m (mset xs))" using h by (auto simp: multiset.map_comp intro!: image_mset_cong)
  also have "\<dots> = image_mset ?h (image_mset m (mset ys))" using assms(1) by simp
  also have "\<dots> = image_mset f (mset ys)" using h y by (auto simp: multiset.map_comp intro!: image_mset_cong)
  finally show ?thesis by simp
qed

text \<open>C26: the contract and its digest depend only on what a description says: reordering its capabilities and descriptors and rewriting its schemas as other
  texts of the same values changes neither.\<close>

theorem contract_is_canonical:
  assumes ok: "ValidateDescription sl d = Inr r"
    and same: "ds_name e = ds_name d" "ds_version e = ds_version d" "ds_protocol e = ds_protocol d" "mset (ds_capabilities e) = mset (ds_capabilities d)"
      "image_mset action_meaning (mset (ds_actions d)) = image_mset action_meaning (mset (ds_actions e))"
      "image_mset trigger_meaning (mset (ds_triggers d)) = image_mset trigger_meaning (mset (ds_triggers e))"
  shows "ValidateDescription sl e = Inr r"
proof -
  obtain c dg where r: "r = (c, dg)" by fastforce
  let ?m = "described_metadata d" and ?n = "described_metadata e"
  have f: "md_name ?n = md_name ?m" "md_version ?n = md_version ?m" "md_actions ?m = ds_actions d" "md_actions ?n = ds_actions e"
    "md_triggers ?m = ds_triggers d" "md_triggers ?n = ds_triggers e" "md_capabilities ?m = ds_capabilities d" "md_capabilities ?n = ds_capabilities e"
    "md_inputSchema ?n = []" "md_outputSchema ?n = []" using same by (simp_all add: described_metadata_def)
  have caps: "set (ds_capabilities e) = set (ds_capabilities d)" "distinct (ds_capabilities e) = distinct (ds_capabilities d)"
    "ds_capabilities e = [] \<longleftrightarrow> ds_capabilities d = []"
    using mset_eq_setD[OF same(4)] mset_eq_imp_distinct_iff[OF same(4)] same(4) by auto
  have flags: "has_task (ds_capabilities e) = has_task (ds_capabilities d)" "has_trigger (ds_capabilities e) = has_trigger (ds_capabilities d)"
    "has_agent (ds_capabilities e) = has_agent (ds_capabilities d)" using caps(1) by (simp_all add: has_task_def has_trigger_def has_agent_def list_ex_iff)
  have sets: "set (task_actions (ds_capabilities e)) = set (task_actions (ds_capabilities d))"
    "set (declared_triggers (ds_capabilities e)) = set (declared_triggers (ds_capabilities d))"
    using caps(1) by (simp_all add: task_actions_set declared_triggers_set)
  then have ne: "task_actions (ds_capabilities e) = [] \<longleftrightarrow> task_actions (ds_capabilities d) = []" by (metis set_empty)
  have d: "metadata_ok sl ?m (has_task (ds_capabilities d)) (has_trigger (ds_capabilities d)) (has_agent (ds_capabilities d))"
    "c = described_contract sl d" "dg = sl_sha256 sl (contract_text c)" using ok unfolding r ValidateDescription_iff by auto
  note ma = d(1)[unfolded metadata_ok_def f]
  have ca: "compile_action sl y = compile_action sl x" if "x \<in> set (ds_actions d)" "action_meaning x = action_meaning y" for x y
    by (rule compile_action_meaning) (use ma that in auto)
  have ct: "compile_trigger sl y = compile_trigger sl x" if "x \<in> set (ds_triggers d)" "trigger_meaning x = trigger_meaning y" for x y
    by (rule compile_trigger_meaning) (use ma that in auto)
  have na: "mset (map acd_action (ds_actions d)) = mset (map acd_action (ds_actions e))"
    by (rule mset_same_meaning[OF same(5)]) (simp add: action_meaning_def)
  have nt: "mset (map trd_source (ds_triggers d)) = mset (map trd_source (ds_triggers e))"
    by (rule mset_same_meaning[OF same(6)]) (simp add: trigger_meaning_def)
  have ra: "mset (map (\<lambda>x. right (compile_action sl x)) (ds_actions d)) = mset (map (\<lambda>x. right (compile_action sl x)) (ds_actions e))"
    by (rule mset_same_meaning[OF same(5)], rule arg_cong[where f = right], rule ca)
  have rt: "mset (map (\<lambda>x. right (compile_trigger sl x)) (ds_triggers d)) = mset (map (\<lambda>x. right (compile_trigger sl x)) (ds_triggers e))"
    by (rule mset_same_meaning[OF same(6)], rule arg_cong[where f = right], rule ct)
  have sa: "action_meaning ` set (ds_actions d) = action_meaning ` set (ds_actions e)" using arg_cong[OF same(5), of set_mset] by simp
  have st: "trigger_meaning ` set (ds_triggers d) = trigger_meaning ` set (ds_triggers e)" using arg_cong[OF same(6), of set_mset] by simp
  have ya: "\<exists>x \<in> set (ds_actions d). acd_action y = acd_action x \<and> compile_action sl y = compile_action sl x" if "y \<in> set (ds_actions e)" for y
  proof -
    have "action_meaning y \<in> action_meaning ` set (ds_actions d)" using sa that by simp
    then obtain x where x: "x \<in> set (ds_actions d)" "action_meaning x = action_meaning y" by (metis imageE)
    moreover have "acd_action y = acd_action x" using x(2) by (simp add: action_meaning_def)
    ultimately show ?thesis using ca[OF x] by blast
  qed
  have yt: "\<exists>x \<in> set (ds_triggers d). trd_source y = trd_source x \<and> compile_trigger sl y = compile_trigger sl x" if "y \<in> set (ds_triggers e)" for y
  proof -
    have "trigger_meaning y \<in> trigger_meaning ` set (ds_triggers d)" using st that by simp
    then obtain x where x: "x \<in> set (ds_triggers d)" "trigger_meaning x = trigger_meaning y" by (metis imageE)
    moreover have "trd_source y = trd_source x" using x(2) by (simp add: trigger_meaning_def)
    ultimately show ?thesis using ct[OF x] by blast
  qed
  have ia: "acd_action ` set (ds_actions e) = acd_action ` set (ds_actions d)" "trd_source ` set (ds_triggers e) = trd_source ` set (ds_triggers d)"
    using mset_eq_setD[OF na] mset_eq_setD[OF nt] by simp_all
  have A: "\<forall>y \<in> set (ds_actions e). capabilityName (acd_action y) \<and> has_prefix (acd_action y) (md_name ?m @ ''.'') \<and>
      (acd_action y \<in> set (task_actions (ds_capabilities d)) \<or> has_agent (ds_capabilities d) \<and> acd_action y = md_name ?m @ ''.run'') \<and> is_ok (compile_action sl y)"
  proof
    fix y assume "y \<in> set (ds_actions e)"
    from ya[OF this] obtain x where "x \<in> set (ds_actions d)" "acd_action y = acd_action x" "compile_action sl y = compile_action sl x" by blast
    then show "capabilityName (acd_action y) \<and> has_prefix (acd_action y) (md_name ?m @ ''.'') \<and>
      (acd_action y \<in> set (task_actions (ds_capabilities d)) \<or> has_agent (ds_capabilities d) \<and> acd_action y = md_name ?m @ ''.run'') \<and> is_ok (compile_action sl y)"
      using ma by simp
  qed
  have T: "\<forall>y \<in> set (ds_triggers e). capabilityName (trd_source y) \<and> has_prefix (trd_source y) (md_name ?m @ ''.'') \<and>
      trd_source y \<in> set (declared_triggers (ds_capabilities d)) \<and> is_ok (compile_trigger sl y)"
  proof
    fix y assume "y \<in> set (ds_triggers e)"
    from yt[OF this] obtain x where "x \<in> set (ds_triggers d)" "trd_source y = trd_source x" "compile_trigger sl y = compile_trigger sl x" by blast
    then show "capabilityName (trd_source y) \<and> has_prefix (trd_source y) (md_name ?m @ ''.'') \<and>
      trd_source y \<in> set (declared_triggers (ds_capabilities d)) \<and> is_ok (compile_trigger sl y)" using ma by simp
  qed
  have D: "distinct (map acd_action (ds_actions e))" "distinct (map trd_source (ds_triggers e))"
    using ma mset_eq_imp_distinct_iff[OF na] mset_eq_imp_distinct_iff[OF nt] by simp_all
  have "metadata_ok sl ?n (has_task (ds_capabilities e)) (has_trigger (ds_capabilities e)) (has_agent (ds_capabilities e))"
    unfolding metadata_ok_def f flags caps sets ia ne using ma A T D by simp
  moreover have "described_contract sl e = described_contract sl d"
  proof -
    have "map acd_action (map (\<lambda>x. right (compile_action sl x)) (ds_actions d)) = map acd_action (ds_actions d)"
      using ma compile_action_name by simp
    then have "inj_on acd_action (set (map (\<lambda>x. right (compile_action sl x)) (ds_actions d)))" using ma by (metis distinct_map)
    then have a: "metadata_actions sl ?m = metadata_actions sl ?n" unfolding metadata_actions_def f by (rule sort_key_cong_mset[OF ra])
    have "map trd_source (map (\<lambda>x. right (compile_trigger sl x)) (ds_triggers d)) = map trd_source (ds_triggers d)"
      using ma compile_trigger_name by simp
    then have "inj_on trd_source (set (map (\<lambda>x. right (compile_trigger sl x)) (ds_triggers d)))" using ma by (metis distinct_map)
    then have "metadata_triggers sl ?m = metadata_triggers sl ?n" unfolding metadata_triggers_def f by (rule sort_key_cong_mset[OF rt])
    then show ?thesis using a by (simp add: described_contract_def)
  qed
  ultimately show ?thesis using ok same(3) unfolding r ValidateDescription_iff by auto
qed

text \<open>A contract read back from the database is the one that was validated.\<close>

theorem stored_contract_roundtrip:
  "DecodeContract (Some (contract_json c)) = Inr \<lparr>
     con_actions = map (\<lambda>d. \<lparr>acd_action = acd_action d, acd_config = Some (acd_config d), acd_input = Some (acd_input d), acd_output = Some (acd_output d)\<rparr>) (con_actions c),
     con_triggers = map (\<lambda>d. \<lparr>trd_source = trd_source d, trd_config = Some (trd_config d), trd_event = Some (trd_event d)\<rparr>) (con_triggers c)\<rparr>"
proof -
  have a: "decode_action (action_json d) = Some \<lparr>acd_action = acd_action d, acd_config = Some (acd_config d), acd_input = Some (acd_input d), acd_output = Some (acd_output d)\<rparr>" for d
    by (simp add: decode_action_def action_json_def known_fields_def text_field_def)
  have t: "decode_trigger (trigger_json d) = Some \<lparr>trd_source = trd_source d, trd_config = Some (trd_config d), trd_event = Some (trd_event d)\<rparr>" for d
    by (simp add: decode_trigger_def trigger_json_def known_fields_def text_field_def)
  have "all_some (map decode_action (map action_json xs)) = Some (map (\<lambda>d. \<lparr>acd_action = acd_action d, acd_config = Some (acd_config d), acd_input = Some (acd_input d), acd_output = Some (acd_output d)\<rparr>) xs)" for xs
    by (induction xs) (simp_all add: a)
  moreover have "all_some (map decode_trigger (map trigger_json xs)) = Some (map (\<lambda>d. \<lparr>trd_source = trd_source d, trd_config = Some (trd_config d), trd_event = Some (trd_event d)\<rparr>) xs)" for xs
    by (induction xs) (simp_all add: t)
  ultimately show ?thesis by (simp add: DecodeContract_def contract_json_def known_fields_def arr_field_def del: map_map)
qed

section \<open>A sample description\<close>

definition sample_sdk :: sdk_lib where
  "sample_sdk = \<lparr>sl_semver = (\<lambda>_. True), sl_compile = (\<lambda>_. True), sl_sha256 = (\<lambda>s. s)\<rparr>"

definition sample_clone :: "string action_descriptor" where
  "sample_clone = \<lparr>acd_action = ''git.clone'', acd_config = ''{\"type\":\"object\"}'', acd_input = ''{}'', acd_output = ''true''\<rparr>"

definition sample_fetch :: "string action_descriptor" where
  "sample_fetch = \<lparr>acd_action = ''git.fetch'', acd_config = ''{\"type\":\"object\"}'', acd_input = ''{}'', acd_output = ''true''\<rparr>"

definition sample_described :: description where
  "sample_described = \<lparr>ds_name = ''git'', ds_version = ''1.0.0'', ds_capabilities = [''task.git.clone'', ''task.git.fetch''], ds_protocol = Some (1, 1),
     ds_actions = [sample_clone, sample_fetch], ds_triggers = []\<rparr>"

definition sample_reordered :: description where
  "sample_reordered = sample_described\<lparr>ds_capabilities := [''task.git.fetch'', ''task.git.clone''],
     ds_actions := [sample_fetch\<lparr>acd_output := '' true ''\<rparr>, sample_clone\<lparr>acd_config := ''{ \"type\": \"object\" }''\<rparr>]\<rparr>"


theorem contract_is_canonical_witness:
  "\<exists>r. ValidateDescription sample_sdk sample_described = Inr r \<and> ValidateDescription sample_sdk sample_reordered = Inr r"
proof -
  have "is_ok (ValidateDescription sample_sdk sample_described)" by code_simp
  then obtain r where v: "ValidateDescription sample_sdk sample_described = Inr r" using is_okE by blast
  have m: "action_meaning (sample_fetch\<lparr>acd_output := '' true ''\<rparr>) = action_meaning sample_fetch"
    "action_meaning (sample_clone\<lparr>acd_config := ''{ \"type\": \"object\" }''\<rparr>) = action_meaning sample_clone"
    by code_simp+
  have "ValidateDescription sample_sdk sample_reordered = Inr r"
    by (rule contract_is_canonical[OF v]) (simp_all add: sample_reordered_def sample_described_def m)
  then show ?thesis using v by blast
qed

end
