(* ===== verification/Plugin_Runtime.thy ===== *)
theory Plugin_Runtime
  imports Plugin_Contract Store_System Health
begin

text \<open>
  The process half of \<open>internal/pluginmanager/manager.go\<close>: installing, launching, activating and probing plugins, and the
  limits on concurrent calls.

  The manager's state is the database, the map from \<open>name@version\<close> to the running process, the processes that were started and
  not closed, and a clock that numbers what is asked of the outside. The host is the record \<open>plugin_host\<close>: what starting a binary
  answers, whether a process has exited, what its health call answers, and the time of each database call. A cancelled context is
  not modelled.
\<close>

section \<open>Manifests as JSON\<close>

definition marshal_platform :: "platform \<Rightarrow> json" where
  "marshal_platform p = JObj [(''os'', JStr (pf_os p)), (''arch'', JStr (pf_arch p)), (''path'', JStr (pf_path p)), (''sha256'', JStr (pf_sha256 p))]"

definition marshal_manifest :: "manifest \<Rightarrow> json" where
  "marshal_manifest m = JObj [(''apiVersion'', JStr (mf_apiVersion m)), (''name'', JStr (mf_name m)), (''version'', JStr (mf_version m)),
     (''protocol'', JObj [(''minimum'', JInt (int (mf_minimum m))), (''maximum'', JInt (int (mf_maximum m)))]),
     (''capabilities'', JArr (map JStr (mf_capabilities m))), (''platforms'', JArr (map marshal_platform (mf_platforms m)))]"

definition u32_field :: "string \<Rightarrow> (string \<times> json) list \<Rightarrow> nat option" where
  "u32_field k kvs = (case map_of kvs k of None \<Rightarrow> Some 0 | Some JNull \<Rightarrow> Some 0
     | Some (JInt n) \<Rightarrow> if 0 \<le> n \<and> n < 2 ^ 32 then Some (nat n) else None | _ \<Rightarrow> None)"

definition obj_field :: "string \<Rightarrow> (string \<times> json) list \<Rightarrow> (string \<times> json) list option" where
  "obj_field k kvs = (case map_of kvs k of None \<Rightarrow> Some [] | Some JNull \<Rightarrow> Some [] | Some (JObj o') \<Rightarrow> Some o' | _ \<Rightarrow> None)"

definition unmarshal_string :: "json \<Rightarrow> string option" where
  "unmarshal_string v = (case v of JNull \<Rightarrow> Some [] | JStr s \<Rightarrow> Some s | _ \<Rightarrow> None)"

definition unmarshal_platform :: "json \<Rightarrow> platform option" where
  "unmarshal_platform v = (case v of
       JNull \<Rightarrow> Some \<lparr>pf_os = [], pf_arch = [], pf_path = [], pf_sha256 = []\<rparr>
     | JObj kvs \<Rightarrow> (case (text_field ''os'' kvs, text_field ''arch'' kvs, text_field ''path'' kvs, text_field ''sha256'' kvs) of
         (Some a, Some b, Some c, Some d) \<Rightarrow> Some \<lparr>pf_os = a, pf_arch = b, pf_path = c, pf_sha256 = d\<rparr> | _ \<Rightarrow> None)
     | _ \<Rightarrow> None)"

definition unmarshal_manifest :: "json \<Rightarrow> manifest option" where
  "unmarshal_manifest v = (case (case v of JNull \<Rightarrow> Some [] | JObj kvs \<Rightarrow> Some kvs | _ \<Rightarrow> None) of None \<Rightarrow> None
     | Some kvs \<Rightarrow> (case (text_field ''apiVersion'' kvs, text_field ''name'' kvs, text_field ''version'' kvs, obj_field ''protocol'' kvs) of
        (Some a, Some n, Some ve, Some pr) \<Rightarrow>
          (case (u32_field ''minimum'' pr, u32_field ''maximum'' pr,
              Option.bind (arr_field ''capabilities'' kvs) (\<lambda>xs. all_some (map unmarshal_string xs)),
              Option.bind (arr_field ''platforms'' kvs) (\<lambda>xs. all_some (map unmarshal_platform xs))) of
            (Some lo, Some hi, Some cs, Some ps) \<Rightarrow> Some \<lparr>mf_apiVersion = a, mf_name = n, mf_version = ve, mf_minimum = lo, mf_maximum = hi,
               mf_capabilities = cs, mf_platforms = ps\<rparr>
          | _ \<Rightarrow> None)
      | _ \<Rightarrow> None))"

lemma unmarshal_marshal_platform [simp]: "unmarshal_platform (marshal_platform p) = Some p"
  by (simp add: unmarshal_platform_def marshal_platform_def text_field_def)

lemma unmarshal_marshal_manifest:
  assumes "mf_minimum m < 2 ^ 32" "mf_maximum m < 2 ^ 32"
  shows "unmarshal_manifest (marshal_manifest m) = Some m"
proof -
  have s: "all_some (map (unmarshal_string \<circ> JStr) xs) = Some xs" for xs
  proof -
    have "unmarshal_string \<circ> JStr = Some" by (auto simp: unmarshal_string_def)
    then show ?thesis by simp
  qed
  have p: "all_some (map (unmarshal_platform \<circ> marshal_platform) ps) = Some ps" for ps
  proof -
    have "unmarshal_platform \<circ> marshal_platform = Some" by auto
    then show ?thesis by simp
  qed
  show ?thesis using assms
    by (simp add: unmarshal_manifest_def marshal_manifest_def text_field_def obj_field_def u32_field_def arr_field_def s p)
qed

section \<open>Limits on concurrent calls\<close>

record limiter =
  lim_name :: string
  lim_max :: nat
  lim_tokens :: nat
  lim_active :: nat
  lim_waiting :: nat

definition newCallLimiter :: "string \<Rightarrow> nat \<Rightarrow> limiter" where
  "newCallLimiter name maximum = \<lparr>lim_name = name, lim_max = maximum, lim_tokens = 0, lim_active = 0, lim_waiting = 0\<rparr>"

text \<open>The steps of \<open>acquire\<close> and of the release it returns, interleaved between the callers.\<close>

inductive limiter_step :: "limiter \<Rightarrow> limiter \<Rightarrow> bool" where
  enter: "limiter_step l (l\<lparr>lim_waiting := Suc (lim_waiting l)\<rparr>)"
| send: "0 < lim_waiting l \<Longrightarrow> lim_tokens l < lim_max l \<Longrightarrow>
    limiter_step l (l\<lparr>lim_tokens := Suc (lim_tokens l), lim_active := Suc (lim_active l), lim_waiting := lim_waiting l - 1\<rparr>)"
| cancel: "0 < lim_waiting l \<Longrightarrow> limiter_step l (l\<lparr>lim_waiting := lim_waiting l - 1\<rparr>)"
| release: "0 < lim_active l \<Longrightarrow> limiter_step l (l\<lparr>lim_tokens := lim_tokens l - 1, lim_active := lim_active l - 1\<rparr>)"

definition effective_limits :: "int \<Rightarrow> int \<Rightarrow> int \<times> int" where
  "effective_limits maxActivities maxAgents =
     (let a = (if maxActivities < 1 then 1 else maxActivities)
      in (a, if maxAgents < 1 \<or> a < maxAgents then a else maxAgents))"

section \<open>The manager\<close>

record manager_state =
  ms_db :: db
  ms_processes :: "(string \<times> nat) list"
  ms_open :: "nat list"
  ms_next :: nat
  ms_clock :: nat
  ms_trees :: plugin_trees
  ms_activities :: limiter
  ms_agents :: limiter

record plugin_host =
  ph_bundle :: bundle_lib
  ph_sdk :: sdk_lib
  ph_os :: string
  ph_arch :: string
  ph_start :: "nat \<Rightarrow> string \<times> string \<Rightarrow> string \<Rightarrow> (string, description) result"
  ph_exited :: "nat \<Rightarrow> nat \<Rightarrow> bool"
  ph_health :: "nat \<Rightarrow> nat \<Rightarrow> bool option"
  ph_deadline :: "nat \<Rightarrow> nat option"
  ph_store :: store_env
  ph_now :: "nat \<Rightarrow> time"

definition env_at :: "plugin_host \<Rightarrow> nat \<Rightarrow> store_env" where
  "env_at h n = (ph_store h)\<lparr>env_now := ph_now h n\<rparr>"

definition NewWithLimits :: "db \<Rightarrow> plugin_trees \<Rightarrow> int \<Rightarrow> int \<Rightarrow> manager_state" where
  "NewWithLimits s trees maxActivities maxAgents =
     (let (a, g) = effective_limits maxActivities maxAgents in
      \<lparr>ms_db = s, ms_processes = [], ms_open = [], ms_next = 0, ms_clock = 0, ms_trees = trees,
       ms_activities = newCallLimiter ''activities'' (nat a), ms_agents = newCallLimiter ''agents'' (nat g)\<rparr>)"

definition installationKey :: "string \<Rightarrow> string \<Rightarrow> string" where
  "installationKey name version = name @ ''@'' @ version"

definition sameCapabilities :: "string list \<Rightarrow> string list \<Rightarrow> bool" where
  "sameCapabilities actual expected \<longleftrightarrow> join_with [CHR 0x00] (sort actual) = join_with [CHR 0x00] (sort expected)"

text \<open>\<open>ValidateDescription\<close>, with the contract as it is stored.\<close>

definition validated_contract :: "plugin_host \<Rightarrow> description \<Rightarrow> (json \<times> string) option" where
  "validated_contract h d = (case ValidateDescription (ph_sdk h) d of Inl _ \<Rightarrow> None | Inr (c, digest) \<Rightarrow> Some (contract_json c, digest))"

definition start_process :: "plugin_host \<Rightarrow> string \<times> string \<Rightarrow> string \<Rightarrow> manager_state \<Rightarrow> (store_error, nat \<times> description) result \<times> manager_state" where
  "start_process h dir sha st =
     (let st1 = st\<lparr>ms_clock := Suc (ms_clock st)\<rparr> in
      case ph_start h (ms_clock st) dir sha of Inl e \<Rightarrow> (Inl (ErrText e), st1)
      | Inr d \<Rightarrow> (Inr (ms_next st, d), st1\<lparr>ms_open := ms_next st # ms_open st, ms_next := Suc (ms_next st)\<rparr>))"

definition close_process :: "nat \<Rightarrow> manager_state \<Rightarrow> manager_state" where
  "close_process p st = st\<lparr>ms_open := filter (\<lambda>q. q \<noteq> p) (ms_open st)\<rparr>"

definition platform_sha :: "plugin_host \<Rightarrow> plugin_record \<Rightarrow> (store_error, manifest \<times> string) result" where
  "platform_sha h r = bind_res (or_fail (ErrText ''decode plugin manifest'') (unmarshal_manifest (pr_manifest r))) (\<lambda>m.
     bind_res (map_err ErrText (Platform_of m (ph_os h) (ph_arch h))) (\<lambda>p. Inr (m, pf_sha256 p)))"

definition check_description :: "plugin_record \<Rightarrow> manifest \<Rightarrow> description \<Rightarrow> (store_error, unit) result" where
  "check_description r m d =
     (if ds_name d \<noteq> pr_name r \<or> ds_version d \<noteq> pr_version r then Inl (ErrText ''running plugin identity does not match installation'')
      else if \<not> sameCapabilities (ds_capabilities d) (mf_capabilities m)
        then Inl (ErrText ''running plugin capabilities do not match installation'')
      else Inr ())"

definition ensureContract :: "plugin_host \<Rightarrow> plugin_record \<Rightarrow> manager_state \<Rightarrow> (store_error, plugin_record) result \<times> manager_state" where
  "ensureContract h r st =
     (if pr_contract r \<noteq> None \<and> pr_contract_digest r \<noteq> [] then (Inr r, st)
      else if pr_contract r \<noteq> None \<or> pr_contract_digest r \<noteq> []
        then (Inl (ErrText ''installed plugin action contract metadata is incomplete''), st)
      else (case platform_sha h r of Inl e \<Rightarrow> (Inl e, st)
        | Inr (m, sha) \<Rightarrow> (case start_process h (pr_name r, pr_version r) sha st of
            (Inl e, st1) \<Rightarrow> (Inl e, st1)
          | (Inr (p, d), st1) \<Rightarrow>
              (let st2 = close_process p st1 in
               case check_description r m d of Inl e \<Rightarrow> (Inl e, st2)
               | Inr _ \<Rightarrow> (case validated_contract h d of None \<Rightarrow> (Inl (ErrText ''validate running plugin action contract''), st2)
                 | Some (contract, digest) \<Rightarrow>
                     (case PutPlugin (env_at h (ms_clock st2)) (ms_db st2) (r\<lparr>pr_contract := Some contract, pr_contract_digest := digest\<rparr>) of
                        Inl e \<Rightarrow> (Inl e, st2)
                      | Inr s' \<Rightarrow> (Plugin s' (pr_name r) (pr_version r), st2\<lparr>ms_db := s'\<rparr>)))))))"

text \<open>An installation without a contract adopts the one its binary describes; when that fails it stays a legacy installation.\<close>

definition legacy_contract :: "plugin_record \<Rightarrow> bool" where
  "legacy_contract r \<longleftrightarrow> pr_contract r = None \<and> pr_contract_digest r = []"

definition adopt_contract :: "plugin_host \<Rightarrow> plugin_record \<Rightarrow> manager_state \<Rightarrow> plugin_record \<times> bool \<times> manager_state" where
  "adopt_contract h r st =
     (if \<not> legacy_contract r then (r, False, st)
      else (case ensureContract h r st of (Inr adopted, st1) \<Rightarrow> (adopted, False, st1) | (Inl e, st1) \<Rightarrow> (r, True, st1)))"

definition start_checked :: "plugin_host \<Rightarrow> plugin_record \<Rightarrow> bool \<Rightarrow> manager_state \<Rightarrow> (store_error, nat) result \<times> manager_state" where
  "start_checked h r legacy st =
     (case platform_sha h r of Inl e \<Rightarrow> (Inl e, st)
      | Inr (m, sha) \<Rightarrow> (case start_process h (pr_name r, pr_version r) sha st of
          (Inl e, st1) \<Rightarrow> (Inl e, st1)
        | (Inr (p, d), st1) \<Rightarrow>
            (case check_description r m d of Inl e \<Rightarrow> (Inl e, close_process p st1)
             | Inr _ \<Rightarrow>
                 if legacy then (Inr p, st1)
                 else (case validated_contract h d of None \<Rightarrow> (Inl (ErrText ''validate running plugin action contract''), close_process p st1)
                   | Some (contract, digest) \<Rightarrow>
                       if digest \<noteq> pr_contract_digest r
                       then (Inl (ErrText ''running plugin action contract does not match the immutable installation''), close_process p st1)
                       else (Inr p, st1)))))"

definition launch :: "plugin_host \<Rightarrow> plugin_record \<Rightarrow> manager_state \<Rightarrow> (store_error, nat) result \<times> manager_state" where
  "launch h r st =
     (if \<not> legacy_contract r \<and> (pr_contract r = None \<or> pr_contract_digest r = [])
      then (Inl (ErrText ''installed plugin action contract metadata is incomplete''), st)
      else (case adopt_contract h r st of (r1, legacy, st1) \<Rightarrow> start_checked h r1 legacy st1))"

section \<open>Installing, enabling and disabling\<close>

definition Install :: "plugin_host \<Rightarrow> string \<Rightarrow> manager_state \<Rightarrow> (store_error, plugin_record) result \<times> manager_state" where
  "Install h bundle st =
     (case map_err ErrText (ParseForPlatform (ph_bundle h) bundle (ph_os h) (ph_arch h)) of Inl e \<Rightarrow> (Inl e, st)
      | Inr (m, binary, bundleDigest) \<Rightarrow>
     if mf_minimum m > 1 \<or> mf_maximum m < 1 then (Inl (ErrText ''plugin protocol range is incompatible with host protocol 1''), st)
     else (case map_err ErrText (Stage (ph_bundle h) (ph_os h) (ph_arch h) bundle) of Inl e \<Rightarrow> (Inl e, st)
      | Inr sg \<Rightarrow> (case map_err ErrText (Platform_of (sg_manifest sg) (ph_os h) (ph_arch h)) of Inl e \<Rightarrow> (Inl e, st)
      | Inr pf \<Rightarrow> (case start_process h (mf_name (sg_manifest sg), ''.install-'') (pf_sha256 pf) st of (Inl e, st1) \<Rightarrow> (Inl e, st1)
      | (Inr (p, d), st1) \<Rightarrow>
          (let st2 = close_process p st1; im = sg_manifest sg in
           if ds_name d \<noteq> mf_name im \<or> ds_version d \<noteq> mf_version im then (Inl (ErrText ''plugin identity does not match manifest''), st2)
           else if \<not> sameCapabilities (ds_capabilities d) (mf_capabilities im) then (Inl (ErrText ''plugin capabilities do not match manifest''), st2)
           else (case validated_contract h d of None \<Rightarrow> (Inl (ErrText ''validate plugin action contract''), st2)
             | Some (contract, contractDigest) \<Rightarrow>
                 (let r = \<lparr>pr_name = mf_name im, pr_version = mf_version im, pr_digest = sg_digest sg, pr_manifest = marshal_manifest im,
                       pr_contract = Some contract, pr_contract_digest = contractDigest, pr_state = ''installed'', pr_installed = None,
                       pr_active = False\<rparr>
                  in case Publish sg (ms_trees st2) of (Inl e, trees) \<Rightarrow> (Inl (ErrText e), st2)
                   | (Inr published, trees) \<Rightarrow>
                       (case PutPlugin (env_at h (ms_clock st2)) (ms_db st2) r of
                          Inl e \<Rightarrow> (Inl e, st2\<lparr>ms_trees := (if published then map_del (final_directory im) trees else trees)\<rparr>)
                        | Inr s' \<Rightarrow> (Plugin s' (pr_name r) (pr_version r), st2\<lparr>ms_db := s', ms_trees := trees\<rparr>)))))))))"

definition register_process :: "string \<Rightarrow> string \<Rightarrow> nat \<Rightarrow> manager_state \<Rightarrow> manager_state" where
  "register_process name version p st =
     (let key = installationKey name version;
          others = filter (\<lambda>(k, q). has_prefix k (name @ ''@'') \<and> k \<noteq> key) (ms_processes st)
      in st\<lparr>ms_open := filter (\<lambda>q. q \<notin> snd ` set others) (ms_open st),
            ms_processes := map_put key p (filter (\<lambda>(k, q). \<not> (has_prefix k (name @ ''@'') \<and> k \<noteq> key)) (ms_processes st))\<rparr>)"

definition tick :: "manager_state \<Rightarrow> manager_state" where
  "tick st = st\<lparr>ms_clock := Suc (ms_clock st)\<rparr>"

definition Enable :: "plugin_host \<Rightarrow> string \<Rightarrow> string \<Rightarrow> manager_state \<Rightarrow> (store_error, unit) result \<times> manager_state" where
  "Enable h name version st =
     (case Plugin (ms_db st) name version of Inl e \<Rightarrow> (Inl e, st)
      | Inr r \<Rightarrow> (case launch h r st of (Inl e, st1) \<Rightarrow> (Inl e, st1)
        | (Inr p, st1) \<Rightarrow>
            (case ph_health h (ms_clock st1) p of
               None \<Rightarrow> (Inl (ErrText ''plugin health call failed''), close_process p (tick st1))
             | Some ready \<Rightarrow>
                 if \<not> ready then (Inl (ErrText ''plugin is not ready''), close_process p (tick st1))
                 else (case ActivatePlugin (env_at h (Suc (ms_clock st1))) (ms_db st1) name version of
                     Inl e \<Rightarrow> (Inl e, close_process p (tick st1))
                   | Inr s' \<Rightarrow> (Inr (), register_process name version p ((tick st1)\<lparr>ms_db := s'\<rparr>))))))"

definition evict :: "string \<Rightarrow> manager_state \<Rightarrow> manager_state" where
  "evict key st = (case map_of (ms_processes st) key of None \<Rightarrow> st
     | Some p \<Rightarrow> close_process p (st\<lparr>ms_processes := map_del key (ms_processes st)\<rparr>))"

definition Disable :: "string \<Rightarrow> manager_state \<Rightarrow> (store_error, unit) result \<times> manager_state" where
  "Disable name st =
     (case Plugin (ms_db st) name [] of Inl e \<Rightarrow> (Inl e, st)
      | Inr r \<Rightarrow> (case DisablePlugin (ms_db st) name of Inl e \<Rightarrow> (Inl e, st)
        | Inr s' \<Rightarrow> (Inr (), evict (installationKey name (pr_version r)) (st\<lparr>ms_db := s'\<rparr>))))"

definition List_plugins :: "manager_state \<Rightarrow> (store_error, plugin_record list) result" where
  "List_plugins st = Inr (ListPlugins (ms_db st))"

section \<open>Processes of records\<close>

definition running :: "plugin_host \<Rightarrow> string \<Rightarrow> manager_state \<Rightarrow> nat option" where
  "running h key st = (case map_of (ms_processes st) key of None \<Rightarrow> None
     | Some p \<Rightarrow> if ph_exited h (ms_clock st) p then None else Some p)"

definition processForRecord :: "plugin_host \<Rightarrow> plugin_record \<Rightarrow> manager_state \<Rightarrow> (store_error, nat) result \<times> manager_state" where
  "processForRecord h r st =
     (let key = installationKey (pr_name r) (pr_version r) in
      case running h key st of Some p \<Rightarrow> (Inr p, st)
      | None \<Rightarrow> (case launch h r st of (Inl e, st1) \<Rightarrow> (Inl e, st1)
        | (Inr p, st1) \<Rightarrow> (case running h key st1 of
            Some existing \<Rightarrow> (Inr existing, close_process p st1)
          | None \<Rightarrow> (Inr p, st1\<lparr>ms_processes := map_put key p (ms_processes st1)\<rparr>))))"

definition processFor :: "plugin_host \<Rightarrow> string \<Rightarrow> string \<Rightarrow> string \<Rightarrow> manager_state \<Rightarrow> (store_error, nat) result \<times> manager_state" where
  "processFor h name version digest st =
     (case Plugin (ms_db st) name version of Inl e \<Rightarrow> (Inl e, st)
      | Inr r \<Rightarrow> if pr_digest r \<noteq> digest then (Inl (ErrText ''pinned plugin digest mismatch''), st) else processForRecord h r st)"

definition activeProcess :: "plugin_host \<Rightarrow> string \<Rightarrow> manager_state \<Rightarrow> (store_error, nat) result \<times> manager_state" where
  "activeProcess h name st =
     (case Plugin (ms_db st) name [] of Inl e \<Rightarrow> (Inl e, st) | Inr r \<Rightarrow> processForRecord h r st)"

definition Close :: "manager_state \<Rightarrow> manager_state" where
  "Close st = st\<lparr>ms_open := filter (\<lambda>q. q \<notin> snd ` set (ms_processes st)) (ms_open st), ms_processes := []\<rparr>"

section \<open>Health probes\<close>

definition health_of :: "string \<Rightarrow> string \<Rightarrow> string \<Rightarrow> health_diagnostic" where
  "health_of path code message = \<lparr>hd_path = path, hd_code = code, hd_message = message\<rparr>"

definition removeExitedProcess :: "plugin_host \<Rightarrow> string \<Rightarrow> manager_state \<Rightarrow> nat option \<times> manager_state" where
  "removeExitedProcess h key st = (case map_of (ms_processes st) key of None \<Rightarrow> (None, st)
     | Some p \<Rightarrow> if ph_exited h (ms_clock st) p then (Some p, st\<lparr>ms_processes := map_del key (ms_processes st)\<rparr>) else (None, st))"

definition checkActivePlugin :: "plugin_host \<Rightarrow> plugin_record \<Rightarrow> manager_state \<Rightarrow> health_diagnostic option \<times> manager_state" where
  "checkActivePlugin h r st =
     (let path = ''plugins/'' @ pr_name r @ ''@'' @ pr_version r in
      case removeExitedProcess h (installationKey (pr_name r) (pr_version r)) st of
        (Some p, st1) \<Rightarrow> (Some (health_of path ''process_exited'' ''active plugin process exited; the next health probe will attempt restart''), close_process p st1)
      | (None, st1) \<Rightarrow> (case processForRecord h r st1 of
          (Inl e, st2) \<Rightarrow> (Some (health_of path ''unavailable'' ''active plugin is unavailable; inspect daemon logs''), st2)
        | (Inr p, st2) \<Rightarrow> (case ph_health h (ms_clock st2) p of
            None \<Rightarrow> (Some (health_of path ''rpc_failed'' ''active plugin health RPC failed; inspect daemon logs''), tick st2)
          | Some ready \<Rightarrow> (if ready then None else Some (health_of path ''not_ready'' ''active plugin reported that it is not ready''), tick st2))))"

fun check_plugins :: "plugin_host \<Rightarrow> plugin_record list \<Rightarrow> manager_state \<Rightarrow> health_diagnostic option list \<times> manager_state" where
  "check_plugins h [] st = ([], st)"
| "check_plugins h (r # rs) st =
     (case checkActivePlugin h r st of (d, st1) \<Rightarrow> (case check_plugins h rs st1 of (ds, st2) \<Rightarrow> (d # ds, st2)))"

definition sortHealthDiagnostics :: "health_diagnostic list \<Rightarrow> health_diagnostic list" where
  "sortHealthDiagnostics ds = sort_key (\<lambda>d. (hd_path d, hd_code d)) ds"

definition saturated :: "limiter \<Rightarrow> health_diagnostic list" where
  "saturated l = (if 0 < lim_waiting l
     then [health_of (''capacity/'' @ lim_name l) ''saturated'' ''configured execution capacity is saturated; queued work is waiting''] else [])"

text \<open>
  The probes run one after the other, in the order of the list; the deadline of the probe, when it strikes, does so after a number of
  answers.
\<close>

definition manager_HealthDiagnostics :: "plugin_host \<Rightarrow> manager_state \<Rightarrow> health_diagnostic list \<times> manager_state" where
  "manager_HealthDiagnostics h st =
     (let caps = saturated (ms_activities st) @ saturated (ms_agents st); active = filter pr_active (ListPlugins (ms_db st)) in
      if active = [] then (caps, st)
      else (case check_plugins h active st of (ds, st1) \<Rightarrow>
        (case ph_deadline h (ms_clock st) of
           Some n \<Rightarrow> if n < length active
             then (sortHealthDiagnostics (caps @ map the (filter (\<lambda>d. d \<noteq> None) (take n ds)) @
                    [health_of ''plugins'' ''probe_timeout'' ''active plugin health checks exceeded their bounded deadline'']), st1)
             else (sortHealthDiagnostics (caps @ map the (filter (\<lambda>d. d \<noteq> None) ds)), st1)
         | None \<Rightarrow> (sortHealthDiagnostics (caps @ map the (filter (\<lambda>d. d \<noteq> None) ds)), st1))))"

section \<open>The runtime the controller uses\<close>

record runtime =
  rt_List :: "manager_state \<Rightarrow> (store_error, plugin_record list) result"
  rt_Enable :: "string \<Rightarrow> string \<Rightarrow> manager_state \<Rightarrow> (store_error, unit) result \<times> manager_state"
  rt_Disable :: "string \<Rightarrow> manager_state \<Rightarrow> (store_error, unit) result \<times> manager_state"
  rt_Health :: "manager_state \<Rightarrow> health_diagnostic list \<times> manager_state"

definition manager_runtime :: "plugin_host \<Rightarrow> runtime" where
  "manager_runtime h = \<lparr>rt_List = List_plugins, rt_Enable = Enable h, rt_Disable = Disable, rt_Health = manager_HealthDiagnostics h\<rparr>"

definition unavailableRuntime :: runtime where
  "unavailableRuntime = \<lparr>rt_List = (\<lambda>_. Inl (ErrText ''plugin runtime is unavailable'')),
     rt_Enable = (\<lambda>_ _ st. (Inl (ErrText ''plugin runtime is unavailable''), st)),
     rt_Disable = (\<lambda>_ st. (Inl (ErrText ''plugin runtime is unavailable''), st)),
     rt_Health = (\<lambda>st. ([health_of ''plugins'' ''runtime_unavailable'' ''plugin runtime is unavailable''], st))\<rparr>"

section \<open>What the operations keep\<close>

text \<open>Only the installation and activation tables change, and no installed version changes its identity.\<close>

definition install_identity :: "installation_row \<Rightarrow> string \<times> string \<times> string \<times> json" where
  "install_identity i = (ins_name i, ins_version i, ins_digest i, ins_manifest i)"

definition plugin_frame :: "db \<Rightarrow> db \<Rightarrow> bool" where
  "plugin_frame s s' \<longleftrightarrow> (\<exists>is as. s' = s\<lparr>db_installations := is, db_activations := as\<rparr> \<and>
     map install_identity is = map install_identity (db_installations s))"

definition db_kept :: "db \<Rightarrow> db \<Rightarrow> bool" where
  "db_kept s s' \<longleftrightarrow> plugin_frame s s' \<and> db_activations s' = db_activations s \<and> (plugins_inv s \<longrightarrow> plugins_inv s')"

definition fresh_ids :: "manager_state \<Rightarrow> bool" where
  "fresh_ids st \<longleftrightarrow> (\<forall>q \<in> set (ms_open st). q < ms_next st)"

definition procs_kept :: "manager_state \<Rightarrow> manager_state \<Rightarrow> bool" where
  "procs_kept st st' \<longleftrightarrow> ms_processes st' = ms_processes st \<and> ms_open st' = ms_open st \<and> ms_trees st' = ms_trees st \<and>
     ms_next st \<le> ms_next st' \<and> db_kept (ms_db st) (ms_db st')"

lemma plugin_frame_refl [simp]: "plugin_frame s s"
  unfolding plugin_frame_def by (rule exI[of _ "db_installations s"], rule exI[of _ "db_activations s"]) simp

lemma plugin_frame_trans: "plugin_frame s t \<Longrightarrow> plugin_frame t u \<Longrightarrow> plugin_frame s u"
  unfolding plugin_frame_def by force

lemma db_kept_refl [simp]: "db_kept s s"
  by (simp add: db_kept_def)

lemma db_kept_trans: "db_kept s t \<Longrightarrow> db_kept t u \<Longrightarrow> db_kept s u"
  using plugin_frame_trans[of s t u] by (simp add: db_kept_def)

lemma procs_kept_refl [simp]: "procs_kept st st"
  by (simp add: procs_kept_def)

lemma procs_kept_trans: "procs_kept a b \<Longrightarrow> procs_kept b c \<Longrightarrow> procs_kept a c"
  using db_kept_trans[of "ms_db a" "ms_db b" "ms_db c"] unfolding procs_kept_def by simp

lemma plugin_frame_exists:
  assumes "plugin_frame s s'"
  shows "exists_row (ins_at n v) (db_installations s') \<longleftrightarrow> exists_row (ins_at n v) (db_installations s)"
proof -
  have e: "exists_row (ins_at n v) is \<longleftrightarrow> (n, v) \<in> (\<lambda>(a, b, c, d). (a, b)) ` set (map install_identity is)" for "is"
    by (force simp: exists_row_iff install_identity_def)
  have "map install_identity (db_installations s') = map install_identity (db_installations s)" using assms by (auto simp: plugin_frame_def)
  then show ?thesis unfolding e by (simp only:)
qed

lemma frame_update:
  assumes "s' = s\<lparr>db_installations := update_rows P f (db_installations s)\<rparr>" "\<And>i. install_identity (f i) = install_identity i"
  shows "plugin_frame s s'"
proof -
  have "map install_identity (update_rows P f (db_installations s)) = map install_identity (db_installations s)"
    using assms(2) by (auto simp: update_rows_def)
  then show ?thesis unfolding plugin_frame_def
    by (intro exI[of _ "update_rows P f (db_installations s)"] exI[of _ "db_activations s"]) (simp add: assms(1))
qed

lemma PutPlugin_known:
  assumes ok: "PutPlugin env s r = Inr s'" and known: "exists_row (ins_at (pr_name r) (pr_version r)) (db_installations s)"
  shows "db_kept s s'"
  using ok
proof (cases rule: PutPlugin_cases)
  case 2
  have fr: "plugin_frame s s'" by (rule frame_update[OF 2]) (simp add: install_identity_def)
  have "plugins_inv s'" if "plugins_inv s"
  proof (rule PutPlugin_inv[OF that, of env "r\<lparr>pr_state := []\<rparr>" s'])
    show "PutPlugin env s (r\<lparr>pr_state := []\<rparr>) = Inr s'"
    proof (cases "select_row (ins_at (pr_name r) (pr_version r)) (db_installations s)")
      case None
      then show ?thesis using known by (auto simp: select_row_None exists_row_iff)
    next
      case (Some i)
      then show ?thesis using ok by (simp add: PutPlugin_def cong: if_cong)
    qed
  qed simp
  then show ?thesis using fr 2 by (simp add: db_kept_def)
qed (use known in auto)

lemma Plugin_known:
  assumes "Plugin s n v = Inr r"
  shows "exists_row (ins_at (pr_name r) (pr_version r)) (db_installations s)" "pr_name r = n"
  using assms by (auto simp: Plugin_def plugin_of_def exists_row_iff split: if_splits dest!: select_row_SomeD)

lemma start_process_Inl:
  "start_process h k sha st = (Inl e, st') \<Longrightarrow> procs_kept st st'"
  by (auto simp: start_process_def Let_def procs_kept_def split: sum.splits)

lemma start_process_Inr:
  "start_process h k sha st = (Inr (p, d), st') \<Longrightarrow> p = ms_next st \<and> ms_open st' = p # ms_open st \<and> ms_next st' = Suc p \<and>
     ms_processes st' = ms_processes st \<and> ms_trees st' = ms_trees st \<and> ms_db st' = ms_db st"
  by (auto simp: start_process_def Let_def split: sum.splits)

lemma close_started:
  assumes "fresh_ids st" "start_process h k sha st = (Inr (p, d), st')"
  shows "procs_kept st (close_process p st')"
proof -
  have "filter (\<lambda>q. q \<noteq> ms_next st) (ms_open st) = ms_open st"
    using assms(1) by (intro filter_True) (auto simp: fresh_ids_def)
  then show ?thesis using start_process_Inr[OF assms(2)] by (simp add: procs_kept_def close_process_def)
qed

lemma ensureContract_kept:
  assumes f: "fresh_ids st" and known: "exists_row (ins_at (pr_name r) (pr_version r)) (db_installations (ms_db st))"
    and e: "ensureContract h r st = (x, st')"
  shows "procs_kept st st' \<and> (\<forall>r'. x = Inr r' \<longrightarrow> exists_row (ins_at (pr_name r') (pr_version r')) (db_installations (ms_db st')))"
proof (cases "\<exists>m sha p d st1. pr_contract r = None \<and> pr_contract_digest r = [] \<and> platform_sha h r = Inr (m, sha) \<and>
    start_process h (pr_name r, pr_version r) sha st = (Inr (p, d), st1)")
  case False
  then show ?thesis using e known
    by (auto simp: ensureContract_def start_process_Inl split: if_splits sum.splits prod.splits)
next
  case True
  then obtain m sha p d st1 where s: "pr_contract r = None" "pr_contract_digest r = []" "platform_sha h r = Inr (m, sha)"
    "start_process h (pr_name r, pr_version r) sha st = (Inr (p, d), st1)" by blast
  let ?st2 = "close_process p st1"
  have k2: "procs_kept st ?st2" by (rule close_started[OF f s(4)])
  have db2: "ms_db ?st2 = ms_db st" using start_process_Inr[OF s(4)] by (simp add: close_process_def)
  show ?thesis
  proof (cases "\<exists>c g s'. check_description r m d = Inr () \<and> validated_contract h d = Some (c, g) \<and>
      PutPlugin (env_at h (ms_clock ?st2)) (ms_db ?st2) (r\<lparr>pr_contract := Some c, pr_contract_digest := g\<rparr>) = Inr s'")
    case False
    then have "st' = ?st2 \<and> (\<exists>y. x = Inl y)" using e s
      by (auto simp: ensureContract_def Let_def split: sum.splits option.splits)
    then show ?thesis using k2 by auto
  next
    case True
    then obtain c g s' where q: "check_description r m d = Inr ()" "validated_contract h d = Some (c, g)"
      "PutPlugin (env_at h (ms_clock ?st2)) (ms_db ?st2) (r\<lparr>pr_contract := Some c, pr_contract_digest := g\<rparr>) = Inr s'" by blast
    then have x: "x = Plugin s' (pr_name r) (pr_version r)" "st' = ?st2\<lparr>ms_db := s'\<rparr>" using e s by (auto simp: ensureContract_def Let_def)
    have "db_kept (ms_db st) s'" using PutPlugin_known[OF q(3)] known db2 by simp
    then show ?thesis using k2 x Plugin_known(1) by (auto simp: procs_kept_def)
  qed
qed

text \<open>A launch that succeeds leaves one more open process, a launch that fails none.\<close>

definition launched :: "manager_state \<Rightarrow> manager_state \<Rightarrow> nat \<Rightarrow> bool" where
  "launched st st' p \<longleftrightarrow> ms_processes st' = ms_processes st \<and> ms_open st' = p # ms_open st \<and> ms_trees st' = ms_trees st \<and>
     ms_next st \<le> p \<and> p < ms_next st' \<and> db_kept (ms_db st) (ms_db st')"

lemma procs_kept_fresh: "procs_kept st st' \<Longrightarrow> fresh_ids st \<Longrightarrow> fresh_ids st'"
  by (fastforce simp: procs_kept_def fresh_ids_def)

lemma launched_after: "procs_kept a b \<Longrightarrow> launched b c p \<Longrightarrow> launched a c p"
  using db_kept_trans[of "ms_db a" "ms_db b" "ms_db c"] by (simp add: procs_kept_def launched_def)

lemma launched_fresh:
  assumes "launched st st' p" "fresh_ids st"
  shows "fresh_ids st'" "p \<notin> set (ms_open st)" "procs_kept st (close_process p st')"
proof -
  show "fresh_ids st'" "p \<notin> set (ms_open st)" using assms by (fastforce simp: launched_def fresh_ids_def)+
  then have "filter (\<lambda>q. q \<noteq> p) (ms_open st) = ms_open st" by (intro filter_True) auto
  then show "procs_kept st (close_process p st')" using assms(1) by (simp add: launched_def procs_kept_def close_process_def)
qed

lemma adopt_contract_kept:
  assumes "fresh_ids st" "exists_row (ins_at (pr_name r) (pr_version r)) (db_installations (ms_db st))" "adopt_contract h r st = (r1, legacy, st1)"
  shows "procs_kept st st1"
proof (cases "legacy_contract r")
  case True
  obtain y st2 where y: "ensureContract h r st = (y, st2)" by fastforce
  have "procs_kept st st2" using ensureContract_kept[OF assms(1,2) y] by (rule conjunct1)
  moreover have "st1 = st2" using assms(3) True y by (cases y) (simp_all add: adopt_contract_def)
  ultimately show ?thesis by simp
next
  case False
  then show ?thesis using assms(3) by (simp add: adopt_contract_def)
qed

lemma start_checked_kept:
  assumes f: "fresh_ids st" and l: "start_checked h r legacy st = (x, st')"
  shows "case x of Inl _ \<Rightarrow> procs_kept st st' | Inr p \<Rightarrow> launched st st' p"
proof (cases "platform_sha h r")
  case (Inl e)
  then show ?thesis using l by (auto simp: start_checked_def)
next
  case (Inr ms)
  obtain m sha where ms: "ms = (m, sha)" by fastforce
  obtain y st1 where y: "start_process h (pr_name r, pr_version r) sha st = (y, st1)" by fastforce
  show ?thesis
  proof (cases y)
    case (Inl e)
    then show ?thesis using l start_process_Inl y \<open>platform_sha h r = Inr ms\<close> ms by (auto simp: start_checked_def)
  next
    case pd: (Inr pd)
    obtain p d where p: "pd = (p, d)" by fastforce
    then have s: "start_process h (pr_name r, pr_version r) sha st = (Inr (p, d), st1)" using y pd by simp
    have la: "launched st st1 p" using start_process_Inr[OF s] by (simp add: launched_def)
    have "(\<exists>e. x = Inl e) \<and> st' = close_process p st1 \<or> x = Inr p \<and> st' = st1"
      using l Inr ms s by (auto simp: start_checked_def split: sum.splits option.splits if_splits)
    then show ?thesis using launched_fresh(3)[OF la f] la by auto
  qed
qed

lemma launch_kept:
  assumes f: "fresh_ids st" and known: "exists_row (ins_at (pr_name r) (pr_version r)) (db_installations (ms_db st))"
    and l: "launch h r st = (x, st')"
  shows "case x of Inl _ \<Rightarrow> procs_kept st st' | Inr p \<Rightarrow> launched st st' p"
proof (cases "\<not> legacy_contract r \<and> (pr_contract r = None \<or> pr_contract_digest r = [])")
  case True
  then show ?thesis using l by (auto simp: launch_def)
next
  case False
  obtain r1 legacy st1 where a: "adopt_contract h r st = (r1, legacy, st1)" by (rule prod_cases3)
  have k1: "procs_kept st st1" by (rule adopt_contract_kept[OF f known a])
  have s: "start_checked h r1 legacy st1 = (x, st')" using l False by (auto simp: launch_def a)
  show ?thesis using start_checked_kept[OF procs_kept_fresh[OF k1 f] s] k1
    by (cases x) (auto intro: procs_kept_trans launched_after)
qed

lemma map_put_mem: "(k, x) \<in> set (map_put key v m) \<Longrightarrow> (k = key \<and> x = v) \<or> (k \<noteq> key \<and> (k, x) \<in> set m)"
  by (force simp: map_put_def split: if_splits)

lemma map_put_values: "snd ` set (map_put k v m) \<subseteq> insert v (snd ` set m)"
  by (auto simp: map_put_def split: if_splits)

lemma Enable_cases:
  assumes f: "fresh_ids st" and e: "Enable h n v st = (x, st')"
  obtains err where "x = Inl err" "procs_kept st st'"
  | r p st1 s' where "x = Inr ()" "Plugin (ms_db st) n v = Inr r" "launched st st1 p"
      "ActivatePlugin (env_at h (Suc (ms_clock st1))) (ms_db st1) n v = Inr s'"
      "st' = register_process n v p ((tick st1)\<lparr>ms_db := s'\<rparr>)"
proof (cases "Plugin (ms_db st) n v")
  case (Inl err)
  then have "x = Inl err" "st' = st" using e by (simp_all add: Enable_def)
  then show ?thesis using that(1) by simp
next
  case (Inr r)
  obtain y st1 where y: "launch h r st = (y, st1)" by fastforce
  note lk = launch_kept[OF f Plugin_known(1)[OF Inr] y]
  show ?thesis
  proof (cases y)
    case (Inl err)
    have "x = Inl err" "st' = st1" using e y Inl \<open>Plugin (ms_db st) n v = Inr r\<close> by (simp_all add: Enable_def)
    then show ?thesis using lk Inl that(1) by simp
  next
    case p: (Inr p)
    have la: "launched st st1 p" using lk p by simp
    have t: "procs_kept st (close_process p (tick st1))"
    proof -
      have "launched st (tick st1) p" using la by (simp add: launched_def tick_def)
      then show ?thesis using launched_fresh(3) f by blast
    qed
    show ?thesis
    proof (cases "ph_health h (ms_clock st1) p = Some True \<and> (\<exists>s'. ActivatePlugin (env_at h (Suc (ms_clock st1))) (ms_db st1) n v = Inr s')")
      case True
      then show ?thesis using e y p Inr la that(2) by (auto simp: Enable_def)
    next
      case False
      then have "(\<exists>err. x = Inl err) \<and> st' = close_process p (tick st1)" using e y p Inr
        by (auto simp: Enable_def split: option.splits if_splits sum.splits)
      then show ?thesis using t that(1) by auto
    qed
  qed
qed

section \<open>The contract of a runtime\<close>

definition good_state :: "manager_state \<Rightarrow> bool" where
  "good_state st \<longleftrightarrow> fresh_ids st \<and> plugins_inv (ms_db st)"

definition runtime_kept :: "manager_state \<Rightarrow> manager_state \<Rightarrow> bool" where
  "runtime_kept st st' \<longleftrightarrow> good_state st' \<and> plugin_frame (ms_db st) (ms_db st')"

locale activation_runtime =
  fixes rt :: runtime
  assumes list_records: "rt_List rt st = Inr rs \<Longrightarrow> rs = ListPlugins (ms_db st)"
    and enable_switches: "good_state st \<Longrightarrow> rt_Enable rt n v st = (r, st') \<Longrightarrow> runtime_kept st st' \<and>
      (\<forall>m w. is_active (ms_db st') m w \<longleftrightarrow> (if r = Inr () \<and> m = n then w = v else is_active (ms_db st) m w))"
    and disable_clears: "good_state st \<Longrightarrow> rt_Disable rt n st = (r, st') \<Longrightarrow> runtime_kept st st' \<and>
      (\<forall>m w. is_active (ms_db st') m w \<longleftrightarrow> is_active (ms_db st) m w \<and> \<not> (r = Inr () \<and> m = n))"
    and health_observes: "good_state st \<Longrightarrow> rt_Health rt st = (ds, st') \<Longrightarrow> runtime_kept st st' \<and>
      (\<forall>m w. is_active (ms_db st') m w \<longleftrightarrow> is_active (ms_db st) m w)"

lemma procs_kept_good: "procs_kept st st' \<Longrightarrow> good_state st \<Longrightarrow>
    runtime_kept st st' \<and> (\<forall>m w. is_active (ms_db st') m w \<longleftrightarrow> is_active (ms_db st) m w)"
  using procs_kept_fresh[of st st'] by (simp add: good_state_def runtime_kept_def procs_kept_def db_kept_def is_active_def)

lemma runtime_kept_trans: "runtime_kept a b \<Longrightarrow> runtime_kept b c \<Longrightarrow> runtime_kept a c"
  using plugin_frame_trans[of "ms_db a" "ms_db b" "ms_db c"] by (simp add: runtime_kept_def)

lemma ActivatePlugin_frame: "ActivatePlugin env s n v = Inr s' \<Longrightarrow> plugin_frame s s'"
  unfolding plugin_frame_def
  by (rule exI[of _ "db_installations s'"], rule exI[of _ "db_activations s'"])
    (auto simp: ActivatePlugin_def Let_def install_identity_def)

lemma DisablePlugin_frame: "DisablePlugin s n = Inr s' \<Longrightarrow> plugin_frame s s'"
  unfolding plugin_frame_def
  by (rule exI[of _ "db_installations s'"], rule exI[of _ "db_activations s'"])
    (auto simp: DisablePlugin_def install_identity_def update_rows_def)

lemma register_process_simps [simp]:
  "ms_db (register_process n v p st) = ms_db st" "ms_next (register_process n v p st) = ms_next st"
  "set (ms_open (register_process n v p st)) \<subseteq> set (ms_open st)"
  by (auto simp: register_process_def Let_def)

lemma Enable_switches:
  assumes g: "good_state st" and e: "Enable h n v st = (r, st')"
  shows "runtime_kept st st' \<and> (\<forall>m w. is_active (ms_db st') m w \<longleftrightarrow> (if r = Inr () \<and> m = n then w = v else is_active (ms_db st) m w))"
proof -
  have f: "fresh_ids st" and inv: "plugins_inv (ms_db st)" using g by (auto simp: good_state_def)
  from f e show ?thesis
  proof (cases rule: Enable_cases)
    case (1 err)
    have "r \<noteq> Inr ()" using 1(1) by simp
    then show ?thesis using procs_kept_good[OF 1(2) g] by (simp only: simp_thms if_False)
  next
    case (2 rec p st1 s')
    have k: "db_kept (ms_db st) (ms_db st1)" using 2(3) by (simp add: launched_def)
    then have i1: "plugins_inv (ms_db st1)" and a1: "\<And>m w. is_active (ms_db st1) m w = is_active (ms_db st) m w"
      using inv by (auto simp: db_kept_def is_active_def)
    have "fresh_ids st'" using launched_fresh(1)[OF 2(3) f] register_process_simps(3)[of n v p "(tick st1)\<lparr>ms_db := s'\<rparr>"]
      unfolding 2(5) fresh_ids_def by (auto simp: tick_def)
    moreover have "plugin_frame (ms_db st) s'" using k ActivatePlugin_frame[OF 2(4)] plugin_frame_trans by (auto simp: db_kept_def)
    ultimately show ?thesis using ActivatePlugin_inv[OF i1 2(4)] ActivatePlugin_effect(1)[OF i1 2(4)] a1 2(1,5)
      by (simp add: runtime_kept_def good_state_def)
  qed
qed

lemma DisablePlugin_active: "DisablePlugin s n = Inr s' \<Longrightarrow> is_active s' m w \<longleftrightarrow> is_active s m w \<and> m \<noteq> n"
  by (auto simp: DisablePlugin_def is_active_def exists_row_iff delete_rows_def)

lemma evict_simps [simp]:
  "ms_db (evict k st) = ms_db st" "ms_next (evict k st) = ms_next st" "set (ms_open (evict k st)) \<subseteq> set (ms_open st)"
  by (auto simp: evict_def close_process_def split: option.splits)

lemma Disable_clears:
  assumes g: "good_state st" and e: "Disable n st = (r, st')"
  shows "runtime_kept st st' \<and> (\<forall>m w. is_active (ms_db st') m w \<longleftrightarrow> is_active (ms_db st) m w \<and> \<not> (r = Inr () \<and> m = n))"
proof (cases "r = Inr ()")
  case False
  then have "st' = st" using e by (auto simp: Disable_def split: sum.splits)
  then show ?thesis using False g by (auto simp: runtime_kept_def)
next
  case True
  then obtain rec where rec: "Plugin (ms_db st) n [] = Inr rec" using e by (cases "Plugin (ms_db st) n []") (auto simp: Disable_def)
  then obtain s' where s: "DisablePlugin (ms_db st) n = Inr s'" "st' = evict (installationKey n (pr_version rec)) (st\<lparr>ms_db := s'\<rparr>)"
    using e True by (auto simp: Disable_def split: sum.splits)
  have "fresh_ids st'" using g evict_simps(3)[of "installationKey n (pr_version rec)" "st\<lparr>ms_db := s'\<rparr>"]
    unfolding s(2) good_state_def fresh_ids_def by auto
  then show ?thesis using True g DisablePlugin_inv[OF _ s(1)] DisablePlugin_active[OF s(1)] DisablePlugin_frame[OF s(1)] s(2)
    by (simp add: runtime_kept_def good_state_def)
qed

lemma Disable_active:
  assumes "plugins_inv (ms_db st)" "is_active (ms_db st) n v"
  shows "fst (Disable n st) = Inr ()"
proof -
  obtain a where a: "a \<in> set (db_activations (ms_db st))" "act_name a = n" "act_version a = v"
    using assms(2) by (auto simp: is_active_def exists_row_iff)
  then have "exists_row (ins_at n v) (db_installations (ms_db st))" using assms(1) by (auto simp: plugins_inv_def)
  then have "exists_row (\<lambda>i. ins_name i = n \<and> is_active (ms_db st) n (ins_version i)) (db_installations (ms_db st))"
    using assms(2) by (auto simp: exists_row_iff)
  then have "\<exists>i. select_row (\<lambda>i. ins_name i = n \<and> is_active (ms_db st) n (ins_version i)) (db_installations (ms_db st)) = Some i"
    by (cases "select_row (\<lambda>i. ins_name i = n \<and> is_active (ms_db st) n (ins_version i)) (db_installations (ms_db st))")
      (auto simp: select_row_None exists_row_iff)
  then obtain r where "Plugin (ms_db st) n [] = Inr r" by (auto simp: Plugin_def)
  moreover have "rows_affected (\<lambda>a. act_name a = n) (db_activations (ms_db st)) \<noteq> 0"
    using a by (auto simp: rows_affected_def filter_empty_conv)
  ultimately show ?thesis by (simp add: Disable_def DisablePlugin_def)
qed

text \<open>A probe may start and close processes, and leaves the activations alone.\<close>

definition probe_kept :: "manager_state \<Rightarrow> manager_state \<Rightarrow> bool" where
  "probe_kept st st' \<longleftrightarrow> fresh_ids st' \<and> db_kept (ms_db st) (ms_db st')"

lemma probe_kept_trans: "probe_kept a b \<Longrightarrow> probe_kept b c \<Longrightarrow> probe_kept a c"
  using db_kept_trans[of "ms_db a" "ms_db b" "ms_db c"] by (simp add: probe_kept_def)

lemma probe_kept_close: "probe_kept a b \<Longrightarrow> probe_kept a (close_process p b)"
  by (auto simp: probe_kept_def close_process_def fresh_ids_def)

lemma processForRecord_kept:
  assumes f: "fresh_ids st" and known: "exists_row (ins_at (pr_name r) (pr_version r)) (db_installations (ms_db st))"
    and e: "processForRecord h r st = (x, st')"
  shows "probe_kept st st'"
proof (cases "running h (installationKey (pr_name r) (pr_version r)) st")
  case (Some p)
  then have "st' = st" using e by (simp add: processForRecord_def Let_def)
  then show ?thesis using f by (simp add: probe_kept_def)
next
  case None
  obtain y st1 where y: "launch h r st = (y, st1)" by fastforce
  note lk = launch_kept[OF f known y]
  have k1: "probe_kept st st1"
  proof (cases y)
    case (Inl err)
    then show ?thesis using lk procs_kept_fresh[OF _ f] by (simp add: probe_kept_def procs_kept_def)
  next
    case (Inr p)
    then show ?thesis using lk launched_fresh(1)[OF _ f] by (simp add: probe_kept_def launched_def)
  qed
  show ?thesis
  proof (cases y)
    case (Inl err)
    then have "st' = st1" using e None y by (simp add: processForRecord_def Let_def)
    then show ?thesis using k1 by simp
  next
    case (Inr p)
    let ?key = "installationKey (pr_name r) (pr_version r)"
    have "st' = close_process p st1 \<or> st' = st1\<lparr>ms_processes := map_put ?key p (ms_processes st1)\<rparr>"
      using e None y Inr by (cases "running h ?key st1") (simp_all add: processForRecord_def Let_def)
    then show ?thesis
    proof
      assume "st' = st1\<lparr>ms_processes := map_put ?key p (ms_processes st1)\<rparr>"
      then show ?thesis using k1 by (simp add: probe_kept_def fresh_ids_def)
    qed (use probe_kept_close[OF k1] in simp)
  qed
qed

lemma checkActivePlugin_kept:
  assumes f: "fresh_ids st" and known: "exists_row (ins_at (pr_name r) (pr_version r)) (db_installations (ms_db st))"
    and e: "checkActivePlugin h r st = (x, st')"
  shows "probe_kept st st'"
proof -
  obtain y st1 where y: "removeExitedProcess h (installationKey (pr_name r) (pr_version r)) st = (y, st1)" by fastforce
  then have s1: "ms_db st1 = ms_db st" "fresh_ids st1" using f
    by (auto simp: removeExitedProcess_def fresh_ids_def split: option.splits if_splits)
  then have k1: "probe_kept st st1" by (simp add: probe_kept_def)
  show ?thesis
  proof (cases y)
    case (Some p)
    then have "st' = close_process p st1" using e y by (simp add: checkActivePlugin_def Let_def)
    then show ?thesis using probe_kept_close[OF k1] by simp
  next
    case None
    obtain z st2 where z: "processForRecord h r st1 = (z, st2)" by fastforce
    have known1: "exists_row (ins_at (pr_name r) (pr_version r)) (db_installations (ms_db st1))" using known s1(1) by simp
    have k2: "probe_kept st st2" by (rule probe_kept_trans[OF k1 processForRecord_kept[OF s1(2) known1 z]])
    have "st' = st2 \<or> st' = tick st2" using e y None z
      by (auto simp: checkActivePlugin_def Let_def split: sum.splits option.splits)
    then show ?thesis using k2 by (auto simp: probe_kept_def tick_def fresh_ids_def)
  qed
qed

lemma check_plugins_kept:
  assumes "fresh_ids st" "\<forall>r \<in> set rs. exists_row (ins_at (pr_name r) (pr_version r)) (db_installations (ms_db st))"
    "check_plugins h rs st = (x, st')"
  shows "probe_kept st st'"
  using assms
proof (induction rs arbitrary: st x)
  case Nil
  then show ?case by (simp add: probe_kept_def)
next
  case (Cons r rs)
  obtain d st1 ds where s: "checkActivePlugin h r st = (d, st1)" "check_plugins h rs st1 = (ds, st')"
    using Cons.prems(3) by (auto split: prod.splits)
  have k1: "probe_kept st st1" using checkActivePlugin_kept[OF Cons.prems(1) _ s(1)] Cons.prems(2) by simp
  then have "\<forall>r \<in> set rs. exists_row (ins_at (pr_name r) (pr_version r)) (db_installations (ms_db st1))"
    using Cons.prems(2) plugin_frame_exists by (auto simp: probe_kept_def db_kept_def)
  with Cons.IH[OF _ this s(2)] k1 show ?case by (meson probe_kept_def probe_kept_trans)
qed

lemma ListPlugins_known:
  "r \<in> set (ListPlugins s) \<Longrightarrow> exists_row (ins_at (pr_name r) (pr_version r)) (db_installations s)"
  by (auto simp: ListPlugins_def plugin_of_def exists_row_iff)

lemma manager_Health_kept:
  assumes g: "good_state st" and e: "manager_HealthDiagnostics h st = (ds, st')"
  shows "runtime_kept st st' \<and> (\<forall>m w. is_active (ms_db st') m w \<longleftrightarrow> is_active (ms_db st) m w)"
proof -
  let ?active = "filter pr_active (ListPlugins (ms_db st))"
  obtain xs st1 where c: "check_plugins h ?active st = (xs, st1)" by fastforce
  have "probe_kept st st1" using check_plugins_kept[OF _ _ c] g ListPlugins_known by (auto simp: good_state_def)
  moreover have "st' = st \<or> st' = st1" using e c
    by (auto simp: manager_HealthDiagnostics_def Let_def split: if_splits option.splits)
  ultimately show ?thesis using g by (auto simp: probe_kept_def runtime_kept_def good_state_def db_kept_def is_active_def)
qed

interpretation managed: activation_runtime "manager_runtime h"
  by unfold_locales (use Enable_switches Disable_clears manager_Health_kept in
    \<open>auto simp: manager_runtime_def List_plugins_def\<close>)

interpretation unavailable: activation_runtime unavailableRuntime
  by unfold_locales (auto simp: unavailableRuntime_def runtime_kept_def)

section \<open>Properties\<close>

lemma register_process_map:
  assumes "distinct (map fst (ms_processes st))"
  shows "map_of (ms_processes (register_process n v p st)) k =
    (if k = installationKey n v then Some p else if has_prefix k (n @ ''@'') then None else map_of (ms_processes st) k)"
proof -
  have f: "map_of (filter (\<lambda>(k, q). Q k) m) k = (if Q k then map_of m k else None)" for Q and m :: "(string \<times> nat) list"
    by (induction m) auto
  show ?thesis by (simp add: register_process_def Let_def f)
qed

text \<open>C22: enabling a version switches its name atomically: on success exactly that version of the name is active and other names keep theirs, its
  process is registered and open, and the processes of the other versions are closed; on any failure the activations, the process map and the
  open processes are what they were, so a version that does not start, is not healthy or cannot be recorded leaves no process behind.\<close>

theorem enable_switches_or_leaves:
  assumes g: "good_state st" and d: "distinct (map fst (ms_processes st))" "snd ` set (ms_processes st) \<subseteq> set (ms_open st)"
    and e: "Enable h n v st = (r, st')"
  shows "(r = Inr () \<longrightarrow> (\<forall>m w. is_active (ms_db st') m w \<longleftrightarrow> (if m = n then w = v else is_active (ms_db st) m w)) \<and>
      (\<exists>p. map_of (ms_processes st') (installationKey n v) = Some p \<and> p \<in> set (ms_open st') \<and> p \<notin> set (ms_open st)) \<and>
      (\<forall>k q. map_of (ms_processes st) k = Some q \<and> k \<noteq> installationKey n v \<and> has_prefix k (n @ ''@'') \<longrightarrow>
         q \<notin> set (ms_open st') \<and> map_of (ms_processes st') k = None)) \<and>
    (r \<noteq> Inr () \<longrightarrow> (\<forall>m w. is_active (ms_db st') m w \<longleftrightarrow> is_active (ms_db st) m w) \<and>
      ms_processes st' = ms_processes st \<and> ms_open st' = ms_open st)"
proof -
  have f: "fresh_ids st" using g by (simp add: good_state_def)
  note acts = Enable_switches[OF g e]
  from f e show ?thesis
  proof (cases rule: Enable_cases)
    case (1 err)
    then have "ms_processes st' = ms_processes st" "ms_open st' = ms_open st" by (auto simp: procs_kept_def)
    then show ?thesis using acts 1(1) by simp
  next
    case (2 rec p st1 s')
    let ?b = "(tick st1)\<lparr>ms_db := s'\<rparr>" and ?key = "installationKey n v"
    have b: "ms_processes ?b = ms_processes st" "ms_open ?b = p # ms_open st" "p \<notin> set (ms_open st)"
      using 2(3) launched_fresh(2)[OF 2(3) f] by (auto simp: launched_def tick_def)
    have m: "map_of (ms_processes st') k = (if k = ?key then Some p else if has_prefix k (n @ ''@'') then None else map_of (ms_processes st) k)" for k
      unfolding 2(5) using d(1) b(1) by (subst register_process_map) simp_all
    have p: "p \<in> set (ms_open st')" using b d(2) unfolding 2(5) by (fastforce simp: register_process_def Let_def)
    have "q \<notin> set (ms_open st')" if "map_of (ms_processes st) k = Some q" "k \<noteq> ?key" "has_prefix k (n @ ''@'')" for k q
    proof -
      have "q \<in> snd ` set (filter (\<lambda>(k, q). has_prefix k (n @ ''@'') \<and> k \<noteq> ?key) (ms_processes st))"
        using that by (force dest: map_of_SomeD)
      then show ?thesis using b(1) unfolding 2(5) by (simp add: register_process_def Let_def)
    qed
    note gone = this
    have closed: "\<forall>k q. map_of (ms_processes st) k = Some q \<and> k \<noteq> ?key \<and> has_prefix k (n @ ''@'') \<longrightarrow>
         q \<notin> set (ms_open st') \<and> map_of (ms_processes st') k = None"
    proof (intro allI impI)
      fix k q
      assume "map_of (ms_processes st) k = Some q \<and> k \<noteq> ?key \<and> has_prefix k (n @ ''@'')"
      then show "q \<notin> set (ms_open st') \<and> map_of (ms_processes st') k = None" using gone[of k q] m[of k] by simp
    qed
    have "map_of (ms_processes st') ?key = Some p" using m by simp
    moreover have "\<forall>m w. is_active (ms_db st') m w \<longleftrightarrow> (if m = n then w = v else is_active (ms_db st) m w)" using acts 2(1) by simp
    ultimately show ?thesis unfolding 2(1) using closed p b(3) by blast
  qed
qed

text \<open>When the version already has a process, for instance for a Run pinned to it, the entry is overwritten: that process stays open and
  nothing will close it, neither an eviction nor the shutdown of the manager.\<close>

lemma enable_abandons_running_process:
  assumes "good_state st" "distinct (map fst (ms_processes st))" "map_of (ms_processes st) (installationKey n v) = Some old"
    and only: "\<forall>(k, q) \<in> set (ms_processes st). q = old \<longrightarrow> k = installationKey n v" and "old \<in> set (ms_open st)"
    and e: "Enable h n v st = (Inr (), st')"
  shows "old \<in> set (ms_open st') \<and> old \<notin> snd ` set (ms_processes st') \<and> old \<in> set (ms_open (Close st'))"
proof -
  have f: "fresh_ids st" using assms(1) by (simp add: good_state_def)
  from f e show ?thesis
  proof (cases rule: Enable_cases)
    case (2 rec p st1 s')
    let ?b = "(tick st1)\<lparr>ms_db := s'\<rparr>" and ?key = "installationKey n v"
    have b: "ms_processes ?b = ms_processes st" "ms_open ?b = p # ms_open st" "p \<noteq> old"
      using 2(3) launched_fresh(2)[OF 2(3) f] assms(5) by (auto simp: launched_def tick_def)
    have "old \<in> set (ms_open st')"
      using assms(5) only b unfolding 2(5) by (fastforce simp: register_process_def Let_def)
    moreover have "old \<notin> snd ` set (ms_processes st')"
    proof
      assume "old \<in> snd ` set (ms_processes st')"
      then obtain k where k: "(k, old) \<in> set (ms_processes st')" by auto
      have "ms_processes st' = map_put ?key p (filter (\<lambda>(k, q). \<not> (has_prefix k (n @ ''@'') \<and> k \<noteq> ?key)) (ms_processes st))"
        unfolding 2(5) by (simp add: register_process_def Let_def b(1))
      with k b(3) have "(k, old) \<in> set (ms_processes st)" "k \<noteq> ?key" using map_put_mem by fastforce+
      then show False using only by auto
    qed
    ultimately show ?thesis by (simp add: Close_def)
  qed simp
qed

text \<open>Reachable states of a limiter hold at most \<open>lim_max\<close> tokens, one for each running call.\<close>

lemma limiter_bounded:
  assumes "limiter_step\<^sup>*\<^sup>* (newCallLimiter name maximum) l"
  shows "lim_active l = lim_tokens l \<and> lim_active l \<le> maximum \<and> lim_max l = maximum"
  using assms
proof (induction rule: rtranclp_induct)
  case base
  then show ?case by (simp add: newCallLimiter_def)
next
  case (step l l')
  from step(2) show ?case using step(3) by cases auto
qed

text \<open>The limits bound the calls in flight: from a new manager, however calls wait, start, are cancelled and finish, at most
  \<open>MaxConcurrentActivities\<close> activities and at most \<open>MaxAgentProcesses\<close> agents run at once, both at least one, and never more agents
  than activities are allowed, whatever limits were configured.\<close>

theorem calls_are_limited:
  assumes "NewWithLimits s trees maxActivities maxAgents = st"
    and "limiter_step\<^sup>*\<^sup>* (ms_activities st) la" "limiter_step\<^sup>*\<^sup>* (ms_agents st) lg"
  shows "int (lim_active la) \<le> max 1 maxActivities \<and> lim_active lg \<le> lim_max lg \<and> 1 \<le> lim_max lg \<and> lim_max lg \<le> lim_max la \<and>
    (1 \<le> maxAgents \<longrightarrow> int (lim_active lg) \<le> maxAgents)"
proof -
  let ?a = "fst (effective_limits maxActivities maxAgents)" and ?g = "snd (effective_limits maxActivities maxAgents)"
  have st: "ms_activities st = newCallLimiter ''activities'' (nat ?a)" "ms_agents st = newCallLimiter ''agents'' (nat ?g)"
    using assms(1) by (auto simp: NewWithLimits_def split: prod.splits)
  note a = limiter_bounded[OF assms(2)[unfolded st]] and g = limiter_bounded[OF assms(3)[unfolded st]]
  have "1 \<le> ?g" "?g \<le> ?a" "?a = max 1 maxActivities" "1 \<le> maxAgents \<Longrightarrow> ?g \<le> maxAgents"
    by (auto simp: effective_limits_def Let_def)
  moreover from this have "int (nat ?g) = ?g" "int (nat ?a) = ?a" by simp_all
  ultimately show ?thesis using a g by (intro conjI impI) linarith+
qed

theorem calls_are_limited_witness:
  "\<exists>la. limiter_step\<^sup>*\<^sup>* (ms_activities (NewWithLimits empty_db [] 2 5)) la \<and> lim_active la = 1 \<and> int (lim_active la) \<le> max 1 2"
proof -
  let ?l = "ms_activities (NewWithLimits empty_db [] 2 5)"
  have l: "?l = newCallLimiter ''activities'' 2" by (simp add: NewWithLimits_def effective_limits_def)
  have "limiter_step ?l (?l\<lparr>lim_waiting := Suc (lim_waiting ?l)\<rparr>)" by (rule limiter_step.enter)
  moreover have "limiter_step (?l\<lparr>lim_waiting := Suc (lim_waiting ?l)\<rparr>)
      (?l\<lparr>lim_tokens := 1, lim_active := 1, lim_waiting := 0\<rparr>)"
    using limiter_step.send[of "?l\<lparr>lim_waiting := Suc (lim_waiting ?l)\<rparr>"] by (simp add: l newCallLimiter_def)
  ultimately have r: "limiter_step\<^sup>*\<^sup>* ?l (?l\<lparr>lim_tokens := 1, lim_active := 1, lim_waiting := 0\<rparr>)" by (meson converse_rtranclp_into_rtranclp r_into_rtranclp)
  from calls_are_limited[OF refl r rtranclp.rtrancl_refl] r show ?thesis by (intro exI[of _ "?l\<lparr>lim_tokens := 1, lim_active := 1, lim_waiting := 0\<rparr>"]) simp
qed

section \<open>Installing\<close>

lemma PutPlugin_row:
  assumes inv: "plugins_inv s" and st: "pr_state r \<noteq> ''active''" and ok: "PutPlugin env s r = Inr s'"
  obtains i where "select_row (ins_at (pr_name r) (pr_version r)) (db_installations s') = Some i" "ins_digest i = pr_digest r"
    "ins_name i = pr_name r" "ins_version i = pr_version r"
proof -
  have inv': "plugins_inv s'" by (rule PutPlugin_inv[OF inv ok st])
  have "\<exists>i \<in> set (db_installations s'). ins_at (pr_name r) (pr_version r) i \<and> ins_digest i = pr_digest r"
  proof (cases "select_row (ins_at (pr_name r) (pr_version r)) (db_installations s)")
    case None
    then have "\<exists>i. db_installations s' = db_installations s @ [i] \<and> ins_at (pr_name r) (pr_version r) i \<and> ins_digest i = pr_digest r"
      using ok by (auto simp: PutPlugin_def)
    then show ?thesis by auto
  next
    case (Some e)
    let ?P = "\<lambda>i. ins_at (pr_name r) (pr_version r) i \<and> ins_contract_digest i = []"
    let ?f = "\<lambda>i :: installation_row. i\<lparr>ins_contract := pr_contract r, ins_contract_digest := pr_contract_digest r\<rparr>"
    have d: "ins_digest e = pr_digest r" and s': "s' = s \<or> s' = s\<lparr>db_installations := update_rows ?P ?f (db_installations s)\<rparr>"
      using ok Some by (auto simp: PutPlugin_def split: if_splits)
    note em = select_row_SomeD[OF Some]
    have "(if ?P e then ?f e else e) \<in> set (update_rows ?P ?f (db_installations s))" using em by (auto simp: update_rows_def)
    then have "e \<in> set (db_installations s') \<or> (if ?P e then ?f e else e) \<in> set (db_installations s')" using s' em by auto
    moreover have "ins_at (pr_name r) (pr_version r) (if ?P e then ?f e else e) \<and> ins_digest (if ?P e then ?f e else e) = pr_digest r"
      using em d by auto
    ultimately show ?thesis using em d by blast
  qed
  then obtain i where i: "i \<in> set (db_installations s')" "ins_at (pr_name r) (pr_version r) i" "ins_digest i = pr_digest r" by blast
  have uniq: "j = i" if "j \<in> set (db_installations s')" "ins_at (pr_name r) (pr_version r) j" for j
  proof (rule inj_onD[of "\<lambda>i. (ins_name i, ins_version i)" "set (db_installations s')"])
    have "distinct (map (\<lambda>i. (ins_name i, ins_version i)) (db_installations s'))" using inv' unfolding plugins_inv_def by (rule conjunct1)
    then show "inj_on (\<lambda>i. (ins_name i, ins_version i)) (set (db_installations s'))" by (simp only: distinct_map)
  qed (use that i in simp_all)
  show ?thesis
  proof (cases "select_row (ins_at (pr_name r) (pr_version r)) (db_installations s')")
    case None
    then show ?thesis using i by (auto simp: select_row_None)
  next
    case (Some j)
    then have "j = i" using uniq select_row_SomeD[OF Some] by simp
    with Some i show ?thesis by (intro that[of i]) simp_all
  qed
qed

lemma map_del_put_fresh: "map_of m k = None \<Longrightarrow> map_of (map_del k (map_put k v m)) = map_of m"
  by auto

text \<open>C23: an installation happens as a whole: on success the bundle was accepted, the plugin it started described itself as the manifest does, the
  version is recorded with the digest of the bundle and its directory exists; on any failure the database is unchanged and so is every
  directory. Either way the probing process is closed and no directory that existed before is replaced.\<close>

theorem install_is_all_or_nothing:
  assumes g: "good_state st" and semver: "\<not> bl_semver (ph_bundle h) []" and e: "Install h bundle st = (x, st')"
  shows "ms_open st' = ms_open st \<and> ms_processes st' = ms_processes st \<and>
    (\<forall>k t. map_of (ms_trees st) k = Some t \<longrightarrow> map_of (ms_trees st') k = Some t) \<and>
    (case x of Inl err \<Rightarrow> ms_db st' = ms_db st \<and> map_of (ms_trees st') = map_of (ms_trees st)
     | Inr r \<Rightarrow> \<exists>m binary. ParseForPlatform (ph_bundle h) bundle (ph_os h) (ph_arch h) = Inr (m, binary, pr_digest r) \<and>
         pr_name r = mf_name m \<and> pr_version r = mf_version m \<and> Plugin (ms_db st') (mf_name m) (mf_version m) = Inr r \<and>
         plugins_inv (ms_db st') \<and> map_of (ms_trees st') (mf_name m, mf_version m) \<noteq> None)"
proof (cases "ParseForPlatform (ph_bundle h) bundle (ph_os h) (ph_arch h)")
  case (Inl err)
  then show ?thesis using e by (auto simp: Install_def)
next
  case (Inr mb)
  obtain m binary dg where mb: "mb = (m, binary, dg)" by (rule prod_cases3)
  note parse = Inr[unfolded mb]
  define sg where "sg = \<lparr>sg_manifest = m, sg_digest = dg, sg_tree = \<lparr>vt_digest = Some (dg @ [CHR 0x0A]), vt_binary = binary\<rparr>\<rparr>"
  have stage: "Stage (ph_bundle h) (ph_os h) (ph_arch h) bundle = Inr sg" by (simp add: Stage_def parse sg_def)
  have v: "Validate_manifest (ph_bundle h) m = Inr ()" using parse by (auto simp: ParseForPlatform_def split: if_splits option.splits)
  have ver: "mf_version m \<noteq> []" using v semver by (auto simp: Validate_manifest_def split: if_splits)
  show ?thesis
  proof (cases "mf_minimum m > 1 \<or> mf_maximum m < 1")
    case True
    then show ?thesis using e by (auto simp: Install_def parse)
  next
    case range: False
    show ?thesis
    proof (cases "\<exists>pf p d st1. Platform_of m (ph_os h) (ph_arch h) = Inr pf \<and> start_process h (mf_name m, ''.install-'') (pf_sha256 pf) st = (Inr (p, d), st1)")
      case False
      then have "(\<exists>err. x = Inl err) \<and> procs_kept st st' \<and> ms_db st' = ms_db st"
        using e range by (auto simp: Install_def parse stage start_process_def Let_def procs_kept_def sg_def split: sum.splits prod.splits)
      then show ?thesis by (auto simp: procs_kept_def)
    next
      case True
      then obtain pf p d st1 where s: "Platform_of m (ph_os h) (ph_arch h) = Inr pf"
        "start_process h (mf_name m, ''.install-'') (pf_sha256 pf) st = (Inr (p, d), st1)" by blast
      let ?st2 = "close_process p st1"
      have k2: "procs_kept st ?st2" using close_started[OF _ s(2)] g by (simp add: good_state_def)
      have db2: "ms_db ?st2 = ms_db st" using start_process_Inr[OF s(2)] by (simp add: close_process_def)
      have t2: "ms_trees ?st2 = ms_trees st" "ms_open ?st2 = ms_open st" "ms_processes ?st2 = ms_processes st" using k2 by (auto simp: procs_kept_def)
      let ?r = "\<lambda>c g. \<lparr>pr_name = mf_name m, pr_version = mf_version m, pr_digest = dg, pr_manifest = marshal_manifest m,
         pr_contract = Some c, pr_contract_digest = g, pr_state = ''installed'', pr_installed = None, pr_active = False\<rparr>"
      show ?thesis
      proof (cases "\<exists>c g pub trees. ds_name d = mf_name m \<and> ds_version d = mf_version m \<and> sameCapabilities (ds_capabilities d) (mf_capabilities m) \<and>
          validated_contract h d = Some (c, g) \<and> Publish sg (ms_trees st) = (Inr pub, trees)")
        case False
        then have "(\<exists>err. x = Inl err) \<and> st' = ?st2"
          using e range s t2 by (auto simp: Install_def parse stage Let_def sg_def split: sum.splits prod.splits option.splits if_splits)
        then show ?thesis using db2 t2 by auto
      next
        case True
        then obtain c g pub trees where q: "ds_name d = mf_name m" "ds_version d = mf_version m" "sameCapabilities (ds_capabilities d) (mf_capabilities m)"
          "validated_contract h d = Some (c, g)" "Publish sg (ms_trees st) = (Inr pub, trees)" by blast
        have fd: "final_directory (sg_manifest sg) = (mf_name m, mf_version m)" by (simp add: sg_def final_directory_def)
        note pubs = Publish_once[OF q(5)]
        show ?thesis
        proof (cases "PutPlugin (env_at h (ms_clock ?st2)) (ms_db st) (?r c g)")
          case (Inl err)
          then have x: "x = Inl err" "st' = ?st2\<lparr>ms_trees := (if pub then map_del (mf_name m, mf_version m) trees else trees)\<rparr>"
            using e range s q t2 db2 fd by (auto simp: Install_def parse stage Let_def sg_def)
          have "map_of (ms_trees st') = map_of (ms_trees st)"
            using x q(5) fd by (cases "map_of (ms_trees st) (mf_name m, mf_version m)")
              (auto simp: Publish_def map_del_put_fresh split: if_splits)
          then show ?thesis using x db2 t2 by auto
        next
          case (Inr s')
          have x: "x = Plugin s' (mf_name m) (mf_version m)" "st' = ?st2\<lparr>ms_db := s', ms_trees := trees\<rparr>"
            using e range s q t2 db2 Inr by (auto simp: Install_def parse stage Let_def sg_def)
          have inv: "plugins_inv (ms_db st)" using g by (simp add: good_state_def)
          obtain i where i: "select_row (ins_at (mf_name m) (mf_version m)) (db_installations s') = Some i" "ins_digest i = dg"
            "ins_name i = mf_name m" "ins_version i = mf_version m" using PutPlugin_row[OF inv _ Inr] by auto
          have "plugins_inv s'" using PutPlugin_inv[OF inv Inr] by simp
          moreover have "Plugin s' (mf_name m) (mf_version m) = Inr (plugin_of s' i)" using i ver by (simp add: Plugin_def)
          moreover have "map_of trees (mf_name m, mf_version m) \<noteq> None" using pubs(2)[OF refl] fd by auto
          ultimately show ?thesis using x i pubs(1) parse t2 by (auto simp: plugin_of_def)
        qed
      qed
    qed
  qed
qed

section \<open>A sample host\<close>

definition sample_description :: description where
  "sample_description = sample_described\<lparr>ds_capabilities := [''task.git.clone''], ds_actions := [sample_clone]\<rparr>"

definition sample_host :: plugin_host where
  "sample_host = \<lparr>ph_bundle = sample_bundle_lib, ph_sdk = sample_sdk\<lparr>sl_sha256 := (\<lambda>_. ''c1'')\<rparr>, ph_os = ''linux'', ph_arch = ''amd64'', ph_start = (\<lambda>_ _ _. Inr sample_description),
     ph_exited = (\<lambda>_ _. False), ph_health = (\<lambda>_ _. Some True), ph_deadline = (\<lambda>_. None), ph_store = Samples.sample_env, ph_now = (\<lambda>_. 5)\<rparr>"

lemma sample_validated: "\<exists>c. validated_contract sample_host sample_description = Some (c, ''c1'')"
proof -
  have "map_option snd (validated_contract sample_host sample_description) = Some ''c1''" by code_simp
  then show ?thesis by auto
qed

definition sample_record :: plugin_record where
  "sample_record = \<lparr>pr_name = ''git'', pr_version = ''1.0.0'', pr_digest = ''d1'', pr_manifest = marshal_manifest sample_manifest,
     pr_contract = Some (JObj []), pr_contract_digest = ''c1'', pr_state = ''installed'', pr_installed = None, pr_active = False\<rparr>"

definition sample_installed :: db where
  "sample_installed = run_requests exec_plugin [(Samples.sample_env, ReqPutPlugin sample_record)] empty_db"

definition sample_manager :: manager_state where
  "sample_manager = NewWithLimits sample_installed [] 4 2"

lemma sample_good: "good_state sample_manager"
proof -
  have "list_all plugin_request_ok [(Samples.sample_env, ReqPutPlugin sample_record)]" by code_simp
  from plugin_versions.inv_run[OF empty_plugins_inv this] have "plugins_inv sample_installed" by (simp only: sample_installed_def)
  then show ?thesis by (simp add: good_state_def fresh_ids_def sample_manager_def NewWithLimits_def split: prod.splits)
qed

lemma sample_enabled: "\<exists>st. Enable sample_host ''git'' ''1.0.0'' sample_manager = (Inr (), st)"
proof -
  have p: "Plugin (ms_db sample_manager) ''git'' ''1.0.0'' = Inr (sample_record\<lparr>pr_installed := Some 5\<rparr>)" by code_simp
  let ?r = "sample_record\<lparr>pr_installed := Some 5\<rparr>"
  have a: "adopt_contract sample_host ?r sample_manager = (?r, False, sample_manager)"
    by (simp add: adopt_contract_def legacy_contract_def sample_record_def)
  have u: "unmarshal_manifest (pr_manifest ?r) = Some sample_manifest"
    by (simp add: sample_record_def unmarshal_marshal_manifest) (simp add: sample_manifest_def unmarshal_marshal_manifest)
  have sha: "platform_sha sample_host ?r = Inr (sample_manifest, replicate 64 (CHR ''0''))"
    unfolding platform_sha_def u by code_simp
  have c: "check_description ?r sample_manifest sample_description = Inr ()" by code_simp
  obtain g where g: "validated_contract sample_host sample_description = Some (g, ''c1'')" using sample_validated by blast
  have ph: "ph_start sample_host n k v = Inr sample_description" for n k v by (simp add: sample_host_def)
  have n: "ms_next sample_manager = 0" "pr_contract_digest ?r = ''c1''"
    by (simp_all add: sample_manager_def NewWithLimits_def sample_record_def split: prod.splits)
  have s: "\<exists>st1. start_checked sample_host ?r False sample_manager = (Inr 0, st1) \<and> ms_db st1 = ms_db sample_manager"
    using c n by (simp add: start_checked_def sha start_process_def Let_def ph g)
  then obtain st1 where s1: "start_checked sample_host ?r False sample_manager = (Inr 0, st1)" "ms_db st1 = ms_db sample_manager" by blast
  have l: "launch sample_host ?r sample_manager = (Inr 0, st1)"
    by (simp add: launch_def a s1(1) legacy_contract_def) (simp add: sample_record_def)
  have e: "exists_row (ins_at ''git'' ''1.0.0'') (db_installations (ms_db sample_manager))" by code_simp
  have h: "ph_health sample_host n q = Some True" for n q by (simp add: sample_host_def)
  show ?thesis by (simp add: Enable_def p l h ActivatePlugin_def Let_def s1(2) e)
qed

theorem enable_switches_or_leaves_witness:
  "\<exists>st p. Enable sample_host ''git'' ''1.0.0'' sample_manager = (Inr (), st) \<and> is_active (ms_db st) ''git'' ''1.0.0'' \<and>
     map_of (ms_processes st) ''git@1.0.0'' = Some p"
proof -
  obtain st where e: "Enable sample_host ''git'' ''1.0.0'' sample_manager = (Inr (), st)" using sample_enabled by blast
  have d: "distinct (map fst (ms_processes sample_manager))" "snd ` set (ms_processes sample_manager) \<subseteq> set (ms_open sample_manager)"
    by (simp_all add: sample_manager_def NewWithLimits_def split: prod.splits)
  have k: "installationKey ''git'' ''1.0.0'' = ''git@1.0.0''" by (simp add: installationKey_def)
  from enable_switches_or_leaves[OF sample_good d e] e k show ?thesis by auto
qed

lemma sample_install: "\<exists>r st. Install sample_host ''x'' (NewWithLimits empty_db [] 4 2) = (Inr r, st)"
proof -
  have p: "ParseForPlatform (ph_bundle sample_host) ''x'' (ph_os sample_host) (ph_arch sample_host) = Inr (sample_manifest, ''ELF'', replicate 64 (CHR ''0''))"
    using sample_parsed by (simp add: sample_host_def)
  let ?sg = "\<lparr>sg_manifest = sample_manifest, sg_digest = replicate 64 (CHR ''0''),
     sg_tree = \<lparr>vt_digest = Some (replicate 64 (CHR ''0'') @ [CHR 0x0A]), vt_binary = ''ELF''\<rparr>\<rparr>"
  have s: "Stage (ph_bundle sample_host) (ph_os sample_host) (ph_arch sample_host) ''x'' = Inr ?sg" by (simp add: Stage_def p)
  have pf: "Platform_of sample_manifest (ph_os sample_host) (ph_arch sample_host) = Inr (hd (mf_platforms sample_manifest))" by code_simp
  have q: "Publish ?sg [] = (Inr True, [((''git'', ''1.0.0''), sg_tree ?sg)])" by (simp add: Publish_def final_directory_def map_put_def sample_manifest_def)
  obtain g where g: "validated_contract sample_host sample_description = Some (g, ''c1'')" using sample_validated by blast
  have d: "ds_name sample_description = mf_name sample_manifest" "ds_version sample_description = mf_version sample_manifest"
    "sameCapabilities (ds_capabilities sample_description) (mf_capabilities sample_manifest)" 
    "\<not> 1 < mf_minimum sample_manifest" "\<not> mf_maximum sample_manifest < 1" by code_simp+
  have st: "ph_start sample_host n k v = Inr sample_description" for n k v by (simp add: sample_host_def)
  have m: "mf_name sample_manifest = ''git''" "mf_version sample_manifest = ''1.0.0''" by (simp_all add: sample_manifest_def)
  have e: "ms_db (NewWithLimits empty_db [] 4 2) = empty_db" "ms_trees (NewWithLimits empty_db [] 4 2) = []"
    by (simp_all add: NewWithLimits_def split: prod.splits)
  have ei: "db_installations empty_db = []" "db_activations empty_db = []" by (simp_all add: empty_db_def)
  show ?thesis
    using d q by (simp add: Install_def p s pf start_process_def st Let_def g close_process_def e m ei PutPlugin_def Plugin_def exists_row_iff)
qed

theorem install_is_all_or_nothing_witness:
  "\<exists>r st. Install sample_host ''x'' (NewWithLimits empty_db [] 4 2) = (Inr r, st) \<and> pr_name r = ''git'' \<and>
     map_of (ms_trees st) (''git'', ''1.0.0'') \<noteq> None"
proof -
  obtain r st where i: "Install sample_host ''x'' (NewWithLimits empty_db [] 4 2) = (Inr r, st)" using sample_install by blast
  have g: "good_state (NewWithLimits empty_db [] 4 2)"
    using empty_plugins_inv by (simp add: good_state_def fresh_ids_def NewWithLimits_def split: prod.splits)
  have v: "\<not> bl_semver (ph_bundle sample_host) []" by (simp add: sample_host_def sample_bundle_lib_def)
  have p: "ParseForPlatform (ph_bundle sample_host) ''x'' (ph_os sample_host) (ph_arch sample_host) = Inr (sample_manifest, ''ELF'', replicate 64 (CHR ''0''))"
    using sample_parsed by (simp add: sample_host_def)
  have m: "mf_name sample_manifest = ''git''" "mf_version sample_manifest = ''1.0.0''" by (simp_all add: sample_manifest_def)
  from install_is_all_or_nothing[OF g v i] p m i show ?thesis by auto
qed

end
