(* ===== verification/References.thy ===== *)
theory References
  imports Trigger_Controller
begin

text \<open>
  The dependencies of desired resources, \<open>internal/references/resolver.go\<close>. The lookup is a function (the \<open>Get\<close> of the store),
  absent when the resolver has none; the validator of provider contracts is a parameter. \<open>sort.Slice\<close> keeps the order of entries with equal
  keys on the few entries of a resource (insertion sort up to twelve), and so does \<^const>\<open>sort_key\<close>.

  The theorems: the diagnostics of a Trigger, a Repository or an AgentProfile are empty exactly when every resource it names can be used, they are
  reported in the order of path and code, and the Ready condition is true exactly when none of them is an error.
\<close>

type_synonym resource_lookup = "string \<Rightarrow> string \<Rightarrow> string \<Rightarrow> (store_error, document) result"
type_synonym provider_validator = "string \<Rightarrow> string \<Rightarrow> string \<Rightarrow> (string \<times> json) list \<Rightarrow> diagnostic list"

definition Supports :: "string \<Rightarrow> bool" where
  "Supports kind \<longleftrightarrow> kind \<in> {''Trigger'', ''Repository'', ''AgentProfile''}"

definition reference_diagnostic :: "string \<Rightarrow> string \<Rightarrow> string \<Rightarrow> diagnostic" where
  "reference_diagnostic path code message = \<lparr>diag_severity = [], diag_path = path, diag_code = code, diag_message = message\<rparr>"

definition require_reference :: "resource_lookup option \<Rightarrow> string \<Rightarrow> string \<Rightarrow> string \<Rightarrow> string \<Rightarrow> diagnostic list" where
  "require_reference resources namespace kind name path =
     (if trim_space name = [] then [reference_diagnostic path ''invalid_reference'' (kind @ '' reference must contain a resource name'')]
      else (case resources of
          None \<Rightarrow> [reference_diagnostic path ''reference_unavailable'' ''resource reference validation is unavailable'']
        | Some get \<Rightarrow> (case get kind namespace name of
            Inr _ \<Rightarrow> []
          | Inl e \<Rightarrow>
              if e = ErrNotFound then [reference_diagnostic path ''reference_not_found'' (kind @ '' '' @ name @ '' is not available in namespace '' @ namespace)]
              else [reference_diagnostic path ''reference_unavailable'' (kind @ '' reference state is temporarily unavailable'')])))"

definition signalTarget :: "resource_lib \<Rightarrow> resource_lookup option \<Rightarrow> string \<Rightarrow> string \<Rightarrow> string \<Rightarrow> diagnostic list" where
  "signalTarget lib resources namespace flowName node =
     (case resources of
        None \<Rightarrow> []
      | Some get \<Rightarrow>
          if trim_space flowName = [] then []
          else (case get ''Flow'' namespace flowName of
              Inl e \<Rightarrow>
                if e = ErrNotFound then []
                else [reference_diagnostic ''spec.delivery.node'' ''reference_unavailable'' ''Flow signal target state is temporarily unavailable'']
            | Inr doc \<Rightarrow> (case DecodeFlow lib (doc_JSON doc) of
                Inl _ \<Rightarrow> [reference_diagnostic ''spec.delivery.node'' ''invalid_reference'' ''referenced Flow cannot be decoded'']
              | Inr (_, spec) \<Rightarrow> (case List.find (\<lambda>n. node_id n = node) (fs_nodes spec) of
                  Some n \<Rightarrow> if node_uses n = ''core.event'' then []
                    else [reference_diagnostic ''spec.delivery.node'' ''invalid_reference'' (''Flow node '' @ node @ '' must use core.event'')]
                | None \<Rightarrow> [reference_diagnostic ''spec.delivery.node'' ''reference_not_found''
                    (''Flow node '' @ node @ '' is not available in Flow '' @ flowName)]))))"

text \<open>\<open>strings.SplitN(binding, "=", 2)\<close>.\<close>

definition secretName :: "string \<Rightarrow> string" where
  "secretName binding = (if CHR ''='' \<in> set binding then trim_space (tl (dropWhile (\<lambda>c. c \<noteq> CHR ''='') binding)) else trim_space binding)"

definition provider_diagnostics :: "provider_validator option \<Rightarrow> string \<Rightarrow> provider_trigger \<Rightarrow> diagnostic list" where
  "provider_diagnostics providers namespace p =
     (case providers of
        None \<Rightarrow> [reference_diagnostic ''spec.provider.plugin'' ''provider_unavailable'' ''provider validation is unavailable'']
      | Some validate \<Rightarrow> map (\<lambda>d. d\<lparr>diag_path := ''spec.provider.'' @ trim_prefix (diag_path d) ''.''\<rparr>)
          (validate namespace (prov_plugin p) (prov_source p) (prov_config p)))"

definition trigger_diagnostics :: "resource_lib \<Rightarrow> resource_lookup option \<Rightarrow> provider_validator option \<Rightarrow> string \<Rightarrow> trigger_spec \<Rightarrow> diagnostic list" where
  "trigger_diagnostics lib resources providers namespace t =
     require_reference resources namespace ''Flow'' (trg_flow t) ''spec.flow''
     @ (case trg_delivery t of Some d \<Rightarrow> if dlv_mode d = ''signal'' then signalTarget lib resources namespace (trg_flow t) (dlv_node d) else [] | None \<Rightarrow> [])
     @ (case trg_webhook t of Some w \<Rightarrow> require_reference resources namespace ''SecretRef'' (hook_bearerSecretRef w) ''spec.webhook.bearerSecretRef'' | None \<Rightarrow> [])
     @ (case trg_provider t of Some p \<Rightarrow> provider_diagnostics providers namespace p | None \<Rightarrow> [])"

definition secret_diagnostics :: "resource_lookup option \<Rightarrow> string \<Rightarrow> nat \<times> string \<Rightarrow> diagnostic list" where
  "secret_diagnostics resources namespace = (\<lambda>(index, binding).
     let name = secretName binding; path = ''spec.secretRefs['' @ itoa index @ '']'' in
     if name = [] then [reference_diagnostic path ''invalid_reference'' ''SecretRef binding must contain a resource name'']
     else require_reference resources namespace ''SecretRef'' name path)"

definition resolve_diagnostics :: "resource_lib \<Rightarrow> resource_lookup option \<Rightarrow> provider_validator option \<Rightarrow> document \<Rightarrow> diagnostic list" where
  "resolve_diagnostics lib resources providers doc =
     (let namespace = default_ns (meta_namespace (doc_metadata doc));
          sorted_by = sort_key (\<lambda>d. (diag_path d, diag_code d)) in
      if doc_kind doc = ''Trigger'' then
        (case DecodeTrigger lib (doc_JSON doc) of
           Inl _ \<Rightarrow> [reference_diagnostic ''spec'' ''invalid'' ''Trigger cannot be decoded'']
         | Inr (_, t) \<Rightarrow> sorted_by (trigger_diagnostics lib resources providers namespace t))
      else if doc_kind doc = ''Repository'' then
        (case DecodeRepository lib (doc_JSON doc) of
           Inl _ \<Rightarrow> [reference_diagnostic ''spec'' ''invalid'' ''Repository cannot be decoded'']
         | Inr (_, r) \<Rightarrow> sorted_by (if repo_authSecretRef r \<noteq> [] then require_reference resources namespace ''SecretRef'' (repo_authSecretRef r) ''spec.authSecretRef'' else []))
      else if doc_kind doc = ''AgentProfile'' then
        (case DecodeAgentProfile lib (doc_JSON doc) of
           Inl _ \<Rightarrow> [reference_diagnostic ''spec'' ''invalid'' ''AgentProfile cannot be decoded'']
         | Inr (_, a) \<Rightarrow> sorted_by (concat (map (secret_diagnostics resources namespace) (enumerate 0 (agent_secretRefs a)))))
      else [])"

section \<open>Status\<close>

record ready_status =
  rs_status :: string
  rs_reason :: string
  rs_message :: string
  rs_observedGeneration :: nat
  rs_diagnostics :: "(string \<times> string \<times> string) list"

definition resolve_status :: "document \<Rightarrow> diagnostic list \<Rightarrow> ready_status" where
  "resolve_status doc ds =
     (let (ready, reason, message) = (case List.find IsError ds of
          Some d \<Rightarrow> (''False'', if diag_code d = ''reference_not_found'' then ''MissingReference''
             else if diag_code d = ''provider_unavailable'' then ''ProviderUnavailable'' else ''ValidationFailed'', diag_message d)
        | None \<Rightarrow> (case ds of d # _ \<Rightarrow> (''True'', ''ValidationWarnings'', diag_message d)
            | [] \<Rightarrow> (''True'', ''ReferencesResolved'', ''all required references are available'')))
      in \<lparr>rs_status = ready, rs_reason = reason, rs_message = message, rs_observedGeneration = meta_generation (doc_metadata doc),
          rs_diagnostics = map (\<lambda>d. (diag_path d, diag_code d, diag_message d)) ds\<rparr>)"

section \<open>When a Trigger is ready\<close>

definition usable :: "resource_lookup \<Rightarrow> string \<Rightarrow> string \<Rightarrow> string \<Rightarrow> bool" where
  "usable get namespace kind name \<longleftrightarrow> trim_space name \<noteq> [] \<and> (\<exists>doc. get kind namespace name = Inr doc)"

definition event_node :: "resource_lib \<Rightarrow> resource_lookup \<Rightarrow> string \<Rightarrow> string \<Rightarrow> string \<Rightarrow> bool" where
  "event_node lib get namespace flowName node \<longleftrightarrow> (\<exists>doc meta spec n. get ''Flow'' namespace flowName = Inr doc \<and> DecodeFlow lib (doc_JSON doc) = Inr (meta, spec) \<and>
     List.find (\<lambda>x. node_id x = node) (fs_nodes spec) = Some n \<and> node_uses n = ''core.event'')"

lemma require_usable: "require_reference (Some get) namespace kind name path = [] \<longleftrightarrow> usable get namespace kind name"
  by (cases "get kind namespace name") (auto simp: require_reference_def usable_def)

lemma signal_event_node:
  assumes "usable get namespace ''Flow'' flowName"
  shows "signalTarget lib (Some get) namespace flowName node = [] \<longleftrightarrow> event_node lib get namespace flowName node"
proof -
  obtain doc where d: "get ''Flow'' namespace flowName = Inr doc" "trim_space flowName \<noteq> []" using assms by (auto simp: usable_def)
  show ?thesis
    by (cases "DecodeFlow lib (doc_JSON doc)") (auto simp: signalTarget_def event_node_def d split: option.splits if_splits)
qed

lemma status_ready: "rs_status (resolve_status doc ds) = ''True'' \<longleftrightarrow> \<not> list_ex IsError ds"
proof (cases "List.find IsError ds")
  case None
  then have "\<not> list_ex IsError ds" by (auto simp: find_None_iff list_ex_iff)
  then show ?thesis using None by (simp add: resolve_status_def split: list.splits)
next
  case (Some d)
  then have "list_ex IsError ds" by (auto simp: find_Some_iff list_ex_iff)
  then show ?thesis using Some by (simp add: resolve_status_def)
qed

lemma sort_key_empty: "sort_key k xs = [] \<longleftrightarrow> xs = []"
  using length_sort[of k xs] by (metis length_0_conv)

text \<open>A Trigger has no diagnostics exactly when its Flow exists, the node it signals is an event node of that Flow, the secret of its
  webhook exists and its provider accepts the configuration; its diagnostics are reported in the order of path and code, and
  its Ready condition is true exactly when none of them is an error.\<close>

theorem trigger_references_resolved:
  assumes "doc_kind doc = ''Trigger''" "DecodeTrigger lib (doc_JSON doc) = Inr (meta, t)" "ns = default_ns (meta_namespace (doc_metadata doc))"
    and "ds = resolve_diagnostics lib (Some get) (Some validate) doc"
  shows "(ds = [] \<longleftrightarrow> usable get ns ''Flow'' (trg_flow t) \<and>
      (\<forall>d. trg_delivery t = Some d \<longrightarrow> dlv_mode d = ''signal'' \<longrightarrow> event_node lib get ns (trg_flow t) (dlv_node d)) \<and>
      (\<forall>w. trg_webhook t = Some w \<longrightarrow> usable get ns ''SecretRef'' (hook_bearerSecretRef w)) \<and>
      (\<forall>p. trg_provider t = Some p \<longrightarrow> validate ns (prov_plugin p) (prov_source p) (prov_config p) = [])) \<and>
    sorted (map (\<lambda>d. (diag_path d, diag_code d)) ds) \<and>
    (rs_status (resolve_status doc ds) = ''True'' \<longleftrightarrow> \<not> list_ex IsError ds)"
proof -
  have ds: "ds = sort_key (\<lambda>d. (diag_path d, diag_code d)) (trigger_diagnostics lib (Some get) (Some validate) ns t)"
    using assms by (simp add: resolve_diagnostics_def)
  have "ds = [] \<longleftrightarrow> usable get ns ''Flow'' (trg_flow t) \<and>
      (\<forall>d. trg_delivery t = Some d \<longrightarrow> dlv_mode d = ''signal'' \<longrightarrow> event_node lib get ns (trg_flow t) (dlv_node d)) \<and>
      (\<forall>w. trg_webhook t = Some w \<longrightarrow> usable get ns ''SecretRef'' (hook_bearerSecretRef w)) \<and>
      (\<forall>p. trg_provider t = Some p \<longrightarrow> validate ns (prov_plugin p) (prov_source p) (prov_config p) = [])"
    unfolding ds sort_key_empty trigger_diagnostics_def
    by (auto simp: require_usable signal_event_node provider_diagnostics_def split: option.splits)
  then show ?thesis using status_ready by (simp add: ds)
qed

text \<open>A Trigger whose Flow and secret are found.\<close>

theorem trigger_references_resolved_witness:
  "resolve_diagnostics Samples.sample_lib (Some (\<lambda>kind ns name. Inr sample_flow)) (Some (\<lambda>_ _ _ _. [])) sample_trigger = [] \<and>
   rs_status (resolve_status sample_trigger []) = ''True''"
proof -
  let ?get = "\<lambda>kind ns name. Inr sample_flow :: (store_error, document) result"
  have k: "doc_kind sample_trigger = ''Trigger''" by (simp add: sample_trigger_def sample_doc_def)
  obtain t where t: "doc_spec sample_trigger = STrigger t" "DecodeTrigger Samples.sample_lib (doc_JSON sample_trigger) = Inr (doc_metadata sample_trigger, t)"
    by (rule DecodeTrigger_JSON[OF sample_trigger_valid k])
  then have s: "t = sample_trigger_spec" by (simp add: sample_trigger_def sample_doc_def)
  have n: "trim_space ''build'' \<noteq> []" "trim_space ''token'' \<noteq> []" by code_simp+
  then have "usable ?get ns ''Flow'' (trg_flow t)" "\<forall>w. trg_webhook t = Some w \<longrightarrow> usable ?get ns ''SecretRef'' (hook_bearerSecretRef w)"
    "trg_delivery t = None" "trg_provider t = None" for ns
    by (simp_all add: s sample_trigger_spec_def usable_def)
  then show ?thesis
    using trigger_references_resolved[OF k t(2) refl refl, of ?get "\<lambda>_ _ _ _. []"] by auto
qed

end
