(* ===== verification/Plugin_Controller.thy ===== *)
theory Plugin_Controller
  imports Plugin_Runtime References
begin

text \<open>
  The reconciler of \<open>PluginInstallation\<close> resources, \<open>internal/plugincontroller/controller.go\<close>: it adopts the bundles that are
  installed, makes the activations follow the desired state, and writes what it observed into the status of each resource.

  The controller owns its health tracker and the keys of the issues it reported; the database and the processes are those of the
  runtime (\<^typ>\<open>manager_state\<close>). \<open>controller_env\<close> gives the time and the fresh identifier of each database call and the order in
  which a pass ranges over the map of groups. Letters and digits are the ASCII ones; a cancelled context is not modelled.
\<close>

section \<open>Names and codes\<close>

definition is_upper :: "char \<Rightarrow> bool" where
  "is_upper c \<longleftrightarrow> 65 \<le> (of_char c :: nat) \<and> (of_char c :: nat) \<le> 90"

definition to_upper :: "char \<Rightarrow> char" where
  "to_upper c = (if is_lower c then char_of ((of_char c :: nat) - 32) else c)"

definition code_char :: "char \<Rightarrow> string" where
  "code_char c = (if is_upper c then [CHR ''_'', to_lower c] else [to_lower c])"

definition reasonCode :: "string \<Rightarrow> string" where
  "reasonCode reason = (case reason of [] \<Rightarrow> [] | c # cs \<Rightarrow> to_lower c # concat (map code_char cs))"

definition title_part :: "string \<Rightarrow> string" where
  "title_part p = (case p of [] \<Rightarrow> [] | c # cs \<Rightarrow> to_upper c # cs)"

definition reasonTitle :: "string \<Rightarrow> string" where
  "reasonTitle code = concat (map title_part (split_on (CHR ''_'') code))"

definition trim_dash :: "string \<Rightarrow> string" where
  "trim_dash s = rev (dropWhile (\<lambda>c. c = CHR ''-'') (rev (dropWhile (\<lambda>c. c = CHR ''-'') s)))"

fun sanitize_loop :: "string \<Rightarrow> bool \<Rightarrow> string \<Rightarrow> string" where
  "sanitize_loop built lastDash [] = built"
| "sanitize_loop built lastDash (c # cs) =
     (if dns_char c \<or> is_upper c then sanitize_loop (built @ [c]) False cs
      else if \<not> lastDash \<and> built \<noteq> [] then sanitize_loop (built @ ''-'') True cs
      else sanitize_loop built lastDash cs)"

definition sanitizeLabel :: "string \<Rightarrow> string" where
  "sanitizeLabel value = trim_dash (sanitize_loop [] False (map to_lower value))"

definition ResourceName :: "plugin_record \<Rightarrow> string" where
  "ResourceName r =
     (let digest = take 10 (map to_lower (pr_digest r));
          base = (let b = sanitizeLabel (pr_name r @ ''-'' @ pr_version r) in if b = [] then ''plugin'' else b);
          suffix = (if digest = [] then [] else ''-'' @ digest);
          maximumBase = (if 63 - int (length suffix) < 1 then 1 else 63 - length suffix);
          base1 = (if length base > maximumBase then trim_dash (take maximumBase base) else base);
          base2 = (if base1 = [] then ''p'' else base1)
      in base2 @ suffix)"

section \<open>Installations\<close>

record installation =
  in_meta :: object_meta
  in_spec :: plugin_spec
  in_status :: "(string \<times> json) list"

record controller_env =
  ce_store :: store_env
  ce_now :: "nat \<Rightarrow> time"
  ce_uuid :: "nat \<Rightarrow> string"
  ce_order :: "nat \<Rightarrow> string list \<Rightarrow> string list"

definition ce_lib :: "controller_env \<Rightarrow> resource_lib" where
  "ce_lib ce = env_lib (ce_store ce)"

definition ce_at :: "controller_env \<Rightarrow> nat \<Rightarrow> store_env" where
  "ce_at ce n = (ce_store ce)\<lparr>env_now := ce_now ce n\<rparr>"

definition decode_installation :: "resource_lib \<Rightarrow> document \<Rightarrow> (store_error, installation) result" where
  "decode_installation lib d = (case DecodePluginInstallation lib (doc_JSON d) of Inl e \<Rightarrow> Inl (ErrText e)
     | Inr (m, p) \<Rightarrow> Inr \<lparr>in_meta = m, in_spec = p, in_status = rv_status (doc_JSON d)\<rparr>)"

text \<open>\<open>json.Marshal\<close> of an installation and \<open>DecodeStrict\<close> of the bytes.\<close>

definition installation_document :: "resource_lib \<Rightarrow> installation \<Rightarrow> (store_error, document) result" where
  "installation_document lib i = map_err ErrText
     (decode_value lib \<lparr>rv_meta = in_meta i, rv_spec = SPluginInstallation (in_spec i), rv_status = in_status i\<rparr>)"

fun decode_installations :: "resource_lib \<Rightarrow> document list \<Rightarrow> (store_error, installation list) result" where
  "decode_installations lib [] = Inr []"
| "decode_installations lib (d # ds) = bind_res (decode_installation lib d) (\<lambda>i. bind_res (decode_installations lib ds) (\<lambda>is. Inr (i # is)))"

definition installation_key :: "installation \<Rightarrow> string \<times> string \<times> string \<times> string" where
  "installation_key i = (plg_plugin (in_spec i), plg_version (in_spec i), meta_namespace (in_meta i), meta_name (in_meta i))"

definition installations :: "resource_lib \<Rightarrow> db \<Rightarrow> (store_error, installation list) result" where
  "installations lib s = bind_res (ListResources lib s ''PluginInstallation'' [] 1000) (\<lambda>(docs, revision).
     bind_res (decode_installations lib docs) (\<lambda>is. Inr (sort_key installation_key is)))"

definition in_enabled :: "installation \<Rightarrow> bool" where
  "in_enabled i \<longleftrightarrow> plg_enabled (in_spec i) = Some True"

definition group_of :: "installation list \<Rightarrow> string \<Rightarrow> installation list" where
  "group_of is plugin = filter (\<lambda>i. plg_plugin (in_spec i) = plugin) is"

definition group_names :: "installation list \<Rightarrow> string list" where
  "group_names is = remdups (map (\<lambda>i. plg_plugin (in_spec i)) is)"

definition enabledInstallations :: "installation list \<Rightarrow> installation list" where
  "enabledInstallations is = filter in_enabled is"

text \<open>\<open>indexRecords\<close>: a later record replaces an earlier one with the same key.\<close>

definition record_key :: "plugin_record \<Rightarrow> string" where
  "record_key r = installationKey (pr_name r) (pr_version r)"

definition index_versions :: "plugin_record list \<Rightarrow> string \<Rightarrow> plugin_record option" where
  "index_versions rs k = select_row (\<lambda>r. record_key r = k) (rev rs)"

definition index_active :: "plugin_record list \<Rightarrow> string \<Rightarrow> plugin_record option" where
  "index_active rs name = select_row (\<lambda>r. pr_active r \<and> pr_name r = name) (rev rs)"

definition spec_key :: "installation \<Rightarrow> string" where
  "spec_key i = installationKey (plg_plugin (in_spec i)) (plg_version (in_spec i))"

definition exactRecord :: "installation \<Rightarrow> plugin_record list \<Rightarrow> plugin_record option" where
  "exactRecord i rs = (case index_versions rs (spec_key i) of None \<Rightarrow> None
     | Some r \<Rightarrow> if pr_digest r = plg_digest (in_spec i) then Some r else None)"

definition incompatible :: "plugin_record \<Rightarrow> bool" where
  "incompatible r \<longleftrightarrow> (case unmarshal_manifest (pr_manifest r) of None \<Rightarrow> True | Some m \<Rightarrow> mf_minimum m > 1 \<or> mf_maximum m < 1)"

section \<open>Adopting bundles\<close>

definition ct_apply :: "controller_env \<Rightarrow> document \<Rightarrow> apply_options \<Rightarrow> manager_state \<Rightarrow> (store_error, document) result \<times> manager_state" where
  "ct_apply ce doc opts st =
     (case Apply (ce_at ce (ms_clock st)) (ce_uuid ce (ms_clock st)) [] (ms_db st) doc opts of
        Inl e \<Rightarrow> (Inl e, tick st)
      | Inr (d, s') \<Rightarrow> (Inr d, tick (st\<lparr>ms_db := s'\<rparr>)))"

fun find_projection :: "resource_lib \<Rightarrow> plugin_record \<Rightarrow> document list \<Rightarrow> (store_error, document option) result" where
  "find_projection lib r [] = Inr None"
| "find_projection lib r (d # ds) = bind_res (decode_installation lib d) (\<lambda>i.
     if plg_plugin (in_spec i) = pr_name r \<and> plg_version (in_spec i) = pr_version r then Inr (Some d) else find_projection lib r ds)"

definition projection_of :: "plugin_record \<Rightarrow> installation" where
  "projection_of r = \<lparr>in_meta = \<lparr>meta_name = ResourceName r, meta_namespace = DefaultNamespace, meta_uid = [], meta_resourceVersion = 0,
       meta_generation = 0, meta_labels = []\<rparr>,
     in_spec = \<lparr>plg_plugin = pr_name r, plg_version = pr_version r, plg_digest = pr_digest r, plg_enabled = Some (pr_active r)\<rparr>, in_status = []\<rparr>"

definition ensureProjection :: "controller_env \<Rightarrow> plugin_record \<Rightarrow> manager_state \<Rightarrow> (store_error, document) result \<times> manager_state" where
  "ensureProjection ce r st =
     (case ListResources (ce_lib ce) (ms_db st) ''PluginInstallation'' [] 1000 of Inl e \<Rightarrow> (Inl e, st)
      | Inr (docs, revision) \<Rightarrow> (case find_projection (ce_lib ce) r docs of Inl e \<Rightarrow> (Inl e, st)
        | Inr (Some d) \<Rightarrow> (Inr d, st)
        | Inr None \<Rightarrow> (case installation_document (ce_lib ce) (projection_of r) of Inl e \<Rightarrow> (Inl e, st)
          | Inr doc \<Rightarrow> ct_apply ce doc \<lparr>opt_expectedResourceVersion = 0, opt_requestID = ''adopt-plugin-'' @ pr_name r @ ''-'' @ pr_version r,
              opt_actor = ''plugin-controller'', opt_context = []\<rparr> st)))"

fun ensureProjections :: "controller_env \<Rightarrow> plugin_record list \<Rightarrow> manager_state \<Rightarrow> store_error option \<times> manager_state" where
  "ensureProjections ce [] st = (None, st)"
| "ensureProjections ce (r # rs) st =
     (case ensureProjection ce r st of (Inl e, st1) \<Rightarrow> (Some e, st1) | (Inr d, st1) \<Rightarrow> ensureProjections ce rs st1)"

section \<open>Activations\<close>

record status_failure =
  sf_code :: string
  sf_message :: string

type_synonym failures = "(string \<times> status_failure) list"

definition set_failure :: "string \<Rightarrow> string \<Rightarrow> string \<Rightarrow> failures \<Rightarrow> failures" where
  "set_failure plugin code message fs = map_put plugin \<lparr>sf_code = code, sf_message = message\<rparr> fs"

text \<open>One turn of the loop over the groups.\<close>

definition activate_group :: "runtime \<Rightarrow> plugin_record list \<Rightarrow> string \<Rightarrow> installation list \<Rightarrow> failures \<times> manager_state \<Rightarrow> failures \<times> manager_state" where
  "activate_group rt records plugin gr fst_st = (case fst_st of (fs, st) \<Rightarrow>
     (case enabledInstallations gr of
        [] \<Rightarrow> if index_active records plugin = None then (fs, st)
          else (case rt_Disable rt plugin st of
              (Inr _, st1) \<Rightarrow> (fs, st1)
            | (Inl e, st1) \<Rightarrow> (if e = ErrNotFound then fs
                else set_failure plugin ''disable_failed'' ''plugin deactivation failed; inspect daemon logs'' fs, st1))
      | [target] \<Rightarrow> (case exactRecord target records of None \<Rightarrow> (fs, st)
          | Some r \<Rightarrow>
              if incompatible r then (fs, st)
              else if (case index_active records plugin of None \<Rightarrow> True
                | Some a \<Rightarrow> pr_version a \<noteq> pr_version r \<or> pr_digest a \<noteq> pr_digest r)
              then (case rt_Enable rt (pr_name r) (pr_version r) st of
                  (Inr _, st1) \<Rightarrow> (fs, st1)
                | (Inl e, st1) \<Rightarrow> (set_failure plugin ''activation_failed'' ''plugin activation failed; inspect daemon logs'' fs, st1))
              else (fs, st))
      | _ \<Rightarrow> (set_failure plugin ''multiple_enabled_versions'' ''multiple plugin versions are enabled'' fs, st)))"

fun activate_groups :: "runtime \<Rightarrow> plugin_record list \<Rightarrow> installation list \<Rightarrow> string list \<Rightarrow> failures \<times> manager_state \<Rightarrow> failures \<times> manager_state" where
  "activate_groups rt records is [] fst_st = fst_st"
| "activate_groups rt records is (p # ps) fst_st = activate_groups rt records is ps (activate_group rt records p (group_of is p) fst_st)"

section \<open>Observed status\<close>

definition pluginFromHealthPath :: "string \<Rightarrow> string" where
  "pluginFromHealthPath path = (if has_prefix path ''plugins/'' then takeWhile (\<lambda>c. c \<noteq> CHR ''@'') (drop 8 path) else [])"

fun health_failures :: "health_diagnostic list \<Rightarrow> failures \<Rightarrow> failures" where
  "health_failures [] fs = fs"
| "health_failures (d # ds) fs = health_failures ds (let plugin = pluginFromHealthPath (hd_path d) in
     if plugin = [] then fs else set_failure plugin (hd_code d) (hd_message d) fs)"

record verdict =
  vd_phase :: string
  vd_ready :: bool
  vd_reason :: string
  vd_message :: string

definition failure_of :: "failures \<Rightarrow> string \<Rightarrow> status_failure" where
  "failure_of fs plugin = (case map_of fs plugin of None \<Rightarrow> \<lparr>sf_code = [], sf_message = []\<rparr> | Some f \<Rightarrow> f)"

definition installation_active :: "installation \<Rightarrow> plugin_record list \<Rightarrow> bool" where
  "installation_active i records = (case index_active records (plg_plugin (in_spec i)) of None \<Rightarrow> False
     | Some a \<Rightarrow> pr_version a = plg_version (in_spec i) \<and> pr_digest a = plg_digest (in_spec i))"

definition installation_verdict :: "installation \<Rightarrow> installation list \<Rightarrow> plugin_record list \<Rightarrow> failures \<Rightarrow> verdict" where
  "installation_verdict i gr records fs =
     (let found = index_versions records (spec_key i); active = installation_active i records; enabled = in_enabled i;
          failure = failure_of fs (plg_plugin (in_spec i));
          err = (\<lambda>reason message. \<lparr>vd_phase = ''Error'', vd_ready = False, vd_reason = reason, vd_message = message\<rparr>)
      in if length (enabledInstallations gr) > 1 \<and> enabled
           then \<lparr>vd_phase = ''Conflict'', vd_ready = False, vd_reason = ''MultipleEnabledVersions'', vd_message = ''multiple plugin versions are enabled''\<rparr>
         else (case found of None \<Rightarrow> err ''BundleMissing'' ''the immutable plugin bundle is not installed''
           | Some r \<Rightarrow>
               if pr_digest r \<noteq> plg_digest (in_spec i) then err ''DigestMismatch'' ''the installed plugin bundle has a different digest''
               else if incompatible r then err ''ProtocolIncompatible'' ''the installed plugin protocol is incompatible with this daemon''
               else if sf_code failure \<noteq> [] \<and> (enabled \<or> active) then err (reasonTitle (sf_code failure)) (sf_message failure)
               else if enabled \<and> active
                 then \<lparr>vd_phase = ''Active'', vd_ready = True, vd_reason = ''Activated'', vd_message = ''the selected immutable plugin version is active''\<rparr>
               else if enabled then err ''ActivationPending'' ''the selected immutable plugin version is not active''
               else \<lparr>vd_phase = ''Installed'', vd_ready = True, vd_reason = ''Reconciled'', vd_message = ''immutable plugin installation is reconciled''\<rparr>))"

definition installation_capabilities :: "installation \<Rightarrow> plugin_record list \<Rightarrow> string list" where
  "installation_capabilities i records = (case index_versions records (spec_key i) of None \<Rightarrow> []
     | Some r \<Rightarrow> (case unmarshal_manifest (pr_manifest r) of None \<Rightarrow> [] | Some m \<Rightarrow> sort (mf_capabilities m)))"

definition installationStatus :: "installation \<Rightarrow> installation list \<Rightarrow> plugin_record list \<Rightarrow> failures \<Rightarrow> (string \<times> json) list \<times> health_diagnostic option" where
  "installationStatus i gr records fs =
     (let v = installation_verdict i gr records fs; sp = in_spec i in
      ([(''observedGeneration'', JInt (int (meta_generation (in_meta i)))), (''phase'', JStr (vd_phase v)),
        (''installed'', JBool (exactRecord i records \<noteq> None)), (''active'', JBool (installation_active i records)),
        (''plugin'', JStr (plg_plugin sp)), (''version'', JStr (plg_version sp)), (''digest'', JStr (plg_digest sp)),
        (''capabilities'', JArr (map JStr (installation_capabilities i records))),
        (''conditions'', JArr [JObj [(''type'', JStr ''Ready''), (''status'', JStr (if vd_ready v then ''True'' else ''False'')),
           (''reason'', JStr (vd_reason v)), (''message'', JStr (vd_message v))]]),
        (''diagnostics'', JArr (if vd_ready v then [] else [JObj [(''code'', JStr (reasonCode (vd_reason v))), (''message'', JStr (vd_message v))]]))],
       if vd_ready v then None
       else Some \<lparr>hd_path = ''controllers/plugins/'' @ plg_plugin sp @ ''@'' @ plg_version sp, hd_code = reasonCode (vd_reason v), hd_message = vd_message v\<rparr>))"

definition issue_key :: "installation \<Rightarrow> string" where
  "issue_key i = spec_key i @ ''/'' @ meta_namespace (in_meta i) @ ''/'' @ meta_name (in_meta i)"

definition is_stale :: "store_error \<Rightarrow> bool" where
  "is_stale e = (case e of StaleObservedGenerationError a b \<Rightarrow> True | _ \<Rightarrow> False)"

fun write_statuses :: "controller_env \<Rightarrow> installation list \<Rightarrow> plugin_record list \<Rightarrow> failures \<Rightarrow> installation list \<Rightarrow> (string \<times> health_diagnostic) list
    \<Rightarrow> manager_state \<Rightarrow> store_error option \<times> (string \<times> health_diagnostic) list \<times> manager_state" where
  "write_statuses ce is records fs [] issues st = (None, issues, st)"
| "write_statuses ce is records fs (i # todo) issues st =
     (let (status, issue) = installationStatus i (group_of is (plg_plugin (in_spec i))) records fs in
      case UpdateResourceStatus (ce_at ce (ms_clock st)) (ms_db st) ''PluginInstallation'' (meta_namespace (in_meta i)) (meta_name (in_meta i))
             (meta_generation (in_meta i)) status of
        Inl e \<Rightarrow> if e = ErrNotFound \<or> is_stale e then write_statuses ce is records fs todo issues (tick st)
          else (Some e, issues, tick st)
      | Inr (d, s') \<Rightarrow> write_statuses ce is records fs todo
          (case issue of None \<Rightarrow> issues | Some x \<Rightarrow> map_put (issue_key i) x issues) (tick (st\<lparr>ms_db := s'\<rparr>)))"

section \<open>The controller\<close>

record controller =
  ct_manager :: manager_state
  ct_health :: tracker
  ct_issueKeys :: "string list"

definition New_controller :: "manager_state \<Rightarrow> controller" where
  "New_controller st = \<lparr>ct_manager = st, ct_health = health_Set NewTracker ''starting'' (health_of ''controllers/plugins'' ''starting''
       ''plugin installation reconciliation has not completed''), ct_issueKeys = []\<rparr>"

definition observe :: "store_error option \<Rightarrow> tracker \<Rightarrow> tracker" where
  "observe err t = (let t1 = health_Clear t ''starting'' in
     if err = None then health_Clear t1 ''reconcile''
     else health_Set t1 ''reconcile'' (health_of ''controllers/plugins'' ''reconcile_failed'' ''plugin installation reconciliation failed; inspect daemon logs''))"

definition replaceIssues :: "(string \<times> health_diagnostic) list \<Rightarrow> string list \<Rightarrow> tracker \<Rightarrow> tracker" where
  "replaceIssues next keys t =
     (let t1 = foldl (\<lambda>t k. if k \<in> fst ` set next then t else health_Clear t (''desired/'' @ k)) t keys
      in foldl (\<lambda>t (k, d). health_Set t (''desired/'' @ k) d) t1 next)"

definition reconcileLocked :: "controller_env \<Rightarrow> runtime \<Rightarrow> controller \<Rightarrow> store_error option \<times> controller" where
  "reconcileLocked ce rt ct =
     (let st0 = ct_manager ct; fail = (\<lambda>e st. (Some e, ct\<lparr>ct_manager := st\<rparr>)) in
      case rt_List rt st0 of Inl e \<Rightarrow> fail e st0
      | Inr records \<Rightarrow> (case ensureProjections ce records st0 of (Some e, st1) \<Rightarrow> fail e st1
      | (None, st1) \<Rightarrow> (case installations (ce_lib ce) (ms_db st1) of Inl e \<Rightarrow> fail e st1
      | Inr is \<Rightarrow> (case activate_groups rt records is (ce_order ce (ms_clock st1) (group_names is)) ([], st1) of (fs, st2) \<Rightarrow>
         (case rt_List rt st2 of Inl e \<Rightarrow> fail e st2
          | Inr records2 \<Rightarrow> (case rt_Health rt st2 of (ds, st3) \<Rightarrow>
              (case write_statuses ce is records2 (health_failures ds fs) is [] st3 of
                 (Some e, issues, st4) \<Rightarrow> fail e st4
               | (None, issues, st4) \<Rightarrow> (None, \<lparr>ct_manager = st4, ct_health = replaceIssues issues (ct_issueKeys ct) (ct_health ct),
                    ct_issueKeys = map fst issues\<rparr>))))))))"

definition Reconcile :: "controller_env \<Rightarrow> runtime \<Rightarrow> controller \<Rightarrow> store_error option \<times> controller" where
  "Reconcile ce rt ct = (case reconcileLocked ce rt ct of (err, ct1) \<Rightarrow> (err, ct1\<lparr>ct_health := observe err (ct_health ct1)\<rparr>))"

section \<open>Validation and the command line\<close>

definition plugin_diagnostic :: "string \<Rightarrow> string \<Rightarrow> string \<Rightarrow> string \<Rightarrow> diagnostic" where
  "plugin_diagnostic severity path code message = \<lparr>diag_severity = severity, diag_path = path, diag_code = code, diag_message = message\<rparr>"

definition identity_diagnostics :: "controller_env \<Rightarrow> db \<Rightarrow> document \<Rightarrow> plugin_spec \<Rightarrow> (unit, diagnostic list) result" where
  "identity_diagnostics ce s doc sp =
     (case Get (ce_lib ce) s (doc_kind doc) (meta_namespace (doc_metadata doc)) (meta_name (doc_metadata doc)) of
        Inl e \<Rightarrow> Inr (if e = ErrNotFound then [] else [reference_diagnostic ''spec'' ''reference_unavailable'' ''plugin installation state is temporarily unavailable''])
      | Inr current \<Rightarrow> (case DecodePluginInstallation (ce_lib ce) (doc_JSON current) of
            Inl _ \<Rightarrow> Inl ()
          | Inr (m, old) \<Rightarrow> Inr (if plg_plugin old \<noteq> plg_plugin sp \<or> plg_version old \<noteq> plg_version sp \<or> plg_digest old \<noteq> plg_digest sp
              then [reference_diagnostic ''spec'' ''immutable_identity'' ''PluginInstallation plugin, version, and digest are immutable''] else [])))"

definition duplicate_projection :: "resource_lib \<Rightarrow> document \<Rightarrow> plugin_spec \<Rightarrow> document \<Rightarrow> bool" where
  "duplicate_projection lib doc sp candidate \<longleftrightarrow>
     \<not> (meta_uid (doc_metadata candidate) = meta_uid (doc_metadata doc) \<or>
        (meta_namespace (doc_metadata candidate) = meta_namespace (doc_metadata doc) \<and> meta_name (doc_metadata candidate) = meta_name (doc_metadata doc))) \<and>
     (case DecodePluginInstallation lib (doc_JSON candidate) of Inl _ \<Rightarrow> False
      | Inr (m, other) \<Rightarrow> plg_plugin other = plg_plugin sp \<and> plg_version other = plg_version sp)"

definition bundle_diagnostics :: "plugin_spec \<Rightarrow> plugin_record list \<Rightarrow> diagnostic list" where
  "bundle_diagnostics sp records = (case index_versions records (installationKey (plg_plugin sp) (plg_version sp)) of
       None \<Rightarrow> [plugin_diagnostic ''warning'' ''spec.version'' ''bundle_missing'' ''the immutable plugin bundle is not installed'']
     | Some r \<Rightarrow> if pr_digest r \<noteq> plg_digest sp
         then [plugin_diagnostic ''warning'' ''spec.digest'' ''digest_mismatch'' ''the installed plugin bundle has a different digest'']
         else if incompatible r
         then [plugin_diagnostic ''warning'' ''spec.version'' ''protocol_incompatible'' ''the installed plugin protocol is incompatible with this daemon'']
         else [])"

definition Plugin_Diagnostics :: "controller_env \<Rightarrow> runtime \<Rightarrow> manager_state \<Rightarrow> document \<Rightarrow> diagnostic list" where
  "Plugin_Diagnostics ce rt st doc =
     (if doc_kind doc \<noteq> ''PluginInstallation'' then []
      else (case DecodePluginInstallation (ce_lib ce) (doc_JSON doc) of
          Inl _ \<Rightarrow> [reference_diagnostic ''spec'' ''invalid'' ''PluginInstallation cannot be decoded'']
        | Inr (m, sp) \<Rightarrow> (case identity_diagnostics ce (ms_db st) doc sp of
            Inl _ \<Rightarrow> [reference_diagnostic ''spec'' ''invalid'' ''stored PluginInstallation cannot be decoded'']
          | Inr ds \<Rightarrow> (case ListResources (ce_lib ce) (ms_db st) ''PluginInstallation'' [] 1000 of
              Inl _ \<Rightarrow> ds @ [reference_diagnostic ''spec'' ''reference_unavailable'' ''plugin installation state is temporarily unavailable'']
            | Inr (docs, revision) \<Rightarrow>
                (let ds2 = ds @ (if list_ex (duplicate_projection (ce_lib ce) doc sp) docs
                   then [reference_diagnostic ''spec.version'' ''duplicate_installation'' ''plugin name and version already have a PluginInstallation resource'']
                   else [])
                 in case rt_List rt st of
                    Inl _ \<Rightarrow> ds2 @ [reference_diagnostic ''spec'' ''reference_unavailable'' ''installed plugin state is temporarily unavailable'']
                  | Inr records \<Rightarrow> ds2 @ bundle_diagnostics sp records)))))"

definition selected_first :: "installation list \<Rightarrow> string \<Rightarrow> string \<Rightarrow> bool \<Rightarrow> installation list" where
  "selected_first is plugin version enabled =
     (if enabled then filter (\<lambda>i. plg_plugin (in_spec i) = plugin \<and> plg_version (in_spec i) = version) is else []) @
     filter (\<lambda>i. plg_plugin (in_spec i) = plugin \<and> \<not> (enabled \<and> plg_version (in_spec i) = version)) is"

definition bool_text :: "bool \<Rightarrow> string" where
  "bool_text b = (if b then ''true'' else ''false'')"

definition desiredStateRequestID :: "installation \<Rightarrow> bool \<Rightarrow> string" where
  "desiredStateRequestID i enabled = ''plugin-cli:'' @ meta_uid (in_meta i) @ '':'' @ itoa (meta_resourceVersion (in_meta i)) @ '':'' @ bool_text enabled"

fun apply_desired :: "controller_env \<Rightarrow> string \<Rightarrow> bool \<Rightarrow> installation list \<Rightarrow> manager_state \<Rightarrow> store_error option \<times> manager_state" where
  "apply_desired ce version enabled [] st = (None, st)"
| "apply_desired ce version enabled (i # todo) st =
     (let desired = (enabled \<and> plg_version (in_spec i) = version) in
      if in_enabled i = desired then apply_desired ce version enabled todo st
      else (case installation_document (ce_lib ce) (i\<lparr>in_spec := (in_spec i)\<lparr>plg_enabled := Some desired\<rparr>\<rparr>) of
          Inl e \<Rightarrow> (Some e, st)
        | Inr doc \<Rightarrow> (case ct_apply ce doc \<lparr>opt_expectedResourceVersion = meta_resourceVersion (in_meta i),
              opt_requestID = desiredStateRequestID i desired, opt_actor = ''unix-peer'', opt_context = []\<rparr> st of
            (Inl e, st1) \<Rightarrow> (Some e, st1) | (Inr d, st1) \<Rightarrow> apply_desired ce version enabled todo st1)))"

definition SetEnabled :: "controller_env \<Rightarrow> runtime \<Rightarrow> string \<Rightarrow> string \<Rightarrow> bool \<Rightarrow> controller \<Rightarrow> store_error option \<times> controller" where
  "SetEnabled ce rt plugin version enabled ct =
     (case installations (ce_lib ce) (ms_db (ct_manager ct)) of Inl e \<Rightarrow> (Some e, ct)
      | Inr is \<Rightarrow>
          if enabled \<and> filter (\<lambda>i. plg_plugin (in_spec i) = plugin \<and> plg_version (in_spec i) = version) is = [] then (Some ErrNotFound, ct)
          else if selected_first is plugin version enabled = [] then (Some ErrNotFound, ct)
          else (case apply_desired ce version enabled (selected_first is plugin version enabled) (ct_manager ct) of
              (Some e, st) \<Rightarrow> (Some e, ct\<lparr>ct_manager := st\<rparr>)
            | (None, st) \<Rightarrow> Reconcile ce rt (ct\<lparr>ct_manager := st\<rparr>)))"

section \<open>Names and codes are well formed\<close>

lemma of_char_of: "n < 256 \<Longrightarrow> of_char (char_of (n :: nat)) = n"
  by (simp add: take_bit_eq_mod of_char_of[where ?'a = nat])

lemma lower_upper:
  assumes "is_lower c"
  shows "is_upper (to_upper c)" "to_lower (to_upper c) = c" "\<not> is_upper c" "to_lower c = c"
proof -
  let ?n = "of_char c :: nat"
  have n: "97 \<le> ?n" "?n \<le> 122" using assms by (auto simp: is_lower_def)
  have u: "of_char (to_upper c) = ?n - 32" using n assms by (simp add: to_upper_def of_char_of)
  show "is_upper (to_upper c)" unfolding is_upper_def u using n by linarith
  have "char_of ?n = c" by simp
  moreover have "65 \<le> ?n - 32 \<and> ?n - 32 \<le> 90" "?n - 32 + 32 = ?n" using n by linarith+
  ultimately show "to_lower (to_upper c) = c" unfolding to_lower_def u by simp
  show "\<not> is_upper c" "to_lower c = c" using n by (simp_all add: is_upper_def to_lower_def)
qed

lemma to_lower_not_upper: "\<not> is_upper (to_lower c)"
proof (cases "is_upper c")
  case True
  then have n: "65 \<le> (of_char c :: nat)" "(of_char c :: nat) \<le> 90" by (auto simp: is_upper_def)
  then have "of_char (to_lower c) = (of_char c :: nat) + 32" by (simp add: to_lower_def of_char_of)
  then show ?thesis using n by (simp add: is_upper_def)
next
  case False
  then show ?thesis by (auto simp: to_lower_def is_upper_def)
qed

lemma join_split: "join_with [c] (split_on c xs) = xs"
proof (induction xs)
  case (Cons x xs)
  then show ?case by (cases "split_on c xs"; cases "tl (split_on c xs)") auto
qed simp

definition snake_code :: "string \<Rightarrow> bool" where
  "snake_code code \<longleftrightarrow> list_all (\<lambda>p. p \<noteq> [] \<and> list_all is_lower p) (split_on (CHR ''_'') code)"

lemma code_of_title:
  assumes "p \<noteq> []" "list_all is_lower p"
  shows "concat (map code_char (title_part p)) = CHR ''_'' # p"
proof -
  have l: "concat (map code_char cs) = cs" if "list_all is_lower cs" for cs
    using that by (induction cs) (auto simp: code_char_def lower_upper)
  obtain c cs where p: "p = c # cs" using assms(1) by (cases p) auto
  then show ?thesis using assms(2) l[of cs] by (simp add: title_part_def code_char_def lower_upper)
qed

lemma concat_map_concat: "concat (map f (concat (map g ps))) = concat (map (\<lambda>p. concat (map f (g p))) ps)"
  by (induction ps) auto

lemma concat_underscore: "ps \<noteq> [] \<Longrightarrow> concat (map (\<lambda>p. CHR ''_'' # p) ps) = CHR ''_'' # join_with ''_'' ps"
  by (induction ps rule: induct_list012) auto

text \<open>The reason shown for a failure code and the code derived from a reason are inverse: for a code of lower case words joined by underscores,
  \<open>reasonCode\<close> gives back the code \<open>reasonTitle\<close> was applied to, so the issue of an installation carries the code its failure had.\<close>

theorem reason_code_roundtrip:
  assumes "snake_code code"
  shows "reasonCode (reasonTitle code) = code"
proof -
  let ?ps = "split_on (CHR ''_'') code"
  have ps: "p \<noteq> [] \<and> list_all is_lower p" if "p \<in> set ?ps" for p using assms that by (auto simp: snake_code_def list_all_iff)
  have "concat (map code_char (reasonTitle code)) = concat (map (\<lambda>p. concat (map code_char (title_part p))) ?ps)"
    by (simp add: reasonTitle_def concat_map_concat)
  also have "\<dots> = concat (map (\<lambda>p. CHR ''_'' # p) ?ps)"
    using ps code_of_title by (intro arg_cong[where f = concat] map_cong) auto
  also have "\<dots> = CHR ''_'' # code" by (simp add: concat_underscore join_split)
  finally have all: "concat (map code_char (reasonTitle code)) = CHR ''_'' # code" .
  obtain p qs where q: "?ps = p # qs" by (cases ?ps) auto
  then obtain c cs where c: "p = c # cs" "is_lower c" using ps[of p] by (cases p) auto
  then have t: "reasonTitle code = to_upper c # cs @ concat (map title_part qs)" by (simp add: reasonTitle_def q title_part_def)
  have "code_char (to_upper c) = [CHR ''_'', to_lower (to_upper c)]" using lower_upper(1)[OF c(2)] by (simp add: code_char_def)
  then have "CHR ''_'' # reasonCode (reasonTitle code) = concat (map code_char (reasonTitle code))" by (simp add: reasonCode_def t)
  then show ?thesis using all by simp
qed

theorem reason_code_roundtrip_witness:
  "reasonCode (reasonTitle ''multiple_enabled_versions'') = ''multiple_enabled_versions'' \<and> reasonTitle ''rpc_failed'' = ''RpcFailed''"
proof
  have "snake_code ''multiple_enabled_versions''" by code_simp
  then show "reasonCode (reasonTitle ''multiple_enabled_versions'') = ''multiple_enabled_versions''" by (rule reason_code_roundtrip)
  show "reasonTitle ''rpc_failed'' = ''RpcFailed''" by code_simp
qed

lemma last_dropWhile: "dropWhile P xs \<noteq> [] \<Longrightarrow> last (dropWhile P xs) = last xs"
  by (induction xs) (auto split: if_splits)

lemma trim_dash_label:
  assumes "list_all (\<lambda>c. dns_char c \<or> c = CHR ''-'') s"
  shows "trim_dash s = [] \<or> dnsName (trim_dash s)"
proof (cases "trim_dash s = []")
  case False
  let ?P = "\<lambda>c. c = CHR ''-''" and ?t = "dropWhile (\<lambda>c. c = CHR ''-'') s"
  let ?u = "dropWhile ?P (rev ?t)"
  have u: "?u \<noteq> []" "trim_dash s = rev ?u" using False by (auto simp: trim_dash_def)
  have sub: "x \<in> set s" if "x \<in> set ?u" for x
  proof -
    have "x \<in> set (rev ?t)" by (rule set_dropWhileD[OF that])
    then have "x \<in> set ?t" by (simp only: set_rev)
    then show ?thesis by (rule set_dropWhileD)
  qed
  have t: "?t \<noteq> []" using u(1) by (metis dropWhile.simps(1) rev.simps(1))
  have "hd (rev ?u) = last ?u" by (rule hd_rev)
  also have "\<dots> = last (rev ?t)" by (rule last_dropWhile[OF u(1)])
  also have "\<dots> = hd ?t" by (rule last_rev)
  finally have "hd (rev ?u) = hd ?t" .
  moreover have "\<not> ?P (hd ?t)" using hd_dropWhile[OF t] .
  moreover have "\<not> ?P (hd ?u)" using hd_dropWhile[OF u(1)] .
  moreover have "hd ?t \<in> set s" by (rule set_dropWhileD[OF hd_in_set[OF t]])
  moreover have "hd ?u \<in> set s" by (rule sub[OF hd_in_set[OF u(1)]])
  ultimately have "dns_char (hd (rev ?u))" "dns_char (hd ?u)" using assms by (auto simp only: list_all_iff)
  moreover have "list_all (\<lambda>c. dns_char c \<or> c = CHR ''-'') (rev ?u)" using assms sub by (simp only: list_all_iff set_rev) blast
  ultimately show ?thesis using u(1) unfolding u(2) dnsName_def last_rev by simp
qed simp

lemma sanitize_chars:
  assumes "list_all (\<lambda>c. dns_char c \<or> c = CHR ''-'') built" "list_all (\<lambda>c. \<not> is_upper c) s"
  shows "list_all (\<lambda>c. dns_char c \<or> c = CHR ''-'') (sanitize_loop built lastDash s)"
  using assms by (induction built lastDash s rule: sanitize_loop.induct) auto

lemma sanitizeLabel_label: "sanitizeLabel v = [] \<or> dnsName (sanitizeLabel v)"
  unfolding sanitizeLabel_def
  by (intro trim_dash_label sanitize_chars) (auto simp: list_all_iff to_lower_not_upper)

lemma hex_lower:
  assumes "is_hex c"
  shows "dns_char (to_lower c)"
proof (cases "65 \<le> (of_char c :: nat) \<and> (of_char c :: nat) \<le> 90")
  case True
  then have "of_char (to_lower c) = (of_char c :: nat) + 32" by (simp add: to_lower_def of_char_of)
  then show ?thesis using True by (simp add: dns_char_def is_lower_def)
next
  case False
  then show ?thesis using assms by (auto simp: to_lower_def dns_char_def is_lower_def is_digit_def is_hex_def)
qed

lemma length_trim_dash: "length (trim_dash s) \<le> length s"
  by (simp add: trim_dash_def) (metis length_dropWhile_le length_rev order_trans)

text \<open>The resource that stands for an installed bundle always has a valid name: whatever the name and the version of the plugin, with a hexadecimal
  digest the name is a DNS label of at most 63 characters, so the resource can be stored.\<close>

theorem resource_name_is_label:
  assumes "list_all is_hex (pr_digest r)"
  shows "dnsName (ResourceName r) \<and> length (ResourceName r) \<le> 63"
proof -
  define digest where "digest = take 10 (map to_lower (pr_digest r))"
  define suffix where "suffix = (if digest = [] then [] else ''-'' @ digest)"
  define base where "base = (let b = sanitizeLabel (pr_name r @ ''-'' @ pr_version r) in if b = [] then ''plugin'' else b)"
  define n where "n = (if 63 - int (length suffix) < 1 then 1 else 63 - length suffix)"
  define base1 where "base1 = (if length base > n then trim_dash (take n base) else base)"
  define base2 where "base2 = (if base1 = [] then ''p'' else base1)"
  have name: "ResourceName r = base2 @ suffix"
    by (simp only: ResourceName_def Let_def digest_def suffix_def base_def n_def base1_def base2_def)
  have d: "list_all dns_char digest" "length digest \<le> 10"
    using assms hex_lower by (auto simp: digest_def list_all_iff dest!: in_set_takeD)
  have ls: "length suffix \<le> 11" using d(2) by (simp add: suffix_def)
  then have n: "n = 63 - length suffix" "52 \<le> n" by (auto simp: n_def)
  have "dnsName ''plugin''" "dnsName ''p''" by code_simp+
  have b: "dnsName base" using sanitizeLabel_label[of "pr_name r @ ''-'' @ pr_version r"] \<open>dnsName ''plugin''\<close> by (auto simp: base_def Let_def)
  then have "list_all (\<lambda>c. dns_char c \<or> c = CHR ''-'') (take n base)" by (auto simp: dnsName_def list_all_iff dest: in_set_takeD)
  then have b1: "base1 = [] \<or> dnsName base1" using trim_dash_label b by (auto simp: base1_def)
  have l1: "length base1 \<le> n" using length_trim_dash[of "take n base"] by (auto simp: base1_def)
  have b2: "dnsName base2" "length base2 \<le> n" using b1 l1 \<open>dnsName ''p''\<close> n(2) by (auto simp: base2_def)
  have "dnsName (base2 @ suffix)"
  proof (cases "digest = []")
    case False
    then show ?thesis using b2(1) d(1) by (auto simp: dnsName_def suffix_def list_all_iff)
  qed (use b2 in \<open>simp add: suffix_def\<close>)
  then show ?thesis using b2(2) n(1) ls by (simp add: name)
qed

theorem resource_name_is_label_witness:
  "ResourceName (sample_record\<lparr>pr_digest := ''00ABCDEF00112233''\<rparr>) = ''git-1-0-0-00abcdef00'' \<and> dnsName (ResourceName (sample_record\<lparr>pr_digest := ''00ABCDEF00112233''\<rparr>))"
proof
  show "ResourceName (sample_record\<lparr>pr_digest := ''00ABCDEF00112233''\<rparr>) = ''git-1-0-0-00abcdef00''" by code_simp
  have "list_all is_hex (pr_digest (sample_record\<lparr>pr_digest := ''00ABCDEF00112233''\<rparr>))" by code_simp
  from resource_name_is_label[OF this] show "dnsName (ResourceName (sample_record\<lparr>pr_digest := ''00ABCDEF00112233''\<rparr>))" by simp
qed

section \<open>Activations follow the desired state\<close>

lemma split_on_app: "split_on c (xs @ c # ys) = split_on c xs @ split_on c ys"
proof (induction xs)
  case (Cons x xs)
  then show ?case by (cases "split_on c xs") auto
qed simp

lemma installationKey_inject:
  assumes "installationKey a b = installationKey p v" "CHR ''@'' \<notin> set a" "CHR ''@'' \<notin> set b"
  shows "p = a \<and> v = b"
proof -
  let ?s = "split_on (CHR ''@'')"
  have "?s (a @ ''@'' @ b) = ?s (p @ ''@'' @ v)" using assms(1) by (simp add: installationKey_def)
  then have "[a, b] = ?s p @ ?s v" using assms(2,3) by (simp add: split_on_app split_on_single)
  then have "?s p = [a] \<and> ?s v = [b]" by (cases "?s p"; cases "?s v") (auto simp: Cons_eq_append_conv)
  then show ?thesis using join_split[of "CHR ''@''" p] join_split[of "CHR ''@''" v] by simp
qed

text \<open>Names and versions of accepted bundles have no \<open>@\<close>.\<close>

definition plain_versions :: "db \<Rightarrow> bool" where
  "plain_versions s \<longleftrightarrow> (\<forall>i \<in> set (db_installations s). CHR ''@'' \<notin> set (ins_name i) \<and> CHR ''@'' \<notin> set (ins_version i))"

lemma ListPlugins_mem:
  "r \<in> set (ListPlugins s) \<longleftrightarrow> (\<exists>i \<in> set (db_installations s). r = plugin_of s i)"
  by (auto simp: ListPlugins_def)

lemma exactRecord_Some:
  assumes "exactRecord i (ListPlugins s) = Some r" "plain_versions s"
  shows "pr_name r = plg_plugin (in_spec i) \<and> pr_version r = plg_version (in_spec i) \<and> pr_digest r = plg_digest (in_spec i) \<and> r \<in> set (ListPlugins s)"
proof -
  have r: "index_versions (ListPlugins s) (spec_key i) = Some r" "pr_digest r = plg_digest (in_spec i)"
    using assms(1) by (auto simp: exactRecord_def split: option.splits if_splits)
  then have m: "r \<in> set (ListPlugins s)" "record_key r = spec_key i"
    using select_row_SomeD[OF r(1)[unfolded index_versions_def]] by auto
  then have "CHR ''@'' \<notin> set (pr_name r)" "CHR ''@'' \<notin> set (pr_version r)"
    using assms(2) by (auto simp: ListPlugins_mem plain_versions_def plugin_of_def)
  from installationKey_inject[OF m(2)[unfolded record_key_def spec_key_def] this] show ?thesis using m r by simp
qed

lemma active_unique:
  assumes "plugins_inv s" "is_active s n v" "is_active s n w"
  shows "v = w"
proof -
  have "distinct (map act_name (db_activations s))" using assms(1) unfolding plugins_inv_def by blast
  then have "inj_on act_name (set (db_activations s))" by (simp add: distinct_map)
  moreover obtain a b where "a \<in> set (db_activations s)" "act_name a = n" "act_version a = v"
    "b \<in> set (db_activations s)" "act_name b = n" "act_version b = w" using assms(2,3) by (auto simp: is_active_def exists_row_iff)
  ultimately show ?thesis by (metis inj_onD)
qed

lemma active_record:
  assumes "plugins_inv s" "is_active s n v"
  shows "\<exists>r \<in> set (ListPlugins s). pr_active r \<and> pr_name r = n \<and> pr_version r = v"
proof -
  obtain a where "a \<in> set (db_activations s)" "act_name a = n" "act_version a = v" using assms(2) by (auto simp: is_active_def exists_row_iff)
  then have "exists_row (ins_at n v) (db_installations s)" using assms(1) unfolding plugins_inv_def by blast
  then obtain i where "i \<in> set (db_installations s)" "ins_name i = n" "ins_version i = v" by (auto simp: exists_row_iff)
  then show ?thesis using assms(2) by (auto simp: ListPlugins_mem plugin_of_def intro!: bexI[of _ "plugin_of s i"])
qed

lemma index_active_Some:
  assumes "index_active (ListPlugins s) n = Some a"
  shows "is_active s n (pr_version a) \<and> a \<in> set (ListPlugins s)"
proof -
  have "a \<in> set (ListPlugins s)" "pr_active a" "pr_name a = n"
    using select_row_SomeD[OF assms[unfolded index_active_def]] by auto
  then show ?thesis by (auto simp: ListPlugins_mem plugin_of_def)
qed

lemma index_active_None: "plugins_inv s \<Longrightarrow> index_active (ListPlugins s) n = None \<Longrightarrow> \<not> is_active s n v"
  using active_record[of s n v] by (auto simp: index_active_def select_row_None)

text \<open>
  What a pass makes of one plugin: nothing without a resource for it; without an enabled one it is inactive; with one it is the selected version,
  when its bundle is installed with that digest and is compatible, unless the runtime refused it, which is on record; otherwise, and with more than
  one enabled, which is on record too, the activation is left alone.
\<close>

definition on_record :: "failures \<Rightarrow> string \<Rightarrow> string \<Rightarrow> bool" where
  "on_record fs p code \<longleftrightarrow> (case map_of fs p of None \<Rightarrow> False | Some f \<Rightarrow> sf_code f = code)"

definition follows_desired :: "failures \<Rightarrow> plugin_record list \<Rightarrow> string \<Rightarrow> installation list \<Rightarrow> (string \<Rightarrow> bool) \<Rightarrow> (string \<Rightarrow> bool) \<Rightarrow> bool" where
  "follows_desired fs records p gr before after \<longleftrightarrow>
     (case enabledInstallations gr of
        [] \<Rightarrow> if gr = [] then after = before else (\<forall>v. \<not> after v)
      | [t] \<Rightarrow> (case exactRecord t records of None \<Rightarrow> after = before
          | Some r \<Rightarrow> if incompatible r then after = before
              else after = (\<lambda>v. v = plg_version (in_spec t)) \<or> on_record fs p ''activation_failed'' \<and> after = before)
      | _ \<Rightarrow> on_record fs p ''multiple_enabled_versions'' \<and> after = before)"

lemma on_record_set: "on_record (set_failure q code message fs) p c \<longleftrightarrow> (if p = q then c = code else on_record fs p c)"
  by (auto simp: on_record_def set_failure_def)

lemma follows_desired_same: "(\<And>c. on_record fs p c = on_record fs' p c) \<Longrightarrow> follows_desired fs records p gr b a = follows_desired fs' records p gr b a"
  by (auto simp: follows_desired_def split: list.splits option.splits)

lemma activate_group_others:
  assumes "activate_group rt records p gr (fs, st) = (fs', st')" "q \<noteq> p"
  shows "on_record fs' q c = on_record fs q c"
  using assms by (auto simp: activate_group_def on_record_set split: list.splits option.splits if_splits sum.splits prod.splits)

lemma activate_groups_others:
  assumes "activate_groups rt records is ps (fs, st) = (fs', st')" "q \<notin> set ps"
  shows "on_record fs' q c = on_record fs q c"
  using assms
proof (induction ps arbitrary: fs st)
  case (Cons p ps)
  obtain fs1 st1 where s: "activate_group rt records p (group_of is p) (fs, st) = (fs1, st1)" by fastforce
  then show ?case using Cons.IH[of fs1 st1] Cons.prems activate_group_others[OF s] by auto
qed simp

locale working_runtime = activation_runtime +
  assumes disable_works: "good_state st \<Longrightarrow> is_active (ms_db st) n v \<Longrightarrow> fst (rt_Disable rt n st) = Inr ()"
begin

lemma activate_group_settles:
  assumes g: "good_state st" and inv0: "plugins_inv s0" and plain: "plain_versions s0"
    and same: "\<And>v. is_active (ms_db st) p v \<longleftrightarrow> is_active s0 p v" and gr: "gr \<noteq> []" "\<forall>i \<in> set gr. plg_plugin (in_spec i) = p"
    and a: "activate_group rt (ListPlugins s0) p gr (fs, st) = (fs', st')"
  shows "runtime_kept st st' \<and> (\<forall>m w. m \<noteq> p \<longrightarrow> is_active (ms_db st') m w = is_active (ms_db st) m w) \<and>
    follows_desired fs' (ListPlugins s0) p gr (is_active s0 p) (is_active (ms_db st') p)"
proof (cases "enabledInstallations gr")
  case Nil
  show ?thesis
  proof (cases "index_active (ListPlugins s0) p")
    case None
    then show ?thesis using a Nil g gr index_active_None[OF inv0 None] same
      by (simp add: activate_group_def follows_desired_def runtime_kept_def)
  next
    case (Some b)
    then have "is_active (ms_db st) p (pr_version b)" using index_active_Some same by blast
    then have "fst (rt_Disable rt p st) = Inr ()" by (rule disable_works[OF g])
    then obtain st1 where st1: "rt_Disable rt p st = (Inr (), st1)" by (cases "rt_Disable rt p st") auto
    then have "st' = st1" using a Nil Some by (simp add: activate_group_def)
    then show ?thesis using disable_clears[OF g st1] Nil gr by (simp add: follows_desired_def)
  qed
next
  case (Cons t ts)
  have "t \<in> set (enabledInstallations gr)" using Cons by simp
  then have t: "t \<in> set gr" by (simp add: enabledInstallations_def)
  show ?thesis
  proof (cases "ts = [] \<and> (\<exists>r. exactRecord t (ListPlugins s0) = Some r \<and> \<not> incompatible r)")
    case False
    then have "st' = st" using a Cons by (auto simp: activate_group_def split: list.splits option.splits if_splits)
    moreover have "on_record fs' p ''multiple_enabled_versions''" if "ts \<noteq> []"
      using a Cons that by (auto simp: activate_group_def on_record_set split: list.splits)
    ultimately show ?thesis using g False Cons same
      by (auto simp: follows_desired_def runtime_kept_def split: list.splits option.splits)
  next
    case True
    then obtain r where r: "exactRecord t (ListPlugins s0) = Some r" "\<not> incompatible r" "ts = []" by blast
    note er = exactRecord_Some[OF r(1) plain]
    have n: "pr_name r = p" "pr_version r = plg_version (in_spec t)" using er gr t by auto
    show ?thesis
    proof (cases "\<exists>b. index_active (ListPlugins s0) p = Some b \<and> pr_version b = pr_version r \<and> pr_digest b = pr_digest r")
      case True
      then obtain b where b: "index_active (ListPlugins s0) p = Some b" "pr_version b = pr_version r" "pr_digest b = pr_digest r" by blast
      then have "st' = st" using a Cons r by (simp add: activate_group_def)
      moreover have "is_active s0 p = (\<lambda>v. v = plg_version (in_spec t))"
        using index_active_Some[OF b(1)] active_unique[OF inv0] b(2) n(2) by auto
      moreover have "is_active (ms_db st) p = is_active s0 p" using same by auto
      ultimately show ?thesis using g Cons r by (simp add: follows_desired_def runtime_kept_def)
    next
      case False
      then have c: "(case index_active (ListPlugins s0) p of None \<Rightarrow> True | Some a \<Rightarrow> pr_version a \<noteq> pr_version r \<or> pr_digest a \<noteq> pr_digest r)"
        by (auto split: option.splits)
      obtain x st1 where e: "rt_Enable rt p (plg_version (in_spec t)) st = (x, st1)" by fastforce
      have st': "st' = st1" using a Cons r c n e by (cases x) (simp_all add: activate_group_def)
      note sw = enable_switches[OF g e]
      show ?thesis
      proof (cases x)
        case (Inl err)
        have fs': "fs' = set_failure p ''activation_failed'' ''plugin activation failed; inspect daemon logs'' fs"
          using a Cons r c n e Inl by (simp add: activate_group_def)
        have "is_active (ms_db st') p = is_active s0 p" using sw Inl st' same by auto
        then have "follows_desired fs' (ListPlugins s0) p gr (is_active s0 p) (is_active (ms_db st') p)"
          using fs' Inl Cons r by (simp add: follows_desired_def on_record_set)
        then show ?thesis using sw Inl st' by simp
      next
        case (Inr u)
        then have "is_active (ms_db st') p = (\<lambda>v. v = plg_version (in_spec t))" using sw st' by auto
        then show ?thesis using sw Inr st' Cons r by (simp add: follows_desired_def)
      qed
    qed
  qed
qed

lemma activate_groups_settle:
  assumes "good_state st" "plugins_inv s0" "plain_versions s0" "distinct ps"
    and "\<And>p v. p \<in> set ps \<Longrightarrow> is_active (ms_db st) p v \<longleftrightarrow> is_active s0 p v" "set ps \<subseteq> set (group_names is)"
    and "activate_groups rt (ListPlugins s0) is ps (fs, st) = (fs', st')"
  shows "runtime_kept st st' \<and> (\<forall>m w. m \<notin> set ps \<longrightarrow> is_active (ms_db st') m w = is_active (ms_db st) m w) \<and>
    (\<forall>p \<in> set ps. follows_desired fs' (ListPlugins s0) p (group_of is p) (is_active s0 p) (is_active (ms_db st') p))"
  using assms(1,4-7)
proof (induction ps arbitrary: fs st)
  case Nil
  then show ?case by (simp add: runtime_kept_def)
next
  case (Cons p ps)
  obtain fs1 st1 where s: "activate_group rt (ListPlugins s0) p (group_of is p) (fs, st) = (fs1, st1)" by fastforce
  have gr: "group_of is p \<noteq> []" "\<forall>i \<in> set (group_of is p). plg_plugin (in_spec i) = p"
    using Cons.prems(4) by (auto simp: group_names_def group_of_def filter_empty_conv)
  have one: "runtime_kept st st1" "\<And>m w. m \<noteq> p \<Longrightarrow> is_active (ms_db st1) m w = is_active (ms_db st) m w"
    "follows_desired fs1 (ListPlugins s0) p (group_of is p) (is_active s0 p) (is_active (ms_db st1) p)"
    using activate_group_settles[OF Cons.prems(1) assms(2,3) _ gr s] Cons.prems(3) by auto
  have g1: "good_state st1" using one(1) by (simp add: runtime_kept_def)
  have r: "activate_groups rt (ListPlugins s0) is ps (fs1, st1) = (fs', st')" using Cons.prems(5) s by simp
  have d: "distinct ps" "p \<notin> set ps" "set ps \<subseteq> set (group_names is)" using Cons.prems(2,4) by auto
  have act: "is_active (ms_db st1) q v \<longleftrightarrow> is_active s0 q v" if "q \<in> set ps" for q v
    using that one(2) d(2) Cons.prems(3) by (metis list.set_intros(2))
  note IH = Cons.IH[OF g1 d(1) act d(3) r]
  have "is_active (ms_db st') p = is_active (ms_db st1) p" using IH d(2) by auto
  moreover have "on_record fs' p c = on_record fs1 p c" for c by (rule activate_groups_others[OF r d(2)])
  ultimately have "follows_desired fs' (ListPlugins s0) p (group_of is p) (is_active s0 p) (is_active (ms_db st') p)"
    using one(3) follows_desired_same[of fs' p fs1] by simp
  then show ?case using IH one d(2) runtime_kept_trans by auto
qed

end

interpretation working: working_runtime "manager_runtime h"
  by unfold_locales (use Disable_active in \<open>auto simp: manager_runtime_def good_state_def\<close>)

section \<open>A pass\<close>

text \<open>The writes of resources leave the plugin tables and the processes alone.\<close>

definition writes_kept :: "manager_state \<Rightarrow> manager_state \<Rightarrow> bool" where
  "writes_kept st st' \<longleftrightarrow> plg_part (ms_db st') = plg_part (ms_db st) \<and> ms_open st' = ms_open st \<and> ms_next st' = ms_next st"

lemma writes_kept_refl [simp]: "writes_kept st st"
  by (simp add: writes_kept_def)

lemma writes_kept_trans: "writes_kept a b \<Longrightarrow> writes_kept b c \<Longrightarrow> writes_kept a c"
  by (simp add: writes_kept_def)

lemma writes_kept_facts:
  assumes "writes_kept st st'"
  shows "is_active (ms_db st') = is_active (ms_db st)" "ListPlugins (ms_db st') = ListPlugins (ms_db st)"
    "plain_versions (ms_db st') = plain_versions (ms_db st)" "good_state st \<Longrightarrow> good_state st'"
  using assms by (auto simp: writes_kept_def plg_part_def is_active_def ListPlugins_def plugin_of_def plain_versions_def good_state_def
      fresh_ids_def plugins_inv_def fun_eq_iff)

lemma ct_apply_kept:
  assumes "ct_apply ce doc opts st = (x, st')"
  shows "writes_kept st st'"
proof (cases "Apply (ce_at ce (ms_clock st)) (ce_uuid ce (ms_clock st)) [] (ms_db st) doc opts")
  case (Inl e)
  then show ?thesis using assms by (auto simp: ct_apply_def writes_kept_def tick_def)
next
  case (Inr ds)
  obtain d s' where ds: "ds = (d, s')" by fastforce
  have "exec_resource (ce_at ce (ms_clock st), ReqApply (ce_uuid ce (ms_clock st)) [] doc opts) (ms_db st) = Inr (Some d, s')"
    using Inr ds by simp
  from exec_resource_frame[OF this] show ?thesis using assms Inr ds by (auto simp: ct_apply_def writes_kept_def tick_def)
qed

lemma ensureProjections_kept: "ensureProjections ce rs st = (x, st') \<Longrightarrow> writes_kept st st'"
proof (induction rs arbitrary: st)
  case (Cons r rs)
  obtain y st1 where e: "ensureProjection ce r st = (y, st1)" by fastforce
  have k: "writes_kept st st1"
    using e ct_apply_kept by (fastforce simp: ensureProjection_def split: sum.splits prod.splits option.splits)
  show ?case
  proof (cases y)
    case (Inl err)
    then show ?thesis using Cons.prems e k by simp
  next
    case (Inr d)
    then show ?thesis using Cons.prems e k Cons.IH[of st1] writes_kept_trans by auto
  qed
qed simp

lemma write_statuses_kept: "write_statuses ce is records fs todo issues st = (x, issues', st') \<Longrightarrow> writes_kept st st'"
proof (induction todo arbitrary: issues st)
  case (Cons i todo)
  obtain status issue where si: "installationStatus i (group_of is (plg_plugin (in_spec i))) records fs = (status, issue)" by fastforce
  let ?u = "UpdateResourceStatus (ce_at ce (ms_clock st)) (ms_db st) ''PluginInstallation'' (meta_namespace (in_meta i)) (meta_name (in_meta i))
     (meta_generation (in_meta i)) status"
  have t: "writes_kept st (tick st)" by (simp add: writes_kept_def tick_def)
  show ?case
  proof (cases ?u)
    case (Inl e)
    then show ?thesis using Cons si t Cons.IH[of issues "tick st"] writes_kept_trans by (auto split: if_splits)
  next
    case (Inr ds)
    obtain d s' where ds: "ds = (d, s')" by fastforce
    have "exec_resource (ce_at ce (ms_clock st), ReqStatus ''PluginInstallation'' (meta_namespace (in_meta i)) (meta_name (in_meta i))
        (meta_generation (in_meta i)) status) (ms_db st) = Inr (Some d, s')" using Inr ds by simp
    from exec_resource_frame[OF this] have k: "writes_kept st (tick (st\<lparr>ms_db := s'\<rparr>))" by (simp add: writes_kept_def tick_def)
    have "write_statuses ce is records fs todo (case issue of None \<Rightarrow> issues | Some x \<Rightarrow> map_put (issue_key i) x issues) (tick (st\<lparr>ms_db := s'\<rparr>)) = (x, issues', st')"
      using Cons.prems si Inr ds by simp
    from writes_kept_trans[OF k Cons.IH[OF this]] show ?thesis .
  qed
qed simp

lemma reconcileLocked_steps:
  assumes "reconcileLocked ce rt ct = (None, ct')"
  obtains records st1 "is" fs st2 records2 ds st3 issues st4 where "rt_List rt (ct_manager ct) = Inr records"
    "ensureProjections ce records (ct_manager ct) = (None, st1)" "installations (ce_lib ce) (ms_db st1) = Inr is"
    "activate_groups rt records is (ce_order ce (ms_clock st1) (group_names is)) ([], st1) = (fs, st2)"
    "rt_List rt st2 = Inr records2" "rt_Health rt st2 = (ds, st3)"
    "write_statuses ce is records2 (health_failures ds fs) is [] st3 = (None, issues, st4)"
    "ct' = \<lparr>ct_manager = st4, ct_health = replaceIssues issues (ct_issueKeys ct) (ct_health ct), ct_issueKeys = map fst issues\<rparr>"
  using assms by (auto simp: reconcileLocked_def Let_def split: sum.splits prod.splits option.splits)

definition any_order :: "controller_env \<Rightarrow> bool" where
  "any_order ce \<longleftrightarrow> (\<forall>n ps. mset (ce_order ce n ps) = mset ps)"


section \<open>Statuses tell what was observed\<close>

definition resource_at :: "db \<Rightarrow> res_key \<Rightarrow> resource_row option" where
  "resource_at s k = select_row (\<lambda>r. row_key r = k) (db_resources s)"

definition inst_res_key :: "installation \<Rightarrow> res_key" where
  "inst_res_key i = (''PluginInstallation'', meta_namespace (in_meta i), meta_name (in_meta i))"

text \<open>The row an installation was read from is still there, in the same generation.\<close>

definition still_stored :: "db \<Rightarrow> installation \<Rightarrow> bool" where
  "still_stored s i \<longleftrightarrow> meta_namespace (in_meta i) \<noteq> [] \<and>
     (\<exists>c. resource_at s (inst_res_key i) = Some c \<and> res_generation c = meta_generation (in_meta i))"

definition shows_status :: "db \<Rightarrow> installation \<Rightarrow> (string \<times> json) list \<Rightarrow> bool" where
  "shows_status s i status \<longleftrightarrow> (\<exists>c. resource_at s (inst_res_key i) = Some c \<and> (res_status c = JObj status \<or> jsonEqual (res_status c) (JObj status)))"

lemma status_update_succeeds:
  assumes inv: "resources_inv (env_lib env) s" and i: "still_stored s i"
  obtains d s' where "UpdateResourceStatus env s ''PluginInstallation'' (meta_namespace (in_meta i)) (meta_name (in_meta i)) (meta_generation (in_meta i)) status = Inr (d, s')"
    "resources_inv (env_lib env) s'" "shows_status s' i status" "still_stored s' i"
    "\<And>k. k \<noteq> inst_res_key i \<Longrightarrow> resource_at s' k = resource_at s k"
proof -
  let ?k = "inst_res_key i"
  obtain c where c: "resource_at s ?k = Some c" "res_generation c = meta_generation (in_meta i)" and ns: "meta_namespace (in_meta i) \<noteq> []"
    using i by (auto simp: still_stored_def)
  have k: "?k = (''PluginInstallation'', default_ns (meta_namespace (in_meta i)), meta_name (in_meta i))"
    using ns by (simp add: inst_res_key_def default_ns_def)
  have cm: "c \<in> set (db_resources s)" "row_key c = ?k" using select_row_SomeD[OF c(1)[unfolded resource_at_def]] by auto
  have "row_ok (env_lib env) c" using inv cm(1) unfolding resources_inv_def by blast
  then obtain doc where doc: "decode_value (env_lib env) (res_json c) = Inr doc" by (auto elim: row_ok_decode)
  have fresh: "\<not> exists_row (\<lambda>x. ev_revision x = Suc (db_revision s)) (db_events s)"
    using inv by (auto simp: resources_inv_def exists_row_iff)
  obtain d s' where u: "UpdateResourceStatus env s ''PluginInstallation'' (meta_namespace (in_meta i)) (meta_name (in_meta i)) (meta_generation (in_meta i)) status = Inr (d, s')"
  proof (cases "jsonEqual (res_status c) (JObj status)")
    case True
    then show ?thesis using c k doc that by (simp add: UpdateResourceStatus_def Let_def find_resource_key resource_at_def)
  next
    case False
    then show ?thesis using c k doc fresh that
      by (simp add: UpdateResourceStatus_def Let_def find_resource_key resource_at_def nextRevision_def append_event_def)
  qed
  from UpdateResourceStatus_written[OF inv u k] obtain c' where c': "select_row (\<lambda>r. row_key r = ?k) (db_resources s) = Some c'"
    "jsonEqual (res_status c') (JObj status) \<and> s' = s \<and> decode_value (env_lib env) (res_json c') = Inr d \<or>
     \<not> jsonEqual (res_status c') (JObj status) \<and> status_written env s ?k c' status d s'" by blast
  have [simp]: "c' = c" using c'(1) c(1) by (simp add: resource_at_def)
  show ?thesis
  proof (cases "jsonEqual (res_status c) (JObj status)")
    case True
    then have "s' = s" using c'(2) by simp
    then show ?thesis using that[OF u] inv c True i by (auto simp: shows_status_def)
  next
    case False
    then have w: "status_written env s ?k c status d s'" using c'(2) by simp
    note ww = w[unfolded status_written_def]
    have inv': "resources_inv (env_lib env) s'" by (rule status_written_keeps_inv[OF inv _ w]) (use c(1) in \<open>simp add: resource_at_def\<close>)
    have at: "resource_at s' x = (if x = ?k then Some (row_of d (res_created c) (env_now env)) else resource_at s x)" for x
    proof -
      have "select_row (\<lambda>r. row_key r = x) (db_resources s') = (if x = ?k then map_option (\<lambda>_. row_of d (res_created c) (env_now env)) (resource_at s x) else resource_at s x)"
        using ww by (simp add: resource_at_def select_row_update_at_key[where key = row_key])
      then show ?thesis using c(1) by (simp add: resource_at_def)
    qed
    obtain d0 where d0: "doc_metadata d0 = rv_meta (res_json c)" "c = row_of d0 (res_created c) (res_updated c)"
      using inv cm(1) by (metis (no_types, lifting) resources_inv_def row_ok_decode doc_valid_def doc_coherent_def)
    have "meta_generation (doc_metadata d) = res_generation c" using ww by (subst d0(2)) (simp add: d0(1))
    then have "still_stored s' i" using at ns c(2) by (simp add: still_stored_def)
    moreover have "shows_status s' i status" using at ww by (simp add: shows_status_def)
    ultimately show ?thesis using that[OF u inv'] at by simp
  qed
qed

lemma status_reported:
  assumes "resources_inv (ce_lib ce) (ms_db st)" "\<forall>i \<in> set todo. still_stored (ms_db st) i" "distinct (map inst_res_key todo)"
    and "write_statuses ce is records fs todo issues st = (x, issues', st')"
  shows "x = None \<and> (\<forall>i \<in> set todo. still_stored (ms_db st') i \<and>
      shows_status (ms_db st') i (fst (installationStatus i (group_of is (plg_plugin (in_spec i))) records fs))) \<and>
    (\<forall>k. k \<notin> inst_res_key ` set todo \<longrightarrow> resource_at (ms_db st') k = resource_at (ms_db st) k) \<and>
    fst ` set issues' = fst ` set issues \<union> issue_key ` {i \<in> set todo. \<not> vd_ready (installation_verdict i (group_of is (plg_plugin (in_spec i))) records fs)}"
  using assms
proof (induction todo arbitrary: issues st)
  case (Cons i todo)
  obtain status issue where si: "installationStatus i (group_of is (plg_plugin (in_spec i))) records fs = (status, issue)" by fastforce
  have iss: "issue = None \<longleftrightarrow> vd_ready (installation_verdict i (group_of is (plg_plugin (in_spec i))) records fs)"
    using si by (auto simp: installationStatus_def Let_def split: if_splits)
  have lib: "env_lib (ce_at ce (ms_clock st)) = ce_lib ce" by (simp add: ce_at_def ce_lib_def)
  have inv: "resources_inv (env_lib (ce_at ce (ms_clock st))) (ms_db st)" using Cons.prems(1) lib by simp
  have i: "still_stored (ms_db st) i" using Cons.prems(2) by simp
  obtain d s' where u: "UpdateResourceStatus (ce_at ce (ms_clock st)) (ms_db st) ''PluginInstallation'' (meta_namespace (in_meta i)) (meta_name (in_meta i))
      (meta_generation (in_meta i)) status = Inr (d, s')"
    and inv': "resources_inv (env_lib (ce_at ce (ms_clock st))) s'" and sh: "shows_status s' i status" "still_stored s' i"
    and other: "\<And>k. k \<noteq> inst_res_key i \<Longrightarrow> resource_at s' k = resource_at (ms_db st) k"
    by (rule status_update_succeeds[OF inv i]) blast
  let ?st = "tick (st\<lparr>ms_db := s'\<rparr>)" and ?iss = "case issue of None \<Rightarrow> issues | Some x \<Rightarrow> map_put (issue_key i) x issues"
  have db: "ms_db ?st = s'" by (simp add: tick_def)
  have r: "write_statuses ce is records fs todo ?iss ?st = (x, issues', st')" using Cons.prems(4) si u by simp
  have nk: "inst_res_key i \<notin> inst_res_key ` set todo" and d: "distinct (map inst_res_key todo)" using Cons.prems(3) by auto
  have st: "\<forall>j \<in> set todo. still_stored (ms_db ?st) j"
  proof
    fix j assume j: "j \<in> set todo"
    then have "inst_res_key j \<noteq> inst_res_key i" using nk by (metis imageI)
    then show "still_stored (ms_db ?st) j" using Cons.prems(2) j other by (auto simp: still_stored_def db)
  qed
  note IH = Cons.IH[OF _ st d r, unfolded db, OF inv'[unfolded lib]]
  have at: "resource_at (ms_db st') (inst_res_key i) = resource_at s' (inst_res_key i)" using IH nk by blast
  have "shows_status (ms_db st') i status" "still_stored (ms_db st') i" using sh by (simp_all add: shows_status_def still_stored_def at)
  moreover have "resource_at (ms_db st') k = resource_at (ms_db st) k" if "k \<notin> inst_res_key ` set (i # todo)" for k
  proof -
    have "k \<noteq> inst_res_key i" "k \<notin> inst_res_key ` set todo" using that by auto
    then show ?thesis using IH other by metis
  qed
  moreover have "fst ` set ?iss = fst ` set issues \<union> (if vd_ready (installation_verdict i (group_of is (plg_plugin (in_spec i))) records fs) then {} else {issue_key i})"
    using iss by (cases issue) (auto simp: keys_map_put)
  ultimately show ?case using IH si by auto
qed simp

lemma decode_installation_row:
  assumes ok: "row_ok lib r" and kind: "res_kind r = ''PluginInstallation''" and d: "decode_row lib r = Inr d" and i: "decode_installation lib d = Inr i"
  shows "inst_res_key i = row_key r \<and> res_generation r = meta_generation (in_meta i) \<and> meta_namespace (in_meta i) \<noteq> [] \<and>
    rv_spec (res_json r) = SPluginInstallation (in_spec i) \<and> rv_meta (res_json r) = in_meta i"
proof -
  have dv: "decode_value lib (res_json r) = Inr d" using d by (auto simp: decode_row_def split: sum.splits)
  obtain d' where d': "decode_value lib (res_json r) = Inr d'" "doc_valid lib d'" "doc_JSON d' = res_json r" "r = row_of d' (res_created r) (res_updated r)"
    using row_ok_decode[OF ok] by metis
  then have v: "doc_valid lib d" "doc_JSON d = res_json r" "r = row_of d (res_created r) (res_updated r)" using dv by auto
  have c: "doc_metadata d = rv_meta (doc_JSON d)" "doc_spec d = rv_spec (doc_JSON d)" "meta_namespace (doc_metadata d) \<noteq> []" "doc_kind d = spec_kind (doc_spec d)"
    using v(1) by (auto simp: doc_valid_def doc_coherent_def)
  obtain p where p: "doc_spec d = SPluginInstallation p" "i = \<lparr>in_meta = rv_meta (doc_JSON d), in_spec = p, in_status = rv_status (doc_JSON d)\<rparr>"
    using i decode_value_JSON[OF v(1)] c
    by (auto simp: decode_installation_def DecodePluginInstallation_def decode_as_def split: sum.splits if_splits spec.splits)
  have "row_key r = doc_key d" "res_generation r = meta_generation (doc_metadata d)" by (subst v(3), simp)+
  then show ?thesis using p c v(2) kind by (simp add: inst_res_key_def doc_key_def)
qed

lemma installations_stored:
  assumes inv: "resources_inv lib s" and read: "installations lib s = Inr is"
  shows "\<forall>i \<in> set is. still_stored s i" "distinct (map inst_res_key is)"
proof -
  let ?rows = "take (page_limit 1000) (sort_key row_key (filter (in_scope ''PluginInstallation'' []) (db_resources s)))"
  obtain docs ls where l: "decode_rows lib ?rows = Inr docs" "decode_installations lib docs = Inr ls" "is = sort_key installation_key ls"
    using read by (auto simp: installations_def ListResources_def split: sum.splits)
  have sub: "set ?rows \<subseteq> set (filter (in_scope ''PluginInstallation'' []) (db_resources s))" by (auto dest: in_set_takeD)
  have rows: "\<forall>r \<in> set ?rows. row_ok lib r \<and> res_kind r = ''PluginInstallation'' \<and> r \<in> set (db_resources s)"
    using sub inv by (auto simp: resources_inv_def in_scope_def)
  have aux: "map inst_res_key ls = map row_key rs \<and> (\<forall>i \<in> set ls. \<exists>r \<in> set rs. row_key r = inst_res_key i \<and>
      res_generation r = meta_generation (in_meta i) \<and> meta_namespace (in_meta i) \<noteq> [])"
    if "decode_rows lib rs = Inr docs" "decode_installations lib docs = Inr ls" "\<forall>r \<in> set rs. row_ok lib r \<and> res_kind r = ''PluginInstallation''" for rs docs ls
    using that
  proof (induction rs arbitrary: docs ls)
    case (Cons r rs)
    obtain d ds where d: "decode_row lib r = Inr d" "decode_rows lib rs = Inr ds" "docs = d # ds"
      using Cons.prems(1) by (auto split: sum.splits)
    obtain i js where i: "decode_installation lib d = Inr i" "decode_installations lib ds = Inr js" "ls = i # js"
      using Cons.prems(2) d(3) by auto
    have "inst_res_key i = row_key r \<and> res_generation r = meta_generation (in_meta i) \<and> meta_namespace (in_meta i) \<noteq> []"
      using decode_installation_row[OF _ _ d(1) i(1)] Cons.prems(3) by auto
    then show ?case using Cons.IH[OF d(2) i(2)] Cons.prems(3) i(3) by auto
  qed simp
  have rk: "\<forall>r \<in> set ?rows. row_ok lib r \<and> res_kind r = ''PluginInstallation''" using rows by blast
  note a = aux[OF l(1,2) rk]
  have "distinct (map row_key (db_resources s))" using inv unfolding resources_inv_def by blast
  then have "distinct (map row_key (filter (in_scope ''PluginInstallation'' []) (db_resources s)))" by (rule distinct_map_filter)
  then have "distinct (map row_key (sort_key row_key (filter (in_scope ''PluginInstallation'' []) (db_resources s))))"
    by (simp add: distinct_map)
  then have dr: "distinct (map row_key ?rows)" by (simp add: distinct_take flip: take_map)
  then have "distinct (map inst_res_key ls)" unfolding conjunct1[OF a] .
  then show "distinct (map inst_res_key is)" using l(3) by (simp add: distinct_map)
  show "\<forall>i \<in> set is. still_stored s i"
  proof
    fix i assume "i \<in> set is"
    then have "i \<in> set ls" using l(3) by simp
    then obtain r where r: "r \<in> set ?rows" "row_key r = inst_res_key i" "res_generation r = meta_generation (in_meta i)" "meta_namespace (in_meta i) \<noteq> []"
      using conjunct2[OF a] by blast
    have "r \<in> set (db_resources s)" using r(1) rows by blast
    from select_row_key_unique[OF \<open>distinct (map row_key (db_resources s))\<close> this]
    have "resource_at s (inst_res_key i) = Some r" using r(2) by (simp add: resource_at_def)
    then show "still_stored s i" using r by (simp add: still_stored_def)
  qed
qed

lemma map_of_status:
  assumes "installationStatus i gr records fs = (status, issue)"
  shows "map_of status ''phase'' = Some (JStr (vd_phase (installation_verdict i gr records fs)))"
    "map_of status ''active'' = Some (JBool (installation_active i records))"
    "map_of status ''observedGeneration'' = Some (JInt (int (meta_generation (in_meta i))))"
  using assms by (auto simp: installationStatus_def Let_def)

lemma verdict_active:
  "vd_phase (installation_verdict i gr records fs) = ''Active'' \<Longrightarrow> in_enabled i \<and> installation_active i records"
  by (auto simp: installation_verdict_def Let_def split: if_splits option.splits)

lemma plugin_frame_versions:
  assumes "plugin_frame s s'"
  shows "(\<exists>i \<in> set (db_installations s'). ins_name i = n \<and> ins_version i = v \<and> ins_digest i = d) \<longleftrightarrow>
     (\<exists>i \<in> set (db_installations s). ins_name i = n \<and> ins_version i = v \<and> ins_digest i = d)"
proof -
  have e: "(\<exists>i \<in> set is. ins_name i = n \<and> ins_version i = v \<and> ins_digest i = d) \<longleftrightarrow> (n, v, d) \<in> (\<lambda>(a, b, c, e). (a, b, c)) ` set (map install_identity is)" for "is"
    by (force simp: install_identity_def)
  have "map install_identity (db_installations s') = map install_identity (db_installations s)" using assms by (auto simp: plugin_frame_def)
  then show ?thesis unfolding e by (simp only:)
qed

lemma ensureProjections_inv:
  assumes "resources_inv (ce_lib ce) (ms_db st)" "ensureProjections ce rs st = (x, st')"
  shows "resources_inv (ce_lib ce) (ms_db st')"
  using assms
proof (induction rs arbitrary: st)
  case (Cons r rs)
  obtain y st1 where e: "ensureProjection ce r st = (y, st1)" by fastforce
  have "resources_inv (ce_lib ce) (ms_db st1)"
  proof (cases "ms_db st1 = ms_db st")
    case False
    then obtain doc opts where d: "installation_document (ce_lib ce) (projection_of r) = Inr doc" "ct_apply ce doc opts st = (y, st1)"
      using e by (auto simp: ensureProjection_def split: sum.splits prod.splits option.splits)
    obtain d' s' where a: "Apply (ce_at ce (ms_clock st)) (ce_uuid ce (ms_clock st)) [] (ms_db st) doc opts = Inr (d', s')" "ms_db st1 = s'"
      using d(2) False by (auto simp: ct_apply_def tick_def split: sum.splits prod.splits)
    have q: "resource_request_ok (ce_lib ce) (ce_at ce (ms_clock st), ReqApply (ce_uuid ce (ms_clock st)) [] doc opts)"
      using decode_value_valid d(1) by (auto simp: installation_document_def ce_at_def ce_lib_def)
    have "exec_resource (ce_at ce (ms_clock st), ReqApply (ce_uuid ce (ms_clock st)) [] doc opts) (ms_db st) = Inr (Some d', s')" using a(1) by simp
    from exec_resource_step[OF Cons.prems(1) q this] show ?thesis using a(2) by simp
  qed (use Cons.prems(1) in simp)
  then show ?case using Cons.IH[of st1] Cons.prems(2) e by (cases y) auto
qed simp

lemma installation_active_iff:
  assumes inv: "plugins_inv s"
  shows "installation_active i (ListPlugins s) \<longleftrightarrow> is_active s (plg_plugin (in_spec i)) (plg_version (in_spec i)) \<and>
     (\<exists>r \<in> set (db_installations s). ins_name r = plg_plugin (in_spec i) \<and> ins_version r = plg_version (in_spec i) \<and> ins_digest r = plg_digest (in_spec i))"
    (is "_ \<longleftrightarrow> is_active s ?p ?v \<and> _")
proof
  assume "installation_active i (ListPlugins s)"
  then obtain a where a: "index_active (ListPlugins s) ?p = Some a" "pr_version a = ?v" "pr_digest a = plg_digest (in_spec i)"
    by (auto simp: installation_active_def split: option.splits)
  have "a \<in> set (ListPlugins s)" "pr_name a = ?p" using select_row_SomeD[OF a(1)[unfolded index_active_def]] by auto
  then show "is_active s ?p ?v \<and> (\<exists>r \<in> set (db_installations s). ins_name r = ?p \<and> ins_version r = ?v \<and> ins_digest r = plg_digest (in_spec i))"
    using index_active_Some[OF a(1)] a(2,3) by (auto simp: ListPlugins_mem plugin_of_def)
next
  assume h: "is_active s ?p ?v \<and> (\<exists>r \<in> set (db_installations s). ins_name r = ?p \<and> ins_version r = ?v \<and> ins_digest r = plg_digest (in_spec i))"
  then obtain r where r: "r \<in> set (db_installations s)" "ins_name r = ?p" "ins_version r = ?v" "ins_digest r = plg_digest (in_spec i)" by blast
  show "installation_active i (ListPlugins s)"
  proof (cases "index_active (ListPlugins s) ?p")
    case None
    then show ?thesis using index_active_None[OF inv None] h by simp
  next
    case (Some a)
    have a: "a \<in> set (ListPlugins s)" "pr_name a = ?p" using select_row_SomeD[OF Some[unfolded index_active_def]] by auto
    have v: "pr_version a = ?v" using active_unique[OF inv] index_active_Some[OF Some] h by blast
    obtain q where q: "q \<in> set (db_installations s)" "a = plugin_of s q" using a(1) by (auto simp: ListPlugins_mem)
    have "inj_on (\<lambda>i. (ins_name i, ins_version i)) (set (db_installations s))"
      using inv unfolding plugins_inv_def distinct_map by blast
    moreover have "(ins_name q, ins_version q) = (ins_name r, ins_version r)" using q(2) a(2) v r(2,3) by (simp add: plugin_of_def)
    ultimately have "q = r" using q(1) r(1) by (simp add: inj_onD)
    then show ?thesis using Some v q(2) r(4) by (simp add: installation_active_def plugin_of_def)
  qed
qed

text \<open>What is known after a pass that succeeded.\<close>

lemma successful_pass:
  assumes g: "good_state (ct_manager ct)" and plain: "plain_versions (ms_db (ct_manager ct))" and o: "any_order ce"
    and inv: "resources_inv (ce_lib ce) (ms_db (ct_manager ct))" and r: "reconcileLocked ce (manager_runtime h) ct = (None, ct')"
  obtains st1 "is" records fs issues where
    "ensureProjections ce (ListPlugins (ms_db (ct_manager ct))) (ct_manager ct) = (None, st1)" "installations (ce_lib ce) (ms_db st1) = Inr is"
    "\<And>i. i \<in> set is \<Longrightarrow> still_stored (ms_db (ct_manager ct')) i \<and>
       shows_status (ms_db (ct_manager ct')) i (fst (installationStatus i (group_of is (plg_plugin (in_spec i))) records fs))"
    "\<And>i. installation_active i records \<longleftrightarrow> is_active (ms_db (ct_manager ct')) (plg_plugin (in_spec i)) (plg_version (in_spec i)) \<and>
       (\<exists>r \<in> set (db_installations (ms_db (ct_manager ct'))). ins_name r = plg_plugin (in_spec i) \<and> ins_version r = plg_version (in_spec i) \<and> ins_digest r = plg_digest (in_spec i))"
    "fst ` set issues = issue_key ` {i \<in> set is. \<not> vd_ready (installation_verdict i (group_of is (plg_plugin (in_spec i))) records fs)}"
    "ct_health ct' = replaceIssues issues (ct_issueKeys ct) (ct_health ct)" "ct_issueKeys ct' = map fst issues"
proof -
  let ?s0 = "ms_db (ct_manager ct)" and ?rt = "manager_runtime h"
  from r obtain recs st1 "is" fs0 st2 records ds st3 issues st4 where s: "rt_List ?rt (ct_manager ct) = Inr recs"
    "ensureProjections ce recs (ct_manager ct) = (None, st1)" "installations (ce_lib ce) (ms_db st1) = Inr is"
    "activate_groups ?rt recs is (ce_order ce (ms_clock st1) (group_names is)) ([], st1) = (fs0, st2)"
    "rt_List ?rt st2 = Inr records" "rt_Health ?rt st2 = (ds, st3)"
    "write_statuses ce is records (health_failures ds fs0) is [] st3 = (None, issues, st4)"
    "ct' = \<lparr>ct_manager = st4, ct_health = replaceIssues issues (ct_issueKeys ct) (ct_health ct), ct_issueKeys = map fst issues\<rparr>"
    by (rule reconcileLocked_steps)
  have rec: "recs = ListPlugins ?s0" "records = ListPlugins (ms_db st2)" using managed.list_records s(1,5) by auto
  note k1 = writes_kept_facts[OF ensureProjections_kept[OF s(2)]]
  let ?ps = "ce_order ce (ms_clock st1) (group_names is)"
  have ms: "mset ?ps = mset (group_names is)" using o by (simp add: any_order_def)
  have ps: "distinct ?ps" "set ?ps = set (group_names is)"
    using mset_eq_imp_distinct_iff[OF ms] mset_eq_setD[OF ms] by (simp_all add: group_names_def)
  have inv0: "plugins_inv ?s0" and g1: "good_state st1" using g k1(4) by (auto simp: good_state_def)
  have a1: "runtime_kept st1 st2"
    using working.activate_groups_settle[OF g1 inv0 plain ps(1) _ _ s(4)[unfolded rec(1)]] ps(2) k1(1) by auto
  then have g2: "good_state st2" by (simp add: runtime_kept_def)
  note he = managed.health_observes[OF g2 s(6)]
  have fr: "plugin_frame (ms_db st1) (ms_db st3)" using runtime_kept_trans[OF a1] he by (simp add: runtime_kept_def)
  then have same: "res_part (ms_db st3) = res_part (ms_db st1)" by (auto simp: plugin_frame_def res_part_def)
  have inv1: "resources_inv (ce_lib ce) (ms_db st1)" by (rule ensureProjections_inv[OF inv s(2)])
  then have inv3: "resources_inv (ce_lib ce) (ms_db st3)" using resources_part[OF same] by blast
  have st: "\<forall>i \<in> set is. still_stored (ms_db st3) i"
    using installations_stored(1)[OF inv1 s(3)] same by (simp add: still_stored_def resource_at_def res_part_def)
  note w = status_reported[OF inv3 st installations_stored(2)[OF inv1 s(3)] s(7)]
  have act: "is_active (ms_db st4) = is_active (ms_db st2)"
    using he writes_kept_facts(1)[OF write_statuses_kept[OF s(7)]] by (auto simp: fun_eq_iff)
  have ins: "(\<exists>r \<in> set (db_installations (ms_db st4)). ins_name r = n \<and> ins_version r = v \<and> ins_digest r = d) \<longleftrightarrow>
      (\<exists>r \<in> set (db_installations (ms_db st2)). ins_name r = n \<and> ins_version r = v \<and> ins_digest r = d)" for n v d
    using plugin_frame_versions[of "ms_db st2" "ms_db st3"] he write_statuses_kept[OF s(7)]
    by (simp add: runtime_kept_def writes_kept_def plg_part_def)
  have p2: "plugins_inv (ms_db st2)" using g2 by (simp add: good_state_def)
  show ?thesis
  proof (rule that[OF s(2)[unfolded rec(1)] s(3)])
    show "still_stored (ms_db (ct_manager ct')) i \<and> shows_status (ms_db (ct_manager ct')) i
        (fst (installationStatus i (group_of is (plg_plugin (in_spec i))) records (health_failures ds fs0)))" if "i \<in> set is" for i
      using w that s(8) by simp
    show "installation_active i records \<longleftrightarrow> is_active (ms_db (ct_manager ct')) (plg_plugin (in_spec i)) (plg_version (in_spec i)) \<and>
       (\<exists>r \<in> set (db_installations (ms_db (ct_manager ct'))). ins_name r = plg_plugin (in_spec i) \<and> ins_version r = plg_version (in_spec i) \<and> ins_digest r = plg_digest (in_spec i))" for i
      unfolding rec(2) installation_active_iff[OF p2] using act ins s(8) by simp
    show "fst ` set issues = issue_key ` {i \<in> set is. \<not> vd_ready (installation_verdict i (group_of is (plg_plugin (in_spec i))) records (health_failures ds fs0))}"
      using w by simp
    show "ct_health ct' = replaceIssues issues (ct_issueKeys ct) (ct_health ct)" "ct_issueKeys ct' = map fst issues" using s(8) by simp_all
  qed
qed


section \<open>A sample pass\<close>

text \<open>Listing below the limit, in a form that evaluates.\<close>

definition list_unbounded :: "resource_lib \<Rightarrow> db \<Rightarrow> string \<Rightarrow> (store_error, document list \<times> nat) result" where
  "list_unbounded lib s kind = (case decode_rows lib (sort_key row_key (filter (in_scope kind []) (db_resources s))) of
     Inl e \<Rightarrow> Inl e | Inr ds \<Rightarrow> Inr (ds, db_revision s))"

lemma list_small: "length (db_resources s) \<le> 1000 \<Longrightarrow> ListResources lib s kind [] 1000 = list_unbounded lib s kind"
proof -
  assume "length (db_resources s) \<le> 1000"
  then have "length (sort_key row_key (filter (in_scope kind []) (db_resources s))) \<le> 1000"
    using le_trans[OF length_filter_le] by (simp only: length_sort)
  then show ?thesis by (simp add: ListResources_def list_unbounded_def page_limit_def)
qed

definition sample_controller_env :: controller_env where
  "sample_controller_env = \<lparr>ce_store = Samples.sample_env, ce_now = (\<lambda>_. 5), ce_uuid = (\<lambda>_. ''u''), ce_order = (\<lambda>_ ps. ps)\<rparr>"

definition sample_projection :: document where
  "sample_projection = sample_doc ''git-1-0-0-d1'' (SPluginInstallation \<lparr>plg_plugin = ''git'', plg_version = ''1.0.0'', plg_digest = ''d1'', plg_enabled = Some False\<rparr>)"

definition sample_adopted :: "(store_error, document \<times> db) result" where
  "sample_adopted = Apply Samples.sample_env ''u'' [] sample_installed sample_projection \<lparr>opt_expectedResourceVersion = 0,
     opt_requestID = ''adopt-plugin-git-1.0.0'', opt_actor = ''plugin-controller'', opt_context = []\<rparr>"

definition sample_adopted_db :: db where
  "sample_adopted_db = commit sample_installed sample_adopted"

definition sample_controller :: controller where
  "sample_controller = New_controller sample_manager"

definition sample_installation :: installation where
  "sample_installation = \<lparr>in_meta = (Samples.sample_meta ''git-1-0-0-d1'')\<lparr>meta_uid := ''u'', meta_resourceVersion := 1, meta_generation := 1\<rparr>,
     in_spec = \<lparr>plg_plugin = ''git'', plg_version = ''1.0.0'', plg_digest = ''d1'', plg_enabled = Some False\<rparr>, in_status = []\<rparr>"

lemma sample_env_at: "ce_at sample_controller_env n = Samples.sample_env"
  by (simp add: ce_at_def sample_controller_env_def Samples.sample_env_def)

lemma sample_records: "ListPlugins sample_installed = [sample_record\<lparr>pr_installed := Some 5\<rparr>]"
  by code_simp

lemma sample_pass_steps:
  "installation_document Samples.sample_lib (projection_of (sample_record\<lparr>pr_installed := Some 5\<rparr>)) = Inr sample_projection"
  "is_ok sample_adopted" "length (db_resources sample_adopted_db) \<le> 1000" "db_resources sample_installed = []"
  "bind_res (list_unbounded Samples.sample_lib sample_adopted_db ''PluginInstallation'') (\<lambda>(docs, rv). decode_installations Samples.sample_lib docs) = Inr [sample_installation]"
  "filter pr_active (ListPlugins sample_adopted_db) = []"
  "index_active [sample_record\<lparr>pr_installed := Some 5\<rparr>] ''git'' = None"
  by code_simp+

lemma is_ok_Inr: "is_ok r \<Longrightarrow> \<exists>d s'. r = Inr (d, s')"
  by (cases r) auto

lemma sample_manager_parts: "ms_db sample_manager = sample_installed" "ms_clock sample_manager = ms_clock (NewWithLimits empty_db [] 4 2)"
  by (simp_all add: sample_manager_def NewWithLimits_def split: prod.splits)

lemma sample_lib_of: "ce_lib sample_controller_env = Samples.sample_lib" "ce_uuid sample_controller_env n = ''u''"
  by (simp_all add: ce_lib_def sample_controller_env_def Samples.sample_env_def)

lemma sample_resources_inv: "resources_inv Samples.sample_lib sample_installed" "resources_inv Samples.sample_lib sample_adopted_db"
proof -
  have "res_part sample_installed = res_part empty_db" by code_simp
  then show a: "resources_inv Samples.sample_lib sample_installed" using resources_part empty_db_inv by blast
  obtain d s' where ok: "sample_adopted = Inr (d, s')" using is_ok_Inr[OF sample_pass_steps(2)] by blast
  then have e: "exec_resource (Samples.sample_env, ReqApply ''u'' [] sample_projection \<lparr>opt_expectedResourceVersion = 0,
     opt_requestID = ''adopt-plugin-git-1.0.0'', opt_actor = ''plugin-controller'', opt_context = []\<rparr>) sample_installed = Inr (Some d, s')"
    by (simp add: sample_adopted_def)
  have q: "resource_request_ok Samples.sample_lib (Samples.sample_env, ReqApply ''u'' [] sample_projection \<lparr>opt_expectedResourceVersion = 0,
     opt_requestID = ''adopt-plugin-git-1.0.0'', opt_actor = ''plugin-controller'', opt_context = []\<rparr>)"
    using decode_value_valid sample_pass_steps(1) by (auto simp: installation_document_def Samples.sample_env_def)
  show "resources_inv Samples.sample_lib sample_adopted_db" using exec_resource_step[OF a q e] by (simp add: sample_adopted_db_def, subst ok) simp
qed

lemma sample_adoption:
  "ensureProjections sample_controller_env (ListPlugins sample_installed) sample_manager = (None, tick (sample_manager\<lparr>ms_db := sample_adopted_db\<rparr>))"
proof -
  obtain d s' where ok: "sample_adopted = Inr (d, s')" using is_ok_Inr[OF sample_pass_steps(2)] by blast
  have l: "ListResources Samples.sample_lib sample_installed ''PluginInstallation'' [] 1000 = Inr ([], db_revision sample_installed)"
    using sample_pass_steps(4) by (simp add: ListResources_def)
  have n: "pr_name (sample_record\<lparr>pr_installed := Some 5\<rparr>) = ''git''" "pr_version (sample_record\<lparr>pr_installed := Some 5\<rparr>) = ''1.0.0''"
    by (simp_all add: sample_record_def)
  show ?thesis unfolding sample_records using ok[unfolded sample_adopted_def]
    by (simp add: ensureProjection_def sample_lib_of sample_manager_parts l sample_pass_steps(1) ct_apply_def sample_env_at n
      sample_adopted_db_def tick_def) (subst ok, simp)
qed

lemma sample_listed: "installations Samples.sample_lib sample_adopted_db = Inr [sample_installation]"
proof -
  obtain docs where l: "list_unbounded Samples.sample_lib sample_adopted_db ''PluginInstallation'' = Inr docs" "decode_installations Samples.sample_lib (fst docs) = Inr [sample_installation]"
    using sample_pass_steps(5) by (auto split: prod.splits)
  then show ?thesis by (cases docs) (simp add: installations_def list_small[OF sample_pass_steps(3)])
qed

lemma sample_quiet:
  assumes "ms_db st = sample_adopted_db" "ms_activities st = ms_activities sample_manager" "ms_agents st = ms_agents sample_manager"
  shows "rt_Health (manager_runtime sample_host) st = ([], st)"
  using assms sample_pass_steps(6)
  by (simp add: manager_runtime_def manager_HealthDiagnostics_def saturated_def) (simp add: sample_manager_def NewWithLimits_def effective_limits_def newCallLimiter_def)

lemma sample_group: "activate_groups rt (ListPlugins sample_installed) [sample_installation] (ce_order sample_controller_env n (group_names [sample_installation])) ([], st) = ([], st)"
  using sample_pass_steps(7) unfolding sample_records
  by (simp add: sample_controller_env_def group_names_def group_of_def sample_installation_def activate_group_def enabledInstallations_def in_enabled_def)

lemma sample_controller_parts: "ct_manager sample_controller = sample_manager"
  by (simp add: sample_controller_def New_controller_def)

lemma sample_controller_good: "good_state (ct_manager sample_controller)"
  using sample_good by (simp add: sample_controller_parts)

lemma sample_plain: "plain_versions (ms_db (ct_manager sample_controller))"
proof -
  have "list_all (\<lambda>i. CHR ''@'' \<notin> set (ins_name i) \<and> CHR ''@'' \<notin> set (ins_version i)) (db_installations sample_installed)" by code_simp
  then show ?thesis by (simp add: plain_versions_def list_all_iff sample_controller_parts sample_manager_parts)
qed

lemma sample_reconciled: "\<exists>ct'. Reconcile sample_controller_env (manager_runtime sample_host) sample_controller = (None, ct')"
proof -
  let ?st1 = "tick (sample_manager\<lparr>ms_db := sample_adopted_db\<rparr>)" and ?rt = "manager_runtime sample_host"
  have st1: "ms_db ?st1 = sample_adopted_db" "ms_activities ?st1 = ms_activities sample_manager" "ms_agents ?st1 = ms_agents sample_manager"
    by (simp_all add: tick_def)
  have l: "rt_List ?rt st = Inr (ListPlugins (ms_db st))" for st by (simp add: manager_runtime_def List_plugins_def)
  have "select_row (\<lambda>r. row_key r = (''PluginInstallation'', ''default'', ''git-1-0-0-d1'')) (db_resources sample_adopted_db) \<noteq> None \<and>
      map_option res_generation (select_row (\<lambda>r. row_key r = (''PluginInstallation'', ''default'', ''git-1-0-0-d1'')) (db_resources sample_adopted_db)) = Some 1"
    by code_simp
  then have "still_stored sample_adopted_db sample_installation"
    by (auto simp: still_stored_def resource_at_def inst_res_key_def sample_installation_def Samples.sample_meta_def)
  then have still: "\<forall>i \<in> set [sample_installation]. still_stored (ms_db ?st1) i" using st1(1) by simp
  have d: "distinct (map inst_res_key [sample_installation])" by simp
  have inv: "resources_inv (ce_lib sample_controller_env) (ms_db ?st1)" using sample_resources_inv(2) st1(1) by (simp add: sample_lib_of)
  obtain x issues st4 where w: "write_statuses sample_controller_env [sample_installation] (ListPlugins sample_adopted_db) [] [sample_installation] [] ?st1
    = (x, issues, st4)" by (rule prod_cases3)
  have x: "x = None" using status_reported[OF inv still d w] by blast
  show ?thesis
    by (simp add: Reconcile_def reconcileLocked_def Let_def l sample_controller_parts sample_manager_parts sample_adoption st1(1) sample_lib_of
      sample_listed sample_group sample_quiet[OF st1] w x del: write_statuses.simps)
qed



end
