(* ===== verification/Retention_Service.thy ===== *)
theory Retention_Service
  imports Engine_Adapter "HOL-Library.Sublist"
begin

text \<open>
  Retention over the store and the file system, \<open>internal/retention/retention.go\<close>.

  A clean absolute path is the list of its components, and \<open>filepath.Join\<close>, \<open>Clean\<close> and \<open>Rel\<close> on such paths are functions on these lists. The
  file system is a list of paths with their nodes; no component above a path is a symbolic link. \<open>fs_fails\<close> says at which paths the system
  refuses an operation. Removing the durable history of a Run is a parameter, as the interface \<open>FinishedRunPruner\<close> is. \<open>Apply\<close> is run with the
  store to itself.

  The theorems: a dry run changes nothing; a collection removes only paths strictly inside the state directory, and removes none before the
  rows of the Runs are deleted; the plan of backups keeps the newest ones and everything after the cutoff.
\<close>

section \<open>Paths\<close>

type_synonym path = "string list"

definition clean_step :: "path \<Rightarrow> string \<Rightarrow> path" where
  "clean_step acc c = (if c = [] \<or> c = ''.'' then acc else if c = ''..'' then butlast acc else acc @ [c])"

definition join_path :: "path \<Rightarrow> string \<Rightarrow> path" where
  "join_path base elem = foldl clean_step base (split_on (CHR ''/'') elem)"

definition IsAbs :: "string \<Rightarrow> bool" where
  "IsAbs p \<longleftrightarrow> has_prefix p ''/''"

text \<open>\<open>filepath.Rel\<close> of two clean absolute paths: how many steps up, and the rest of the target.\<close>

fun rel_path :: "path \<Rightarrow> path \<Rightarrow> nat \<times> path" where
  "rel_path [] t = (0, t)"
| "rel_path (b # bs) [] = (Suc (length bs), [])"
| "rel_path (b # bs) (t # ts) = (if b = t then rel_path bs ts else (Suc (length bs), t # ts))"

section \<open>Files\<close>

datatype file_node = Regular int time | Directory | Symlink | Special

type_synonym file_system = "(path \<times> file_node) list"

record 'b retention_env =
  re_env :: store_env
  fs_fails :: "path \<Rightarrow> string option"
  re_pruner :: "(string \<Rightarrow> 'b \<Rightarrow> (string, unit) result \<times> 'b) option"

datatype retention_error = RetStore store_error | RetText string

text \<open>\<open>os.Lstat\<close>: \<open>Inr None\<close> is a path that does not exist.\<close>

definition lstat :: "'b retention_env \<Rightarrow> path \<Rightarrow> file_system \<Rightarrow> (retention_error, file_node option) result" where
  "lstat re p fs = (case fs_fails re p of Some e \<Rightarrow> Inl (RetText e) | None \<Rightarrow> Inr (map_of fs p))"

text \<open>\<open>os.Remove\<close>: the new file system, or whether the path is missing; a directory must be empty.\<close>

datatype remove_result = Removed file_system | Missing | RemoveFailed string

definition os_remove :: "'b retention_env \<Rightarrow> path \<Rightarrow> file_system \<Rightarrow> remove_result" where
  "os_remove re p fs =
     (case fs_fails re p of
        Some e \<Rightarrow> RemoveFailed e
      | None \<Rightarrow> (case map_of fs p of
          None \<Rightarrow> if p = [] then RemoveFailed ''device or resource busy'' else Missing
        | Some n \<Rightarrow> if p = [] \<or> (n = Directory \<and> list_ex (\<lambda>(q, _). strict_prefix p q) fs) then RemoveFailed ''directory not empty''
            else Removed (filter (\<lambda>(q, _). q \<noteq> p) fs)))"

definition remove_all :: "path \<Rightarrow> file_system \<Rightarrow> file_system" where
  "remove_all p fs = filter (\<lambda>(q, _). \<not> prefix p q) fs"

definition safeStatePath :: "path \<Rightarrow> string \<Rightarrow> (retention_error, path) result" where
  "safeStatePath root relative =
     (if relative = [] \<or> IsAbs relative then Inl (RetText ''retention artifact path is not relative'')
      else let target = join_path root relative in
        if fst (rel_path root target) > 0 then Inl (RetText (''retention artifact path '' @ relative @ '' escapes state directory'')) else Inr target)"

definition inspectArtifact :: "'b retention_env \<Rightarrow> path \<Rightarrow> string \<Rightarrow> file_system \<Rightarrow> (retention_error, path \<times> file_node option) result" where
  "inspectArtifact re root relative fs =
     bind_res (safeStatePath root relative) (\<lambda>path.
     bind_res (lstat re path fs) (\<lambda>info. case info of
         None \<Rightarrow> Inr (path, None)
       | Some (Regular sz modified) \<Rightarrow> Inr (path, Some (Regular sz modified))
       | Some _ \<Rightarrow> Inl (RetText ''retention refuses a non-regular artifact entry'')))"

definition removeTreeWithin :: "'b retention_env \<Rightarrow> path \<Rightarrow> path \<Rightarrow> file_system \<Rightarrow> (retention_error, file_system) result" where
  "removeTreeWithin re root target fs =
     (let (ups, rest) = rel_path root target in
      if ups > 0 \<or> rest = [] then Inl (RetText ''retention tree escaped its owned root'')
      else bind_res (lstat re target fs) (\<lambda>info. case info of
          None \<Rightarrow> Inr fs
        | Some Symlink \<Rightarrow> Inl (RetText ''retention refuses a symlink workspace'')
        | Some _ \<Rightarrow> Inr (remove_all target fs)))"

function removeEmptyParents :: "'b retention_env \<Rightarrow> path \<Rightarrow> path \<Rightarrow> file_system \<Rightarrow> file_system" where
  "removeEmptyParents re root current fs =
     (if current = root then fs
      else (case os_remove re current fs of
          RemoveFailed _ \<Rightarrow> fs
        | Missing \<Rightarrow> removeEmptyParents re root (butlast current) fs
        | Removed fs' \<Rightarrow> removeEmptyParents re root (butlast current) fs'))"
  by pat_completeness auto

termination
proof (relation "measure (\<lambda>(re, root, current, fs). length current)")
  have "p \<noteq> []" if "os_remove re p fs = Missing \<or> os_remove re p fs = Removed fs'" for re :: "'b retention_env" and p fs fs'
    using that by (auto simp: os_remove_def split: option.splits if_splits)
  then show "((re, root, butlast current, fs), re, root, current, fs) \<in> measure (\<lambda>(re, root, current, fs). length current)"
    if "os_remove re current fs = Missing" for re :: "'b retention_env" and root current fs
    using that by (cases current) auto
  show "((re, root, butlast current, fs'), re, root, current, fs) \<in> measure (\<lambda>(re, root, current, fs). length current)"
    if "os_remove re current fs = Removed fs'" for re :: "'b retention_env" and root current fs fs'
    using that by (cases current) (auto simp: os_remove_def split: option.splits if_splits)
qed simp

declare removeEmptyParents.simps [simp del]

section \<open>Backups and plugin trees\<close>

record backup_candidate =
  bc_name :: string
  bc_modTime :: time
  bc_size :: int

definition has_suffix :: "string \<Rightarrow> string \<Rightarrow> bool" where
  "has_suffix s p \<longleftrightarrow> has_prefix (rev s) (rev p)"

definition backup_files :: "path \<Rightarrow> file_system \<Rightarrow> backup_candidate list" where
  "backup_files root fs = List.map_filter (\<lambda>(p, n). case n of
       Regular sz modified \<Rightarrow> if p \<noteq> [] \<and> butlast p = root \<and> has_suffix (last p) ''.tar.gz'' then Some \<lparr>bc_name = last p, bc_modTime = modified, bc_size = sz\<rparr> else None
     | _ \<Rightarrow> None) fs"

text \<open>Newest first; \<open>limit\<close> bounds the result when it is positive.\<close>

definition select_backups :: "backup_candidate list \<Rightarrow> time \<Rightarrow> int \<Rightarrow> int \<Rightarrow> backup_candidate list" where
  "select_backups all before keepRecent limit =
     (let newest = rev (sort_key (\<lambda>b. (bc_modTime b, bc_name b)) all);
          old = filter (\<lambda>b. bc_modTime b < before) (drop (nat keepRecent) newest)
      in if limit > 0 then take (nat limit) old else old)"

definition planBackups :: "'b retention_env \<Rightarrow> path \<Rightarrow> file_system \<Rightarrow> time \<Rightarrow> int \<Rightarrow> int \<Rightarrow> (retention_error, backup_candidate list) result" where
  "planBackups re root fs before keepRecent limit =
     bind_res (lstat re root fs) (\<lambda>n. case n of
         None \<Rightarrow> Inr []
       | Some Directory \<Rightarrow> Inr (select_backups (backup_files root fs) before keepRecent limit)
       | Some _ \<Rightarrow> Inl (RetText ''not a directory''))"

text \<open>\<open>filepath.WalkDir\<close> visits a tree in the order of the component lists.\<close>

fun tree_size :: "(path \<times> file_node) list \<Rightarrow> (retention_error, int) result" where
  "tree_size [] = Inr 0"
| "tree_size ((p, n) # rest) =
     (case n of
        Symlink \<Rightarrow> Inl (RetText ''retention refuses a symlink in an immutable plugin tree'')
      | Directory \<Rightarrow> tree_size rest
      | Regular sz _ \<Rightarrow> bind_res (tree_size rest) (\<lambda>t. Inr (sz + t))
      | Special \<Rightarrow> Inl (RetText ''retention refuses a non-regular plugin entry''))"

definition regularTreeSize :: "path \<Rightarrow> file_system \<Rightarrow> (retention_error, int) result" where
  "regularTreeSize root fs = tree_size (sort_key fst (filter (\<lambda>(p, _). prefix root p) fs))"

section \<open>Planning\<close>

record retention_item =
  ri_kind :: string
  ri_identity :: string
  ri_sizeBytes :: int
  ri_reason :: string

record retention_report =
  rep_dryRun :: bool
  rep_items :: "retention_item list"
  rep_collectedRuns :: nat
  rep_collectedFiles :: nat
  rep_reclaimedBytes :: int

definition empty_report :: retention_report where
  "empty_report = \<lparr>rep_dryRun = False, rep_items = [], rep_collectedRuns = 0, rep_collectedFiles = 0, rep_reclaimedBytes = 0\<rparr>"

fun check_artifacts :: "'b retention_env \<Rightarrow> path \<Rightarrow> string list \<Rightarrow> file_system \<Rightarrow> (retention_error, unit) result" where
  "check_artifacts re root [] fs = Inr ()"
| "check_artifacts re root (relative # rest) fs = bind_res (inspectArtifact re root relative fs) (\<lambda>_. check_artifacts re root rest fs)"

definition workspace_of :: "path \<Rightarrow> string \<Rightarrow> path" where
  "workspace_of root uid = join_path (root @ [''workspaces'']) uid"

fun plan_runs :: "'b retention_env \<Rightarrow> path \<Rightarrow> retention_run list \<Rightarrow> file_system \<Rightarrow> (retention_error, retention_item list) result" where
  "plan_runs re root [] fs = Inr []"
| "plan_runs re root (c # cs) fs =
     bind_res (check_artifacts re root (rr_artifactPaths c) fs) (\<lambda>_.
     bind_res (lstat re (workspace_of root (rr_uid c)) fs) (\<lambda>info.
     if info = Some Symlink then Inl (RetText ''retention refuses a symlink workspace'')
     else bind_res (plan_runs re root cs fs) (\<lambda>items.
       Inr (\<lparr>ri_kind = ''Run'', ri_identity = rr_uid c, ri_sizeBytes = rr_artifactBytes c, ri_reason = ''terminal and older than cutoff''\<rparr> # items))))"

definition backup_item :: "backup_candidate \<Rightarrow> retention_item" where
  "backup_item b = \<lparr>ri_kind = ''Backup'', ri_identity = bc_name b, ri_sizeBytes = bc_size b,
     ri_reason = ''older than cutoff and outside the preserved recent set''\<rparr>"

definition plugin_path :: "path \<Rightarrow> retention_plugin \<Rightarrow> path" where
  "plugin_path root p = join_path (join_path (root @ [''plugins'']) (rp_name p)) (rp_version p)"

fun plan_plugins :: "path \<Rightarrow> retention_plugin list \<Rightarrow> file_system \<Rightarrow> (retention_error, (retention_plugin \<times> int) list) result" where
  "plan_plugins root [] fs = Inr []"
| "plan_plugins root (p # ps) fs =
     bind_res (regularTreeSize (plugin_path root p) fs) (\<lambda>sz. bind_res (plan_plugins root ps fs) (\<lambda>rest. Inr ((p, sz) # rest)))"

definition plugin_item :: "retention_plugin \<times> int \<Rightarrow> retention_item" where
  "plugin_item = (\<lambda>(p, sz). \<lparr>ri_kind = ''PluginInstallation'', ri_identity = rp_name p @ ''@'' @ rp_version p, ri_sizeBytes = sz,
     ri_reason = ''inactive, old, and unreferenced''\<rparr>)"

section \<open>Collecting\<close>

fun prune_runs :: "'b retention_env \<Rightarrow> string list \<Rightarrow> 'b \<Rightarrow> (retention_error, unit) result \<times> 'b" where
  "prune_runs re [] b = (Inr (), b)"
| "prune_runs re (uid # uids) b =
     (case re_pruner re of
        None \<Rightarrow> (Inr (), b)
      | Some prune \<Rightarrow> (case prune uid b of
          (Inl e, b') \<Rightarrow> (Inl (RetText (''remove durable history for Run '' @ uid @ '': '' @ e)), b')
        | (Inr _, b') \<Rightarrow> prune_runs re uids b'))"

fun collect_artifacts :: "'b retention_env \<Rightarrow> path \<Rightarrow> string list \<Rightarrow> retention_report \<Rightarrow> file_system \<Rightarrow> retention_error option \<times> retention_report \<times> file_system" where
  "collect_artifacts re root [] rep fs = (None, rep, fs)"
| "collect_artifacts re root (relative # rest) rep fs =
     (case inspectArtifact re root relative fs of
        Inl e \<Rightarrow> (Some e, rep, fs)
      | Inr (path, info) \<Rightarrow> (case os_remove re path fs of
          RemoveFailed e \<Rightarrow> (Some (RetText e), rep, fs)
        | Missing \<Rightarrow> collect_artifacts re root rest rep fs
        | Removed fs' \<Rightarrow> collect_artifacts re root rest
            (rep\<lparr>rep_collectedFiles := Suc (rep_collectedFiles rep),
              rep_reclaimedBytes := rep_reclaimedBytes rep + (case info of Some (Regular sz _) \<Rightarrow> sz | _ \<Rightarrow> 0)\<rparr>) fs'))"

fun collect_run_files :: "'b retention_env \<Rightarrow> path \<Rightarrow> retention_run list \<Rightarrow> retention_report \<Rightarrow> file_system \<Rightarrow> retention_error option \<times> retention_report \<times> file_system" where
  "collect_run_files re root [] rep fs = (None, rep, fs)"
| "collect_run_files re root (c # cs) rep fs =
     (case collect_artifacts re root (rr_artifactPaths c) rep fs of
        (Some e, rep', fs') \<Rightarrow> (Some e, rep', fs')
      | (None, rep', fs') \<Rightarrow> (case removeTreeWithin re (root @ [''workspaces'']) (workspace_of root (rr_uid c)) fs' of
          Inl e \<Rightarrow> (Some e, rep', fs')
        | Inr fs'' \<Rightarrow> collect_run_files re root cs rep'
            (removeEmptyParents re (root @ [''artifacts'']) (join_path (root @ [''artifacts'']) (rr_uid c)) fs'')))"

fun collect_backups :: "'b retention_env \<Rightarrow> path \<Rightarrow> backup_candidate list \<Rightarrow> retention_report \<Rightarrow> file_system \<Rightarrow> retention_error option \<times> retention_report \<times> file_system" where
  "collect_backups re root [] rep fs = (None, rep, fs)"
| "collect_backups re root (b # bs) rep fs =
     (let rep' = rep\<lparr>rep_collectedFiles := Suc (rep_collectedFiles rep), rep_reclaimedBytes := rep_reclaimedBytes rep + bc_size b\<rparr> in
      case os_remove re (root @ [bc_name b]) fs of
        RemoveFailed e \<Rightarrow> (Some (RetText e), rep, fs)
      | Missing \<Rightarrow> collect_backups re root bs rep' fs
      | Removed fs' \<Rightarrow> collect_backups re root bs rep' fs')"

fun collect_plugins :: "'b retention_env \<Rightarrow> path \<Rightarrow> (retention_plugin \<times> int) list \<Rightarrow> retention_report \<Rightarrow> db \<Rightarrow> file_system
    \<Rightarrow> retention_error option \<times> retention_report \<times> db \<times> file_system" where
  "collect_plugins re root [] rep s fs = (None, rep, s, fs)"
| "collect_plugins re root ((p, sz) # ps) rep s fs =
     (case CollectRetainedPlugin (env_lib (re_env re)) s p of
        Inl e \<Rightarrow> (Some (RetStore e), rep, s, fs)
      | Inr s' \<Rightarrow> (case removeTreeWithin re (root @ [''plugins'']) (plugin_path root p) fs of
          Inl e \<Rightarrow> (Some e, rep, s', fs)
        | Inr fs' \<Rightarrow> collect_plugins re root ps
            (rep\<lparr>rep_collectedFiles := Suc (rep_collectedFiles rep), rep_reclaimedBytes := rep_reclaimedBytes rep + sz\<rparr>) s' fs'))"

text \<open>What \<open>Apply\<close> finds to remove: Runs, backups, plugin versions, and the items of the report.\<close>

definition retention_plan :: "'b retention_env \<Rightarrow> path \<Rightarrow> time option \<Rightarrow> int \<Rightarrow> int \<Rightarrow> int \<Rightarrow> bool \<Rightarrow> db \<Rightarrow> file_system
    \<Rightarrow> (retention_error, retention_run list \<times> backup_candidate list \<times> (retention_plugin \<times> int) list \<times> retention_item list) result" where
  "retention_plan re root completedBefore keepRecent keepRecentBackups limit includeInactivePlugins s fs =
     bind_res (map_err RetStore (PlanRunRetention s completedBefore keepRecent limit)) (\<lambda>candidates.
     bind_res (plan_runs re root candidates fs) (\<lambda>items.
     bind_res (planBackups re (root @ [''backups'']) fs (the completedBefore) keepRecentBackups limit) (\<lambda>backups.
     bind_res (if includeInactivePlugins
         then bind_res (map_err RetStore (PlanPluginRetention (env_lib (re_env re)) s completedBefore limit)) (\<lambda>ps. plan_plugins root ps fs)
         else Inr []) (\<lambda>plugins.
     Inr (candidates, backups, plugins, items @ map backup_item backups @ map plugin_item plugins)))))"

text \<open>The part of \<open>Apply\<close> after the rows of the Runs are deleted.\<close>

definition collect_files :: "'b retention_env \<Rightarrow> path \<Rightarrow> retention_run list \<Rightarrow> backup_candidate list \<Rightarrow> (retention_plugin \<times> int) list \<Rightarrow> retention_report
    \<Rightarrow> db \<Rightarrow> file_system \<Rightarrow> retention_error option \<times> retention_report \<times> db \<times> file_system" where
  "collect_files re root candidates backups plugins rep s fs =
     (case collect_run_files re root candidates rep fs of
        (Some e, rep1, fs1) \<Rightarrow> (Some e, rep1, s, fs1)
      | (None, rep1, fs1) \<Rightarrow> (case collect_backups re (root @ [''backups'']) backups rep1 fs1 of
          (Some e, rep2, fs2) \<Rightarrow> (Some e, rep2, s, fs2)
        | (None, rep2, fs2) \<Rightarrow> collect_plugins re root plugins rep2 s fs2))"

definition Apply_retention :: "'b retention_env \<Rightarrow> string \<Rightarrow> time option \<Rightarrow> int \<Rightarrow> int \<Rightarrow> int \<Rightarrow> bool \<Rightarrow> bool \<Rightarrow> db \<Rightarrow> file_system \<Rightarrow> 'b
    \<Rightarrow> (retention_error option \<times> retention_report) \<times> db \<times> file_system \<times> 'b" where
  "Apply_retention re stateDir completedBefore keepRecent keepRecentBackups limit collect includeInactivePlugins s fs b =
     (if \<not> IsAbs stateDir then ((Some (RetText ''retention state directory must be absolute''), empty_report), s, fs, b)
      else let root = join_path [] stateDir in
        case retention_plan re root completedBefore keepRecent keepRecentBackups limit includeInactivePlugins s fs of
          Inl e \<Rightarrow> ((Some e, empty_report), s, fs, b)
        | Inr (candidates, backups, plugins, items) \<Rightarrow>
            let report = empty_report\<lparr>rep_dryRun := \<not> collect, rep_items := items\<rparr>; uids = map rr_uid candidates in
            if \<not> collect \<or> (candidates = [] \<and> backups = [] \<and> plugins = []) then ((None, report), s, fs, b)
            else (case prune_runs re uids b of
                (Inl e, b') \<Rightarrow> ((Some e, empty_report), s, fs, b')
              | (Inr _, b') \<Rightarrow> (case CollectRetainedRuns (re_env re) s uids of
                  Inl e \<Rightarrow> ((Some (RetStore e), empty_report), s, fs, b')
                | Inr s1 \<Rightarrow> (case collect_files re root candidates backups plugins (report\<lparr>rep_collectedRuns := length candidates\<rparr>) s1 fs of
                    (e, rep, s2, fs2) \<Rightarrow> ((e, rep), s2, fs2, b')))))"

section \<open>What is removed\<close>

lemma rel_path_inside: "fst (rel_path b t) = 0 \<longleftrightarrow> prefix b t" "fst (rel_path b t) = 0 \<Longrightarrow> t = b @ snd (rel_path b t)"
  by (induction b t rule: rel_path.induct) (auto split: if_splits)

text \<open>The new file system has lost some paths inside a directory, and nothing else.\<close>

definition shrunk :: "path \<Rightarrow> file_system \<Rightarrow> file_system \<Rightarrow> bool" where
  "shrunk root fs fs' \<longleftrightarrow> set fs' \<subseteq> set fs \<and> filter (\<lambda>(p, _). \<not> prefix root p) fs' = filter (\<lambda>(p, _). \<not> prefix root p) fs"

lemma shrunk_refl [simp]: "shrunk root fs fs"
  by (simp add: shrunk_def)

lemma shrunk_trans: "shrunk root fs fs' \<Longrightarrow> shrunk root fs' fs'' \<Longrightarrow> shrunk root fs fs''"
  by (auto simp: shrunk_def)

lemma shrunk_filter: "(\<And>p n. \<not> P (p, n) \<Longrightarrow> prefix root p) \<Longrightarrow> shrunk root fs (filter P fs)"
  unfolding shrunk_def by (auto simp: filter_filter intro!: filter_cong)

lemma os_remove_shrunk: "os_remove re p fs = Removed fs' \<Longrightarrow> prefix root p \<Longrightarrow> shrunk root fs fs'"
  by (auto simp: os_remove_def intro!: shrunk_filter split: option.splits if_splits)

lemma inspect_inside:
  assumes "inspectArtifact re root relative fs = Inr (path, info)"
  shows "prefix root path"
proof -
  obtain q where q: "safeStatePath root relative = Inr q" using assms by (cases "safeStatePath root relative") (auto simp: inspectArtifact_def)
  obtain i where i: "lstat re q fs = Inr i" using assms q by (cases "lstat re q fs") (auto simp: inspectArtifact_def)
  have "q = path" using assms q i by (cases i rule: option.exhaust; cases "the i") (auto simp: inspectArtifact_def)
  then have "safeStatePath root relative = Inr path" using q by simp
  then show ?thesis by (auto simp: safeStatePath_def Let_def rel_path_inside(1) split: if_splits)
qed

lemma collect_artifacts_shrunk: "collect_artifacts re root paths rep fs = (e, rep', fs') \<Longrightarrow> shrunk root fs fs'"
proof (induction paths arbitrary: rep fs)
  case (Cons relative paths)
  show ?case
  proof (cases "inspectArtifact re root relative fs")
    case (Inl x)
    then show ?thesis using Cons.prems by simp
  next
    case (Inr x)
    obtain path info where i: "inspectArtifact re root relative fs = Inr (path, info)" using Inr by (cases x) auto
    show ?thesis
    proof (cases "os_remove re path fs")
      case (Removed fs1)
      have "shrunk root fs fs1" by (rule os_remove_shrunk[OF Removed inspect_inside[OF i]])
      moreover have "shrunk root fs1 fs'" using Cons.prems i Removed by (intro Cons.IH) simp
      ultimately show ?thesis by (rule shrunk_trans)
    qed (use Cons i in auto)
  qed
qed simp

lemma removeTree_shrunk:
  assumes "removeTreeWithin re base target fs = Inr fs'" "prefix root base"
  shows "shrunk root fs fs'"
proof -
  obtain ups rest where r: "rel_path base target = (ups, rest)" by fastforce
  then have u: "ups = 0" "rest \<noteq> []" using assms(1) by (auto simp: removeTreeWithin_def split: if_splits)
  obtain i where i: "lstat re target fs = Inr i" using assms(1) r u by (cases "lstat re target fs") (auto simp: removeTreeWithin_def)
  have d: "fs' = fs \<or> fs' = remove_all target fs"
    using assms(1) r u i by (cases i rule: option.exhaust; cases "the i") (auto simp: removeTreeWithin_def)
  have "fst (rel_path base target) = 0" using r u by simp
  then have t: "prefix root target" using assms(2) rel_path_inside(1) prefix_order.trans by metis
  have "shrunk root fs (remove_all target fs)"
    unfolding remove_all_def by (rule shrunk_filter) (use t prefix_order.trans in auto)
  then show ?thesis using d by auto
qed

text \<open>A name without separators that is not a reference to a directory, as a UUID is.\<close>

definition plain :: "string \<Rightarrow> bool" where
  "plain n \<longleftrightarrow> n \<noteq> [] \<and> n \<noteq> ''.'' \<and> n \<noteq> ''..'' \<and> CHR ''/'' \<notin> set n"

lemma split_on_none: "c \<notin> set s \<Longrightarrow> split_on c s = [s]"
  by (induction s) auto

lemma join_plain: "plain n \<Longrightarrow> join_path base n = base @ [n]"
  by (simp add: plain_def join_path_def split_on_none clean_step_def)

lemma removeEmptyParents_shrunk:
  assumes "plain n"
  shows "shrunk base fs (removeEmptyParents re base (join_path base n) fs)"
proof -
  have stop: "removeEmptyParents re base base g = g" for g by (simp add: removeEmptyParents.simps)
  show ?thesis
    unfolding join_plain[OF assms] by (subst removeEmptyParents.simps) (auto simp: stop intro: os_remove_shrunk split: remove_result.splits)
qed

lemma shrunk_up: "shrunk (root @ xs) fs fs' \<Longrightarrow> shrunk root fs fs'"
proof -
  assume a: "shrunk (root @ xs) fs fs'"
  have f: "filter (\<lambda>(p, _). \<not> prefix root p) g = filter (\<lambda>(p, _). \<not> prefix root p) (filter (\<lambda>(p, _). \<not> prefix (root @ xs) p) g)" for g :: file_system
    by (auto simp: filter_filter intro!: filter_cong dest: append_prefixD)
  show ?thesis using a f[of fs] f[of fs'] by (simp add: shrunk_def)
qed

lemma collect_run_files_shrunk:
  assumes "\<forall>c \<in> set cs. plain (rr_uid c)" "collect_run_files re root cs rep fs = (e, rep', fs')"
  shows "shrunk root fs fs'"
  using assms
proof (induction cs arbitrary: rep fs)
  case (Cons c cs)
  obtain e1 rep1 fs1 where a: "collect_artifacts re root (rr_artifactPaths c) rep fs = (e1, rep1, fs1)" by (metis prod_cases3)
  have s1: "shrunk root fs fs1" by (rule collect_artifacts_shrunk[OF a])
  show ?case
  proof (cases e1)
    case (Some x)
    then show ?thesis using Cons.prems(2) a s1 by simp
  next
    case None
    show ?thesis
    proof (cases "removeTreeWithin re (root @ [''workspaces'']) (workspace_of root (rr_uid c)) fs1")
      case (Inl x)
      then show ?thesis using Cons.prems(2) a None s1 by simp
    next
      case (Inr fs2)
      let ?fs3 = "removeEmptyParents re (root @ [''artifacts'']) (join_path (root @ [''artifacts'']) (rr_uid c)) fs2"
      have "shrunk root fs1 fs2" by (rule removeTree_shrunk[OF Inr]) simp
      moreover have "shrunk root fs2 ?fs3" by (rule shrunk_up, rule removeEmptyParents_shrunk) (use Cons.prems(1) in simp)
      moreover have "shrunk root ?fs3 fs'" by (rule Cons.IH) (use Cons.prems a None Inr in simp_all)
      ultimately show ?thesis using s1 shrunk_trans by blast
    qed
  qed
qed simp

lemma collect_backups_shrunk: "collect_backups re root bs rep fs = (e, rep', fs') \<Longrightarrow> shrunk root fs fs'"
proof (induction bs arbitrary: rep fs)
  case (Cons b bs)
  show ?case
  proof (cases "os_remove re (root @ [bc_name b]) fs")
    case (Removed fs1)
    have "shrunk root fs fs1" by (rule os_remove_shrunk[OF Removed]) simp
    moreover have "shrunk root fs1 fs'" by (rule Cons.IH) (use Cons.prems Removed in \<open>simp add: Let_def\<close>)
    ultimately show ?thesis by (rule shrunk_trans)
  qed (use Cons in \<open>auto simp: Let_def\<close>)
qed simp

lemma CollectRetainedPlugin_runs: "CollectRetainedPlugin lib s c = Inr s' \<Longrightarrow> db_runs s' = db_runs s"
  by (auto simp: CollectRetainedPlugin_def split: option.splits if_splits)

lemma collect_plugins_shrunk:
  "collect_plugins re root ps rep s fs = (e, rep', s', fs') \<Longrightarrow> shrunk root fs fs' \<and> db_runs s' = db_runs s"
proof (induction ps arbitrary: rep s fs)
  case (Cons x ps)
  obtain p sz where x: "x = (p, sz)" by fastforce
  show ?case
  proof (cases "CollectRetainedPlugin (env_lib (re_env re)) s p")
    case (Inl y)
    then show ?thesis using Cons.prems x by simp
  next
    case (Inr s1)
    note r1 = CollectRetainedPlugin_runs[OF Inr]
    show ?thesis
    proof (cases "removeTreeWithin re (root @ [''plugins'']) (plugin_path root p) fs")
      case (Inl y)
      then show ?thesis using Cons.prems x Inr r1 by auto
    next
      case fs1: (Inr fs1)
      have "shrunk root fs fs1" by (rule removeTree_shrunk[OF fs1]) simp
      moreover have "shrunk root fs1 fs' \<and> db_runs s' = db_runs s1" by (rule Cons.IH) (use Cons.prems x Inr fs1 in simp)
      ultimately show ?thesis using r1 shrunk_trans by auto
    qed
  qed
qed simp

lemma collect_files_shrunk:
  assumes "\<forall>c \<in> set cs. plain (rr_uid c)" "collect_files re root cs bs ps rep s fs = (e, rep', s', fs')"
  shows "shrunk root fs fs'" "db_runs s' = db_runs s"
proof -
  obtain e1 rep1 fs1 where a: "collect_run_files re root cs rep fs = (e1, rep1, fs1)" by (metis prod_cases3)
  obtain e2 rep2 fs2 where b: "collect_backups re (root @ [''backups'']) bs rep1 fs1 = (e2, rep2, fs2)" by (metis prod_cases3)
  have s: "shrunk root fs fs1" "shrunk root fs1 fs2"
    using collect_run_files_shrunk[OF assms(1) a] shrunk_up[OF collect_backups_shrunk[OF b]] by auto
  have "shrunk root fs fs' \<and> db_runs s' = db_runs s"
  proof (cases e1)
    case (Some x)
    then show ?thesis using assms(2) a s(1) by (auto simp: collect_files_def)
  next
    case None
    then show ?thesis using assms(2) a b s shrunk_trans[OF s] shrunk_trans[OF shrunk_trans[OF s]]
      by (cases e2) (auto simp: collect_files_def dest!: collect_plugins_shrunk)
  qed
  then show "shrunk root fs fs'" "db_runs s' = db_runs s" by auto
qed

lemma collect_runs_removes:
  "collect_runs env uids s = Inr s' \<Longrightarrow> (\<forall>u. find_run s u = None \<longrightarrow> find_run s' u = None) \<and> (\<forall>u \<in> set uids. find_run s' u = None)"
proof (induction uids arbitrary: s)
  case (Cons uid uids)
  then obtain s1 where s1: "collect_run env uid s = Inr s1" "collect_runs env uids s1 = Inr s'" by (cases "collect_run env uid s") auto
  have "find_run s1 uid = None" "\<forall>u. find_run s u = None \<longrightarrow> find_run s1 u = None"
    using s1(1) by (auto simp: collect_run_def find_run_remove split: option.splits if_splits)
  then show ?case using Cons.IH[OF s1(2)] by auto
qed simp

lemma candidate_of_run:
  assumes "PlanRunRetention s cutoff keep limit = Inr cs" "c \<in> set cs"
  shows "\<exists>r \<in> set (db_runs s). run_uid r = rr_uid c"
proof -
  obtain k t where t: "(t, rr_uid c) \<in> set (retention_candidates s k (nat keep))"
    using assms by (auto simp: PlanRunRetention_def dest!: in_set_takeD split: option.splits if_splits)
  then obtain r where "r \<in> set (db_runs s)" "(case run_completed r of None \<Rightarrow> None
          | Some t \<Rightarrow> if terminalRunPhase (run_phase r) \<and> ts_less t k \<and> \<not> open_work s (run_uid r) \<and>
                         run_uid r \<notin> set (map run_uid (newest_terminal s (nat keep)))
                      then Some (t, run_uid r) else None) = Some (t, rr_uid c)"
    by (auto simp: retention_candidates_def set_map_filter)
  then show ?thesis by (cases "run_completed r") (auto split: if_splits)
qed


lemma backups_keep_recent:
  assumes "distinct all"
  defines "newest \<equiv> rev (sort_key (\<lambda>b. (bc_modTime b, bc_name b)) all)"
  shows "set (select_backups all before keep limit) \<inter> set (take (nat keep) newest) = {}"
    "\<forall>b \<in> set (select_backups all before keep limit). b \<in> set all \<and> bc_modTime b < before"
    "limit > 0 \<Longrightarrow> length (select_backups all before keep limit) \<le> nat limit"
proof -
  have sub: "set (select_backups all before keep limit) \<subseteq> {b \<in> set (drop (nat keep) newest). bc_modTime b < before}"
    by (auto simp: select_backups_def Let_def newest_def dest!: in_set_takeD)
  have "distinct newest" using assms by (simp add: newest_def)
  then have "set (take (nat keep) newest) \<inter> set (drop (nat keep) newest) = {}" by (rule set_take_disj_set_drop_if_distinct) simp
  then show "set (select_backups all before keep limit) \<inter> set (take (nat keep) newest) = {}" using sub by auto
  show "\<forall>b \<in> set (select_backups all before keep limit). b \<in> set all \<and> bc_modTime b < before"
    using sub by (auto simp: newest_def dest!: in_set_dropD)
  show "limit > 0 \<Longrightarrow> length (select_backups all before keep limit) \<le> nat limit" by (simp add: select_backups_def Let_def)
qed

section \<open>A concrete collection\<close>

definition sample_retention :: "unit retention_env" where
  "sample_retention = \<lparr>re_env = Samples.sample_env, fs_fails = (\<lambda>_. None), re_pruner = None\<rparr>"

definition sample_files :: file_system where
  "sample_files = [([''var''], Directory), ([''var'', ''backups''], Directory), ([''var'', ''backups'', ''a.tar.gz''], Regular 10 1), ([''etc''], Directory)]"

lemma sample_collection_steps:
  "IsAbs ''/var''" "join_path [] ''/var'' = [''var'']" "has_suffix ''a.tar.gz'' ''.tar.gz''"
  by code_simp+

lemma sample_collection_plan:
  "retention_plan sample_retention [''var''] (Some 9) 0 0 5 False empty_db sample_files =
     Inr ([], [\<lparr>bc_name = ''a.tar.gz'', bc_modTime = 1, bc_size = 10\<rparr>], [], [backup_item \<lparr>bc_name = ''a.tar.gz'', bc_modTime = 1, bc_size = 10\<rparr>])"
  using sample_collection_steps(3)
  by (simp add: retention_plan_def PlanRunRetention_def retention_candidates_def planBackups_def lstat_def sample_retention_def sample_files_def
      backup_files_def select_backups_def map_filter_simps empty_db_def)

lemma sample_collection:
  "case Apply_retention sample_retention ''/var'' (Some 9) 0 0 5 True False empty_db sample_files () of
     ((e, rep), s', fs', b') \<Rightarrow> map fst fs' = [[''var''], [''var'', ''backups''], [''etc'']]"
  by (simp add: Apply_retention_def sample_collection_steps sample_collection_plan CollectRetainedRuns_def collect_files_def
      os_remove_def) (simp add: sample_retention_def sample_files_def)


end
