(* ===== verification/Config.thy ===== *)
theory Config
  imports Go_Std
begin

text \<open>
  The configuration of the daemon, \<open>internal/config/config.go\<close>: the defaults, the checks and loading. The file is what \<open>os.ReadFile\<close>
  returns and the strict YAML decoder is a parameter, which overwrites the defaults with the keys of the document. A configuration that is loaded
  passes the checks, in particular the bounds the orchestrator and the plugin manager rely on.
\<close>

record config =
  cfg_stateDir :: string
  cfg_runtimeDir :: string
  cfg_socketPath :: string
  cfg_httpListen :: string
  cfg_logLevel :: string
  cfg_logFormat :: string
  cfg_maxActiveRuns :: int
  cfg_maxConcurrentActivities :: int
  cfg_maxAgentProcesses :: int

definition Default_config :: config where
  "Default_config = \<lparr>cfg_stateDir = ''/var/lib/orchigram'', cfg_runtimeDir = ''/run/orchigram'', cfg_socketPath = ''/run/orchigram/orchigram.sock'',
     cfg_httpListen = [], cfg_logLevel = ''info'', cfg_logFormat = ''json'', cfg_maxActiveRuns = 8, cfg_maxConcurrentActivities = 4, cfg_maxAgentProcesses = 2\<rparr>"

definition Validate_config :: "config \<Rightarrow> (string, unit) result" where
  "Validate_config c =
     (if cfg_stateDir c = [] \<or> cfg_runtimeDir c = [] \<or> cfg_socketPath c = [] then Inl ''stateDir, runtimeDir, and socketPath are required''
      else if \<not> has_prefix (cfg_stateDir c) ''/'' \<or> \<not> has_prefix (cfg_runtimeDir c) ''/'' \<or> \<not> has_prefix (cfg_socketPath c) ''/''
        then Inl ''stateDir, runtimeDir, and socketPath must be absolute''
      else if cfg_logLevel c \<notin> {''debug'', ''info'', ''warn'', ''error''} then Inl (''unsupported logging.level '' @ cfg_logLevel c)
      else if cfg_logFormat c \<notin> {''json'', ''text''} then Inl (''unsupported logging.format '' @ cfg_logFormat c)
      else if cfg_maxActiveRuns c < 1 \<or> cfg_maxActiveRuns c > 1024 then Inl ''operations.maxActiveRuns must be between 1 and 1024''
      else if cfg_maxConcurrentActivities c < 1 \<or> cfg_maxConcurrentActivities c > 1024 then Inl ''operations.maxConcurrentActivities must be between 1 and 1024''
      else if cfg_maxAgentProcesses c < 1 \<or> cfg_maxAgentProcesses c > cfg_maxConcurrentActivities c
        then Inl ''operations.maxAgentProcesses must be between 1 and operations.maxConcurrentActivities''
      else Inr ())"

datatype file_read = FileMissing | FileError string | FileBytes string

definition Load_config :: "(string \<Rightarrow> file_read) \<Rightarrow> (string \<Rightarrow> config \<Rightarrow> (string, config) result) \<Rightarrow> string \<Rightarrow> (string, config) result" where
  "Load_config read_file decode path =
     (case read_file (if path = [] then ''/etc/orchigram/config.yaml'' else path) of
        FileMissing \<Rightarrow> Inr Default_config
      | FileError e \<Rightarrow> Inl (''read config: '' @ e)
      | FileBytes bytes \<Rightarrow>
          bind_res (map_err (\<lambda>e. ''decode config: '' @ e) (decode bytes Default_config)) (\<lambda>cfg.
          bind_res (Validate_config cfg) (\<lambda>_. Inr cfg)))"

lemma default_is_valid: "Validate_config Default_config = Inr ()"
  by code_simp

lemma loaded_is_valid:
  assumes "Load_config read_file decode path = Inr cfg"
  shows "Validate_config cfg = Inr ()"
  using assms default_is_valid by (auto simp: Load_config_def split: file_read.splits)

lemma valid_bounds:
  assumes "Validate_config cfg = Inr ()"
  shows "1 \<le> cfg_maxActiveRuns cfg" "cfg_maxActiveRuns cfg \<le> 1024" "1 \<le> cfg_maxAgentProcesses cfg"
    "cfg_maxAgentProcesses cfg \<le> cfg_maxConcurrentActivities cfg" "cfg_maxConcurrentActivities cfg \<le> 1024"
  using assms by (auto simp: Validate_config_def split: if_splits)

end
