(* ===== verification/Spec2Isabelle.thy ===== *)
theory Spec2Isabelle
  imports Server_List Engine_Scheduler Engine_Activities Http_Ingress Plugin_Controller Retention_Service Config
begin

text \<open>
  A verification development of orchigram, a single-node workflow control plane written in Go. All paths are under \<open>src/\<close>.

  \<^bold>\<open>The program.\<close> Clients apply versioned resources (\<open>internal/resource\<close>) to a SQLite store (\<open>internal/store\<close>), which keeps a watch log of
  every change. Triggers (schedules, provider streams, webhooks, manual starts) deliver occurrences; each is accepted by one
  transaction that writes a receipt, pins the compiled plan of the Flow and queues a start command in an outbox. The
  orchestrator claims commands and starts a durable workflow per Run; the engine interprets the pinned plan over the
  workflow framework, and its activities record attempts, approvals and events in the store. Retention removes
  finished Runs. The correctness of the whole rests on: no occurrence starts two Runs, no accepted occurrence is lost, a Run executes
  the plan it was accepted with, a Run that ended does not change, and a watcher sees every change.

  \<^bold>\<open>Theories, in the order of their imports.\<close>

  \<^item> \<open>Prelude\<close>: results as sums (\<open>bind_res\<close>), tables as lists of rows with \<open>select_row\<close>, \<open>update_rows\<close>, \<open>rows_affected\<close>, Go maps as
    association lists, and the locales \<open>transactions\<close> and \<open>monotone_transactions\<close>: an invariant, and an order on states, that every
    committed request keeps, hold over any sequence of requests. \<open>Go_Std\<close> and \<open>Json\<close>: what the sources use of \<open>strings\<close>, \<open>time\<close>, \<open>strconv\<close>
    and \<open>encoding/json\<close>.
  \<^item> \<open>Resource\<close> (\<open>internal/resource/resource.go\<close>): the resource kinds, validation and strict decoding. \<open>Flow_Plan\<close>: diagnostics and the
    execution plan.
  \<^item> \<open>Store_Base\<close>: the tables of \<open>internal/store/migrations\<close> as one record \<open>db\<close>. \<open>Store_Resources\<close>, \<open>Store_Triggers\<close>, \<open>Store_Outbox\<close>, \<open>Store_Runs\<close>,
    \<open>Store_Plugins\<close>, \<open>Store_Retention\<close>: one function per method of \<open>store.go\<close> and \<open>retention.go\<close>, each a transaction
    from a state to an error or a new state. Each has its invariant, an interpretation of the transaction locale, and
    its properties: compare-and-swap and the watch log as a refinement of the resource collection; receipts bind occurrences; the
    outbox as an interpretation of \<open>dispatch_queue\<close>, claims in order under a lease, nothing lost; the event log of a Run
    without gaps, attempts replayed, terminal phases final; exclusive activation; retention that removes exactly its plan.
    \<open>Store_System\<close> runs all requests in any order: the joint invariant and that an occurrence is bound to one Run for ever.
  \<^item> \<open>Server_List\<close> (\<open>internal/server\<close>): List with continue tokens and Watch. Paging visits every resource once; a watch sends every
    event once and in order, for any polling times.
  \<^item> \<open>Graph\<close>, \<open>Action_Contract\<close>, \<open>Flow_Compiler\<close> (\<open>internal/flow/compiler.go\<close>, \<open>internal/actioncontract/schema.go\<close>): \<open>Compile\<close> with every check. It returns, its
    plan is well formed and canonical, components are the strongly connected components, every cycle is bounded by a loop limit, and
    an accepted mapping is type safe.
  \<^item> \<open>Engine_Plan\<close>, \<open>Engine_Run\<close>, \<open>Engine_Scheduler\<close> (\<open>internal/engine/engine.go\<close>): the component model, the execution of a component and the scheduler as a
    step relation over the completions of running components. Parallelism is bounded, dependencies come first, a run neither deadlocks nor
    runs a node beyond its loop bound, an event is consumed once. \<open>Engine_Activities\<close>: the activities on the store; a recorded
    outcome is replayed without calling the executor. \<open>Engine_Adapter\<close>: start, signal, cancel and reconcile over a
    workflow backend.
  \<^item> \<open>Health\<close>, \<open>Orchestrator\<close> (\<open>internal/orchestrator/orchestrator.go\<close>): acceptance with the compiled plan, dispatch of commands and the rounds of
    the control loop. A dispatch creates at most one instance with the pinned plan and closes a command only when it may; the capacity
    is never exceeded.
  \<^item> \<open>Trigger_Controller\<close> (\<open>internal/trigger/controller.go\<close>): schedules, subscriptions and provider events; the locale \<open>acceptor\<close> is the interface \<open>Acceptor\<close>,
    interpreted for the store and for the orchestrator. \<open>Http_Ingress\<close> (\<open>internal/httpingress/server.go\<close>): one webhook request. \<open>References\<close>
    (\<open>internal/references/resolver.go\<close>): diagnostics and the Ready condition.
  \<^item> \<open>Retention_Service\<close> (\<open>internal/retention/retention.go\<close>): planning and collection over the store and the file system; only paths inside the state
    directory are removed, and none before the rows are. \<open>Config\<close> (\<open>internal/config/config.go\<close>): the checks of the configuration.
  \<^item> \<open>Plugin_Bundle\<close> (\<open>internal/pluginbundle/bundle.go\<close>): manifests, reading, building and publishing bundles; an accepted bundle is verified, and what is
    built can be read back. \<open>Json_Text\<close> and \<open>Plugin_Contract\<close> (\<open>sdk/plugin/schema.go\<close>, \<open>validateMetadata\<close> of \<open>sdk/plugin/sdk.go\<close>): JSON texts, the
    descriptors of a plugin and the contract the host pins; it covers the capabilities exactly and does not depend on order or layout.
    \<open>Plugin_Runtime\<close> (\<open>internal/pluginmanager/manager.go\<close>): installing, launching, activating and probing plugin processes; each
    operation succeeds or leaves the database, the directories and the running processes as they were. \<open>Plugin_Controller\<close>
    (\<open>internal/plugincontroller/controller.go\<close>): the reconciler of installations over the locale \<open>activation_runtime\<close>, the interface \<open>Runtime\<close>, interpreted
    for the manager and for the unavailable runtime; activations follow the desired state and statuses tell what was observed.
  \<^item> This theory: the control loop under a loaded configuration.
  \<^item> \<open>Samples\<close> and the ends of the theories: concrete inputs at which the hypotheses of the properties hold.

  \<^bold>\<open>State, errors and interleaving.\<close> A method of the store is one SQLite transaction, hence one function; an error is a value \<open>Inl\<close> and leaves the state.
  Where a component performs several transactions (orchestrator, trigger controller, webhook listener) the state each of them
  sees is passed through a parameter (\<open>oe_between\<close>, \<open>ae_between\<close>) that stands for the other clients, and the theorems hold for every such function that meets
  the named conditions. The crash hooks of the orchestrator are kept as faults at a boundary.

  \<^bold>\<open>Bounds and fuel.\<close> The depth of the component search is bounded by the number of nodes, which its lemmas show is enough. A computation that may not return
  (the compiler on recursive schemas, the execution of a component) is in \<open>option\<close>, and that it returns is proved as
  such for what the compiler accepts. The waiting of \<open>RemoveFinishedRun\<close> is bounded by a number of polls, its deadline. Times are nanoseconds
  as \<open>nat\<close> from the zero time of Go, durations are \<open>int\<close>; timestamps in tables compare as the texts the store writes.

  \<^bold>\<open>Parameters.\<close> Code outside the repository is an argument with named hypotheses: the YAML decoder, the cron parser and the time zone
  database, CEL, JSON Schema, SHA-256, the capability resolver of plugins, the task executor, the workflow framework and its
  backend (\<open>backend_ok\<close>: unique identities, creation that adds or changes nothing), the secret resolver and fresh identifiers.

  \<^bold>\<open>Not modelled.\<close> Opening the database and its migrations; the handlers of \<open>internal/server/api.go\<close> other than List and Watch, which call the modelled
  operations; the sockets and streams of plugin processes, the task, agent and trigger calls of the plugin manager and its artifact files; packaging, backup, installation
  and workspaces; the clients (command line, terminal interface); generated code.
\<close>

section \<open>The daemon and its configuration\<close>

text \<open>C13: the bound on active Runs of the configuration is kept by the control loop that the daemon starts with it: whatever file was
  loaded, from a state within the bound any number of rounds, whatever the engine answers and wherever they fail, leaves at most the configured number of
  unfinished Runs, which is at most 1024, while only this loop creates Runs.\<close>

theorem configured_capacity_is_respected:
  assumes "Load_config read_file decode path = Inr cfg" "oe_maxActiveRuns oe = max_active_runs (Some (cfg_maxActiveRuns cfg))"
    and "sole_dispatcher oe" "loop_rounds n oe canceled ecanceled (s, b, h) = Some (s', b', h')" "int (active_runs s) \<le> cfg_maxActiveRuns cfg"
  shows "int (active_runs s') \<le> cfg_maxActiveRuns cfg \<and> active_runs s' \<le> 1024"
proof -
  have c: "1 \<le> cfg_maxActiveRuns cfg" "cfg_maxActiveRuns cfg \<le> 1024"
    using valid_bounds[OF loaded_is_valid[OF assms(1)]] by auto
  have "active_runs s' \<le> max (oe_maxActiveRuns oe) (active_runs s)" by (rule loop_rounds_active[OF assms(3,4)])
  then show ?thesis using assms(2,5) c by (auto simp: max_active_runs_def)
qed

theorem configured_capacity_is_respected_witness:
  "\<exists>s' b' h'. loop_rounds 1 sample_orch (\<lambda>_. False) (\<lambda>_. False) (sample_queued ''pending'' 0 None, [], []) = Some (s', b', h') \<and>
     length (db_runs s') = 1 \<and> active_runs s' \<le> 1"
proof -
  have v: "Validate_config (Default_config\<lparr>cfg_maxActiveRuns := 1\<rparr>) = Inr ()" by code_simp
  have l: "Load_config (\<lambda>_. FileBytes []) (\<lambda>_ c. Inr (c\<lparr>cfg_maxActiveRuns := 1\<rparr>)) [] = Inr (Default_config\<lparr>cfg_maxActiveRuns := 1\<rparr>)"
    using v by (simp add: Load_config_def map_err_def)
  obtain s' b' h' where r: "loop_rounds 1 sample_orch (\<lambda>_. False) (\<lambda>_. False) (sample_queued ''pending'' 0 None, [], []) = Some (s', b', h')"
    "length (db_runs s') = 1" by (rule sample_round)
  have "oe_maxActiveRuns sample_orch = max_active_runs (Some (cfg_maxActiveRuns (Default_config\<lparr>cfg_maxActiveRuns := 1\<rparr>)))"
    by (simp add: sample_orch_def max_active_runs_def)
  from configured_capacity_is_respected[OF l this sample_start_facts(6) r(1)] have "active_runs s' \<le> 1"
    by (simp add: sample_queued_idle)
  then show ?thesis using r by blast
qed

end
